(* ===== verification/Prelude.thy ===== *)
theory Prelude
  imports Main "HOL-Library.Word"
begin

unbundle bit_operations_syntax

text \<open>
  Shared vocabulary of the development: the machine types of the C code, little-endian
  codecs, byte-addressed memories with the closed forms of the copy and fill loops, and
  the address-range predicate every flash lemma is stated with.

  A memory is a function from 32-bit addresses to bytes.  \<open>mem_bytes m a n\<close> is what a
  copy of \<open>n\<close> bytes from address \<open>a\<close> yields, \<open>mem_write m a d\<close> the memory after the bytes
  \<open>d\<close> were stored at \<open>a\<close>, both with the wrap-around of a \<open>uint32_t\<close> address.
\<close>

section \<open>Machine types\<close>

type_synonym u8 = "8 word"
type_synonym u16 = "16 word"
type_synonym u32 = "32 word"
type_synonym u64 = "64 word"
type_synonym mem = "u32 \<Rightarrow> u8"

named_theorems codec_simps \<open>round trips of the byte codecs\<close>
named_theorems mem_simps \<open>reading and writing byte memories\<close>

lemma xor_eq_0_word: "a XOR b = 0 \<longleftrightarrow> a = (b :: 'a :: len word)"
  by (metis xor.assoc xor.left_neutral xor_self_eq)

section \<open>Lists\<close>

lemma take_Suc_nth: "i < length xs \<Longrightarrow> take (Suc i) xs = take i xs @ [xs ! i]"
  by (rule take_Suc_conv_app_nth)

lemma nth_append_sub: "length xs \<le> i \<Longrightarrow> (xs @ ys) ! i = ys ! (i - length xs)"
  by (simp add: nth_append)

lemma list_eq_take_drop:
  "take n xs = take n ys \<Longrightarrow> drop n xs = drop n ys \<Longrightarrow> xs = ys"
  by (metis append_take_drop_id)

section \<open>Little-endian codecs\<close>

lemma bit_u8_ge [simp]: "8 \<le> n \<Longrightarrow> \<not> bit (a :: u8) n"
  by (auto dest: bit_imp_le_length)

lemma bit_u32_ge: "32 \<le> n \<Longrightarrow> \<not> bit (a :: u32) n"
  by (auto dest: bit_imp_le_length)

definition le16 :: "u16 \<Rightarrow> u8 list" where
  "le16 v = [ucast v, ucast (drop_bit 8 v)]"

definition le32 :: "u32 \<Rightarrow> u8 list" where
  "le32 v = [ucast v, ucast (drop_bit 8 v), ucast (drop_bit 16 v), ucast (drop_bit 24 v)]"

definition rd_u16_le :: "u8 list \<Rightarrow> u16" where
  "rd_u16_le p = ucast (p ! 0) OR push_bit 8 (ucast (p ! 1))"

definition rd_u32_le :: "u8 list \<Rightarrow> u32" where
  "rd_u32_le p = ucast (p ! 0) OR push_bit 8 (ucast (p ! 1))
     OR push_bit 16 (ucast (p ! 2)) OR push_bit 24 (ucast (p ! 3))"

lemma length_le16 [simp]: "length (le16 v) = 2"
  by (simp add: le16_def)

lemma length_le32 [simp]: "length (le32 v) = 4"
  by (simp add: le32_def)

lemma rd_le16 [codec_simps]: "rd_u16_le (le16 v @ r) = v"
  unfolding rd_u16_le_def le16_def
  by (rule bit_word_eqI) (auto simp: bit_simps)

lemma rd_le32 [codec_simps]: "rd_u32_le (le32 v @ r) = v"
proof (rule bit_word_eqI)
  fix n
  show "bit (rd_u32_le (le32 v @ r)) n = bit v n" if "n < LENGTH(32)"
    unfolding rd_u32_le_def le32_def
    using that by (cases "24 \<le> n"; cases "16 \<le> n") (auto simp: bit_simps not_less)
qed

lemma le32_rd_aux:
  fixes a b c d :: u8
  shows "le32 (rd_u32_le (a # b # c # d # r)) = [a, b, c, d]"
  unfolding rd_u32_le_def le32_def
  by (auto intro!: bit_word_eqI simp: bit_simps)

lemma le32_rd [codec_simps]:
  assumes "4 \<le> length p"
  shows "le32 (rd_u32_le p) = take 4 p"
proof -
  obtain a b c d r where "p = a # b # c # d # r"
    using assms by (auto simp: numeral_eq_Suc Suc_le_length_iff)
  then show ?thesis by (simp add: le32_rd_aux)
qed

lemma le16_rd [codec_simps]:
  assumes "2 \<le> length p"
  shows "le16 (rd_u16_le p) = take 2 p"
proof -
  obtain a b r where "p = a # b # r"
    using assms by (auto simp: numeral_eq_Suc Suc_le_length_iff)
  then show ?thesis
    unfolding rd_u16_le_def le16_def
    by (auto intro!: bit_word_eqI simp: bit_simps)
qed

section \<open>Byte memories\<close>

definition mem_bytes :: "mem \<Rightarrow> u32 \<Rightarrow> nat \<Rightarrow> u8 list" where
  "mem_bytes m a n = map (\<lambda>i. m (a + of_nat i)) [0..<n]"

definition mem_write :: "mem \<Rightarrow> u32 \<Rightarrow> u8 list \<Rightarrow> mem" where
  "mem_write m a d = (\<lambda>x. if unat (x - a) < length d then d ! unat (x - a) else m x)"

definition in_range :: "u32 \<Rightarrow> nat \<Rightarrow> u32 \<Rightarrow> bool" where
  "in_range a n x \<longleftrightarrow> unat (x - a) < n"

definition mem_eq_on :: "u32 \<Rightarrow> nat \<Rightarrow> mem \<Rightarrow> mem \<Rightarrow> bool" where
  "mem_eq_on a n m m' \<longleftrightarrow> (\<forall>x. in_range a n x \<longrightarrow> m x = m' x)"

text \<open>A range that does not wrap is an interval of addresses.\<close>

lemma in_range_interval:
  assumes "unat a + n \<le> 2 ^ 32"
  shows "in_range a n x \<longleftrightarrow> unat a \<le> unat x \<and> unat x < unat a + n"
proof (cases "a \<le> x")
  case True
  then have "unat (x - a) = unat x - unat a" by (rule unat_sub)
  moreover have "unat a \<le> unat x" using True by (simp add: word_le_nat_alt)
  ultimately show ?thesis by (auto simp: in_range_def)
next
  case False
  then have lt: "unat x < unat a" by (simp add: word_le_nat_alt)
  have "unat (x - a) = 2 ^ 32 + unat x - unat a"
    using lt by (simp add: unat_sub_if_size word_size)
  then show ?thesis using lt assms by (auto simp: in_range_def)
qed

lemma in_range_offset:
  "i < n \<Longrightarrow> n \<le> 2 ^ 32 \<Longrightarrow> in_range a n (a + of_nat i)"
  by (simp add: in_range_def unat_of_nat)

text \<open>A sub-range of a range.\<close>

lemma in_range_sub:
  assumes "in_range (a + of_nat k) j x" "k + j \<le> n" "n \<le> 2 ^ 32"
  shows "unat (x - a) = unat (x - (a + of_nat k)) + k" and "in_range a n x"
proof -
  have lt: "unat (x - (a + of_nat k)) < j" using assms(1) by (simp add: in_range_def)
  have "x - a = (x - (a + of_nat k)) + of_nat k" by simp
  then have "x - a = of_nat (unat (x - (a + of_nat k)) + k)" by simp
  then show eq: "unat (x - a) = unat (x - (a + of_nat k)) + k"
    using lt assms by (simp add: unat_of_nat del: of_nat_add)
  show "in_range a n x" using lt assms(2) unfolding in_range_def eq by simp
qed

lemma in_range_0 [simp]: "\<not> in_range a 0 x"
  by (simp add: in_range_def)

lemma in_range_mono: "in_range a n x \<Longrightarrow> n \<le> m \<Longrightarrow> in_range a m x"
  by (simp add: in_range_def)

text \<open>Outside a range is outside its two parts.\<close>

lemma not_in_range_parts:
  assumes "\<not> in_range a (k + m) x" "k + m \<le> 2 ^ 32"
  shows "\<not> in_range a k x" and "\<not> in_range (a + of_nat k) m x"
  using assms in_range_mono [of a k x "k + m"] in_range_sub(2) [of a k m x "k + m"] by auto

lemma length_mem_bytes [simp]: "length (mem_bytes m a n) = n"
  by (simp add: mem_bytes_def)

lemma mem_bytes_0 [simp]: "mem_bytes m a 0 = []"
  by (simp add: mem_bytes_def)

lemma nth_mem_bytes [simp]: "i < n \<Longrightarrow> mem_bytes m a n ! i = m (a + of_nat i)"
  by (simp add: mem_bytes_def)

lemma mem_bytes_append [mem_simps]:
  "mem_bytes m a (n + k) = mem_bytes m a n @ mem_bytes m (a + of_nat n) k"
  by (rule nth_equalityI) (auto simp: nth_append add.assoc of_nat_diff)

lemma mem_bytes_Suc: "mem_bytes m a (Suc n) = m a # mem_bytes m (a + 1) n"
  using mem_bytes_append [of m a 1 n] by (simp add: mem_bytes_def)

lemma mem_bytes_cong:
  "n \<le> 2 ^ 32 \<Longrightarrow> mem_eq_on a n m m' \<Longrightarrow> mem_bytes m a n = mem_bytes m' a n"
  by (rule nth_equalityI) (auto simp: mem_eq_on_def in_range_offset)

lemma take_mem_bytes [mem_simps]: "k \<le> n \<Longrightarrow> take k (mem_bytes m a n) = mem_bytes m a k"
  by (rule nth_equalityI) auto

lemma drop_mem_bytes [mem_simps]:
  "k \<le> n \<Longrightarrow> drop k (mem_bytes m a n) = mem_bytes m (a + of_nat k) (n - k)"
  by (rule nth_equalityI) (auto simp: add.assoc)

lemma mem_write_Nil [simp]: "mem_write m a [] = m"
  by (simp add: mem_write_def)

lemma mem_write_other [mem_simps]: "\<not> in_range a (length d) x \<Longrightarrow> mem_write m a d x = m x"
  by (simp add: mem_write_def in_range_def)

lemma mem_bytes_write_same [mem_simps]:
  assumes "length d \<le> 2 ^ 32"
  shows "mem_bytes (mem_write m a d) a (length d) = d"
  by (rule nth_equalityI) (use assms in \<open>auto simp: mem_write_def unat_of_nat\<close>)

lemma mem_write_Cons:
  assumes "Suc (length d) \<le> 2 ^ 32"
  shows "mem_write m a (b # d) = mem_write (m(a := b)) (a + 1) d"
proof
  fix x
  show "mem_write m a (b # d) x = mem_write (m(a := b)) (a + 1) d x"
  proof (cases "x = a")
    case True
    have "a - (a + 1) = - 1" by simp
    then have "unat (a - (a + 1)) = 2 ^ 32 - 1"
      by (simp add: unsigned_minus_1_eq_mask mask_eq_exp_minus_1)
    then show ?thesis using True assms by (simp add: mem_write_def)
  next
    case False
    then have ne: "x - a \<noteq> 0" by simp
    have "x - (a + 1) = x - a - 1" by (rule diff_diff_eq [symmetric])
    then have "unat (x - a) = Suc (unat (x - (a + 1)))"
      using unat_minus_one [OF ne] ne by (simp add: unat_gt_0 diff_diff_eq)
    then show ?thesis using False by (simp add: mem_write_def)
  qed
qed

lemma mem_write_append [mem_simps]:
  assumes "length d + length e \<le> 2 ^ 32"
  shows "mem_write m a (d @ e) = mem_write (mem_write m a d) (a + of_nat (length d)) e"
  using assms
proof (induction d arbitrary: m a)
  case Nil
  then show ?case by simp
next
  case (Cons b d)
  have le: "Suc (length (d @ e)) \<le> 2 ^ 32" "Suc (length d) \<le> 2 ^ 32"
    using Cons.prems by simp_all
  have "mem_write m a ((b # d) @ e) = mem_write (m(a := b)) (a + 1) (d @ e)"
    using mem_write_Cons [OF le(1)] by (simp only: append_Cons)
  also have "\<dots> = mem_write (mem_write (m(a := b)) (a + 1) d) (a + 1 + of_nat (length d)) e"
    by (rule Cons.IH) (use Cons.prems in simp)
  also have "mem_write (m(a := b)) (a + 1) d = mem_write m a (b # d)"
    by (rule mem_write_Cons [OF le(2), symmetric])
  also have "a + 1 + of_nat (length d) = a + of_nat (length (b # d))"
    by (simp add: add.assoc)
  finally show ?case .
qed

end
