(* ===== verification/Memory_Map.thy ===== *)
theory Memory_Map
  imports Prelude
begin

unbundle bit_operations_syntax

text \<open>
  The headers both images share: \<^verbatim>\<open>common/memory_map.h\<close> (flash and SRAM partitions, magic
  numbers, slot helpers), \<^verbatim>\<open>common/firmware_format.h\<close> (the 512-byte image header and its
  packed little-endian layout), \<^verbatim>\<open>common/shared_memory.h\<close> (the block of SRAM that survives
  a reset) and the application's side of it, \<^verbatim>\<open>application/include/bootloader_api.h\<close>.
  The lemmas are the layout facts the C code asserts statically, the slot algebra, and the
  round trips of the header layout.
\<close>

named_theorems layout_simps \<open>values of the partition constants\<close>

section \<open>Partitions\<close>

definition FLASH_BASE_ADDR :: u32 where [layout_simps]: "FLASH_BASE_ADDR = 0x08000000"
definition FLASH_TOTAL_SIZE :: u32 where [layout_simps]: "FLASH_TOTAL_SIZE = 1024 * 1024"
definition BOOTLOADER_ADDR :: u32 where [layout_simps]: "BOOTLOADER_ADDR = 0x08000000"
definition BOOTLOADER_SIZE :: u32 where [layout_simps]: "BOOTLOADER_SIZE = 64 * 1024"
definition BOOT_CONFIG_ADDR :: u32 where [layout_simps]: "BOOT_CONFIG_ADDR = 0x08010000"
definition BOOT_CONFIG_SIZE :: u32 where [layout_simps]: "BOOT_CONFIG_SIZE = 4 * 1024"
definition SLOT_A_ADDR :: u32 where [layout_simps]: "SLOT_A_ADDR = 0x08011000"
definition SLOT_B_ADDR :: u32 where [layout_simps]: "SLOT_B_ADDR = 0x08084000"
definition SLOT_SIZE :: u32 where [layout_simps]: "SLOT_SIZE = 460 * 1024"
definition FLASH_USED_END :: u32 where [layout_simps]: "FLASH_USED_END = SLOT_B_ADDR + SLOT_SIZE"

definition SRAM_BASE_ADDR :: u32 where [layout_simps]: "SRAM_BASE_ADDR = 0x20000000"
definition SRAM_TOTAL_SIZE :: u32 where [layout_simps]: "SRAM_TOTAL_SIZE = 128 * 1024"
definition SRAM_END_ADDR :: u32 where [layout_simps]: "SRAM_END_ADDR = SRAM_BASE_ADDR + SRAM_TOTAL_SIZE"
definition SHARED_BLOCK_ADDR :: u32 where [layout_simps]: "SHARED_BLOCK_ADDR = 0x2001FFF0"
definition SHARED_BLOCK_SIZE :: u32 where [layout_simps]: "SHARED_BLOCK_SIZE = 16"

text \<open>Slot identifiers are the characters \<^verbatim>\<open>'A'\<close> and \<^verbatim>\<open>'B'\<close>.\<close>

definition SLOT_A :: u8 where [layout_simps]: "SLOT_A = 0x41"
definition SLOT_B :: u8 where [layout_simps]: "SLOT_B = 0x42"

definition FIRMWARE_MAGIC :: u32 where [layout_simps]: "FIRMWARE_MAGIC = 0xDEADBEEF"
definition BOOT_CONFIG_MAGIC :: u32 where [layout_simps]: "BOOT_CONFIG_MAGIC = 0xB00710AD"
definition SHARED_BLOCK_MAGIC :: u32 where [layout_simps]: "SHARED_BLOCK_MAGIC = 0x5EAFB001"

definition memory_map_slot_addr :: "u8 \<Rightarrow> u32" where
  "memory_map_slot_addr slot = (if slot = SLOT_B then SLOT_B_ADDR else SLOT_A_ADDR)"

definition memory_map_other_slot :: "u8 \<Rightarrow> u8" where
  "memory_map_other_slot slot = (if slot = SLOT_A then SLOT_B else SLOT_A)"

section \<open>Firmware header\<close>

definition FIRMWARE_HEADER_SIZE :: u32 where [layout_simps]: "FIRMWARE_HEADER_SIZE = 512"
definition FIRMWARE_SIGNATURE_SIZE :: u32 where [layout_simps]: "FIRMWARE_SIGNATURE_SIZE = 64"
definition FIRMWARE_RESERVED_SIZE :: u32 where [layout_simps]:
  "FIRMWARE_RESERVED_SIZE = FIRMWARE_HEADER_SIZE - 4 - 4 - 4 - 4 - 4 - FIRMWARE_SIGNATURE_SIZE"
definition FIRMWARE_MAX_PAYLOAD_SIZE :: u32 where [layout_simps]:
  "FIRMWARE_MAX_PAYLOAD_SIZE = 460 * 1024 - FIRMWARE_HEADER_SIZE"

record FirmwareHeader_t =
  fh_magic :: u32
  fh_version :: u32
  fh_image_size :: u32
  fh_timestamp :: u32
  fh_crc32 :: u32
  fh_signature :: "u8 list"
  fh_reserved :: "u8 list"

text \<open>
  The packed struct in memory, and its reading back: \<open>(uint8_t *)&hdr\<close> as the target of a
  copy.
\<close>

definition hdr_bytes :: "FirmwareHeader_t \<Rightarrow> u8 list" where
  "hdr_bytes h = le32 (fh_magic h) @ le32 (fh_version h) @ le32 (fh_image_size h)
     @ le32 (fh_timestamp h) @ le32 (fh_crc32 h) @ fh_signature h @ fh_reserved h"

definition hdr_of_bytes :: "u8 list \<Rightarrow> FirmwareHeader_t" where
  "hdr_of_bytes bs =
     \<lparr> fh_magic = rd_u32_le bs,
       fh_version = rd_u32_le (drop 4 bs),
       fh_image_size = rd_u32_le (drop 8 bs),
       fh_timestamp = rd_u32_le (drop 12 bs),
       fh_crc32 = rd_u32_le (drop 16 bs),
       fh_signature = take 64 (drop 20 bs),
       fh_reserved = take 428 (drop 84 bs) \<rparr>"

text \<open>What \<open>sizeof\<close> and the array bounds of the struct guarantee.\<close>

definition hdr_wf :: "FirmwareHeader_t \<Rightarrow> bool" where
  "hdr_wf h \<longleftrightarrow> length (fh_signature h) = 64 \<and> length (fh_reserved h) = 428"

section \<open>The shared boot block\<close>

record SharedBootBlock_t =
  sb_magic :: u32
  sb_boot_confirmed :: u32
  sb_ota_pending :: u32
  sb_reserved :: u32

definition bootloader_confirm_boot :: "SharedBootBlock_t \<Rightarrow> SharedBootBlock_t" where
  "bootloader_confirm_boot b = b\<lparr>sb_magic := SHARED_BLOCK_MAGIC, sb_boot_confirmed := 1\<rparr>"

definition bootloader_request_ota_swap :: "SharedBootBlock_t \<Rightarrow> SharedBootBlock_t" where
  "bootloader_request_ota_swap b = b\<lparr>sb_magic := SHARED_BLOCK_MAGIC, sb_ota_pending := 1\<rparr>"

section \<open>Layout facts\<close>

lemma slot_ids_distinct [simp]:
  "SLOT_A \<noteq> SLOT_B" "SLOT_B \<noteq> SLOT_A" "SLOT_A \<noteq> 0" "SLOT_B \<noteq> 0"
  by (simp_all add: layout_simps)

lemma slot_addr_simps [simp]:
  "memory_map_slot_addr SLOT_A = SLOT_A_ADDR" "memory_map_slot_addr SLOT_B = SLOT_B_ADDR"
  "memory_map_other_slot SLOT_A = SLOT_B" "memory_map_other_slot SLOT_B = SLOT_A"
  by (simp_all add: memory_map_slot_addr_def memory_map_other_slot_def)

lemma slot_addr_cases:
  obtains "memory_map_slot_addr slot = SLOT_A_ADDR" | "memory_map_slot_addr slot = SLOT_B_ADDR"
  by (cases "slot = SLOT_B") (auto simp: memory_map_slot_addr_def)

lemma slot_addr_distinct [simp]: "SLOT_A_ADDR \<noteq> SLOT_B_ADDR" "SLOT_B_ADDR \<noteq> SLOT_A_ADDR"
  by (simp_all add: layout_simps)

text \<open>A switch of slot always yields one of the two slots, and the other one.\<close>

lemma other_slot_in: "memory_map_other_slot slot \<in> {SLOT_A, SLOT_B}"
  by (simp add: memory_map_other_slot_def)

lemma other_slot_ne [simp]: "memory_map_other_slot slot \<noteq> slot"
  by (simp add: memory_map_other_slot_def)

lemma other_slot_nonzero [simp]: "memory_map_other_slot slot \<noteq> 0"
  by (simp add: memory_map_other_slot_def)

lemma other_slot_invol:
  "slot \<in> {SLOT_A, SLOT_B} \<Longrightarrow> memory_map_other_slot (memory_map_other_slot slot) = slot"
  by (auto simp: memory_map_other_slot_def)

lemma other_slot_addr:
  "slot \<in> {SLOT_A, SLOT_B} \<Longrightarrow>
     {memory_map_slot_addr slot, memory_map_slot_addr (memory_map_other_slot slot)}
       = {SLOT_A_ADDR, SLOT_B_ADDR}"
  by auto

text \<open>Partition ranges as intervals of addresses.\<close>

lemma in_config_range:
  "n \<le> 4096 \<Longrightarrow> in_range BOOT_CONFIG_ADDR n x
     \<longleftrightarrow> 0x08010000 \<le> unat x \<and> unat x < 0x08010000 + n"
  by (subst in_range_interval) (simp_all add: layout_simps)

lemma in_slot_a_range:
  "n \<le> 471040 \<Longrightarrow> in_range SLOT_A_ADDR n x
     \<longleftrightarrow> 0x08011000 \<le> unat x \<and> unat x < 0x08011000 + n"
  by (subst in_range_interval) (simp_all add: layout_simps)

lemma in_slot_b_range:
  "n \<le> 471040 \<Longrightarrow> in_range SLOT_B_ADDR n x
     \<longleftrightarrow> 0x08084000 \<le> unat x \<and> unat x < 0x08084000 + n"
  by (subst in_range_interval) (simp_all add: layout_simps)

lemmas partition_ranges = in_config_range in_slot_a_range in_slot_b_range

section \<open>Header round trips\<close>

lemma length_hdr_bytes: "hdr_wf h \<Longrightarrow> length (hdr_bytes h) = 512"
  by (simp add: hdr_bytes_def hdr_wf_def)

lemma hdr_of_bytes_wf: "length bs = 512 \<Longrightarrow> hdr_wf (hdr_of_bytes bs)"
  by (simp add: hdr_of_bytes_def hdr_wf_def)

lemma hdr_of_hdr_bytes: "hdr_wf h \<Longrightarrow> hdr_of_bytes (hdr_bytes h @ r) = h"
  by (cases h) (simp add: hdr_of_bytes_def hdr_bytes_def hdr_wf_def codec_simps)

lemma take_drop_join: "take m xs @ take k (drop m xs) = take (m + k) xs"
  by (simp add: take_add)

lemma hdr_bytes_of_bytes:
  assumes "length bs = 512"
  shows "hdr_bytes (hdr_of_bytes bs) = bs"
proof -
  have "hdr_bytes (hdr_of_bytes bs)
      = take 4 bs @ take 4 (drop 4 bs) @ take 4 (drop 8 bs) @ take 4 (drop 12 bs)
        @ take 4 (drop 16 bs) @ take 64 (drop 20 bs) @ take 428 (drop 84 bs)"
    using assms by (simp add: hdr_bytes_def hdr_of_bytes_def codec_simps)
  also have "\<dots> = take 512 bs"
    by (simp add: take_drop_join flip: append_assoc)
  finally show ?thesis using assms by simp
qed

end
