(* ===== verification/Flash_Device.thy ===== *)
theory Flash_Device
  imports Memory_Map
begin

unbundle bit_operations_syntax

text \<open>
  The part of \<^verbatim>\<open>bootloader/src/flash_driver.c\<close> both backends share (status codes, the
  STM32F407 sector table and its lookups) and the interface of
  \<^verbatim>\<open>bootloader/include/flash_driver.h\<close> as the clients see it: a record of operations over
  an abstract device state, and the locale \<open>flash_device\<close> with the laws every backend
  keeps.  The clients (configuration store, verifier, OTA receiver, boot state machine) are
  defined over the record, exactly as the C code links against whichever backend was
  compiled in.
\<close>

section \<open>Status codes and the sector table\<close>

datatype flash_status_t = FLASH_OK | FLASH_ERR_BUSY | FLASH_ERR_VERIFY | FLASH_ERR_RANGE
  | FLASH_ERR_LOCKED | FLASH_ERR_PROG | FLASH_ERR_WRITE_PROTECTED

definition FLASH_NUM_SECTORS :: nat where "FLASH_NUM_SECTORS = 12"

definition k_sector_start :: "u32 list" where
  "k_sector_start = [0x08000000, 0x08004000, 0x08008000, 0x0800C000, 0x08010000, 0x08020000,
     0x08040000, 0x08060000, 0x08080000, 0x080A0000, 0x080C0000, 0x080E0000]"

definition k_sector_size :: "u32 list" where
  "k_sector_size = [16 * 1024, 16 * 1024, 16 * 1024, 16 * 1024, 64 * 1024, 128 * 1024,
     128 * 1024, 128 * 1024, 128 * 1024, 128 * 1024, 128 * 1024, 128 * 1024]"

text \<open>The loop of \<open>sector_index_for_addr\<close>, from the last sector down; \<open>-1\<close> if none.\<close>

fun sector_scan :: "nat \<Rightarrow> u32 \<Rightarrow> int" where
  "sector_scan 0 addr = - 1"
| "sector_scan (Suc i) addr = (if k_sector_start ! i \<le> addr then int i else sector_scan i addr)"

definition sector_index_for_addr :: "u32 \<Rightarrow> int" where
  "sector_index_for_addr addr = sector_scan FLASH_NUM_SECTORS addr"

definition flash_sector_start :: "u32 \<Rightarrow> u32" where
  "flash_sector_start addr =
     (let idx = sector_index_for_addr addr in if idx < 0 then 0 else k_sector_start ! nat idx)"

definition flash_sector_size :: "u32 \<Rightarrow> u32" where
  "flash_sector_size addr =
     (let idx = sector_index_for_addr addr in if idx < 0 then 0 else k_sector_size ! nat idx)"

section \<open>Sectors\<close>

text \<open>Start of sector \<open>j\<close> as a number, and the end of flash for \<open>j = 12\<close>.\<close>

definition sector_bound :: "nat \<Rightarrow> nat" where
  "sector_bound j = (map unat k_sector_start @ [0x08100000]) ! j"

lemma sector_bound_values:
  "map sector_bound [0..<13] = [0x08000000, 0x08004000, 0x08008000, 0x0800C000, 0x08010000,
     0x08020000, 0x08040000, 0x08060000, 0x08080000, 0x080A0000, 0x080C0000, 0x080E0000, 0x08100000]"
  by (simp add: sector_bound_def k_sector_start_def upt_rec)

lemma length_k_sector_start: "length k_sector_start = 12"
  by (simp add: k_sector_start_def)

lemma sector_start_bound: "j < 12 \<Longrightarrow> unat (k_sector_start ! j) = sector_bound j"
  by (simp add: sector_bound_def nth_append length_k_sector_start)

lemma sector_table_facts:
  "list_all (\<lambda>j. sector_bound (Suc j) = sector_bound j + unat (k_sector_size ! j)
     \<and> sector_bound j < sector_bound (Suc j)) [0..<12]"
  by (simp add: sector_bound_def k_sector_start_def k_sector_size_def upt_rec)

lemma sector_bound_Suc:
  "j < 12 \<Longrightarrow> sector_bound (Suc j) = sector_bound j + unat (k_sector_size ! j)"
  "j < 12 \<Longrightarrow> sector_bound j < sector_bound (Suc j)"
  using sector_table_facts by (auto simp only: list_all_iff set_upt atLeastLessThan_iff)

lemma sector_bound_mono: "i < j \<Longrightarrow> j \<le> 12 \<Longrightarrow> sector_bound i < sector_bound j"
proof (induction j rule: less_Suc_induct)
  case (1 j)
  then show ?case using sector_bound_Suc(2) [of j] by simp
next
  case (2 i j k)
  then show ?case by simp
qed

lemma sector_bound_limits: "j \<le> 12 \<Longrightarrow> 0x08000000 \<le> sector_bound j \<and> sector_bound j \<le> 0x08100000"
proof -
  assume j: "j \<le> 12"
  have "sector_bound 0 = 0x08000000" "sector_bound 12 = 0x08100000"
    by (simp_all add: sector_bound_def k_sector_start_def)
  then show ?thesis
    using sector_bound_mono [of 0 j] sector_bound_mono [of j 12] j
    by (cases "j = 0"; cases "j = 12") auto
qed

lemma sector_scan_eq:
  "sector_scan n addr = int j \<longleftrightarrow>
     j < n \<and> k_sector_start ! j \<le> addr \<and> (\<forall>k. j < k \<longrightarrow> k < n \<longrightarrow> \<not> k_sector_start ! k \<le> addr)"
  by (induction n) (auto simp: less_Suc_eq)

lemma sector_scan_neg: "sector_scan n addr < 0 \<longleftrightarrow> (\<forall>k<n. \<not> k_sector_start ! k \<le> addr)"
  by (induction n) (auto simp: less_Suc_eq)

lemma sector_index_in:
  assumes "j < 12" "sector_bound j \<le> unat addr" "unat addr < sector_bound (Suc j)"
  shows "sector_index_for_addr addr = int j"
  unfolding sector_index_for_addr_def FLASH_NUM_SECTORS_def sector_scan_eq
proof (intro conjI allI impI)
  show "k_sector_start ! j \<le> addr"
    using assms by (simp add: word_le_nat_alt sector_start_bound)
  fix k assume "j < k" "k < 12"
  then have "sector_bound (Suc j) \<le> sector_bound k"
    using sector_bound_mono [of "Suc j" k] by (cases "Suc j = k") auto
  then show "\<not> k_sector_start ! k \<le> addr"
    using assms \<open>k < 12\<close> by (simp add: word_le_nat_alt sector_start_bound)
qed (use assms in simp)

lemma sector_index_below:
  "unat addr < 0x08000000 \<Longrightarrow> sector_index_for_addr addr < 0"
proof -
  assume lt: "unat addr < 0x08000000"
  have "\<not> k_sector_start ! k \<le> addr" if "k < 12" for k
    using sector_bound_limits [of k] that lt by (simp add: word_le_nat_alt sector_start_bound)
  then show ?thesis
    unfolding sector_index_for_addr_def FLASH_NUM_SECTORS_def sector_scan_neg by simp
qed

lemma sector_index_above:
  "0x08100000 \<le> unat addr \<Longrightarrow> sector_index_for_addr addr = 11"
  using sector_scan_eq [of 12 addr 11] sector_bound_limits [of 11]
  by (simp add: sector_index_for_addr_def FLASH_NUM_SECTORS_def word_le_nat_alt
      sector_start_bound)

text \<open>Every address of flash lies in exactly one sector.\<close>

lemma sector_exists:
  assumes "0x08000000 \<le> unat addr" "unat addr < 0x08100000"
  obtains j where "j < 12" "sector_bound j \<le> unat addr" "unat addr < sector_bound (Suc j)"
proof -
  have "\<exists>j<12. sector_bound j \<le> unat addr \<and> unat addr < sector_bound (Suc j)"
    if "unat addr < sector_bound n" "n \<le> 12" for n
    using that
  proof (induction n)
    case 0
    then show ?case using assms by (simp add: sector_bound_def k_sector_start_def)
  next
    case (Suc n)
    then show ?case
      by (cases "unat addr < sector_bound n") (auto simp: not_less intro: exI [of _ n])
  qed
  moreover have "sector_bound 12 = 0x08100000"
    by (simp add: sector_bound_def k_sector_start_def)
  ultimately show thesis using assms that by (metis order_refl)
qed

lemma flash_sector_in:
  assumes "j < 12" "sector_bound j \<le> unat addr" "unat addr < sector_bound (Suc j)"
  shows "unat (flash_sector_start addr) = sector_bound j"
    and "unat (flash_sector_size addr) = sector_bound (Suc j) - sector_bound j"
  using sector_index_in [OF assms] assms
  by (simp_all add: flash_sector_start_def flash_sector_size_def sector_start_bound
      sector_bound_Suc)

text \<open>Stepping from one sector to the next.\<close>

lemma next_sector:
  assumes j: "j < 12" and s: "unat start = sector_bound j"
  shows "unat (start + flash_sector_size start) = sector_bound (Suc j)"
  using flash_sector_in(2) [OF j, of start] s sector_bound_Suc(2) [OF j] sector_bound_limits [of "Suc j"] j
  by (subst unat_add_lem [THEN iffD1]) simp_all

lemma sector_step:
  assumes "0 \<le> sector_index_for_addr start" "k_sector_start ! nat (sector_index_for_addr start) = start"
  obtains j where "j < 12" "nat (sector_index_for_addr start) = j" "unat start = sector_bound j"
    "unat (start + flash_sector_size start) = sector_bound (Suc j)"
proof -
  let ?i = "nat (sector_index_for_addr start)"
  have j: "?i < 12"
    using assms(1) sector_scan_eq [of FLASH_NUM_SECTORS start ?i]
    by (simp add: sector_index_for_addr_def FLASH_NUM_SECTORS_def)
  have b: "unat start = sector_bound ?i" using sector_start_bound [OF j] assms(2) by simp
  show thesis using that [of ?i] j b next_sector [OF j b] by blast
qed

lemma sector_start_ge:
  assumes "sector_bound j \<le> unat x" "unat x < 0x08100000" "j < 12"
  shows "sector_bound j \<le> unat (flash_sector_start x)"
proof -
  have "0x08000000 \<le> unat x" using assms sector_bound_limits [of j] by simp
  then obtain i where i: "i < 12" "sector_bound i \<le> unat x" "unat x < sector_bound (Suc i)"
    using assms(2) by (rule sector_exists)
  have "j \<le> i"
  proof (rule ccontr)
    assume "\<not> j \<le> i"
    then have "sector_bound (Suc i) \<le> sector_bound j"
      using sector_bound_mono [of "Suc i" j] assms(3) by (cases "Suc i = j") auto
    then show False using i assms(1) by simp
  qed
  then have "sector_bound j \<le> sector_bound i"
    using sector_bound_mono [of j i] i(1) by (cases "j = i") auto
  then show ?thesis using flash_sector_in(1) [OF i] by simp
qed

lemma sector_bound_12: "sector_bound 12 = 0x08100000"
  by (simp add: sector_bound_def k_sector_start_def)

lemma flash_sector_start_cases:
  obtains "flash_sector_start addr = 0" "\<not> FLASH_BASE_ADDR \<le> addr"
  | j where "j < 12" "unat (flash_sector_start addr) = sector_bound j" "FLASH_BASE_ADDR \<le> addr"
proof (cases "unat addr < 0x08000000")
  case True
  then show ?thesis using that(1) sector_index_below [OF True]
    by (simp add: flash_sector_start_def layout_simps word_le_nat_alt)
next
  case False
  then have base: "FLASH_BASE_ADDR \<le> addr" by (simp add: layout_simps word_le_nat_alt)
  show ?thesis
  proof (cases "unat addr < 0x08100000")
    case True
    then obtain j where "j < 12" "sector_bound j \<le> unat addr" "unat addr < sector_bound (Suc j)"
      using False sector_exists by (metis not_less)
    then show ?thesis using that(2) flash_sector_in(1) base by metis
  next
    case False
    then show ?thesis using that(2) [of 11] base sector_index_above [of addr]
      by (simp add: flash_sector_start_def sector_start_bound)
  qed
qed

text \<open>
  The bytes a range erase may touch: the flash sectors that overlap \<open>[addr, addr + size)\<close>,
  the end computed in 32 bits as the code does.
\<close>

definition erase_covers :: "u32 \<Rightarrow> u32 \<Rightarrow> u32 \<Rightarrow> bool" where
  "erase_covers addr sz x \<longleftrightarrow>
     sz \<noteq> 0 \<and> FLASH_BASE_ADDR \<le> addr \<and> FLASH_BASE_ADDR \<le> x \<and> unat x < 0x08100000 \<and>
     flash_sector_start addr \<le> x \<and> flash_sector_start x < addr + sz"

text \<open>A run of \<open>n\<close> bytes inside the flash array.\<close>

definition in_flash :: "u32 \<Rightarrow> bool" where
  "in_flash x \<longleftrightarrow> FLASH_BASE_ADDR \<le> x \<and> unat x < 0x08100000"

definition flash_range :: "u32 \<Rightarrow> nat \<Rightarrow> bool" where
  "flash_range a n \<longleftrightarrow> FLASH_BASE_ADDR \<le> a \<and> unat a + n \<le> 0x08100000"

lemma flash_range_length: "flash_range a n \<Longrightarrow> n \<le> 2 ^ 20"
  by (simp add: flash_range_def word_le_nat_alt layout_simps)

lemma flash_range_in:
  assumes "flash_range a n" "i < n"
  shows "in_flash (a + of_nat i)" "unat (a + of_nat i) = unat a + i"
proof -
  have "unat a + i < 2 ^ 32" using assms by (simp add: flash_range_def)
  then show u: "unat (a + of_nat i) = unat a + i"
    using assms flash_range_length [OF assms(1)] by (simp add: unat_word_ariths unat_of_nat)
  show "in_flash (a + of_nat i)"
    using assms u by (simp add: in_flash_def flash_range_def word_le_nat_alt layout_simps)
qed

lemma flash_range_sub:
  assumes "flash_range a n" "k + m \<le> n"
  shows "flash_range (a + of_nat k) m"
proof -
  have u: "unat (a + of_nat k) = unat a + k"
    using assms flash_range_length [OF assms(1)] by (simp add: flash_range_def unat_word_ariths unat_of_nat)
  show ?thesis
    using assms u by (simp add: flash_range_def word_le_nat_alt)
qed

lemma flash_range_slot: "a \<in> {SLOT_A_ADDR, SLOT_B_ADDR} \<Longrightarrow> n \<le> 471040 \<Longrightarrow> flash_range a n"
  by (auto simp: flash_range_def layout_simps)

section \<open>Erased bytes\<close>

text \<open>Flash is programmed after an erase: \<open>n\<close> bytes from \<open>a\<close> on that read as 0xFF.\<close>

definition erased :: "mem \<Rightarrow> u32 \<Rightarrow> nat \<Rightarrow> bool" where
  "erased m a n \<longleftrightarrow> (\<forall>i<n. m (a + of_nat i) = 0xFF)"

lemma erased_bytes: "erased m a n \<longleftrightarrow> mem_bytes m a n = replicate n 0xFF"
  by (auto simp: erased_def list_eq_iff_nth_eq)

lemma erased_sub: "erased m a n \<Longrightarrow> k + j \<le> n \<Longrightarrow> erased m (a + of_nat k) j"
  by (auto simp: erased_def add.assoc simp flip: of_nat_add)

lemma erased_mono: "erased m a n \<Longrightarrow> j \<le> n \<Longrightarrow> erased m a j"
  by (simp add: erased_def)

lemma erased_frame: "erased m a n \<Longrightarrow> n \<le> 2 ^ 32 \<Longrightarrow> mem_eq_on a n m m' \<Longrightarrow> erased m' a n"
  by (auto simp: erased_def mem_eq_on_def in_range_offset)

lemma erased_empty [simp]: "erased m a 0"
  by (simp add: erased_def)

text \<open>Programming the head of an erased region leaves its rest erased.\<close>

lemma erased_after:
  assumes "erased m a n" "length d + j \<le> n" "n \<le> 2 ^ 32"
  shows "erased (mem_write m a d) (a + of_nat (length d)) j"
  unfolding erased_def
proof (intro allI impI)
  fix i assume i: "i < j"
  then have "unat (a + of_nat (length d + i) - a) = length d + i"
    using assms(2,3) by (simp add: unat_of_nat del: of_nat_add)
  then have "\<not> in_range a (length d) (a + of_nat (length d + i))" by (simp add: in_range_def del: of_nat_add add_diff_cancel_left')
  then show "mem_write m a d (a + of_nat (length d) + of_nat i) = 0xFF"
    using assms(1,2) i mem_write_other [of a d "a + of_nat (length d + i)" m]
    by (simp add: erased_def add.assoc flip: of_nat_add)
qed

section \<open>The driver interface\<close>

text \<open>
  The state-changing operations return the new device state with the status.  \<open>fl_cpu_load\<close>
  is a load the core makes at an address, past the driver.
\<close>

record 's flash_ops =
  fl_read :: "'s \<Rightarrow> u32 \<Rightarrow> u32 \<Rightarrow> flash_status_t \<times> u8 list"
  fl_erase_range :: "'s \<Rightarrow> u32 \<Rightarrow> u32 \<Rightarrow> flash_status_t \<times> 's"
  fl_program_bytes :: "'s \<Rightarrow> u32 \<Rightarrow> u8 list \<Rightarrow> flash_status_t \<times> 's"
  fl_program_word :: "'s \<Rightarrow> u32 \<Rightarrow> u32 \<Rightarrow> flash_status_t \<times> 's"
  fl_ota_slot_span :: u32
  fl_cpu_load :: "'s \<Rightarrow> u32 \<Rightarrow> u8"

text \<open>
  The laws.  \<open>byte\<close> is what a read returns, \<open>writable\<close> the addresses the backend can change.
  A successful erase or program has exactly the advertised effect; a failed one leaves every
  byte outside its range alone.  Programming is specified for ranges inside the flash array.
\<close>

locale flash_device =
  fixes F :: "'s flash_ops"
    and byte :: "'s \<Rightarrow> mem"
    and writable :: "u32 \<Rightarrow> bool"
  assumes read: "fl_read F s a sz = (FLASH_OK, mem_bytes (byte s) a (unat sz))"
    and program_ok: "fl_program_bytes F s a d = (FLASH_OK, s') \<Longrightarrow> flash_range a (length d)
          \<Longrightarrow> byte s' = mem_write (byte s) a d"
    and program_frame: "fl_program_bytes F s a d = (st, s') \<Longrightarrow> flash_range a (length d)
          \<Longrightarrow> \<not> in_range a (length d) x \<Longrightarrow> byte s' x = byte s x"
    and word_ok: "fl_program_word F s a v = (FLASH_OK, s') \<Longrightarrow> flash_range a 4
          \<Longrightarrow> byte s' = mem_write (byte s) a (le32 v)"
    and word_frame: "fl_program_word F s a v = (st, s') \<Longrightarrow> flash_range a 4 \<Longrightarrow> \<not> in_range a 4 x
          \<Longrightarrow> byte s' x = byte s x"
    and erase_ok: "fl_erase_range F s a sz = (FLASH_OK, s') \<Longrightarrow> erase_covers a sz x \<Longrightarrow> writable x
          \<Longrightarrow> byte s' x = 0xFF"
    and erase_frame: "fl_erase_range F s a sz = (st, s') \<Longrightarrow> \<not> (erase_covers a sz x \<and> writable x)
          \<Longrightarrow> byte s' x = byte s x"
    and span: "512 \<le> unat (fl_ota_slot_span F)" "unat (fl_ota_slot_span F) \<le> 471040"
    and writable_regions: "in_range BOOT_CONFIG_ADDR 4096 x
          \<or> in_range SLOT_A_ADDR (unat (fl_ota_slot_span F)) x
          \<or> in_range SLOT_B_ADDR (unat (fl_ota_slot_span F)) x \<Longrightarrow> writable x"

text \<open>
  A backend without device faults.  In a \<open>good\<close> state an erase inside flash succeeds, and so
  does programming of erased bytes inside the writable windows, from an address and over a
  length that are multiples of \<open>gran\<close>; the operations the code issues leave good states,
  whatever they return.  The simulated backend is good everywhere and programs single bytes;
  the hardware backend programs words and needs a controller without pending errors.
\<close>

locale reliable_flash = flash_device F byte writable
  for F :: "'s flash_ops" and byte :: "'s \<Rightarrow> mem" and writable :: "u32 \<Rightarrow> bool" +
  fixes good :: "'s \<Rightarrow> bool" and gran :: nat
  assumes gran: "gran dvd 4"
    and erase_succeeds: "good s \<Longrightarrow> FLASH_BASE_ADDR \<le> a \<Longrightarrow> unat a + unat sz \<le> 0x08100000
          \<Longrightarrow> fst (fl_erase_range F s a sz) = FLASH_OK"
    and erase_good: "good s \<Longrightarrow> good (snd (fl_erase_range F s a sz))"
    and program_succeeds: "good s \<Longrightarrow> \<forall>i<length d. writable (a + of_nat i) \<Longrightarrow> flash_range a (length d)
          \<Longrightarrow> gran dvd unat a \<Longrightarrow> gran dvd length d
          \<Longrightarrow> erased (byte s) a (length d)
          \<Longrightarrow> fst (fl_program_bytes F s a d) = FLASH_OK"
    and program_good: "good s \<Longrightarrow> flash_range a (length d) \<Longrightarrow> good (snd (fl_program_bytes F s a d))"
    and word_succeeds: "good s \<Longrightarrow> a AND 3 = 0 \<Longrightarrow> \<forall>i<4. writable (a + of_nat i) \<Longrightarrow> flash_range a 4
          \<Longrightarrow> erased (byte s) a 4 \<Longrightarrow> fst (fl_program_word F s a v) = FLASH_OK"
    and word_good: "good s \<Longrightarrow> flash_range a 4 \<Longrightarrow> good (snd (fl_program_word F s a v))"
begin

text \<open>The writes a client issues, as the memory they leave.\<close>

lemma program_effect:
  assumes "good s" "\<forall>i<length d. writable (a + of_nat i)" "flash_range a (length d)"
    "gran dvd unat a" "gran dvd length d" "erased (byte s) a (length d)"
  obtains s' where "fl_program_bytes F s a d = (FLASH_OK, s')" "byte s' = mem_write (byte s) a d" "good s'"
  using program_succeeds [OF assms] program_ok [of s a d] program_good [OF assms(1,3)] assms(3)
  by (metis prod.collapse)

lemma word_effect:
  assumes "good s" "a AND 3 = 0" "\<forall>i<4. writable (a + of_nat i)" "flash_range a 4"
    "erased (byte s) a 4"
  obtains s' where "fl_program_word F s a v = (FLASH_OK, s')"
    "byte s' = mem_write (byte s) a (le32 v)" "good s'"
  using word_succeeds [OF assms, of v] word_ok [of s a v] word_good [OF assms(1,4), of v] assms(4)
  by (metis prod.collapse)

lemma erase_effect:
  assumes "good s" "FLASH_BASE_ADDR \<le> a" "unat a + unat sz \<le> 0x08100000"
  obtains s' where "fl_erase_range F s a sz = (FLASH_OK, s')"
    "byte s' = (\<lambda>x. if erase_covers a sz x \<and> writable x then 0xFF else byte s x)" "good s'"
proof -
  obtain s' where s': "fl_erase_range F s a sz = (FLASH_OK, s')"
    using erase_succeeds [OF assms] by (metis prod.collapse)
  then have "byte s' x = (if erase_covers a sz x \<and> writable x then 0xFF else byte s x)" for x
    using erase_ok [OF s', of x] erase_frame [OF s', of x] by auto
  with s' erase_good [OF assms(1), of a sz] that show thesis by auto
qed

end

text \<open>A backend that programs any bytes over any content, as the simulated one does.\<close>

locale byte_flash = reliable_flash F byte writable good gran
  for F :: "'s flash_ops" and byte :: "'s \<Rightarrow> mem" and writable :: "u32 \<Rightarrow> bool"
    and good :: "'s \<Rightarrow> bool" and gran :: nat +
  assumes program_any: "good s \<Longrightarrow> \<forall>i<length d. writable (a + of_nat i) \<Longrightarrow> flash_range a (length d)
          \<Longrightarrow> fst (fl_program_bytes F s a d) = FLASH_OK"
begin

lemma program_any_effect:
  assumes "good s" "\<forall>i<length d. writable (a + of_nat i)" "flash_range a (length d)"
  obtains s' where "fl_program_bytes F s a d = (FLASH_OK, s')" "byte s' = mem_write (byte s) a d" "good s'"
  using program_any [OF assms] program_ok [of s a d] program_good [OF assms(1,3)] assms(3)
  by (metis prod.collapse)

end

text \<open>Sector 4 holds the configuration and the head of slot A.\<close>

lemma sector4_bounds: "sector_bound 4 = 0x08010000" "sector_bound 5 = 0x08020000"
  by (simp_all add: sector_bound_def k_sector_start_def)

lemma sector_start_le: "0x08000000 \<le> unat x \<Longrightarrow> unat x < 0x08100000 \<Longrightarrow> flash_sector_start x \<le> x"
  by (erule (1) sector_exists) (simp add: word_le_nat_alt flash_sector_in)

text \<open>An erase of a non-empty piece of sector 4 covers exactly that sector.\<close>

lemma erase_covers_sector4:
  assumes "0x08010000 \<le> unat a" "unat a + unat sz \<le> 0x08020000" "sz \<noteq> 0"
  shows "erase_covers a sz x \<longleftrightarrow> 0x08010000 \<le> unat x \<and> unat x < 0x08020000"
proof -
  have pos: "0 < unat sz" using assms(3) by (simp add: unat_gt_0)
  have a: "unat (flash_sector_start a) = 0x08010000"
    using flash_sector_in(1) [of 4 a] assms(1,2) pos by (simp add: sector4_bounds)
  have stop: "unat (a + sz) = unat a + unat sz"
    using assms(2) by (subst unat_add_lem [THEN iffD1]) simp_all
  show ?thesis
  proof (cases "0x08010000 \<le> unat x \<and> unat x < 0x08020000")
    case True
    then have "unat (flash_sector_start x) = 0x08010000"
      using flash_sector_in(1) [of 4 x] by (simp add: sector4_bounds)
    then show ?thesis
      using True a stop assms pos by (auto simp: erase_covers_def word_le_nat_alt word_less_nat_alt layout_simps)
  next
    case False
    have "\<not> flash_sector_start x < a + sz" if x: "0x08020000 \<le> unat x" "unat x < 0x08100000"
    proof -
      from x obtain j where j: "j < 12" "sector_bound j \<le> unat x" "unat x < sector_bound (Suc j)"
        using sector_exists [of x] by auto
      have "5 \<le> j"
      proof (rule ccontr)
        assume "\<not> 5 \<le> j"
        then have "sector_bound (Suc j) \<le> sector_bound 5"
          using sector_bound_mono [of "Suc j" 5] by (cases "Suc j = 5") auto
        then show False using j x by (simp add: sector4_bounds)
      qed
      then have "sector_bound 5 \<le> sector_bound j"
        using sector_bound_mono [of 5 j] j by (cases "j = 5") auto
      then show ?thesis
        using flash_sector_in(1) [OF j] assms(2) stop by (simp add: word_less_nat_alt sector4_bounds)
    qed
    then show ?thesis
      using False a by (auto simp: erase_covers_def word_le_nat_alt layout_simps)
  qed
qed

end
