(* ===== verification/Flash_Sim.thy ===== *)
theory Flash_Sim
  imports Flash_Device
begin

unbundle bit_operations_syntax

text \<open>
  The \<^verbatim>\<open>QEMU_FLASH_SIM\<close> backend of \<^verbatim>\<open>bootloader/src/flash_driver.c\<close>, the default build:
  three windows of SRAM (the configuration page and the first 32 KB of each slot) shadow a
  read-only flash.  The state is the shadow struct, the ROM below it and a count of watchdog
  reloads.  The last section proves the laws of \<open>flash_device\<close> for it.
\<close>

section \<open>The shadow\<close>

definition QEMU_SHADOW_MAGIC :: u32 where "QEMU_SHADOW_MAGIC = 0xCAFEFEED"
definition SHADOW_CONFIG_SIZE :: u32 where [layout_simps]: "SHADOW_CONFIG_SIZE = BOOT_CONFIG_SIZE"
definition SHADOW_SLOT_SIZE :: u32 where [layout_simps]: "SHADOW_SLOT_SIZE = 32 * 1024"

record sim_flash =
  sim_rom :: mem
  sh_magic :: u32
  sh_config :: "nat \<Rightarrow> u8"
  sh_slot_a :: "nat \<Rightarrow> u8"
  sh_slot_b :: "nat \<Rightarrow> u8"
  sim_kicks :: nat

text \<open>A pointer into one of the shadow arrays.\<close>

datatype shadow_ptr = ConfigPtr nat | SlotAPtr nat | SlotBPtr nat

definition shadow_byte_ptr :: "u32 \<Rightarrow> shadow_ptr option" where
  "shadow_byte_ptr addr =
     (if BOOT_CONFIG_ADDR \<le> addr \<and> addr < BOOT_CONFIG_ADDR + SHADOW_CONFIG_SIZE
      then Some (ConfigPtr (unat (addr - BOOT_CONFIG_ADDR)))
      else if SLOT_A_ADDR \<le> addr \<and> addr < SLOT_A_ADDR + SHADOW_SLOT_SIZE
      then Some (SlotAPtr (unat (addr - SLOT_A_ADDR)))
      else if SLOT_B_ADDR \<le> addr \<and> addr < SLOT_B_ADDR + SHADOW_SLOT_SIZE
      then Some (SlotBPtr (unat (addr - SLOT_B_ADDR)))
      else None)"

fun load_ptr :: "sim_flash \<Rightarrow> shadow_ptr \<Rightarrow> u8" where
  "load_ptr s (ConfigPtr i) = sh_config s i"
| "load_ptr s (SlotAPtr i) = sh_slot_a s i"
| "load_ptr s (SlotBPtr i) = sh_slot_b s i"

fun store_ptr :: "shadow_ptr \<Rightarrow> u8 \<Rightarrow> sim_flash \<Rightarrow> sim_flash" where
  "store_ptr (ConfigPtr i) b s = s\<lparr>sh_config := (sh_config s)(i := b)\<rparr>"
| "store_ptr (SlotAPtr i) b s = s\<lparr>sh_slot_a := (sh_slot_a s)(i := b)\<rparr>"
| "store_ptr (SlotBPtr i) b s = s\<lparr>sh_slot_b := (sh_slot_b s)(i := b)\<rparr>"

definition sim_kick :: "sim_flash \<Rightarrow> sim_flash" where
  "sim_kick s = s\<lparr>sim_kicks := Suc (sim_kicks s)\<rparr>"

definition sim_byte :: "sim_flash \<Rightarrow> u32 \<Rightarrow> u8" where
  "sim_byte s addr = (case shadow_byte_ptr addr of Some p \<Rightarrow> load_ptr s p | None \<Rightarrow> sim_rom s addr)"

section \<open>The operations\<close>

definition sim_flash_init :: "sim_flash \<Rightarrow> flash_status_t \<times> sim_flash" where
  "sim_flash_init s =
     (if sh_magic s \<noteq> QEMU_SHADOW_MAGIC
      then (FLASH_OK, s\<lparr>sh_config := (\<lambda>i. sim_rom s (BOOT_CONFIG_ADDR + of_nat i)),
                       sh_slot_a := (\<lambda>i. sim_rom s (SLOT_A_ADDR + of_nat i)),
                       sh_slot_b := (\<lambda>i. sim_rom s (SLOT_B_ADDR + of_nat i)),
                       sh_magic := QEMU_SHADOW_MAGIC\<rparr>)
      else (FLASH_OK, s))"

definition sim_ota_slot_span :: u32 where
  "sim_ota_slot_span = SHADOW_SLOT_SIZE"

text \<open>The inner erase loop: \<open>chunk\<close> bytes from \<open>base + off\<close>, addresses outside skipped.\<close>

definition sim_erase_chunk :: "u32 \<Rightarrow> nat \<Rightarrow> sim_flash \<Rightarrow> sim_flash" where
  "sim_erase_chunk a chunk s =
     fold (\<lambda>i s. case shadow_byte_ptr (a + of_nat i) of
                   Some sp \<Rightarrow> store_ptr sp 0xFF s | None \<Rightarrow> s) [0..<chunk] s"

function sim_erase_chunks :: "u32 \<Rightarrow> nat \<Rightarrow> nat \<Rightarrow> sim_flash \<Rightarrow> sim_flash" where
  "sim_erase_chunks base sz off s =
     (if off < sz
      then (let chunk = (if sz - off < 4096 then sz - off else 4096);
                s1 = sim_erase_chunk (base + of_nat off) chunk s
            in sim_erase_chunks base sz (off + 4096) (sim_kick s1))
      else s)"
  by pat_completeness auto
termination
  by (relation "measure (\<lambda>(base, sz, off, s). sz - off)") auto

declare sim_erase_chunks.simps [simp del]

definition sim_erase_sector :: "sim_flash \<Rightarrow> u32 \<Rightarrow> flash_status_t \<times> sim_flash" where
  "sim_erase_sector s sector_start_addr =
     (let idx = sector_index_for_addr sector_start_addr
      in if idx < 0 \<or> k_sector_start ! nat idx \<noteq> sector_start_addr then (FLASH_ERR_RANGE, s)
         else (FLASH_OK, sim_erase_chunks sector_start_addr (unat (k_sector_size ! nat idx)) 0 s))"

text \<open>
  The loop over sectors; \<open>start\<close> grows as long as the erase succeeds, which it does only at
  the start of one of the twelve sectors.
\<close>

lemma sim_erase_sector_okD:
  assumes "sim_erase_sector s start = (FLASH_OK, s')"
  obtains j where "j < 12" "unat start = sector_bound j" "start = k_sector_start ! j"
    "s' = sim_erase_chunks start (unat (k_sector_size ! j)) 0 s"
    "unat (start + flash_sector_size start) = sector_bound (Suc j)"
proof -
  let ?i = "nat (sector_index_for_addr start)"
  have idx: "0 \<le> sector_index_for_addr start" "k_sector_start ! ?i = start"
    "s' = sim_erase_chunks start (unat (k_sector_size ! ?i)) 0 s"
    using assms by (auto simp: sim_erase_sector_def Let_def split: if_splits)
  from idx(1,2) show thesis
    by (rule sector_step) (use that idx in metis)
qed

function sim_erase_loop :: "u32 \<Rightarrow> u32 \<Rightarrow> sim_flash \<Rightarrow> flash_status_t \<times> sim_flash" where
  "sim_erase_loop start stop s =
     (if start < stop
      then (case sim_erase_sector s start of (st, s1) \<Rightarrow>
              if st \<noteq> FLASH_OK then (st, s1)
              else sim_erase_loop (start + flash_sector_size start) stop s1)
      else (FLASH_OK, s))"
  by pat_completeness auto
termination
proof (relation "measure (\<lambda>(start, stop, s). 2 ^ 32 - unat start)")
  fix start stop :: u32 and s st s1
  assume "(st, s1) = sim_erase_sector s start" "\<not> st \<noteq> FLASH_OK"
  then have "sim_erase_sector s start = (FLASH_OK, s1)" by simp
  then obtain j where j: "j < 12" "unat start = sector_bound j"
    "unat (start + flash_sector_size start) = sector_bound (Suc j)"
    by (rule sim_erase_sector_okD)
  then have "unat start < unat (start + flash_sector_size start)"
    using sector_bound_Suc(2) by simp
  moreover have "unat (start + flash_sector_size start) \<le> 0x08100000"
    using j sector_bound_limits [of "Suc j"] by simp
  ultimately show "((start + flash_sector_size start, stop, s1), (start, stop, s))
      \<in> measure (\<lambda>(start, stop, s). 2 ^ 32 - unat start)"
    by simp
qed auto

declare sim_erase_loop.simps [simp del]

definition sim_erase_range :: "sim_flash \<Rightarrow> u32 \<Rightarrow> u32 \<Rightarrow> flash_status_t \<times> sim_flash" where
  "sim_erase_range s addr sz =
     (if sz = 0 then (FLASH_OK, s)
      else sim_erase_loop (flash_sector_start addr) (addr + sz) s)"

fun sim_store_bytes :: "u32 \<Rightarrow> u8 list \<Rightarrow> sim_flash \<Rightarrow> flash_status_t \<times> sim_flash" where
  "sim_store_bytes a [] s = (FLASH_OK, s)"
| "sim_store_bytes a (b # bs) s =
     (case shadow_byte_ptr a of
        None \<Rightarrow> (FLASH_ERR_RANGE, s)
      | Some p \<Rightarrow> (let s1 = store_ptr p b s
                  in if load_ptr s1 p \<noteq> b then (FLASH_ERR_VERIFY, s1)
                     else sim_store_bytes (a + 1) bs s1))"

definition sim_program_word :: "sim_flash \<Rightarrow> u32 \<Rightarrow> u32 \<Rightarrow> flash_status_t \<times> sim_flash" where
  "sim_program_word s addr value =
     (if addr AND 3 \<noteq> 0 then (FLASH_ERR_RANGE, s)
      else if \<exists>i\<in>set [0..<4]. shadow_byte_ptr (addr + of_nat i) = None then (FLASH_ERR_RANGE, s)
      else sim_store_bytes addr (le32 value) s)"

fun sim_program_from :: "u32 \<Rightarrow> nat \<Rightarrow> u8 list \<Rightarrow> sim_flash \<Rightarrow> flash_status_t \<times> sim_flash" where
  "sim_program_from addr i [] s = (FLASH_OK, s)"
| "sim_program_from addr i (b # bs) s =
     (case shadow_byte_ptr (addr + of_nat i) of
        None \<Rightarrow> (FLASH_ERR_RANGE, s)
      | Some sp \<Rightarrow>
          (let s1 = store_ptr sp b s
           in if load_ptr s1 sp \<noteq> b then (FLASH_ERR_VERIFY, s1)
              else sim_program_from addr (Suc i) bs
                     (if of_nat i AND (0xFF :: u32) = 0xFF then sim_kick s1 else s1)))"

definition sim_program_bytes :: "sim_flash \<Rightarrow> u32 \<Rightarrow> u8 list \<Rightarrow> flash_status_t \<times> sim_flash" where
  "sim_program_bytes s addr data = sim_program_from addr 0 data s"

definition sim_shadow_aware_read :: "sim_flash \<Rightarrow> u32 \<Rightarrow> nat \<Rightarrow> u8 list" where
  "sim_shadow_aware_read s addr n = map (\<lambda>i. sim_byte s (addr + of_nat i)) [0..<n]"

definition sim_read :: "sim_flash \<Rightarrow> u32 \<Rightarrow> u32 \<Rightarrow> flash_status_t \<times> u8 list" where
  "sim_read s addr sz = (FLASH_OK, sim_shadow_aware_read s addr (unat sz))"

text \<open>The lock does nothing, and a pointer is to the shadow where there is one.\<close>

definition sim_flash_unlock :: "sim_flash \<Rightarrow> flash_status_t \<times> sim_flash" where
  "sim_flash_unlock s = (FLASH_OK, s)"

definition sim_flash_lock :: "sim_flash \<Rightarrow> flash_status_t \<times> sim_flash" where
  "sim_flash_lock s = (FLASH_OK, s)"

definition sim_get_ptr :: "u32 \<Rightarrow> shadow_ptr + u32" where
  "sim_get_ptr addr = (case shadow_byte_ptr addr of Some sp \<Rightarrow> Inl sp | None \<Rightarrow> Inr addr)"

text \<open>On QEMU a load of the core at a flash address sees the ROM.\<close>

definition sim_ops :: "sim_flash flash_ops" where
  "sim_ops = \<lparr> fl_read = sim_read, fl_erase_range = sim_erase_range,
     fl_program_bytes = sim_program_bytes, fl_program_word = sim_program_word,
     fl_ota_slot_span = sim_ota_slot_span, fl_cpu_load = sim_rom \<rparr>"

section \<open>Closed forms of the loops\<close>

lemma sim_get_ptr_reads:
  "sim_byte s a = (case sim_get_ptr a of Inl p \<Rightarrow> load_ptr s p | Inr x \<Rightarrow> sim_rom s x)"
  by (simp add: sim_byte_def sim_get_ptr_def split: option.split)

definition shadowed :: "u32 \<Rightarrow> bool" where
  "shadowed x \<longleftrightarrow> shadow_byte_ptr x \<noteq> None"

lemma shadowed_iff:
  "shadowed x \<longleftrightarrow> in_range BOOT_CONFIG_ADDR 4096 x \<or> in_range SLOT_A_ADDR 32768 x
     \<or> in_range SLOT_B_ADDR 32768 x"
  unfolding shadowed_def shadow_byte_ptr_def word_le_nat_alt word_less_nat_alt
  by (subst in_config_range, simp, subst in_slot_a_range, simp, subst in_slot_b_range, simp)
    (auto simp: layout_simps)

text \<open>The windows do not overlap, so a pointer stands for one address.\<close>

lemma unat_diff_inj: "unat (x - a) = unat (y - a) \<longleftrightarrow> x = (y :: u32)"
  by (simp flip: word_unat_eq_iff)

lemma shadow_byte_ptr_inj:
  assumes "shadow_byte_ptr x = Some p" "shadow_byte_ptr y = Some p"
  shows "x = y"
  using assms by (auto simp: shadow_byte_ptr_def unat_diff_inj split: if_splits)

lemma shadow_byte_ptr_bounds:
  assumes "shadow_byte_ptr x = Some p"
  shows "case p of ConfigPtr i \<Rightarrow> i < 4096 | SlotAPtr i \<Rightarrow> i < 32768 | SlotBPtr i \<Rightarrow> i < 32768"
  using assms
  by (auto simp: shadow_byte_ptr_def layout_simps word_le_nat_alt word_less_nat_alt unat_sub
      split: if_splits)

lemma load_store_ptr [simp]: "load_ptr (store_ptr p b s) q = (if q = p then b else load_ptr s q)"
  by (cases p; cases q) simp_all

lemma sim_rom_store [simp]: "sim_rom (store_ptr p b s) = sim_rom s"
  by (cases p) simp_all

lemma sim_byte_store:
  "shadow_byte_ptr a = Some p \<Longrightarrow> sim_byte (store_ptr p b s) = (sim_byte s)(a := b)"
  by (rule ext) (auto simp: sim_byte_def split: option.split dest: shadow_byte_ptr_inj)

lemma sim_kick_frame [simp]:
  "sim_byte (sim_kick s) = sim_byte s" "sim_rom (sim_kick s) = sim_rom s"
proof -
  have "load_ptr (sim_kick s) p = load_ptr s p" for p
    by (cases p) (simp_all add: sim_kick_def)
  then show "sim_byte (sim_kick s) = sim_byte s"
    by (auto simp: sim_byte_def sim_kick_def split: option.split)
qed (simp add: sim_kick_def)

lemma sim_read_eq: "sim_read s a sz = (FLASH_OK, mem_bytes (sim_byte s) a (unat sz))"
  by (simp add: sim_read_def sim_shadow_aware_read_def mem_bytes_def)

lemma sim_store_bytes_eq:
  assumes "\<forall>i < length d. shadowed (a + of_nat i)" "length d \<le> 2 ^ 20"
  shows "fst (sim_store_bytes a d s) = FLASH_OK
    \<and> sim_byte (snd (sim_store_bytes a d s)) = mem_write (sim_byte s) a d"
  using assms
proof (induction d arbitrary: a s)
  case Nil
  then show ?case by simp
next
  case (Cons b d)
  obtain p where p: "shadow_byte_ptr a = Some p"
    using Cons.prems(1) by (force simp: shadowed_def)
  have "shadowed (a + 1 + of_nat i)" if "i < length d" for i
    using Cons.prems(1) that by (auto simp: add.assoc dest: spec [of _ "Suc i"])
  with Cons.IH [of "a + 1" "store_ptr p b s"] Cons.prems(2)
  have IH: "fst (sim_store_bytes (a + 1) d (store_ptr p b s)) = FLASH_OK"
    "sim_byte (snd (sim_store_bytes (a + 1) d (store_ptr p b s)))
      = mem_write (sim_byte (store_ptr p b s)) (a + 1) d"
    by simp_all
  have "mem_write (sim_byte (store_ptr p b s)) (a + 1) d = mem_write (sim_byte s) a (b # d)"
    unfolding sim_byte_store [OF p] using Cons.prems(2) by (subst mem_write_Cons) simp_all
  with IH p show ?case by simp
qed

text \<open>A program run writes a prefix of its data: all of it exactly when it succeeds.\<close>

lemma sim_program_from_prefix:
  assumes "sim_program_from a i d s = (st, s')" "length d \<le> 2 ^ 20"
  shows "\<exists>k \<le> length d. sim_byte s' = mem_write (sim_byte s) (a + of_nat i) (take k d)
    \<and> (st = FLASH_OK \<longleftrightarrow> k = length d) \<and> (st \<noteq> FLASH_OK \<longrightarrow> st = FLASH_ERR_RANGE)
    \<and> (k < length d \<longrightarrow> \<not> shadowed (a + of_nat i + of_nat k))"
  using assms
proof (induction d arbitrary: i s)
  case Nil
  then show ?case by auto
next
  case (Cons b d)
  show ?case
  proof (cases "shadow_byte_ptr (a + of_nat i)")
    case None
    then show ?thesis using Cons.prems
      by (intro exI [of _ 0]) (auto simp: shadowed_def)
  next
    case (Some p)
    let ?s1 = "if of_nat i AND (0xFF :: u32) = 0xFF then sim_kick (store_ptr p b s)
               else store_ptr p b s"
    have byte1: "sim_byte ?s1 = (sim_byte s)(a + of_nat i := b)"
      by (simp add: sim_byte_store [OF Some])
    have "sim_program_from a (Suc i) d ?s1 = (st, s')"
      using Cons.prems(1) Some by (simp add: Let_def split: if_splits)
    from Cons.IH [OF this] Cons.prems(2) obtain k where k: "k \<le> length d"
      "sim_byte s' = mem_write (sim_byte ?s1) (a + of_nat i + 1) (take k d)"
      "st = FLASH_OK \<longleftrightarrow> k = length d" "st \<noteq> FLASH_OK \<longrightarrow> st = FLASH_ERR_RANGE"
      "k < length d \<longrightarrow> \<not> shadowed (a + of_nat i + 1 + of_nat k)"
      by (auto simp: ac_simps)
    have "mem_write (sim_byte ?s1) (a + of_nat i + 1) (take k d)
        = mem_write (sim_byte s) (a + of_nat i) (take (Suc k) (b # d))"
      unfolding byte1 using Cons.prems(2) k(1) by (simp add: mem_write_Cons)
    with k show ?thesis
      by (intro exI [of _ "Suc k"]) (auto simp: ac_simps)
  qed
qed

lemma sim_erase_chunk_byte:
  "n \<le> 2 ^ 20 \<Longrightarrow> sim_byte (sim_erase_chunk a n s) x
     = (if in_range a n x \<and> shadowed x then 0xFF else sim_byte s x)"
proof (induction n)
  case 0
  then show ?case by (simp add: sim_erase_chunk_def in_range_def)
next
  case (Suc n)
  let ?s = "sim_erase_chunk a n s"
  have step: "sim_erase_chunk a (Suc n) s
      = (case shadow_byte_ptr (a + of_nat n) of Some sp \<Rightarrow> store_ptr sp 0xFF ?s | None \<Rightarrow> ?s)"
    by (cases "shadow_byte_ptr (a + of_nat n)") (simp_all add: sim_erase_chunk_def)
  have "in_range a (Suc n) x \<longleftrightarrow> in_range a n x \<or> x = a + of_nat n"
  proof -
    have "unat (of_nat n :: u32) = n" using Suc.prems by (simp add: unat_of_nat)
    then have "x = a + of_nat n \<longleftrightarrow> unat (x - a) = n"
      by (metis add_diff_cancel_left' diff_add_cancel add.commute word_unat_eq_iff)
    then show ?thesis by (auto simp: in_range_def less_Suc_eq)
  qed
  then show ?case
    using Suc by (auto simp: step sim_byte_store shadowed_def split: option.split)
qed

lemma sim_erase_chunks_byte:
  "sz \<le> 2 ^ 20 \<Longrightarrow> sim_byte (sim_erase_chunks base sz off s) x
     = (if (\<exists>i. off \<le> i \<and> i < sz \<and> x = base + of_nat i) \<and> shadowed x then 0xFF else sim_byte s x)"
proof (induction base sz off s rule: sim_erase_chunks.induct)
  case (1 base sz off s)
  show ?case
  proof (cases "off < sz")
    case False
    then show ?thesis by (subst sim_erase_chunks.simps) auto
  next
    case True
    let ?c = "if sz - off < 4096 then sz - off else 4096"
    let ?s1 = "sim_kick (sim_erase_chunk (base + of_nat off) ?c s)"
    have le: "?c \<le> 2 ^ 20" by simp
    have rng: "in_range (base + of_nat off) ?c x
        \<longleftrightarrow> (\<exists>i. off \<le> i \<and> i < off + ?c \<and> x = base + of_nat i)"
    proof
      assume *: "in_range (base + of_nat off) ?c x"
      have "x = base + of_nat (off + unat (x - (base + of_nat off)))" by simp
      then show "\<exists>i. off \<le> i \<and> i < off + ?c \<and> x = base + of_nat i"
        using * by (intro exI [of _ "off + unat (x - (base + of_nat off))"])
          (simp only: in_range_def, simp)
    next
      assume "\<exists>i. off \<le> i \<and> i < off + ?c \<and> x = base + of_nat i"
      then obtain i where i: "off \<le> i" "i < off + ?c" "x = base + of_nat i" by blast
      then have "x = base + of_nat off + of_nat (i - off)" by (simp add: of_nat_diff)
      then show "in_range (base + of_nat off) ?c x"
        using i in_range_offset [of "i - off" ?c "base + of_nat off"] le
        by (simp add: less_diff_conv2)
    qed
    have IH: "sim_byte (sim_erase_chunks base sz (off + 4096) ?s1) x
        = (if (\<exists>i. off + 4096 \<le> i \<and> i < sz \<and> x = base + of_nat i) \<and> shadowed x
           then 0xFF else sim_byte ?s1 x)"
      using "1.IH" [OF True refl refl] "1.prems" by simp
    have split: "(\<exists>i. off \<le> i \<and> i < sz \<and> x = base + of_nat i)
        \<longleftrightarrow> (\<exists>i. off + 4096 \<le> i \<and> i < sz \<and> x = base + of_nat i)
            \<or> (\<exists>i. off \<le> i \<and> i < off + ?c \<and> x = base + of_nat i)"
    proof -
      have "off \<le> i \<and> i < sz \<longleftrightarrow> off + 4096 \<le> i \<and> i < sz \<or> off \<le> i \<and> i < off + ?c" for i
        using True by auto
      then show ?thesis by blast
    qed
    have "sim_erase_chunks base sz off s = sim_erase_chunks base sz (off + 4096) ?s1"
      using True by (subst sim_erase_chunks.simps) (simp add: Let_def)
    moreover have "sim_byte ?s1 x = (if (\<exists>i. off \<le> i \<and> i < off + ?c \<and> x = base + of_nat i)
        \<and> shadowed x then 0xFF else sim_byte s x)"
      unfolding sim_kick_frame sim_erase_chunk_byte [OF le] rng ..
    ultimately show ?thesis using IH unfolding split by (simp only:) auto
  qed
qed

lemma sim_erase_sector_eq:
  assumes "j < 12" "unat start = sector_bound j"
  shows "sim_erase_sector s start
    = (FLASH_OK, sim_erase_chunks start (unat (k_sector_size ! j)) 0 s)"
proof -
  have "k_sector_start ! j = start"
    using assms sector_start_bound [OF assms(1)] by (simp add: word_unat_eq_iff)
  moreover have "sector_index_for_addr start = int j"
    using assms sector_bound_Suc(2) [OF assms(1)] by (intro sector_index_in) simp_all
  ultimately show ?thesis by (simp add: sim_erase_sector_def)
qed

lemma sector_offset_iff:
  fixes start x :: u32
  assumes "j < 12" "unat start = sector_bound j"
  shows "(\<exists>i < unat (k_sector_size ! j). x = start + of_nat i)
    \<longleftrightarrow> sector_bound j \<le> unat x \<and> unat x < sector_bound (Suc j)"
proof -
  let ?n = "unat (k_sector_size ! j)"
  have n: "unat start + ?n = sector_bound (Suc j)" "sector_bound (Suc j) \<le> 0x08100000"
    using assms sector_bound_Suc(1) sector_bound_limits [of "Suc j"] by simp_all
  have "(\<exists>i < ?n. x = start + of_nat i) \<longleftrightarrow> in_range start ?n x"
  proof
    assume "\<exists>i < ?n. x = start + of_nat i"
    then show "in_range start ?n x" using n by (auto intro!: in_range_offset)
  next
    assume "in_range start ?n x"
    moreover have "x = start + of_nat (unat (x - start))" by simp
    ultimately show "\<exists>i < ?n. x = start + of_nat i" unfolding in_range_def by blast
  qed
  also have "\<dots> \<longleftrightarrow> sector_bound j \<le> unat x \<and> unat x < sector_bound (Suc j)"
    using n assms by (subst in_range_interval) simp_all
  finally show ?thesis .
qed

lemma sim_erase_sector_byte:
  assumes "j < 12" "unat start = sector_bound j"
  shows "sim_byte (snd (sim_erase_sector s start)) x
    = (if sector_bound j \<le> unat x \<and> unat x < sector_bound (Suc j) \<and> shadowed x
       then 0xFF else sim_byte s x)"
proof -
  have "unat (k_sector_size ! j) \<le> 2 ^ 20"
    using sector_bound_Suc(1) [OF assms(1)] sector_bound_limits [of "Suc j"]
      sector_bound_limits [of j] assms(1) by simp
  then show ?thesis
    using sector_offset_iff [OF assms, of x]
    by (simp add: sim_erase_sector_eq [OF assms] sim_erase_chunks_byte)
qed

text \<open>Past the last sector the loop stops with an error.\<close>

lemma sim_erase_loop_top:
  assumes top: "unat start = 0x08100000" and lt: "start < stop"
  shows "sim_erase_loop start stop s = (FLASH_ERR_RANGE, s)"
proof -
  have "k_sector_start ! 11 \<noteq> start"
    using sector_start_bound [of 11] sector_bound_mono [of 11 12] sector_bound_12 top by auto
  then have "sim_erase_sector s start = (FLASH_ERR_RANGE, s)"
    using top by (simp add: sim_erase_sector_def sector_index_above)
  then show ?thesis using lt by (subst sim_erase_loop.simps) simp
qed

text \<open>The sector loop erases every writable byte of the sectors it reaches.\<close>

lemma sim_erase_loop_byte:
  assumes "j \<le> 12" "unat start = sector_bound j"
  shows "sim_byte (snd (sim_erase_loop start stop s)) x
      = (if shadowed x \<and> sector_bound j \<le> unat x \<and> unat x < 0x08100000
            \<and> flash_sector_start x < stop then 0xFF else sim_byte s x)
    \<and> (fst (sim_erase_loop start stop s) = FLASH_OK \<longleftrightarrow> unat stop \<le> 0x08100000 \<or> stop \<le> start)"
  using assms
proof (induction start stop s arbitrary: j rule: sim_erase_loop.induct)
  case (1 start stop s)
  show ?case
  proof (cases "start < stop")
    case False
    have "\<not> flash_sector_start x < stop"
      if "sector_bound j \<le> unat x" "unat x < 0x08100000"
    proof -
      have "j \<noteq> 12" using that sector_bound_12 by auto
      then have "sector_bound j \<le> unat (flash_sector_start x)"
        using sector_start_ge [OF that] "1.prems" by simp
      then show ?thesis using False "1.prems" by (simp add: word_less_nat_alt)
    qed
    then show ?thesis using False by (subst (1 2) sim_erase_loop.simps) auto
  next
    case True
    show ?thesis
    proof (cases "j = 12")
      case True12: True
      then have top: "unat start = 0x08100000" using "1.prems" sector_bound_12 by simp
      show ?thesis
        using True12 sector_bound_12 True top sim_erase_loop_top [OF top True]
        by (auto simp: word_less_nat_alt word_le_nat_alt)
    next
      case False
      then have j: "j < 12" using "1.prems" by simp
      let ?next = "start + flash_sector_size start"
      obtain s1 where es: "sim_erase_sector s start = (FLASH_OK, s1)"
        by (simp add: sim_erase_sector_eq [OF j "1.prems"(2)])
      have s1: "sim_byte s1 x = (if sector_bound j \<le> unat x \<and> unat x < sector_bound (Suc j)
          \<and> shadowed x then 0xFF else sim_byte s x)"
        using sim_erase_sector_byte [OF j "1.prems"(2), of s x] es by simp
      note nxt = next_sector [OF j "1.prems"(2)]
      have loop: "sim_erase_loop start stop s = sim_erase_loop ?next stop s1"
        using True es by (subst sim_erase_loop.simps) simp
      have IH: "sim_byte (snd (sim_erase_loop ?next stop s1)) x
          = (if shadowed x \<and> sector_bound (Suc j) \<le> unat x \<and> unat x < 0x08100000
               \<and> flash_sector_start x < stop then 0xFF else sim_byte s1 x)
        \<and> (fst (sim_erase_loop ?next stop s1) = FLASH_OK
              \<longleftrightarrow> unat stop \<le> 0x08100000 \<or> stop \<le> ?next)"
        using "1.IH" [OF True, of FLASH_OK s1 "Suc j"] es nxt j by simp
      have "unat stop \<le> 0x08100000 \<or> stop \<le> ?next \<longleftrightarrow> unat stop \<le> 0x08100000 \<or> stop \<le> start"
        using True nxt sector_bound_limits [of "Suc j"] j
        by (auto simp: word_le_nat_alt word_less_nat_alt)
      moreover have "flash_sector_start x < stop"
        if "sector_bound j \<le> unat x" "unat x < sector_bound (Suc j)"
        using flash_sector_in(1) [OF j that] True "1.prems" by (simp add: word_less_nat_alt)
      moreover have "sector_bound (Suc j) \<le> 0x08100000" using sector_bound_limits [of "Suc j"] j by simp
      ultimately show ?thesis
        using IH sector_bound_Suc(2) [OF j]
        unfolding loop s1 by auto
    qed
  qed
qed

lemma sim_erase_range_byte:
  "sim_byte (snd (sim_erase_range s addr sz)) x
     = (if erase_covers addr sz x \<and> shadowed x then 0xFF else sim_byte s x)"
proof (cases "sz = 0")
  case True
  then show ?thesis by (simp add: sim_erase_range_def erase_covers_def)
next
  case False
  show ?thesis
  proof (rule flash_sector_start_cases [of addr])
    assume 0: "flash_sector_start addr = 0" "\<not> FLASH_BASE_ADDR \<le> addr"
    have "sim_erase_sector s 0 = (FLASH_ERR_RANGE, s)"
      by (simp add: sim_erase_sector_def sector_index_below)
    then have "snd (sim_erase_loop 0 (addr + sz) s) = s"
      by (subst sim_erase_loop.simps) simp
    then show ?thesis using 0 by (simp add: sim_erase_range_def erase_covers_def)
  next
    fix j assume j: "j < 12" "unat (flash_sector_start addr) = sector_bound j"
      "FLASH_BASE_ADDR \<le> addr"
    have b: "0x08000000 \<le> sector_bound j" using sector_bound_limits [of j] j by simp
    show ?thesis
      using sim_erase_loop_byte [of j "flash_sector_start addr" "addr + sz" s x] j b False
      by (auto simp: sim_erase_range_def erase_covers_def word_le_nat_alt layout_simps)
  qed
qed

lemma sim_erase_range_ok:
  assumes "FLASH_BASE_ADDR \<le> addr" "unat addr + unat sz \<le> 0x08100000"
  shows "fst (sim_erase_range s addr sz) = FLASH_OK"
proof (cases "sz = 0")
  case False
  have "unat (addr + sz) = unat addr + unat sz"
    using assms by (subst unat_add_lem [THEN iffD1]) simp_all
  then have stop: "unat (addr + sz) \<le> 0x08100000" using assms by simp
  show ?thesis
  proof (rule flash_sector_start_cases [of addr])
    assume "\<not> FLASH_BASE_ADDR \<le> addr"
    then show ?thesis using assms by simp
  next
    fix j assume "j < 12" "unat (flash_sector_start addr) = sector_bound j"
    then show ?thesis
      using sim_erase_loop_byte [of j "flash_sector_start addr" "addr + sz" s] stop False
      by (simp add: sim_erase_range_def)
  qed
qed (simp add: sim_erase_range_def)

section \<open>The backend keeps the laws\<close>

lemma sim_program_bytes_prefix:
  assumes "sim_program_bytes s a d = (st, s')" "length d \<le> 2 ^ 20"
  obtains k where "k \<le> length d" "sim_byte s' = mem_write (sim_byte s) a (take k d)"
    "st = FLASH_OK \<longleftrightarrow> k = length d" "k < length d \<longrightarrow> \<not> shadowed (a + of_nat k)"
  using sim_program_from_prefix [of a 0 d s st s'] assms by (auto simp: sim_program_bytes_def)

lemma sim_program_word_cases:
  assumes "sim_program_word s a v = (st, s')"
  shows "st = FLASH_OK \<and> sim_byte s' = mem_write (sim_byte s) a (le32 v) \<or> st = FLASH_ERR_RANGE \<and> s' = s"
proof (cases "a AND 3 \<noteq> 0 \<or> (\<exists>i\<in>set [0..<4]. shadow_byte_ptr (a + of_nat i) = None)")
  case True
  then show ?thesis using assms by (auto simp: sim_program_word_def split: if_splits)
next
  case False
  then have "\<forall>i < length (le32 v). shadowed (a + of_nat i)" by (simp add: shadowed_def)
  from sim_store_bytes_eq [OF this, of s] False assms show ?thesis
    by (auto simp: sim_program_word_def split: if_splits)
qed

interpretation sim: flash_device sim_ops sim_byte shadowed
proof unfold_locales
  fix s s' :: sim_flash and a sz v x :: u32 and d :: "u8 list" and st :: flash_status_t
  show "fl_read sim_ops s a sz = (FLASH_OK, mem_bytes (sim_byte s) a (unat sz))"
    by (simp add: sim_ops_def sim_read_eq)
  show "sim_byte s' = mem_write (sim_byte s) a d"
    if "fl_program_bytes sim_ops s a d = (FLASH_OK, s')" "flash_range a (length d)"
    using that flash_range_length [OF that(2)] by (auto simp: sim_ops_def elim!: sim_program_bytes_prefix)
  show "sim_byte s' x = sim_byte s x"
    if asm: "fl_program_bytes sim_ops s a d = (st, s')" "flash_range a (length d)" "\<not> in_range a (length d) x"
  proof -
    have "sim_program_bytes s a d = (st, s')" using asm by (simp add: sim_ops_def)
    then obtain k where "k \<le> length d" "sim_byte s' = mem_write (sim_byte s) a (take k d)"
      using flash_range_length [OF asm(2)] by (rule sim_program_bytes_prefix)
    then show ?thesis using asm by (simp add: mem_write_def in_range_def)
  qed
  show "sim_byte s' = mem_write (sim_byte s) a (le32 v)"
    if "fl_program_word sim_ops s a v = (FLASH_OK, s')" "flash_range a 4"
    using that sim_program_word_cases [of s a v] by (auto simp: sim_ops_def)
  show "sim_byte s' x = sim_byte s x"
    if "fl_program_word sim_ops s a v = (st, s')" "flash_range a 4" "\<not> in_range a 4 x"
    using that sim_program_word_cases [of s a v st s']
    by (auto simp: sim_ops_def mem_write_other)
  show "sim_byte s' x = 0xFF"
    if "fl_erase_range sim_ops s a sz = (FLASH_OK, s')" "erase_covers a sz x" "shadowed x"
    using that sim_erase_range_byte [of s a sz x] by (simp add: sim_ops_def)
  show "sim_byte s' x = sim_byte s x"
    if "fl_erase_range sim_ops s a sz = (st, s')" "\<not> (erase_covers a sz x \<and> shadowed x)"
    using that sim_erase_range_byte [of s a sz x] by (auto simp: sim_ops_def)
qed (auto simp: sim_ops_def sim_ota_slot_span_def layout_simps shadowed_iff)

text \<open>Inside flash and the shadow windows nothing fails.\<close>

lemma sim_program_bytes_ok:
  assumes "\<forall>i<length d. shadowed (a + of_nat i)" "length d \<le> 2 ^ 20"
  shows "fst (sim_program_bytes s a d) = FLASH_OK"
proof -
  obtain st s' where eq: "sim_program_bytes s a d = (st, s')" by fastforce
  then obtain k where "k \<le> length d" "st = FLASH_OK \<longleftrightarrow> k = length d"
    "k < length d \<longrightarrow> \<not> shadowed (a + of_nat k)"
    using assms(2) by (rule sim_program_bytes_prefix)
  then show ?thesis using assms(1) eq by auto
qed

lemma sim_program_word_ok:
  assumes "a AND 3 = 0" "\<forall>i<4. shadowed (a + of_nat i)"
  shows "fst (sim_program_word s a v) = FLASH_OK"
proof -
  have "\<forall>i < length (le32 v). shadowed (a + of_nat i)" using assms by simp
  from sim_store_bytes_eq [OF this, of s] show ?thesis
    using assms by (auto simp: sim_program_word_def shadowed_def)
qed

interpretation sim: byte_flash sim_ops sim_byte shadowed "\<lambda>_. True" 1
  by unfold_locales
    (auto simp: sim_ops_def sim_erase_range_ok sim_program_word_ok
      intro!: sim_program_bytes_ok dest: flash_range_length)

end
