(* ===== verification/Crc32.thy ===== *)
theory Crc32
  imports Prelude
begin

unbundle bit_operations_syntax

text \<open>
  \<^verbatim>\<open>bootloader/src/crc32.c\<close> and \<^verbatim>\<open>bootloader/include/crc32.h\<close>: the table-free reflected
  CRC-32 that guards the boot configuration, the image payload and every OTA frame.

  \<open>crc_bit\<close> is the body of the inner loop, \<open>crc_byte\<close> one round of the outer loop.  The
  lemmas show that the register update is linear and injective, so that streaming equals
  the one-shot computation and that any corruption confined to four consecutive bytes
  changes the checksum.
\<close>

section \<open>The code\<close>

definition CRC32_INIT :: u32 where "CRC32_INIT = 0xFFFFFFFF"

definition crc_bit :: "u32 \<Rightarrow> u32" where
  "crc_bit crc = (let mask = - (crc AND 1) in drop_bit 1 crc XOR (0xEDB88320 AND mask))"

definition crc_byte :: "u32 \<Rightarrow> u8 \<Rightarrow> u32" where
  "crc_byte crc b = (crc_bit ^^ 8) (crc XOR ucast b)"

fun crc32_update :: "u32 \<Rightarrow> u8 list \<Rightarrow> u32" where
  "crc32_update crc [] = crc"
| "crc32_update crc (b # p) = crc32_update (crc_byte crc b) p"

definition crc32_finalize :: "u32 \<Rightarrow> u32" where
  "crc32_finalize crc = crc XOR 0xFFFFFFFF"

definition crc32 :: "u8 list \<Rightarrow> u32" where
  "crc32 data = crc32_finalize (crc32_update CRC32_INIT data)"

section \<open>Streaming\<close>

lemma crc32_update_append: "crc32_update c (xs @ ys) = crc32_update (crc32_update c xs) ys"
  by (induction xs arbitrary: c) simp_all

section \<open>Linearity and injectivity of the register update\<close>

lemma crc_bit_alt: "crc_bit c = drop_bit 1 c XOR (if bit c 0 then 0xEDB88320 else 0)"
proof (cases "bit c 0")
  case True
  then have "c AND 1 = 1" by (simp add: and_one_eq mod_2_eq_odd bit_0)
  then show ?thesis using True by (simp add: crc_bit_def)
next
  case False
  then have "c AND 1 = 0" by (simp add: and_one_eq mod_2_eq_odd bit_0)
  then show ?thesis using False by (simp add: crc_bit_def)
qed

lemma drop_bit_xor_word: "drop_bit n (a XOR b) = drop_bit n a XOR drop_bit n (b :: u32)"
  by (rule bit_word_eqI) (simp add: bit_simps)

lemma crc_bit_xor: "crc_bit (a XOR b) = crc_bit a XOR crc_bit b"
  by (cases "bit a 0"; cases "bit b 0")
    (simp_all add: crc_bit_alt drop_bit_xor_word bit_simps ac_simps)

lemma crc_bit_0 [simp]: "crc_bit 0 = 0"
  by (simp add: crc_bit_alt)

lemma crc_bit_eq_0_iff: "crc_bit d = 0 \<longleftrightarrow> d = 0"
proof
  assume eq: "crc_bit d = 0"
  have "bit (crc_bit d) 31 \<longleftrightarrow> bit d 0"
    by (simp add: crc_bit_alt bit_simps bit_numeral_rec bit_u32_ge)
  then have even: "\<not> bit d 0" using eq by simp
  show "d = 0"
  proof (rule bit_word_eqI)
    fix n assume "n < LENGTH(32)"
    show "bit d n = bit 0 n"
    proof (cases n)
      case 0
      then show ?thesis using even by simp
    next
      case (Suc k)
      have "bit (crc_bit d) k = bit d (Suc k)"
        using even by (simp add: crc_bit_alt bit_simps)
      then show ?thesis using eq Suc by simp
    qed
  qed
qed simp

lemma crc_bits_xor: "(crc_bit ^^ n) (a XOR b) = (crc_bit ^^ n) a XOR (crc_bit ^^ n) b"
  by (induction n) (simp_all add: crc_bit_xor)

lemma crc_bits_eq_0_iff: "(crc_bit ^^ n) d = 0 \<longleftrightarrow> d = 0"
  by (induction n) (simp_all add: crc_bit_eq_0_iff)

lemma crc_bits_inj: "(crc_bit ^^ n) a = (crc_bit ^^ n) b \<longleftrightarrow> a = b"
  by (metis crc_bits_eq_0_iff crc_bits_xor xor_eq_0_word)

lemma xor_right_inj: "c XOR a = c XOR b \<longleftrightarrow> a = (b :: u32)"
  by (metis xor.assoc xor_self_eq xor.left_neutral)

lemma crc_byte_inj_crc: "crc_byte c b = crc_byte c' b \<longleftrightarrow> c = c'"
  by (simp add: crc_byte_def crc_bits_inj) (metis xor.commute xor_right_inj)

lemma crc32_update_inj: "crc32_update c xs = crc32_update c' xs \<longleftrightarrow> c = c'"
  by (induction xs arbitrary: c c') (simp_all add: crc_byte_inj_crc)

section \<open>Bursts of up to four bytes\<close>

fun le_val :: "u8 list \<Rightarrow> u32" where
  "le_val [] = 0"
| "le_val (b # bs) = ucast b XOR push_bit 8 (le_val bs)"

lemma bit_le_val_ge: "8 * length bs \<le> n \<Longrightarrow> \<not> bit (le_val bs) n"
  by (induction bs arbitrary: n) (auto simp: bit_simps)

lemma crc_bit_push: "\<not> bit x 31 \<Longrightarrow> crc_bit (push_bit (Suc 0) x) = x"
proof (rule bit_word_eqI)
  fix n assume x: "\<not> bit x 31" and n: "n < LENGTH(32)"
  have "\<not> bit (push_bit (Suc 0) x) 0" by (simp only: bit_push_bit_iff) simp
  then have "bit (crc_bit (push_bit (Suc 0) x)) n = bit (push_bit (Suc 0) x) (Suc n)"
    by (simp only: crc_bit_alt if_False xor.right_neutral bit_drop_bit_eq o_apply) simp
  also have "\<dots> = bit x n"
    using x n by (cases "n = 31") (auto simp del: push_bit_Suc simp: bit_push_bit_iff)
  finally show "bit (crc_bit (push_bit (Suc 0) x)) n = bit x n" .
qed

lemma crc_bits_push:
  "(\<And>k. 32 \<le> k + n \<Longrightarrow> \<not> bit x k) \<Longrightarrow> (crc_bit ^^ n) (push_bit n x) = x"
proof (induction n arbitrary: x)
  case 0
  then show ?case by simp
next
  case (Suc n)
  have "(crc_bit ^^ n) (push_bit n (push_bit (Suc 0) x)) = push_bit (Suc 0) x"
  proof (rule Suc.IH)
    fix k assume "32 \<le> k + n"
    then show "\<not> bit (push_bit (Suc 0) x) k"
      using Suc.prems [of "k - 1"] by (cases k) (auto simp del: push_bit_Suc simp: bit_push_bit_iff)
  qed
  moreover have "push_bit n (push_bit (Suc 0) x) = push_bit (Suc n) x"
    by (simp only: push_bit_push_bit) simp
  ultimately have "(crc_bit ^^ Suc n) (push_bit (Suc n) x) = crc_bit (push_bit (Suc 0) x)"
    by simp
  also have "\<dots> = x" by (rule crc_bit_push) (use Suc.prems [of 31] in simp)
  finally show ?case .
qed

lemma crc32_update_le_val:
  "length d \<le> 4 \<Longrightarrow> crc32_update c d = (crc_bit ^^ (8 * length d)) (c XOR le_val d)"
proof (induction d arbitrary: c)
  case Nil
  then show ?case by simp
next
  case (Cons b d)
  have shift: "(crc_bit ^^ 8) (push_bit 8 (le_val d)) = le_val d"
    by (rule crc_bits_push) (use Cons.prems in \<open>auto intro!: bit_le_val_ge\<close>)
  have "crc32_update c (b # d) = (crc_bit ^^ (8 * length d)) (crc_byte c b XOR le_val d)"
    using Cons by simp
  also have "crc_byte c b XOR le_val d = (crc_bit ^^ 8) (c XOR le_val (b # d))"
    by (subst shift [symmetric]) (simp add: crc_byte_def xor.assoc flip: crc_bits_xor)
  also have "(crc_bit ^^ (8 * length d)) \<dots>
      = (crc_bit ^^ (8 * length d + 8)) (c XOR le_val (b # d))"
    by (simp only: funpow_add o_apply)
  finally show ?case by (simp add: add.commute)
qed

lemma le_val_inj: "length d = length e \<Longrightarrow> length d \<le> 4 \<Longrightarrow> le_val d = le_val e \<longleftrightarrow> d = e"
proof (induction d arbitrary: e)
  case Nil
  then show ?case by simp
next
  case (Cons b d)
  then obtain c f where e: "e = c # f" "length d = length f" by (cases e) auto
  show ?case
  proof
    assume eq: "le_val (b # d) = le_val e"
    have "b = c"
    proof (rule bit_word_eqI)
      fix n assume n: "n < LENGTH(8)"
      then have "bit (le_val (b # d)) n = bit b n" "bit (le_val e) n = bit c n"
        by (auto simp: bit_simps e)
      then show "bit b n = bit c n" using eq by simp
    qed
    moreover have "le_val d = le_val f"
    proof (rule bit_word_eqI)
      fix n assume n: "n < LENGTH(32)"
      show "bit (le_val d) n = bit (le_val f) n"
      proof (cases "n < 24")
        case True
        then have "bit (le_val (b # d)) (n + 8) = bit (le_val d) n"
          "bit (le_val e) (n + 8) = bit (le_val f) n"
          by (auto simp: bit_simps e)
        then show ?thesis using eq by simp
      next
        case False
        then show ?thesis using Cons.prems e by (simp add: bit_le_val_ge)
      qed
    qed
    ultimately show "b # d = e" using Cons.IH [of f] Cons.prems e by simp
  qed simp
qed

lemma crc32_update_burst:
  assumes "length d = length e" "length d \<le> 4"
  shows "crc32_update c (d @ post) = crc32_update c (e @ post) \<longleftrightarrow> d = e"
  using assms
  by (simp add: crc32_update_append crc32_update_inj crc32_update_le_val crc_bits_inj
      xor_right_inj le_val_inj)

lemma crc32_finalize_inj: "crc32_finalize a = crc32_finalize b \<longleftrightarrow> a = b"
  unfolding crc32_finalize_def by (metis xor.commute xor_right_inj)

end
