(* ===== verification/Sha256.thy ===== *)
theory Sha256
  imports Prelude
begin

unbundle bit_operations_syntax

text \<open>
  \<^verbatim>\<open>bootloader/src/sha256.c\<close> and \<^verbatim>\<open>bootloader/include/sha256.h\<close>: the streaming SHA-256
  the verifier hashes an image with.  The context is the C struct; arrays are lists of
  their declared length.  The second half states the FIPS 180-4 function (padding, message
  schedule by recursion on the index, rotations, sixty-four rounds) and proves that the
  code computes it for every message and every split of it into updates.
\<close>

section \<open>The code\<close>

definition ROTR :: "u32 \<Rightarrow> nat \<Rightarrow> u32" where
  "ROTR x n = drop_bit n x OR push_bit (32 - n) x"

definition CH :: "u32 \<Rightarrow> u32 \<Rightarrow> u32 \<Rightarrow> u32" where
  "CH x y z = (x AND y) XOR (NOT x AND z)"

definition MAJ :: "u32 \<Rightarrow> u32 \<Rightarrow> u32 \<Rightarrow> u32" where
  "MAJ x y z = (x AND y) XOR (x AND z) XOR (y AND z)"

definition EP0 :: "u32 \<Rightarrow> u32" where "EP0 x = ROTR x 2 XOR ROTR x 13 XOR ROTR x 22"
definition EP1 :: "u32 \<Rightarrow> u32" where "EP1 x = ROTR x 6 XOR ROTR x 11 XOR ROTR x 25"
definition SIG0 :: "u32 \<Rightarrow> u32" where "SIG0 x = ROTR x 7 XOR ROTR x 18 XOR drop_bit 3 x"
definition SIG1 :: "u32 \<Rightarrow> u32" where "SIG1 x = ROTR x 17 XOR ROTR x 19 XOR drop_bit 10 x"

definition sha256_K :: "u32 list" where
  "sha256_K = concat [
    [0x428a2f98, 0x71374491, 0xb5c0fbcf, 0xe9b5dba5, 0x3956c25b, 0x59f111f1],
    [0x923f82a4, 0xab1c5ed5, 0xd807aa98, 0x12835b01, 0x243185be, 0x550c7dc3],
    [0x72be5d74, 0x80deb1fe, 0x9bdc06a7, 0xc19bf174, 0xe49b69c1, 0xefbe4786],
    [0x0fc19dc6, 0x240ca1cc, 0x2de92c6f, 0x4a7484aa, 0x5cb0a9dc, 0x76f988da],
    [0x983e5152, 0xa831c66d, 0xb00327c8, 0xbf597fc7, 0xc6e00bf3, 0xd5a79147],
    [0x06ca6351, 0x14292967, 0x27b70a85, 0x2e1b2138, 0x4d2c6dfc, 0x53380d13],
    [0x650a7354, 0x766a0abb, 0x81c2c92e, 0x92722c85, 0xa2bfe8a1, 0xa81a664b],
    [0xc24b8b70, 0xc76c51a3, 0xd192e819, 0xd6990624, 0xf40e3585, 0x106aa070],
    [0x19a4c116, 0x1e376c08, 0x2748774c, 0x34b0bcb5, 0x391c0cb3, 0x4ed8aa4a],
    [0x5b9cca4f, 0x682e6ff3, 0x748f82ee, 0x78a5636f, 0x84c87814, 0x8cc70208],
    [0x90befffa, 0xa4506ceb, 0xbef9a3f7, 0xc67178f2]]"

record sha256_ctx_t =
  sha_data :: "u8 list"
  sha_datalen :: u32
  sha_bitlen :: u64
  sha_state :: "u32 list"

definition be_word :: "u8 list \<Rightarrow> nat \<Rightarrow> u32" where
  "be_word data j = push_bit 24 (ucast (data ! j)) OR push_bit 16 (ucast (data ! (j + 1)))
     OR push_bit 8 (ucast (data ! (j + 2))) OR ucast (data ! (j + 3))"

text \<open>The array \<open>m\<close>, filled in index order.\<close>

definition msg_schedule :: "u8 list \<Rightarrow> u32 list" where
  "msg_schedule data =
     fold (\<lambda>i m. m @ [SIG1 (m ! (i - 2)) + m ! (i - 7) + SIG0 (m ! (i - 15)) + m ! (i - 16)])
       [16..<64] (map (\<lambda>i. be_word data (4 * i)) [0..<16])"

type_synonym regs = "u32 \<times> u32 \<times> u32 \<times> u32 \<times> u32 \<times> u32 \<times> u32 \<times> u32"

fun sha_round :: "u32 list \<Rightarrow> nat \<Rightarrow> regs \<Rightarrow> regs" where
  "sha_round m i (a, b, c, d, e, f, g, h) =
     (let t1 = h + EP1 e + CH e f g + sha256_K ! i + m ! i;
          t2 = EP0 a + MAJ a b c
      in (t1 + t2, a, b, c, d + t1, e, f, g))"

definition regs_of :: "u32 list \<Rightarrow> regs" where
  "regs_of st = (st ! 0, st ! 1, st ! 2, st ! 3, st ! 4, st ! 5, st ! 6, st ! 7)"

definition sha256_transform :: "sha256_ctx_t \<Rightarrow> u8 list \<Rightarrow> sha256_ctx_t" where
  "sha256_transform ctx data =
     (let st = sha_state ctx;
          m = msg_schedule data;
          (a, b, c, d, e, f, g, h) = fold (sha_round m) [0..<64] (regs_of st)
      in ctx\<lparr>sha_state := [st ! 0 + a, st ! 1 + b, st ! 2 + c, st ! 3 + d,
                         st ! 4 + e, st ! 5 + f, st ! 6 + g, st ! 7 + h]\<rparr>)"

definition sha256_init :: "sha256_ctx_t \<Rightarrow> sha256_ctx_t" where
  "sha256_init ctx = ctx\<lparr>sha_datalen := 0, sha_bitlen := 0,
     sha_state := [0x6a09e667, 0xbb67ae85, 0x3c6ef372, 0xa54ff53a,
                   0x510e527f, 0x9b05688c, 0x1f83d9ab, 0x5be0cd19]\<rparr>"

definition sha256_push :: "sha256_ctx_t \<Rightarrow> u8 \<Rightarrow> sha256_ctx_t" where
  "sha256_push ctx b =
     (let c1 = ctx\<lparr>sha_data := (sha_data ctx)[unat (sha_datalen ctx) := b],
                   sha_datalen := sha_datalen ctx + 1\<rparr>
      in if sha_datalen c1 = 64
         then (let c2 = sha256_transform c1 (sha_data c1)
               in c2\<lparr>sha_bitlen := sha_bitlen c2 + 512, sha_datalen := 0\<rparr>)
         else c1)"

fun sha256_update :: "sha256_ctx_t \<Rightarrow> u8 list \<Rightarrow> sha256_ctx_t" where
  "sha256_update ctx [] = ctx"
| "sha256_update ctx (b # p) = sha256_update (sha256_push ctx b) p"

definition zero_fill :: "nat \<Rightarrow> nat \<Rightarrow> u8 list \<Rightarrow> u8 list" where
  "zero_fill i n d = fold (\<lambda>j d. d[j := 0]) [i..<n] d"

text \<open>The eight length bytes, written from \<open>data[63]\<close> down to \<open>data[56]\<close>.\<close>

definition put_bitlen :: "u64 \<Rightarrow> u8 list \<Rightarrow> u8 list" where
  "put_bitlen bl d = d[63 := ucast bl, 62 := ucast (drop_bit 8 bl), 61 := ucast (drop_bit 16 bl),
     60 := ucast (drop_bit 24 bl), 59 := ucast (drop_bit 32 bl), 58 := ucast (drop_bit 40 bl),
     57 := ucast (drop_bit 48 bl), 56 := ucast (drop_bit 56 bl)]"

text \<open>\<open>out[k + i] = (state[w] >> (24 - 8 i)) & 0xFF\<close> for \<open>i < 4\<close>.\<close>

definition be32 :: "u32 \<Rightarrow> u8 list" where
  "be32 w = map (\<lambda>i. ucast (drop_bit (24 - 8 * i) w AND 0xFF)) [0..<4]"

definition sha256_pad :: "sha256_ctx_t \<Rightarrow> sha256_ctx_t" where
  "sha256_pad ctx =
     (let i = unat (sha_datalen ctx); d = (sha_data ctx)[i := 0x80]
      in if sha_datalen ctx < 56
         then ctx\<lparr>sha_data := zero_fill (i + 1) 56 d\<rparr>
         else (let d1 = zero_fill (i + 1) 64 d;
                   c1 = sha256_transform (ctx\<lparr>sha_data := d1\<rparr>) d1
               in c1\<lparr>sha_data := zero_fill 0 56 (sha_data c1)\<rparr>))"

definition sha256_final :: "sha256_ctx_t \<Rightarrow> u8 list" where
  "sha256_final ctx =
     (let c1 = sha256_pad ctx;
          bl = sha_bitlen c1 + ucast (sha_datalen c1) * 8;
          d = put_bitlen bl (sha_data c1);
          c2 = sha256_transform (c1\<lparr>sha_bitlen := bl, sha_data := d\<rparr>) d
      in concat (map be32 (sha_state c2)))"

text \<open>
  The C functions initialise a context on the stack.  \<open>stack_ctx\<close> stands for it before
  \<open>sha256_init\<close>; \<open>sha256_update_final\<close> below shows that its content does not matter.
\<close>

definition stack_ctx :: sha256_ctx_t where
  "stack_ctx = \<lparr>sha_data = replicate 64 0, sha_datalen = 0, sha_bitlen = 0, sha_state = []\<rparr>"

definition sha256 :: "u8 list \<Rightarrow> u8 list" where
  "sha256 data = sha256_final (sha256_update (sha256_init stack_ctx) data)"

section \<open>FIPS 180-4\<close>

definition fips_S0 :: "u32 \<Rightarrow> u32" where
  "fips_S0 x = word_rotr 2 x XOR word_rotr 13 x XOR word_rotr 22 x"
definition fips_S1 :: "u32 \<Rightarrow> u32" where
  "fips_S1 x = word_rotr 6 x XOR word_rotr 11 x XOR word_rotr 25 x"
definition fips_s0 :: "u32 \<Rightarrow> u32" where
  "fips_s0 x = word_rotr 7 x XOR word_rotr 18 x XOR drop_bit 3 x"
definition fips_s1 :: "u32 \<Rightarrow> u32" where
  "fips_s1 x = word_rotr 17 x XOR word_rotr 19 x XOR drop_bit 10 x"

fun fips_W :: "u8 list \<Rightarrow> nat \<Rightarrow> u32" where
  "fips_W blk t = (if t < 16 then be_word blk (4 * t)
     else fips_s1 (fips_W blk (t - 2)) + fips_W blk (t - 7)
        + fips_s0 (fips_W blk (t - 15)) + fips_W blk (t - 16))"

declare fips_W.simps [simp del]

fun fips_rounds :: "u8 list \<Rightarrow> nat \<Rightarrow> regs \<Rightarrow> regs" where
  "fips_rounds blk 0 r = r"
| "fips_rounds blk (Suc t) r =
     (let (a, b, c, d, e, f, g, h) = fips_rounds blk t r;
          t1 = h + fips_S1 e + CH e f g + sha256_K ! t + fips_W blk t;
          t2 = fips_S0 a + MAJ a b c
      in (t1 + t2, a, b, c, d + t1, e, f, g))"

definition fips_compress :: "u32 list \<Rightarrow> u8 list \<Rightarrow> u32 list" where
  "fips_compress st blk =
     (let (a, b, c, d, e, f, g, h) = fips_rounds blk 64 (regs_of st)
      in [st ! 0 + a, st ! 1 + b, st ! 2 + c, st ! 3 + d,
          st ! 4 + e, st ! 5 + f, st ! 6 + g, st ! 7 + h])"

definition fips_H0 :: "u32 list" where
  "fips_H0 = [0x6a09e667, 0xbb67ae85, 0x3c6ef372, 0xa54ff53a,
              0x510e527f, 0x9b05688c, 0x1f83d9ab, 0x5be0cd19]"

definition be64 :: "u64 \<Rightarrow> u8 list" where
  "be64 w = map (\<lambda>i. ucast (drop_bit (56 - 8 * i) w)) [0..<8]"

text \<open>A one bit, zeros up to 56 modulo 64, and the bit length of the message.\<close>

definition fips_pad :: "u8 list \<Rightarrow> u8 list" where
  "fips_pad msg = msg @ [0x80] @ replicate ((119 - length msg mod 64) mod 64) 0
     @ be64 (of_nat (8 * length msg))"

definition absorb :: "nat \<Rightarrow> u8 list \<Rightarrow> u32 list" where
  "absorb n msg = foldl fips_compress fips_H0 (map (\<lambda>i. take 64 (drop (64 * i) msg)) [0..<n])"

definition fips_sha256 :: "u8 list \<Rightarrow> u8 list" where
  "fips_sha256 msg = concat (map be32 (absorb (length (fips_pad msg) div 64) (fips_pad msg)))"

section \<open>The transform is the FIPS compression\<close>

lemma ROTR_rotr: "0 < n \<Longrightarrow> n < 32 \<Longrightarrow> ROTR x n = word_rotr n x"
  unfolding ROTR_def
  by (rule bit_word_eqI)
    (auto simp: bit_simps bit_word_rotr_iff bit_u32_ge not_le mod_if add.commute [of n])

lemmas sigma_fips =
  EP0_def EP1_def SIG0_def SIG1_def fips_S0_def fips_S1_def fips_s0_def fips_s1_def ROTR_rotr

lemma sig_eqs: "EP0 x = fips_S0 x" "EP1 x = fips_S1 x" "SIG0 x = fips_s0 x" "SIG1 x = fips_s1 x"
  by (simp_all add: sigma_fips)

lemma schedule_upto:
  assumes "16 \<le> n"
  shows "fold (\<lambda>i m. m @ [SIG1 (m ! (i - 2)) + m ! (i - 7) + SIG0 (m ! (i - 15)) + m ! (i - 16)])
     [16..<n] (map (\<lambda>i. be_word blk (4 * i)) [0..<16]) = map (fips_W blk) [0..<n]"
  using assms
proof (induction n rule: dec_induct)
  case base
  show ?case by (auto simp: fips_W.simps)
next
  case (step n)
  have "fips_W blk n = SIG1 (fips_W blk (n - 2)) + fips_W blk (n - 7)
      + SIG0 (fips_W blk (n - 15)) + fips_W blk (n - 16)"
    using step.hyps by (simp add: fips_W.simps [of blk n] sig_eqs)
  with step show ?case by simp
qed

lemma msg_schedule_fips: "msg_schedule blk = map (fips_W blk) [0..<64]"
  unfolding msg_schedule_def by (rule schedule_upto) simp

lemma sha_rounds_fips:
  "n \<le> 64 \<Longrightarrow> fold (sha_round (msg_schedule blk)) [0..<n] r = fips_rounds blk n r"
proof (induction n)
  case 0
  then show ?case by simp
next
  case (Suc n)
  then show ?case
    by (simp add: msg_schedule_fips sig_eqs Let_def split: prod.split)
qed

lemma sha256_transform_fips:
  "sha256_transform ctx blk = ctx\<lparr>sha_state := fips_compress (sha_state ctx) blk\<rparr>"
  by (simp add: sha256_transform_def fips_compress_def Let_def sha_rounds_fips
      split: prod.split)

section \<open>Streaming\<close>

lemma sha256_update_append:
  "sha256_update c (xs @ ys) = sha256_update (sha256_update c xs) ys"
  by (induction xs arbitrary: c) simp_all

lemma absorb_Suc:
  "absorb (Suc n) msg = fips_compress (absorb n msg) (take 64 (drop (64 * n) msg))"
  by (simp add: absorb_def)

lemma absorb_append: "64 * n \<le> length xs \<Longrightarrow> absorb n (xs @ ys) = absorb n xs"
proof (induction n)
  case 0
  then show ?case by (simp add: absorb_def)
next
  case (Suc n)
  then show ?case by (simp add: absorb_Suc)
qed

text \<open>
  The context holds the compression of a whole number of blocks \<open>full\<close> and the bytes \<open>t\<close>
  not compressed yet.
\<close>

definition sha_rep :: "sha256_ctx_t \<Rightarrow> u8 list \<Rightarrow> u8 list \<Rightarrow> bool" where
  "sha_rep ctx full t \<longleftrightarrow>
     length (sha_data ctx) = 64 \<and> 64 dvd length full \<and> length t < 64 \<and>
     sha_datalen ctx = of_nat (length t) \<and> take (length t) (sha_data ctx) = t \<and>
     sha_bitlen ctx = of_nat (8 * length full) \<and>
     sha_state ctx = absorb (length full div 64) full"

lemma sha_rep_init: "length (sha_data ctx) = 64 \<Longrightarrow> sha_rep (sha256_init ctx) [] []"
  by (simp add: sha_rep_def sha256_init_def absorb_def fips_H0_def)

lemma unat_datalen: "sha_rep ctx full t \<Longrightarrow> unat (sha_datalen ctx) = length t"
  by (simp add: sha_rep_def unat_of_nat)

lemma sha_rep_push:
  assumes rep: "sha_rep ctx full t"
  shows "if length t = 63 then sha_rep (sha256_push ctx b) (full @ t @ [b]) []
         else sha_rep (sha256_push ctx b) full (t @ [b])"
proof -
  let ?d = "(sha_data ctx)[length t := b]"
  have t: "length t < 64" and d: "length ?d = 64" using rep by (simp_all add: sha_rep_def)
  note un = unat_datalen [OF rep]
  have tk: "take (Suc (length t)) ?d = t @ [b]"
    using rep t by (simp add: sha_rep_def take_Suc_conv_app_nth)
  have len1: "sha_datalen ctx + 1 = of_nat (Suc (length t))"
    using rep by (simp add: sha_rep_def)
  obtain q where q: "length full = 64 * q" using rep by (auto simp: sha_rep_def)
  show ?thesis
  proof (cases "length t = 63")
    case True
    then have "sha_datalen ctx + 1 = 64" using len1 by simp
    moreover have "?d = t @ [b]" using tk True d by simp
    ultimately have "sha_rep (sha256_push ctx b) (full @ t @ [b]) []"
      using rep True q un
      by (simp add: sha_rep_def sha256_push_def Let_def sha256_transform_fips absorb_Suc
          absorb_append)
    then show ?thesis using True by simp
  next
    case False
    then have sr: "Suc (length t) < 64" using t by simp
    have "unat (sha_datalen ctx + 1) = Suc (length t)"
      unfolding len1 unat_of_nat using sr by simp
    then have "sha_datalen ctx + 1 \<noteq> 64" using sr by auto
    then have "sha_rep (sha256_push ctx b) full (t @ [b])"
      using rep len1 tk un sr by (simp add: sha_rep_def sha256_push_def Let_def)
    then show ?thesis using False by simp
  qed
qed

lemma sha_rep_update:
  "sha_rep ctx full t \<Longrightarrow>
     \<exists>full' t'. full' @ t' = full @ t @ p \<and> sha_rep (sha256_update ctx p) full' t'"
proof (induction p arbitrary: ctx full t)
  case Nil
  then show ?case by auto
next
  case (Cons b p)
  show ?case
  proof (cases "length t = 63")
    case True
    then have "sha_rep (sha256_push ctx b) (full @ t @ [b]) []"
      using sha_rep_push [OF Cons.prems] by simp
    from Cons.IH [OF this] show ?thesis by simp
  next
    case False
    then have "sha_rep (sha256_push ctx b) full (t @ [b])"
      using sha_rep_push [OF Cons.prems] by simp
    from Cons.IH [OF this] show ?thesis by simp
  qed
qed

section \<open>Padding and the digest\<close>

lemma length_fold_update: "length (fold (\<lambda>j d. d[j := x]) js d) = length d"
  by (induction js arbitrary: d) simp_all

lemma length_zero_fill [simp]: "length (zero_fill i n d) = length d"
  by (simp add: zero_fill_def length_fold_update)

lemma zero_fill_eq:
  "i \<le> n \<Longrightarrow> n \<le> length d \<Longrightarrow> zero_fill i n d = take i d @ replicate (n - i) 0 @ drop n d"
proof (induction n rule: dec_induct)
  case base
  then show ?case by (simp add: zero_fill_def)
next
  case (step n)
  then have "zero_fill i (Suc n) d = (take i d @ replicate (n - i) 0 @ drop n d)[n := 0]"
    by (simp add: zero_fill_def)
  also have "\<dots> = take i d @ replicate (n - i) 0 @ (0 # drop (Suc n) d)"
    using step by (simp add: list_update_append flip: Cons_nth_drop_Suc)
  also have "\<dots> = take i d @ (replicate (n - i) 0 @ [0]) @ drop (Suc n) d"
    by simp
  also have "replicate (n - i) 0 @ [0] = replicate (Suc n - i) (0 :: u8)"
    using step.hyps by (simp add: Suc_diff_le replicate_append_same)
  finally show ?case .
qed

lemma length_8E:
  assumes "length xs = 8"
  obtains x0 x1 x2 x3 x4 x5 x6 x7 where "xs = [x0, x1, x2, x3, x4, x5, x6, x7]"
  using assms by (auto simp: numeral_eq_Suc length_Suc_conv)

lemma put_bitlen_eq:
  assumes "length d = 64"
  shows "put_bitlen bl d = take 56 d @ be64 bl"
proof -
  have "length (drop 56 d) = 8" using assms by simp
  then obtain x0 x1 x2 x3 x4 x5 x6 x7 where x: "drop 56 d = [x0, x1, x2, x3, x4, x5, x6, x7]"
    by (rule length_8E)
  have "length (take 56 d) = 56" using assms by simp
  then have "put_bitlen bl (take 56 d @ drop 56 d) = take 56 d @ be64 bl"
    unfolding put_bitlen_def x be64_def by (simp add: list_update_append upt_rec)
  then show ?thesis by simp
qed

lemma put_bitlen_append:
  "length z = 56 \<Longrightarrow> length r = 8 \<Longrightarrow> put_bitlen bl (z @ r) = z @ be64 bl"
  by (simp add: put_bitlen_eq)

lemma length_be64 [simp]: "length (be64 w) = 8"
  by (simp add: be64_def)

lemma pad_zeros_one: "r < 56 \<Longrightarrow> (119 - r) mod 64 = 55 - (r :: nat)"
proof -
  assume "r < 56"
  then have "119 - r = 55 - r + 64" by simp
  moreover have "(55 - r + 64) mod 64 = 55 - r" by (simp only: mod_add_self2) simp
  ultimately show ?thesis by (simp only:)
qed

lemma pad_zeros_two: "56 \<le> r \<Longrightarrow> r < 64 \<Longrightarrow> (119 - r) mod 64 = 63 - r + (56 :: nat)"
  by simp

text \<open>The last block or blocks the code compresses, for a tail of \<open>r\<close> bytes.\<close>

lemma fips_pad_one:
  assumes "length full = 64 * q" "length t < 56"
  shows "fips_pad (full @ t)
    = full @ (t @ 0x80 # replicate (55 - length t) 0) @ be64 (of_nat (8 * length (full @ t)))"
proof -
  have "length (full @ t) mod 64 = length t" using assms by simp
  then show ?thesis
    unfolding fips_pad_def using pad_zeros_one [OF assms(2)] by (simp only: append_assoc append_Cons append_Nil)
qed

lemma fips_pad_two:
  assumes "length full = 64 * q" "56 \<le> length t" "length t < 64"
  shows "fips_pad (full @ t)
    = full @ (t @ 0x80 # replicate (63 - length t) 0)
        @ (replicate 56 0 @ be64 (of_nat (8 * length (full @ t))))"
proof -
  have "length (full @ t) mod 64 = length t" using assms by simp
  then show ?thesis
    unfolding fips_pad_def using pad_zeros_two [OF assms(2,3)]
    by (simp only: append_assoc append_Cons append_Nil replicate_add)
qed

lemma bitlen_total:
  assumes "sha_rep ctx full t"
  shows "sha_bitlen ctx + ucast (sha_datalen ctx) * 8 = of_nat (8 * length (full @ t))"
proof -
  have "ucast (sha_datalen ctx) = (of_nat (unat (sha_datalen ctx)) :: u64)" by simp
  then have "ucast (sha_datalen ctx) = (of_nat (length t) :: u64)"
    unfolding unat_datalen [OF assms] .
  then show ?thesis using assms by (simp add: sha_rep_def algebra_simps)
qed

text \<open>Absorbing one block, or two, after a whole number of blocks.\<close>

lemma absorb_block:
  assumes "length full = 64 * q" "length blk = 64"
  shows "absorb (Suc q) (full @ blk @ rest) = fips_compress (absorb q full) blk"
  using assms by (simp add: absorb_Suc absorb_append)

lemma sha256_final_fips:
  assumes rep: "sha_rep ctx full t"
  shows "sha256_final ctx = fips_sha256 (full @ t)"
proof -
  let ?bl = "of_nat (8 * length (full @ t)) :: u64"
  let ?d = "(sha_data ctx)[length t := 0x80]"
  obtain q where q: "length full = 64 * q" using rep by (auto simp: sha_rep_def)
  have t: "length t < 64" and d: "length ?d = 64" and st: "sha_state ctx = absorb q full"
    using rep q by (simp_all add: sha_rep_def)
  note un = unat_datalen [OF rep] and bl = bitlen_total [OF rep]
  have lt: "sha_datalen ctx < 56 \<longleftrightarrow> length t < 56" by (simp add: word_less_nat_alt un)
  have tk: "take (Suc (length t)) ?d = t @ [0x80]"
    using rep t by (simp add: sha_rep_def take_Suc_conv_app_nth)
  show ?thesis
  proof (cases "length t < 56")
    case True
    let ?z = "t @ 0x80 # replicate (55 - length t) 0"
    have "zero_fill (Suc (length t)) 56 ?d = ?z @ drop 56 ?d"
      using True d tk by (simp add: zero_fill_eq)
    moreover have "length ?z = 56" "length (drop 56 ?d) = 8" using True d by simp_all
    ultimately have blk: "put_bitlen ?bl (zero_fill (Suc (length t)) 56 ?d) = ?z @ be64 ?bl"
      by (simp only: put_bitlen_append)
    have pad: "fips_pad (full @ t) = full @ (?z @ be64 ?bl) @ []"
      using fips_pad_one [OF q True] by simp
    have len: "length (?z @ be64 ?bl) = 64" using True by simp
    have "fips_sha256 (full @ t)
        = concat (map be32 (fips_compress (absorb q full) (?z @ be64 ?bl)))"
      unfolding fips_sha256_def pad absorb_block [OF q len, of "[]", symmetric]
      using q len by simp
    then show ?thesis
      using True un lt bl st blk
      by (simp add: sha256_final_def sha256_pad_def Let_def sha256_transform_fips)
  next
    case False
    let ?z = "t @ 0x80 # replicate (63 - length t) 0" and ?e = "replicate 56 0 @ be64 ?bl"
    have z: "length ?z = 64" and e: "length ?e = 64" using t by simp_all
    have blk1: "zero_fill (Suc (length t)) 64 ?d = ?z"
      using t d tk by (simp add: zero_fill_eq)
    have blk2: "put_bitlen ?bl (zero_fill 0 56 ?z) = ?e"
      using z by (simp add: put_bitlen_eq zero_fill_eq)
    have pad: "fips_pad (full @ t) = full @ ?z @ ?e"
      using fips_pad_two [OF q _ t] False by simp
    have "length (full @ ?z) = 64 * Suc q" using q z by simp
    then have "absorb (Suc (Suc q)) ((full @ ?z) @ ?e @ [])
        = fips_compress (absorb (Suc q) (full @ ?z @ [])) ?e"
      using absorb_block [of "full @ ?z" "Suc q" ?e "[]"] e by simp
    then have "absorb (Suc (Suc q)) (full @ ?z @ ?e)
        = fips_compress (fips_compress (absorb q full) ?z) ?e"
      using absorb_block [OF q z, of "[]"] by simp
    then have "fips_sha256 (full @ t)
        = concat (map be32 (fips_compress (fips_compress (absorb q full) ?z) ?e))"
      unfolding fips_sha256_def pad using q z e by simp
    then show ?thesis
      using False un lt bl st blk1 blk2
      by (simp add: sha256_final_def sha256_pad_def Let_def sha256_transform_fips)
  qed
qed

lemma sha256_update_final:
  assumes "length (sha_data ctx) = 64"
  shows "sha256_final (sha256_update (sha256_init ctx) msg) = fips_sha256 msg"
  using sha_rep_update [OF sha_rep_init [OF assms], of msg] by (auto simp: sha256_final_fips)

lemma length_stack_ctx: "length (sha_data stack_ctx) = 64"
  by (simp add: stack_ctx_def)

lemmas sha256_stream_final = sha256_update_final [OF length_stack_ctx]

lemma length_fips_sha256: "length (fips_sha256 msg) = 32"
proof -
  have "length (fips_compress st blk) = 8" for st blk
    by (simp add: fips_compress_def split: prod.split)
  then have "length (absorb n m) = 8" for n m
    by (cases n) (simp_all add: absorb_Suc, simp add: absorb_def fips_H0_def)
  moreover have "length (concat (map be32 xs)) = 4 * length xs" for xs
    by (induction xs) (simp_all add: be32_def)
  ultimately show ?thesis by (simp add: fips_sha256_def)
qed

end
