(* ===== verification/Crypto.thy ===== *)
theory Crypto
  imports Flash_Sim Crc32 Sha256
begin

unbundle bit_operations_syntax

text \<open>
  \<^verbatim>\<open>bootloader/src/crypto.c\<close>: verification of a firmware image in a slot.  The elliptic-curve
  routines of the vendored micro-ecc library and the generated \<^verbatim>\<open>public_key.h\<close> are parameters
  (\<open>crypto_env\<close>); everything the file itself computes is translated.  \<open>image_ok\<close> is the
  abstract specification: a predicate on the bytes of a slot, with the FIPS hash and the
  numeric form of the low-S rule.
\<close>

section \<open>Parameters\<close>

record crypto_env =
  uECC_valid_public_key :: "u8 list \<Rightarrow> int"
  uECC_verify :: "u8 list \<Rightarrow> u8 list \<Rightarrow> u8 list \<Rightarrow> int"
  public_key_xy :: "u8 list"
  public_key_sha256 :: "u8 list"

section \<open>The code\<close>

definition VERIFY_CHUNK_BYTES :: u32 where "VERIFY_CHUNK_BYTES = 1024"

text \<open>
  The two payload loops of the file differ only in the accumulator they update: \<open>remaining\<close>
  bytes from \<open>addr\<close>, at most \<open>VERIFY_CHUNK_BYTES\<close> at a time, \<open>None\<close> when a read fails.
\<close>

function stream_payload ::
  "('c \<Rightarrow> u8 list \<Rightarrow> 'c) \<Rightarrow> 's flash_ops \<Rightarrow> 's \<Rightarrow> u32 \<Rightarrow> u32 \<Rightarrow> 'c \<Rightarrow> 'c option" where
  "stream_payload upd F s addr remaining c =
     (if remaining > 0
      then (let chunk = (if remaining > VERIFY_CHUNK_BYTES then VERIFY_CHUNK_BYTES else remaining)
            in case fl_read F s addr chunk of (st, buf) \<Rightarrow>
                 if st \<noteq> FLASH_OK then None
                 else stream_payload upd F s (addr + chunk) (remaining - chunk) (upd c buf))
      else Some c)"
  by pat_completeness auto
termination
  by (relation "measure (\<lambda>(upd, F, s, addr, remaining, c). unat remaining)")
    (auto simp: VERIFY_CHUNK_BYTES_def word_less_nat_alt word_le_nat_alt unat_sub split: if_splits)

declare stream_payload.simps [simp del]

definition hash_signed_region :: "'s flash_ops \<Rightarrow> 's \<Rightarrow> u32 \<Rightarrow> FirmwareHeader_t \<Rightarrow> u8 list option" where
  "hash_signed_region F s slot_addr hdr =
     (let sig_offset = 20;
          hb = hdr_bytes hdr;
          c1 = sha256_update (sha256_init stack_ctx) (take sig_offset hb);
          c2 = sha256_update c1 (replicate (unat FIRMWARE_SIGNATURE_SIZE) 0);
          c3 = sha256_update c2
                 (take (unat FIRMWARE_HEADER_SIZE - sig_offset - unat FIRMWARE_SIGNATURE_SIZE)
                    (drop (sig_offset + unat FIRMWARE_SIGNATURE_SIZE) hb))
      in case stream_payload sha256_update F s (slot_addr + FIRMWARE_HEADER_SIZE)
                (fh_image_size hdr) c3 of
           None \<Rightarrow> None
         | Some c \<Rightarrow> Some (sha256_final c))"

definition k_secp256r1_half_order :: "u8 list" where
  "k_secp256r1_half_order = [
    0x7F, 0xFF, 0xFF, 0xFF, 0x80, 0x00, 0x00, 0x00,
    0x7F, 0xFF, 0xFF, 0xFF, 0xFF, 0xFF, 0xFF, 0xFF,
    0xDE, 0x73, 0x7D, 0x56, 0xD3, 0x8B, 0xCF, 0x42,
    0x79, 0xDC, 0xE5, 0x61, 0x7E, 0x31, 0x92, 0xA8]"

definition or_all :: "u8 list \<Rightarrow> u8" where
  "or_all xs = fold (\<lambda>i acc. acc OR xs ! i) [0..<32] 0"

text \<open>The borrow of \<open>n/2 - s\<close>, from the last byte to the first.\<close>

definition half_order_borrow :: "u8 list \<Rightarrow> int" where
  "half_order_borrow s =
     fold (\<lambda>i borrow. if uint (k_secp256r1_half_order ! i) - uint (s ! i) - borrow < 0 then 1 else 0)
       (rev [0..<32]) 0"

definition is_canonical_low_s :: "u8 list \<Rightarrow> bool" where
  "is_canonical_low_s sig =
     (let r = sig; s = drop 32 sig
      in if or_all r = 0 \<or> or_all s = 0 then False else half_order_borrow s = 0)"

definition crypto_constant_time_equal :: "u8 list \<Rightarrow> u8 list \<Rightarrow> nat \<Rightarrow> bool" where
  "crypto_constant_time_equal a b len =
     (fold (\<lambda>i diff. diff OR (a ! i XOR b ! i)) [0..<len] 0 = 0)"

definition crypto_validate_public_key :: "crypto_env \<Rightarrow> bool" where
  "crypto_validate_public_key C =
     (if uECC_valid_public_key C (public_key_xy C) \<noteq> 1 then False
      else crypto_constant_time_equal (sha256 (public_key_xy C)) (public_key_sha256 C) 32)"

definition crypto_verify_firmware :: "crypto_env \<Rightarrow> 's flash_ops \<Rightarrow> 's \<Rightarrow> u32 \<Rightarrow> bool" where
  "crypto_verify_firmware C F s slot_addr =
     (if \<not> crypto_validate_public_key C then False
      else case fl_read F s slot_addr FIRMWARE_HEADER_SIZE of (st, hb) \<Rightarrow>
        if st \<noteq> FLASH_OK then False
        else let hdr = hdr_of_bytes hb in
          if fh_magic hdr \<noteq> FIRMWARE_MAGIC then False
          else if fh_image_size hdr = 0 then False
          else if fh_image_size hdr > FIRMWARE_MAX_PAYLOAD_SIZE then False
          else case stream_payload crc32_update F s (slot_addr + FIRMWARE_HEADER_SIZE)
                      (fh_image_size hdr) CRC32_INIT of
            None \<Rightarrow> False
          | Some crc_state \<Rightarrow>
              if crc32_finalize crc_state \<noteq> fh_crc32 hdr then False
              else case hash_signed_region F s slot_addr hdr of
                None \<Rightarrow> False
              | Some hash \<Rightarrow>
                  if \<not> is_canonical_low_s (fh_signature hdr) then False
                  else uECC_verify C (public_key_xy C) hash (fh_signature hdr) = 1)"

section \<open>Streaming accumulators\<close>

locale accumulator =
  fixes upd :: "'c \<Rightarrow> u8 list \<Rightarrow> 'c"
  assumes upd_Nil: "upd c [] = c"
    and upd_append: "upd c (xs @ ys) = upd (upd c xs) ys"
begin

text \<open>The chunked payload loop equals one update with the whole range, on every backend.\<close>

lemma stream_payload_eq:
  assumes "flash_device F byte writable"
  shows "stream_payload upd F s a n c = Some (upd c (mem_bytes (byte s) a (unat n)))"
proof (induction "unat n" arbitrary: a n c rule: less_induct)
  case less
  show ?case
  proof (cases "n = 0")
    case True
    then show ?thesis by (subst stream_payload.simps) (simp add: upd_Nil)
  next
    case False
    then have n: "n > 0" by (simp add: word_gt_0)
    let ?k = "if n > VERIFY_CHUNK_BYTES then VERIFY_CHUNK_BYTES else n"
    have k: "0 < unat ?k" "?k \<le> n"
      using False by (auto simp: VERIFY_CHUNK_BYTES_def unat_gt_0)
    then have sub: "unat (n - ?k) = unat n - unat ?k" "unat ?k \<le> unat n"
      by (simp_all add: unat_sub word_le_nat_alt)
    have "stream_payload upd F s a n c
        = stream_payload upd F s (a + ?k) (n - ?k) (upd c (mem_bytes (byte s) a (unat ?k)))"
      by (subst stream_payload.simps) (simp add: n Let_def flash_device.read [OF assms])
    also have "\<dots> = Some (upd (upd c (mem_bytes (byte s) a (unat ?k)))
        (mem_bytes (byte s) (a + ?k) (unat n - unat ?k)))"
      unfolding sub(1) [symmetric] by (rule less.hyps) (use k sub in simp)
    also have "\<dots> = Some (upd c (mem_bytes (byte s) a (unat ?k + (unat n - unat ?k))))"
      by (simp add: upd_append mem_bytes_append)
    finally show ?thesis using sub by simp
  qed
qed

end

interpretation crc: accumulator crc32_update
  by unfold_locales (simp_all add: crc32_update_append)

interpretation sha: accumulator sha256_update
  by unfold_locales (simp_all add: sha256_update_append)

text \<open>What the two payload loops compute on any backend.\<close>

lemmas payload_crc = crc.stream_payload_eq
lemmas payload_sha = sha.stream_payload_eq

section \<open>The arithmetic of the signature check\<close>

definition be_nat :: "u8 list \<Rightarrow> nat" where
  "be_nat bs = foldl (\<lambda>a b. 256 * a + unat b) 0 bs"

definition secp256r1_order :: nat where
  "secp256r1_order = 0xFFFFFFFF00000000FFFFFFFFFFFFFFFFBCE6FAADA7179E84F3B9CAC2FC632551"

lemma foldl_be_nat: "foldl (\<lambda>a b. 256 * a + unat b) k bs = k * 256 ^ length bs + be_nat (bs :: u8 list)"
proof (induction bs arbitrary: k)
  case Nil
  then show ?case by (simp add: be_nat_def)
next
  case (Cons b bs)
  show ?case
    using Cons.IH [of "256 * k + unat b"] Cons.IH [of "unat b"]
    by (simp add: be_nat_def algebra_simps)
qed

lemma be_nat_Nil [simp]: "be_nat [] = 0"
  by (simp add: be_nat_def)

lemma be_nat_Cons: "be_nat (b # bs) = unat b * 256 ^ length bs + be_nat bs"
  using foldl_be_nat [of "unat b" bs] by (simp add: be_nat_def)

lemma unat_u8_le: "unat (b :: u8) \<le> 255"
proof -
  have "unat b < 2 ^ LENGTH(8)" by (rule unsigned_less)
  then show ?thesis by simp
qed

lemma be_nat_less: "be_nat bs < 256 ^ length bs"
proof (induction bs)
  case (Cons b bs)
  have "unat b * 256 ^ length bs + be_nat bs < (unat b + 1) * 256 ^ length bs"
    using Cons.IH by (simp add: algebra_simps)
  also have "\<dots> \<le> 256 * 256 ^ length bs"
    using unat_u8_le [of b] by (intro mult_right_mono) auto
  finally show ?case by (simp add: be_nat_Cons)
qed simp

lemma be_nat_eq_0_iff: "be_nat bs = 0 \<longleftrightarrow> (\<forall>b \<in> set bs. b = 0)"
  by (induction bs) (auto simp: be_nat_Cons unat_eq_0)

lemma half_order_value: "be_nat k_secp256r1_half_order = secp256r1_order div 2"
  by (simp add: be_nat_def k_secp256r1_half_order_def secp256r1_order_def)

text \<open>A disjunction of bytes is zero exactly when all of them are.\<close>

lemma or_eq_0_iff: "(a :: u8) OR b = 0 \<longleftrightarrow> a = 0 \<and> b = 0"
  by (metis or_eq_not_not_and word_bw_same(2) or.right_neutral word_bw_lcs(2) word_log_esimps(3)
      or.left_idem)

lemma fold_or_eq_0_iff:
  "fold (\<lambda>i acc. acc OR f i) js acc = (0 :: u8) \<longleftrightarrow> acc = 0 \<and> (\<forall>i \<in> set js. f i = 0)"
  by (induction js arbitrary: acc) (auto simp: or_eq_0_iff)

lemma or_all_eq_0_iff:
  assumes "32 \<le> length xs"
  shows "or_all xs = 0 \<longleftrightarrow> be_nat (take 32 xs) = 0"
proof -
  have "(\<forall>i \<in> set [0..<32]. xs ! i = 0) \<longleftrightarrow> (\<forall>b \<in> set (take 32 xs). b = 0)"
    using assms by (auto simp: all_set_conv_all_nth)
  then show ?thesis by (simp add: or_all_def fold_or_eq_0_iff be_nat_eq_0_iff)
qed

text \<open>The borrow out of a byte-wise subtraction, from the last byte to the first.\<close>

lemma borrow_chain:
  assumes "length h = length s" "i \<le> length s"
  shows "fold (\<lambda>i borrow. if uint (h ! i) - uint (s ! i) - borrow < 0 then 1 else 0)
           (rev [i..<length s]) (0 :: int)
         = (if be_nat (drop i h) < be_nat (drop i (s :: u8 list)) then 1 else 0)"
  using assms(2)
proof (induction "length s - i" arbitrary: i)
  case 0
  then show ?case using assms by simp
next
  case (Suc n)
  then have i: "i < length s" "i < length h" using assms by simp_all
  have IH: "fold (\<lambda>i borrow. if uint (h ! i) - uint (s ! i) - borrow < 0 then 1 else 0)
           (rev [Suc i..<length s]) (0 :: int)
         = (if be_nat (drop (Suc i) h) < be_nat (drop (Suc i) s) then 1 else 0)"
    by (rule Suc.hyps) (use Suc.hyps i in auto)
  have up: "[i..<length s] = i # [Suc i..<length s]" using i by (simp add: upt_rec)
  let ?W = "256 ^ (length s - Suc i) :: nat"
  have h: "be_nat (drop i h) = unat (h ! i) * ?W + be_nat (drop (Suc i) h)"
    and s: "be_nat (drop i s) = unat (s ! i) * ?W + be_nat (drop (Suc i) s)"
    using i assms by (simp_all add: Cons_nth_drop_Suc [symmetric] be_nat_Cons)
  have lt: "be_nat (drop (Suc i) h) < ?W" "be_nat (drop (Suc i) s) < ?W"
    using be_nat_less [of "drop (Suc i) h"] be_nat_less [of "drop (Suc i) s"] assms by simp_all
  have key: "a * W + x < b * W + y \<longleftrightarrow> a < b \<or> a = b \<and> x < y" if "x < W" "y < W"
    for a b x y W :: nat
  proof -
    have "a * W + x < b * W + y" if "a < b"
    proof -
      have "a * W + x < (a + 1) * W" using \<open>x < W\<close> by (simp add: algebra_simps)
      also have "\<dots> \<le> b * W" using that by (intro mult_right_mono) auto
      finally show ?thesis by simp
    qed
    moreover have "b * W + y < a * W + x" if "b < a"
    proof -
      have "b * W + y < (b + 1) * W" using \<open>y < W\<close> by (simp add: algebra_simps)
      also have "\<dots> \<le> a * W" using that by (intro mult_right_mono) auto
      finally show ?thesis by simp
    qed
    ultimately show ?thesis by (cases a b rule: linorder_cases) auto
  qed
  have borrow: "(if int a - int b - (if c then 1 else 0) < 0 then 1 else 0)
      = (if a < b \<or> a = b \<and> c then 1 else (0 :: int))" for a b c
    by auto
  show ?case
    unfolding up h s key [OF lt] rev.simps fold_append comp_def IH fold_simps
    unfolding uint_nat by (rule borrow)
qed

lemma half_order_borrow_eq:
  assumes "32 \<le> length s"
  shows "half_order_borrow s = (if secp256r1_order div 2 < be_nat (take 32 s) then 1 else 0)"
proof -
  have "half_order_borrow s = half_order_borrow (take 32 s)"
    unfolding half_order_borrow_def by (rule fold_cong) auto
  then show ?thesis
    using borrow_chain [of k_secp256r1_half_order "take 32 s" 0] assms
    by (simp add: half_order_borrow_def half_order_value [symmetric])
      (simp add: k_secp256r1_half_order_def)
qed

lemma constant_time_equal_iff:
  assumes "length a = n" "length b = n"
  shows "crypto_constant_time_equal a b n \<longleftrightarrow> a = b"
proof -
  have "crypto_constant_time_equal a b n \<longleftrightarrow> (\<forall>i<n. a ! i = b ! i)"
    by (auto simp: crypto_constant_time_equal_def fold_or_eq_0_iff xor_eq_0_word)
  then show ?thesis using assms by (auto simp: list_eq_iff_nth_eq)
qed

section \<open>The abstract verifier\<close>

text \<open>
  The contents of a slot as its header, payload and signed message, read from a memory; and
  the acceptance predicate over them.  It mentions no chunk, no running checksum and no
  byte-wise borrow.
\<close>

definition image_header :: "mem \<Rightarrow> u32 \<Rightarrow> FirmwareHeader_t" where
  "image_header m a = hdr_of_bytes (mem_bytes m a 512)"

definition image_payload :: "mem \<Rightarrow> u32 \<Rightarrow> u8 list" where
  "image_payload m a = mem_bytes m (a + 512) (unat (fh_image_size (image_header m a)))"

definition signed_message :: "mem \<Rightarrow> u32 \<Rightarrow> u8 list" where
  "signed_message m a =
     hdr_bytes ((image_header m a)\<lparr>fh_signature := replicate 64 0\<rparr>) @ image_payload m a"

definition low_s :: "u8 list \<Rightarrow> bool" where
  "low_s sig \<longleftrightarrow> 0 < be_nat (take 32 sig) \<and> 0 < be_nat (drop 32 sig)
     \<and> be_nat (drop 32 sig) \<le> secp256r1_order div 2"

definition pubkey_ok :: "crypto_env \<Rightarrow> bool" where
  "pubkey_ok C \<longleftrightarrow> uECC_valid_public_key C (public_key_xy C) = 1
     \<and> fips_sha256 (public_key_xy C) = public_key_sha256 C"

definition image_ok :: "crypto_env \<Rightarrow> mem \<Rightarrow> u32 \<Rightarrow> bool" where
  "image_ok C m a \<longleftrightarrow> pubkey_ok C
     \<and> fh_magic (image_header m a) = FIRMWARE_MAGIC
     \<and> 0 < fh_image_size (image_header m a)
     \<and> fh_image_size (image_header m a) \<le> FIRMWARE_MAX_PAYLOAD_SIZE
     \<and> crc32 (image_payload m a) = fh_crc32 (image_header m a)
     \<and> low_s (fh_signature (image_header m a))
     \<and> uECC_verify C (public_key_xy C) (fips_sha256 (signed_message m a))
         (fh_signature (image_header m a)) = 1"

lemma image_header_wf: "hdr_wf (image_header m a)"
  by (simp add: image_header_def hdr_of_bytes_wf)

lemma length_image_signature [simp]: "length (fh_signature (image_header m a)) = 64"
  using image_header_wf [of m a] by (simp add: hdr_wf_def)

lemma is_canonical_low_s_iff:
  assumes "length sig = 64"
  shows "is_canonical_low_s sig \<longleftrightarrow> low_s sig"
  using assms
  by (auto simp: is_canonical_low_s_def Let_def low_s_def or_all_eq_0_iff half_order_borrow_eq
      split: if_splits)

lemma crypto_validate_public_key_iff:
  assumes "length (public_key_sha256 C) = 32"
  shows "crypto_validate_public_key C \<longleftrightarrow> pubkey_ok C"
  using assms
  by (auto simp: crypto_validate_public_key_def pubkey_ok_def sha256_def sha256_stream_final
      constant_time_equal_iff length_fips_sha256)

text \<open>The three header pieces the digest absorbs are the header with its signature zeroed.\<close>

lemma signed_header_bytes:
  assumes "hdr_wf h"
  shows "take 20 (hdr_bytes h) @ replicate 64 0 @ take 428 (drop 84 (hdr_bytes h))
    = hdr_bytes (h\<lparr>fh_signature := replicate 64 0\<rparr>)"
  using assms by (simp add: hdr_bytes_def hdr_wf_def)

lemma hash_signed_region_eq:
  assumes dev: "flash_device F byte writable" and wf: "hdr_wf h"
  shows "hash_signed_region F s a h
    = Some (fips_sha256 (hdr_bytes (h\<lparr>fh_signature := replicate 64 0\<rparr>)
        @ mem_bytes (byte s) (a + 512) (unat (fh_image_size h))))"
proof -
  have "hash_signed_region F s a h = Some (sha256_final
      (sha256_update (sha256_init stack_ctx)
        (take 20 (hdr_bytes h) @ replicate 64 0 @ take 428 (drop 84 (hdr_bytes h))
          @ mem_bytes (byte s) (a + 512) (unat (fh_image_size h)))))"
    by (simp add: hash_signed_region_def Let_def payload_sha [OF dev] layout_simps
        sha256_update_append)
  also have "\<dots> = Some (fips_sha256 ((take 20 (hdr_bytes h) @ replicate 64 0
      @ take 428 (drop 84 (hdr_bytes h))) @ mem_bytes (byte s) (a + 512) (unat (fh_image_size h))))"
    by (simp add: sha256_stream_final)
  finally show ?thesis unfolding signed_header_bytes [OF wf] .
qed

text \<open>The verifier decides the abstract predicate, on every backend of the driver.\<close>

lemma crypto_verify_firmware_eq:
  assumes dev: "flash_device F byte writable" and pk: "length (public_key_sha256 C) = 32"
  shows "crypto_verify_firmware C F s a \<longleftrightarrow> image_ok C (byte s) a"
proof -
  have rd: "fl_read F s a FIRMWARE_HEADER_SIZE = (FLASH_OK, mem_bytes (byte s) a 512)"
    by (simp add: flash_device.read [OF dev] layout_simps)
  have pl: "stream_payload crc32_update F s (a + FIRMWARE_HEADER_SIZE)
      (fh_image_size (image_header (byte s) a)) CRC32_INIT
      = Some (crc32_update CRC32_INIT (image_payload (byte s) a))"
    by (simp add: payload_crc [OF dev] image_payload_def layout_simps)
  have sh: "hash_signed_region F s a (image_header (byte s) a)
      = Some (fips_sha256 (signed_message (byte s) a))"
    by (simp add: hash_signed_region_eq [OF dev image_header_wf] signed_message_def image_payload_def)
  show ?thesis
    unfolding crypto_verify_firmware_def rd prod.case Let_def image_header_def [symmetric] pl sh
      option.case crypto_validate_public_key_iff [OF pk] image_ok_def
    by (auto simp: is_canonical_low_s_iff word_gt_0 crc32_def not_less)
qed

section \<open>What acceptance depends on\<close>

lemma hdr_of_bytes_size: "fh_image_size (hdr_of_bytes bs) = rd_u32_le (drop 8 bs)"
  by (simp add: hdr_of_bytes_def)

text \<open>Only the bytes of the slot matter.\<close>

lemma image_header_cong: "mem_eq_on a 512 m m' \<Longrightarrow> image_header m a = image_header m' a"
  unfolding image_header_def by (rule arg_cong [OF mem_bytes_cong]) simp_all

lemma mem_eq_on_sub:
  assumes "mem_eq_on a n m m'" "k + j \<le> n" "n \<le> 2 ^ 32"
  shows "mem_eq_on (a + of_nat k) j m m'"
  using assms in_range_sub(2) [of a k j _ n] by (auto simp: mem_eq_on_def)

lemma image_payload_cong:
  assumes eq: "mem_eq_on a 471040 m m'"
    and le: "fh_image_size (image_header m a) \<le> FIRMWARE_MAX_PAYLOAD_SIZE"
  shows "image_payload m a = image_payload m' a"
proof -
  have h: "image_header m a = image_header m' a"
    using mem_eq_on_sub [OF eq, of 0 512] by (intro image_header_cong) simp
  have "mem_eq_on (a + of_nat 512) (unat (fh_image_size (image_header m a))) m m'"
    by (rule mem_eq_on_sub [OF eq]) (use le in \<open>simp_all add: word_le_nat_alt layout_simps\<close>)
  then show ?thesis
    unfolding image_payload_def h
    by (intro mem_bytes_cong) (use le in \<open>simp_all add: h word_le_nat_alt layout_simps\<close>)
qed

lemma image_ok_cong:
  assumes eq: "mem_eq_on a 471040 m m'"
  shows "image_ok C m a \<longleftrightarrow> image_ok C m' a"
proof -
  have h: "image_header m a = image_header m' a"
    using mem_eq_on_sub [OF eq, of 0 512] by (intro image_header_cong) simp
  show ?thesis
  proof (cases "fh_image_size (image_header m a) \<le> FIRMWARE_MAX_PAYLOAD_SIZE")
    case True
    then show ?thesis
      using image_payload_cong [OF eq True] by (simp add: image_ok_def signed_message_def h)
  next
    case False
    then show ?thesis by (simp add: image_ok_def h)
  qed
qed

text \<open>An erased header is never accepted.\<close>

lemma image_ok_erased:
  assumes "\<And>x. in_range a 4 x \<Longrightarrow> m x = 0xFF"
  shows "\<not> image_ok C m a"
proof -
  have "m (a + of_nat i) = 0xFF" if "i < 4" for i
    by (rule assms) (simp add: in_range_offset that)
  from this [of 0] this [of 1] this [of 2] this [of 3]
  have "fh_magic (image_header m a) = 0xFFFFFFFF"
    by (simp add: image_header_def hdr_of_bytes_def rd_u32_le_def)
  then show ?thesis by (simp add: image_ok_def layout_simps)
qed

text \<open>
  A changed run of at most four payload bytes is caught by the CRC alone, whatever the
  signature routine says.
\<close>

lemma image_ok_burst:
  assumes ok: "image_ok C m a"
    and hdr: "image_header m' a = image_header m a"
    and p: "image_payload m a = pre @ d @ post" "image_payload m' a = pre @ e @ post"
    and len: "length d = length e" "length d \<le> 4" "d \<noteq> e"
  shows "\<not> image_ok C m' a"
proof
  assume "image_ok C m' a"
  then have "crc32 (image_payload m a) = crc32 (image_payload m' a)"
    using ok hdr by (simp add: image_ok_def)
  then show False
    using len by (simp add: p crc32_def crc32_finalize_inj crc32_update_append [of _ pre]
        crc32_update_burst)
qed

end
