(* ===== verification/Boot_Config.thy ===== *)
theory Boot_Config
  imports Crypto
begin

unbundle bit_operations_syntax

text \<open>
  \<^verbatim>\<open>bootloader/include/config.h\<close> and \<^verbatim>\<open>bootloader/src/boot_config.c\<close>: the persistent boot
  configuration, its 24-byte layout, its validation, the reconstruction from the slot headers,
  the anti-downgrade floor, and the three-step save.  The lemmas give the save/load round
  trip, the torn-write behaviour of the save order, the exact effect of recording an update
  on the floor, and what the save's sector erase does to the rest of the sector.
\<close>

section \<open>The record\<close>

record BootConfig_t =
  cfg_slot_a_version :: u32
  cfg_slot_b_version :: u32
  cfg_active_slot :: u8
  cfg_boot_attempts :: u8
  cfg_rollback_counter :: u8
  cfg_reserved :: u8
  cfg_last_good_boot :: u32
  cfg_magic :: u32
  cfg_crc32 :: u32

definition CFG_CRC_OFFSET :: u32 where "CFG_CRC_OFFSET = 20"

definition cfg_bytes :: "BootConfig_t \<Rightarrow> u8 list" where
  "cfg_bytes c = le32 (cfg_slot_a_version c) @ le32 (cfg_slot_b_version c)
     @ [cfg_active_slot c, cfg_boot_attempts c, cfg_rollback_counter c, cfg_reserved c]
     @ le32 (cfg_last_good_boot c) @ le32 (cfg_magic c) @ le32 (cfg_crc32 c)"

definition cfg_of_bytes :: "u8 list \<Rightarrow> BootConfig_t" where
  "cfg_of_bytes bs =
     \<lparr> cfg_slot_a_version = rd_u32_le bs,
       cfg_slot_b_version = rd_u32_le (drop 4 bs),
       cfg_active_slot = bs ! 8,
       cfg_boot_attempts = bs ! 9,
       cfg_rollback_counter = bs ! 10,
       cfg_reserved = bs ! 11,
       cfg_last_good_boot = rd_u32_le (drop 12 bs),
       cfg_magic = rd_u32_le (drop 16 bs),
       cfg_crc32 = rd_u32_le (drop 20 bs) \<rparr>"

section \<open>The code\<close>

text \<open>\<open>crc32(cfg, CFG_CRC_OFFSET)\<close>: the checksum of the first twenty bytes of the struct.\<close>

definition cfg_body_crc :: "BootConfig_t \<Rightarrow> u32" where
  "cfg_body_crc c = crc32 (take (unat CFG_CRC_OFFSET) (cfg_bytes c))"

definition boot_config_stamp_crc :: "BootConfig_t \<Rightarrow> BootConfig_t" where
  "boot_config_stamp_crc c = c\<lparr>cfg_crc32 := cfg_body_crc c\<rparr>"

definition boot_config_validate :: "BootConfig_t \<Rightarrow> bool" where
  "boot_config_validate c =
     (if cfg_magic c \<noteq> BOOT_CONFIG_MAGIC then False else cfg_body_crc c = cfg_crc32 c)"

definition boot_config_default :: BootConfig_t where
  "boot_config_default = boot_config_stamp_crc
     \<lparr> cfg_slot_a_version = 0, cfg_slot_b_version = 0, cfg_active_slot = SLOT_A,
       cfg_boot_attempts = 0, cfg_rollback_counter = 0, cfg_reserved = 0,
       cfg_last_good_boot = 0, cfg_magic = BOOT_CONFIG_MAGIC, cfg_crc32 = 0 \<rparr>"

text \<open>One of the two probes of \<open>boot_config_recover_from_slots\<close>: the version of a valid slot.\<close>

definition recover_probe :: "crypto_env \<Rightarrow> 's flash_ops \<Rightarrow> 's \<Rightarrow> u32 \<Rightarrow> u32 option" where
  "recover_probe C F s addr =
     (case fl_read F s addr FIRMWARE_HEADER_SIZE of (st, hb) \<Rightarrow>
        if st = FLASH_OK then
          let hdr = hdr_of_bytes hb in
          if fh_magic hdr = FIRMWARE_MAGIC \<and> fh_image_size hdr > 0
             \<and> fh_image_size hdr \<le> FIRMWARE_MAX_PAYLOAD_SIZE then
            if crypto_verify_firmware C F s addr then Some (fh_version hdr) else None
          else None
        else None)"

definition rollback_of :: "u32 \<Rightarrow> u8" where
  "rollback_of v = (let major = ucast (drop_bit 16 v AND 0xFF) in if major \<noteq> 0 then major else 1)"

definition boot_config_recover_from_slots ::
  "crypto_env \<Rightarrow> 's flash_ops \<Rightarrow> 's \<Rightarrow> BootConfig_t \<Rightarrow> BootConfig_t" where
  "boot_config_recover_from_slots C F s cfg =
     (let a = recover_probe C F s SLOT_A_ADDR;
          b = recover_probe C F s SLOT_B_ADDR;
          cfg = (case a of Some v \<Rightarrow> cfg\<lparr>cfg_slot_a_version := v\<rparr> | None \<Rightarrow> cfg);
          cfg = (case b of Some v \<Rightarrow> cfg\<lparr>cfg_slot_b_version := v\<rparr> | None \<Rightarrow> cfg);
          (floor, cfg) =
            (if a \<noteq> None \<and> cfg_slot_a_version cfg > 0
             then (cfg_slot_a_version cfg, cfg\<lparr>cfg_active_slot := SLOT_A\<rparr>) else (0, cfg));
          (floor, cfg) =
            (if b \<noteq> None \<and> cfg_slot_b_version cfg > floor
             then (cfg_slot_b_version cfg, cfg\<lparr>cfg_active_slot := SLOT_B\<rparr>) else (floor, cfg));
          cfg = (if floor > 0 then cfg\<lparr>cfg_rollback_counter := rollback_of floor\<rparr> else cfg)
      in boot_config_stamp_crc cfg)"

definition boot_config_load :: "crypto_env \<Rightarrow> 's flash_ops \<Rightarrow> 's \<Rightarrow> bool \<times> BootConfig_t" where
  "boot_config_load C F s =
     (let out = cfg_of_bytes (snd (fl_read F s BOOT_CONFIG_ADDR 24))
      in if boot_config_validate out then (True, out)
         else (False, boot_config_recover_from_slots C F s boot_config_default))"

definition boot_config_antidowngrade_floor :: "BootConfig_t \<Rightarrow> u32" where
  "boot_config_antidowngrade_floor cfg =
     (let floor = push_bit 16 (ucast (cfg_rollback_counter cfg));
          floor = (if cfg_slot_a_version cfg > floor then cfg_slot_a_version cfg else floor);
          floor = (if cfg_slot_b_version cfg > floor then cfg_slot_b_version cfg else floor)
      in floor)"

definition boot_config_firmware_allowed :: "BootConfig_t \<Rightarrow> u32 \<Rightarrow> bool" where
  "boot_config_firmware_allowed cfg v \<longleftrightarrow> v \<ge> boot_config_antidowngrade_floor cfg"

definition boot_config_record_ota_to_slot :: "BootConfig_t \<Rightarrow> u8 \<Rightarrow> u32 \<Rightarrow> BootConfig_t" where
  "boot_config_record_ota_to_slot cfg slot v =
     (let floor = boot_config_antidowngrade_floor cfg;
          cfg = (if slot = SLOT_A then cfg\<lparr>cfg_slot_a_version := v\<rparr>
                 else cfg\<lparr>cfg_slot_b_version := v\<rparr>)
      in if v > floor then cfg\<lparr>cfg_rollback_counter := rollback_of v\<rparr> else cfg)"

definition boot_config_save :: "'s flash_ops \<Rightarrow> 's \<Rightarrow> BootConfig_t \<Rightarrow> bool \<times> 's" where
  "boot_config_save F s cfg =
     (let buf = boot_config_stamp_crc cfg
      in case fl_erase_range F s BOOT_CONFIG_ADDR 24 of (st, s) \<Rightarrow>
         if st \<noteq> FLASH_OK then (False, s) else
         case fl_program_bytes F s BOOT_CONFIG_ADDR (take (unat CFG_CRC_OFFSET) (cfg_bytes buf)) of
           (st, s) \<Rightarrow>
         if st \<noteq> FLASH_OK then (False, s) else
         case fl_program_word F s (BOOT_CONFIG_ADDR + CFG_CRC_OFFSET) (cfg_crc32 buf) of (st, s) \<Rightarrow>
         if st \<noteq> FLASH_OK then (False, s) else
         let readback = snd (fl_read F s BOOT_CONFIG_ADDR 24)
         in if readback \<noteq> cfg_bytes buf then (False, s) else (True, s))"

section \<open>Layout\<close>

lemma length_cfg_bytes [simp]: "length (cfg_bytes c) = 24"
  by (simp add: cfg_bytes_def)

lemma cfg_of_cfg_bytes [codec_simps]: "cfg_of_bytes (cfg_bytes c @ r) = c"
  by (cases c) (simp add: cfg_of_bytes_def cfg_bytes_def codec_simps nth_append)

lemma cfg_of_cfg_bytes0 [codec_simps]: "cfg_of_bytes (cfg_bytes c) = c"
  using cfg_of_cfg_bytes [of c "[]"] by simp

lemma length_4E:
  assumes "length (xs :: u8 list) = 4"
  obtains a b c d where "xs = [a, b, c, d]"
  using assms by (auto simp: numeral_eq_Suc length_Suc_conv)

lemma length_24E:
  assumes "length (bs :: u8 list) = 24"
  obtains b8 b9 b10 b11 p q where "bs = p @ [b8, b9, b10, b11] @ q" "length p = 8" "length q = 12"
proof -
  have "length (take 4 (drop 8 bs)) = 4" using assms by simp
  then obtain b8 b9 b10 b11 where "take 4 (drop 8 bs) = [b8, b9, b10, b11]"
    by (rule length_4E)
  moreover have "bs = take 8 bs @ take 4 (drop 8 bs) @ drop 12 bs"
    using append_take_drop_id [of 8 bs] append_take_drop_id [of 4 "drop 8 bs"] by simp
  ultimately show thesis using that [of "take 8 bs" b8 b9 b10 b11 "drop 12 bs"] assms by simp
qed

lemma cfg_bytes_of_bytes:
  assumes "length bs = 24"
  shows "cfg_bytes (cfg_of_bytes bs) = bs"
proof -
  from assms obtain b8 b9 b10 b11 p q
    where bs: "bs = p @ [b8, b9, b10, b11] @ q" "length p = 8" "length q = 12"
    by (rule length_24E)
  have p: "p = take 4 p @ drop 4 p" by simp
  have q: "q = take 4 q @ take 4 (drop 4 q) @ drop 8 q"
    using append_take_drop_id [of 4 q] append_take_drop_id [of 4 "drop 4 q"] by simp
  have "cfg_bytes (cfg_of_bytes bs)
      = take 4 p @ drop 4 p @ [b8, b9, b10, b11] @ take 4 q @ take 4 (drop 4 q) @ drop 8 q"
    using bs by (simp add: cfg_bytes_def cfg_of_bytes_def codec_simps nth_append)
  then show ?thesis using bs p q by (metis append_assoc)
qed

section \<open>Validation and loading\<close>

lemma cfg_body_indep [simp]: "take 20 (cfg_bytes (c\<lparr>cfg_crc32 := x\<rparr>)) = take 20 (cfg_bytes c)"
  by (simp add: cfg_bytes_def)

lemma cfg_body_crc_indep [simp]: "cfg_body_crc (c\<lparr>cfg_crc32 := x\<rparr>) = cfg_body_crc c"
  by (simp add: cfg_body_crc_def CFG_CRC_OFFSET_def)

lemma stamp_simps [simp]:
  "cfg_slot_a_version (boot_config_stamp_crc c) = cfg_slot_a_version c"
  "cfg_slot_b_version (boot_config_stamp_crc c) = cfg_slot_b_version c"
  "cfg_active_slot (boot_config_stamp_crc c) = cfg_active_slot c"
  "cfg_boot_attempts (boot_config_stamp_crc c) = cfg_boot_attempts c"
  "cfg_rollback_counter (boot_config_stamp_crc c) = cfg_rollback_counter c"
  "cfg_magic (boot_config_stamp_crc c) = cfg_magic c"
  "cfg_last_good_boot (boot_config_stamp_crc c) = cfg_last_good_boot c"
  "cfg_crc32 (boot_config_stamp_crc c) = cfg_body_crc c"
  "cfg_body_crc (boot_config_stamp_crc c) = cfg_body_crc c"
  by (simp_all add: boot_config_stamp_crc_def)

lemma stamp_idem [simp]: "boot_config_stamp_crc (boot_config_stamp_crc c) = boot_config_stamp_crc c"
  by (simp add: boot_config_stamp_crc_def)

lemma validate_stamp [simp]: "boot_config_validate (boot_config_stamp_crc c) \<longleftrightarrow> cfg_magic c = BOOT_CONFIG_MAGIC"
  by (simp add: boot_config_validate_def)

lemma validate_iff:
  "boot_config_validate c \<longleftrightarrow> cfg_magic c = BOOT_CONFIG_MAGIC \<and> boot_config_stamp_crc c = c"
  by (cases c) (auto simp: boot_config_validate_def boot_config_stamp_crc_def)

lemma default_simps [simp]:
  "cfg_magic boot_config_default = BOOT_CONFIG_MAGIC"
  "cfg_active_slot boot_config_default = SLOT_A"
  "cfg_slot_a_version boot_config_default = 0" "cfg_slot_b_version boot_config_default = 0"
  "cfg_rollback_counter boot_config_default = 0" "cfg_boot_attempts boot_config_default = 0"
  by (simp_all add: boot_config_default_def)

text \<open>What recovery reads from the slots, as a function of memory.\<close>

definition slot_version :: "crypto_env \<Rightarrow> mem \<Rightarrow> u32 \<Rightarrow> u32 option" where
  "slot_version C m a = (if image_ok C m a then Some (fh_version (image_header m a)) else None)"

definition ver0 :: "u32 option \<Rightarrow> u32" where
  "ver0 v = (case v of None \<Rightarrow> 0 | Some x \<Rightarrow> x)"

text \<open>
  The configuration recovered from two slot versions: the highest version decides the active
  slot (slot A on a tie, or when nothing is installed) and the rollback counter.
\<close>

definition recovered_cfg :: "u32 option \<Rightarrow> u32 option \<Rightarrow> BootConfig_t" where
  "recovered_cfg a b = boot_config_stamp_crc (boot_config_default
     \<lparr> cfg_slot_a_version := ver0 a, cfg_slot_b_version := ver0 b,
       cfg_active_slot := (if ver0 a < ver0 b then SLOT_B else SLOT_A),
       cfg_rollback_counter :=
         (if max (ver0 a) (ver0 b) = 0 then 0 else rollback_of (max (ver0 a) (ver0 b))) \<rparr>)"

definition stored_cfg :: "mem \<Rightarrow> BootConfig_t" where
  "stored_cfg m = cfg_of_bytes (mem_bytes m BOOT_CONFIG_ADDR 24)"

definition loaded_cfg :: "crypto_env \<Rightarrow> mem \<Rightarrow> BootConfig_t" where
  "loaded_cfg C m = (if boot_config_validate (stored_cfg m) then stored_cfg m
     else recovered_cfg (slot_version C m SLOT_A_ADDR) (slot_version C m SLOT_B_ADDR))"

lemma stamp_update [simp]:
  "boot_config_stamp_crc (c\<lparr>cfg_crc32 := x\<rparr>) = boot_config_stamp_crc c"
  by (simp add: boot_config_stamp_crc_def)

lemma recover_shape:
  assumes "cfg = boot_config_default"
  shows "(let cfg = (case a of Some v \<Rightarrow> cfg\<lparr>cfg_slot_a_version := v\<rparr> | None \<Rightarrow> cfg);
          cfg = (case b of Some v \<Rightarrow> cfg\<lparr>cfg_slot_b_version := v\<rparr> | None \<Rightarrow> cfg);
          (floor, cfg) =
            (if a \<noteq> None \<and> cfg_slot_a_version cfg > 0
             then (cfg_slot_a_version cfg, cfg\<lparr>cfg_active_slot := SLOT_A\<rparr>) else (0, cfg));
          (floor, cfg) =
            (if b \<noteq> None \<and> cfg_slot_b_version cfg > floor
             then (cfg_slot_b_version cfg, cfg\<lparr>cfg_active_slot := SLOT_B\<rparr>) else (floor, cfg));
          cfg = (if floor > 0 then cfg\<lparr>cfg_rollback_counter := rollback_of floor\<rparr> else cfg)
      in boot_config_stamp_crc cfg) = recovered_cfg a b"
proof (cases a; cases b)
qed (use assms in \<open>auto simp: Let_def recovered_cfg_def ver0_def max_def word_gt_0 not_less
  boot_config_default_def boot_config_stamp_crc_def cfg_body_crc_def CFG_CRC_OFFSET_def
  cfg_bytes_def not_le split: if_splits\<close>)

lemma recover_probe_eq:
  assumes dev: "flash_device F byte writable" and pk: "length (public_key_sha256 C) = 32"
  shows "recover_probe C F s a = slot_version C (byte s) a"
proof -
  have "fl_read F s a FIRMWARE_HEADER_SIZE = (FLASH_OK, mem_bytes (byte s) a 512)"
    by (simp add: flash_device.read [OF dev] layout_simps)
  then show ?thesis
    by (auto simp: recover_probe_def slot_version_def crypto_verify_firmware_eq [OF dev pk]
        image_header_def [symmetric] Let_def image_ok_def)
qed

lemma boot_config_recover_eq:
  assumes dev: "flash_device F byte writable" and pk: "length (public_key_sha256 C) = 32"
  shows "boot_config_recover_from_slots C F s boot_config_default
    = recovered_cfg (slot_version C (byte s) SLOT_A_ADDR) (slot_version C (byte s) SLOT_B_ADDR)"
  unfolding boot_config_recover_from_slots_def recover_probe_eq [OF dev pk]
  using recover_shape [OF refl] by (simp only: Let_def)

lemma boot_config_load_eq:
  assumes dev: "flash_device F byte writable" and pk: "length (public_key_sha256 C) = 32"
  shows "boot_config_load C F s
    = (boot_config_validate (stored_cfg (byte s)), loaded_cfg C (byte s))"
  by (simp add: boot_config_load_def Let_def flash_device.read [OF dev] stored_cfg_def
      loaded_cfg_def boot_config_recover_eq [OF dev pk])

lemma loaded_cfg_validates: "boot_config_validate (loaded_cfg C m)"
  by (simp add: loaded_cfg_def recovered_cfg_def)

lemma recovered_active: "cfg_active_slot (recovered_cfg a b) \<in> {SLOT_A, SLOT_B}"
  by (simp add: recovered_cfg_def)

section \<open>The anti-downgrade floor\<close>

lemma unat_rollback_floor: "unat (push_bit 16 (ucast (r :: u8)) :: u32) = unat r * 65536"
proof -
  have "unat r * 65536 < 2 ^ 32" using unat_u8_le [of r] by simp
  then show ?thesis
    by (simp add: push_bit_eq_mult unat_word_ariths unsigned_ucast_eq take_bit_nat_eq_self)
qed

lemma floor_eq:
  "boot_config_antidowngrade_floor c
     = max (push_bit 16 (ucast (cfg_rollback_counter c))) (max (cfg_slot_a_version c) (cfg_slot_b_version c))"
  by (auto simp: boot_config_antidowngrade_floor_def Let_def max_def not_less)

lemma floor_stamp [simp]:
  "boot_config_antidowngrade_floor (boot_config_stamp_crc c) = boot_config_antidowngrade_floor c"
  by (simp add: floor_eq)

lemma floor_cong:
  "cfg_slot_a_version c = cfg_slot_a_version d \<Longrightarrow> cfg_slot_b_version c = cfg_slot_b_version d
     \<Longrightarrow> cfg_rollback_counter c = cfg_rollback_counter d
     \<Longrightarrow> boot_config_antidowngrade_floor c = boot_config_antidowngrade_floor d"
  by (simp add: floor_eq)

lemma floor_updates:
  "boot_config_antidowngrade_floor (c\<lparr>cfg_slot_a_version := v\<rparr>)
     = max (push_bit 16 (ucast (cfg_rollback_counter c))) (max v (cfg_slot_b_version c))"
  "boot_config_antidowngrade_floor (c\<lparr>cfg_slot_b_version := v\<rparr>)
     = max (push_bit 16 (ucast (cfg_rollback_counter c))) (max (cfg_slot_a_version c) v)"
  "boot_config_antidowngrade_floor (c\<lparr>cfg_slot_a_version := v, cfg_rollback_counter := r\<rparr>)
     = max (push_bit 16 (ucast r)) (max v (cfg_slot_b_version c))"
  "boot_config_antidowngrade_floor (c\<lparr>cfg_slot_b_version := v, cfg_rollback_counter := r\<rparr>)
     = max (push_bit 16 (ucast r)) (max (cfg_slot_a_version c) v)"
  by (simp_all add: floor_eq)

text \<open>The counter a version yields never exceeds it, except below \<open>0x10000\<close>.\<close>

lemma unat_major: "unat (ucast (drop_bit 16 (v :: u32) AND 0xFF) :: u8) = unat v div 65536 mod 256"
proof -
  have "drop_bit 16 v AND 0xFF = take_bit 8 (drop_bit 16 v)"
    by (simp add: take_bit_eq_mask mask_eq_exp_minus_1)
  then have "unat (drop_bit 16 v AND 0xFF) = unat v div 65536 mod 256"
    using unsigned_less [of v, where 'a = nat]
    by (simp only: unsigned_take_bit_eq unsigned_drop_bit_eq)
      (simp add: take_bit_eq_mod drop_bit_eq_div)
  then show ?thesis by (simp add: unsigned_ucast_eq take_bit_eq_mod)
qed

lemma unat_rollback_of:
  "unat (rollback_of v) = (if unat v div 65536 mod 256 = 0 then 1 else unat v div 65536 mod 256)"
  unfolding rollback_of_def Let_def
  by (simp add: unat_major [symmetric] unat_eq_0 del: unat_eq_nat_uint)

lemma rollback_floor_le:
  assumes "0x10000 \<le> v"
  shows "push_bit 16 (ucast (rollback_of v)) \<le> v"
proof -
  have v: "65536 \<le> unat v" using assms by (simp add: word_le_nat_alt)
  have "unat (rollback_of v) * 65536 \<le> unat v"
  proof (cases "unat v div 65536 mod 256 = 0")
    case True
    then show ?thesis using v by (simp add: unat_rollback_of)
  next
    case False
    have "unat v div 65536 mod 256 * 65536 \<le> unat v div 65536 * 65536"
      by (intro mult_right_mono) auto
    also have "\<dots> \<le> unat v" by simp
    finally show ?thesis using False by (simp add: unat_rollback_of)
  qed
  then show ?thesis by (simp add: word_le_nat_alt unat_rollback_floor)
qed

lemma rollback_floor_small:
  assumes "v < 0x10000"
  shows "push_bit 16 (ucast (rollback_of v)) = (0x10000 :: u32)"
proof -
  have "unat v < 65536" using assms by (simp add: word_less_nat_alt)
  then have "unat (rollback_of v) = 1" by (simp add: unat_rollback_of)
  then show ?thesis by (simp add: word_unat_eq_iff unat_rollback_floor)
qed

text \<open>Recording an allowed version sets the floor to it, or to \<open>0x10000\<close> for a small one.\<close>

lemma record_floor:
  assumes ok: "boot_config_firmware_allowed cfg v" and slot: "slot \<in> {SLOT_A, SLOT_B}"
  shows "boot_config_antidowngrade_floor (boot_config_record_ota_to_slot cfg slot v)
    = (if boot_config_antidowngrade_floor cfg < v \<and> v < 0x10000 then 0x10000 else v)"
proof -
  let ?fl = "boot_config_antidowngrade_floor cfg"
  have le: "cfg_slot_a_version cfg \<le> ?fl" "cfg_slot_b_version cfg \<le> ?fl"
    "push_bit 16 (ucast (cfg_rollback_counter cfg)) \<le> ?fl"
    by (simp_all add: floor_eq max.coboundedI1 max.coboundedI2)
  have v: "?fl \<le> v" using ok by (simp add: boot_config_firmware_allowed_def)
  show ?thesis
  proof (cases "?fl < v")
    case False
    then have "v = ?fl" using v by simp
    then show ?thesis
      using slot le by (auto simp: boot_config_record_ota_to_slot_def floor_updates max_def)
  next
    case True
    have "push_bit 16 (ucast (rollback_of v)) = (if v < 0x10000 then 0x10000 else (push_bit 16 (ucast (rollback_of v)) :: u32))"
      using rollback_floor_small by simp
    then show ?thesis
      using slot le True rollback_floor_le [of v]
      by (auto simp: boot_config_record_ota_to_slot_def floor_updates max_def not_less)
  qed
qed

lemma record_floor_mono:
  assumes "boot_config_firmware_allowed cfg v" "slot \<in> {SLOT_A, SLOT_B}"
  shows "boot_config_antidowngrade_floor cfg
      \<le> boot_config_antidowngrade_floor (boot_config_record_ota_to_slot cfg slot v)"
  using assms unfolding record_floor [OF assms]
  by (auto simp: boot_config_firmware_allowed_def)

text \<open>After recovery the floor is at least the version of every valid image.\<close>

lemma recovered_floor:
  "boot_config_antidowngrade_floor (recovered_cfg a b)
     = (let v = max (ver0 a) (ver0 b) in if 0 < v \<and> v < 0x10000 then 0x10000 else v)"
proof -
  define v where "v = max (ver0 a) (ver0 b)"
  have fl: "boot_config_antidowngrade_floor (recovered_cfg a b)
      = max (push_bit 16 (ucast (if v = 0 then 0 else rollback_of v))) v"
    unfolding v_def by (simp add: recovered_cfg_def floor_eq)
  consider "v = 0" | "0 < v" "v < 0x10000" | "0x10000 \<le> v"
    using word_gt_0 [of v] not_le [of "0x10000" v] by auto
  then have "boot_config_antidowngrade_floor (recovered_cfg a b)
      = (if 0 < v \<and> v < 0x10000 then 0x10000 else v)"
  proof cases
    case 1
    then show ?thesis by (simp add: fl)
  next
    case 2
    then show ?thesis
      unfolding fl using rollback_floor_small [OF 2(2)] 2 by (auto simp: max_def)
  next
    case 3
    then have "v \<noteq> 0" by (auto simp: word_le_nat_alt)
    moreover have "\<not> v < 0x10000" using 3 by (simp only: not_less)
    ultimately show ?thesis
      unfolding fl using rollback_floor_le [OF 3] by (simp add: max_absorb2)
  qed
  then show ?thesis by (simp add: v_def Let_def)
qed

section \<open>Saving\<close>

lemma config_sector: "erase_covers BOOT_CONFIG_ADDR 24 x \<longleftrightarrow> 0x08010000 \<le> unat x \<and> unat x < 0x08020000"
  by (rule erase_covers_sector4) (simp_all add: layout_simps)

lemma cfg_bytes_split: "take 20 (cfg_bytes c) @ le32 (cfg_crc32 c) = cfg_bytes c"
  by (simp add: cfg_bytes_def)

lemma config_crc_addr: "BOOT_CONFIG_ADDR + CFG_CRC_OFFSET = BOOT_CONFIG_ADDR + of_nat 20"
  by (simp add: layout_simps CFG_CRC_OFFSET_def)

text \<open>The body and then the CRC word amount to one write of the whole record.\<close>

lemma cfg_write_split:
  "mem_write (mem_write m BOOT_CONFIG_ADDR (take 20 (cfg_bytes c))) (BOOT_CONFIG_ADDR + CFG_CRC_OFFSET)
      (le32 (cfg_crc32 c)) = mem_write m BOOT_CONFIG_ADDR (cfg_bytes c)"
  using mem_write_append [of "take 20 (cfg_bytes c)" "le32 (cfg_crc32 c)" m BOOT_CONFIG_ADDR]
  by (simp add: cfg_bytes_split config_crc_addr)

definition torn_record :: "BootConfig_t \<Rightarrow> nat \<Rightarrow> u8 list" where
  "torn_record c k = take k (cfg_bytes (boot_config_stamp_crc c)) @ replicate (24 - k) 0xFF"

text \<open>The save interrupted after \<open>k\<close> bytes of its second step.\<close>

definition save_interrupted :: "'s flash_ops \<Rightarrow> 's \<Rightarrow> BootConfig_t \<Rightarrow> nat \<Rightarrow> 's" where
  "save_interrupted F s cfg k = snd (fl_program_bytes F (snd (fl_erase_range F s BOOT_CONFIG_ADDR 24))
     BOOT_CONFIG_ADDR (take k (take 20 (cfg_bytes (boot_config_stamp_crc cfg)))))"

lemma config_range [simp]:
  "n \<le> 4096 \<Longrightarrow> flash_range BOOT_CONFIG_ADDR n" "flash_range (BOOT_CONFIG_ADDR + CFG_CRC_OFFSET) 4"
  by (simp_all add: flash_range_def layout_simps CFG_CRC_OFFSET_def)

context flash_device
begin

lemma save_ok:
  assumes "boot_config_save F s c = (True, s')"
  shows "mem_bytes (byte s') BOOT_CONFIG_ADDR 24 = cfg_bytes (boot_config_stamp_crc c)"
  using assms by (auto simp: boot_config_save_def Let_def read split: prod.splits if_splits)

lemma save_ok_byte:
  assumes "boot_config_save F s c = (True, s')"
  obtains s1 where "fl_erase_range F s BOOT_CONFIG_ADDR 24 = (FLASH_OK, s1)"
    "byte s' = mem_write (byte s1) BOOT_CONFIG_ADDR (cfg_bytes (boot_config_stamp_crc c))"
proof -
  from assms obtain s1 s2 where s1: "fl_erase_range F s BOOT_CONFIG_ADDR 24 = (FLASH_OK, s1)"
    and s2: "fl_program_bytes F s1 BOOT_CONFIG_ADDR (take 20 (cfg_bytes (boot_config_stamp_crc c)))
        = (FLASH_OK, s2)"
    and s3: "fl_program_word F s2 (BOOT_CONFIG_ADDR + CFG_CRC_OFFSET)
        (cfg_crc32 (boot_config_stamp_crc c)) = (FLASH_OK, s')"
    by (auto simp: boot_config_save_def Let_def CFG_CRC_OFFSET_def split: prod.splits if_splits)
  have "byte s' = mem_write (byte s1) BOOT_CONFIG_ADDR (cfg_bytes (boot_config_stamp_crc c))"
    unfolding cfg_write_split [symmetric] using word_ok [OF s3] program_ok [OF s2] by simp
  with s1 that show thesis by blast
qed

lemma save_erases:
  assumes ok: "boot_config_save F s c = (True, s')" and w: "writable x"
    and x: "0x08010018 \<le> unat x" "unat x < 0x08020000"
  shows "byte s' x = 0xFF"
proof -
  obtain s1 where s1: "fl_erase_range F s BOOT_CONFIG_ADDR 24 = (FLASH_OK, s1)"
    "byte s' = mem_write (byte s1) BOOT_CONFIG_ADDR (cfg_bytes (boot_config_stamp_crc c))"
    using ok by (rule save_ok_byte)
  have "\<not> in_range BOOT_CONFIG_ADDR 24 x" using x by (simp add: in_config_range)
  then have "byte s' x = byte s1 x" using s1 by (simp add: mem_write_other)
  also have "\<dots> = 0xFF" by (rule erase_ok [OF s1(1) _ w]) (use x in \<open>simp add: config_sector\<close>)
  finally show ?thesis .
qed

text \<open>Whatever the outcome, nothing outside the sector changes.\<close>

lemma save_frame:
  assumes save: "boot_config_save F s c = (r, s')" and x: "\<not> (0x08010000 \<le> unat x \<and> unat x < 0x08020000)"
  shows "byte s' x = byte s x"
proof -
  have out: "\<not> in_range BOOT_CONFIG_ADDR 20 x" "\<not> in_range (BOOT_CONFIG_ADDR + CFG_CRC_OFFSET) 4 x"
    using x in_config_range [of 20 x] in_range_interval [of "BOOT_CONFIG_ADDR + CFG_CRC_OFFSET" 4 x]
    by (auto simp: layout_simps CFG_CRC_OFFSET_def)
  have e: "byte s1 x = byte s x" if "fl_erase_range F s BOOT_CONFIG_ADDR 24 = (st, s1)" for st s1
    by (rule erase_frame [OF that]) (use x in \<open>auto simp: config_sector\<close>)
  have p: "byte s2 x = byte s1 x"
    if "fl_program_bytes F s1 BOOT_CONFIG_ADDR (take 20 (cfg_bytes d)) = (st, s2)" for st s1 s2 d
    using program_frame [OF that] out by simp
  have w: "byte s3 x = byte s2 x"
    if "fl_program_word F s2 (BOOT_CONFIG_ADDR + CFG_CRC_OFFSET) v = (st, s3)" for st s2 s3 v
    using word_frame [OF that] out by simp
  show ?thesis
    using save by (auto simp: boot_config_save_def Let_def CFG_CRC_OFFSET_def
        dest!: e p w [unfolded CFG_CRC_OFFSET_def] split: prod.splits if_splits)
qed

lemma save_keeps_slot_b:
  assumes "boot_config_save F s c = (r, s')"
  shows "image_ok C (byte s') SLOT_B_ADDR \<longleftrightarrow> image_ok C (byte s) SLOT_B_ADDR"
    and "image_header (byte s') SLOT_B_ADDR = image_header (byte s) SLOT_B_ADDR"
proof -
  have eq: "mem_eq_on SLOT_B_ADDR 471040 (byte s') (byte s)"
    unfolding mem_eq_on_def by (auto simp: in_slot_b_range intro!: save_frame [OF assms])
  show "image_ok C (byte s') SLOT_B_ADDR \<longleftrightarrow> image_ok C (byte s) SLOT_B_ADDR"
    by (rule image_ok_cong [OF eq])
  show "image_header (byte s') SLOT_B_ADDR = image_header (byte s) SLOT_B_ADDR"
    using mem_eq_on_sub [OF eq, of 0 512] by (intro image_header_cong) simp
qed

text \<open>A completed save leaves no valid image in slot A: its header was in the erased sector.\<close>

lemma save_destroys_slot_a:
  assumes ok: "boot_config_save F s c = (True, s')"
  shows "\<not> image_ok C (byte s') SLOT_A_ADDR"
proof (rule image_ok_erased)
  fix x assume "in_range SLOT_A_ADDR 4 x"
  then have x: "0x08011000 \<le> unat x" "unat x < 0x08011004" by (simp_all add: in_slot_a_range)
  then have "in_range SLOT_A_ADDR (unat (fl_ota_slot_span F)) x"
    using span by (simp add: in_slot_a_range)
  then show "byte s' x = 0xFF"
    using x by (intro save_erases [OF ok writable_regions]) simp_all
qed

lemma save_load:
  assumes ok: "boot_config_save F s c = (True, s')" and magic: "cfg_magic c = BOOT_CONFIG_MAGIC"
  shows "boot_config_load C F s' = (True, boot_config_stamp_crc c)"
  using save_ok [OF ok] magic by (simp add: boot_config_load_def Let_def read codec_simps)

end

text \<open>An interrupted save leaves either an invalid record or the complete one.\<close>

lemma cfg_prefix_magic:
  assumes "k < 20" "length bs = 24" "bs = take k (cfg_bytes c) @ replicate (24 - k) 0xFF"
  shows "cfg_magic (cfg_of_bytes bs) \<noteq> BOOT_CONFIG_MAGIC"
proof
  assume m: "cfg_magic (cfg_of_bytes bs) = BOOT_CONFIG_MAGIC"
  have "take 4 (drop 16 bs) = le32 (cfg_magic (cfg_of_bytes bs))"
    using assms(2) by (simp add: cfg_of_bytes_def codec_simps)
  then have "take 4 (drop 16 bs) ! 3 = le32 BOOT_CONFIG_MAGIC ! 3" by (simp only: m)
  moreover have "take 4 (drop 16 bs) ! 3 = bs ! 19" using assms(2) by simp
  moreover have "bs ! 19 = 0xFF" using assms(1) by (simp add: assms(3) nth_append)
  moreover have "le32 BOOT_CONFIG_MAGIC ! 3 = 0xB0" by (simp add: le32_def layout_simps)
  ultimately show False by simp
qed

lemma torn_length: "k \<le> 24 \<Longrightarrow> length (torn_record c k) = 24"
  by (simp add: torn_record_def)

lemma torn_invalid:
  assumes k: "k \<le> 24" and ne: "torn_record c k \<noteq> cfg_bytes (boot_config_stamp_crc c)"
  shows "\<not> boot_config_validate (cfg_of_bytes (torn_record c k))"
proof (cases "k < 20")
  case True
  then show ?thesis
    using cfg_prefix_magic [OF True torn_length [OF k], of c "boot_config_stamp_crc c"]
    by (simp add: torn_record_def boot_config_validate_def)
next
  case False
  let ?d = "cfg_of_bytes (torn_record c k)"
  have b: "cfg_bytes ?d = torn_record c k" by (simp add: cfg_bytes_of_bytes torn_length k)
  have "take 20 (torn_record c k) = take 20 (cfg_bytes (boot_config_stamp_crc c))"
    using False k by (simp add: torn_record_def min_def)
  then have body: "take 20 (cfg_bytes ?d) = take 20 (cfg_bytes (boot_config_stamp_crc c))"
    unfolding b .
  show ?thesis
  proof
    assume "boot_config_validate ?d"
    then have "cfg_crc32 ?d = cfg_body_crc (boot_config_stamp_crc c)"
      using body by (simp add: boot_config_validate_def cfg_body_crc_def CFG_CRC_OFFSET_def split: if_splits)
    then have "cfg_bytes ?d = cfg_bytes (boot_config_stamp_crc c)"
      using body by (metis cfg_bytes_split stamp_simps(8,9))
    then show False using b ne by simp
  qed
qed

lemma config_window: "in_range BOOT_CONFIG_ADDR 4096 (BOOT_CONFIG_ADDR + of_nat i)" if "i < 4096"
  by (simp add: in_range_offset that)

lemma config_in_flash:
  "FLASH_BASE_ADDR \<le> BOOT_CONFIG_ADDR" "unat BOOT_CONFIG_ADDR + unat (24 :: u32) \<le> 0x08100000"
  by (simp_all add: layout_simps)

context reliable_flash
begin

lemma config_erase:
  assumes "good s"
  obtains s1 where "fl_erase_range F s BOOT_CONFIG_ADDR 24 = (FLASH_OK, s1)"
    "erased (byte s1) BOOT_CONFIG_ADDR 24" "good s1"
proof -
  obtain s1 where s1: "fl_erase_range F s BOOT_CONFIG_ADDR 24 = (FLASH_OK, s1)"
    "byte s1 = (\<lambda>x. if erase_covers BOOT_CONFIG_ADDR 24 x \<and> writable x then 0xFF else byte s x)"
    "good s1"
    by (rule erase_effect [OF assms config_in_flash])
  have "byte s1 (BOOT_CONFIG_ADDR + of_nat i) = 0xFF" if "i < 24" for i
  proof -
    have "in_range BOOT_CONFIG_ADDR 24 (BOOT_CONFIG_ADDR + of_nat i)"
      using that by (simp add: in_range_offset)
    then show ?thesis
      using that writable_regions [of "BOOT_CONFIG_ADDR + of_nat i"] config_window [of i]
      by (simp add: s1(2) config_sector in_config_range)
  qed
  then have "erased (byte s1) BOOT_CONFIG_ADDR 24" by (simp add: erased_def)
  with s1(1,3) that show thesis by blast
qed

text \<open>A prefix of the record, of whole programming units.\<close>

lemma config_program:
  assumes "good s" "erased (byte s) BOOT_CONFIG_ADDR 24" "length d \<le> 20" "gran dvd length d"
  obtains s2 where "fl_program_bytes F s BOOT_CONFIG_ADDR d = (FLASH_OK, s2)"
    "byte s2 = mem_write (byte s) BOOT_CONFIG_ADDR d" "good s2"
proof (rule program_effect [OF assms(1)])
  show "\<forall>i<length d. writable (BOOT_CONFIG_ADDR + of_nat i)"
    using writable_regions config_window assms(3) by auto
  have "4 dvd unat BOOT_CONFIG_ADDR" by (simp add: layout_simps)
  then show "gran dvd unat BOOT_CONFIG_ADDR" by (rule dvd_trans [OF gran])
  show "flash_range BOOT_CONFIG_ADDR (length d)" using assms(3) by simp
  show "erased (byte s) BOOT_CONFIG_ADDR (length d)" using assms(2,3) by (auto intro: erased_mono)
qed (use assms(4) in \<open>auto intro: that\<close>)

text \<open>Without device faults a save always completes.\<close>

lemma save_succeeds:
  assumes g: "good s"
  shows "fst (boot_config_save F s c)"
proof -
  let ?buf = "boot_config_stamp_crc c" and ?a = "BOOT_CONFIG_ADDR + CFG_CRC_OFFSET"
  have w: "writable (BOOT_CONFIG_ADDR + of_nat i)" if "i < 4096" for i
    using writable_regions config_window that by blast
  obtain s1 where s1: "fl_erase_range F s BOOT_CONFIG_ADDR 24 = (FLASH_OK, s1)"
    "erased (byte s1) BOOT_CONFIG_ADDR 24" "good s1"
    using g by (rule config_erase)
  have "gran dvd 20" using gran by (rule dvd_trans) simp
  then obtain s2 where s2: "fl_program_bytes F s1 BOOT_CONFIG_ADDR (take 20 (cfg_bytes ?buf)) = (FLASH_OK, s2)"
    "byte s2 = mem_write (byte s1) BOOT_CONFIG_ADDR (take 20 (cfg_bytes ?buf))" "good s2"
    using config_program [OF s1(3,2), of "take 20 (cfg_bytes ?buf)"] by auto
  have w4: "\<forall>i<4. writable (?a + of_nat i)"
  proof (intro allI impI)
    fix i :: nat assume "i < 4"
    then show "writable (?a + of_nat i)"
      using w [of "20 + i"] by (simp add: CFG_CRC_OFFSET_def add.assoc)
  qed
  have e: "erased (byte s2) ?a 4"
    using erased_after [OF s1(2), of "take 20 (cfg_bytes ?buf)" 4] by (simp add: s2(2) CFG_CRC_OFFSET_def)
  obtain s3 where s3: "fl_program_word F s2 ?a (cfg_crc32 ?buf) = (FLASH_OK, s3)"
    "byte s3 = mem_write (byte s2) ?a (le32 (cfg_crc32 ?buf))"
    by (rule word_effect [OF s2(3) _ w4 config_range(2) e]) (simp add: layout_simps CFG_CRC_OFFSET_def)
  have "byte s3 = mem_write (byte s1) BOOT_CONFIG_ADDR (cfg_bytes ?buf)"
    by (simp only: s3(2) s2(2) cfg_write_split)
  then have "mem_bytes (byte s3) BOOT_CONFIG_ADDR 24 = cfg_bytes ?buf"
    using mem_bytes_write_same [of "cfg_bytes ?buf" "byte s1" BOOT_CONFIG_ADDR] by simp
  then show ?thesis
    using s1(1) s2(1) s3(1) by (simp add: boot_config_save_def Let_def CFG_CRC_OFFSET_def read)
qed

text \<open>And a save, complete or not, leaves a good state.\<close>

lemma save_good:
  assumes "good s"
  shows "good (snd (boot_config_save F s c))"
proof -
  have e: "good s1" if "fl_erase_range F s BOOT_CONFIG_ADDR 24 = (st, s1)" for st s1
    using erase_good [OF assms, of BOOT_CONFIG_ADDR 24] that by simp
  have p: "good s2" if "fl_program_bytes F s1 BOOT_CONFIG_ADDR (take 20 (cfg_bytes d)) = (st, s2)" "good s1"
    for st s1 s2 d
    using program_good [OF that(2), of BOOT_CONFIG_ADDR "take 20 (cfg_bytes d)"] that(1) by simp
  have w: "good s3" if "fl_program_word F s2 (BOOT_CONFIG_ADDR + CFG_CRC_OFFSET) v = (st, s3)" "good s2"
    for st s2 s3 v
    using word_good [OF that(2) config_range(2), of v] that(1) by simp
  show ?thesis
    by (auto simp: boot_config_save_def Let_def CFG_CRC_OFFSET_def
        dest!: e p w [unfolded CFG_CRC_OFFSET_def] split: prod.split)
qed

lemma save_interrupted_bytes:
  assumes g: "good s" and k: "k \<le> 20" "gran dvd k"
  shows "mem_bytes (byte (save_interrupted F s c k)) BOOT_CONFIG_ADDR 24 = torn_record c k"
proof -
  let ?d = "take k (cfg_bytes (boot_config_stamp_crc c))"
  obtain s1 where s1: "fl_erase_range F s BOOT_CONFIG_ADDR 24 = (FLASH_OK, s1)"
    "erased (byte s1) BOOT_CONFIG_ADDR 24" "good s1"
    using g by (rule config_erase)
  obtain s2 where s2: "fl_program_bytes F s1 BOOT_CONFIG_ADDR ?d = (FLASH_OK, s2)"
    "byte s2 = mem_write (byte s1) BOOT_CONFIG_ADDR ?d"
    by (rule config_program [OF s1(3,2), of ?d]) (use k in simp_all)
  have eq: "byte (save_interrupted F s c k) = mem_write (byte s1) BOOT_CONFIG_ADDR ?d"
    using k s1(1) s2 by (simp add: save_interrupted_def min_def)
  have i: "byte s1 (BOOT_CONFIG_ADDR + of_nat i) = 0xFF" if "i < 24" for i
    using s1(2) that by (simp add: erased_def)
  show ?thesis
    by (rule nth_equalityI)
      (use k in \<open>auto simp: eq torn_record_def nth_append mem_write_def i unat_of_nat\<close>)
qed

text \<open>
  Power lost before the whole body is written: the next load falls back to what slot B alone
  holds, because the erase already removed slot A's header.
\<close>

lemma save_interrupted_frame:
  assumes g: "good s" and k: "k \<le> 20"
  shows "in_range SLOT_A_ADDR 512 x \<Longrightarrow> byte (save_interrupted F s c k) x = 0xFF"
    and "in_range SLOT_B_ADDR 471040 x \<Longrightarrow> byte (save_interrupted F s c k) x = byte s x"
proof -
  let ?d = "take k (cfg_bytes (boot_config_stamp_crc c))"
  obtain s1 where s1: "fl_erase_range F s BOOT_CONFIG_ADDR 24 = (FLASH_OK, s1)"
    "byte s1 = (\<lambda>x. if erase_covers BOOT_CONFIG_ADDR 24 x \<and> writable x then 0xFF else byte s x)"
    by (rule erase_effect [OF g config_in_flash])
  obtain st s2 where s2: "fl_program_bytes F s1 BOOT_CONFIG_ADDR ?d = (st, s2)" by fastforce
  have eq: "save_interrupted F s c k = s2"
    using k s1(1) s2 by (simp add: save_interrupted_def min_def)
  have fr: "\<not> in_range BOOT_CONFIG_ADDR 24 x \<Longrightarrow> byte s2 x = byte s1 x"
    by (rule program_frame [OF s2]) (use k in \<open>auto simp: in_range_def\<close>)
  show "byte (save_interrupted F s c k) x = 0xFF" if x: "in_range SLOT_A_ADDR 512 x"
  proof -
    have "in_range SLOT_A_ADDR (unat (fl_ota_slot_span F)) x" using x span by (simp add: in_range_def)
    then show ?thesis
      using x fr writable_regions [of x]
      by (simp add: eq s1(2) config_sector in_config_range in_slot_a_range)
  qed
  show "byte (save_interrupted F s c k) x = byte s x" if x: "in_range SLOT_B_ADDR 471040 x"
    using x fr by (simp add: eq s1(2) config_sector in_config_range in_slot_b_range)
qed

lemma save_interrupted_load:
  assumes g: "good s" and pk: "length (public_key_sha256 C) = 32" and k: "k < 20" "gran dvd k"
  shows "boot_config_load C F (save_interrupted F s c k)
    = (False, recovered_cfg None (slot_version C (byte s) SLOT_B_ADDR))"
proof -
  let ?s1 = "save_interrupted F s c k"
  have k': "k \<le> 20" using k by simp
  have st: "stored_cfg (byte ?s1) = cfg_of_bytes (torn_record c k)"
    unfolding stored_cfg_def save_interrupted_bytes [OF g k' k(2)] ..
  have "cfg_magic (stored_cfg (byte ?s1)) \<noteq> BOOT_CONFIG_MAGIC"
    unfolding st by (rule cfg_prefix_magic [OF k(1) torn_length]) (use k in \<open>simp_all add: torn_record_def\<close>)
  then have inv: "\<not> boot_config_validate (stored_cfg (byte ?s1))"
    by (simp add: boot_config_validate_def)
  have "\<not> image_ok C (byte ?s1) SLOT_A_ADDR"
    by (rule image_ok_erased) (rule save_interrupted_frame(1) [OF g k'], simp add: in_range_def)
  then have a: "slot_version C (byte ?s1) SLOT_A_ADDR = None" by (simp add: slot_version_def)
  have eq: "mem_eq_on SLOT_B_ADDR 471040 (byte ?s1) (byte s)"
    using save_interrupted_frame(2) [OF g k'] by (simp add: mem_eq_on_def)
  have "image_header (byte ?s1) SLOT_B_ADDR = image_header (byte s) SLOT_B_ADDR"
    using mem_eq_on_sub [OF eq, of 0 512] by (intro image_header_cong) simp
  then have b: "slot_version C (byte ?s1) SLOT_B_ADDR = slot_version C (byte s) SLOT_B_ADDR"
    using image_ok_cong [OF eq] by (simp add: slot_version_def)
  show ?thesis
    using boot_config_load_eq [OF flash_device_axioms pk, of ?s1] inv by (simp add: loaded_cfg_def a b)
qed

end

end
