(* ===== verification/Boot_Main.thy ===== *)
theory Boot_Main
  imports Boot_Config
begin

unbundle bit_operations_syntax

text \<open>
  \<^verbatim>\<open>bootloader/src/main.c\<close>: the boot state machine.  The persistent state of a boot is the
  flash device and the shared SRAM block (\<open>boot_st\<close>); the configuration and its dirty flag are
  locals of \<^verbatim>\<open>main\<close>, passed and returned.  Log lines are left out.  \<open>main\<close> ends in the jump or
  in recovery mode, given as a value; the jump itself is \<open>bootloader_jump_to_application\<close> on
  the registers of the core.
\<close>

section \<open>State and constants\<close>

definition SCB_VTOR_ADDR :: u32 where "SCB_VTOR_ADDR = 0xE000ED08"
definition SCB_AIRCR_ADDR :: u32 where "SCB_AIRCR_ADDR = 0xE000ED0C"
definition AIRCR_KEY :: u32 where "AIRCR_KEY = 0x05FA0000"
definition AIRCR_SYSRESETREQ :: u32 where "AIRCR_SYSRESETREQ = push_bit 2 1"
definition MAX_SWAP_RETRIES :: nat where "MAX_SWAP_RETRIES = 4"
definition MAX_BOOT_ATTEMPTS :: u8 where "MAX_BOOT_ATTEMPTS = 3"

record 's boot_st =
  bs_flash :: 's
  bs_shared :: SharedBootBlock_t

section \<open>The steps of \<open>main\<close>\<close>

text \<open>A failed save is only logged; the flash keeps whatever the attempt left.\<close>

definition save_or_warn :: "'s flash_ops \<Rightarrow> BootConfig_t \<Rightarrow> 's boot_st \<Rightarrow> 's boot_st" where
  "save_or_warn F cfg st = st\<lparr>bs_flash := snd (boot_config_save F (bs_flash st) cfg)\<rparr>"

definition check_app_confirmation ::
  "BootConfig_t \<Rightarrow> bool \<Rightarrow> 's boot_st \<Rightarrow> BootConfig_t \<times> bool \<times> 's boot_st" where
  "check_app_confirmation cfg cfg_dirty st =
     (let sh = bs_shared st;
          (cfg, cfg_dirty) =
            (if sb_magic sh = SHARED_BLOCK_MAGIC \<and> sb_boot_confirmed sh \<noteq> 0
             then (cfg\<lparr>cfg_boot_attempts := 0, cfg_last_good_boot := cfg_last_good_boot cfg + 1\<rparr>, True)
             else (cfg, cfg_dirty))
      in (cfg, cfg_dirty, st\<lparr>bs_shared := sh\<lparr>sb_boot_confirmed := 0, sb_magic := SHARED_BLOCK_MAGIC\<rparr>\<rparr>))"

definition process_ota_pending_swap ::
  "crypto_env \<Rightarrow> 's flash_ops \<Rightarrow> BootConfig_t \<Rightarrow> bool \<Rightarrow> 's boot_st
     \<Rightarrow> BootConfig_t \<times> bool \<times> 's boot_st" where
  "process_ota_pending_swap C F cfg cfg_dirty st =
     (if sb_ota_pending (bs_shared st) = 0 then (cfg, cfg_dirty, st)
      else
        let st = st\<lparr>bs_shared := (bs_shared st)\<lparr>sb_ota_pending := 0\<rparr>\<rparr>;
            inactive = memory_map_other_slot (cfg_active_slot cfg);
            inactive_addr = memory_map_slot_addr inactive
        in if \<not> crypto_verify_firmware C F (bs_flash st) inactive_addr then (cfg, cfg_dirty, st)
        else case fl_read F (bs_flash st) inactive_addr FIRMWARE_HEADER_SIZE of (rs, hb) \<Rightarrow>
          let hdr = hdr_of_bytes hb in
          if rs \<noteq> FLASH_OK \<or> fh_magic hdr \<noteq> FIRMWARE_MAGIC then (cfg, cfg_dirty, st)
          else if \<not> boot_config_firmware_allowed cfg (fh_version hdr) then (cfg, cfg_dirty, st)
          else
            let old_active = cfg_active_slot cfg;
                cfg = boot_config_record_ota_to_slot cfg inactive (fh_version hdr);
                cfg = cfg\<lparr>cfg_active_slot := inactive, cfg_boot_attempts := 0\<rparr>;
                st = save_or_warn F cfg st
            in if crypto_verify_firmware C F (bs_flash st) (memory_map_slot_addr (cfg_active_slot cfg))
               then (cfg, True, st)
               else (let cfg = cfg\<lparr>cfg_active_slot := old_active\<rparr>;
                         st = save_or_warn F cfg st
                     in (cfg, True, st)))"

text \<open>The verify-active loop; the first argument counts the iterations left.\<close>

fun pick_loop ::
  "nat \<Rightarrow> crypto_env \<Rightarrow> 's flash_ops \<Rightarrow> 's \<Rightarrow> BootConfig_t \<Rightarrow> bool \<Rightarrow> u8 \<times> BootConfig_t \<times> bool" where
  "pick_loop 0 C F s cfg cfg_dirty = (0, cfg, cfg_dirty)"
| "pick_loop (Suc n) C F s cfg cfg_dirty =
     (let active_addr = memory_map_slot_addr (cfg_active_slot cfg) in
      if crypto_verify_firmware C F s active_addr then
        if cfg_boot_attempts cfg \<ge> MAX_BOOT_ATTEMPTS then
          pick_loop n C F s
            (cfg\<lparr>cfg_active_slot := memory_map_other_slot (cfg_active_slot cfg), cfg_boot_attempts := 0\<rparr>)
            True
        else (let cfg = cfg\<lparr>cfg_boot_attempts := cfg_boot_attempts cfg + 1\<rparr>
              in (cfg_active_slot cfg, cfg, True))
      else
        let other_slot = memory_map_other_slot (cfg_active_slot cfg);
            other_addr = memory_map_slot_addr other_slot
        in if crypto_verify_firmware C F s other_addr
           then (let cfg = cfg\<lparr>cfg_active_slot := other_slot, cfg_boot_attempts := 0\<rparr>
                 in (cfg_active_slot cfg, cfg, True))
           else (0, cfg, cfg_dirty))"

definition pick_slot_to_boot ::
  "crypto_env \<Rightarrow> 's flash_ops \<Rightarrow> 's \<Rightarrow> BootConfig_t \<Rightarrow> bool \<Rightarrow> u8 \<times> BootConfig_t \<times> bool" where
  "pick_slot_to_boot C F s cfg cfg_dirty = pick_loop MAX_SWAP_RETRIES C F s cfg cfg_dirty"

datatype main_exit = JumpTo u32 | RecoveryMode

text \<open>\<^verbatim>\<open>main\<close> after the peripheral initialisation.\<close>

definition main :: "crypto_env \<Rightarrow> 's flash_ops \<Rightarrow> 's boot_st \<Rightarrow> main_exit \<times> 's boot_st" where
  "main C F st =
     (let (cfg_loaded_ok, cfg) = boot_config_load C F (bs_flash st);
          cfg_dirty = (\<not> cfg_loaded_ok);
          (cfg, cfg_dirty, st) = check_app_confirmation cfg cfg_dirty st;
          (cfg_dirty, st) = (if cfg_dirty then (False, save_or_warn F cfg st) else (cfg_dirty, st));
          (cfg, cfg_dirty, st) = process_ota_pending_swap C F cfg cfg_dirty st;
          (cfg_dirty, st) = (if cfg_dirty then (False, save_or_warn F cfg st) else (cfg_dirty, st));
          (boot_slot, cfg, cfg_dirty) = pick_slot_to_boot C F (bs_flash st) cfg cfg_dirty;
          st = (if cfg_dirty then save_or_warn F cfg st else st)
      in if boot_slot = 0 then (RecoveryMode, st)
         else (JumpTo (memory_map_slot_addr boot_slot), st))"

section \<open>The jump\<close>

record cpu_t =
  cpu_vtor :: u32
  cpu_msp :: u32
  cpu_pc :: u32
  cpu_irq_enabled :: bool

definition cpu_load32 :: "'s flash_ops \<Rightarrow> 's \<Rightarrow> u32 \<Rightarrow> u32" where
  "cpu_load32 F s a = rd_u32_le (mem_bytes (fl_cpu_load F s) a 4)"

text \<open>\<open>None\<close> is the endless loop of a misaligned vector table.\<close>

definition bootloader_jump_to_application :: "'s flash_ops \<Rightarrow> 's \<Rightarrow> u32 \<Rightarrow> cpu_t \<Rightarrow> cpu_t option" where
  "bootloader_jump_to_application F s slot_addr cpu =
     (let app_vt = slot_addr + FIRMWARE_HEADER_SIZE in
      if app_vt AND 0x1FF \<noteq> 0 then None
      else let app_msp = cpu_load32 F s (app_vt + 0);
               app_rh = cpu_load32 F s (app_vt + 4);
               cpu = cpu\<lparr>cpu_irq_enabled := False\<rparr>;
               cpu = cpu\<lparr>cpu_vtor := app_vt\<rparr>;
               cpu = cpu\<lparr>cpu_msp := app_msp\<rparr>;
               cpu = cpu\<lparr>cpu_irq_enabled := True\<rparr>
           in Some (cpu\<lparr>cpu_pc := app_rh\<rparr>))"

definition SystemInit :: "cpu_t \<Rightarrow> cpu_t" where
  "SystemInit cpu = cpu\<lparr>cpu_vtor := BOOTLOADER_ADDR\<rparr>"

text \<open>The register write that requests a system reset.\<close>

definition bootloader_system_reset :: "u32 \<times> u32" where
  "bootloader_system_reset = (SCB_AIRCR_ADDR, AIRCR_KEY OR AIRCR_SYSRESETREQ)"

section \<open>The choice of slot\<close>

text \<open>
  \<open>pick_spec\<close>: what the loop decides, from the two verdicts alone.  \<open>None\<close> is recovery.
\<close>

definition pick_spec :: "bool \<Rightarrow> bool \<Rightarrow> BootConfig_t \<Rightarrow> BootConfig_t option" where
  "pick_spec act_ok oth_ok cfg =
     (let other = memory_map_other_slot (cfg_active_slot cfg) in
      if act_ok then
        if cfg_boot_attempts cfg < MAX_BOOT_ATTEMPTS
        then Some (cfg\<lparr>cfg_boot_attempts := cfg_boot_attempts cfg + 1\<rparr>)
        else if oth_ok then Some (cfg\<lparr>cfg_active_slot := other, cfg_boot_attempts := 1\<rparr>)
        else Some (cfg\<lparr>cfg_boot_attempts := 0\<rparr>)
      else if oth_ok then Some (cfg\<lparr>cfg_active_slot := other, cfg_boot_attempts := 0\<rparr>)
      else None)"

lemma pick_loop_spec:
  assumes act: "cfg_active_slot cfg \<in> {SLOT_A, SLOT_B}" and n: "2 \<le> n"
  shows "pick_loop n C F s cfg d =
    (case pick_spec (crypto_verify_firmware C F s (memory_map_slot_addr (cfg_active_slot cfg)))
        (crypto_verify_firmware C F s (memory_map_slot_addr (memory_map_other_slot (cfg_active_slot cfg)))) cfg of
       None \<Rightarrow> (0, cfg, d) | Some cfg' \<Rightarrow> (cfg_active_slot cfg', cfg', True))"
proof -
  obtain m where "n = 2 + m" using le_Suc_ex [OF n] by blast
  then have n: "n = Suc (Suc m)" by simp
  let ?a = "cfg_active_slot cfg"
  let ?v = "\<lambda>x. crypto_verify_firmware C F s (memory_map_slot_addr x)"
  have inv: "memory_map_other_slot (memory_map_other_slot ?a) = ?a" using act by (rule other_slot_invol)
  have ge: "MAX_BOOT_ATTEMPTS \<le> cfg_boot_attempts cfg \<longleftrightarrow> \<not> cfg_boot_attempts cfg < MAX_BOOT_ATTEMPTS"
    by (simp add: not_less)
  have z: "MAX_BOOT_ATTEMPTS \<noteq> 0" by (simp add: MAX_BOOT_ATTEMPTS_def)
  show ?thesis
    unfolding n
    by (cases "?v ?a"; cases "?v (memory_map_other_slot ?a)";
        cases "cfg_boot_attempts cfg < MAX_BOOT_ATTEMPTS")
      (simp_all add: pick_spec_def Let_def ge inv z)
qed

text \<open>Whatever the configuration says, a slot is returned only when it verifies.\<close>

lemma pick_loop_sound:
  assumes "pick_loop n C F s cfg d = (slot, cfg', d')" "slot \<noteq> 0"
  shows "crypto_verify_firmware C F s (memory_map_slot_addr slot)
    \<and> slot = cfg_active_slot cfg' \<and> d'"
  using assms by (induction n arbitrary: cfg d) (auto simp: Let_def split: if_splits)

text \<open>The loop touches only the active slot and the attempt counter.\<close>

lemma pick_loop_frame:
  assumes "pick_loop n C F s cfg d = (slot, cfg', d')"
  shows "cfg_slot_a_version cfg' = cfg_slot_a_version cfg"
    and "cfg_slot_b_version cfg' = cfg_slot_b_version cfg"
    and "cfg_rollback_counter cfg' = cfg_rollback_counter cfg"
    and "cfg_magic cfg' = cfg_magic cfg"
    and "cfg_last_good_boot cfg' = cfg_last_good_boot cfg"
  using assms by (induction n arbitrary: cfg d; auto simp: Let_def split: if_splits)+

section \<open>The swap\<close>

lemma save_or_warn_simps [simp]:
  "bs_shared (save_or_warn F cfg st) = bs_shared st"
  "bs_flash (save_or_warn F cfg st) = snd (boot_config_save F (bs_flash st) cfg)"
  by (simp_all add: save_or_warn_def)

text \<open>The configuration a swap commits.\<close>

definition committed_cfg :: "BootConfig_t \<Rightarrow> u32 \<Rightarrow> BootConfig_t" where
  "committed_cfg cfg v =
     (let inactive = memory_map_other_slot (cfg_active_slot cfg)
      in (boot_config_record_ota_to_slot cfg inactive v)\<lparr>cfg_active_slot := inactive, cfg_boot_attempts := 0\<rparr>)"

lemma record_frame [simp]:
  "cfg_magic (boot_config_record_ota_to_slot cfg slot v) = cfg_magic cfg"
  "cfg_active_slot (boot_config_record_ota_to_slot cfg slot v) = cfg_active_slot cfg"
  by (simp_all add: boot_config_record_ota_to_slot_def Let_def)

lemma committed_simps [simp]:
  "cfg_active_slot (committed_cfg cfg v) = memory_map_other_slot (cfg_active_slot cfg)"
  "cfg_boot_attempts (committed_cfg cfg v) = 0"
  "cfg_magic (committed_cfg cfg v) = cfg_magic cfg"
  by (simp_all add: committed_cfg_def Let_def)

lemma floor_active_indep [simp]:
  "boot_config_antidowngrade_floor (c\<lparr>cfg_active_slot := x\<rparr>) = boot_config_antidowngrade_floor c"
  "boot_config_antidowngrade_floor (c\<lparr>cfg_boot_attempts := y\<rparr>) = boot_config_antidowngrade_floor c"
  "boot_config_antidowngrade_floor (c\<lparr>cfg_last_good_boot := z\<rparr>) = boot_config_antidowngrade_floor c"
  by (simp_all add: floor_eq)

lemma committed_floor:
  assumes "boot_config_firmware_allowed cfg v"
  shows "boot_config_antidowngrade_floor (committed_cfg cfg v)
    = (if boot_config_antidowngrade_floor cfg < v \<and> v < 0x10000 then 0x10000 else v)"
  using record_floor [OF assms other_slot_in] by (simp add: committed_cfg_def Let_def)

text \<open>The shared block after the pending bit was consumed.\<close>

definition clear_pending :: "'s boot_st \<Rightarrow> 's boot_st" where
  "clear_pending st = st\<lparr>bs_shared := (bs_shared st)\<lparr>sb_ota_pending := 0\<rparr>\<rparr>"

lemma clear_pending_simps [simp]:
  "bs_flash (clear_pending st) = bs_flash st" "sb_ota_pending (bs_shared (clear_pending st)) = 0"
  by (simp_all add: clear_pending_def)

text \<open>An accepted update is one that verifies in the inactive slot at or above the floor.\<close>

definition swap_accepts :: "crypto_env \<Rightarrow> mem \<Rightarrow> BootConfig_t \<Rightarrow> bool" where
  "swap_accepts C m cfg \<longleftrightarrow>
     (let a = memory_map_slot_addr (memory_map_other_slot (cfg_active_slot cfg))
      in image_ok C m a \<and> boot_config_firmware_allowed cfg (fh_version (image_header m a)))"

context flash_device
begin

lemma swap_eq:
  fixes cfg :: BootConfig_t and d :: bool
  assumes pk: "length (public_key_sha256 C) = 32"
    and pend: "sb_ota_pending (bs_shared st) \<noteq> 0"
  defines "a \<equiv> memory_map_slot_addr (memory_map_other_slot (cfg_active_slot cfg))"
  defines "cfg2 \<equiv> committed_cfg cfg (fh_version (image_header (byte (bs_flash st)) a))"
  defines "st2 \<equiv> save_or_warn F cfg2 (clear_pending st)"
  shows "process_ota_pending_swap C F cfg d st =
    (if \<not> swap_accepts C (byte (bs_flash st)) cfg then (cfg, d, clear_pending st)
     else if image_ok C (byte (bs_flash st2)) a then (cfg2, True, st2)
     else (cfg2\<lparr>cfg_active_slot := cfg_active_slot cfg\<rparr>, True,
           save_or_warn F (cfg2\<lparr>cfg_active_slot := cfg_active_slot cfg\<rparr>) st2))"
proof -
  let ?m = "byte (bs_flash st)"
  have rd: "fl_read F s x FIRMWARE_HEADER_SIZE = (FLASH_OK, mem_bytes (byte s) x 512)" for s x
    by (simp add: read layout_simps)
  note ver = crypto_verify_firmware_eq [OF flash_device_axioms pk]
  note defs = process_ota_pending_swap_def swap_accepts_def Let_def clear_pending_def
    image_header_def [symmetric]
  have magic: "image_ok C ?m a \<Longrightarrow> fh_magic (image_header ?m a) = FIRMWARE_MAGIC"
    by (simp add: image_ok_def)
  consider "\<not> image_ok C ?m a"
    | "image_ok C ?m a" "\<not> boot_config_firmware_allowed cfg (fh_version (image_header ?m a))"
    | "image_ok C ?m a" "boot_config_firmware_allowed cfg (fh_version (image_header ?m a))"
    by blast
  then show ?thesis
  proof cases
    case 1
    then show ?thesis using pend by (simp add: defs ver a_def)
  next
    case 2
    then show ?thesis using pend magic by (simp add: defs ver rd a_def)
  next
    case 3
    then show ?thesis
      using pend magic
      by (simp add: defs ver rd a_def cfg2_def st2_def committed_cfg_def)
  qed
qed

end

section \<open>Consequences for the swap\<close>

lemma slot_addr_other_b: "cfg_active_slot cfg = SLOT_A
    \<Longrightarrow> memory_map_slot_addr (memory_map_other_slot (cfg_active_slot cfg)) = SLOT_B_ADDR"
  by simp

context flash_device
begin

lemma swap_no_request: "sb_ota_pending (bs_shared st) = 0
    \<Longrightarrow> process_ota_pending_swap C F cfg d st = (cfg, d, st)"
  by (simp add: process_ota_pending_swap_def)

lemma swap_cases:
  assumes pk: "length (public_key_sha256 C) = 32"
    and swap: "process_ota_pending_swap C F cfg d st = (cfg', d', st')"
  obtains (idle) "sb_ota_pending (bs_shared st) = 0" "cfg' = cfg" "d' = d" "st' = st"
  | (reject) "\<not> swap_accepts C (byte (bs_flash st)) cfg" "cfg' = cfg" "d' = d" "st' = clear_pending st"
  | (commit) v where "swap_accepts C (byte (bs_flash st)) cfg"
      "boot_config_firmware_allowed cfg v" "cfg' = committed_cfg cfg v" "d'"
      "st' = save_or_warn F cfg' (clear_pending st)"
      "image_ok C (byte (bs_flash st')) (memory_map_slot_addr (cfg_active_slot cfg'))"
  | (revert) v where "swap_accepts C (byte (bs_flash st)) cfg"
      "boot_config_firmware_allowed cfg v"
      "cfg' = (committed_cfg cfg v)\<lparr>cfg_active_slot := cfg_active_slot cfg\<rparr>" "d'"
      "st' = save_or_warn F cfg' (save_or_warn F (committed_cfg cfg v) (clear_pending st))"
proof (cases "sb_ota_pending (bs_shared st) = 0")
  case True
  show thesis by (rule idle) (use swap True in \<open>simp_all add: swap_no_request\<close>)
next
  case False
  let ?a = "memory_map_slot_addr (memory_map_other_slot (cfg_active_slot cfg))"
  let ?v = "fh_version (image_header (byte (bs_flash st)) ?a)"
  let ?st2 = "save_or_warn F (committed_cfg cfg ?v) (clear_pending st)"
  note eq = swap_eq [OF pk False, of cfg d, unfolded swap]
  show thesis
  proof (cases "swap_accepts C (byte (bs_flash st)) cfg")
    case no: False
    show thesis by (rule reject) (use eq no in simp_all)
  next
    case acc: True
    then have al: "boot_config_firmware_allowed cfg ?v" by (simp add: swap_accepts_def Let_def)
    show thesis
    proof (cases "image_ok C (byte (bs_flash ?st2)) ?a")
      case True
      show thesis by (rule commit [of ?v]) (use eq acc al True in simp_all)
    next
      case False
      show thesis by (rule revert [of ?v]) (use eq acc al False in simp_all)
    qed
  qed
qed

lemma allowed_floor_le:
  "boot_config_firmware_allowed cfg v
     \<Longrightarrow> boot_config_antidowngrade_floor cfg \<le> boot_config_antidowngrade_floor (committed_cfg cfg v)"
  using record_floor_mono [OF _ other_slot_in] by (simp add: committed_cfg_def Let_def)

lemma swap_invariants:
  assumes pk: "length (public_key_sha256 C) = 32"
    and swap: "process_ota_pending_swap C F cfg d st = (cfg', d', st')"
  shows "boot_config_antidowngrade_floor cfg \<le> boot_config_antidowngrade_floor cfg'"
    and "cfg_magic cfg' = cfg_magic cfg"
    and "cfg_active_slot cfg \<in> {SLOT_A, SLOT_B} \<Longrightarrow> cfg_active_slot cfg' \<in> {SLOT_A, SLOT_B}"
    and "sb_ota_pending (bs_shared st') = 0"
    and "image_ok C (byte (bs_flash st')) SLOT_B_ADDR \<longleftrightarrow> image_ok C (byte (bs_flash st)) SLOT_B_ADDR"
proof -
  have sv: "image_ok C (byte (snd (boot_config_save F s c))) SLOT_B_ADDR \<longleftrightarrow> image_ok C (byte s) SLOT_B_ADDR" for s c
    by (rule save_keeps_slot_b(1)) (rule prod.collapse [symmetric])
  show "boot_config_antidowngrade_floor cfg \<le> boot_config_antidowngrade_floor cfg'"
    using pk swap by (rule swap_cases) (simp_all add: allowed_floor_le)
  show "cfg_magic cfg' = cfg_magic cfg"
    using pk swap by (rule swap_cases) simp_all
  show "cfg_active_slot cfg' \<in> {SLOT_A, SLOT_B}" if "cfg_active_slot cfg \<in> {SLOT_A, SLOT_B}"
    using pk swap by (rule swap_cases) (use that other_slot_in in simp_all)
  show "sb_ota_pending (bs_shared st') = 0"
    using pk swap by (rule swap_cases) simp_all
  show "image_ok C (byte (bs_flash st')) SLOT_B_ADDR \<longleftrightarrow> image_ok C (byte (bs_flash st)) SLOT_B_ADDR"
    using pk swap by (rule swap_cases) (simp_all add: sv)
qed

text \<open>From slot A to slot B an accepted update is always committed, even when the save fails.\<close>

lemma swap_to_b:
  assumes pk: "length (public_key_sha256 C) = 32" and act: "cfg_active_slot cfg = SLOT_A"
    and pend: "sb_ota_pending (bs_shared st) \<noteq> 0"
    and acc: "swap_accepts C (byte (bs_flash st)) cfg"
  defines "v \<equiv> fh_version (image_header (byte (bs_flash st)) SLOT_B_ADDR)"
  shows "process_ota_pending_swap C F cfg d st
    = (committed_cfg cfg v, True, save_or_warn F (committed_cfg cfg v) (clear_pending st))"
proof -
  have "image_ok C (byte (bs_flash st)) SLOT_B_ADDR"
    using acc act by (simp add: swap_accepts_def Let_def)
  then have "image_ok C (byte (bs_flash (save_or_warn F (committed_cfg cfg v) (clear_pending st)))) SLOT_B_ADDR"
    using save_keeps_slot_b(1) [OF prod.collapse [symmetric]] by simp
  then show ?thesis
    using swap_eq [OF pk pend, of cfg d] acc act by (simp add: v_def)
qed

text \<open>
  From slot B to slot A an accepted update never survives a save that works: the save erases
  the new image, the re-verification fails and the swap is reverted, with the version and the
  floor of the lost image left in the configuration.
\<close>

lemma swap_to_a:
  assumes pk: "length (public_key_sha256 C) = 32" and act: "cfg_active_slot cfg = SLOT_B"
    and pend: "sb_ota_pending (bs_shared st) \<noteq> 0"
    and acc: "swap_accepts C (byte (bs_flash st)) cfg"
    and new: "committed_cfg cfg (fh_version (image_header (byte (bs_flash st)) SLOT_A_ADDR)) = new"
    and save: "boot_config_save F (bs_flash st) new = (ok, fl)"
  shows "\<exists>st'. process_ota_pending_swap C F cfg d st =
    (if \<not> ok \<and> image_ok C (byte fl) SLOT_A_ADDR then new else new\<lparr>cfg_active_slot := SLOT_B\<rparr>, True, st')"
proof -
  have "\<not> ok" if "image_ok C (byte fl) SLOT_A_ADDR"
    using save_destroys_slot_a [of "bs_flash st" new] save that by (cases ok) auto
  moreover have "bs_flash (save_or_warn F new (clear_pending st)) = fl" using save by (simp add: save_or_warn_def)
  ultimately show ?thesis using swap_eq [OF pk pend, of cfg d] acc act new by auto
qed

end

section \<open>A whole boot\<close>

text \<open>
  The part of \<open>main\<close> before the choice of slot: the configuration it works with and the state
  after the two saves; and the part from the choice on.
\<close>

definition boot_prepare :: "crypto_env \<Rightarrow> 's flash_ops \<Rightarrow> 's boot_st \<Rightarrow> BootConfig_t \<times> 's boot_st" where
  "boot_prepare C F st =
     (let (ok, cfg) = boot_config_load C F (bs_flash st);
          (cfg, d, st) = check_app_confirmation cfg (\<not> ok) st;
          st = (if d then save_or_warn F cfg st else st);
          (cfg, d, st) = process_ota_pending_swap C F cfg False st;
          st = (if d then save_or_warn F cfg st else st)
      in (cfg, st))"

definition boot_finish ::
  "crypto_env \<Rightarrow> 's flash_ops \<Rightarrow> BootConfig_t \<times> 's boot_st \<Rightarrow> main_exit \<times> 's boot_st" where
  "boot_finish C F p = (case p of (cfg, st) \<Rightarrow>
     (case pick_slot_to_boot C F (bs_flash st) cfg False of (slot, cfg, d) \<Rightarrow>
       let st = (if d then save_or_warn F cfg st else st)
       in if slot = 0 then (RecoveryMode, st) else (JumpTo (memory_map_slot_addr slot), st)))"

lemma main_split: "main C F st = boot_finish C F (boot_prepare C F st)"
proof -
  obtain ok cfg where l: "boot_config_load C F (bs_flash st) = (ok, cfg)" by fastforce
  obtain cfg1 d1 st1 where c: "check_app_confirmation cfg (\<not> ok) st = (cfg1, d1, st1)"
    by (metis prod_cases3)
  let ?st2 = "if d1 then save_or_warn F cfg1 st1 else st1"
  obtain cfg3 d3 st3 where p: "process_ota_pending_swap C F cfg1 False ?st2 = (cfg3, d3, st3)"
    by (metis prod_cases3)
  show ?thesis
    using p unfolding main_def boot_prepare_def boot_finish_def l prod.case Let_def c
    by (cases d1; cases d3) simp_all
qed

lemma boot_finish_spec:
  fixes st :: "'s boot_st"
  assumes dev: "flash_device F byte writable" and pk: "length (public_key_sha256 C) = 32"
    and act: "cfg_active_slot cfg \<in> {SLOT_A, SLOT_B}"
  defines "ok \<equiv> \<lambda>slot. image_ok C (byte (bs_flash st)) (memory_map_slot_addr slot)"
  shows "boot_finish C F (cfg, st) =
    (case pick_spec (ok (cfg_active_slot cfg)) (ok (memory_map_other_slot (cfg_active_slot cfg))) cfg of
       None \<Rightarrow> (RecoveryMode, st)
     | Some cfg' \<Rightarrow> (JumpTo (memory_map_slot_addr (cfg_active_slot cfg')), save_or_warn F cfg' st))"
proof -
  have nz: "pick_spec x y cfg = Some cfg' \<Longrightarrow> cfg_active_slot cfg' \<noteq> 0" for x y cfg'
    using act by (auto simp: pick_spec_def Let_def split: if_splits)
  have pl: "pick_slot_to_boot C F (bs_flash st) cfg False =
    (case pick_spec (ok (cfg_active_slot cfg)) (ok (memory_map_other_slot (cfg_active_slot cfg))) cfg of
       None \<Rightarrow> (0, cfg, False) | Some cfg' \<Rightarrow> (cfg_active_slot cfg', cfg', True))"
    unfolding pick_slot_to_boot_def ok_def crypto_verify_firmware_eq [OF dev pk, symmetric]
    by (rule pick_loop_spec [OF act]) (simp add: MAX_SWAP_RETRIES_def)
  show ?thesis
    unfolding boot_finish_def prod.case pl Let_def
    by (cases "pick_spec (ok (cfg_active_slot cfg)) (ok (memory_map_other_slot (cfg_active_slot cfg))) cfg")
      (simp_all add: nz)
qed

text \<open>Control leaves only to a slot whose image was verified in the state it was picked in.\<close>

lemma boot_finish_sound:
  assumes dev: "flash_device F byte writable" and pk: "length (public_key_sha256 C) = 32"
    and fin: "boot_finish C F (cfg, st) = (JumpTo a, st')"
  obtains cfg' where "image_ok C (byte (bs_flash st)) a" "a = memory_map_slot_addr (cfg_active_slot cfg')"
    "st' = save_or_warn F cfg' st"
proof -
  obtain slot cfg' d where p: "pick_loop MAX_SWAP_RETRIES C F (bs_flash st) cfg False = (slot, cfg', d)"
    by (metis prod_cases3)
  then have slot: "slot \<noteq> 0" "a = memory_map_slot_addr slot" "st' = (if d then save_or_warn F cfg' st else st)"
    using fin by (auto simp: boot_finish_def pick_slot_to_boot_def Let_def split: if_splits)
  have v: "crypto_verify_firmware C F (bs_flash st) a" and s: "slot = cfg_active_slot cfg'" and d
    unfolding slot(2) using pick_loop_sound [OF p slot(1)] by blast+
  have "image_ok C (byte (bs_flash st)) a" "a = memory_map_slot_addr (cfg_active_slot cfg')" d
    using v slot(2) \<open>d\<close> unfolding crypto_verify_firmware_eq [OF dev pk] s by simp_all
  then show thesis using slot that by simp
qed

lemma main_sound:
  assumes dev: "flash_device F byte writable" and pk: "length (public_key_sha256 C) = 32"
    and main: "main C F st = (JumpTo a, st')"
  obtains cfg where "image_ok C (byte (bs_flash (snd (boot_prepare C F st)))) a"
    "a = memory_map_slot_addr (cfg_active_slot cfg)"
    "st' = save_or_warn F cfg (snd (boot_prepare C F st))"
proof -
  obtain cfg0 st0 where p: "boot_prepare C F st = (cfg0, st0)" by fastforce
  then have "boot_finish C F (cfg0, st0) = (JumpTo a, st')" using main main_split [of C F st] by simp
  from dev pk this obtain cfg where "image_ok C (byte (bs_flash st0)) a"
    "a = memory_map_slot_addr (cfg_active_slot cfg)" "st' = save_or_warn F cfg st0"
    by (rule boot_finish_sound)
  with that p show thesis by simp
qed

text \<open>The invariants of the preparation.\<close>

lemma load_ok_active:
  assumes "boot_config_validate (stored_cfg m) \<Longrightarrow> cfg_active_slot (stored_cfg m) \<in> {SLOT_A, SLOT_B}"
  shows "cfg_active_slot (loaded_cfg C m) \<in> {SLOT_A, SLOT_B}"
  using assms recovered_active by (simp add: loaded_cfg_def)

lemma loaded_magic: "cfg_magic (loaded_cfg C m) = BOOT_CONFIG_MAGIC"
  using loaded_cfg_validates [of C m] by (simp add: validate_iff)

context flash_device
begin

lemma maybe_save_keeps_b:
  "image_ok C (byte (bs_flash (if d then save_or_warn F c st else st))) SLOT_B_ADDR
     \<longleftrightarrow> image_ok C (byte (bs_flash st)) SLOT_B_ADDR"
  using save_keeps_slot_b(1) [OF prod.collapse [symmetric]] by simp

lemma confirmation_facts:
  assumes "check_app_confirmation cfg d st = (cfg', d', st')"
  shows "boot_config_antidowngrade_floor cfg' = boot_config_antidowngrade_floor cfg"
    "cfg_active_slot cfg' = cfg_active_slot cfg" "cfg_magic cfg' = cfg_magic cfg"
    "bs_flash st' = bs_flash st" "sb_ota_pending (bs_shared st') = sb_ota_pending (bs_shared st)"
    "sb_boot_confirmed (bs_shared st') = 0"
  using assms by (auto simp: check_app_confirmation_def Let_def split: if_splits)

lemma prepare_invariants:
  assumes pk: "length (public_key_sha256 C) = 32"
    and prep: "boot_prepare C F st = (cfg, st')"
  shows "boot_config_antidowngrade_floor (loaded_cfg C (byte (bs_flash st))) \<le> boot_config_antidowngrade_floor cfg"
    and "cfg_magic cfg = BOOT_CONFIG_MAGIC"
    and "cfg_active_slot (loaded_cfg C (byte (bs_flash st))) \<in> {SLOT_A, SLOT_B}
      \<Longrightarrow> cfg_active_slot cfg \<in> {SLOT_A, SLOT_B}"
    and "sb_ota_pending (bs_shared st') = 0"
    and "image_ok C (byte (bs_flash st')) SLOT_B_ADDR \<longleftrightarrow> image_ok C (byte (bs_flash st)) SLOT_B_ADDR"
proof -
  let ?l = "loaded_cfg C (byte (bs_flash st))"
  obtain cfg1 d1 st1 where
    c: "check_app_confirmation ?l (\<not> boot_config_validate (stored_cfg (byte (bs_flash st)))) st = (cfg1, d1, st1)"
    by (metis prod_cases3)
  let ?st2 = "if d1 then save_or_warn F cfg1 st1 else st1"
  obtain cfg3 d3 st3 where p: "process_ota_pending_swap C F cfg1 False ?st2 = (cfg3, d3, st3)"
    by (metis prod_cases3)
  have e: "cfg = cfg3" "st' = (if d3 then save_or_warn F cfg3 st3 else st3)"
    using prep by (simp_all add: boot_prepare_def boot_config_load_eq [OF flash_device_axioms pk] c Let_def p)
  note cf = confirmation_facts [OF c] and sw = swap_invariants [OF pk p]
  show "boot_config_antidowngrade_floor ?l \<le> boot_config_antidowngrade_floor cfg"
    using cf(1) sw(1) by (simp add: e)
  show "cfg_magic cfg = BOOT_CONFIG_MAGIC"
    using cf(3) sw(2) loaded_magic by (simp add: e)
  show "cfg_active_slot cfg \<in> {SLOT_A, SLOT_B}" if "cfg_active_slot ?l \<in> {SLOT_A, SLOT_B}"
    unfolding e(1) by (rule sw(3)) (use that cf(2) in simp)
  show "sb_ota_pending (bs_shared st') = 0"
    using sw(4) by (simp add: e)
  show "image_ok C (byte (bs_flash st')) SLOT_B_ADDR \<longleftrightarrow> image_ok C (byte (bs_flash st)) SLOT_B_ADDR"
    using sw(5) by (simp only: e maybe_save_keeps_b cf(4))
qed

text \<open>A boot never changes slot B.\<close>

lemma finish_state:
  obtains d c where "snd (boot_finish C F (cfg, st)) = (if d then save_or_warn F c st else st)"
proof -
  obtain slot c d where "pick_slot_to_boot C F (bs_flash st) cfg False = (slot, c, d)"
    by (metis prod_cases3)
  then have "snd (boot_finish C F (cfg, st)) = (if d then save_or_warn F c st else st)"
    by (simp add: boot_finish_def Let_def)
  then show thesis by (rule that)
qed

lemma main_keeps_slot_b:
  assumes pk: "length (public_key_sha256 C) = 32"
  shows "image_ok C (byte (bs_flash (snd (main C F st)))) SLOT_B_ADDR
    \<longleftrightarrow> image_ok C (byte (bs_flash st)) SLOT_B_ADDR"
proof -
  obtain cfg1 st1 where p: "boot_prepare C F st = (cfg1, st1)" by fastforce
  obtain d c where "snd (boot_finish C F (cfg1, st1)) = (if d then save_or_warn F c st1 else st1)"
    by (rule finish_state)
  then show ?thesis
    using prepare_invariants(5) [OF pk p] by (simp only: main_split p maybe_save_keeps_b)
qed

text \<open>
  Whenever the save before the jump succeeds, the image the core is sent to is intact if it
  is slot B's and no longer verifies if it is slot A's.
\<close>

lemma main_jump_outcome:
  assumes pk: "length (public_key_sha256 C) = 32" and main: "main C F st = (JumpTo a, st')"
    and save: "\<And>c. fst (boot_config_save F (bs_flash (snd (boot_prepare C F st))) c)"
  shows "image_ok C (byte (bs_flash st')) a \<longleftrightarrow> a = SLOT_B_ADDR"
proof -
  obtain cfg where m: "image_ok C (byte (bs_flash (snd (boot_prepare C F st)))) a"
    "a = memory_map_slot_addr (cfg_active_slot cfg)"
    "st' = save_or_warn F cfg (snd (boot_prepare C F st))"
    using flash_device_axioms pk main by (rule main_sound)
  let ?s = "bs_flash (snd (boot_prepare C F st))"
  have sv: "boot_config_save F ?s cfg = (True, bs_flash st')"
    using save [of cfg] by (simp add: m(3) prod_eq_iff)
  show ?thesis
  proof (cases "a = SLOT_B_ADDR")
    case True
    then show ?thesis using save_keeps_slot_b(1) [OF sv] m(1) by simp
  next
    case False
    then have "a = SLOT_A_ADDR" using m(2) slot_addr_cases [of "cfg_active_slot cfg"] by metis
    then show ?thesis using save_destroys_slot_a [OF sv] by simp
  qed
qed

end

section \<open>Successive boots\<close>

lemma pick_frame_floor:
  assumes "pick_loop n C F s cfg d = (slot, cfg', d')"
  shows "boot_config_antidowngrade_floor cfg' = boot_config_antidowngrade_floor cfg"
  using pick_loop_frame [OF assms] by (intro floor_cong)

lemma pick_active:
  assumes "pick_loop n C F s cfg d = (slot, cfg', d')" "cfg_active_slot cfg \<in> {SLOT_A, SLOT_B}"
  shows "cfg_active_slot cfg' \<in> {SLOT_A, SLOT_B}"
  using assms other_slot_in
  by (induction n arbitrary: cfg d) (auto simp: Let_def split: if_splits)

lemma stamp_of_loaded: "boot_config_stamp_crc (loaded_cfg C m) = loaded_cfg C m"
  using loaded_cfg_validates [of C m] by (simp add: validate_iff)

context reliable_flash
begin

lemma save_loaded:
  assumes g: "good s" and "cfg_magic c = BOOT_CONFIG_MAGIC"
  shows "loaded_cfg C (byte (snd (boot_config_save F s c))) = boot_config_stamp_crc c"
proof -
  have "boot_config_save F s c = (True, snd (boot_config_save F s c))"
    using save_succeeds [OF g, of c] by (simp add: prod_eq_iff)
  from save_ok [OF this] show ?thesis
    using assms by (simp add: loaded_cfg_def stored_cfg_def codec_simps)
qed

lemma save_no_slot_a: "good s \<Longrightarrow> \<not> image_ok C (byte (snd (boot_config_save F s c))) SLOT_A_ADDR"
  using save_destroys_slot_a [of s c "snd (boot_config_save F s c)"] save_succeeds [of s c]
  by (simp add: prod_eq_iff)

lemma maybe_save_good: "good (bs_flash st) \<Longrightarrow> good (bs_flash (if d then save_or_warn F c st else st))"
  by (simp add: save_good)

lemma swap_no_slot_a:
  assumes pk: "length (public_key_sha256 C) = 32"
    and swap: "process_ota_pending_swap C F cfg d st = (cfg', d', st')"
    and g: "good (bs_flash st)" and no: "\<not> image_ok C (byte (bs_flash st)) SLOT_A_ADDR"
  shows "\<not> image_ok C (byte (bs_flash st')) SLOT_A_ADDR"
  using pk swap by (rule swap_cases) (use g no in \<open>simp_all add: save_no_slot_a save_good\<close>)

lemma swap_good:
  assumes pk: "length (public_key_sha256 C) = 32"
    and swap: "process_ota_pending_swap C F cfg d st = (cfg', d', st')"
    and g: "good (bs_flash st)"
  shows "good (bs_flash st')"
  using pk swap by (rule swap_cases) (use g in \<open>simp_all add: save_good\<close>)

lemma swap_dirty:
  assumes pk: "length (public_key_sha256 C) = 32"
    and swap: "process_ota_pending_swap C F cfg False st = (cfg', d', st')"
  shows "\<not> d' \<Longrightarrow> cfg' = cfg \<and> bs_flash st' = bs_flash st"
  using pk swap by (rule swap_cases) simp_all

text \<open>After the preparation the stored configuration is the one in hand.\<close>

lemma prepare_state:
  assumes pk: "length (public_key_sha256 C) = 32"
    and g: "good (bs_flash st)" and prep: "boot_prepare C F st = (cfg, st')"
  shows "loaded_cfg C (byte (bs_flash st')) = boot_config_stamp_crc cfg"
    and "\<not> image_ok C (byte (bs_flash st)) SLOT_A_ADDR \<Longrightarrow> \<not> image_ok C (byte (bs_flash st')) SLOT_A_ADDR"
    and "good (bs_flash st')"
proof -
  let ?l = "loaded_cfg C (byte (bs_flash st))" and ?ok = "boot_config_validate (stored_cfg (byte (bs_flash st)))"
  obtain cfg1 d1 st1 where c: "check_app_confirmation ?l (\<not> ?ok) st = (cfg1, d1, st1)"
    by (metis prod_cases3)
  let ?st2 = "if d1 then save_or_warn F cfg1 st1 else st1"
  obtain cfg3 d3 st3 where p: "process_ota_pending_swap C F cfg1 False ?st2 = (cfg3, d3, st3)"
    by (metis prod_cases3)
  have e: "cfg = cfg3" "st' = (if d3 then save_or_warn F cfg3 st3 else st3)"
    using prep by (simp_all add: boot_prepare_def boot_config_load_eq [OF flash_device_axioms pk] c Let_def p)
  note cf = confirmation_facts [OF c]
  have clean: "cfg1 = ?l" if "\<not> d1"
    using c that by (auto simp: check_app_confirmation_def Let_def split: if_splits)
  have g1: "good (bs_flash st1)" using g cf(4) by simp
  have g2: "good (bs_flash ?st2)" by (rule maybe_save_good [OF g1])
  have g3: "good (bs_flash st3)" by (rule swap_good [OF pk p g2])
  show "good (bs_flash st')" unfolding e(2) by (rule maybe_save_good [OF g3])
  have m1: "cfg_magic cfg1 = BOOT_CONFIG_MAGIC" using cf(3) loaded_magic by simp
  have m3: "cfg_magic cfg3 = BOOT_CONFIG_MAGIC" using swap_invariants(2) [OF pk p] m1 by simp
  have s2: "loaded_cfg C (byte (bs_flash ?st2)) = boot_config_stamp_crc cfg1"
    using clean cf(4) by (cases d1) (simp_all add: save_loaded [OF g m1] stamp_of_loaded)
  show "loaded_cfg C (byte (bs_flash st')) = boot_config_stamp_crc cfg"
  proof (cases d3)
    case True
    then show ?thesis by (simp add: e save_loaded [OF g3 m3])
  next
    case False
    then have "cfg3 = cfg1" "bs_flash st3 = bs_flash ?st2" using swap_dirty [OF pk p] by blast+
    then show ?thesis using s2 False by (simp only: e if_False)
  qed
  show "\<not> image_ok C (byte (bs_flash st')) SLOT_A_ADDR" if "\<not> image_ok C (byte (bs_flash st)) SLOT_A_ADDR"
  proof -
    have "\<not> image_ok C (byte (bs_flash ?st2)) SLOT_A_ADDR"
      using that cf(4) g1 by (cases d1) (simp_all add: save_no_slot_a)
    from swap_no_slot_a [OF pk p g2 this] show ?thesis
      using g3 by (cases d3) (simp_all add: e save_no_slot_a)
  qed
qed

lemma main_state:
  assumes pk: "length (public_key_sha256 C) = 32"
    and g: "good (bs_flash st)" and main: "main C F st = (out, st')"
  shows "boot_config_antidowngrade_floor (loaded_cfg C (byte (bs_flash st)))
      \<le> boot_config_antidowngrade_floor (loaded_cfg C (byte (bs_flash st')))"
    and "cfg_active_slot (loaded_cfg C (byte (bs_flash st))) \<in> {SLOT_A, SLOT_B}
      \<Longrightarrow> cfg_active_slot (loaded_cfg C (byte (bs_flash st'))) \<in> {SLOT_A, SLOT_B}"
    and "\<not> image_ok C (byte (bs_flash st)) SLOT_A_ADDR \<Longrightarrow> \<not> image_ok C (byte (bs_flash st')) SLOT_A_ADDR"
    and "good (bs_flash st')"
proof -
  obtain cfg1 st1 where p: "boot_prepare C F st = (cfg1, st1)" by fastforce
  obtain slot c d where k: "pick_loop MAX_SWAP_RETRIES C F (bs_flash st1) cfg1 False = (slot, c, d)"
    by (metis prod_cases3)
  have e: "st' = (if d then save_or_warn F c st1 else st1)"
    using main by (auto simp: main_split p boot_finish_def pick_slot_to_boot_def k Let_def split: if_splits)
  have nd: "c = cfg1" if "\<not> d"
    using k that by (simp add: MAX_SWAP_RETRIES_def numeral_eq_Suc Let_def split: if_splits)
  note pi = prepare_invariants [OF pk p] and ps = prepare_state [OF pk g p]
  show "good (bs_flash st')" unfolding e by (rule maybe_save_good [OF ps(3)])
  have magic: "cfg_magic c = BOOT_CONFIG_MAGIC" using pick_loop_frame(4) [OF k] pi(2) by simp
  have l: "loaded_cfg C (byte (bs_flash st')) = boot_config_stamp_crc c"
    using nd ps(1) by (cases d) (simp_all add: e save_loaded [OF ps(3) magic])
  show "boot_config_antidowngrade_floor (loaded_cfg C (byte (bs_flash st)))
      \<le> boot_config_antidowngrade_floor (loaded_cfg C (byte (bs_flash st')))"
    using pi(1) pick_frame_floor [OF k] by (simp add: l)
  show "cfg_active_slot (loaded_cfg C (byte (bs_flash st'))) \<in> {SLOT_A, SLOT_B}"
    if "cfg_active_slot (loaded_cfg C (byte (bs_flash st))) \<in> {SLOT_A, SLOT_B}"
    using pick_active [OF k pi(3) [OF that]] by (simp add: l)
  show "\<not> image_ok C (byte (bs_flash st')) SLOT_A_ADDR" if "\<not> image_ok C (byte (bs_flash st)) SLOT_A_ADDR"
    using ps(2) [OF that] ps(3) by (simp add: e save_no_slot_a)
qed

text \<open>Without an image in slot A, a boot ends in slot B or in recovery.\<close>

lemma main_without_slot_a:
  assumes pk: "length (public_key_sha256 C) = 32" and g: "good (bs_flash st)"
    and act: "cfg_active_slot (loaded_cfg C (byte (bs_flash st))) \<in> {SLOT_A, SLOT_B}"
    and no: "\<not> image_ok C (byte (bs_flash st)) SLOT_A_ADDR"
  shows "fst (main C F st)
    = (if image_ok C (byte (bs_flash st)) SLOT_B_ADDR then JumpTo SLOT_B_ADDR else RecoveryMode)"
proof -
  obtain cfg1 st1 where p: "boot_prepare C F st = (cfg1, st1)" by fastforce
  note pi = prepare_invariants [OF pk p] and ps = prepare_state [OF pk g p]
  have a: "\<not> image_ok C (byte (bs_flash st1)) SLOT_A_ADDR" by (rule ps(2) [OF no])
  have act1: "cfg_active_slot cfg1 \<in> {SLOT_A, SLOT_B}" by (rule pi(3) [OF act])
  show ?thesis
    unfolding main_split p boot_finish_spec [OF flash_device_axioms pk act1]
    using act1 a pi(5) by (auto simp: pick_spec_def Let_def)
qed

end

end
