(* ===== verification/Bus.thy ===== *)
theory Bus
  imports Prelude
begin

unbundle bit_operations_syntax

text \<open>
  Memory-mapped registers.  The peripherals are not part of the repository: a \<open>bus\<close> is a
  parameter with the loads and stores a program can make, each returning the new state of the
  hardware, since a load may change it (a data register pops its queue).  The watchdog driver
  \<^verbatim>\<open>bootloader/src/iwdg.c\<close> is here as well, because every long loop of the code calls it.
\<close>

section \<open>Loads and stores\<close>

record 'h bus =
  bus_rd :: "'h \<Rightarrow> u32 \<Rightarrow> u32 \<times> 'h"
  bus_wr :: "'h \<Rightarrow> u32 \<Rightarrow> u32 \<Rightarrow> 'h"
  bus_wr8 :: "'h \<Rightarrow> u32 \<Rightarrow> u8 \<Rightarrow> 'h"
  bus_rd8 :: "'h \<Rightarrow> u32 \<Rightarrow> u8"

text \<open>\<open>REG |= m\<close>, \<open>REG &= ~m\<close>: a load and a store.\<close>

definition reg_or :: "'h bus \<Rightarrow> u32 \<Rightarrow> u32 \<Rightarrow> 'h \<Rightarrow> 'h" where
  "reg_or B a m h = (case bus_rd B h a of (v, h) \<Rightarrow> bus_wr B h a (v OR m))"

definition reg_clear :: "'h bus \<Rightarrow> u32 \<Rightarrow> u32 \<Rightarrow> 'h \<Rightarrow> 'h" where
  "reg_clear B a m h = (case bus_rd B h a of (v, h) \<Rightarrow> bus_wr B h a (v AND NOT m))"

section \<open>The independent watchdog\<close>

definition IWDG_KR :: u32 where "IWDG_KR = 0x40003000"
definition IWDG_PR :: u32 where "IWDG_PR = 0x40003004"
definition IWDG_RLR :: u32 where "IWDG_RLR = 0x40003008"
definition IWDG_SR :: u32 where "IWDG_SR = 0x4000300C"
definition IWDG_KR_KEY_RELOAD :: u32 where "IWDG_KR_KEY_RELOAD = 0xAAAA"
definition IWDG_KR_KEY_ENABLE :: u32 where "IWDG_KR_KEY_ENABLE = 0xCCCC"
definition IWDG_KR_KEY_ACCESS :: u32 where "IWDG_KR_KEY_ACCESS = 0x5555"
definition IWDG_PR_DIV256 :: u32 where "IWDG_PR_DIV256 = 6"
definition IWDG_RLR_10S :: u32 where "IWDG_RLR_10S = 1250"

text \<open>The bounded wait for pending register updates: at most \<open>n\<close> further polls.\<close>

fun iwdg_wait :: "'h bus \<Rightarrow> nat \<Rightarrow> 'h \<Rightarrow> 'h" where
  "iwdg_wait B n h = (case bus_rd B h IWDG_SR of (v, h) \<Rightarrow>
     if v \<noteq> 0 then (case n of 0 \<Rightarrow> h | Suc m \<Rightarrow> iwdg_wait B m h) else h)"

declare iwdg_wait.simps [simp del]

definition iwdg_init :: "'h bus \<Rightarrow> 'h \<Rightarrow> 'h" where
  "iwdg_init B h =
     (let h = bus_wr B h IWDG_KR IWDG_KR_KEY_ACCESS;
          h = iwdg_wait B 1000 h;
          h = bus_wr B h IWDG_PR IWDG_PR_DIV256;
          h = bus_wr B h IWDG_RLR IWDG_RLR_10S;
          h = bus_wr B h IWDG_KR IWDG_KR_KEY_RELOAD
      in bus_wr B h IWDG_KR IWDG_KR_KEY_ENABLE)"

definition iwdg_kick :: "'h bus \<Rightarrow> 'h \<Rightarrow> 'h" where
  "iwdg_kick B h = bus_wr B h IWDG_KR IWDG_KR_KEY_RELOAD"

end
