(* ===== verification/Flash_Hw.thy ===== *)
theory Flash_Hw
  imports Flash_Device Bus
begin

unbundle bit_operations_syntax

text \<open>
  \<^verbatim>\<open>bootloader/src/flash_driver.c\<close>, the hardware backend: register accesses to the flash
  controller of the STM32F407 and loads and stores in the flash array, over a \<open>bus\<close>.  The
  controller is not part of the repository; the locale \<open>flash_ctrl\<close> states what the
  reference manual says of it and the driver relies on, and under these laws the backend is a
  \<open>flash_device\<close>, so that what is proved over that interface holds on hardware.
\<close>

section \<open>Registers\<close>

definition FLASH_R_BASE :: u32 where "FLASH_R_BASE = 0x40023C00"
definition FLASH_KEYR :: u32 where "FLASH_KEYR = FLASH_R_BASE + 0x04"
definition FLASH_SR :: u32 where "FLASH_SR = FLASH_R_BASE + 0x0C"
definition FLASH_CR :: u32 where "FLASH_CR = FLASH_R_BASE + 0x10"
definition FLASH_KEY1 :: u32 where "FLASH_KEY1 = 0x45670123"
definition FLASH_KEY2 :: u32 where "FLASH_KEY2 = 0xCDEF89AB"
definition FLASH_SR_BSY :: u32 where "FLASH_SR_BSY = push_bit 16 1"
definition FLASH_SR_PGSERR :: u32 where "FLASH_SR_PGSERR = push_bit 7 1"
definition FLASH_SR_PGPERR :: u32 where "FLASH_SR_PGPERR = push_bit 6 1"
definition FLASH_SR_PGAERR :: u32 where "FLASH_SR_PGAERR = push_bit 5 1"
definition FLASH_SR_WRPERR :: u32 where "FLASH_SR_WRPERR = push_bit 4 1"
definition FLASH_SR_OPERR :: u32 where "FLASH_SR_OPERR = push_bit 1 1"
definition FLASH_SR_EOP :: u32 where "FLASH_SR_EOP = 1"
definition FLASH_SR_ERR_MASK :: u32 where
  "FLASH_SR_ERR_MASK = FLASH_SR_PGSERR OR FLASH_SR_PGPERR OR FLASH_SR_PGAERR OR FLASH_SR_WRPERR OR FLASH_SR_OPERR"
definition FLASH_CR_PG :: u32 where "FLASH_CR_PG = 1"
definition FLASH_CR_SER :: u32 where "FLASH_CR_SER = push_bit 1 1"
definition FLASH_CR_STRT :: u32 where "FLASH_CR_STRT = push_bit 16 1"
definition FLASH_CR_LOCK :: u32 where "FLASH_CR_LOCK = push_bit 31 1"
definition FLASH_CR_PSIZE_X32 :: u32 where "FLASH_CR_PSIZE_X32 = push_bit 8 2"
definition FLASH_CR_SNB_POS :: nat where "FLASH_CR_SNB_POS = 3"
definition FLASH_CR_SNB_MSK :: u32 where "FLASH_CR_SNB_MSK = push_bit FLASH_CR_SNB_POS 0xF"

text \<open>The mass-erase bit, which the driver never writes by name.\<close>

definition FLASH_CR_MER :: u32 where "FLASH_CR_MER = push_bit 2 1"

section \<open>The driver\<close>

text \<open>A load from the flash array; no caller loads elsewhere, where the model answers 0xFF.\<close>

definition hw_load :: "'h bus \<Rightarrow> 'h \<Rightarrow> mem" where
  "hw_load B h x = (if in_flash x then bus_rd8 B h x else 0xFF)"

text \<open>The bounded poll: \<open>n\<close> polls are left, \<open>i\<close> is the loop counter.\<close>

fun wait_busy_loop :: "'h bus \<Rightarrow> nat \<Rightarrow> u32 \<Rightarrow> 'h \<Rightarrow> flash_status_t \<times> 'h" where
  "wait_busy_loop B 0 i h = (FLASH_ERR_BUSY, h)"
| "wait_busy_loop B (Suc n) i h =
     (case bus_rd B h FLASH_SR of (sr, h) \<Rightarrow>
      if sr AND FLASH_SR_BSY = 0 then
        (case bus_rd B h FLASH_SR of (sr, h) \<Rightarrow>
           if sr AND FLASH_SR_ERR_MASK \<noteq> 0
           then (FLASH_ERR_PROG, reg_or B FLASH_SR FLASH_SR_ERR_MASK h)
           else (FLASH_OK, h))
      else wait_busy_loop B n (i + 1) (if i AND 0xFFFF = 0 then iwdg_kick B h else h))"

definition wait_busy :: "'h bus \<Rightarrow> 'h \<Rightarrow> flash_status_t \<times> 'h" where
  "wait_busy B h = wait_busy_loop B 5000000 0 h"

definition hw_flash_init :: "'h bus \<Rightarrow> 'h \<Rightarrow> flash_status_t \<times> 'h" where
  "hw_flash_init B h = (FLASH_OK, reg_or B FLASH_SR (FLASH_SR_ERR_MASK OR FLASH_SR_EOP) h)"

definition flash_unlock :: "'h bus \<Rightarrow> 'h \<Rightarrow> flash_status_t \<times> 'h" where
  "flash_unlock B h =
     (case bus_rd B h FLASH_CR of (cr, h) \<Rightarrow>
      if cr AND FLASH_CR_LOCK = 0 then (FLASH_OK, h)
      else let h = bus_wr B h FLASH_KEYR FLASH_KEY1;
               h = bus_wr B h FLASH_KEYR FLASH_KEY2
           in case bus_rd B h FLASH_CR of (cr, h) \<Rightarrow>
                if cr AND FLASH_CR_LOCK \<noteq> 0 then (FLASH_ERR_LOCKED, h) else (FLASH_OK, h))"

definition flash_lock :: "'h bus \<Rightarrow> 'h \<Rightarrow> 'h" where
  "flash_lock B h = reg_or B FLASH_CR FLASH_CR_LOCK h"

text \<open>The check that an erased sector reads as 0xFF, with \<open>n\<close> bytes to go.\<close>

fun erase_verify :: "'h bus \<Rightarrow> u32 \<Rightarrow> nat \<Rightarrow> nat \<Rightarrow> 'h \<Rightarrow> flash_status_t \<times> 'h" where
  "erase_verify B p 0 i h = (FLASH_OK, h)"
| "erase_verify B p (Suc n) i h =
     (if hw_load B h (p + of_nat i) \<noteq> 0xFF then (FLASH_ERR_VERIFY, h)
      else erase_verify B p n (Suc i) (if (of_nat i :: u32) AND 0xFFF = 0 then iwdg_kick B h else h))"

definition hw_erase_sector :: "'h bus \<Rightarrow> 'h \<Rightarrow> u32 \<Rightarrow> flash_status_t \<times> 'h" where
  "hw_erase_sector B h sector_start_addr =
     (let idx = sector_index_for_addr sector_start_addr in
      if idx < 0 \<or> k_sector_start ! nat idx \<noteq> sector_start_addr then (FLASH_ERR_RANGE, h) else
      case wait_busy B h of (s, h) \<Rightarrow>
      if s \<noteq> FLASH_OK then (s, h) else
      case flash_unlock B h of (s, h) \<Rightarrow>
      if s \<noteq> FLASH_OK then (s, h) else
      case bus_rd B h FLASH_CR of (cr, h) \<Rightarrow>
      let cr = cr AND NOT (FLASH_CR_SNB_MSK OR FLASH_CR_PG);
          cr = cr OR (FLASH_CR_SER OR push_bit FLASH_CR_SNB_POS (of_int idx) OR FLASH_CR_PSIZE_X32);
          h = bus_wr B h FLASH_CR cr;
          h = bus_wr B h FLASH_CR (cr OR FLASH_CR_STRT)
      in case wait_busy B h of (s, h) \<Rightarrow>
      let h = reg_clear B FLASH_CR (FLASH_CR_SER OR FLASH_CR_SNB_MSK) h
      in if s = FLASH_OK then erase_verify B sector_start_addr (unat (k_sector_size ! nat idx)) 0 h
         else (s, h))"

lemma hw_erase_sector_okD:
  assumes "hw_erase_sector B h start = (FLASH_OK, h')"
  shows "0 \<le> sector_index_for_addr start" "k_sector_start ! nat (sector_index_for_addr start) = start"
  using assms by (auto simp: hw_erase_sector_def Let_def split: if_splits)

function hw_erase_loop :: "'h bus \<Rightarrow> u32 \<Rightarrow> u32 \<Rightarrow> 'h \<Rightarrow> flash_status_t \<times> 'h" where
  "hw_erase_loop B start stop h =
     (if start < stop
      then (case hw_erase_sector B h start of (s, h) \<Rightarrow>
              if s \<noteq> FLASH_OK then (s, h)
              else hw_erase_loop B (start + flash_sector_size start) stop (iwdg_kick B h))
      else (FLASH_OK, h))"
  by pat_completeness auto
termination
proof (relation "measure (\<lambda>(B, start, stop, h). 2 ^ 32 - unat start)")
  fix B :: "'h bus" and start stop :: u32 and h s h1
  assume "(s, h1) = hw_erase_sector B h start" "\<not> s \<noteq> FLASH_OK"
  then have ok: "hw_erase_sector B h start = (FLASH_OK, h1)" by simp
  obtain j where j: "j < 12" "unat start = sector_bound j"
    "unat (start + flash_sector_size start) = sector_bound (Suc j)"
    using sector_step [OF hw_erase_sector_okD [OF ok]] by metis
  then have "unat start < unat (start + flash_sector_size start)" using sector_bound_Suc(2) by simp
  moreover have "unat (start + flash_sector_size start) \<le> 0x08100000"
    using j sector_bound_limits [of "Suc j"] by simp
  ultimately show "((B, start + flash_sector_size start, stop, iwdg_kick B h1), (B, start, stop, h))
      \<in> measure (\<lambda>(B, start, stop, h). 2 ^ 32 - unat start)"
    by simp
qed auto

declare hw_erase_loop.simps [simp del]

definition hw_erase_range :: "'h bus \<Rightarrow> 'h \<Rightarrow> u32 \<Rightarrow> u32 \<Rightarrow> flash_status_t \<times> 'h" where
  "hw_erase_range B h addr sz =
     (if sz = 0 then (FLASH_OK, h) else hw_erase_loop B (flash_sector_start addr) (addr + sz) h)"

definition hw_program_word :: "'h bus \<Rightarrow> 'h \<Rightarrow> u32 \<Rightarrow> u32 \<Rightarrow> flash_status_t \<times> 'h" where
  "hw_program_word B h addr val =
     (if addr AND 3 \<noteq> 0 then (FLASH_ERR_RANGE, h) else
      case wait_busy B h of (s, h) \<Rightarrow>
      if s \<noteq> FLASH_OK then (s, h) else
      case flash_unlock B h of (s, h) \<Rightarrow>
      if s \<noteq> FLASH_OK then (s, h) else
      case bus_rd B h FLASH_CR of (cr, h) \<Rightarrow>
      let h = bus_wr B h FLASH_CR ((cr AND NOT FLASH_CR_SER) OR FLASH_CR_PG OR FLASH_CR_PSIZE_X32);
          h = bus_wr B h addr val
      in case wait_busy B h of (s, h) \<Rightarrow>
      let h = reg_clear B FLASH_CR FLASH_CR_PG h
      in if s = FLASH_OK
         then (case bus_rd B h addr of (w, h) \<Rightarrow> (if w \<noteq> val then FLASH_ERR_VERIFY else s, h))
         else (s, h))"

text \<open>The word phase returns how far it came and the bytes that are left.\<close>

fun word_phase :: "'h bus \<Rightarrow> u32 \<Rightarrow> nat \<Rightarrow> u8 list \<Rightarrow> 'h \<Rightarrow> flash_status_t \<times> nat \<times> u8 list \<times> 'h" where
  "word_phase B addr i (b0 # b1 # b2 # b3 # ds) h =
     (if (addr + of_nat i) AND 3 = 0 then
        (case hw_program_word B h (addr + of_nat i)
           (ucast b0 OR push_bit 8 (ucast b1) OR push_bit 16 (ucast b2) OR push_bit 24 (ucast b3)) of (s, h) \<Rightarrow>
         if s \<noteq> FLASH_OK then (s, i, b0 # b1 # b2 # b3 # ds, flash_lock B h)
         else word_phase B addr (i + 4) ds (if (of_nat i :: u32) AND 0xFF = 0 then iwdg_kick B h else h))
      else (FLASH_OK, i, b0 # b1 # b2 # b3 # ds, h))"
| "word_phase B addr i ds h = (FLASH_OK, i, ds, h)"

fun byte_phase :: "'h bus \<Rightarrow> u32 \<Rightarrow> nat \<Rightarrow> u8 list \<Rightarrow> 'h \<Rightarrow> flash_status_t \<times> 'h" where
  "byte_phase B addr i [] h = (FLASH_OK, h)"
| "byte_phase B addr i (b # ds) h =
     (case wait_busy B h of (s, h) \<Rightarrow>
      if s \<noteq> FLASH_OK then (s, flash_lock B h) else
      case bus_rd B h FLASH_CR of (cr, h) \<Rightarrow>
      let h = bus_wr B h FLASH_CR ((cr AND NOT FLASH_CR_SER) OR FLASH_CR_PG);
          h = bus_wr8 B h (addr + of_nat i) b
      in case wait_busy B h of (s, h) \<Rightarrow>
      let h = reg_clear B FLASH_CR FLASH_CR_PG h
      in if s \<noteq> FLASH_OK then (s, flash_lock B h)
         else if hw_load B h (addr + of_nat i) \<noteq> b then (FLASH_ERR_VERIFY, flash_lock B h)
         else byte_phase B addr (Suc i) ds h)"

definition hw_program_bytes :: "'h bus \<Rightarrow> 'h \<Rightarrow> u32 \<Rightarrow> u8 list \<Rightarrow> flash_status_t \<times> 'h" where
  "hw_program_bytes B h addr data =
     (case flash_unlock B h of (s, h) \<Rightarrow>
      if s \<noteq> FLASH_OK then (s, h) else
      case word_phase B addr 0 data h of (s, i, data, h) \<Rightarrow>
      if s \<noteq> FLASH_OK then (s, h) else
      case byte_phase B addr i data h of (s, h) \<Rightarrow>
      if s \<noteq> FLASH_OK then (s, h) else (FLASH_OK, flash_lock B h))"

definition hw_read :: "'h bus \<Rightarrow> 'h \<Rightarrow> u32 \<Rightarrow> u32 \<Rightarrow> flash_status_t \<times> u8 list" where
  "hw_read B h addr sz = (FLASH_OK, map (\<lambda>i. hw_load B h (addr + of_nat i)) [0..<unat sz])"

definition hw_get_ptr :: "u32 \<Rightarrow> u32" where "hw_get_ptr addr = addr"

definition hw_ota_slot_span :: u32 where "hw_ota_slot_span = SLOT_SIZE"

definition hw_ops :: "'h bus \<Rightarrow> 'h flash_ops" where
  "hw_ops B = \<lparr> fl_read = hw_read B, fl_erase_range = hw_erase_range B,
     fl_program_bytes = hw_program_bytes B, fl_program_word = hw_program_word B,
     fl_ota_slot_span = hw_ota_slot_span, fl_cpu_load = hw_load B \<rparr>"

section \<open>What the driver relies on\<close>

lemmas hw_regs = FLASH_R_BASE_def FLASH_KEYR_def FLASH_SR_def FLASH_CR_def IWDG_KR_def in_flash_def layout_simps

text \<open>Tests of single bits.\<close>

lemma cr_bits:
  "v AND FLASH_CR_STRT = 0 \<longleftrightarrow> \<not> bit v 16" "v AND FLASH_CR_SER = 0 \<longleftrightarrow> \<not> bit v 1"
  "v AND FLASH_CR_MER = 0 \<longleftrightarrow> \<not> bit v 2" "v AND FLASH_CR_LOCK = 0 \<longleftrightarrow> \<not> bit v 31"
  using and_exp_eq_0_iff_not_bit [of v 16] and_exp_eq_0_iff_not_bit [of v 1]
    and_exp_eq_0_iff_not_bit [of v 2] and_exp_eq_0_iff_not_bit [of v 31]
  by (simp_all add: FLASH_CR_STRT_def FLASH_CR_SER_def FLASH_CR_MER_def FLASH_CR_LOCK_def push_bit_of_1)

text \<open>
  From the reference manual (RM0090, embedded flash memory interface), about the bytes a load
  from flash returns: accesses to registers do not change them, except that a store to the
  control register that sets STRT together with SER may change those of the selected sector;
  a store into flash changes at most the bytes it addresses; a word load is four byte loads.
  Loads from flash and stores to the control register wait for the end of the operation under
  way, so the bytes spoken of are those after it.  STRT stays set while an erase runs and is
  cleared together with BSY: \<open>ready\<close> holds of the states in which nothing is under way; the
  controller is in one of them once the status register has shown BSY clear, stays there over
  loads and over stores outside flash and the control register, and there the control register
  shows STRT clear.  Storing back the erase selection just read (as \<open>flash_lock\<close> does, perhaps
  while an erase runs) at most erases the same sector once more.  MER, which nobody sets, reads
  as clear.  The last law is the driver's own assumption: every operation ends within the polls
  of \<open>wait_busy\<close>.  (After a wait that ran out, \<open>flash_erase_sector\<close> would clear SER and SNB while
  storing STRT back, a store the manual gives no meaning.)
\<close>

locale flash_ctrl =
  fixes B :: "'h bus" and ready :: "'h \<Rightarrow> bool"
  assumes rd_keep: "in_flash x \<Longrightarrow> bus_rd8 B (snd (bus_rd B h a)) x = bus_rd8 B h x"
    and wr_keep: "\<not> in_flash a \<Longrightarrow> a \<noteq> FLASH_CR \<Longrightarrow> in_flash x \<Longrightarrow> bus_rd8 B (bus_wr B h a v) x = bus_rd8 B h x"
    and cr_keep: "v AND FLASH_CR_STRT = 0 \<Longrightarrow> in_flash x \<Longrightarrow> bus_rd8 B (bus_wr B h FLASH_CR v) x = bus_rd8 B h x"
    and cr_erase: "v AND FLASH_CR_SER \<noteq> 0 \<Longrightarrow> v AND FLASH_CR_MER = 0
          \<Longrightarrow> j = unat (drop_bit FLASH_CR_SNB_POS (v AND FLASH_CR_SNB_MSK)) \<Longrightarrow> j < 12 \<Longrightarrow> in_flash x
          \<Longrightarrow> \<not> (sector_bound j \<le> unat x \<and> unat x < sector_bound (Suc j))
          \<Longrightarrow> bus_rd8 B (bus_wr B h FLASH_CR v) x = bus_rd8 B h x"
    and cr_again: "bus_rd B h FLASH_CR = (v, h')
          \<Longrightarrow> w AND (FLASH_CR_SER OR FLASH_CR_SNB_MSK OR FLASH_CR_STRT OR FLASH_CR_MER)
            = v AND (FLASH_CR_SER OR FLASH_CR_SNB_MSK OR FLASH_CR_STRT OR FLASH_CR_MER)
          \<Longrightarrow> in_flash x \<Longrightarrow> bus_rd8 B (bus_wr B h' FLASH_CR w) x = bus_rd8 B h x"
    and cr_mer: "fst (bus_rd B h FLASH_CR) AND FLASH_CR_MER = 0"
    and cr_strt: "ready h \<Longrightarrow> fst (bus_rd B h FLASH_CR) AND FLASH_CR_STRT = 0"
    and sr_ready: "bus_rd B h FLASH_SR = (v, h') \<Longrightarrow> v AND FLASH_SR_BSY = 0 \<Longrightarrow> ready h'"
    and rd_ready: "ready h \<Longrightarrow> ready (snd (bus_rd B h a))"
    and wr_ready: "ready h \<Longrightarrow> \<not> in_flash a \<Longrightarrow> a \<noteq> FLASH_CR \<Longrightarrow> ready (bus_wr B h a v)"
    and word_store: "flash_range a 4 \<Longrightarrow> a AND 3 = 0 \<Longrightarrow> in_flash x \<Longrightarrow> \<not> in_range a 4 x
          \<Longrightarrow> bus_rd8 B (bus_wr B h a v) x = bus_rd8 B h x"
    and byte_store: "in_flash a \<Longrightarrow> in_flash x \<Longrightarrow> x \<noteq> a \<Longrightarrow> bus_rd8 B (bus_wr8 B h a b) x = bus_rd8 B h x"
    and word_load: "flash_range a 4 \<Longrightarrow> a AND 3 = 0 \<Longrightarrow> fst (bus_rd B h a) = rd_u32_le (mem_bytes (bus_rd8 B h) a 4)"
    and timely: "fst (wait_busy B h) \<noteq> FLASH_ERR_BUSY"
begin

text \<open>Register traffic leaves what loads return as it is.\<close>

lemma byte_rd: "hw_load B (snd (bus_rd B h a)) = hw_load B h"
  by (rule ext) (simp add: hw_load_def rd_keep)

lemma byte_rdD: "bus_rd B h a = (v, h') \<Longrightarrow> hw_load B h' = hw_load B h"
  using byte_rd [of h a] by simp

lemma byte_wr: "\<not> in_flash a \<Longrightarrow> a \<noteq> FLASH_CR \<Longrightarrow> hw_load B (bus_wr B h a v) = hw_load B h"
  by (rule ext) (simp add: hw_load_def wr_keep)

lemma byte_cr: "\<not> bit v 16 \<Longrightarrow> hw_load B (bus_wr B h FLASH_CR v) = hw_load B h"
  by (rule ext) (simp add: hw_load_def cr_keep cr_bits)

lemma cr_readD: "bus_rd B h FLASH_CR = (v, h') \<Longrightarrow> ready h \<Longrightarrow> \<not> bit v 16 \<and> \<not> bit v 2 \<and> ready h'"
  using cr_strt [of h] cr_mer [of h] rd_ready [of h FLASH_CR] by (auto simp: cr_bits)

lemma byte_kick [simp]: "hw_load B (iwdg_kick B h) = hw_load B h"
  unfolding iwdg_kick_def by (rule byte_wr) (simp_all add: hw_regs)

lemma byte_sr_or [simp]: "hw_load B (reg_or B FLASH_SR m h) = hw_load B h"
  by (auto simp: reg_or_def byte_wr hw_regs split: prod.split dest: byte_rdD)

lemma byte_lock [simp]: "hw_load B (flash_lock B h) = hw_load B h"
proof -
  obtain v h' where r: "bus_rd B h FLASH_CR = (v, h')" by fastforce
  have "(v OR FLASH_CR_LOCK) AND (FLASH_CR_SER OR FLASH_CR_SNB_MSK OR FLASH_CR_STRT OR FLASH_CR_MER)
      = v AND (FLASH_CR_SER OR FLASH_CR_SNB_MSK OR FLASH_CR_STRT OR FLASH_CR_MER)"
    unfolding bit.conj_disj_distrib2 by (simp add: FLASH_CR_LOCK_def FLASH_CR_SER_def
        FLASH_CR_SNB_MSK_def FLASH_CR_SNB_POS_def FLASH_CR_STRT_def FLASH_CR_MER_def)
  from cr_again [OF r this] show ?thesis by (auto simp: flash_lock_def reg_or_def r hw_load_def)
qed

lemma byte_cr_clear: "ready h \<Longrightarrow> hw_load B (reg_clear B FLASH_CR m h) = hw_load B h"
  by (auto simp: reg_clear_def bit_simps split: prod.split
      dest: byte_rdD cr_readD intro!: byte_cr [THEN trans])

text \<open>Waiting ends in a ready controller.\<close>

lemma ready_sr_or: "ready h \<Longrightarrow> ready (reg_or B FLASH_SR m h)"
  using rd_ready [of h FLASH_SR] by (auto simp: reg_or_def hw_regs intro!: wr_ready split: prod.split)

lemma wait_loop_ready:
  "wait_busy_loop B n i h = (s, h') \<Longrightarrow> s \<noteq> FLASH_ERR_BUSY \<Longrightarrow> ready h'"
proof (induction n arbitrary: i h)
  case (Suc n)
  obtain v h1 where r: "bus_rd B h FLASH_SR = (v, h1)" by fastforce
  show ?case
  proof (cases "v AND FLASH_SR_BSY = 0")
    case True
    have "ready h1" by (rule sr_ready [OF r True])
    then show ?thesis
      using Suc.prems(1) True r rd_ready [of h1 FLASH_SR]
      by (auto simp: ready_sr_or split: prod.splits if_splits)
  next
    case False
    then have "wait_busy_loop B n (i + 1) (if i AND 0xFFFF = 0 then iwdg_kick B h1 else h1) = (s, h')"
      using Suc.prems(1) r by simp
    then show ?thesis using Suc.IH Suc.prems(2) by blast
  qed
qed simp

lemma wait_ready: "wait_busy B h = (s, h') \<Longrightarrow> ready h'"
  using wait_loop_ready [of 5000000 0 h s h'] timely [of h] by (simp add: wait_busy_def)

lemma unlock_ready: "flash_unlock B h = (s, h') \<Longrightarrow> ready h \<Longrightarrow> ready h'"
proof -
  assume u: "flash_unlock B h = (s, h')" and h: "ready h"
  obtain v h1 where r1: "bus_rd B h FLASH_CR = (v, h1)" by fastforce
  define h3 where "h3 = bus_wr B (bus_wr B h1 FLASH_KEYR FLASH_KEY1) FLASH_KEYR FLASH_KEY2"
  obtain w h4 where r2: "bus_rd B h3 FLASH_CR = (w, h4)" by fastforce
  have h1: "ready h1" using rd_ready [OF h, of FLASH_CR] by (simp add: r1)
  then have "ready h3" unfolding h3_def by (intro wr_ready) (simp_all add: hw_regs)
  then have "ready h4" using rd_ready [of h3 FLASH_CR] by (simp add: r2)
  moreover have "h' = h1 \<or> h' = h4"
    using u by (auto simp: flash_unlock_def Let_def r1 h3_def [symmetric] r2 split: if_splits)
  ultimately show "ready h'" using h1 by auto
qed

lemma byte_wait_loop: "hw_load B (snd (wait_busy_loop B n i h)) = hw_load B h"
  by (induction n arbitrary: i h) (auto split: prod.split dest!: byte_rdD)

lemma byte_waitD: "wait_busy B h = (s, h') \<Longrightarrow> hw_load B h' = hw_load B h"
  using byte_wait_loop [of 5000000 0 h] by (simp add: wait_busy_def)

lemma byte_unlockD: "flash_unlock B h = (s, h') \<Longrightarrow> hw_load B h' = hw_load B h"
  by (auto simp: flash_unlock_def Let_def byte_wr hw_regs split: prod.splits if_splits dest!: byte_rdD)

text \<open>The verification loop answers for every byte of the sector.\<close>

lemma erase_verify_ok:
  "erase_verify B p n i h = (s, h') \<Longrightarrow> hw_load B h' = hw_load B h
    \<and> (s = FLASH_OK \<longrightarrow> (\<forall>k<n. hw_load B h (p + of_nat (i + k)) = 0xFF))"
proof (induction n arbitrary: i h)
  case (Suc n)
  show ?case
  proof (cases "hw_load B h (p + of_nat i) = 0xFF")
    case True
    let ?h = "if (of_nat i :: u32) AND 0xFFF = 0 then iwdg_kick B h else h"
    have b: "hw_load B ?h = hw_load B h" by simp
    have "erase_verify B p n (Suc i) ?h = (s, h')" using Suc.prems True by simp
    from Suc.IH [OF this] have IH: "hw_load B h' = hw_load B h"
      "s = FLASH_OK \<Longrightarrow> k < n \<Longrightarrow> hw_load B h (p + of_nat (Suc i + k)) = 0xFF" for k
      unfolding b by blast+
    show ?thesis
    proof (intro conjI impI allI)
      fix k assume "s = FLASH_OK" "k < Suc n"
      then show "hw_load B h (p + of_nat (i + k)) = 0xFF"
        using IH(2) [of "k - 1"] True by (cases k) simp_all
    qed (rule IH(1))
  next
    case False
    then show ?thesis using Suc.prems by auto
  qed
qed simp

text \<open>The value that starts an erase selects the sector of the loop's index.\<close>

lemma erase_cr:
  fixes c :: u32
  assumes "j < 12"
  defines "cr \<equiv> (c AND NOT (FLASH_CR_SNB_MSK OR FLASH_CR_PG))
      OR (FLASH_CR_SER OR push_bit FLASH_CR_SNB_POS (of_int (int j)) OR FLASH_CR_PSIZE_X32)"
  shows "unat (drop_bit FLASH_CR_SNB_POS ((cr OR FLASH_CR_STRT) AND FLASH_CR_SNB_MSK)) = j"
    and "bit cr 1" "\<not> bit c 16 \<Longrightarrow> \<not> bit cr 16" "\<not> bit c 2 \<Longrightarrow> \<not> bit cr 2"
proof -
  have t: "list_all (\<lambda>j. push_bit 3 (of_nat j :: u32) AND 0x78 = push_bit 3 (of_nat j)
      \<and> unat (drop_bit 3 (push_bit 3 (of_nat j :: u32))) = j \<and> \<not> bit (push_bit 3 (of_nat j :: u32)) 16
      \<and> \<not> bit (push_bit 3 (of_nat j :: u32)) 2) [0..<12]"
    by (simp add: upt_rec)
  have "j \<in> {0..<12}" using assms(1) by simp
  note q = bspec [OF t [unfolded list_all_iff set_upt] this]
  have j: "push_bit 3 (of_nat j :: u32) AND 0x78 = push_bit 3 (of_nat j)"
    "unat (drop_bit 3 (push_bit 3 (of_nat j :: u32))) = j" "\<not> bit (push_bit 3 (of_nat j :: u32)) 16"
    "\<not> bit (push_bit 3 (of_nat j :: u32)) 2"
    using q by blast+
  have m: "FLASH_CR_SNB_MSK = 0x78" "FLASH_CR_PG = 1" "FLASH_CR_SER = 2" "FLASH_CR_PSIZE_X32 = 0x200"
    "FLASH_CR_STRT = 0x10000" "FLASH_CR_SNB_POS = 3"
    by (simp_all add: FLASH_CR_SNB_MSK_def FLASH_CR_SNB_POS_def FLASH_CR_PG_def FLASH_CR_SER_def
        FLASH_CR_PSIZE_X32_def FLASH_CR_STRT_def)
  have "(c AND NOT (p OR q)) AND p = 0" for p q :: u32 by (rule bit_eqI) (auto simp: bit_simps)
  then have c0: "(c AND NOT (0x78 OR 1)) AND 0x78 = 0" .
  have "(cr OR FLASH_CR_STRT) AND FLASH_CR_SNB_MSK = push_bit 3 (of_nat j)"
    unfolding cr_def m bit.conj_disj_distrib2 c0 by (simp add: j(1))
  then show "unat (drop_bit FLASH_CR_SNB_POS ((cr OR FLASH_CR_STRT) AND FLASH_CR_SNB_MSK)) = j"
    by (simp add: m j(2))
  show "bit cr 1" by (simp add: cr_def m bit_simps)
  show "\<not> bit cr 16" if "\<not> bit c 16" using that j(3) by (simp add: cr_def m bit_simps)
  show "\<not> bit cr 2" if "\<not> bit c 2" using that j(4) by (simp add: cr_def m bit_simps)
qed

lemma byte_cr_erase:
  assumes "bit v 1" "\<not> bit v 2" "unat (drop_bit FLASH_CR_SNB_POS (v AND FLASH_CR_SNB_MSK)) = j" "j < 12"
    and "\<not> (sector_bound j \<le> unat x \<and> unat x < sector_bound (Suc j))"
  shows "hw_load B (bus_wr B h FLASH_CR v) x = hw_load B h x"
  using cr_erase [of v j x h] assms by (simp add: hw_load_def cr_bits)

lemma erase_sector_effect:
  assumes e: "hw_erase_sector B h a = (s, h')" and j: "j < 12" "unat a = sector_bound j"
  shows "\<not> (sector_bound j \<le> unat x \<and> unat x < sector_bound (Suc j)) \<Longrightarrow> hw_load B h' x = hw_load B h x"
    and "s = FLASH_OK \<Longrightarrow> sector_bound j \<le> unat x \<Longrightarrow> unat x < sector_bound (Suc j) \<Longrightarrow> hw_load B h' x = 0xFF"
proof -
  have idx: "sector_index_for_addr a = int j"
    by (rule sector_index_in) (use j sector_bound_Suc(2) [of j] in simp_all)
  have a: "k_sector_start ! j = a" using sector_start_bound [OF j(1)] j(2) by (simp add: word_unat_eq_iff)
  obtain s1 h1 where w1: "wait_busy B h = (s1, h1)" by fastforce
  obtain s2 h2 where u: "flash_unlock B h1 = (s2, h2)" by fastforce
  obtain c h3 where r: "bus_rd B h2 FLASH_CR = (c, h3)" by fastforce
  define cr where "cr = (c AND NOT (FLASH_CR_SNB_MSK OR FLASH_CR_PG))
      OR (FLASH_CR_SER OR push_bit FLASH_CR_SNB_POS (of_int (int j)) OR FLASH_CR_PSIZE_X32)"
  define h5 where "h5 = bus_wr B (bus_wr B h3 FLASH_CR cr) FLASH_CR (cr OR FLASH_CR_STRT)"
  obtain s6 h6 where w2: "wait_busy B h5 = (s6, h6)" by fastforce
  let ?h7 = "reg_clear B FLASH_CR (FLASH_CR_SER OR FLASH_CR_SNB_MSK) h6"
  have run: "(s, h') = (if s1 \<noteq> FLASH_OK then (s1, h1) else if s2 \<noteq> FLASH_OK then (s2, h2)
      else if s6 = FLASH_OK then erase_verify B a (unat (k_sector_size ! j)) 0 ?h7 else (s6, ?h7))"
    using e unfolding hw_erase_sector_def Let_def idx nat_int a w1 prod.case u r cr_def [symmetric]
      h5_def [symmetric] w2 by (simp split: if_splits)
  note c = cr_readD [OF r unlock_ready [OF u wait_ready [OF w1]]]
  note b = erase_cr [OF j(1), where c = c, folded cr_def]
  have early: "hw_load B h1 = hw_load B h" "hw_load B h2 = hw_load B h" "hw_load B h3 = hw_load B h"
    using byte_waitD [OF w1] byte_unlockD [OF u] byte_rdD [OF r] by simp_all
  have late: "hw_load B ?h7 = hw_load B h5" using byte_waitD [OF w2] byte_cr_clear [OF wait_ready [OF w2]] by simp
  have strt: "bit (cr OR FLASH_CR_STRT) 1" "\<not> bit (cr OR FLASH_CR_STRT) 2"
    using b(2,4) c by (simp_all add: bit_simps FLASH_CR_STRT_def)
  have out: "hw_load B h5 x = hw_load B h x"
    if "\<not> (sector_bound j \<le> unat x \<and> unat x < sector_bound (Suc j))"
    using byte_cr_erase [OF strt b(1) j(1) that] byte_cr [of cr h3] b(3) c early(3) by (simp add: h5_def)
  show "hw_load B h' x = hw_load B h x" if x: "\<not> (sector_bound j \<le> unat x \<and> unat x < sector_bound (Suc j))"
    using run out [OF x] early late erase_verify_ok [of a "unat (k_sector_size ! j)" 0 ?h7 s h']
    by (auto split: if_splits)
  show "hw_load B h' x = 0xFF" if "s = FLASH_OK" "sector_bound j \<le> unat x" "unat x < sector_bound (Suc j)"
  proof -
    have ev: "erase_verify B a (unat (k_sector_size ! j)) 0 ?h7 = (s, h')"
      using run that(1) by (auto split: if_splits)
    let ?k = "unat (x - a)"
    have k: "?k = unat x - sector_bound j" using that(2) j(2) by (simp add: unat_sub word_le_nat_alt)
    have "?k < unat (k_sector_size ! j)" using that sector_bound_Suc(1) [OF j(1)] k by simp
    then have "hw_load B ?h7 (a + of_nat (0 + ?k)) = 0xFF"
      using erase_verify_ok [OF ev] that(1) by blast
    then show ?thesis using erase_verify_ok [OF ev] by simp
  qed
qed

lemma erase_sector_other:
  assumes "\<not> (\<exists>j<12. unat a = sector_bound j)"
  shows "hw_erase_sector B h a = (FLASH_ERR_RANGE, h)"
proof (rule ccontr)
  assume "hw_erase_sector B h a \<noteq> (FLASH_ERR_RANGE, h)"
  then have "0 \<le> sector_index_for_addr a" "k_sector_start ! nat (sector_index_for_addr a) = a"
    by (auto simp: hw_erase_sector_def Let_def split: if_splits)
  then show False by (rule sector_step) (use assms in blast)
qed

text \<open>The loop over sectors.\<close>

lemma erase_loop_effect:
  assumes "j \<le> 12" "unat start = sector_bound j" "hw_erase_loop B start stop h = (s, h')" "in_flash x"
  shows "(\<not> (sector_bound j \<le> unat x \<and> flash_sector_start x < stop) \<longrightarrow> hw_load B h' x = hw_load B h x)
    \<and> (s = FLASH_OK \<longrightarrow> sector_bound j \<le> unat x \<longrightarrow> flash_sector_start x < stop \<longrightarrow> hw_load B h' x = 0xFF)"
  using assms(1-3)
proof (induction "12 - j" arbitrary: j start h)
  case 0
  then have j: "j = 12" "unat start = 0x08100000" using sector_bound_12 by simp_all
  have "\<not> (\<exists>i<12. unat start = sector_bound i)"
    using sector_bound_mono [of _ 12] sector_bound_12 j(2) by fastforce
  then have "h' = h"
    using 0(4) by (subst (asm) hw_erase_loop.simps) (auto simp: erase_sector_other split: if_splits)
  moreover have "unat x < 0x08100000" using assms(4) by (simp add: in_flash_def)
  ultimately show ?case using j(1) sector_bound_12 by simp
next
  case (Suc n)
  then have j: "j < 12" by simp
  let ?next = "start + flash_sector_size start"
  note nxt = next_sector [OF j Suc.prems(2)]
  have ge: "sector_bound j \<le> unat (flash_sector_start x)" if "sector_bound j \<le> unat x"
    using sector_start_ge [OF that _ j] assms(4) by (simp add: in_flash_def)
  show ?case
  proof (cases "start < stop")
    case False
    then have "h' = h" using Suc.prems(3) by (subst (asm) hw_erase_loop.simps) simp
    then show ?thesis using ge False Suc.prems(2) by (auto simp: word_less_nat_alt)
  next
    case True
    obtain r h1 where e: "hw_erase_sector B h start = (r, h1)" by fastforce
    note ef = erase_sector_effect [OF e j Suc.prems(2), of x]
    have this_sector: "flash_sector_start x < stop"
      if "sector_bound j \<le> unat x" "unat x < sector_bound (Suc j)"
      using flash_sector_in(1) [OF j that] True Suc.prems(2) by (simp add: word_less_nat_alt)
    show ?thesis
    proof (cases "r = FLASH_OK")
      case False
      then have "s = r \<and> h' = h1" using Suc.prems(3) True e by (subst (asm) hw_erase_loop.simps) simp
      then show ?thesis using False ef this_sector by auto
    next
      case ok: True
      have "hw_erase_loop B ?next stop (iwdg_kick B h1) = (s, h')"
        using Suc.prems(3) True e ok by (subst (asm) hw_erase_loop.simps) simp
      from Suc.hyps(1) [OF _ _ nxt this] j Suc.hyps(2)
      have IH: "\<not> (sector_bound (Suc j) \<le> unat x \<and> flash_sector_start x < stop) \<longrightarrow> hw_load B h' x = hw_load B h1 x"
        "s = FLASH_OK \<longrightarrow> sector_bound (Suc j) \<le> unat x \<longrightarrow> flash_sector_start x < stop \<longrightarrow> hw_load B h' x = 0xFF"
        by simp_all
      have lt: "sector_bound j < sector_bound (Suc j)" by (rule sector_bound_Suc(2) [OF j])
      show ?thesis
      proof (cases "unat x < sector_bound (Suc j)")
        case True
        then show ?thesis using IH(1) ef ok this_sector by auto
      next
        case False
        then show ?thesis using IH ef(1) lt by auto
      qed
    qed
  qed
qed

lemma erase_range_effect:
  assumes e: "hw_erase_range B h a sz = (s, h')"
  shows "\<not> (erase_covers a sz x \<and> in_flash x) \<Longrightarrow> hw_load B h' x = hw_load B h x"
    and "s = FLASH_OK \<Longrightarrow> erase_covers a sz x \<Longrightarrow> hw_load B h' x = 0xFF"
proof -
  have both: "(\<not> erase_covers a sz x \<longrightarrow> hw_load B h' x = hw_load B h x)
      \<and> (s = FLASH_OK \<longrightarrow> erase_covers a sz x \<longrightarrow> hw_load B h' x = 0xFF)" if x: "in_flash x"
  proof (cases "sz = 0")
    case True
    then show ?thesis using e by (simp add: hw_erase_range_def erase_covers_def)
  next
    case False
    then have l: "hw_erase_loop B (flash_sector_start a) (a + sz) h = (s, h')"
      using e by (simp add: hw_erase_range_def)
    show ?thesis
    proof (rule flash_sector_start_cases [of a])
      assume 0: "flash_sector_start a = 0" "\<not> FLASH_BASE_ADDR \<le> a"
      have "\<not> (\<exists>j<12. unat (0 :: u32) = sector_bound j)"
        using sector_bound_limits by (metis (no_types) less_imp_le_nat unat_0 not_numeral_le_zero)
      then have "h' = h"
        using l 0(1) by (subst (asm) hw_erase_loop.simps) (auto simp: erase_sector_other split: if_splits)
      moreover have "s \<noteq> FLASH_OK \<or> \<not> erase_covers a sz x" using 0(2) by (simp add: erase_covers_def)
      ultimately show ?thesis by simp
    next
      fix j assume j: "j < 12" "unat (flash_sector_start a) = sector_bound j" "FLASH_BASE_ADDR \<le> a"
      have c: "erase_covers a sz x \<longleftrightarrow> sector_bound j \<le> unat x \<and> flash_sector_start x < a + sz"
        using x False j by (auto simp: erase_covers_def in_flash_def word_le_nat_alt)
      show ?thesis unfolding c using erase_loop_effect [OF _ j(2) l x] j(1) by simp
    qed
  qed
  show "hw_load B h' x = hw_load B h x" if "\<not> (erase_covers a sz x \<and> in_flash x)"
    using both that by (cases "in_flash x") (auto simp: hw_load_def)
  show "hw_load B h' x = 0xFF" if "s = FLASH_OK" "erase_covers a sz x"
    using both that by (cases "in_flash x") (auto simp: hw_load_def)
qed

text \<open>Programming: the frame, and the effect of a run that reads back what it wrote.\<close>

lemma write_from_reads:
  assumes "\<And>x. \<not> in_range a (length d) x \<Longrightarrow> m' x = m x" "mem_bytes m' a (length d) = d"
  shows "m' = mem_write m a d"
proof
  fix x
  show "m' x = mem_write m a d x"
  proof (cases "in_range a (length d) x")
    case True
    then have "m' x = mem_bytes m' a (length d) ! unat (x - a)" by (simp add: in_range_def)
    then show ?thesis using True assms(2) by (simp add: mem_write_def in_range_def)
  next
    case False
    then show ?thesis using assms(1) by (simp add: mem_write_other)
  qed
qed

lemma program_word_effect:
  assumes p: "hw_program_word B h a v = (s, h')" and r: "flash_range a 4"
  shows "\<not> in_range a 4 x \<Longrightarrow> hw_load B h' x = hw_load B h x"
    and "s = FLASH_OK \<Longrightarrow> hw_load B h' = mem_write (hw_load B h) a (le32 v)"
proof -
  have frame: "hw_load B h' x = hw_load B h x" if x: "\<not> in_range a 4 x" for x
  proof (cases "a AND 3 = 0")
    case True
    obtain s1 h1 where w1: "wait_busy B h = (s1, h1)" by fastforce
    obtain s2 h2 where u: "flash_unlock B h1 = (s2, h2)" by fastforce
    obtain c h3 where c: "bus_rd B h2 FLASH_CR = (c, h3)" by fastforce
    define h4 where "h4 = bus_wr B h3 FLASH_CR ((c AND NOT FLASH_CR_SER) OR FLASH_CR_PG OR FLASH_CR_PSIZE_X32)"
    obtain s5 h5 where w2: "wait_busy B (bus_wr B h4 a v) = (s5, h5)" by fastforce
    obtain w h7 where l: "bus_rd B (reg_clear B FLASH_CR FLASH_CR_PG h5) a = (w, h7)" by fastforce
    have early: "hw_load B h1 = hw_load B h" "hw_load B h2 = hw_load B h" "hw_load B h3 = hw_load B h"
      using byte_waitD [OF w1] byte_unlockD [OF u] byte_rdD [OF c] by simp_all
    have "hw_load B h4 = hw_load B h"
      unfolding h4_def using cr_readD [OF c unlock_ready [OF u wait_ready [OF w1]]] early
      by (subst byte_cr) (simp_all add: bit_simps FLASH_CR_PG_def FLASH_CR_PSIZE_X32_def)
    moreover have "hw_load B (bus_wr B h4 a v) x = hw_load B h4 x"
      using word_store [OF r True _ x] by (simp add: hw_load_def)
    ultimately have late: "hw_load B h5 x = hw_load B h x" using byte_waitD [OF w2] by simp
    have "h' = h1 \<or> h' = h2 \<or> h' = h7 \<or> h' = reg_clear B FLASH_CR FLASH_CR_PG h5"
      using p True by (simp add: hw_program_word_def Let_def w1 u c h4_def [symmetric] w2 l split: if_splits)
    then show ?thesis using early late byte_rdD [OF l] byte_cr_clear [OF wait_ready [OF w2]] by auto
  next
    case False
    then show ?thesis using p by (simp add: hw_program_word_def)
  qed
  then show "\<not> in_range a 4 x \<Longrightarrow> hw_load B h' x = hw_load B h x" .
  show "hw_load B h' = mem_write (hw_load B h) a (le32 v)" if ok: "s = FLASH_OK"
  proof (rule write_from_reads)
    have a: "a AND 3 = 0" using p ok by (auto simp: hw_program_word_def split: if_splits)
    obtain k where k: "bus_rd B k a = (v, h')"
      using p ok by (auto simp: hw_program_word_def Let_def split: prod.splits if_splits)
    have in4: "mem_bytes (hw_load B k) a 4 = mem_bytes (bus_rd8 B k) a 4"
      using flash_range_in(1) [OF r] by (intro nth_equalityI) (simp_all add: hw_load_def)
    have "v = rd_u32_le (mem_bytes (bus_rd8 B k) a 4)" using word_load [OF r a, of k] k by simp
    then have "le32 v = mem_bytes (hw_load B k) a 4"
      using le32_rd [of "mem_bytes (hw_load B k) a 4"] by (simp add: in4)
    then show "mem_bytes (hw_load B h') a (length (le32 v)) = le32 v" by (simp add: byte_rdD [OF k])
  qed (use frame in simp)
qed

lemma byte_phase_effect:
  assumes "byte_phase B a i ds h = (s, h')" "flash_range (a + of_nat i) (length ds)"
  shows "(\<forall>x. \<not> in_range (a + of_nat i) (length ds) x \<longrightarrow> hw_load B h' x = hw_load B h x)
    \<and> (s = FLASH_OK \<longrightarrow> hw_load B h' = mem_write (hw_load B h) (a + of_nat i) ds)"
  using assms
proof (induction ds arbitrary: i h)
  case Nil
  then show ?case by simp
next
  case (Cons b ds)
  let ?p = "a + of_nat i"
  have p: "in_flash ?p" using flash_range_in(1) [OF Cons.prems(2), of 0] by simp
  have rest: "flash_range (a + of_nat (Suc i)) (length ds)"
    using flash_range_sub [OF Cons.prems(2), of 1 "length ds"] by (simp add: ac_simps)
  have lim: "length (b # ds) \<le> 2 ^ 20" by (rule flash_range_length [OF Cons.prems(2)])
  have out: "\<not> in_range (a + of_nat (Suc i)) (length ds) x \<and> x \<noteq> ?p" if "\<not> in_range ?p (length (b # ds)) x" for x
    using not_in_range_parts [of ?p 1 "length ds" x] that lim by (auto simp: in_range_def ac_simps)
  obtain s1 h1 where w1: "wait_busy B h = (s1, h1)" by fastforce
  obtain c h2 where r: "bus_rd B h1 FLASH_CR = (c, h2)" by fastforce
  define h3 where "h3 = bus_wr8 B (bus_wr B h2 FLASH_CR ((c AND NOT FLASH_CR_SER) OR FLASH_CR_PG)) ?p b"
  obtain s4 h4 where w2: "wait_busy B h3 = (s4, h4)" by fastforce
  let ?h5 = "reg_clear B FLASH_CR FLASH_CR_PG h4"
  have run: "(s, h') = (if s1 \<noteq> FLASH_OK then (s1, flash_lock B h1)
      else if s4 \<noteq> FLASH_OK then (s4, flash_lock B ?h5)
      else if hw_load B ?h5 ?p \<noteq> b then (FLASH_ERR_VERIFY, flash_lock B ?h5)
      else byte_phase B a (Suc i) ds ?h5)"
    using Cons.prems(1) by (simp add: w1 r Let_def h3_def [symmetric] w2 split: if_splits)
  have cr: "hw_load B (bus_wr B h2 FLASH_CR ((c AND NOT FLASH_CR_SER) OR FLASH_CR_PG)) = hw_load B h"
    using cr_readD [OF r wait_ready [OF w1]] byte_rdD [OF r] byte_waitD [OF w1]
    by (subst byte_cr) (simp_all add: bit_simps FLASH_CR_PG_def)
  have st: "hw_load B ?h5 x = hw_load B h x" if "x \<noteq> ?p" for x
  proof -
    have "hw_load B h3 x = hw_load B (bus_wr B h2 FLASH_CR ((c AND NOT FLASH_CR_SER) OR FLASH_CR_PG)) x"
      unfolding h3_def using byte_store [OF p _ that] by (simp add: hw_load_def)
    then show ?thesis using byte_waitD [OF w2] byte_cr_clear [OF wait_ready [OF w2]] cr by simp
  qed
  have early: "hw_load B h1 = hw_load B h" by (rule byte_waitD [OF w1])
  show ?case
  proof (cases "s1 = FLASH_OK \<and> s4 = FLASH_OK \<and> hw_load B ?h5 ?p = b")
    case False
    then have "s \<noteq> FLASH_OK \<and> (h' = flash_lock B h1 \<or> h' = flash_lock B ?h5)"
      using run by (auto split: if_splits)
    then show ?thesis using early st out by auto
  next
    case True
    then have "byte_phase B a (Suc i) ds ?h5 = (s, h')" using run by simp
    from Cons.IH [OF this rest]
    have IH: "\<not> in_range (a + of_nat (Suc i)) (length ds) x \<Longrightarrow> hw_load B h' x = hw_load B ?h5 x"
      "s = FLASH_OK \<Longrightarrow> hw_load B h' = mem_write (hw_load B ?h5) (a + of_nat (Suc i)) ds" for x by blast+
    have one: "hw_load B ?h5 = (hw_load B h)(?p := b)" using True st by (intro ext) simp
    have "mem_write (hw_load B h) ?p (b # ds) = mem_write (hw_load B ?h5) (?p + 1) ds"
      unfolding one by (rule mem_write_Cons) (use lim in simp)
    then show ?thesis using IH out st by (auto simp: ac_simps)
  qed
qed

lemma word_bytes:
  "le32 (ucast b0 OR push_bit 8 (ucast b1) OR push_bit 16 (ucast b2) OR push_bit 24 (ucast b3)) = [b0, b1, b2, b3]"
  using le32_rd_aux [of b0 b1 b2 b3 "[]"] by (simp add: rd_u32_le_def)

text \<open>The word phase stores a prefix; the bytes it hands on follow it.\<close>

lemma word_phase_effect:
  assumes "word_phase B a i ds h = (s, k, ds', h')" "flash_range (a + of_nat i) (length ds)"
  shows "(\<forall>x. \<not> in_range (a + of_nat i) (length ds) x \<longrightarrow> hw_load B h' x = hw_load B h x)
    \<and> (s = FLASH_OK \<longrightarrow> (\<exists>d. ds = d @ ds' \<and> k = i + length d
         \<and> hw_load B h' = mem_write (hw_load B h) (a + of_nat i) d))"
  using assms
proof (induction "length ds" arbitrary: i ds h rule: less_induct)
  case less
  show ?case
  proof (cases "4 \<le> length ds \<and> (a + of_nat i) AND 3 = 0")
    case False
    then have "word_phase B a i ds h = (FLASH_OK, i, ds, h)"
      by (cases "(B, a, i, ds, h)" rule: word_phase.cases) auto
    then show ?thesis using less.prems(1) by simp
  next
    case True
    then have "Suc (Suc (Suc (Suc 0))) \<le> length ds" by simp
    then obtain b0 b1 b2 b3 es where ds: "ds = b0 # b1 # b2 # b3 # es"
      by (auto simp only: Suc_le_length_iff)
    let ?p = "a + of_nat i" and ?w = "ucast b0 OR push_bit 8 (ucast b1) OR push_bit 16 (ucast b2) OR push_bit 24 (ucast b3) :: u32"
    obtain r h1 where pw: "hw_program_word B h ?p ?w = (r, h1)" by fastforce
    have fr: "flash_range ?p 4" using flash_range_sub [OF less.prems(2), of 0 4] by (simp add: ds)
    have rest: "flash_range (a + of_nat (i + 4)) (length es)"
      using flash_range_sub [OF less.prems(2), of 4 "length es"] by (simp add: ds ac_simps)
    have lim: "length ds \<le> 2 ^ 20" by (rule flash_range_length [OF less.prems(2)])
    have out: "\<not> in_range ?p 4 x \<and> \<not> in_range (a + of_nat (i + 4)) (length es) x"
      if "\<not> in_range ?p (length ds) x" for x
    proof -
      have "length ds = 4 + length es" by (simp add: ds)
      then show ?thesis using not_in_range_parts [of ?p 4 "length es" x] that lim by (simp add: ac_simps)
    qed
    note pe = program_word_effect [OF pw fr, unfolded word_bytes]
    show ?thesis
    proof (cases "r = FLASH_OK")
      case False
      then have "s = r \<and> h' = flash_lock B h1" using less.prems(1) True by (simp add: ds pw)
      then show ?thesis using False pe(1) out by auto
    next
      case ok: True
      define h2 where "h2 = (if (of_nat i :: u32) AND 0xFF = 0 then iwdg_kick B h1 else h1)"
      have h2: "hw_load B h2 = hw_load B h1" by (simp add: h2_def)
      have "word_phase B a (i + 4) es h2 = (s, k, ds', h')"
        using less.prems(1) True ok by (simp add: ds pw h2_def)
      from less.hyps [OF _ this rest]
      have IH: "\<not> in_range (a + of_nat (i + 4)) (length es) x \<Longrightarrow> hw_load B h' x = hw_load B h1 x"
        "s = FLASH_OK \<Longrightarrow> \<exists>d. es = d @ ds' \<and> k = i + 4 + length d
           \<and> hw_load B h' = mem_write (hw_load B h1) (a + of_nat (i + 4)) d" for x
        by (simp_all add: ds h2)
      show ?thesis
      proof (intro conjI allI impI)
        show "hw_load B h' x = hw_load B h x" if "\<not> in_range ?p (length ds) x" for x
          using IH(1) pe(1) out [OF that] by simp
        assume "s = FLASH_OK"
        then obtain d where d: "es = d @ ds'" "k = i + 4 + length d"
          "hw_load B h' = mem_write (hw_load B h1) (a + of_nat (i + 4)) d" using IH(2) by blast
        have "mem_write (hw_load B h) ?p ([b0, b1, b2, b3] @ d)
            = mem_write (mem_write (hw_load B h) ?p [b0, b1, b2, b3]) (?p + of_nat (length [b0, b1, b2, b3])) d"
          by (rule mem_write_append) (use lim d(1) in \<open>simp add: ds\<close>)
        also have "\<dots> = hw_load B h'" using d(3) pe(2) [OF ok] by (simp add: ac_simps)
        finally show "\<exists>d. ds = d @ ds' \<and> k = i + length d \<and> hw_load B h' = mem_write (hw_load B h) ?p d"
          using d(1,2) by (intro exI [of _ "[b0, b1, b2, b3] @ d"]) (simp add: ds)
      qed
    qed
  qed
qed

lemma program_bytes_effect:
  assumes p: "hw_program_bytes B h a d = (s, h')" and r: "flash_range a (length d)"
  shows "\<not> in_range a (length d) x \<Longrightarrow> hw_load B h' x = hw_load B h x"
    and "s = FLASH_OK \<Longrightarrow> hw_load B h' = mem_write (hw_load B h) a d"
proof -
  obtain s1 h1 where u: "flash_unlock B h = (s1, h1)" by fastforce
  obtain s2 i d' h2 where w: "word_phase B a 0 d h1 = (s2, i, d', h2)" by (metis prod_cases4)
  obtain s3 h3 where b: "byte_phase B a i d' h2 = (s3, h3)" by fastforce
  have run: "(s, h') = (if s1 \<noteq> FLASH_OK then (s1, h1) else if s2 \<noteq> FLASH_OK then (s2, h2)
      else if s3 \<noteq> FLASH_OK then (s3, h3) else (FLASH_OK, flash_lock B h3))"
    using p by (simp add: hw_program_bytes_def u w b split: if_splits)
  have early: "hw_load B h1 = hw_load B h" by (rule byte_unlockD [OF u])
  have lim: "length d \<le> 2 ^ 20" by (rule flash_range_length [OF r])
  note we = word_phase_effect [OF w, simplified, OF r, unfolded early]
  have both: "(\<not> in_range a (length d) x \<longrightarrow> hw_load B h3 x = hw_load B h x)
      \<and> (s3 = FLASH_OK \<longrightarrow> hw_load B h3 = mem_write (hw_load B h) a d)" if s2: "s2 = FLASH_OK"
  proof -
    obtain e where e: "d = e @ d'" "i = length e" "hw_load B h2 = mem_write (hw_load B h) a e"
      using we s2 by auto
    have fr: "flash_range (a + of_nat i) (length d')"
      using flash_range_sub [OF r, of i "length d'"] e(1,2) by simp
    note be = byte_phase_effect [OF b fr]
    have full: "mem_write (hw_load B h) a d = mem_write (hw_load B h2) (a + of_nat i) d'"
      unfolding e(2,3) using mem_write_append [of e d' "hw_load B h" a] lim e(1) by simp
    have "hw_load B h3 x = hw_load B h x" if x: "\<not> in_range a (length d) x"
    proof -
      have "in_range (a + of_nat i) (length d') x \<Longrightarrow> in_range a (length d) x"
        by (erule in_range_sub(2)) (use e(1,2) lim in simp_all)
      then have "hw_load B h3 x = hw_load B h2 x" using be x by blast
      then show ?thesis using we x by simp
    qed
    then show ?thesis using be full by simp
  qed
  show "hw_load B h' x = hw_load B h x" if "\<not> in_range a (length d) x"
    using run both we early that by (auto split: if_splits)
  show "hw_load B h' = mem_write (hw_load B h) a d" if "s = FLASH_OK"
    using run both that by (auto split: if_splits)
qed

end

text \<open>The backend keeps the laws of the interface.\<close>

sublocale flash_ctrl \<subseteq> hw: flash_device "hw_ops B" "hw_load B" in_flash
proof unfold_locales
  fix h h' :: 'h and a sz v x :: u32 and d :: "u8 list" and st :: flash_status_t
  show "fl_read (hw_ops B) h a sz = (FLASH_OK, mem_bytes (hw_load B h) a (unat sz))"
    by (simp add: hw_ops_def hw_read_def mem_bytes_def)
  show "hw_load B h' = mem_write (hw_load B h) a d"
    if "fl_program_bytes (hw_ops B) h a d = (FLASH_OK, h')" "flash_range a (length d)"
    using program_bytes_effect(2) [of h a d FLASH_OK h'] that by (simp add: hw_ops_def)
  show "hw_load B h' x = hw_load B h x"
    if "fl_program_bytes (hw_ops B) h a d = (st, h')" "flash_range a (length d)" "\<not> in_range a (length d) x"
    using program_bytes_effect(1) [of h a d st h'] that by (simp add: hw_ops_def)
  show "hw_load B h' = mem_write (hw_load B h) a (le32 v)"
    if "fl_program_word (hw_ops B) h a v = (FLASH_OK, h')" "flash_range a 4"
    using program_word_effect(2) [of h a v FLASH_OK h'] that by (simp add: hw_ops_def)
  show "hw_load B h' x = hw_load B h x"
    if "fl_program_word (hw_ops B) h a v = (st, h')" "flash_range a 4" "\<not> in_range a 4 x"
    using program_word_effect(1) [of h a v st h'] that by (simp add: hw_ops_def)
  show "hw_load B h' x = 0xFF"
    if "fl_erase_range (hw_ops B) h a sz = (FLASH_OK, h')" "erase_covers a sz x" "in_flash x"
    using erase_range_effect(2) [of h a sz FLASH_OK h' x] that by (simp add: hw_ops_def)
  show "hw_load B h' x = hw_load B h x"
    if "fl_erase_range (hw_ops B) h a sz = (st, h')" "\<not> (erase_covers a sz x \<and> in_flash x)"
    using erase_range_effect(1) [of h a sz st h' x] that by (simp add: hw_ops_def)
qed (auto simp: hw_ops_def hw_ota_slot_span_def in_range_interval in_flash_def word_le_nat_alt layout_simps)

context flash_ctrl
begin

lemma backend_ok: "flash_device (hw_ops B) (hw_load B) in_flash"
  by (rule hw.flash_device_axioms)

end

end
