(* ===== verification/Flash_Ctl.thy ===== *)
theory Flash_Ctl
  imports Flash_Hw
begin

unbundle bit_operations_syntax

text \<open>
  A flash controller, after the register descriptions of RM0090: key sequence and lock, sector
  and mass erase, programming that can only clear bits, and the two sequence errors the driver
  meets.  Operations complete at the store that starts them.  It is an instance of
  \<open>flash_ctrl\<close>, so the laws are satisfiable, and it shows what the driver's byte phase does
  on a controller that checks the programming width.
\<close>

record flash_ctl =
  fc_mem :: mem
  fc_cr :: u32
  fc_sr :: u32
  fc_key1 :: bool

definition fc_locked :: "flash_ctl \<Rightarrow> bool" where "fc_locked s \<longleftrightarrow> bit (fc_cr s) 31"

definition fc_erase :: "(u32 \<Rightarrow> bool) \<Rightarrow> flash_ctl \<Rightarrow> flash_ctl" where
  "fc_erase S s = s\<lparr>fc_mem := (\<lambda>x. if S x then 0xFF else fc_mem s x)\<rparr>"

definition fc_sector :: "nat \<Rightarrow> u32 \<Rightarrow> bool" where
  "fc_sector j x \<longleftrightarrow> j < 12 \<and> sector_bound j \<le> unat x \<and> unat x < sector_bound (Suc j)"

definition fc_store_cr :: "u32 \<Rightarrow> flash_ctl \<Rightarrow> flash_ctl" where
  "fc_store_cr v s =
     (if fc_locked s then s
      else let s = s\<lparr>fc_cr := v AND NOT (FLASH_CR_STRT OR FLASH_CR_MER)\<rparr>
           in if v AND FLASH_CR_STRT = 0 then s
              else if v AND FLASH_CR_MER \<noteq> 0 then fc_erase (\<lambda>_. True) s
              else if v AND FLASH_CR_SER \<noteq> 0
              then fc_erase (fc_sector (unat (drop_bit FLASH_CR_SNB_POS (v AND FLASH_CR_SNB_MSK)))) s
              else s)"

text \<open>A store into flash of the bytes \<open>d\<close> needs the width that the PSIZE bits select.\<close>

definition fc_psize :: "flash_ctl \<Rightarrow> bool \<times> bool" where
  "fc_psize s = (bit (fc_cr s) 9, bit (fc_cr s) 8)"

definition psize_x8 :: "bool \<times> bool" where "psize_x8 = (False, False)"
definition psize_x32 :: "bool \<times> bool" where "psize_x32 = (True, False)"

definition fc_program :: "bool \<times> bool \<Rightarrow> u32 \<Rightarrow> u8 list \<Rightarrow> flash_ctl \<Rightarrow> flash_ctl" where
  "fc_program psize a d s =
     (if fc_locked s \<or> fc_cr s AND FLASH_CR_PG = 0 then s\<lparr>fc_sr := fc_sr s OR FLASH_SR_PGSERR\<rparr>
      else if fc_psize s \<noteq> psize then s\<lparr>fc_sr := fc_sr s OR FLASH_SR_PGPERR\<rparr>
      else s\<lparr>fc_mem := mem_write (fc_mem s) a (map2 (AND) (mem_bytes (fc_mem s) a (length d)) d)\<rparr>)"

definition fc_rd :: "flash_ctl \<Rightarrow> u32 \<Rightarrow> u32 \<times> flash_ctl" where
  "fc_rd s a =
     (if in_flash a then rd_u32_le (mem_bytes (fc_mem s) a 4)
      else if a = FLASH_CR then fc_cr s AND NOT (FLASH_CR_STRT OR FLASH_CR_MER)
      else if a = FLASH_SR then fc_sr s AND NOT FLASH_SR_BSY
      else 0, s)"

definition fc_wr :: "flash_ctl \<Rightarrow> u32 \<Rightarrow> u32 \<Rightarrow> flash_ctl" where
  "fc_wr s a v =
     (if in_flash a then fc_program psize_x32 a (le32 v) s
      else if a = FLASH_CR then fc_store_cr v s
      else if a = FLASH_SR then s\<lparr>fc_sr := fc_sr s AND NOT v\<rparr>
      else if a = FLASH_KEYR then
        (if v = FLASH_KEY1 then s\<lparr>fc_key1 := True\<rparr>
         else if v = FLASH_KEY2 \<and> fc_key1 s
         then s\<lparr>fc_cr := fc_cr s AND NOT FLASH_CR_LOCK, fc_key1 := False\<rparr>
         else s\<lparr>fc_key1 := False\<rparr>)
      else s)"

definition fc_wr8 :: "flash_ctl \<Rightarrow> u32 \<Rightarrow> u8 \<Rightarrow> flash_ctl" where
  "fc_wr8 s a b = (if in_flash a then fc_program psize_x8 a [b] s else s)"

definition fc_bus :: "flash_ctl bus" where
  "fc_bus = \<lparr> bus_rd = fc_rd, bus_wr = fc_wr, bus_wr8 = fc_wr8, bus_rd8 = fc_mem \<rparr>"

lemma fc_bus_sel [simp]:
  "bus_rd fc_bus = fc_rd" "bus_wr fc_bus = fc_wr" "bus_wr8 fc_bus = fc_wr8" "bus_rd8 fc_bus = fc_mem"
  by (simp_all add: fc_bus_def)

lemma fc_regs_out:
  "\<not> in_flash FLASH_CR" "\<not> in_flash FLASH_SR" "\<not> in_flash FLASH_KEYR" "\<not> in_flash IWDG_KR"
  "FLASH_SR \<noteq> FLASH_CR" "FLASH_KEYR \<noteq> FLASH_CR" "FLASH_KEYR \<noteq> FLASH_SR"
  "IWDG_KR \<noteq> FLASH_CR" "IWDG_KR \<noteq> FLASH_SR" "IWDG_KR \<noteq> FLASH_KEYR"
  by (simp_all add: hw_regs)

lemma fc_rd_state [simp]: "snd (fc_rd s a) = s"
  by (simp add: fc_rd_def)

lemma fc_program_other: "\<not> in_range a (length d) x \<Longrightarrow> fc_mem (fc_program p a d s) x = fc_mem s x"
  by (simp add: fc_program_def mem_write_other)

section \<open>The driver on this controller\<close>

lemma fc_kick [simp]: "iwdg_kick fc_bus s = s"
  by (simp add: iwdg_kick_def fc_wr_def fc_regs_out)

text \<open>A wait ends at the first poll; an error flag makes it fail.\<close>

lemma fc_wait:
  "wait_busy fc_bus s = (if fc_sr s AND FLASH_SR_ERR_MASK = 0 then (FLASH_OK, s)
     else (FLASH_ERR_PROG, reg_or fc_bus FLASH_SR FLASH_SR_ERR_MASK s))"
proof -
  have b: "(fc_sr s AND NOT FLASH_SR_BSY) AND FLASH_SR_BSY = 0" by (rule bit_eqI) (auto simp: bit_simps)
  have "NOT FLASH_SR_BSY AND FLASH_SR_ERR_MASK = FLASH_SR_ERR_MASK"
    by (simp add: FLASH_SR_BSY_def FLASH_SR_ERR_MASK_def FLASH_SR_PGSERR_def FLASH_SR_PGPERR_def
        FLASH_SR_PGAERR_def FLASH_SR_WRPERR_def FLASH_SR_OPERR_def)
  then have e: "(fc_sr s AND NOT FLASH_SR_BSY) AND FLASH_SR_ERR_MASK = fc_sr s AND FLASH_SR_ERR_MASK"
    by (simp add: and.assoc)
  have l: "wait_busy_loop fc_bus (Suc n) 0 s = (if fc_sr s AND FLASH_SR_ERR_MASK = 0 then (FLASH_OK, s)
     else (FLASH_ERR_PROG, reg_or fc_bus FLASH_SR FLASH_SR_ERR_MASK s))" for n
    by (simp add: fc_rd_def fc_regs_out b e)
  show ?thesis using l [of 4999999] by (simp only: wait_busy_def) simp
qed

interpretation fc: flash_ctrl fc_bus "\<lambda>_. True"
proof unfold_locales
  fix s s' :: flash_ctl and a v w x :: u32 and b :: u8 and j :: nat
  show "bus_rd8 fc_bus (snd (bus_rd fc_bus s a)) x = bus_rd8 fc_bus s x" by simp
  show "bus_rd8 fc_bus (bus_wr fc_bus s a v) x = bus_rd8 fc_bus s x" if "\<not> in_flash a" "a \<noteq> FLASH_CR"
    using that by (simp add: fc_wr_def)
  show "bus_rd8 fc_bus (bus_wr fc_bus s FLASH_CR v) x = bus_rd8 fc_bus s x" if "v AND FLASH_CR_STRT = 0"
    using that by (simp add: fc_wr_def fc_regs_out fc_store_cr_def)
  show "bus_rd8 fc_bus (bus_wr fc_bus s FLASH_CR v) x = bus_rd8 fc_bus s x"
    if "v AND FLASH_CR_SER \<noteq> 0" "v AND FLASH_CR_MER = 0"
      "j = unat (drop_bit FLASH_CR_SNB_POS (v AND FLASH_CR_SNB_MSK))" "j < 12"
      "\<not> (sector_bound j \<le> unat x \<and> unat x < sector_bound (Suc j))"
    using that by (auto simp: fc_wr_def fc_regs_out fc_store_cr_def fc_erase_def fc_sector_def Let_def)
  show "fst (bus_rd fc_bus s FLASH_CR) AND FLASH_CR_STRT = 0"
    "fst (bus_rd fc_bus s FLASH_CR) AND FLASH_CR_MER = 0"
    by (rule bit_eqI, auto simp: fc_rd_def fc_regs_out bit_simps)+
  show "bus_rd8 fc_bus (bus_wr fc_bus s' FLASH_CR w) x = bus_rd8 fc_bus s x"
    if r: "bus_rd fc_bus s FLASH_CR = (v, s')"
      and w: "w AND (FLASH_CR_SER OR FLASH_CR_SNB_MSK OR FLASH_CR_STRT OR FLASH_CR_MER)
        = v AND (FLASH_CR_SER OR FLASH_CR_SNB_MSK OR FLASH_CR_STRT OR FLASH_CR_MER)"
  proof -
    have "\<not> bit v 16" using r by (auto simp: fc_rd_def fc_regs_out bit_simps FLASH_CR_STRT_def)
    moreover have "bit v 16 = bit w 16"
      using arg_cong [OF w, where f = "\<lambda>u. bit u 16"] by (simp add: bit_simps FLASH_CR_STRT_def)
    ultimately have "w AND FLASH_CR_STRT = 0" by (simp add: cr_bits)
    then show ?thesis using r fc_rd_state [of s FLASH_CR] by (auto simp: fc_wr_def fc_regs_out fc_store_cr_def)
  qed
  show "fst (wait_busy fc_bus s) \<noteq> FLASH_ERR_BUSY" by (simp add: fc_wait)
  show "bus_rd8 fc_bus (bus_wr fc_bus s a v) x = bus_rd8 fc_bus s x"
    if "flash_range a 4" "\<not> in_range a 4 x"
    using that flash_range_in(1) [OF that(1), of 0] fc_program_other [of a "le32 v" x]
    by (simp add: fc_wr_def)
  show "bus_rd8 fc_bus (bus_wr8 fc_bus s a b) x = bus_rd8 fc_bus s x" if "in_flash a" "x \<noteq> a"
    using that fc_program_other [of a "[b]" x] by (simp add: fc_wr8_def in_range_def unat_eq_0)
  show "fst (bus_rd fc_bus s a) = rd_u32_le (mem_bytes (bus_rd8 fc_bus s) a 4)" if "flash_range a 4"
    using flash_range_in(1) [OF that, of 0] by (simp add: fc_rd_def)
qed simp

text \<open>What keeps the width: everything but a store that selects another.\<close>

lemma fc_psize_program [simp]: "fc_psize (fc_program p a d s) = fc_psize s"
  by (simp add: fc_program_def fc_psize_def)

lemma fc_psize_store:
  assumes "bit v 9 = bit (fc_cr s) 9" "bit v 8 = bit (fc_cr s) 8"
  shows "fc_psize (fc_store_cr v s) = fc_psize s"
proof -
  have "bit (v AND NOT (FLASH_CR_STRT OR FLASH_CR_MER)) 9 = bit v 9"
    "bit (v AND NOT (FLASH_CR_STRT OR FLASH_CR_MER)) 8 = bit v 8"
    by (simp_all add: bit_simps FLASH_CR_STRT_def FLASH_CR_MER_def)
  then show ?thesis using assms by (simp add: fc_store_cr_def fc_psize_def fc_erase_def Let_def del: bit.de_Morgan_disj)
qed

lemma fc_psize_wr:
  assumes "a \<noteq> FLASH_CR \<or> bit v 9 = bit (fc_cr s) 9 \<and> bit v 8 = bit (fc_cr s) 8"
  shows "fc_psize (fc_wr s a v) = fc_psize s"
proof -
  have "bit (fc_cr s AND NOT FLASH_CR_LOCK) 9 = bit (fc_cr s) 9" "bit (fc_cr s AND NOT FLASH_CR_LOCK) 8 = bit (fc_cr s) 8"
    by (simp_all add: bit_simps FLASH_CR_LOCK_def)
  then have k: "fc_psize (s\<lparr>fc_cr := fc_cr s AND NOT FLASH_CR_LOCK, fc_key1 := x\<rparr>) = fc_psize s" for x
    by (simp add: fc_psize_def)
  have u: "fc_psize (s\<lparr>fc_key1 := x\<rparr>) = fc_psize s" "fc_psize (s\<lparr>fc_sr := y\<rparr>) = fc_psize s" for x y
    by (simp_all add: fc_psize_def)
  show ?thesis using assms by (auto simp only: fc_wr_def k u fc_psize_program split: if_splits intro: fc_psize_store)
qed

lemma fc_psize_wr8 [simp]: "fc_psize (fc_wr8 s a b) = fc_psize s"
  by (simp add: fc_wr8_def fc_program_def fc_psize_def)

lemma fc_cr_bits:
  "fc_rd s FLASH_CR = (c, s') \<Longrightarrow> s' = s \<and> bit c 9 = bit (fc_cr s) 9 \<and> bit c 8 = bit (fc_cr s) 8"
  by (auto simp: fc_rd_def fc_regs_out bit_simps FLASH_CR_STRT_def FLASH_CR_MER_def)

lemma fc_psize_wait: "wait_busy fc_bus s = (r, s') \<Longrightarrow> fc_psize s' = fc_psize s"
  by (auto simp: fc_wait reg_or_def fc_psize_wr fc_regs_out split: if_splits prod.splits)
    (simp add: fc_rd_def)

lemma fc_psize_unlock: "flash_unlock fc_bus s = (r, s') \<Longrightarrow> fc_psize s' = fc_psize s"
  by (auto simp: flash_unlock_def Let_def fc_psize_wr fc_regs_out split: if_splits prod.splits dest!: fc_cr_bits)

lemma fc_psize_clear_pg: "fc_psize (reg_clear fc_bus FLASH_CR FLASH_CR_PG s) = fc_psize s"
  by (auto simp: reg_clear_def FLASH_CR_PG_def bit_simps split: prod.split dest!: fc_cr_bits intro!: fc_psize_wr)

lemma fc_psize_word:
  assumes "hw_program_word fc_bus s a v = (r, s')" "fst (fc_psize s)" "in_flash a"
  shows "fst (fc_psize s')"
proof -
  obtain r1 s1 where w1: "wait_busy fc_bus s = (r1, s1)" by fastforce
  obtain r2 s2 where u: "flash_unlock fc_bus s1 = (r2, s2)" by fastforce
  obtain c s3 where c: "fc_rd s2 FLASH_CR = (c, s3)" by fastforce
  define s4 where "s4 = fc_wr s3 FLASH_CR ((c AND NOT FLASH_CR_SER) OR FLASH_CR_PG OR FLASH_CR_PSIZE_X32)"
  obtain r5 s5 where w2: "wait_busy fc_bus (fc_wr s4 a v) = (r5, s5)" by fastforce
  obtain w s7 where l: "fc_rd (reg_clear fc_bus FLASH_CR FLASH_CR_PG s5) a = (w, s7)" by fastforce
  have early: "fst (fc_psize s1)" "fst (fc_psize s2)"
    using fc_psize_wait [OF w1] fc_psize_unlock [OF u] assms(2) by simp_all
  have "fc_psize s4 = fc_psize s3"
    unfolding s4_def using fc_cr_bits [OF c] early(2)
    by (intro fc_psize_wr) (simp add: fc_psize_def bit_simps FLASH_CR_SER_def FLASH_CR_PG_def
        FLASH_CR_PSIZE_X32_def)
  then have s4: "fst (fc_psize s4)" using fc_cr_bits [OF c] early(2) by simp
  have "a \<noteq> FLASH_CR" using assms(3) fc_regs_out by auto
  then have "fst (fc_psize s5)" using fc_psize_wait [OF w2] fc_psize_wr [of a v s4] s4 by simp
  then have late: "fst (fc_psize (reg_clear fc_bus FLASH_CR FLASH_CR_PG s5))" by (simp add: fc_psize_clear_pg)
  have s7: "s7 = reg_clear fc_bus FLASH_CR FLASH_CR_PG s5" using fc_rd_state l by (metis snd_conv)
  have "s' \<in> {s, s1, s2, s7, reg_clear fc_bus FLASH_CR FLASH_CR_PG s5}"
    using assms(1) by (simp add: hw_program_word_def Let_def w1 u c s4_def [symmetric] w2 l split: if_splits)
  then show ?thesis using assms(2) early late s7 by auto
qed

text \<open>
  A byte store while the word width is selected is refused, and the byte phase never selects
  the byte width: with a byte left after the word phase, programming fails.
\<close>

lemma fc_wait_error:
  assumes "fc_sr s AND FLASH_SR_ERR_MASK \<noteq> 0"
  shows "fst (wait_busy fc_bus s) = FLASH_ERR_PROG"
  using assms by (simp add: fc_wait)

lemma err_mask_bits: "bit v 7 \<or> bit v 6 \<Longrightarrow> v AND FLASH_SR_ERR_MASK \<noteq> 0"
proof
  assume b: "bit v 7 \<or> bit v 6" and z: "v AND FLASH_SR_ERR_MASK = 0"
  have "bit (v AND FLASH_SR_ERR_MASK) 7 = bit v 7" "bit (v AND FLASH_SR_ERR_MASK) 6 = bit v 6"
    by (simp_all add: bit_simps FLASH_SR_ERR_MASK_def FLASH_SR_PGSERR_def FLASH_SR_PGPERR_def
        FLASH_SR_PGAERR_def FLASH_SR_WRPERR_def FLASH_SR_OPERR_def)
  then show False using b z by simp
qed

lemma fc_byte_store_refused:
  assumes "in_flash a" "fc_psize s \<noteq> psize_x8"
  shows "fc_sr (fc_wr8 s a b) AND FLASH_SR_ERR_MASK \<noteq> 0" "fc_mem (fc_wr8 s a b) = fc_mem s"
  using assms err_mask_bits [of "fc_sr s OR FLASH_SR_PGSERR"] err_mask_bits [of "fc_sr s OR FLASH_SR_PGPERR"]
  by (auto simp: fc_wr8_def fc_program_def bit_simps FLASH_SR_PGSERR_def FLASH_SR_PGPERR_def)

lemma fc_byte_phase:
  assumes "fst (fc_psize s)" "in_flash (a + of_nat i)"
  shows "fst (byte_phase fc_bus a i (b # ds) s) \<noteq> FLASH_OK"
proof -
  obtain r1 s1 where w1: "wait_busy fc_bus s = (r1, s1)" by fastforce
  obtain c s2 where c: "fc_rd s1 FLASH_CR = (c, s2)" by fastforce
  define s3 where "s3 = fc_wr s2 FLASH_CR ((c AND NOT FLASH_CR_SER) OR FLASH_CR_PG)"
  obtain r4 s4 where w2: "wait_busy fc_bus (fc_wr8 s3 (a + of_nat i) b) = (r4, s4)" by fastforce
  have "fc_psize s3 = fc_psize s2"
    unfolding s3_def using fc_cr_bits [OF c]
    by (intro fc_psize_wr) (simp add: bit_simps FLASH_CR_SER_def FLASH_CR_PG_def)
  then have "fc_psize s3 \<noteq> psize_x8"
    using fc_cr_bits [OF c] fc_psize_wait [OF w1] assms(1) by (auto simp: psize_x8_def)
  then have "r4 = FLASH_ERR_PROG"
    using fc_wait_error [OF fc_byte_store_refused(1) [OF assms(2)]] w2 by (metis fst_conv)
  then show ?thesis by (simp add: w1 c Let_def s3_def [symmetric] w2)
qed

lemma word_phase_length:
  "word_phase B a i ds h = (s, k, ds', h') \<Longrightarrow> length ds' mod 4 = length ds mod 4"
  by (induction B a i ds h rule: word_phase.induct) (auto split: if_splits prod.splits)

lemma fc_word_phase:
  assumes "word_phase fc_bus a i ds s = (FLASH_OK, k, ds', s')" "fst (fc_psize s)"
    and "flash_range (a + of_nat i) (length ds)"
  shows "fst (fc_psize s')"
  using assms
proof (induction fc_bus a i ds s rule: word_phase.induct)
  case (1 a i b0 b1 b2 b3 es s)
  let ?p = "a + of_nat i" and ?w = "ucast b0 OR push_bit 8 (ucast b1) OR push_bit 16 (ucast b2) OR push_bit 24 (ucast b3) :: u32"
  obtain r s1 where pw: "hw_program_word fc_bus s ?p ?w = (r, s1)" by fastforce
  show ?case
  proof (cases "?p AND 3 = 0")
    case True
    have p: "in_flash ?p" using flash_range_in(1) [OF "1.prems"(3), of 0] by simp
    have rest: "flash_range (a + of_nat (i + 4)) (length es)"
      using flash_range_sub [OF "1.prems"(3), of 4 "length es"] by (simp add: ac_simps)
    have r: "r = FLASH_OK" and next_run: "word_phase fc_bus a (i + 4) es s1 = (FLASH_OK, k, ds', s')"
      using "1.prems"(1) True by (simp_all add: pw split: if_splits)
    show ?thesis
      using "1.hyps" [OF True pw [symmetric]] r next_run rest fc_psize_word [OF pw "1.prems"(2) p] by simp
  next
    case False
    then show ?thesis using "1.prems" by simp
  qed
qed auto

text \<open>So no run of bytes whose length is not a multiple of four can be programmed.\<close>

lemma fc_tail_refused:
  assumes r: "flash_range a (length d)" and d: "length d mod 4 \<noteq> 0" and w: "fst (fc_psize s)"
  shows "fst (hw_program_bytes fc_bus s a d) \<noteq> FLASH_OK"
proof -
  obtain r1 s1 where u: "flash_unlock fc_bus s = (r1, s1)" by fastforce
  obtain r2 i d' s2 where p: "word_phase fc_bus a 0 d s1 = (r2, i, d', s2)" by (metis prod_cases4)
  have w1: "fst (fc_psize s1)" using fc_psize_unlock [OF u] w by simp
  show ?thesis
  proof (cases "r1 = FLASH_OK \<and> r2 = FLASH_OK")
    case False
    then show ?thesis by (auto simp: hw_program_bytes_def u p)
  next
    case True
    have "length d' mod 4 \<noteq> 0" using word_phase_length [OF p] d by simp
    then obtain b ds where b: "d' = b # ds" by (cases d') auto
    have e: "\<exists>e. d = e @ d' \<and> i = length e" using fc.word_phase_effect [OF p] True r by auto
    then have "in_flash (a + of_nat i)" using flash_range_in(1) [OF r, of i] by (auto simp: b)
    moreover have "fst (fc_psize s2)" using fc_word_phase [of a 0 d s1 i d' s2] p True w1 r by simp
    ultimately have "fst (byte_phase fc_bus a i d' s2) \<noteq> FLASH_OK" unfolding b by (intro fc_byte_phase)
    then show ?thesis using True by (auto simp: hw_program_bytes_def u p split: prod.split)
  qed
qed

text \<open>Erasing selects the word width, and nothing selects another afterwards.\<close>

lemma fc_unlock_ok:
  assumes "flash_unlock fc_bus s = (FLASH_OK, s')"
  shows "\<not> fc_locked s'"
proof -
  have m: "(fc_cr s AND NOT (FLASH_CR_STRT OR FLASH_CR_MER)) AND FLASH_CR_LOCK = 0 \<longleftrightarrow> \<not> fc_locked s" for s
    unfolding cr_bits(4) by (simp add: fc_locked_def bit_simps FLASH_CR_STRT_def FLASH_CR_MER_def)
  have r: "fc_rd s FLASH_CR = (fc_cr s AND NOT (FLASH_CR_STRT OR FLASH_CR_MER), s)" for s
    by (simp add: fc_rd_def fc_regs_out)
  show ?thesis
    using assms by (auto simp only: flash_unlock_def fc_bus_sel r prod.case m Let_def prod.inject split: if_splits)
qed

lemma fc_erase_verify: "snd (erase_verify fc_bus p n i s) = s"
  by (induction n arbitrary: i) simp_all

lemma fc_store_width:
  assumes "bit v 9" "\<not> fc_locked s \<or> bit (fc_cr s) 9"
  shows "bit (fc_cr (fc_wr s FLASH_CR v)) 9"
proof -
  have "bit (v AND NOT (FLASH_CR_STRT OR FLASH_CR_MER)) 9"
    using assms(1) by (simp add: bit_simps FLASH_CR_STRT_def FLASH_CR_MER_def)
  then show ?thesis
    using assms(2) by (simp add: fc_wr_def fc_regs_out fc_store_cr_def fc_erase_def Let_def del: bit.de_Morgan_disj)
qed

lemma fc_erase_selects_word:
  assumes e: "hw_erase_sector fc_bus s a = (FLASH_OK, s')"
  shows "fst (fc_psize s')"
proof -
  let ?j = "nat (sector_index_for_addr a)"
  obtain r1 s1 where w1: "wait_busy fc_bus s = (r1, s1)" by fastforce
  obtain r2 s2 where u: "flash_unlock fc_bus s1 = (r2, s2)" by fastforce
  obtain c s3 where c: "fc_rd s2 FLASH_CR = (c, s3)" by fastforce
  define cr where "cr = (c AND NOT (FLASH_CR_SNB_MSK OR FLASH_CR_PG))
      OR (FLASH_CR_SER OR push_bit FLASH_CR_SNB_POS (of_int (sector_index_for_addr a)) OR FLASH_CR_PSIZE_X32)"
  define s5 where "s5 = fc_wr (fc_wr s3 FLASH_CR cr) FLASH_CR (cr OR FLASH_CR_STRT)"
  obtain r6 s6 where w2: "wait_busy fc_bus s5 = (r6, s6)" by fastforce
  let ?s7 = "reg_clear fc_bus FLASH_CR (FLASH_CR_SER OR FLASH_CR_SNB_MSK) s6"
  define r where "r = push_bit FLASH_CR_SNB_POS (of_int (sector_index_for_addr a) :: u32)"
  have run: "(FLASH_OK, s') = (if r1 \<noteq> FLASH_OK then (r1, s1) else if r2 \<noteq> FLASH_OK then (r2, s2)
      else if r6 = FLASH_OK then erase_verify fc_bus a (unat (k_sector_size ! ?j)) 0 ?s7 else (r6, ?s7))"
    using e unfolding hw_erase_sector_def Let_def fc_bus_sel w1 prod.case u c cr_def [symmetric]
      s5_def [symmetric] w2 by (simp split: if_splits)
  have ok: "r2 = FLASH_OK" "s' = ?s7"
    using run fc_erase_verify [of a "unat (k_sector_size ! ?j)" 0 ?s7]
    by (auto split: if_splits dest: arg_cong [where f = snd])
  have locked: "\<not> fc_locked s3"
    using fc_unlock_ok u ok(1) fc_cr_bits [OF c] by blast
  have b: "bit cr 9" by (simp add: cr_def bit_simps FLASH_CR_PSIZE_X32_def)
  have "bit (fc_cr (fc_wr s3 FLASH_CR cr)) 9" using b locked by (intro fc_store_width) simp_all
  then have "fst (fc_psize s5)"
    unfolding s5_def fc_psize_def fst_conv
    by (intro fc_store_width) (simp_all add: b bit_simps)
  then have "fst (fc_psize s6)" using fc_psize_wait [OF w2] by simp
  moreover have "fc_psize ?s7 = fc_psize s6"
    by (auto simp: reg_clear_def FLASH_CR_SER_def FLASH_CR_SNB_MSK_def FLASH_CR_SNB_POS_def bit_simps split: prod.split dest!: fc_cr_bits intro!: fc_psize_wr)
  ultimately show ?thesis using ok(2) by simp
qed

lemma fc_tail_after_erase:
  assumes "hw_erase_sector fc_bus s start = (FLASH_OK, s')"
    and "flash_range a (length d)" "length d mod 4 \<noteq> 0"
  shows "fst (hw_program_bytes fc_bus s' a d) \<noteq> FLASH_OK"
  using assms(2,3) fc_erase_selects_word [OF assms(1)] by (rule fc_tail_refused)

text \<open>An idle, unlocked, erased controller; erasing it succeeds.\<close>

definition fc_blank :: "flash_ctl \<Rightarrow> bool" where
  "fc_blank s \<longleftrightarrow> fc_mem s = (\<lambda>_. 0xFF) \<and> fc_sr s = 0"

lemma fc_blank_store: "fc_blank s \<Longrightarrow> fc_blank (fc_wr s FLASH_CR v)"
  by (auto simp: fc_blank_def fc_wr_def fc_regs_out fc_store_cr_def fc_erase_def Let_def)

lemma fc_blank_clear: "fc_blank s \<Longrightarrow> fc_blank (reg_clear fc_bus FLASH_CR m s)"
  by (simp add: reg_clear_def fc_blank_store fc_rd_def)

lemma fc_blank_wait: "fc_blank s \<Longrightarrow> wait_busy fc_bus s = (FLASH_OK, s)"
  by (simp add: fc_wait fc_blank_def)

lemma fc_blank_verify: "fc_blank s \<Longrightarrow> erase_verify fc_bus p n i s = (FLASH_OK, s)"
  by (induction n arbitrary: i) (simp_all add: hw_load_def fc_blank_def)

lemma fc_blank_erase:
  assumes s: "fc_blank s" "fc_cr s = 0"
    and a: "0 \<le> sector_index_for_addr a" "k_sector_start ! nat (sector_index_for_addr a) = a"
  shows "\<exists>s'. hw_erase_sector fc_bus s a = (FLASH_OK, s')"
proof -
  have u: "flash_unlock fc_bus s = (FLASH_OK, s)"
    by (simp add: flash_unlock_def fc_rd_def fc_regs_out s(2))
  have r: "fc_rd s FLASH_CR = (0, s)" by (simp add: fc_rd_def fc_regs_out s(2))
  have i: "(sector_index_for_addr a < 0 \<or> k_sector_start ! nat (sector_index_for_addr a) \<noteq> a) = False"
    using a by simp
  note b = fc_blank_store [OF fc_blank_store [OF s(1)]]
  show ?thesis
    unfolding hw_erase_sector_def Let_def i if_False fc_blank_wait [OF s(1)] prod.case u fc_bus_sel r
    by (simp only: not_True_eq_False if_False if_True refl fc_blank_wait [OF b] prod.case
        fc_blank_verify [OF fc_blank_clear [OF b]] prod.inject simp_thms ex_simps)
qed

end
