(* ===== verification/Flash_Reliable.thy ===== *)
theory Flash_Reliable
  imports Flash_Ctl
begin

unbundle bit_operations_syntax

text \<open>
  The hardware backend on the controller of \<open>Flash_Ctl\<close> as a \<open>reliable_flash\<close>: from a state
  without pending errors, erases succeed and whole words are programmed into erased flash, and
  every operation ends in such a state again.  With this the theorems about boots and updates
  on reliable devices hold for the driver's own code over the registers, and not only for the
  simulated backend.
\<close>

section \<open>Good states\<close>

text \<open>No error flag is pending, and the width is not the one of the external supply (x64).\<close>

definition fc_narrow :: "flash_ctl \<Rightarrow> bool" where "fc_narrow s \<longleftrightarrow> \<not> bit (fc_cr s) 8"

definition fc_good :: "flash_ctl \<Rightarrow> bool" where
  "fc_good s \<longleftrightarrow> fc_sr s AND FLASH_SR_ERR_MASK = 0 \<and> fc_narrow s"

lemma fc_goodD: "fc_good s \<Longrightarrow> fc_narrow s" "fc_good s \<Longrightarrow> fc_sr s AND FLASH_SR_ERR_MASK = 0"
  by (simp_all add: fc_good_def)

lemma fc_rd_cr: "fc_rd s FLASH_CR = (fc_cr s AND NOT (FLASH_CR_STRT OR FLASH_CR_MER), s)"
  by (simp add: fc_rd_def fc_regs_out)

lemma fc_cr_read_bit8: "bit (fc_cr s AND NOT (FLASH_CR_STRT OR FLASH_CR_MER)) 8 = bit (fc_cr s) 8"
  by (simp add: bit_simps FLASH_CR_STRT_def FLASH_CR_MER_def)

lemma fc_store_narrow:
  assumes "\<not> bit v 8" "fc_narrow s"
  shows "fc_narrow (fc_wr s FLASH_CR v)" "fc_sr (fc_wr s FLASH_CR v) = fc_sr s"
proof -
  have "\<not> bit (v AND NOT (FLASH_CR_STRT OR FLASH_CR_MER)) 8"
    using assms(1) by (simp add: bit_simps)
  then show "fc_narrow (fc_wr s FLASH_CR v)"
    using assms(2) by (simp add: fc_wr_def fc_regs_out fc_store_cr_def fc_erase_def fc_narrow_def Let_def del: bit.de_Morgan_disj)
qed (simp add: fc_wr_def fc_regs_out fc_store_cr_def fc_erase_def Let_def)

lemma fc_store_good: "\<not> bit v 8 \<Longrightarrow> fc_good s \<Longrightarrow> fc_good (fc_wr s FLASH_CR v)"
  by (simp add: fc_good_def fc_store_narrow)

lemma fc_clear_good:
  assumes g: "fc_good s"
  shows "fc_good (reg_clear fc_bus FLASH_CR m s)"
  unfolding reg_clear_def fc_bus_sel fc_rd_cr prod.case
  by (rule fc_store_good [OF _ g])
    (use g fc_cr_read_bit8 [of s] in \<open>simp add: bit_and_iff fc_good_def fc_narrow_def\<close>)

lemma fc_lock_good:
  assumes g: "fc_good s"
  shows "fc_good (flash_lock fc_bus s)"
  unfolding flash_lock_def reg_or_def fc_bus_sel fc_rd_cr prod.case
  by (rule fc_store_good [OF _ g])
    (use g fc_cr_read_bit8 [of s] in \<open>simp add: bit_or_iff fc_good_def fc_narrow_def FLASH_CR_LOCK_def bit_simps\<close>)

lemma clear_flags: "(x AND NOT (y OR m)) AND m = (0 :: u32)"
  by (rule bit_eqI) (auto simp: bit_simps)

text \<open>\<open>flash_init\<close> clears what an earlier run left pending.\<close>

lemma fc_init_good:
  assumes "fc_narrow s"
  shows "fst (hw_flash_init fc_bus s) = FLASH_OK" "fc_good (snd (hw_flash_init fc_bus s))"
    "hw_load fc_bus (snd (hw_flash_init fc_bus s)) = hw_load fc_bus s"
proof -
  have "(x AND NOT (y OR (FLASH_SR_ERR_MASK OR FLASH_SR_EOP))) AND FLASH_SR_ERR_MASK = 0" for x y
    by (rule bit_eqI) (auto simp: bit_simps)
  then show "fc_good (snd (hw_flash_init fc_bus s))"
    using assms by (simp add: hw_flash_init_def reg_or_def fc_rd_def fc_wr_def fc_regs_out fc_good_def fc_narrow_def
        del: bit.de_Morgan_disj)
  show "hw_load fc_bus (snd (hw_flash_init fc_bus s)) = hw_load fc_bus s"
    by (rule ext) (simp add: hw_flash_init_def reg_or_def fc_rd_def fc_wr_def fc_regs_out hw_load_def)
qed (simp add: hw_flash_init_def)

text \<open>The controller after a reset: locked, with the flags \<open>sr\<close> and the array \<open>m\<close>.\<close>

definition fc_reset :: "mem \<Rightarrow> u32 \<Rightarrow> flash_ctl" where
  "fc_reset m sr = \<lparr> fc_mem = m, fc_cr = FLASH_CR_LOCK, fc_sr = sr, fc_key1 = False \<rparr>"

lemma fc_reset_narrow: "fc_narrow (fc_reset m sr)"
  by (simp add: fc_narrow_def fc_reset_def FLASH_CR_LOCK_def)

text \<open>A wait reports a pending error once and clears it.\<close>

lemma fc_wait_good: "fc_good s \<Longrightarrow> wait_busy fc_bus s = (FLASH_OK, s)"
  by (simp add: fc_wait fc_good_def)

lemma fc_wait_clears:
  assumes "wait_busy fc_bus s = (r, s')" "fc_narrow s"
  shows "fc_good s'" "fc_mem s' = fc_mem s"
  using assms by (auto simp: fc_wait fc_good_def reg_or_def fc_rd_def fc_wr_def fc_regs_out fc_narrow_def
      clear_flags simp del: bit.de_Morgan_disj split: if_splits)

text \<open>The key sequence always opens the control register.\<close>

lemma fc_unlock_good:
  assumes "fc_good s"
  obtains s' where "flash_unlock fc_bus s = (FLASH_OK, s')" "fc_good s'" "\<not> fc_locked s'" "fc_mem s' = fc_mem s"
proof (cases "fc_locked s")
  have m: "(fc_cr s AND NOT (FLASH_CR_STRT OR FLASH_CR_MER)) AND FLASH_CR_LOCK = 0 \<longleftrightarrow> \<not> fc_locked s" for s
    unfolding cr_bits(4) by (simp add: fc_locked_def bit_simps FLASH_CR_STRT_def FLASH_CR_MER_def)
  case False
  then have "flash_unlock fc_bus s = (FLASH_OK, s)"
    using m [of s] by (simp add: flash_unlock_def fc_rd_cr del: bit.de_Morgan_disj)
  then show ?thesis using that False assms by blast
next
  have m: "(fc_cr s AND NOT (FLASH_CR_STRT OR FLASH_CR_MER)) AND FLASH_CR_LOCK = 0 \<longleftrightarrow> \<not> fc_locked s" for s
    unfolding cr_bits(4) by (simp add: fc_locked_def bit_simps FLASH_CR_STRT_def FLASH_CR_MER_def)
  case True
  define s1 where "s1 = s\<lparr>fc_cr := fc_cr s AND NOT FLASH_CR_LOCK, fc_key1 := False\<rparr>"
  have k: "fc_wr (fc_wr s FLASH_KEYR FLASH_KEY1) FLASH_KEYR FLASH_KEY2 = s1"
    by (simp add: fc_wr_def fc_regs_out s1_def FLASH_KEY1_def FLASH_KEY2_def)
  have "\<not> fc_locked s1" by (simp add: s1_def fc_locked_def bit_simps FLASH_CR_LOCK_def)
  moreover have "flash_unlock fc_bus s = (FLASH_OK, s1)"
    using m [of s] m [of s1] True calculation
    by (simp add: flash_unlock_def fc_rd_cr k Let_def del: bit.de_Morgan_disj)
  moreover have "fc_good s1"
    using assms by (simp add: s1_def fc_good_def fc_narrow_def bit_simps FLASH_CR_LOCK_def)
  ultimately show ?thesis using that by (simp add: s1_def)
qed


text \<open>Selecting an operation: an unlocked control register takes the value without the start bits.\<close>

lemma fc_store_open:
  assumes "\<not> fc_locked s" "\<not> bit v 16"
  shows "fc_wr s FLASH_CR v = s\<lparr>fc_cr := v AND NOT (FLASH_CR_STRT OR FLASH_CR_MER)\<rparr>"
  using assms by (simp add: fc_wr_def fc_regs_out fc_store_cr_def cr_bits Let_def)

lemma fc_store_mem: "\<not> bit v 16 \<Longrightarrow> fc_mem (fc_wr s FLASH_CR v) = fc_mem s"
  by (simp add: fc_wr_def fc_regs_out fc_store_cr_def cr_bits Let_def)

lemma fc_clear_mem: "fc_mem (reg_clear fc_bus FLASH_CR m s) = fc_mem s"
proof -
  have "\<not> bit ((fc_cr s AND NOT (FLASH_CR_STRT OR FLASH_CR_MER)) AND NOT m) 16"
    by (simp add: bit_simps FLASH_CR_STRT_def)
  then show ?thesis unfolding reg_clear_def fc_bus_sel fc_rd_cr prod.case by (rule fc_store_mem)
qed

section \<open>Erasing\<close>

text \<open>What a started sector erase does to the array.\<close>

lemma fc_erase_verify_ok:
  assumes "\<And>k. k < n \<Longrightarrow> hw_load fc_bus s (p + of_nat (i + k)) = 0xFF"
  shows "erase_verify fc_bus p n i s = (FLASH_OK, s)"
  using assms
proof (induction n arbitrary: i)
  case (Suc n)
  have "hw_load fc_bus s (p + of_nat i) = 0xFF" using Suc.prems [of 0] by simp
  moreover have "erase_verify fc_bus p n (Suc i) s = (FLASH_OK, s)"
    using Suc.prems [of "Suc k" for k] by (intro Suc.IH) simp
  ultimately show ?case by simp
qed simp

lemma fc_erase_bits:
  assumes "j < 12"
  shows "\<not> bit (push_bit 3 (of_nat j) :: u32) 8 \<and> \<not> bit (push_bit 3 (of_nat j) :: u32) 31"
proof -
  have t: "list_all (\<lambda>j. \<not> bit (push_bit 3 (of_nat j) :: u32) 8 \<and> \<not> bit (push_bit 3 (of_nat j) :: u32) 31) [0..<12]"
    by (simp add: upt_rec)
  show ?thesis using bspec [OF t [unfolded list_all_iff set_upt], of j] assms by simp
qed

lemma fc_erase_sector_ok:
  assumes g: "fc_good s" and j: "j < 12" "unat a = sector_bound j"
  obtains s' where "hw_erase_sector fc_bus s a = (FLASH_OK, s')" "fc_good s'"
proof -
  have idx: "sector_index_for_addr a = int j"
    by (rule sector_index_in) (use j sector_bound_Suc(2) [of j] in simp_all)
  have a: "k_sector_start ! j = a" using sector_start_bound [OF j(1)] j(2) by (simp add: word_unat_eq_iff)
  obtain s2 where u: "flash_unlock fc_bus s = (FLASH_OK, s2)" "fc_good s2" "\<not> fc_locked s2"
    using g by (rule fc_unlock_good)
  define c where "c = fc_cr s2 AND NOT (FLASH_CR_STRT OR FLASH_CR_MER)"
  define cr where "cr = (c AND NOT (FLASH_CR_SNB_MSK OR FLASH_CR_PG))
      OR (FLASH_CR_SER OR push_bit FLASH_CR_SNB_POS (of_int (int j)) OR FLASH_CR_PSIZE_X32)"
  define s3 where "s3 = fc_wr s2 FLASH_CR cr"
  define s5 where "s5 = fc_wr s3 FLASH_CR (cr OR FLASH_CR_STRT)"
  let ?s7 = "reg_clear fc_bus FLASH_CR (FLASH_CR_SER OR FLASH_CR_SNB_MSK) s5"
  have c: "\<not> bit c 8" "\<not> bit c 31" "\<not> bit c 16" "\<not> bit c 2"
    using u(2,3) by (simp_all add: c_def fc_good_def fc_narrow_def fc_locked_def bit_simps FLASH_CR_STRT_def FLASH_CR_MER_def)
  note b = fc.erase_cr [OF j(1), where c = c, folded cr_def]
  have cr: "\<not> bit cr 8" "\<not> bit cr 31"
    using c fc_erase_bits [OF j(1)]
    by (simp_all add: cr_def bit_simps FLASH_CR_SER_def FLASH_CR_PSIZE_X32_def FLASH_CR_SNB_POS_def)
  have cs: "\<not> bit (cr OR FLASH_CR_STRT) 8" using cr by (simp add: bit_simps FLASH_CR_STRT_def)
  have g5: "fc_good s5" unfolding s5_def s3_def by (intro fc_store_good cs cr u(2))
  have "s3 = s2\<lparr>fc_cr := cr AND NOT (FLASH_CR_STRT OR FLASH_CR_MER)\<rparr>"
    unfolding s3_def by (rule fc_store_open [OF u(3) b(3) [OF c(3)]])
  then have o3: "\<not> fc_locked s3" using cr(2) by (simp add: fc_locked_def bit_and_iff)
  have v: "(cr OR FLASH_CR_STRT) AND FLASH_CR_STRT \<noteq> 0" "(cr OR FLASH_CR_STRT) AND FLASH_CR_SER \<noteq> 0"
    "(cr OR FLASH_CR_STRT) AND FLASH_CR_MER = 0"
    unfolding cr_bits using b(2,4) c(4) by (simp_all add: bit_simps FLASH_CR_STRT_def)
  have m: "fc_mem s5 = (\<lambda>x. if fc_sector j x then 0xFF else fc_mem s3 x)"
    by (simp only: s5_def fc_wr_def fc_regs_out fc_store_cr_def fc_erase_def Let_def b(1) o3 v
        if_True if_False simp_thms) (simp cong: if_cong)
  have "hw_load fc_bus ?s7 (a + of_nat (0 + k)) = 0xFF" if k: "k < unat (k_sector_size ! j)" for k
  proof -
    have lt: "sector_bound j + k < sector_bound (Suc j)" using k sector_bound_Suc(1) [OF j(1)] by simp
    then have "unat (a + of_nat k) = sector_bound j + k"
      using sector_bound_limits [of "Suc j"] j by (simp add: unat_word_ariths unat_of_nat)
    then have "fc_sector j (a + of_nat k)" using lt j(1) by (simp add: fc_sector_def)
    then show ?thesis by (simp add: hw_load_def fc_clear_mem m)
  qed
  then have v: "erase_verify fc_bus a (unat (k_sector_size ! j)) 0 ?s7 = (FLASH_OK, ?s7)"
    by (rule fc_erase_verify_ok)
  have "hw_erase_sector fc_bus s a = (FLASH_OK, ?s7)"
    unfolding hw_erase_sector_def Let_def idx nat_int a fc_wait_good [OF g] prod.case u(1) fc_bus_sel fc_rd_cr
      c_def [symmetric] cr_def [symmetric] s3_def [symmetric] s5_def [symmetric] fc_wait_good [OF g5]
    by (simp add: v)
  then show thesis by (rule that) (rule fc_clear_good [OF g5])
qed

lemma fc_erase_sector_good: "fc_good s \<Longrightarrow> fc_good (snd (hw_erase_sector fc_bus s a))"
proof (cases "\<exists>j<12. unat a = sector_bound j")
  case True
  then obtain j where j: "j < 12" "unat a = sector_bound j" by blast
  assume "fc_good s"
  from this j obtain s' where "hw_erase_sector fc_bus s a = (FLASH_OK, s')" "fc_good s'"
    by (rule fc_erase_sector_ok)
  then show ?thesis by simp
qed (simp add: fc.erase_sector_other)

text \<open>Inside flash the loop meets a sector boundary at each turn.\<close>

lemma fc_erase_loop_ok:
  assumes "fc_good s" "j \<le> 12" "unat start = sector_bound j" "unat stop \<le> 0x08100000"
  shows "fst (hw_erase_loop fc_bus start stop s) = FLASH_OK"
  using assms(1-3)
proof (induction "12 - j" arbitrary: j start s)
  case 0
  then have "\<not> start < stop" using assms(4) sector_bound_12 by (simp add: word_less_nat_alt)
  then show ?case by (subst hw_erase_loop.simps) simp
next
  case (Suc n)
  then have j: "j < 12" by simp
  obtain s1 where s1: "hw_erase_sector fc_bus s start = (FLASH_OK, s1)" "fc_good s1"
    by (rule fc_erase_sector_ok [OF Suc.prems(1) j Suc.prems(3)])
  have "unat (start + flash_sector_size start) = sector_bound (Suc j)"
    using flash_sector_in(2) [OF j, of start] Suc.prems(3) sector_bound_Suc(2) [OF j]
      sector_bound_limits [of "Suc j"] j
    by (subst unat_add_lem [THEN iffD1]) simp_all
  from Suc.hyps(1) [OF _ s1(2) _ this] Suc.hyps(2) j show ?case
    by (subst hw_erase_loop.simps) (simp add: s1(1))
qed

lemma fc_erase_loop_good: "fc_good s \<Longrightarrow> fc_good (snd (hw_erase_loop fc_bus start stop s))"
proof (induction fc_bus start stop s rule: hw_erase_loop.induct)
  case (1 start stop s)
  obtain r s1 where e: "hw_erase_sector fc_bus s start = (r, s1)" by fastforce
  have g: "fc_good s1" using fc_erase_sector_good [OF "1.prems", of start] by (simp add: e)
  show ?case
  proof (cases "start < stop \<and> r = FLASH_OK")
    case True
    then show ?thesis
      using "1.hyps" [OF _ e [symmetric] _ ] g by (subst hw_erase_loop.simps) (simp add: e)
  next
    case False
    then show ?thesis using g "1.prems" by (subst hw_erase_loop.simps) (auto simp: e)
  qed
qed

lemma fc_erase_range_ok:
  assumes "fc_good s" "FLASH_BASE_ADDR \<le> a" "unat a + unat sz \<le> 0x08100000"
  shows "fst (hw_erase_range fc_bus s a sz) = FLASH_OK"
proof (cases "sz = 0")
  case False
  then have pos: "0 < unat sz" by (simp add: unat_gt_0)
  obtain j where j: "j < 12" "unat (flash_sector_start a) = sector_bound j"
    by (rule flash_sector_start_cases [of a]) (use assms(2) in blast)+
  have "unat (a + sz) = unat a + unat sz" using assms(3) by (subst unat_add_lem [THEN iffD1]) simp_all
  then show ?thesis
    using fc_erase_loop_ok [OF assms(1) _ j(2), of "a + sz"] j(1) False assms(3)
    by (simp add: hw_erase_range_def)
qed (simp add: hw_erase_range_def)

lemma fc_erase_range_good: "fc_good s \<Longrightarrow> fc_good (snd (hw_erase_range fc_bus s a sz))"
  by (simp add: hw_erase_range_def fc_erase_loop_good)

section \<open>Programming\<close>

text \<open>
  A word store selects programming at word width; it is carried out, and the driver's answer
  is what the read-back says.
\<close>

lemma fc_program_narrow: "fc_narrow (fc_program p a d s) = fc_narrow s"
  by (simp add: fc_program_def fc_narrow_def)

lemma fc_word_run:
  assumes g: "fc_good s" and a: "a AND 3 = 0" "flash_range a 4"
  obtains s' where "fc_good s'"
    "hw_program_word fc_bus s a v = (if rd_u32_le (mem_bytes (fc_mem s') a 4) = v then FLASH_OK else FLASH_ERR_VERIFY, s')"
    "fc_mem s' = mem_write (fc_mem s) a (map2 (AND) (mem_bytes (fc_mem s) a 4) (le32 v))"
proof -
  have fl: "in_flash a" using flash_range_in(1) [OF a(2), of 0] by simp
  obtain s2 where u: "flash_unlock fc_bus s = (FLASH_OK, s2)" "fc_good s2" "\<not> fc_locked s2" "fc_mem s2 = fc_mem s"
    using g by (rule fc_unlock_good)
  define c where "c = fc_cr s2 AND NOT (FLASH_CR_STRT OR FLASH_CR_MER)"
  define w where "w = (c AND NOT FLASH_CR_SER) OR FLASH_CR_PG OR FLASH_CR_PSIZE_X32"
  define s4 where "s4 = fc_wr s2 FLASH_CR w"
  define s5 where "s5 = fc_wr s4 a v"
  let ?s7 = "reg_clear fc_bus FLASH_CR FLASH_CR_PG s5"
  have c: "\<not> bit c 8" "\<not> bit c 31" "\<not> bit c 16"
    using u(2,3) by (simp_all add: c_def fc_good_def fc_narrow_def fc_locked_def bit_simps FLASH_CR_STRT_def FLASH_CR_MER_def)
  have b: "\<not> bit w 8" "\<not> bit w 31" "\<not> bit w 16" "bit w 0" "bit w 9"
    using c by (simp_all add: w_def bit_simps FLASH_CR_PG_def FLASH_CR_PSIZE_X32_def FLASH_CR_SER_def)
  have s4: "s4 = s2\<lparr>fc_cr := w AND NOT (FLASH_CR_STRT OR FLASH_CR_MER)\<rparr>"
    unfolding s4_def by (rule fc_store_open [OF u(3) b(3)])
  have g4: "fc_good s4" unfolding s4_def by (rule fc_store_good [OF b(1) u(2)])
  have k: "bit (fc_cr s4) 0 = bit w 0" "bit (fc_cr s4) 8 = bit w 8" "bit (fc_cr s4) 9 = bit w 9"
    "bit (fc_cr s4) 31 = bit w 31"
    by (simp_all add: s4 bit_simps FLASH_CR_STRT_def FLASH_CR_MER_def)
  have pg: "fc_cr s4 AND FLASH_CR_PG \<noteq> 0"
    using and_exp_eq_0_iff_not_bit [of "fc_cr s4" 0] k(1) b(4) by (simp add: FLASH_CR_PG_def)
  have "\<not> fc_locked s4" "fc_psize s4 = psize_x32"
    using k b by (simp_all add: fc_locked_def fc_psize_def psize_x32_def)
  then have s5: "s5 = s4\<lparr>fc_mem := mem_write (fc_mem s4) a (map2 (AND) (mem_bytes (fc_mem s4) a 4) (le32 v))\<rparr>"
    using pg fl by (simp add: s5_def fc_wr_def fc_program_def)
  then have g5: "fc_good s5" using g4 by (simp add: fc_good_def fc_narrow_def)
  have m5: "fc_mem s5 = mem_write (fc_mem s) a (map2 (AND) (mem_bytes (fc_mem s) a 4) (le32 v))"
    by (simp add: s5 s4 u(4))
  have rd: "fc_rd ?s7 a = (rd_u32_le (mem_bytes (fc_mem ?s7) a 4), ?s7)"
    using fl by (simp add: fc_rd_def)
  have "hw_program_word fc_bus s a v
      = (if rd_u32_le (mem_bytes (fc_mem ?s7) a 4) = v then FLASH_OK else FLASH_ERR_VERIFY, ?s7)"
    unfolding hw_program_word_def Let_def fc_wait_good [OF g] prod.case u(1) fc_bus_sel fc_rd_cr
      c_def [symmetric] w_def [symmetric] s4_def [symmetric] s5_def [symmetric] fc_wait_good [OF g5] rd
    using a(1) by simp
  then show thesis using that fc_clear_good [OF g5] fc_clear_mem m5 by metis
qed

lemma fc_word_good:
  assumes "fc_good s" "flash_range a 4"
  shows "fc_good (snd (hw_program_word fc_bus s a v))"
proof (cases "a AND 3 = 0")
  case True
  then show ?thesis by (rule fc_word_run [OF assms(1) _ assms(2), of v]) simp
qed (simp add: hw_program_word_def assms(1))

text \<open>Over erased flash the store puts the value there.\<close>

lemma map2_erased: "map2 (AND) (replicate (length d) (0xFF :: u8)) d = d"
proof (rule nth_equalityI)
  fix i assume i: "i < length (map2 (AND) (replicate (length d) (0xFF :: u8)) d)"
  have "(- 1 :: u8) AND b = b" for b by simp
  moreover have "(- 1 :: u8) = 0xFF" by simp
  ultimately have "0xFF AND b = b" for b :: u8 by metis
  then show "map2 (AND) (replicate (length d) (0xFF :: u8)) d ! i = d ! i" using i by simp
qed simp

lemma fc_word_ok:
  assumes g: "fc_good s" and a: "a AND 3 = 0" "flash_range a 4" and e: "erased (hw_load fc_bus s) a 4"
  obtains s' where "hw_program_word fc_bus s a v = (FLASH_OK, s')" "fc_good s'"
    "hw_load fc_bus s' = mem_write (hw_load fc_bus s) a (le32 v)"
proof -
  obtain s' where s': "fc_good s'"
    "hw_program_word fc_bus s a v = (if rd_u32_le (mem_bytes (fc_mem s') a 4) = v then FLASH_OK else FLASH_ERR_VERIFY, s')"
    "fc_mem s' = mem_write (fc_mem s) a (map2 (AND) (mem_bytes (fc_mem s) a 4) (le32 v))"
    using g a by (rule fc_word_run)
  have "fc_mem s (a + of_nat i) = 0xFF" if "i < 4" for i
  proof -
    have "hw_load fc_bus s (a + of_nat i) = 0xFF" using e that by (simp add: erased_def)
    then show ?thesis using flash_range_in(1) [OF a(2) that] by (simp add: hw_load_def)
  qed
  then have "mem_bytes (fc_mem s) a 4 = replicate (length (le32 v)) 0xFF"
    by (intro nth_equalityI) simp_all
  then have "fc_mem s' = mem_write (fc_mem s) a (le32 v)" unfolding s'(3) by (simp only: map2_erased)
  then have "mem_bytes (fc_mem s') a 4 = le32 v"
    using mem_bytes_write_same [of "le32 v" "fc_mem s" a] by simp
  then have "hw_program_word fc_bus s a v = (FLASH_OK, s')"
    using s'(2) rd_le32 [of v "[]"] by simp
  then show thesis using that s'(1) fc.program_word_effect(2) [OF _ a(2)] by blast
qed

text \<open>The word phase over erased flash, for whole words from a word boundary.\<close>

lemma aligned_iff: "p AND 3 = 0 \<longleftrightarrow> 4 dvd unat (p :: u32)"
proof -
  have "p AND 3 = take_bit 2 p" by (simp add: take_bit_eq_mask mask_numeral)
  then have "unat (p AND 3) = unat p mod 4" by (simp add: unat_mod_distrib take_bit_eq_mod)
  then show ?thesis by (simp add: dvd_eq_mod_eq_0 flip: unat_eq_0)
qed

lemma aligned_add4: "(p :: u32) AND 3 = 0 \<Longrightarrow> (p + 4) AND 3 = 0"
  unfolding aligned_iff by (simp add: unat_word_ariths dvd_mod)

lemma fc_word_phase_ok:
  assumes "fc_good s" "(a + of_nat i) AND 3 = 0" "flash_range (a + of_nat i) (length d)" "4 dvd length d"
    and "erased (hw_load fc_bus s) (a + of_nat i) (length d)"
  shows "\<exists>k s'. word_phase fc_bus a i d s = (FLASH_OK, k, [], s') \<and> fc_good s'"
  using assms
proof (induction fc_bus a i d s rule: word_phase.induct)
  case (1 a i b0 b1 b2 b3 es s)
  let ?p = "a + of_nat i" and ?w = "ucast b0 OR push_bit 8 (ucast b1) OR push_bit 16 (ucast b2) OR push_bit 24 (ucast b3) :: u32"
  note P = "1.prems"
  have fr: "flash_range ?p 4" using flash_range_sub [OF P(3), of 0 4] by simp
  have er: "erased (hw_load fc_bus s) ?p 4" using P(5) by (rule erased_mono) simp
  obtain s1 where s1: "hw_program_word fc_bus s ?p ?w = (FLASH_OK, s1)" "fc_good s1"
    "hw_load fc_bus s1 = mem_write (hw_load fc_bus s) ?p (le32 ?w)"
    by (rule fc_word_ok [OF P(1,2) fr er])
  have lim: "length (b0 # b1 # b2 # b3 # es) \<le> 2 ^ 20" by (rule flash_range_length [OF P(3)])
  have nx: "a + of_nat (i + 4) = ?p + of_nat (length (le32 ?w))" by simp
  have "erased (hw_load fc_bus s1) (a + of_nat (i + 4)) (length es)"
    unfolding s1(3) nx by (rule erased_after [OF P(5)]) (use lim in simp_all)
  moreover have "flash_range (a + of_nat (i + 4)) (length es)"
    using flash_range_sub [OF P(3), of 4 "length es"] by (simp add: ac_simps)
  moreover have "(a + of_nat (i + 4)) AND 3 = 0" using aligned_add4 [OF P(2)] by (simp add: ac_simps)
  moreover have "4 dvd length es" using P(4) by simp presburger
  ultimately show ?case
    using "1.hyps" [OF P(2) s1(1) [symmetric]] s1 P(2) by simp
qed (auto, presburger+)


text \<open>Whatever the outcome, the phases leave good states.\<close>

lemma fc_word_phase_good:
  assumes "word_phase fc_bus a i d s = (r, k, d', s')" "fc_good s" "flash_range (a + of_nat i) (length d)"
  shows "fc_good s'"
  using assms
proof (induction fc_bus a i d s rule: word_phase.induct)
  case (1 a i b0 b1 b2 b3 es s)
  let ?p = "a + of_nat i" and ?w = "ucast b0 OR push_bit 8 (ucast b1) OR push_bit 16 (ucast b2) OR push_bit 24 (ucast b3) :: u32"
  obtain q s1 where pw: "hw_program_word fc_bus s ?p ?w = (q, s1)" by fastforce
  have fr: "flash_range ?p 4" using flash_range_sub [OF "1.prems"(3), of 0 4] by simp
  have g1: "fc_good s1" using fc_word_good [OF "1.prems"(2) fr, of ?w] by (simp add: pw)
  show ?case
  proof (cases "?p AND 3 = 0 \<and> q = FLASH_OK")
    case True
    have "flash_range (a + of_nat (i + 4)) (length es)"
      using flash_range_sub [OF "1.prems"(3), of 4 "length es"] by (simp add: ac_simps)
    then show ?thesis using "1.hyps" [OF _ pw [symmetric]] "1.prems"(1) True g1 by (simp add: pw)
  next
    case False
    then show ?thesis using "1.prems"(1,2) g1 by (auto simp: pw fc_lock_good split: if_splits)
  qed
qed auto

lemma fc_wait_any_good: "wait_busy fc_bus s = (r, s') \<Longrightarrow> fc_narrow s \<Longrightarrow> fc_good s'"
  by (rule fc_wait_clears(1))

lemma fc_byte_phase_good: "fc_good s \<Longrightarrow> fc_good (snd (byte_phase fc_bus a i d s))"
proof (induction d arbitrary: i s)
  case (Cons b d)
  define c where "c = fc_cr s AND NOT (FLASH_CR_STRT OR FLASH_CR_MER)"
  define s3 where "s3 = fc_wr s FLASH_CR ((c AND NOT FLASH_CR_SER) OR FLASH_CR_PG)"
  obtain r s4 where w: "wait_busy fc_bus (fc_wr8 s3 (a + of_nat i) b) = (r, s4)" by fastforce
  have "\<not> bit c 8" using Cons.prems by (simp add: c_def fc_good_def fc_narrow_def bit_simps)
  then have "\<not> bit ((c AND NOT FLASH_CR_SER) OR FLASH_CR_PG) 8"
    by (simp add: bit_simps FLASH_CR_PG_def)
  then have "fc_good s3" unfolding s3_def by (rule fc_store_good) (rule Cons.prems)
  then have "fc_narrow (fc_wr8 s3 (a + of_nat i) b)"
    by (simp add: fc_wr8_def fc_program_narrow fc_good_def)
  then have g: "fc_good (reg_clear fc_bus FLASH_CR FLASH_CR_PG s4)"
    by (intro fc_clear_good fc_wait_any_good [OF w])
  show ?case
    unfolding byte_phase.simps fc_wait_good [OF Cons.prems] prod.case fc_bus_sel fc_rd_cr c_def [symmetric]
      s3_def [symmetric] Let_def w
    using Cons.IH [OF g, of "Suc i"] fc_lock_good [OF g] by simp
qed simp

lemma fc_program_bytes_good:
  assumes "fc_good s" "flash_range a (length d)"
  shows "fc_good (snd (hw_program_bytes fc_bus s a d))"
proof -
  obtain s1 where u: "flash_unlock fc_bus s = (FLASH_OK, s1)" "fc_good s1"
    using assms(1) by (rule fc_unlock_good)
  obtain r i d' s2 where w: "word_phase fc_bus a 0 d s1 = (r, i, d', s2)" by (metis prod_cases4)
  have g2: "fc_good s2" by (rule fc_word_phase_good [OF w u(2)]) (use assms(2) in simp)
  obtain q s3 where b: "byte_phase fc_bus a i d' s2 = (q, s3)" by fastforce
  have g3: "fc_good s3" using fc_byte_phase_good [OF g2, of a i d'] by (simp add: b)
  show ?thesis
    using g2 g3 fc_lock_good [OF g3] by (simp add: hw_program_bytes_def u w b)
qed

lemma fc_program_bytes_ok:
  assumes "fc_good s" "flash_range a (length d)" "4 dvd unat a" "4 dvd length d"
    and "erased (hw_load fc_bus s) a (length d)"
  shows "fst (hw_program_bytes fc_bus s a d) = FLASH_OK"
proof -
  obtain s1 where u: "flash_unlock fc_bus s = (FLASH_OK, s1)" "fc_good s1" "fc_mem s1 = fc_mem s"
    using assms(1) by (rule fc_unlock_good)
  have "hw_load fc_bus s1 = hw_load fc_bus s" by (rule ext) (simp add: hw_load_def u(3))
  then have e: "erased (hw_load fc_bus s1) (a + of_nat 0) (length d)" using assms(5) by simp
  have al: "(a + of_nat 0) AND 3 = 0" using assms(3) by (simp add: aligned_iff)
  have fr: "flash_range (a + of_nat 0) (length d)" using assms(2) by simp
  obtain k s2 where "word_phase fc_bus a 0 d s1 = (FLASH_OK, k, [], s2)"
    using fc_word_phase_ok [OF u(2) al fr assms(4) e] by blast
  then show ?thesis by (simp add: hw_program_bytes_def u(1))
qed

section \<open>The backend is reliable\<close>

interpretation fcr: reliable_flash "hw_ops fc_bus" "hw_load fc_bus" in_flash fc_good 4
proof unfold_locales
  fix s :: flash_ctl and a sz v :: u32 and d :: "u8 list"
  show "(4 :: nat) dvd 4" by simp
  show "fst (fl_erase_range (hw_ops fc_bus) s a sz) = FLASH_OK"
    if "fc_good s" "FLASH_BASE_ADDR \<le> a" "unat a + unat sz \<le> 0x08100000"
    using fc_erase_range_ok [OF that] by (simp add: hw_ops_def)
  show "fc_good (snd (fl_erase_range (hw_ops fc_bus) s a sz))" if "fc_good s"
    using fc_erase_range_good [OF that] by (simp add: hw_ops_def)
  show "fst (fl_program_bytes (hw_ops fc_bus) s a d) = FLASH_OK"
    if "fc_good s" "flash_range a (length d)" "4 dvd unat a" "4 dvd length d" "erased (hw_load fc_bus s) a (length d)"
    using fc_program_bytes_ok [OF that] by (simp add: hw_ops_def)
  show "fc_good (snd (fl_program_bytes (hw_ops fc_bus) s a d))" if "fc_good s" "flash_range a (length d)"
    using fc_program_bytes_good [OF that] by (simp add: hw_ops_def)
  show "fst (fl_program_word (hw_ops fc_bus) s a v) = FLASH_OK"
    if "fc_good s" "a AND 3 = 0" "flash_range a 4" "erased (hw_load fc_bus s) a 4"
    by (rule fc_word_ok [OF that, of v]) (simp add: hw_ops_def)
  show "fc_good (snd (fl_program_word (hw_ops fc_bus) s a v))" if "fc_good s" "flash_range a 4"
    using fc_word_good [OF that] by (simp add: hw_ops_def)
qed

text \<open>And \<open>flash_init\<close> takes it out of reset into a good state.\<close>

lemma fc_backend_ready:
  "reliable_flash (hw_ops fc_bus) (hw_load fc_bus) in_flash fc_good 4
    \<and> fc_good (snd (hw_flash_init fc_bus (fc_reset m sr)))"
  using fcr.reliable_flash_axioms fc_init_good(2) [OF fc_reset_narrow] by blast

end
