(* ===== verification/Restart.thy ===== *)
theory Restart
  imports Flash_Reliable Flash_Sim
begin

text \<open>
  What a reset and \<open>flash_init\<close> do to the flash device.  The locale \<open>persistent_flash\<close> is the
  interface the life of a device is proved over: a restart keeps what loads return.  On hardware
  every reset and every power cycle is one.  On QEMU only a soft reset is: after a power
  cycle \<open>flash_init\<close> finds a shadow without its magic and seeds it from the ROM again, so that
  everything written since the first switch-on is lost.
\<close>

section \<open>Restarts that keep the flash\<close>

locale persistent_flash = reliable_flash F byte writable good gran
  for F :: "'s flash_ops" and byte :: "'s \<Rightarrow> mem" and writable :: "u32 \<Rightarrow> bool"
    and good :: "'s \<Rightarrow> bool" and gran :: nat +
  fixes restart :: "'s \<Rightarrow> 's \<Rightarrow> bool"
  assumes restart_keeps: "good s \<Longrightarrow> restart s s' \<Longrightarrow> byte s' = byte s"
    and restart_good: "good s \<Longrightarrow> restart s s' \<Longrightarrow> good s'"

section \<open>Hardware\<close>

text \<open>The controller comes out of reset locked, with any flags; the array is as it was.\<close>

definition fc_restart :: "flash_ctl \<Rightarrow> flash_ctl \<Rightarrow> bool" where
  "fc_restart s s' \<longleftrightarrow> (\<exists>sr. s' = snd (hw_flash_init fc_bus (fc_reset (fc_mem s) sr)))"

interpretation fcp: persistent_flash "hw_ops fc_bus" "hw_load fc_bus" in_flash fc_good 4 fc_restart
proof unfold_locales
  fix s s' :: flash_ctl
  assume r: "fc_restart s s'"
  then obtain sr where s': "s' = snd (hw_flash_init fc_bus (fc_reset (fc_mem s) sr))"
    by (auto simp: fc_restart_def)
  show "hw_load fc_bus s' = hw_load fc_bus s"
    unfolding s' fc_init_good(3) [OF fc_reset_narrow] by (rule ext) (simp add: hw_load_def fc_reset_def)
  show "fc_good s'" unfolding s' by (rule fc_init_good(2) [OF fc_reset_narrow])
qed

section \<open>QEMU\<close>

text \<open>A shadow in use, above the ROM \<open>rom\<close>.\<close>

definition sim_live :: "mem \<Rightarrow> sim_flash \<Rightarrow> bool" where
  "sim_live rom s \<longleftrightarrow> sh_magic s = QEMU_SHADOW_MAGIC \<and> sim_rom s = rom"

definition sim_soft_reset :: "sim_flash \<Rightarrow> sim_flash \<Rightarrow> bool" where
  "sim_soft_reset s s' \<longleftrightarrow> s' = snd (sim_flash_init s)"

text \<open>Whatever the SRAM holds after a power cycle, the cookie is not in it.\<close>

definition sim_power_cycle :: "sim_flash \<Rightarrow> sim_flash \<Rightarrow> bool" where
  "sim_power_cycle s s' \<longleftrightarrow> (\<exists>t. sh_magic t \<noteq> QEMU_SHADOW_MAGIC \<and> sim_rom t = sim_rom s
     \<and> s' = snd (sim_flash_init t))"

lemma sim_live_store [simp]: "sim_live rom (store_ptr p b s) = sim_live rom s"
  by (cases p) (simp_all add: sim_live_def)

lemma sim_live_kick [simp]: "sim_live rom (sim_kick s) = sim_live rom s"
  by (simp add: sim_live_def sim_kick_def)

lemma sim_live_chunk [simp]: "sim_live rom (sim_erase_chunk a n s) = sim_live rom s"
proof -
  have "sim_live rom (fold (\<lambda>i s. case shadow_byte_ptr (a + of_nat i) of
      Some sp \<Rightarrow> store_ptr sp 0xFF s | None \<Rightarrow> s) ks s) = sim_live rom s" for ks
    by (induction ks arbitrary: s) (simp_all split: option.split)
  then show ?thesis by (simp add: sim_erase_chunk_def)
qed

lemma sim_live_chunks [simp]: "sim_live rom (sim_erase_chunks base sz off s) = sim_live rom s"
proof (induction base sz off s rule: sim_erase_chunks.induct)
  case (1 base sz off s)
  then show ?case by (subst sim_erase_chunks.simps) (simp add: Let_def)
qed

lemma sim_live_sector [simp]: "sim_live rom (snd (sim_erase_sector s a)) = sim_live rom s"
  by (simp add: sim_erase_sector_def Let_def)

lemma sim_live_loop [simp]: "sim_live rom (snd (sim_erase_loop start stop s)) = sim_live rom s"
proof (induction start stop s rule: sim_erase_loop.induct)
  case (1 start stop s)
  obtain r s1 where e: "sim_erase_sector s start = (r, s1)" by fastforce
  have l: "sim_live rom s1 = sim_live rom s" using sim_live_sector [of rom s start] by (simp add: e)
  show ?case
  proof (cases "start < stop \<and> r = FLASH_OK")
    case True
    then show ?thesis using 1 [OF _ e [symmetric]] l by (subst sim_erase_loop.simps) (simp add: e)
  next
    case False
    then show ?thesis using l by (subst sim_erase_loop.simps) (auto simp: e)
  qed
qed

lemma sim_live_erase [simp]: "sim_live rom (snd (sim_erase_range s a sz)) = sim_live rom s"
  by (simp add: sim_erase_range_def)

lemma sim_live_program [simp]: "sim_live rom (snd (sim_program_bytes s a d)) = sim_live rom s"
proof -
  have "sim_live rom (snd (sim_program_from a i d s)) = sim_live rom s" for i
    by (induction a i d s rule: sim_program_from.induct) (auto simp: Let_def split: option.split)
  then show ?thesis by (simp add: sim_program_bytes_def)
qed

lemma sim_live_word [simp]: "sim_live rom (snd (sim_program_word s a v)) = sim_live rom s"
proof -
  have "sim_live rom (snd (sim_store_bytes a d s)) = sim_live rom s" for d
    by (induction a d s rule: sim_store_bytes.induct) (auto simp: Let_def split: option.split)
  then show ?thesis by (simp add: sim_program_word_def)
qed

lemma sim_ops_sel [simp]:
  "fl_erase_range sim_ops = sim_erase_range" "fl_program_bytes sim_ops = sim_program_bytes"
  "fl_program_word sim_ops = sim_program_word"
  by (simp_all add: sim_ops_def)

text \<open>The shadow in use is reliable, and persistent as long as only soft resets occur.\<close>

interpretation sims: persistent_flash sim_ops sim_byte shadowed "sim_live rom" 1 sim_soft_reset for rom :: mem
proof unfold_locales
  fix s s' :: sim_flash and a sz v :: u32 and d :: "u8 list"
  show "fst (fl_erase_range sim_ops s a sz) = FLASH_OK" if "FLASH_BASE_ADDR \<le> a" "unat a + unat sz \<le> 0x08100000"
    by (rule sim.erase_succeeds [OF TrueI that])
  show "fst (fl_program_bytes sim_ops s a d) = FLASH_OK"
    if "\<forall>i<length d. shadowed (a + of_nat i)" "flash_range a (length d)"
    by (rule sim.program_any [OF TrueI that])
  show "fst (fl_program_word sim_ops s a v) = FLASH_OK"
    if "a AND 3 = 0" "\<forall>i<4. shadowed (a + of_nat i)" "flash_range a 4" "erased (sim_byte s) a 4"
    by (rule sim.word_succeeds [OF TrueI that])
  show "sim_byte s' = sim_byte s" "sim_live rom s'" if "sim_live rom s" "sim_soft_reset s s'"
    using that by (simp_all add: sim_live_def sim_soft_reset_def sim_flash_init_def)
qed simp_all

text \<open>A power cycle brings back the ROM.\<close>

lemma sim_power_cycle_rom:
  assumes "sim_power_cycle s s'"
  shows "sim_byte s' = sim_rom s" "sim_live (sim_rom s) s'"
proof -
  obtain t where t: "sh_magic t \<noteq> QEMU_SHADOW_MAGIC" "sim_rom t = sim_rom s" "s' = snd (sim_flash_init t)"
    using assms by (auto simp: sim_power_cycle_def)
  show "sim_byte s' = sim_rom s"
    by (rule ext) (simp add: t(3) t(2) [symmetric] sim_byte_def sim_flash_init_def t(1) shadow_byte_ptr_def)
  show "sim_live (sim_rom s) s'" by (simp add: t sim_flash_init_def sim_live_def)
qed

end
