(* ===== verification/Boot_Cycles.thy ===== *)
theory Boot_Cycles
  imports Boot_Main Restart
begin

text \<open>
  The life of a device between updates: boots (\<^verbatim>\<open>main\<close> up to the jump), what the application
  does to the shared block through \<^verbatim>\<open>bootloader_api.h\<close>, restarts of the flash driver, which leave
  arbitrary SRAM, and boots that lose power between two of their saves or inside one.
  Invariants over all reachable states, by rule induction.
\<close>

section \<open>The step relations\<close>

text \<open>Power is lost only between the steps of a \<open>cycle\<close>; \<open>R\<close> is what a restart does to the flash.\<close>

inductive cycle ::
  "crypto_env \<Rightarrow> 's flash_ops \<Rightarrow> ('s \<Rightarrow> 's \<Rightarrow> bool) \<Rightarrow> 's boot_st \<Rightarrow> 's boot_st \<Rightarrow> bool" for C F R where
  boot: "main C F st = (JumpTo a, st') \<Longrightarrow> cycle C F R st st'"
| boot_recovery: "main C F st = (RecoveryMode, st') \<Longrightarrow> cycle C F R st st'"
| confirm: "cycle C F R st (st\<lparr>bs_shared := bootloader_confirm_boot (bs_shared st)\<rparr>)"
| request: "cycle C F R st (st\<lparr>bs_shared := bootloader_request_ota_swap (bs_shared st)\<rparr>)"
| restart: "R (bs_flash st) s \<Longrightarrow> cycle C F R st (st\<lparr>bs_flash := s, bs_shared := any\<rparr>)"

inductive_cases cycle_E: "cycle C F R st st'"

inductive cycles ::
  "crypto_env \<Rightarrow> 's flash_ops \<Rightarrow> ('s \<Rightarrow> 's \<Rightarrow> bool) \<Rightarrow> 's boot_st \<Rightarrow> 's boot_st \<Rightarrow> bool" for C F R where
  cycles_refl: "cycles C F R st st"
| cycles_step: "cycles C F R st st1 \<Longrightarrow> cycle C F R st1 st2 \<Longrightarrow> cycles C F R st st2"

text \<open>
  The flash operations of a boot are its saves.  \<open>boot_save_list\<close> collects the records \<open>main\<close>
  saves, in order, with the branches of \<open>main\<close>; \<open>main_saves\<close> below shows that these are all.
\<close>

definition saved :: "'s flash_ops \<Rightarrow> BootConfig_t list \<Rightarrow> 's \<Rightarrow> 's" where
  "saved F cs s = fold (\<lambda>c s. snd (boot_config_save F s c)) cs s"

definition swap_saves :: "crypto_env \<Rightarrow> 's flash_ops \<Rightarrow> BootConfig_t \<Rightarrow> 's boot_st \<Rightarrow> BootConfig_t list" where
  "swap_saves C F cfg st =
     (let inactive = memory_map_other_slot (cfg_active_slot cfg);
          addr = memory_map_slot_addr inactive;
          hdr = hdr_of_bytes (snd (fl_read F (bs_flash st) addr FIRMWARE_HEADER_SIZE));
          cfg2 = (boot_config_record_ota_to_slot cfg inactive (fh_version hdr))
            \<lparr>cfg_active_slot := inactive, cfg_boot_attempts := 0\<rparr>
      in if sb_ota_pending (bs_shared st) = 0 \<or> \<not> crypto_verify_firmware C F (bs_flash st) addr
           \<or> fst (fl_read F (bs_flash st) addr FIRMWARE_HEADER_SIZE) \<noteq> FLASH_OK \<or> fh_magic hdr \<noteq> FIRMWARE_MAGIC
           \<or> \<not> boot_config_firmware_allowed cfg (fh_version hdr) then []
         else if crypto_verify_firmware C F (saved F [cfg2] (bs_flash st)) addr then [cfg2]
         else [cfg2, cfg2\<lparr>cfg_active_slot := cfg_active_slot cfg\<rparr>])"

definition boot_save_list :: "crypto_env \<Rightarrow> 's flash_ops \<Rightarrow> 's boot_st \<Rightarrow> BootConfig_t list" where
  "boot_save_list C F st =
     (let (ok, cfg) = boot_config_load C F (bs_flash st);
          (cfg1, d1, st1) = check_app_confirmation cfg (\<not> ok) st;
          st2 = (if d1 then save_or_warn F cfg1 st1 else st1);
          (cfg3, d3, st3) = process_ota_pending_swap C F cfg1 False st2;
          st4 = (if d3 then save_or_warn F cfg3 st3 else st3);
          (slot, cfg4, d4) = pick_slot_to_boot C F (bs_flash st4) cfg3 False
      in (if d1 then [cfg1] else []) @ swap_saves C F cfg1 st2 @ (if d3 then [cfg3] else [])
         @ (if d4 then [cfg4] else []))"

text \<open>
  What the flash may hold when power is lost in a boot: some of its saves done, and of the next
  one the erase and any whole number of programming units of the record's body.
\<close>

inductive cut_boot ::
  "crypto_env \<Rightarrow> 's flash_ops \<Rightarrow> nat \<Rightarrow> 's boot_st \<Rightarrow> 's \<Rightarrow> bool" for C F g st where
  between: "boot_save_list C F st = cs @ ds \<Longrightarrow> cut_boot C F g st (saved F cs (bs_flash st))"
| inside: "boot_save_list C F st = cs @ c # ds \<Longrightarrow> g dvd k \<Longrightarrow> k \<le> 20
    \<Longrightarrow> cut_boot C F g st (save_interrupted F (saved F cs (bs_flash st)) c k)"

inductive loss_cycles ::
  "crypto_env \<Rightarrow> 's flash_ops \<Rightarrow> ('s \<Rightarrow> 's \<Rightarrow> bool) \<Rightarrow> nat \<Rightarrow> 's boot_st \<Rightarrow> 's boot_st \<Rightarrow> bool" for C F R g where
  loss_refl: "loss_cycles C F R g st st"
| loss_step: "loss_cycles C F R g st st1 \<Longrightarrow> cycle C F R st1 st2 \<Longrightarrow> loss_cycles C F R g st st2"
| loss_cut: "loss_cycles C F R g st st1 \<Longrightarrow> cut_boot C F g st1 s \<Longrightarrow> R s s'
    \<Longrightarrow> loss_cycles C F R g st (st1\<lparr>bs_flash := s', bs_shared := any\<rparr>)"

section \<open>The saves of a boot\<close>

lemma saved_simps [simp]:
  "saved F [] s = s" "saved F (c # cs) s = saved F cs (snd (boot_config_save F s c))"
  "saved F (cs @ ds) s = saved F ds (saved F cs s)"
  by (simp_all add: saved_def)

lemma swap_is_saves:
  "process_ota_pending_swap C F cfg d st = (cfg', d', st') \<Longrightarrow> bs_flash st' = saved F (swap_saves C F cfg st) (bs_flash st)"
  by (auto simp: process_ota_pending_swap_def swap_saves_def Let_def split: prod.splits if_splits)

lemma main_saves: "bs_flash (snd (main C F st)) = saved F (boot_save_list C F st) (bs_flash st)"
proof -
  obtain ok cfg where l: "boot_config_load C F (bs_flash st) = (ok, cfg)" by fastforce
  obtain cfg1 d1 st1 where c: "check_app_confirmation cfg (\<not> ok) st = (cfg1, d1, st1)"
    by (metis prod_cases3)
  have f1: "bs_flash st1 = bs_flash st" using c by (auto simp: check_app_confirmation_def Let_def split: if_splits)
  let ?st2 = "if d1 then save_or_warn F cfg1 st1 else st1"
  obtain cfg3 d3 st3 where p: "process_ota_pending_swap C F cfg1 False ?st2 = (cfg3, d3, st3)"
    by (metis prod_cases3)
  let ?st4 = "if d3 then save_or_warn F cfg3 st3 else st3"
  obtain slot cfg4 d4 where k: "pick_slot_to_boot C F (bs_flash ?st4) cfg3 False = (slot, cfg4, d4)"
    by (metis prod_cases3)
  have "boot_prepare C F st = (cfg3, ?st4)" by (simp add: boot_prepare_def l c p)
  then have "bs_flash (snd (main C F st)) = bs_flash (if d4 then save_or_warn F cfg4 ?st4 else ?st4)"
    by (simp add: main_split boot_finish_def k Let_def)
  also have "\<dots> = saved F (boot_save_list C F st) (bs_flash st)"
    unfolding boot_save_list_def l prod.case c Let_def p k using f1 swap_is_saves [OF p] by simp
  finally show ?thesis .
qed

text \<open>What holds of the loaded record and survives the steps of a boot holds of every record it saves.\<close>

lemma saved_records:
  assumes dev: "flash_device F byte writable" and pk: "length (public_key_sha256 C) = 32"
    and P: "P (loaded_cfg C (byte (bs_flash st)))"
    and conf: "\<And>c d s c' d' s'. check_app_confirmation c d s = (c', d', s' :: 's boot_st) \<Longrightarrow> P c \<Longrightarrow> P c'"
    and commit: "\<And>c v. P c \<Longrightarrow> P (committed_cfg c v)"
    and revert: "\<And>c v. P c \<Longrightarrow> P ((committed_cfg c v)\<lparr>cfg_active_slot := cfg_active_slot c\<rparr>)"
    and pick: "\<And>n s c d slot c' d'. pick_loop n C F s c d = (slot, c', d') \<Longrightarrow> P c \<Longrightarrow> P c'"
  shows "\<forall>c\<in>set (boot_save_list C (F :: 's flash_ops) st). P c"
proof -
  let ?l = "loaded_cfg C (byte (bs_flash st))" and ?ok = "boot_config_validate (stored_cfg (byte (bs_flash st)))"
  obtain cfg1 d1 st1 where c: "check_app_confirmation ?l (\<not> ?ok) st = (cfg1, d1, st1)" by (metis prod_cases3)
  let ?st2 = "if d1 then save_or_warn F cfg1 st1 else st1"
  obtain cfg3 d3 st3 where p: "process_ota_pending_swap C F cfg1 False ?st2 = (cfg3, d3, st3)"
    by (metis prod_cases3)
  let ?st4 = "if d3 then save_or_warn F cfg3 st3 else st3"
  obtain slot cfg4 d4 where k: "pick_slot_to_boot C F (bs_flash ?st4) cfg3 False = (slot, cfg4, d4)"
    by (metis prod_cases3)
  have P1: "P cfg1" by (rule conf [OF c P])
  have cm: "(boot_config_record_ota_to_slot cfg1 (memory_map_other_slot (cfg_active_slot cfg1)) v)
      \<lparr>cfg_active_slot := memory_map_other_slot (cfg_active_slot cfg1), cfg_boot_attempts := 0\<rparr> = committed_cfg cfg1 v" for v
    by (simp add: committed_cfg_def Let_def)
  have P3: "P cfg3"
    using p P1 commit [OF P1] revert [OF P1]
    by (auto simp: process_ota_pending_swap_def Let_def cm split: prod.splits if_splits)
  have P4: "P cfg4" using pick k P3 by (simp add: pick_slot_to_boot_def)
  have sw: "P c" if "c \<in> set (swap_saves C F cfg1 ?st2)" for c
    using that commit [OF P1] revert [OF P1] by (auto simp: swap_saves_def Let_def cm split: if_splits)
  have l: "boot_config_load C F (bs_flash st) = (?ok, ?l)" by (rule boot_config_load_eq [OF dev pk])
  show ?thesis
    unfolding boot_save_list_def l prod.case c Let_def p k using P1 P3 P4 sw by auto
qed

text \<open>Without a valid record the first thing a boot does is to save one.\<close>

lemma repair_saves:
  assumes dev: "flash_device F byte writable" and pk: "length (public_key_sha256 C) = 32"
    and bad: "\<not> boot_config_validate (stored_cfg (byte (bs_flash st)))"
  shows "boot_save_list C F st \<noteq> []"
proof -
  obtain cfg1 d1 st1 where c: "check_app_confirmation (loaded_cfg C (byte (bs_flash st))) True st = (cfg1, d1, st1)"
    by (metis prod_cases3)
  have d1 using c by (auto simp: check_app_confirmation_def Let_def split: if_splits)
  then show ?thesis
    by (simp add: boot_save_list_def boot_config_load_eq [OF dev pk] bad c Let_def split: prod.split)
qed

text \<open>The fields every record of a boot has.\<close>

definition names_slot :: "BootConfig_t \<Rightarrow> bool" where
  "names_slot c \<longleftrightarrow> cfg_magic c = BOOT_CONFIG_MAGIC \<and> cfg_active_slot c \<in> {SLOT_A, SLOT_B}"

lemma names_slot_loaded: "names_slot (loaded_cfg C m) \<longleftrightarrow> cfg_active_slot (loaded_cfg C m) \<in> {SLOT_A, SLOT_B}"
  by (simp add: names_slot_def loaded_magic)

lemma names_slot_stamp [simp]: "names_slot (boot_config_stamp_crc c) = names_slot c"
  by (simp add: names_slot_def boot_config_stamp_crc_def)

lemma names_slot_recovered: "names_slot (recovered_cfg a b)"
  using recovered_active [of a b] by (simp add: names_slot_def recovered_cfg_def boot_config_default_def boot_config_stamp_crc_def)

section \<open>Power lost in a save\<close>

context reliable_flash
begin

text \<open>A record whose body was written and whose checksum is the erased word is complete.\<close>

lemma torn_complete:
  "torn_record c 20 = cfg_bytes (boot_config_stamp_crc c) \<longleftrightarrow> cfg_crc32 (boot_config_stamp_crc c) = 0xFFFFFFFF"
proof -
  have r: "replicate 4 0xFF = le32 0xFFFFFFFF" by code_simp
  have s: "cfg_bytes (boot_config_stamp_crc c) = take 20 (cfg_bytes (boot_config_stamp_crc c)) @ le32 (cfg_crc32 (boot_config_stamp_crc c))"
    by (rule cfg_bytes_split [symmetric])
  have t: "torn_record c 20 = take 20 (cfg_bytes (boot_config_stamp_crc c)) @ le32 0xFFFFFFFF"
    by (simp add: torn_record_def r [symmetric])
  have "le32 x = le32 y \<longleftrightarrow> x = y" for x y :: u32 using rd_le32 [of x "[]"] rd_le32 [of y "[]"] by (metis append_Nil2)
  then show ?thesis unfolding t by (subst s) auto
qed

lemma save_interrupted_validate:
  assumes g: "good s" and k: "k \<le> 20" "gran dvd k"
  shows "boot_config_validate (stored_cfg (byte (save_interrupted F s c k)))
      \<longleftrightarrow> k = 20 \<and> cfg_crc32 (boot_config_stamp_crc c) = 0xFFFFFFFF \<and> cfg_magic c = BOOT_CONFIG_MAGIC" (is ?v)
    and "boot_config_validate (stored_cfg (byte (save_interrupted F s c k)))
      \<Longrightarrow> stored_cfg (byte (save_interrupted F s c k)) = boot_config_stamp_crc c"
proof -
  let ?s1 = "save_interrupted F s c k"
  have st: "stored_cfg (byte ?s1) = cfg_of_bytes (torn_record c k)"
    unfolding stored_cfg_def save_interrupted_bytes [OF g k] ..
  have full: "stored_cfg (byte ?s1) = boot_config_stamp_crc c" if "torn_record c k = cfg_bytes (boot_config_stamp_crc c)"
    unfolding st that by (simp add: codec_simps)
  have lt: "torn_record c k \<noteq> cfg_bytes (boot_config_stamp_crc c)" if "k < 20" "cfg_magic c = BOOT_CONFIG_MAGIC"
  proof
    assume "torn_record c k = cfg_bytes (boot_config_stamp_crc c)"
    then have "cfg_magic (cfg_of_bytes (torn_record c k)) = BOOT_CONFIG_MAGIC" using that(2) by (simp add: codec_simps boot_config_stamp_crc_def)
    moreover have "cfg_magic (cfg_of_bytes (torn_record c k)) \<noteq> BOOT_CONFIG_MAGIC"
      by (rule cfg_prefix_magic [OF that(1) torn_length]) (use k in \<open>simp_all add: torn_record_def\<close>)
    ultimately show False by simp
  qed
  have ti: "torn_record c k = cfg_bytes (boot_config_stamp_crc c)" if "boot_config_validate (stored_cfg (byte ?s1))"
    using torn_invalid [of k c] that k(1) by (auto simp: st)
  show "stored_cfg (byte ?s1) = boot_config_stamp_crc c" if "boot_config_validate (stored_cfg (byte ?s1))"
    by (rule full [OF ti [OF that]])
  show ?v
  proof
    assume v: "boot_config_validate (stored_cfg (byte ?s1))"
    have m: "cfg_magic c = BOOT_CONFIG_MAGIC" using v full [OF ti [OF v]] by (simp add: validate_iff)
    then have "k = 20" using lt ti [OF v] k(1) by (cases "k < 20") auto
    then show "k = 20 \<and> cfg_crc32 (boot_config_stamp_crc c) = 0xFFFFFFFF \<and> cfg_magic c = BOOT_CONFIG_MAGIC"
      using m ti [OF v] torn_complete by simp
  next
    assume a: "k = 20 \<and> cfg_crc32 (boot_config_stamp_crc c) = 0xFFFFFFFF \<and> cfg_magic c = BOOT_CONFIG_MAGIC"
    then have "stored_cfg (byte ?s1) = boot_config_stamp_crc c" using full torn_complete [of c] by blast
    then show "boot_config_validate (stored_cfg (byte ?s1))" using a by (simp add: validate_iff)
  qed
qed

text \<open>The load after the loss: what slot B alone gives, or the record where it is complete.\<close>

lemma interrupted_slots:
  assumes g: "good s" and k: "k \<le> 20"
  shows "\<not> image_ok C (byte (save_interrupted F s c k)) SLOT_A_ADDR"
    and "image_ok C (byte (save_interrupted F s c k)) SLOT_B_ADDR \<longleftrightarrow> image_ok C (byte s) SLOT_B_ADDR"
    and "slot_version C (byte (save_interrupted F s c k)) SLOT_B_ADDR = slot_version C (byte s) SLOT_B_ADDR"
proof -
  let ?s1 = "save_interrupted F s c k"
  show "\<not> image_ok C (byte ?s1) SLOT_A_ADDR"
    by (rule image_ok_erased) (rule save_interrupted_frame(1) [OF g k], simp add: in_range_def)
  have eq: "mem_eq_on SLOT_B_ADDR 471040 (byte ?s1) (byte s)"
    using save_interrupted_frame(2) [OF g k] by (simp add: mem_eq_on_def)
  then show b: "image_ok C (byte ?s1) SLOT_B_ADDR \<longleftrightarrow> image_ok C (byte s) SLOT_B_ADDR" by (rule image_ok_cong)
  have "image_header (byte ?s1) SLOT_B_ADDR = image_header (byte s) SLOT_B_ADDR"
    using mem_eq_on_sub [OF eq, of 0 512] by (intro image_header_cong) simp
  then show "slot_version C (byte ?s1) SLOT_B_ADDR = slot_version C (byte s) SLOT_B_ADDR"
    using b by (simp add: slot_version_def)
qed

lemma interrupted_good:
  assumes "good s" "k \<le> 20"
  shows "good (save_interrupted F s c k)"
  unfolding save_interrupted_def
  by (intro program_good erase_good assms(1)) (use assms(2) in simp)

lemma interrupted_load:
  assumes g: "good s" and pk: "length (public_key_sha256 C) = 32" and k: "k \<le> 20" "gran dvd k"
  shows "boot_config_load C F (save_interrupted F s c k)
    = (if k = 20 \<and> cfg_crc32 (boot_config_stamp_crc c) = 0xFFFFFFFF \<and> cfg_magic c = BOOT_CONFIG_MAGIC
       then (True, boot_config_stamp_crc c)
       else (False, recovered_cfg None (slot_version C (byte s) SLOT_B_ADDR)))"
proof -
  let ?s1 = "save_interrupted F s c k"
  have a: "slot_version C (byte ?s1) SLOT_A_ADDR = None"
    using interrupted_slots(1) [OF g k(1)] by (simp add: slot_version_def)
  show ?thesis
    using boot_config_load_eq [OF flash_device_axioms pk, of ?s1] save_interrupted_validate [OF g k, of c]
      interrupted_slots(3) [OF g k(1)]
    by (auto simp: loaded_cfg_def a)
qed

section \<open>Invariants\<close>

abbreviation cfg_of :: "crypto_env \<Rightarrow> 's boot_st \<Rightarrow> BootConfig_t" where
  "cfg_of C st \<equiv> loaded_cfg C (byte (bs_flash st))"

text \<open>After some saves.\<close>

lemma saved_state:
  assumes g: "good s" and m: "\<forall>c\<in>set cs. cfg_magic c = BOOT_CONFIG_MAGIC"
  shows "good (saved F cs s)"
    and "image_ok C (byte (saved F cs s)) SLOT_B_ADDR \<longleftrightarrow> image_ok C (byte s) SLOT_B_ADDR"
    and "cs \<noteq> [] \<Longrightarrow> \<not> image_ok C (byte (saved F cs s)) SLOT_A_ADDR
      \<and> loaded_cfg C (byte (saved F cs s)) = boot_config_stamp_crc (last cs)"
proof -
  show "good (saved F cs s)" using g by (induction cs arbitrary: s) (simp_all add: save_good)
  show "image_ok C (byte (saved F cs s)) SLOT_B_ADDR \<longleftrightarrow> image_ok C (byte s) SLOT_B_ADDR"
  proof (induction cs arbitrary: s)
    case (Cons c cs)
    then show ?case using save_keeps_slot_b(1) [where s = s and c = c and C = C, OF prod.collapse [symmetric]] by simp
  qed simp
  show "\<not> image_ok C (byte (saved F cs s)) SLOT_A_ADDR
      \<and> loaded_cfg C (byte (saved F cs s)) = boot_config_stamp_crc (last cs)" if "cs \<noteq> []"
    using that g m
  proof (induction cs arbitrary: s)
    case (Cons c cs)
    then show ?case using save_good [of s c] by (cases "cs = []") (simp_all add: save_no_slot_a save_loaded)
  qed simp
qed

text \<open>
  A boot cut short: nothing was written, or slot A is gone and the next load gives a record the
  boot saved or one recovered from slot B.
\<close>

lemma cut_effect:
  assumes pk: "length (public_key_sha256 C) = 32" and g: "good (bs_flash st)"
    and m: "\<forall>c\<in>set (boot_save_list C F st). cfg_magic c = BOOT_CONFIG_MAGIC"
    and cut: "cut_boot C F gran st s"
  shows "good s"
    and "image_ok C (byte s) SLOT_B_ADDR \<longleftrightarrow> image_ok C (byte (bs_flash st)) SLOT_B_ADDR"
    and "s = bs_flash st \<or> \<not> image_ok C (byte s) SLOT_A_ADDR
      \<and> (loaded_cfg C (byte s) \<in> boot_config_stamp_crc ` set (boot_save_list C F st)
         \<or> (\<exists>v. loaded_cfg C (byte s) = recovered_cfg None v))"
proof -
  have "good s \<and> (image_ok C (byte s) SLOT_B_ADDR \<longleftrightarrow> image_ok C (byte (bs_flash st)) SLOT_B_ADDR)
    \<and> (s = bs_flash st \<or> \<not> image_ok C (byte s) SLOT_A_ADDR
      \<and> (loaded_cfg C (byte s) \<in> boot_config_stamp_crc ` set (boot_save_list C F st)
         \<or> (\<exists>v. loaded_cfg C (byte s) = recovered_cfg None v)))"
    using cut
  proof (cases rule: cut_boot.cases)
    case (between cs ds)
    have mc: "\<forall>c\<in>set cs. cfg_magic c = BOOT_CONFIG_MAGIC" using m between by simp
    note sv = saved_state [OF g mc]
    show ?thesis
    proof (cases "cs = []")
      case False
      then have "last cs \<in> set (boot_save_list C F st)" by (simp add: between)
      then show ?thesis using sv False by (simp add: between(1))
    qed (use between g in simp)
  next
    case (inside cs c ds k)
    have mc: "\<forall>c\<in>set cs. cfg_magic c = BOOT_CONFIG_MAGIC" using m inside by simp
    note sv = saved_state [OF g mc]
    note sl = interrupted_slots [OF sv(1) inside(4)] and il = interrupted_load [OF sv(1) pk inside(4,3)]
    have "loaded_cfg C (byte s) = snd (boot_config_load C F s)"
      by (simp add: boot_config_load_eq [OF flash_device_axioms pk])
    also have "\<dots> = boot_config_stamp_crc c \<or> (\<exists>v. \<dots> = recovered_cfg None v)"
      unfolding inside(1) il by auto
    finally have "loaded_cfg C (byte s) \<in> boot_config_stamp_crc ` set (boot_save_list C F st)
         \<or> (\<exists>v. loaded_cfg C (byte s) = recovered_cfg None v)" using inside(2) by auto
    then show ?thesis
      using interrupted_good [OF sv(1) inside(4)] sl sv(2) by (simp add: inside(1))
  qed
  then show "good s" "image_ok C (byte s) SLOT_B_ADDR \<longleftrightarrow> image_ok C (byte (bs_flash st)) SLOT_B_ADDR"
    "s = bs_flash st \<or> \<not> image_ok C (byte s) SLOT_A_ADDR
      \<and> (loaded_cfg C (byte s) \<in> boot_config_stamp_crc ` set (boot_save_list C F st)
         \<or> (\<exists>v. loaded_cfg C (byte s) = recovered_cfg None v))" by blast+
qed

lemma records_magic:
  assumes pk: "length (public_key_sha256 C) = 32"
  shows "\<forall>c\<in>set (boot_save_list C F st). cfg_magic c = BOOT_CONFIG_MAGIC"
proof (rule saved_records [OF flash_device_axioms pk])
  show "cfg_magic (cfg_of C st) = BOOT_CONFIG_MAGIC" by (rule loaded_magic)
  show "cfg_magic c' = BOOT_CONFIG_MAGIC"
    if "pick_loop n C F s c d = (slot, c', d')" "cfg_magic c = BOOT_CONFIG_MAGIC" for n s c d slot c' d'
    using pick_loop_frame(4) [OF that(1)] that(2) by simp
qed (auto simp: check_app_confirmation_def Let_def split: if_splits)

lemma records_name_slot:
  assumes pk: "length (public_key_sha256 C) = 32" and act: "cfg_active_slot (cfg_of C st) \<in> {SLOT_A, SLOT_B}"
  shows "\<forall>c\<in>set (boot_save_list C F st). names_slot c"
proof (rule saved_records [OF flash_device_axioms pk])
  show "names_slot (cfg_of C st)" using act by (simp only: names_slot_loaded)
  show "names_slot c'" if "pick_loop n C F s c d = (slot, c', d')" "names_slot c" for n s c d slot c' d'
    using pick_loop_frame(4) [OF that(1)] pick_active [OF that(1)] that(2) by (simp add: names_slot_def)
  show "names_slot (committed_cfg c v)" if "names_slot c" for c v
    using that other_slot_in by (simp add: names_slot_def)
  show "names_slot ((committed_cfg c v)\<lparr>cfg_active_slot := cfg_active_slot c\<rparr>)" if "names_slot c" for c v
    using that by (simp add: names_slot_def)
qed (auto simp: names_slot_def check_app_confirmation_def Let_def split: if_splits)

lemma cut_names_slot:
  assumes pk: "length (public_key_sha256 C) = 32" and g: "good (bs_flash st)"
    and act: "cfg_active_slot (cfg_of C st) \<in> {SLOT_A, SLOT_B}" and cut: "cut_boot C F gran st s"
  shows "cfg_active_slot (loaded_cfg C (byte s)) \<in> {SLOT_A, SLOT_B}"
  using cut_effect(3) [OF pk g records_magic [OF pk] cut]
proof (elim disjE conjE)
  assume "loaded_cfg C (byte s) \<in> boot_config_stamp_crc ` set (boot_save_list C F st)"
  then show ?thesis using records_name_slot [OF pk act] by (auto simp: names_slot_def)
next
  assume "\<exists>v. loaded_cfg C (byte s) = recovered_cfg None v"
  then show ?thesis using recovered_active by metis
qed (use act in simp)

end

lemma cycle_cases:
  assumes "cycle C F R st st'"
  obtains "bs_flash st' = bs_flash st" | out where "main C F st = (out, st')"
  | "R (bs_flash st) (bs_flash st')"
  using assms by (elim cycle_E) auto

context persistent_flash
begin

text \<open>Over boots that complete, the floor never falls.\<close>

lemma cycles_invariants:
  assumes pk: "length (public_key_sha256 C) = 32" and g: "good (bs_flash st)" and c: "cycles C F restart st st'"
  shows "boot_config_antidowngrade_floor (cfg_of C st) \<le> boot_config_antidowngrade_floor (cfg_of C st')
    \<and> (cfg_active_slot (cfg_of C st) \<in> {SLOT_A, SLOT_B} \<longrightarrow> cfg_active_slot (cfg_of C st') \<in> {SLOT_A, SLOT_B})
    \<and> (\<not> image_ok C (byte (bs_flash st)) SLOT_A_ADDR \<longrightarrow> \<not> image_ok C (byte (bs_flash st')) SLOT_A_ADDR)
    \<and> good (bs_flash st')"
  using c g
proof (induction rule: cycles.induct)
  case (cycles_step st st1 st2)
  note IH = cycles_step.IH [OF cycles_step.prems]
  then have g1: "good (bs_flash st1)" by blast
  from cycles_step.hyps(2) show ?case
  proof (cases rule: cycle_cases)
    case (2 out)
    from main_state [OF pk g1 2] IH show ?thesis by (meson order_trans)
  next
    case 3
    then show ?thesis using IH restart_keeps [OF g1 3] restart_good [OF g1 3] by simp
  qed (use IH in simp)
qed simp

text \<open>Over boots that may be cut short, what survives: both verdicts and the name of a slot.\<close>

lemma loss_cycles_invariants:
  assumes pk: "length (public_key_sha256 C) = 32" and g: "good (bs_flash st)"
    and c: "loss_cycles C F restart gran st st'"
  shows "good (bs_flash st')
    \<and> (image_ok C (byte (bs_flash st')) SLOT_B_ADDR \<longleftrightarrow> image_ok C (byte (bs_flash st)) SLOT_B_ADDR)
    \<and> (\<not> image_ok C (byte (bs_flash st)) SLOT_A_ADDR \<longrightarrow> \<not> image_ok C (byte (bs_flash st')) SLOT_A_ADDR)
    \<and> (cfg_active_slot (cfg_of C st) \<in> {SLOT_A, SLOT_B} \<longrightarrow> cfg_active_slot (cfg_of C st') \<in> {SLOT_A, SLOT_B})"
  using c g
proof (induction rule: loss_cycles.induct)
  case (loss_step st st1 st2)
  note IH = loss_step.IH [OF loss_step.prems]
  then have g1: "good (bs_flash st1)" by blast
  from loss_step.hyps(2) show ?case
  proof (cases rule: cycle_cases)
    case (2 out)
    from main_state [OF pk g1 2] main_keeps_slot_b [OF pk, of st1] 2 IH show ?thesis by simp
  next
    case 3
    then show ?thesis using IH restart_keeps [OF g1 3] restart_good [OF g1 3] by simp
  qed (use IH in simp)
next
  case (loss_cut st st1 s s' any)
  note IH = loss_cut.IH [OF loss_cut.prems]
  then have g1: "good (bs_flash st1)" by blast
  note ce = cut_effect [OF pk g1 records_magic [OF pk] loss_cut.hyps(2)]
  note keep = restart_keeps [OF ce(1) loss_cut.hyps(3)]
  have "cfg_active_slot (loaded_cfg C (byte s)) \<in> {SLOT_A, SLOT_B}" if "cfg_active_slot (cfg_of C st1) \<in> {SLOT_A, SLOT_B}"
    by (rule cut_names_slot [OF pk g1 that loss_cut.hyps(2)])
  then show ?case using IH ce restart_good [OF ce(1) loss_cut.hyps(3)] by (auto simp: keep)
qed simp

text \<open>
  A completed boot from slot A is the last one: from then on, whatever happens to the shared
  block and wherever boots are cut short, a boot ends in slot B, or in recovery when slot B
  holds no valid image.
\<close>

lemma after_slot_a:
  assumes pk: "length (public_key_sha256 C) = 32" and g: "good (bs_flash st)"
    and act: "cfg_active_slot (cfg_of C st) \<in> {SLOT_A, SLOT_B}"
    and main: "main C F st = (JumpTo SLOT_A_ADDR, st1)"
    and c: "loss_cycles C F restart gran st1 st2"
  shows "fst (main C F st2)
    = (if image_ok C (byte (bs_flash st)) SLOT_B_ADDR then JumpTo SLOT_B_ADDR else RecoveryMode)"
proof -
  have gp: "good (bs_flash (snd (boot_prepare C F st)))"
    by (rule prepare_state(3) [OF pk g prod.collapse [symmetric]])
  have g1: "good (bs_flash st1)" by (rule main_state(4) [OF pk g main])
  have no1: "\<not> image_ok C (byte (bs_flash st1)) SLOT_A_ADDR"
    using main_jump_outcome [OF pk main] save_succeeds [OF gp] by simp
  have act1: "cfg_active_slot (cfg_of C st1) \<in> {SLOT_A, SLOT_B}" by (rule main_state(2) [OF pk g main act])
  note li = loss_cycles_invariants [OF pk g1 c]
  have "image_ok C (byte (bs_flash st1)) SLOT_B_ADDR \<longleftrightarrow> image_ok C (byte (bs_flash st)) SLOT_B_ADDR"
    using main_keeps_slot_b [OF pk, of st] main by simp
  then show ?thesis using main_without_slot_a [OF pk, of st2] li no1 act1 by presburger
qed

text \<open>Once slot A is gone, a valid slot B is booted every time, confirmed or not.\<close>

lemma slot_b_forever:
  assumes pk: "length (public_key_sha256 C) = 32" and g: "good (bs_flash st)"
    and act: "cfg_active_slot (cfg_of C st) \<in> {SLOT_A, SLOT_B}"
    and no: "\<not> image_ok C (byte (bs_flash st)) SLOT_A_ADDR"
    and ok: "image_ok C (byte (bs_flash st)) SLOT_B_ADDR"
    and c: "loss_cycles C F restart gran st st'"
  shows "fst (main C F st') = JumpTo SLOT_B_ADDR"
  using main_without_slot_a [OF pk, of st'] loss_cycles_invariants [OF pk g c] act no ok by presburger

text \<open>An image in slot A without a stored record is lost as soon as a boot writes anything.\<close>

lemma main_loses_a:
  assumes pk: "length (public_key_sha256 C) = 32" and g: "good (bs_flash st)"
    and no: "boot_config_validate (stored_cfg (byte (bs_flash st))) \<Longrightarrow> \<not> image_ok C (byte (bs_flash st)) SLOT_A_ADDR"
  shows "\<not> image_ok C (byte (bs_flash (snd (main C F st)))) SLOT_A_ADDR"
proof (cases "boot_save_list C F st = []")
  case True
  then show ?thesis using no repair_saves [OF flash_device_axioms pk, of st] main_saves [of C F st] by auto
next
  case False
  then show ?thesis using saved_state(3) [OF g records_magic [OF pk]] by (simp add: main_saves)
qed

lemma unrecorded_a_lost:
  assumes pk: "length (public_key_sha256 C) = 32" and g: "good (bs_flash st)"
    and c: "loss_cycles C F restart gran st st'"
    and no: "boot_config_validate (stored_cfg (byte (bs_flash st))) \<Longrightarrow> \<not> image_ok C (byte (bs_flash st)) SLOT_A_ADDR"
  shows "boot_config_validate (stored_cfg (byte (bs_flash st'))) \<longrightarrow> \<not> image_ok C (byte (bs_flash st')) SLOT_A_ADDR"
  using c g no
proof (induction rule: loss_cycles.induct)
  case (loss_step st st1 st2)
  note IH = loss_step.IH [OF loss_step.prems]
  have g1: "good (bs_flash st1)" using loss_cycles_invariants [OF pk loss_step.prems(1) loss_step.hyps(1)] by blast
  from loss_step.hyps(2) show ?case
  proof (cases rule: cycle_cases)
    case (2 out)
    then show ?thesis using main_loses_a [OF pk g1] IH by (metis snd_conv)
  next
    case 3
    then show ?thesis using IH restart_keeps [OF g1 3] by simp
  qed (use IH in simp)
next
  case (loss_cut st st1 s s' any)
  note IH = loss_cut.IH [OF loss_cut.prems]
  have g1: "good (bs_flash st1)" using loss_cycles_invariants [OF pk loss_cut.prems(1) loss_cut.hyps(1)] by blast
  note ce = cut_effect [OF pk g1 records_magic [OF pk] loss_cut.hyps(2)]
  show ?case using IH ce(3) restart_keeps [OF ce(1) loss_cut.hyps(3)] by auto
qed simp

end

end
