(* ===== verification/Config_Types.thy ===== *)
theory Config_Types
  imports Boot_Cycles
begin

text \<open>
  The fields of \<^verbatim>\<open>BootConfig_t\<close> as the boot code types them: a configuration it wrote names one
  of the two slots, counts at most \<open>MAX_BOOT_ATTEMPTS\<close> attempts and leaves the reserved byte
  zero.  Every step of a boot keeps this, so it holds of the stored configuration over the
  life of the device.
\<close>

section \<open>Well-typed configurations\<close>

definition cfg_typed :: "BootConfig_t \<Rightarrow> bool" where
  "cfg_typed c \<longleftrightarrow> cfg_magic c = BOOT_CONFIG_MAGIC \<and> cfg_active_slot c \<in> {SLOT_A, SLOT_B}
     \<and> cfg_boot_attempts c \<le> MAX_BOOT_ATTEMPTS \<and> cfg_reserved c = 0"

lemma typed_attempts [simp]: "(0 :: u8) \<le> MAX_BOOT_ATTEMPTS" "(1 :: u8) \<le> MAX_BOOT_ATTEMPTS"
  by (simp_all add: MAX_BOOT_ATTEMPTS_def)

lemma typed_default: "cfg_typed boot_config_default"
  by (simp add: cfg_typed_def boot_config_default_def boot_config_stamp_crc_def)

lemma stamp_reserved [simp]: "cfg_reserved (boot_config_stamp_crc c) = cfg_reserved c"
  by (simp add: boot_config_stamp_crc_def)

lemma typed_stamp [simp]: "cfg_typed (boot_config_stamp_crc c) = cfg_typed c"
  by (simp add: cfg_typed_def boot_config_stamp_crc_def)

lemma typed_recovered: "cfg_typed (recovered_cfg a b)"
  using typed_default unfolding recovered_cfg_def typed_stamp by (simp add: cfg_typed_def)

text \<open>A device that lost its record starts from a well-typed one.\<close>

lemma typed_loaded:
  assumes "boot_config_validate (stored_cfg m) \<Longrightarrow> cfg_typed (stored_cfg m)"
  shows "cfg_typed (loaded_cfg C m)"
  using assms typed_recovered by (simp add: loaded_cfg_def)

section \<open>The steps of a boot\<close>

lemma typed_confirmation:
  "check_app_confirmation c d st = (c', d', st') \<Longrightarrow> cfg_typed c \<Longrightarrow> cfg_typed c'"
  by (auto simp: check_app_confirmation_def Let_def cfg_typed_def split: if_splits)

lemma typed_record: "cfg_typed c \<Longrightarrow> cfg_typed (boot_config_record_ota_to_slot c slot v)"
  by (simp add: boot_config_record_ota_to_slot_def cfg_typed_def Let_def)

lemma typed_commit: "cfg_typed c \<Longrightarrow> cfg_typed (committed_cfg c v)"
  using typed_record [of c "memory_map_other_slot (cfg_active_slot c)" v] other_slot_in
  by (auto simp: committed_cfg_def cfg_typed_def Let_def)

text \<open>The attempt counter of the image that is booted stays within its bound.\<close>

lemma typed_pick:
  "pick_loop n C F s c d = (slot, c', d') \<Longrightarrow> cfg_typed c \<Longrightarrow> cfg_typed c'"
proof (induction n arbitrary: c d)
  case (Suc n)
  have swap: "cfg_typed (c\<lparr>cfg_active_slot := memory_map_other_slot (cfg_active_slot c), cfg_boot_attempts := 0\<rparr>)"
    using Suc.prems(2) other_slot_in by (auto simp: cfg_typed_def)
  have count: "cfg_typed (c\<lparr>cfg_boot_attempts := cfg_boot_attempts c + 1\<rparr>)"
    if "\<not> MAX_BOOT_ATTEMPTS \<le> cfg_boot_attempts c"
  proof -
    have "cfg_boot_attempts c < MAX_BOOT_ATTEMPTS" using that by simp
    then have "cfg_boot_attempts c + 1 \<le> MAX_BOOT_ATTEMPTS" by (rule inc_le)
    then show ?thesis using Suc.prems(2) by (simp add: cfg_typed_def)
  qed
  show ?case
    using Suc.prems Suc.IH [OF _ swap] swap count
    by (auto simp: Let_def split: if_splits)
qed simp

context flash_device
begin

lemma typed_swap:
  assumes pk: "length (public_key_sha256 C) = 32"
    and swap: "process_ota_pending_swap C F c d st = (c', d', st')" and t: "cfg_typed c"
  shows "cfg_typed c'"
  using pk swap
proof (rule swap_cases)
  fix v assume "c' = (committed_cfg c v)\<lparr>cfg_active_slot := cfg_active_slot c\<rparr>"
  then show ?thesis using typed_commit [OF t, of v] t by (simp add: cfg_typed_def)
qed (use t typed_commit [OF t] in simp_all)

lemma typed_prepare:
  assumes pk: "length (public_key_sha256 C) = 32"
    and prep: "boot_prepare C F st = (c, st')" and t: "cfg_typed (loaded_cfg C (byte (bs_flash st)))"
  shows "cfg_typed c"
proof -
  let ?l = "loaded_cfg C (byte (bs_flash st))"
  obtain cfg1 d1 st1 where
    c: "check_app_confirmation ?l (\<not> boot_config_validate (stored_cfg (byte (bs_flash st)))) st = (cfg1, d1, st1)"
    by (metis prod_cases3)
  let ?st2 = "if d1 then save_or_warn F cfg1 st1 else st1"
  obtain cfg3 d3 st3 where p: "process_ota_pending_swap C F cfg1 False ?st2 = (cfg3, d3, st3)"
    by (metis prod_cases3)
  have "c = cfg3"
    using prep by (simp add: boot_prepare_def boot_config_load_eq [OF flash_device_axioms pk] c Let_def p)
  then show ?thesis using typed_swap [OF pk p typed_confirmation [OF c t]] by simp
qed

end

section \<open>The life of a device\<close>

context reliable_flash
begin

lemma typed_main:
  assumes pk: "length (public_key_sha256 C) = 32" and g: "good (bs_flash st)"
    and main: "main C F st = (out, st')" and t: "cfg_typed (loaded_cfg C (byte (bs_flash st)))"
  shows "cfg_typed (loaded_cfg C (byte (bs_flash st')))"
proof -
  obtain cfg1 st1 where p: "boot_prepare C F st = (cfg1, st1)" by fastforce
  obtain slot c d where k: "pick_loop MAX_SWAP_RETRIES C F (bs_flash st1) cfg1 False = (slot, c, d)"
    by (metis prod_cases3)
  have e: "st' = (if d then save_or_warn F c st1 else st1)"
    using main by (auto simp: main_split p boot_finish_def pick_slot_to_boot_def k Let_def split: if_splits)
  note ps = prepare_state [OF pk g p]
  have t1: "cfg_typed cfg1" by (rule typed_prepare [OF pk p t])
  have tc: "cfg_typed c" by (rule typed_pick [OF k t1])
  then have magic: "cfg_magic c = BOOT_CONFIG_MAGIC" by (simp add: cfg_typed_def)
  show ?thesis
    using t1 tc ps(1) by (cases d) (simp_all add: e save_loaded [OF ps(3) magic])
qed

text \<open>And so are the records of a boot, and what a boot cut short leaves.\<close>

lemma records_typed:
  assumes pk: "length (public_key_sha256 C) = 32" and t: "cfg_typed (cfg_of C st)"
  shows "\<forall>c\<in>set (boot_save_list C F st). cfg_typed c"
proof (rule saved_records [OF flash_device_axioms pk])
  show "cfg_typed (cfg_of C st)" by (rule t)
  show "cfg_typed ((committed_cfg c v)\<lparr>cfg_active_slot := cfg_active_slot c\<rparr>)" if "cfg_typed c" for c v
    using typed_commit [OF that, of v] that by (simp add: cfg_typed_def)
qed (rule typed_confirmation typed_commit typed_pick; assumption)+

lemma cut_typed:
  assumes pk: "length (public_key_sha256 C) = 32" and g: "good (bs_flash st)"
    and t: "cfg_typed (cfg_of C st)" and cut: "cut_boot C F gran st s"
  shows "cfg_typed (loaded_cfg C (byte s))"
  using cut_effect(3) [OF pk g records_magic [OF pk] cut]
proof (elim disjE conjE)
  assume "loaded_cfg C (byte s) \<in> boot_config_stamp_crc ` set (boot_save_list C F st)"
  then show ?thesis using records_typed [OF pk t] by auto
next
  assume "\<exists>v. loaded_cfg C (byte s) = recovered_cfg None v"
  then show ?thesis using typed_recovered by metis
qed (use t in simp)

end

end
