(* ===== verification/Uart.thy ===== *)
theory Uart
  imports Bus
begin

unbundle bit_operations_syntax

text \<open>
  \<^verbatim>\<open>bootloader/src/uart.c\<close>: the USART driver over a register bus, the log formatter, and the
  OTA channel with its polling timeout.  \<open>wire\<close> is a bus whose USART2 receives a given
  sequence of poll outcomes; on it the driver's reads have closed forms (\<open>poll\<close>,
  \<open>poll_many\<close>), which the protocol theories use.
\<close>

section \<open>Registers\<close>

definition RCC_AHB1ENR :: u32 where "RCC_AHB1ENR = 0x40023830"
definition RCC_APB1ENR :: u32 where "RCC_APB1ENR = 0x40023840"
definition RCC_APB2ENR :: u32 where "RCC_APB2ENR = 0x40023844"
definition GPIOA_MODER :: u32 where "GPIOA_MODER = 0x40020000"
definition GPIOA_AFRL :: u32 where "GPIOA_AFRL = 0x40020020"
definition GPIOA_AFRH :: u32 where "GPIOA_AFRH = 0x40020024"
definition USART_SR_OFF :: u32 where "USART_SR_OFF = 0x00"
definition USART_DR_OFF :: u32 where "USART_DR_OFF = 0x04"
definition USART_BRR_OFF :: u32 where "USART_BRR_OFF = 0x08"
definition USART_CR1_OFF :: u32 where "USART_CR1_OFF = 0x0C"
definition USART1_BASE :: u32 where "USART1_BASE = 0x40011000"
definition USART2_BASE :: u32 where "USART2_BASE = 0x40004400"
definition USART_SR_TXE :: u32 where "USART_SR_TXE = push_bit 7 1"
definition USART_SR_RXNE :: u32 where "USART_SR_RXNE = push_bit 5 1"
definition USART_CR1_UE :: u32 where "USART_CR1_UE = push_bit 13 1"
definition USART_CR1_TE :: u32 where "USART_CR1_TE = push_bit 3 1"
definition USART_CR1_RE :: u32 where "USART_CR1_RE = push_bit 2 1"
definition USART1_BRR_115200 :: u32 where "USART1_BRR_115200 = 0x2D9"
definition USART2_BRR_115200 :: u32 where "USART2_BRR_115200 = 0x16C"

lemmas usart_regs =
  USART_SR_OFF_def USART_DR_OFF_def USART_BRR_OFF_def USART_CR1_OFF_def
  USART1_BASE_def USART2_BASE_def

section \<open>The driver\<close>

definition usart_init :: "'h bus \<Rightarrow> u32 \<Rightarrow> u32 \<Rightarrow> 'h \<Rightarrow> 'h" where
  "usart_init B base brr_val h =
     (let h = bus_wr B h (base + USART_CR1_OFF) 0;
          h = bus_wr B h (base + USART_BRR_OFF) brr_val
      in bus_wr B h (base + USART_CR1_OFF) (USART_CR1_UE OR USART_CR1_TE OR USART_CR1_RE))"

text \<open>The bounded wait for an empty transmit register: at most \<open>n\<close> polls.\<close>

fun usart_wait_txe :: "'h bus \<Rightarrow> u32 \<Rightarrow> nat \<Rightarrow> 'h \<Rightarrow> 'h" where
  "usart_wait_txe B base 0 h = h"
| "usart_wait_txe B base (Suc n) h = (case bus_rd B h (base + USART_SR_OFF) of (v, h) \<Rightarrow>
     if v AND USART_SR_TXE \<noteq> 0 then h else usart_wait_txe B base n h)"

definition usart_putc :: "'h bus \<Rightarrow> u32 \<Rightarrow> u8 \<Rightarrow> 'h \<Rightarrow> 'h" where
  "usart_putc B base c h =
     bus_wr B (usart_wait_txe B base 100000 h) (base + USART_DR_OFF) (ucast c)"

definition usart_try_getc :: "'h bus \<Rightarrow> u32 \<Rightarrow> 'h \<Rightarrow> u8 option \<times> 'h" where
  "usart_try_getc B base h = (case bus_rd B h (base + USART_SR_OFF) of (v, h) \<Rightarrow>
     if v AND USART_SR_RXNE \<noteq> 0
     then (case bus_rd B h (base + USART_DR_OFF) of (d, h) \<Rightarrow> (Some (ucast (d AND 0xFF)), h))
     else (None, h))"

definition uart_init :: "'h bus \<Rightarrow> 'h \<Rightarrow> 'h" where
  "uart_init B h =
     (let h = reg_or B RCC_AHB1ENR 1 h;
          h = reg_or B RCC_APB2ENR (push_bit 4 1) h;
          h = reg_or B RCC_APB1ENR (push_bit 17 1) h;
          (mode, h) = bus_rd B h GPIOA_MODER;
          mode = mode AND NOT (push_bit 4 3 OR push_bit 6 3 OR push_bit 18 3 OR push_bit 20 3);
          mode = mode OR (push_bit 4 2 OR push_bit 6 2 OR push_bit 18 2 OR push_bit 20 2);
          h = bus_wr B h GPIOA_MODER mode;
          (afrl, h) = bus_rd B h GPIOA_AFRL;
          afrl = afrl AND NOT (push_bit 8 0xF OR push_bit 12 0xF);
          afrl = afrl OR (push_bit 8 7 OR push_bit 12 7);
          h = bus_wr B h GPIOA_AFRL afrl;
          (afrh, h) = bus_rd B h GPIOA_AFRH;
          afrh = afrh AND NOT (push_bit 4 0xF OR push_bit 8 0xF);
          afrh = afrh OR (push_bit 4 7 OR push_bit 8 7);
          h = bus_wr B h GPIOA_AFRH afrh;
          h = usart_init B USART1_BASE USART1_BRR_115200 h
      in usart_init B USART2_BASE USART2_BRR_115200 h)"

section \<open>The log channel\<close>

definition uart_log_putc :: "'h bus \<Rightarrow> u8 \<Rightarrow> 'h \<Rightarrow> 'h" where
  "uart_log_putc B c h = usart_putc B USART1_BASE c h"

text \<open>A C string is its bytes before the terminator.\<close>

fun uart_log_puts :: "'h bus \<Rightarrow> u8 list \<Rightarrow> 'h \<Rightarrow> 'h" where
  "uart_log_puts B [] h = h"
| "uart_log_puts B (c # cs) h = uart_log_puts B cs (uart_log_putc B c h)"

text \<open>The string literals of the code, which end most lines with CR LF.\<close>

definition ascii :: "string \<Rightarrow> u8 list" where
  "ascii s = map of_char s"

definition crlf :: "u8 list" where
  "crlf = [0x0D, 0x0A]"

definition digit_char :: "bool \<Rightarrow> nat \<Rightarrow> u8" where
  "digit_char upper d = of_nat (if d < 10 then 0x30 + d else (if upper then 0x41 else 0x61) + d - 10)"

text \<open>
  \<open>log_print_uint\<close> fills a buffer from the least significant digit and prints it backwards:
  \<open>digit_loop\<close> is the first loop, \<open>uint_buf\<close> the filled and padded buffer.
\<close>

function digit_loop :: "bool \<Rightarrow> nat \<Rightarrow> nat \<Rightarrow> u8 list \<Rightarrow> u8 list" where
  "digit_loop upper base v buf =
     (if v > 0 \<and> 1 < base
      then digit_loop upper base (v div base) (buf @ [digit_char upper (v mod base)])
      else buf)"
  by pat_completeness auto
termination
  by (relation "measure (\<lambda>(upper, base, v, buf). v)") auto

declare digit_loop.simps [simp del]

definition uint_buf :: "nat \<Rightarrow> nat \<Rightarrow> nat \<Rightarrow> bool \<Rightarrow> u8 list" where
  "uint_buf v base min_width upper =
     (let buf = (if v = 0 then [0x30] else []);
          buf = digit_loop upper base v buf
      in buf @ replicate (min_width - length buf) 0x30)"

definition log_print_uint :: "'h bus \<Rightarrow> nat \<Rightarrow> nat \<Rightarrow> nat \<Rightarrow> bool \<Rightarrow> 'h \<Rightarrow> 'h" where
  "log_print_uint B v base min_width upper h =
     uart_log_puts B (rev (uint_buf v base min_width upper)) h"

text \<open>The variadic arguments, and the format interpreter.\<close>

datatype va_arg = VaInt u32 | VaStr "u8 list option" | VaPtr u32

fun va_u32 :: "va_arg \<Rightarrow> u32" where
  "va_u32 (VaInt x) = x"
| "va_u32 (VaPtr x) = x"
| "va_u32 (VaStr s) = 0"

fun fmt_width :: "nat \<Rightarrow> u8 list \<Rightarrow> nat \<times> u8 list" where
  "fmt_width w (c # cs) = (if 0x30 \<le> c \<and> c \<le> 0x39 then fmt_width (w * 10 + unat (c - 0x30)) cs else (w, c # cs))"
| "fmt_width w [] = (w, [])"

lemma fmt_width_length: "length (snd (fmt_width w cs)) \<le> length cs"
  by (induction w cs rule: fmt_width.induct) auto

definition fmt_directive :: "'h bus \<Rightarrow> u8 \<Rightarrow> nat \<Rightarrow> va_arg list \<Rightarrow> 'h \<Rightarrow> va_arg list \<times> 'h" where
  "fmt_directive B c width args h =
     (if c = 0x63 then (tl args, uart_log_putc B (ucast (va_u32 (hd args))) h)
      else if c = 0x73 then
        (tl args, uart_log_puts B
          (case hd args of VaStr (Some s) \<Rightarrow> s | _ \<Rightarrow> [0x28, 0x6E, 0x75, 0x6C, 0x6C, 0x29]) h)
      else if c = 0x64 then
        (let v = va_u32 (hd args);
             (v, h) = (if sint v < 0 then (- v, uart_log_putc B 0x2D h) else (v, h))
         in (tl args, log_print_uint B (unat v) 10 0 False h))
      else if c = 0x75 then (tl args, log_print_uint B (unat (va_u32 (hd args))) 10 0 False h)
      else if c = 0x78 then (tl args, log_print_uint B (unat (va_u32 (hd args))) 16 width False h)
      else if c = 0x58 then (tl args, log_print_uint B (unat (va_u32 (hd args))) 16 width True h)
      else if c = 0x70 then
        (tl args, log_print_uint B (unat (va_u32 (hd args))) 16 8 False (uart_log_puts B [0x30, 0x78] h))
      else if c = 0x25 then (args, uart_log_putc B 0x25 h)
      else (args, uart_log_putc B 0x3F h))"

text \<open>A \<open>%\<close> at the end of the format reads the terminator as its directive.\<close>

function uart_log_printf :: "'h bus \<Rightarrow> u8 list \<Rightarrow> va_arg list \<Rightarrow> 'h \<Rightarrow> 'h" where
  "uart_log_printf B [] args h = h"
| "uart_log_printf B (c # fmt) args h =
     (if c \<noteq> 0x25 then uart_log_printf B fmt args (uart_log_putc B c h)
      else let fmt = (if fmt \<noteq> [] \<and> hd fmt = 0x30 then tl fmt else fmt);
               (width, fmt) = fmt_width 0 fmt;
               (args, h) = fmt_directive B (if fmt = [] then 0 else hd fmt) width args h
           in uart_log_printf B (if fmt = [] then fmt else tl fmt) args h)"
  by pat_completeness auto
termination
proof (relation "measure (\<lambda>(B, fmt, args, h). length fmt)")
  fix B :: "'h bus" and c :: u8 and fmt fmt1 fmt2 y :: "u8 list" and args args2 :: "va_arg list"
    and h h2 :: 'h and w z
  assume c: "\<not> c \<noteq> 0x25" and f1: "fmt1 = (if fmt \<noteq> [] \<and> hd fmt = 0x30 then tl fmt else fmt)"
    and f2: "z = fmt_width 0 fmt1" "(w, fmt2) = z"
  have "length fmt2 \<le> length fmt1" using fmt_width_length [of 0 fmt1] f2 by (metis snd_conv)
  moreover have "length fmt1 \<le> length fmt" using f1 by simp
  ultimately show "((B, if fmt2 = [] then fmt2 else tl fmt2, args2, h2), (B, c # fmt, args, h))
      \<in> measure (\<lambda>(B, fmt, args, h). length fmt)"
    by (auto simp: less_Suc_eq_le)
qed auto

definition uart_log_hex :: "'h bus \<Rightarrow> u8 list \<Rightarrow> 'h \<Rightarrow> 'h" where
  "uart_log_hex B data h =
     fold (\<lambda>b h. uart_log_printf B [0x25, 0x30, 0x32, 0x78] [VaInt (ucast b)] h) data h"

section \<open>The OTA channel\<close>

definition uart_ota_putc :: "'h bus \<Rightarrow> u8 \<Rightarrow> 'h \<Rightarrow> 'h" where
  "uart_ota_putc B b h = usart_putc B USART2_BASE b h"

definition uart_ota_write :: "'h bus \<Rightarrow> u8 list \<Rightarrow> 'h \<Rightarrow> 'h" where
  "uart_ota_write B buf h = fold (usart_putc B USART2_BASE) buf h"

definition POLLS_PER_MS :: u32 where "POLLS_PER_MS = 1600"

definition getc_budget :: "u32 \<Rightarrow> nat" where
  "getc_budget timeout_ms = unat (ucast timeout_ms * ucast POLLS_PER_MS + 1 :: u64)"

fun getc_loop :: "'h bus \<Rightarrow> nat \<Rightarrow> 'h \<Rightarrow> u8 option \<times> 'h" where
  "getc_loop B 0 h = (None, h)"
| "getc_loop B (Suc budget) h =
     (case usart_try_getc B USART2_BASE h of
        (Some c, h) \<Rightarrow> (Some c, h)
      | (None, h) \<Rightarrow> getc_loop B budget (if budget mod 0x40000 = 0 then iwdg_kick B h else h))"

definition uart_ota_getc :: "'h bus \<Rightarrow> u32 \<Rightarrow> 'h \<Rightarrow> u8 option \<times> 'h" where
  "uart_ota_getc B timeout_ms h = getc_loop B (getc_budget timeout_ms) h"

fun uart_ota_read :: "'h bus \<Rightarrow> nat \<Rightarrow> u32 \<Rightarrow> 'h \<Rightarrow> u8 list \<times> 'h" where
  "uart_ota_read B 0 timeout_ms h = ([], h)"
| "uart_ota_read B (Suc n) timeout_ms h =
     (case uart_ota_getc B timeout_ms h of
        (None, h) \<Rightarrow> ([], h)
      | (Some c, h) \<Rightarrow> (case uart_ota_read B n timeout_ms h of (cs, h) \<Rightarrow> (c # cs, h)))"

section \<open>Printed numbers\<close>

text \<open>The value of a digit, of a buffer (least significant first).\<close>

definition char_digit :: "u8 \<Rightarrow> nat" where
  "char_digit c = (if c < 0x3A then unat c - 0x30 else if c < 0x47 then unat c - 0x37 else unat c - 0x57)"

fun buf_val :: "nat \<Rightarrow> u8 list \<Rightarrow> nat" where
  "buf_val base [] = 0"
| "buf_val base (c # cs) = char_digit c + base * buf_val base cs"

lemma digit_table: "list_all (\<lambda>d. char_digit (digit_char upper d) = d) [0..<16]"
  by (cases upper) (simp_all add: char_digit_def digit_char_def upt_rec)

lemma char_digit_char: "d < 16 \<Longrightarrow> char_digit (digit_char upper d) = d"
  using digit_table [of upper] by (simp only: list_all_iff set_upt atLeastLessThan_iff) simp

lemma buf_val_append: "buf_val base (xs @ ys) = buf_val base xs + base ^ length xs * buf_val base ys"
  by (induction xs) (simp_all add: algebra_simps)

lemma buf_val_pad: "buf_val base (replicate n 0x30) = 0"
  by (induction n) (simp_all add: char_digit_def)

lemma digit_loop_val:
  assumes "2 \<le> base" "base \<le> 16"
  shows "buf_val base (digit_loop upper base v buf) = buf_val base buf + base ^ length buf * v"
proof (induction v arbitrary: buf rule: less_induct)
  case (less v)
  show ?case
  proof (cases "v = 0")
    case True
    then show ?thesis by (subst digit_loop.simps) simp
  next
    case False
    have "buf_val base (digit_loop upper base v buf)
        = buf_val base (digit_loop upper base (v div base) (buf @ [digit_char upper (v mod base)]))"
      using False assms by (subst digit_loop.simps) simp
    also have "\<dots> = buf_val base (buf @ [digit_char upper (v mod base)])
        + base ^ length (buf @ [digit_char upper (v mod base)]) * (v div base)"
      by (rule less) (use False assms in simp)
    also have "\<dots> = buf_val base buf + base ^ length buf * (v mod base) + base ^ length buf * (base * (v div base))"
      using assms by (simp add: buf_val_append char_digit_char less_le_trans [OF mod_less_divisor])
    also have "\<dots> = buf_val base buf + base ^ length buf * (v mod base + base * (v div base))"
      by (simp only: distrib_left add.assoc)
    finally show ?thesis by simp
  qed
qed

lemma digit_loop_length:
  assumes "2 \<le> base" "v < base ^ k"
  shows "length (digit_loop upper base v buf) \<le> length buf + k"
  using assms(2)
proof (induction k arbitrary: v buf)
  case 0
  then show ?case by (subst digit_loop.simps) simp
next
  case (Suc k)
  show ?case
  proof (cases "v = 0")
    case True
    then show ?thesis by (subst digit_loop.simps) simp
  next
    case False
    have "v div base < base ^ k" using Suc.prems assms(1) by (simp add: less_mult_imp_div_less mult.commute)
    from Suc.IH [OF this, of "buf @ [digit_char upper (v mod base)]"] show ?thesis
      using False assms(1) by (subst digit_loop.simps) simp
  qed
qed

text \<open>The buffer denotes the number, is at least as wide as asked, and fits its 32 bytes.\<close>

lemma uint_buf_val:
  assumes "2 \<le> base" "base \<le> 16"
  shows "buf_val base (uint_buf v base w upper) = v"
  using digit_loop_val [OF assms, of upper v "[]"]
  by (auto simp: uint_buf_def Let_def buf_val_append buf_val_pad digit_loop.simps [of _ _ 0] char_digit_def)

lemma uint_buf_length:
  assumes "10 \<le> base" "v < 2 ^ 32" "w \<le> 32"
  shows "w \<le> length (uint_buf v base w upper)" "length (uint_buf v base w upper) \<le> 32"
proof -
  have "v < 10 ^ 10" using assms(2) by simp
  also have "\<dots> \<le> base ^ 10" by (rule power_mono [OF assms(1)]) simp
  finally have v: "v < base ^ 10" .
  have "length (digit_loop upper base v (if v = 0 then [0x30] else [])) \<le> 11"
    using digit_loop_length [OF _ v, of upper "if v = 0 then [0x30] else []"] assms(1) by auto
  then show "length (uint_buf v base w upper) \<le> 32" using assms(3) by (simp add: uint_buf_def Let_def)
  show "w \<le> length (uint_buf v base w upper)" by (simp add: uint_buf_def Let_def)
qed

section \<open>The wire\<close>

text \<open>
  A bus whose USART2 delivers a given sequence of poll outcomes: a byte (receive register
  full), or nothing yet.  At the end of the sequence the line stays silent.  Both transmit
  registers are always empty, as under QEMU.
\<close>

record wire =
  w_rx :: "u8 option list"
  w_tx :: "u8 list"
  w_log :: "u8 list"
  w_regs :: "u32 \<Rightarrow> u32"

definition wire_rd :: "wire \<Rightarrow> u32 \<Rightarrow> u32 \<times> wire" where
  "wire_rd w a =
     (if a = USART2_BASE + USART_SR_OFF then
        (case w_rx w of
           [] \<Rightarrow> (USART_SR_TXE, w)
         | None # r \<Rightarrow> (USART_SR_TXE, w\<lparr>w_rx := r\<rparr>)
         | Some c # r \<Rightarrow> (USART_SR_TXE OR USART_SR_RXNE, w))
      else if a = USART2_BASE + USART_DR_OFF then
        (case w_rx w of Some c # r \<Rightarrow> (ucast c, w\<lparr>w_rx := r\<rparr>) | _ \<Rightarrow> (0, w))
      else if a = USART1_BASE + USART_SR_OFF then (USART_SR_TXE, w)
      else (w_regs w a, w))"

definition wire_wr :: "wire \<Rightarrow> u32 \<Rightarrow> u32 \<Rightarrow> wire" where
  "wire_wr w a v =
     (if a = USART2_BASE + USART_DR_OFF then w\<lparr>w_tx := w_tx w @ [ucast v]\<rparr>
      else if a = USART1_BASE + USART_DR_OFF then w\<lparr>w_log := w_log w @ [ucast v]\<rparr>
      else w\<lparr>w_regs := (w_regs w)(a := v)\<rparr>)"

definition wire_bus :: "wire bus" where
  "wire_bus = \<lparr> bus_rd = wire_rd, bus_wr = wire_wr,
     bus_wr8 = (\<lambda>w a b. wire_wr w a (ucast b)), bus_rd8 = (\<lambda>w a. ucast (w_regs w a)) \<rparr>"

text \<open>The outcome of one byte read within a budget of polls.\<close>

fun poll :: "nat \<Rightarrow> u8 option list \<Rightarrow> u8 option \<times> u8 option list" where
  "poll 0 rx = (None, rx)"
| "poll (Suc n) [] = (None, [])"
| "poll (Suc n) (None # r) = poll n r"
| "poll (Suc n) (Some c # r) = (Some c, r)"

fun poll_many :: "nat \<Rightarrow> nat \<Rightarrow> u8 option list \<Rightarrow> u8 list \<times> u8 option list" where
  "poll_many budget 0 rx = ([], rx)"
| "poll_many budget (Suc n) rx =
     (case poll budget rx of
        (None, rx) \<Rightarrow> ([], rx)
      | (Some c, rx) \<Rightarrow> (case poll_many budget n rx of (cs, rx) \<Rightarrow> (c # cs, rx)))"

text \<open>What a read leaves of the wire: the transmitted bytes and the log are untouched.\<close>

definition wire_adv :: "wire \<Rightarrow> u8 option list \<Rightarrow> wire \<Rightarrow> bool" where
  "wire_adv w rx w' \<longleftrightarrow> w_rx w' = rx \<and> w_tx w' = w_tx w \<and> w_log w' = w_log w"

lemma wire_try_getc:
  "usart_try_getc wire_bus USART2_BASE w =
     (case w_rx w of [] \<Rightarrow> (None, w) | None # r \<Rightarrow> (None, w\<lparr>w_rx := r\<rparr>) | Some c # r \<Rightarrow> (Some c, w\<lparr>w_rx := r\<rparr>))"
proof -
  have bits: "USART_SR_TXE AND USART_SR_RXNE = 0" "(USART_SR_TXE OR USART_SR_RXNE) AND USART_SR_RXNE \<noteq> 0"
    by (simp_all add: USART_SR_TXE_def USART_SR_RXNE_def)
  have c: "ucast (ucast c AND (0xFF :: u32)) = (c :: u8)" for c
  proof -
    have "ucast c AND (0xFF :: u32) = take_bit 8 (ucast c)"
      by (simp add: take_bit_eq_mask mask_eq_exp_minus_1)
    then show ?thesis by (simp only:) (rule bit_word_eqI, auto simp: bit_simps)
  qed
  show ?thesis
    using bits by (simp add: usart_try_getc_def wire_bus_def wire_rd_def c usart_regs split: list.split option.split)
qed

lemma wire_kick: "wire_adv w rx w' \<Longrightarrow> wire_adv w rx (iwdg_kick wire_bus w')"
  by (simp add: wire_adv_def iwdg_kick_def wire_bus_def wire_wr_def usart_regs IWDG_KR_def)

lemma wire_getc_loop:
  assumes "wire_adv w0 rx w"
  shows "fst (getc_loop wire_bus n w) = fst (poll n rx)
    \<and> wire_adv w0 (snd (poll n rx)) (snd (getc_loop wire_bus n w))"
  using assms
proof (induction n rx arbitrary: w rule: poll.induct)
  case (3 n r)
  let ?w = "w\<lparr>w_rx := r\<rparr>"
  let ?w' = "if n mod 0x40000 = 0 then iwdg_kick wire_bus ?w else ?w"
  have "wire_adv w0 r ?w" using 3 by (simp add: wire_adv_def)
  then have "wire_adv w0 r ?w'" using wire_kick by simp
  from 3(1) [OF this] show ?case using 3(2) by (simp add: wire_try_getc wire_adv_def)
next
  case (2 n)
  have "wire_adv w0 [] w \<Longrightarrow> fst (getc_loop wire_bus k w) = None
      \<and> wire_adv w0 [] (snd (getc_loop wire_bus k w))" for k w
  proof (induction k arbitrary: w)
    case (Suc k)
    have "wire_adv w0 [] (if k mod 0x40000 = 0 then iwdg_kick wire_bus w else w)"
      using Suc.prems wire_kick by simp
    from Suc.IH [OF this] show ?case using Suc.prems by (simp add: wire_try_getc wire_adv_def)
  qed simp
  then show ?case using 2 by (simp del: getc_loop.simps)
qed (simp_all add: wire_try_getc wire_adv_def)

lemma wire_getc:
  "fst (uart_ota_getc wire_bus t w) = fst (poll (getc_budget t) (w_rx w))"
  "wire_adv w (snd (poll (getc_budget t) (w_rx w))) (snd (uart_ota_getc wire_bus t w))"
  using wire_getc_loop [of w "w_rx w" w "getc_budget t"] by (simp_all add: uart_ota_getc_def wire_adv_def)

lemma wire_adv_trans: "wire_adv a r b \<Longrightarrow> wire_adv b r' c \<Longrightarrow> wire_adv a r' c"
  by (simp add: wire_adv_def)

lemma wire_read:
  "fst (uart_ota_read wire_bus n t w) = fst (poll_many (getc_budget t) n (w_rx w))
   \<and> wire_adv w (snd (poll_many (getc_budget t) n (w_rx w))) (snd (uart_ota_read wire_bus n t w))"
proof (induction n arbitrary: w)
  case 0
  then show ?case by (simp add: wire_adv_def)
next
  case (Suc n)
  obtain c w1 where g: "uart_ota_getc wire_bus t w = (c, w1)" by fastforce
  obtain c' rx where p: "poll (getc_budget t) (w_rx w) = (c', rx)" by fastforce
  have c: "c' = c" "wire_adv w rx w1" "w_rx w1 = rx"
    using wire_getc [where t = t and w = w] by (simp_all add: g p wire_adv_def)
  show ?case
  proof (cases c)
    case None
    then show ?thesis using c by (simp add: g p)
  next
    case (Some b)
    obtain cs w2 where r: "uart_ota_read wire_bus n t w1 = (cs, w2)" by fastforce
    obtain cs' rx2 where q: "poll_many (getc_budget t) n rx = (cs', rx2)" by fastforce
    have "cs' = cs" "wire_adv w1 rx2 w2" using Suc.IH [of w1] c by (simp_all add: r q)
    then show ?thesis using c Some wire_adv_trans [OF c(2)] by (simp add: g p r q)
  qed
qed

end
