(* ===== verification/Ota_Frame.thy ===== *)
theory Ota_Frame
  imports Crc32 Uart
begin

unbundle bit_operations_syntax

text \<open>
  The framing of the OTA protocol, \<^verbatim>\<open>bootloader/include/ota_client.h\<close> and the frame reader and
  responder of \<^verbatim>\<open>bootloader/src/ota_client.c\<close>.  \<open>rx_frame\<close> is what the reader does to a
  sequence of poll outcomes; the lemmas show that on the wire the reader returns, that it
  recovers every encoded frame behind line noise, and that it accepts nothing else.
\<close>

section \<open>Constants and frames\<close>

definition OTA_FRAME_SOH :: u8 where "OTA_FRAME_SOH = 0x01"
definition OTA_RESP_ACK :: u8 where "OTA_RESP_ACK = 0x06"
definition OTA_RESP_NAK :: u8 where "OTA_RESP_NAK = 0x15"
definition OTA_OP_START :: u8 where "OTA_OP_START = 0x21"
definition OTA_OP_DATA :: u8 where "OTA_OP_DATA = 0x22"
definition OTA_OP_END :: u8 where "OTA_OP_END = 0x23"
definition OTA_OP_START_DELTA :: u8 where "OTA_OP_START_DELTA = 0x24"
definition OTA_OP_ABORT :: u8 where "OTA_OP_ABORT = 0x2F"
definition OTA_MAX_PAYLOAD :: u16 where "OTA_MAX_PAYLOAD = 1024"
definition OTA_BYTE_TIMEOUT_MS :: u32 where "OTA_BYTE_TIMEOUT_MS = 500"

text \<open>
  \<open>fr_data\<close> holds the \<open>len\<close> bytes received; the rest of the array is stack garbage no handler
  reads.  The error codes of \<open>frame_status_t\<close>; \<open>FRAME_OK\<close> is the right summand.
\<close>

record ota_frame_t =
  fr_op :: u8
  fr_seq :: u16
  fr_len :: u16
  fr_data :: "u8 list"

datatype frame_status_t = FRAME_TIMEOUT | FRAME_CRC_BAD | FRAME_TOO_BIG | FRAME_BAD_SOH

section \<open>The code\<close>

definition send_response :: "'h bus \<Rightarrow> u8 \<Rightarrow> u16 \<Rightarrow> 'h \<Rightarrow> 'h" where
  "send_response B c seq h =
     uart_ota_write B [c, ucast (seq AND 0xFF), ucast (drop_bit 8 seq AND 0xFF)] h"

text \<open>The resynchronisation loop, which an endless stream of other bytes keeps busy for ever.\<close>

partial_function (option) resync :: "'h bus \<Rightarrow> 'h \<Rightarrow> (bool \<times> 'h) option" where
  "resync B h =
     (case uart_ota_getc B OTA_BYTE_TIMEOUT_MS h of (r, h) \<Rightarrow>
        (case r of
           None \<Rightarrow> Some (False, h)
         | Some b \<Rightarrow> if b = OTA_FRAME_SOH then Some (True, h) else resync B h))"

text \<open>The rest of a frame, after its start byte.\<close>

definition read_body :: "'h bus \<Rightarrow> 'h \<Rightarrow> (frame_status_t + ota_frame_t) \<times> 'h" where
  "read_body B h =
     (case uart_ota_read B 5 OTA_BYTE_TIMEOUT_MS h of (hdr, h) \<Rightarrow>
        if length hdr \<noteq> 5 then (Inl FRAME_TIMEOUT, h)
        else
          let op = hdr ! 0; seq = rd_u16_le (drop 1 hdr); len = rd_u16_le (drop 3 hdr) in
          if len > OTA_MAX_PAYLOAD then (Inl FRAME_TOO_BIG, h)
          else
            case (if len > 0 then uart_ota_read B (unat len) OTA_BYTE_TIMEOUT_MS h else ([], h)) of
              (data, h) \<Rightarrow>
            if length data \<noteq> unat len then (Inl FRAME_TIMEOUT, h)
            else case uart_ota_read B 4 OTA_BYTE_TIMEOUT_MS h of (crc_buf, h) \<Rightarrow>
              if length crc_buf \<noteq> 4 then (Inl FRAME_TIMEOUT, h)
              else
                let crc_rx = rd_u32_le crc_buf;
                    crc = crc32_update CRC32_INIT hdr;
                    crc = (if len \<noteq> 0 then crc32_update crc data else crc);
                    crc = crc32_finalize crc
                in if crc \<noteq> crc_rx then (Inl FRAME_CRC_BAD, h)
                   else (Inr \<lparr>fr_op = op, fr_seq = seq, fr_len = len, fr_data = data\<rparr>, h))"

definition read_frame :: "'h bus \<Rightarrow> 'h \<Rightarrow> ((frame_status_t + ota_frame_t) \<times> 'h) option" where
  "read_frame B h =
     (case resync B h of
        None \<Rightarrow> None
      | Some (False, h) \<Rightarrow> Some (Inl FRAME_TIMEOUT, h)
      | Some (True, h) \<Rightarrow> Some (read_body B h))"

section \<open>The reader on the wire\<close>

abbreviation ota_budget :: nat where "ota_budget \<equiv> getc_budget OTA_BYTE_TIMEOUT_MS"

lemma ota_budget_value: "ota_budget = 800001"
  by (simp add: getc_budget_def OTA_BYTE_TIMEOUT_MS_def POLLS_PER_MS_def)

text \<open>A byte that is there is read; a silent line is a timeout.\<close>

lemma poll_byte [simp]: "0 < n \<Longrightarrow> poll n (Some c # rx) = (Some c, rx)"
  by (cases n) simp_all

lemma poll_silent [simp]: "poll n [] = (None, [])"
  by (cases n) simp_all

lemma poll_shorter:
  "poll n rx = (r, rx') \<Longrightarrow> length rx' \<le> length rx \<and> (r \<noteq> None \<longrightarrow> length rx' < length rx)"
  by (induction n rx rule: poll.induct) auto

function rx_resync :: "u8 option list \<Rightarrow> bool \<times> u8 option list" where
  "rx_resync rx =
     (case poll ota_budget rx of
        (None, rx') \<Rightarrow> (False, rx')
      | (Some b, rx') \<Rightarrow> if b = OTA_FRAME_SOH then (True, rx') else rx_resync rx')"
  by pat_completeness auto
termination
  by (relation "measure length") (auto dest!: poll_shorter [OF sym])

declare rx_resync.simps [simp del]

definition rx_body :: "u8 option list \<Rightarrow> (frame_status_t + ota_frame_t) \<times> u8 option list" where
  "rx_body rx =
     (case poll_many ota_budget 5 rx of (hdr, rx) \<Rightarrow>
        if length hdr \<noteq> 5 then (Inl FRAME_TIMEOUT, rx)
        else
          let len = rd_u16_le (drop 3 hdr) in
          if len > OTA_MAX_PAYLOAD then (Inl FRAME_TOO_BIG, rx)
          else case poll_many ota_budget (unat len) rx of (data, rx) \<Rightarrow>
            if length data \<noteq> unat len then (Inl FRAME_TIMEOUT, rx)
            else case poll_many ota_budget 4 rx of (crc_buf, rx) \<Rightarrow>
              if length crc_buf \<noteq> 4 then (Inl FRAME_TIMEOUT, rx)
              else if crc32 (hdr @ data) \<noteq> rd_u32_le crc_buf then (Inl FRAME_CRC_BAD, rx)
              else (Inr \<lparr>fr_op = hdr ! 0, fr_seq = rd_u16_le (drop 1 hdr), fr_len = len, fr_data = data\<rparr>, rx))"

definition rx_frame :: "u8 option list \<Rightarrow> (frame_status_t + ota_frame_t) \<times> u8 option list" where
  "rx_frame rx = (case rx_resync rx of (ok, rx) \<Rightarrow> if ok then rx_body rx else (Inl FRAME_TIMEOUT, rx))"

lemma wire_adv_refl: "wire_adv w (w_rx w) w"
  by (simp add: wire_adv_def)

lemma wire_read_obtain:
  assumes "wire_adv w0 rx w"
  obtains w' where "uart_ota_read wire_bus n t w = (fst (poll_many (getc_budget t) n rx), w')"
    "wire_adv w0 (snd (poll_many (getc_budget t) n rx)) w'"
proof (rule that)
  have rx: "w_rx w = rx" using assms by (simp add: wire_adv_def)
  note r = wire_read [of n t w, unfolded rx]
  show "uart_ota_read wire_bus n t w = (fst (poll_many (getc_budget t) n rx), snd (uart_ota_read wire_bus n t w))"
    using r by (simp add: prod_eq_iff)
  show "wire_adv w0 (snd (poll_many (getc_budget t) n rx)) (snd (uart_ota_read wire_bus n t w))"
    using wire_adv_trans [OF assms] r by blast
qed

lemma wire_resync:
  assumes "wire_adv w0 rx w"
  obtains w' where "resync wire_bus w = Some (fst (rx_resync rx), w')" "wire_adv w0 (snd (rx_resync rx)) w'"
  using assms
proof (induction rx arbitrary: w thesis rule: rx_resync.induct)
  case (1 rx)
  obtain r rx' where p: "poll ota_budget rx = (r, rx')" by fastforce
  obtain r' w1 where g: "uart_ota_getc wire_bus OTA_BYTE_TIMEOUT_MS w = (r', w1)" by fastforce
  have eq: "r' = r" "wire_adv w0 rx' w1"
    using wire_getc [where t = OTA_BYTE_TIMEOUT_MS and w = w] 1(3) p g wire_adv_trans
    by (auto simp: wire_adv_def)
  show ?case
  proof (cases "r = None \<or> r = Some OTA_FRAME_SOH")
    case True
    then show ?thesis
      using eq by (intro 1(2)) (auto simp: resync.simps [of wire_bus w] rx_resync.simps [of rx] p g)
  next
    case False
    then obtain b where b: "r = Some b" "b \<noteq> OTA_FRAME_SOH" by auto
    from 1(1) [OF p [symmetric] b(1) b(2) _ eq(2)] obtain w'
      where "resync wire_bus w1 = Some (fst (rx_resync rx'), w')" "wire_adv w0 (snd (rx_resync rx')) w'"
      by blast
    then show ?thesis
      using eq b by (intro 1(2)) (auto simp: resync.simps [of wire_bus w] rx_resync.simps [of rx] p g)
  qed
qed

lemma wire_body:
  assumes "wire_adv w0 rx w"
  obtains w' where "read_body wire_bus w = (fst (rx_body rx), w')" "wire_adv w0 (snd (rx_body rx)) w'"
proof -
  let ?t = OTA_BYTE_TIMEOUT_MS
  obtain hdr rx1 where p1: "poll_many ota_budget 5 rx = (hdr, rx1)" by fastforce
  obtain w1 where w1: "uart_ota_read wire_bus 5 ?t w = (hdr, w1)" "wire_adv w0 rx1 w1"
    using wire_read_obtain [OF assms, of 5 ?t] p1 by auto
  let ?len = "rd_u16_le (drop 3 hdr)"
  obtain data rx2 where p2: "poll_many ota_budget (unat ?len) rx1 = (data, rx2)" by fastforce
  obtain w2 where w2: "uart_ota_read wire_bus (unat ?len) ?t w1 = (data, w2)" "wire_adv w0 rx2 w2"
    using wire_read_obtain [OF w1(2), of "unat ?len" ?t] p2 by auto
  have z: "(if ?len > 0 then uart_ota_read wire_bus (unat ?len) ?t w1 else ([], w1)) = (data, w2)"
    using w2(1) by (auto simp: word_gt_0)
  obtain crc rx3 where p3: "poll_many ota_budget 4 rx2 = (crc, rx3)" by fastforce
  obtain w3 where w3: "uart_ota_read wire_bus 4 ?t w2 = (crc, w3)" "wire_adv w0 rx3 w3"
    using wire_read_obtain [OF w2(2), of 4 ?t] p3 by auto
  have c: "crc32_finalize (if ?len \<noteq> 0 then crc32_update (crc32_update CRC32_INIT hdr) data
      else crc32_update CRC32_INIT hdr) = crc32 (hdr @ data)" if "length data = unat ?len"
    using that by (auto simp: crc32_def crc32_update_append)
  show thesis
    by (rule that [of "if length hdr \<noteq> 5 \<or> ?len > OTA_MAX_PAYLOAD then w1
          else if length data \<noteq> unat ?len then w2 else w3"])
      (use w1 w2 w3 c in \<open>auto simp: read_body_def rx_body_def p1 p2 p3 z Let_def\<close>)
qed

text \<open>On the wire the reader returns, with the outcome of \<open>rx_frame\<close>.\<close>

lemma wire_frame:
  assumes "wire_adv w0 rx w"
  obtains w' where "read_frame wire_bus w = Some (fst (rx_frame rx), w')" "wire_adv w0 (snd (rx_frame rx)) w'"
proof -
  obtain ok rx1 where r: "rx_resync rx = (ok, rx1)" by fastforce
  obtain w1 where w1: "resync wire_bus w = Some (ok, w1)" "wire_adv w0 rx1 w1"
    using wire_resync [OF assms] r by (metis fst_conv snd_conv)
  obtain w2 where w2: "read_body wire_bus w1 = (fst (rx_body rx1), w2)" "wire_adv w0 (snd (rx_body rx1)) w2"
    using wire_body [OF w1(2)] by blast
  show thesis
    by (rule that [of "if ok then w2 else w1"])
      (use w1 w2 in \<open>auto simp: read_frame_def rx_frame_def r split: bool.splits\<close>)
qed

section \<open>Encoded frames\<close>

definition frame_body :: "ota_frame_t \<Rightarrow> u8 list" where
  "frame_body f = fr_op f # le16 (fr_seq f) @ le16 (fr_len f) @ fr_data f"

definition encode_frame :: "ota_frame_t \<Rightarrow> u8 list" where
  "encode_frame f = OTA_FRAME_SOH # frame_body f @ le32 (crc32 (frame_body f))"

definition frame_wf :: "ota_frame_t \<Rightarrow> bool" where
  "frame_wf f \<longleftrightarrow> length (fr_data f) = unat (fr_len f) \<and> fr_len f \<le> OTA_MAX_PAYLOAD"

text \<open>The bytes of a sequence of poll outcomes.\<close>

fun heard :: "u8 option list \<Rightarrow> u8 list" where
  "heard [] = []"
| "heard (None # r) = heard r"
| "heard (Some c # r) = c # heard r"

lemma poll_many_bytes: "0 < b \<Longrightarrow> poll_many b (length xs) (map Some xs @ rx) = (xs, rx)"
  by (induction xs) simp_all

lemma resync_noise:
  assumes "OTA_FRAME_SOH \<notin> set junk"
  shows "rx_resync (map Some (junk @ OTA_FRAME_SOH # xs) @ rx) = (True, map Some xs @ rx)"
  using assms
  by (induction junk) (auto simp: rx_resync.simps [of "_ # _"] ota_budget_value)

lemma body_received:
  assumes wf: "frame_wf f"
  shows "rx_body (map Some (frame_body f @ le32 c) @ rx)
    = (if crc32 (frame_body f) = c then (Inr f, rx) else (Inl FRAME_CRC_BAD, rx))"
proof -
  let ?hdr = "fr_op f # le16 (fr_seq f) @ le16 (fr_len f)"
  have b: "0 < ota_budget" by (simp add: ota_budget_value)
  have in_eq: "map Some (frame_body f @ le32 c) @ rx
      = map Some ?hdr @ (map Some (fr_data f) @ (map Some (le32 c) @ rx))" by (simp add: frame_body_def)
  have len: "rd_u16_le (drop 3 ?hdr) = fr_len f"
    using rd_le16 [of "fr_len f" "[]"] by (simp add: le16_def)
  have seq: "rd_u16_le (drop 1 ?hdr) = fr_seq f"
    using rd_le16 [of "fr_seq f" "le16 (fr_len f)"] by simp
  have c: "rd_u32_le (le32 c) = c" using rd_le32 [of c "[]"] by simp
  note polls = poll_many_bytes [OF b, of ?hdr "map Some (fr_data f) @ (map Some (le32 c) @ rx)"]
    poll_many_bytes [OF b, of "fr_data f" "map Some (le32 c) @ rx"]
    poll_many_bytes [OF b, of "le32 c" rx]
  have l: "length ?hdr = 5" "length (fr_data f) = unat (fr_len f)" "\<not> fr_len f > OTA_MAX_PAYLOAD"
    "length (le32 c) = 4"
    using wf by (simp_all add: frame_wf_def not_less)
  have "?hdr @ fr_data f = frame_body f" "?hdr ! 0 = fr_op f" by (simp_all add: frame_body_def)
  then show ?thesis
    unfolding rx_body_def in_eq polls [unfolded l(1,2,4)] prod.case Let_def len seq c
    by (simp only: l if_False not_True_eq_False simp_thms)
      (cases f, simp)
qed

text \<open>A frame behind noise that holds no start byte is received, and nothing after it is consumed.\<close>

lemma frame_received:
  assumes "frame_wf f" "OTA_FRAME_SOH \<notin> set junk"
  shows "rx_frame (map Some (junk @ encode_frame f) @ rx) = (Inr f, rx)"
  using resync_noise [OF assms(2), of "frame_body f @ le32 (crc32 (frame_body f))" rx]
    body_received [OF assms(1), of "crc32 (frame_body f)" rx]
  by (simp add: rx_frame_def encode_frame_def)

text \<open>Up to four consecutive corrupted bytes that leave the length intact are always noticed.\<close>

lemma frame_burst:
  assumes wf: "frame_wf f'" and len: "length d = length e" "length d \<le> 4" and ne: "d \<noteq> e"
    and b: "frame_body f = pre @ d @ post" "frame_body f' = pre @ e @ post"
  shows "rx_frame (map Some (OTA_FRAME_SOH # frame_body f' @ le32 (crc32 (frame_body f))) @ rx)
    = (Inl FRAME_CRC_BAD, rx)"
proof -
  have "crc32 (frame_body f') \<noteq> crc32 (frame_body f)"
    using crc32_update_burst [OF len, of "crc32_update CRC32_INIT pre" post] ne
    by (auto simp: crc32_def b crc32_finalize_inj crc32_update_append [of _ pre])
  then show ?thesis
    using resync_noise [of "[]" "frame_body f' @ le32 (crc32 (frame_body f))" rx]
      body_received [OF wf, of "crc32 (frame_body f)" rx]
    by (simp add: rx_frame_def)
qed

section \<open>Accepted frames\<close>

lemma poll_heard:
  "poll n rx = (r, rx') \<Longrightarrow> heard rx = (case r of None \<Rightarrow> [] | Some b \<Rightarrow> [b]) @ heard rx'
     \<and> length rx' \<le> length rx \<and> (r \<noteq> None \<longrightarrow> length rx' < length rx)"
  by (induction n rx rule: poll.induct) auto

lemma poll_many_heard:
  "poll_many b n rx = (ds, rx') \<Longrightarrow> heard rx = ds @ heard rx' \<and> length rx' \<le> length rx
    \<and> (ds \<noteq> [] \<longrightarrow> length rx' < length rx)"
  by (induction b n rx arbitrary: ds rx' rule: poll_many.induct)
    (fastforce split: prod.splits option.splits dest!: poll_heard)+

lemma resync_heard:
  assumes "rx_resync rx = (ok, rx')"
  shows "length rx' \<le> length rx \<and> (ok \<longrightarrow> length rx' < length rx
    \<and> (\<exists>junk. heard rx = junk @ OTA_FRAME_SOH # heard rx' \<and> OTA_FRAME_SOH \<notin> set junk))"
  using assms
proof (induction rx rule: rx_resync.induct)
  case (1 rx)
  obtain r rx1 where p: "poll ota_budget rx = (r, rx1)" by fastforce
  note h = poll_heard [OF p]
  show ?case
  proof (cases "r = None \<or> r = Some OTA_FRAME_SOH")
    case True
    then show ?thesis using 1(2) h
      by (auto simp: rx_resync.simps [of rx] p intro: exI [of _ "[]"])
  next
    case False
    then obtain b where b: "r = Some b" "b \<noteq> OTA_FRAME_SOH" by auto
    have "rx_resync rx1 = (ok, rx')" using 1(2) b by (simp add: rx_resync.simps [of rx] p)
    note ih = 1(1) [OF p [symmetric] b this]
    have "\<exists>junk. heard rx = junk @ OTA_FRAME_SOH # heard rx' \<and> OTA_FRAME_SOH \<notin> set junk" if ok
    proof -
      from ih that obtain junk where "heard rx1 = junk @ OTA_FRAME_SOH # heard rx'" "OTA_FRAME_SOH \<notin> set junk"
        by blast
      then show ?thesis using h b by (intro exI [of _ "b # junk"]) simp
    qed
    then show ?thesis using ih h b by auto
  qed
qed

text \<open>Whatever arrives, an accepted frame was sent: its encoding is in the bytes consumed.\<close>

lemma body_sound:
  assumes "rx_body rx = (Inr f, rx')"
  shows "frame_wf f" "heard rx = frame_body f @ le32 (crc32 (frame_body f)) @ heard rx'"
proof -
  obtain hdr rx1 where p1: "poll_many ota_budget 5 rx = (hdr, rx1)" by fastforce
  let ?len = "rd_u16_le (drop 3 hdr)"
  obtain data rx2 where p2: "poll_many ota_budget (unat ?len) rx1 = (data, rx2)" by fastforce
  obtain crc rx3 where p3: "poll_many ota_budget 4 rx2 = (crc, rx3)" by fastforce
  have a: "length hdr = 5" "?len \<le> OTA_MAX_PAYLOAD" "length data = unat ?len" "length crc = 4"
    "crc32 (hdr @ data) = rd_u32_le crc" "rx' = rx3"
    "f = \<lparr>fr_op = hdr ! 0, fr_seq = rd_u16_le (drop 1 hdr), fr_len = ?len, fr_data = data\<rparr>"
    using assms by (auto simp: rx_body_def p1 p2 p3 Let_def split: if_splits)
  show "frame_wf f" using a by (simp add: frame_wf_def)
  obtain b s1 s2 l1 l2 where hdr: "hdr = [b, s1, s2, l1, l2]"
    using a(1) by (auto simp: numeral_eq_Suc length_Suc_conv)
  have "frame_body f = hdr @ data"
    using le16_rd [of "[s1, s2, l1, l2]"] le16_rd [of "[l1, l2]"] by (simp add: frame_body_def a(7) hdr)
  moreover have "le32 (crc32 (hdr @ data)) = crc" using a(4) by (simp add: a(5) le32_rd)
  ultimately show "heard rx = frame_body f @ le32 (crc32 (frame_body f)) @ heard rx'"
    using poll_many_heard [OF p1] poll_many_heard [OF p2] poll_many_heard [OF p3] a(6) by simp
qed

lemma frame_sound:
  assumes "rx_frame rx = (Inr f, rx')"
  obtains junk where "frame_wf f" "heard rx = junk @ encode_frame f @ heard rx'" "OTA_FRAME_SOH \<notin> set junk"
proof -
  obtain rx1 where r: "rx_resync rx = (True, rx1)" and b: "rx_body rx1 = (Inr f, rx')"
    using assms by (auto simp: rx_frame_def split: prod.splits if_splits)
  from resync_heard [OF r] obtain junk
    where "heard rx = junk @ OTA_FRAME_SOH # heard rx1" "OTA_FRAME_SOH \<notin> set junk" by blast
  with body_sound [OF b] show thesis by (intro that [of junk]) (simp_all add: encode_frame_def)
qed

text \<open>Every outcome but a timeout consumes part of the sequence.\<close>

lemma frame_progress:
  assumes "rx_frame rx = (st, rx')"
  shows "length rx' \<le> length rx \<and> (st \<noteq> Inl FRAME_TIMEOUT \<longrightarrow> length rx' < length rx)"
proof -
  have body: "length (snd (rx_body rx1)) \<le> length rx1" for rx1
    by (auto simp: rx_body_def Let_def split: prod.splits dest!: poll_many_heard)
  obtain ok rx1 where r: "rx_resync rx = (ok, rx1)" by fastforce
  note h = resync_heard [OF r]
  show ?thesis
  proof (cases ok)
    case True
    then have "rx' = snd (rx_body rx1)" "length rx1 < length rx" using assms h by (simp_all add: rx_frame_def r)
    then show ?thesis using body [of rx1] by simp
  next
    case False
    then show ?thesis using assms h by (simp add: rx_frame_def r)
  qed
qed

end
