(* ===== verification/Hpatch_Lite.thy ===== *)
theory Hpatch_Lite
  imports Prelude "HOL-Library.Monad_Syntax"
begin

unbundle bit_operations_syntax

text \<open>
  \<^verbatim>\<open>third_party/hpatch_lite/hpatch_lite.c\<close> as the bootloader builds it
  (\<^verbatim>\<open>_IS_RUN_MEM_SAFE_CHECK=0\<close>): the buffered input cache shared with the decompressor, the
  header parser and the patch loop.  Streams and listeners are the callbacks of the C code:
  a \<open>reader\<close> returns its success flag, the bytes delivered and the new stream.

  \<open>spec_patch\<close> is the patch format read from a plain list of bytes, without a cache.  The
  locales \<open>byte_source\<close> and \<open>patch_target\<close> state what the loop relies on; in their presence a
  successful run writes exactly what the specification yields.
\<close>

section \<open>The input cache\<close>

type_synonym 'i reader = "'i \<Rightarrow> nat \<Rightarrow> bool \<times> u8 list \<times> 'i"

record 'i input_cache =
  ic_begin :: nat
  ic_end :: nat
  ic_buf :: "u8 list"
  ic_in :: 'i

definition cache_update :: "'i reader \<Rightarrow> 'i input_cache \<Rightarrow> bool \<times> 'i input_cache" where
  "cache_update R c =
     (case R (ic_in c) (ic_end c) of (ok, d, s) \<Rightarrow>
        let len = (if ok then length d else 0)
        in (len \<noteq> 0, c\<lparr>ic_begin := 0, ic_end := len, ic_buf := take len d, ic_in := s\<rparr>))"

definition cache_read_1byte :: "'i reader \<Rightarrow> 'i input_cache \<Rightarrow> u8 \<times> 'i input_cache" where
  "cache_read_1byte R c =
     (if ic_begin c \<noteq> ic_end c then (ic_buf c ! ic_begin c, c\<lparr>ic_begin := ic_begin c + 1\<rparr>)
      else case cache_update R c of (ok, c) \<Rightarrow>
        if ok then (ic_buf c ! ic_begin c, c\<lparr>ic_begin := ic_begin c + 1\<rparr>) else (0, c))"

definition cache_success_finish :: "'i input_cache \<Rightarrow> bool" where
  "cache_success_finish c \<longleftrightarrow> ic_end c \<noteq> 0"

text \<open>
  The loop over continuation bytes.  At the end of the stream a read yields zero, so the loop
  stops; a stream of fewer than \<open>2 ^ 64\<close> bytes cannot exhaust the bound.
\<close>

definition UNPACK_BOUND :: nat where "UNPACK_BOUND = 2 ^ 64"

fun unpack_loop :: "nat \<Rightarrow> 'i reader \<Rightarrow> 'i input_cache \<Rightarrow> u32 \<Rightarrow> bool \<Rightarrow> u32 \<times> 'i input_cache" where
  "unpack_loop 0 R c v is_next = (v, c)"
| "unpack_loop (Suc n) R c v is_next =
     (if is_next then
        (case cache_read_1byte R c of (b, c) \<Rightarrow>
           unpack_loop n R c (push_bit 7 v OR (ucast b AND 127)) (bit b 7))
      else (v, c))"

definition cache_unpackUInt :: "'i reader \<Rightarrow> 'i input_cache \<Rightarrow> u32 \<Rightarrow> bool \<Rightarrow> u32 \<times> 'i input_cache" where
  "cache_unpackUInt R c v is_next = unpack_loop UNPACK_BOUND R c v is_next"

section \<open>Copying and adding\<close>

record 'o listener =
  l_read_old :: "'o \<Rightarrow> u32 \<Rightarrow> nat \<Rightarrow> u8 list option"
  l_write_new :: "'o \<Rightarrow> u8 list \<Rightarrow> bool \<times> 'o"

definition cache_chunk :: "'i input_cache \<Rightarrow> nat \<Rightarrow> u8 list" where
  "cache_chunk c n = take n (drop (ic_begin c) (ic_buf c))"

function patch_copy_diff ::
  "('o \<Rightarrow> 'i reader) \<Rightarrow> 'o listener \<Rightarrow> 'o \<Rightarrow> 'i input_cache \<Rightarrow> nat \<Rightarrow> bool \<times> 'o \<times> 'i input_cache" where
  "patch_copy_diff R L out c copyLength =
     (if copyLength > 0 then
        let (ok, c) = (if ic_end c - ic_begin c = 0 then cache_update (R out) c else (True, c));
            decodeStep = ic_end c - ic_begin c;
            decodeStep = (if decodeStep > copyLength then copyLength else decodeStep)
        in if \<not> ok \<or> decodeStep = 0 then (False, out, c)
        else case l_write_new L out (cache_chunk c decodeStep) of (w, out) \<Rightarrow>
          if \<not> w then (False, out, c)
          else patch_copy_diff R L out (c\<lparr>ic_begin := ic_begin c + decodeStep\<rparr>) (copyLength - decodeStep)
      else (True, out, c))"
  by pat_completeness auto
termination
  by (relation "measure (\<lambda>(R, L, out, c, copyLength). copyLength)") (auto split: if_splits)

declare patch_copy_diff.simps [simp del]

text \<open>\<open>addData\<close>: byte-wise addition modulo 256.\<close>

definition addData :: "u8 list \<Rightarrow> u8 list \<Rightarrow> u8 list" where
  "addData dst src = map2 (+) dst src"

function patch_add_old_withClip ::
  "('o \<Rightarrow> 'i reader) \<Rightarrow> 'o listener \<Rightarrow> 'o \<Rightarrow> 'i input_cache \<Rightarrow> bool \<Rightarrow> u32 \<Rightarrow> nat
     \<Rightarrow> bool \<times> 'o \<times> 'i input_cache" where
  "patch_add_old_withClip R L out c isNotNeedSubDiff oldPos addLength =
     (if addLength > 0 then
        let c = (if \<not> isNotNeedSubDiff \<and> ic_end c - ic_begin c = 0 then snd (cache_update (R out) c) else c);
            decodeStep = (if isNotNeedSubDiff then ic_end c else ic_end c - ic_begin c)
        in if decodeStep = 0 then (False, out, c) else
        let decodeStep = (if decodeStep > addLength then addLength else decodeStep)
        in case l_read_old L out oldPos decodeStep of
             None \<Rightarrow> (False, out, c)
           | Some temp_cache \<Rightarrow>
               let (temp_cache, c) =
                 (if \<not> isNotNeedSubDiff
                  then (addData temp_cache (cache_chunk c decodeStep), c\<lparr>ic_begin := ic_begin c + decodeStep\<rparr>)
                  else (temp_cache, c))
               in case l_write_new L out temp_cache of (w, out) \<Rightarrow>
                    if \<not> w then (False, out, c)
                    else patch_add_old_withClip R L out c isNotNeedSubDiff
                           (oldPos + of_nat decodeStep) (addLength - decodeStep)
      else (True, out, c))"
  by pat_completeness auto
termination
  by (relation "measure (\<lambda>(R, L, out, c, sd, oldPos, addLength). addLength)") (auto split: if_splits)

declare patch_add_old_withClip.simps [simp del]

section \<open>The header\<close>

definition hpi_readSize :: "u8 list \<Rightarrow> nat \<Rightarrow> u32" where
  "hpi_readSize buf len = foldr (\<lambda>b v. push_bit 8 v OR ucast b) (take len buf) 0"

text \<open>
  The stack buffer of \<open>hpatch_lite_open\<close> holds four bytes; \<open>stack\<close> is what it holds before the
  first read.  The lengths of the two following fields come from the patch; with the memory
  checks compiled out a length above four writes past the buffer, which is undefined:
  \<open>OpenOverflow\<close>.
\<close>

definition hpi_kHeadSize :: nat where "hpi_kHeadSize = 4"

datatype open_result = OpenFail | OpenOverflow | OpenOk u8 u32 u32

definition overlay :: "u8 list \<Rightarrow> u8 list \<Rightarrow> u8 list" where
  "overlay d buf = d @ drop (length d) buf"

definition hpatch_lite_open :: "'i reader \<Rightarrow> u8 list \<Rightarrow> 'i \<Rightarrow> open_result \<times> 'i" where
  "hpatch_lite_open R stack s =
     (case R s hpi_kHeadSize of (ok, d, s) \<Rightarrow>
      if \<not> ok then (OpenFail, s) else
      let buf = overlay d stack;
          lenu = buf ! 3;
          compress_type = buf ! 2;
          lenn = unat (lenu AND 7);
          lenu = unat (drop_bit 3 lenu AND 7)
      in if lenn > 4 then (OpenOverflow, s) else
      case R s lenn of (ok, d, s) \<Rightarrow>
      if \<not> ok then (OpenFail, s) else
      let buf = overlay d buf;
          newSize = hpi_readSize buf (length d)
      in if lenu > 4 then (OpenOverflow, s) else
      case R s lenu of (ok, d, s) \<Rightarrow>
      if \<not> ok then (OpenFail, s) else
      let buf = overlay d buf
      in (OpenOk compress_type newSize (hpi_readSize buf (length d)), s))"

section \<open>The patch loop\<close>

fun cover_loop ::
  "nat \<Rightarrow> ('o \<Rightarrow> 'i reader) \<Rightarrow> 'o listener \<Rightarrow> 'o \<Rightarrow> 'i input_cache \<Rightarrow> u32 \<Rightarrow> u32
     \<Rightarrow> bool \<times> 'o \<times> 'i input_cache \<times> u32" where
  "cover_loop 0 R L out c newPosBack oldPosBack = (True, out, c, newPosBack)"
| "cover_loop (Suc n) R L out c newPosBack oldPosBack =
     (let (cover_length, c) = cache_unpackUInt (R out) c 0 True;
          (tag, c) = cache_read_1byte (R out) c;
          (cover_oldPos, c) = cache_unpackUInt (R out) c (ucast (tag AND 31)) (bit tag 5);
          isNotNeedSubDiff = bit tag 7;
          cover_oldPos = (if bit tag 6 then oldPosBack - cover_oldPos else cover_oldPos + oldPosBack);
          (cover_newPos, c) = cache_unpackUInt (R out) c 0 True;
          cover_newPos = cover_newPos + newPosBack;
          (ok, out, c) = (if newPosBack < cover_newPos
             then patch_copy_diff R L out c (unat (cover_newPos - newPosBack)) else (True, out, c))
      in if \<not> ok then (False, out, c, newPosBack) else
      case patch_add_old_withClip R L out c isNotNeedSubDiff cover_oldPos (unat cover_length) of
        (ok, out, c) \<Rightarrow>
      if \<not> ok then (False, out, c, newPosBack)
      else cover_loop n R L out c (cover_newPos + cover_length) (cover_oldPos + cover_length))"

definition hpatch_lite_patch ::
  "('o \<Rightarrow> 'i reader) \<Rightarrow> 'o listener \<Rightarrow> 'i \<Rightarrow> 'o \<Rightarrow> u32 \<Rightarrow> nat \<Rightarrow> bool \<times> 'o \<times> 'i" where
  "hpatch_lite_patch R L s out newSize temp_cache_size =
     (let half = temp_cache_size div 2;
          c = \<lparr> ic_begin = half, ic_end = half, ic_buf = replicate half 0, ic_in = s \<rparr>;
          (coverCount, c) = cache_unpackUInt (R out) c 0 True;
          (ok, out, c, newPosBack) = cover_loop (unat coverCount) R L out c 0 0
      in if \<not> ok then (False, out, ic_in c)
         else (newSize = newPosBack \<and> cache_success_finish c, out, ic_in c))"

section \<open>The format without a cache\<close>

fun sp_varint :: "u32 \<Rightarrow> bool \<Rightarrow> u8 list \<Rightarrow> (u32 \<times> u8 list) option" where
  "sp_varint v False bs = Some (v, bs)"
| "sp_varint v True [] = None"
| "sp_varint v True (b # bs) = sp_varint (push_bit 7 v OR (ucast b AND 127)) (bit b 7) bs"

fun sp_byte :: "u8 list \<Rightarrow> (u8 \<times> u8 list) option" where
  "sp_byte [] = None"
| "sp_byte (b # bs) = Some (b, bs)"

definition sp_take :: "nat \<Rightarrow> u8 list \<Rightarrow> (u8 list \<times> u8 list) option" where
  "sp_take n bs = (if n \<le> length bs then Some (take n bs, drop n bs) else None)"

text \<open>The bytes of one cover: a slice of the old file, with or without a difference added.\<close>

definition sp_old :: "u8 list \<Rightarrow> u32 \<Rightarrow> nat \<Rightarrow> u8 list option" where
  "sp_old old p n = (if unat p + n \<le> length old then Some (take n (drop (unat p) old)) else None)"

definition sp_cover :: "u8 list \<Rightarrow> bool \<Rightarrow> u32 \<Rightarrow> nat \<Rightarrow> u8 list \<Rightarrow> (u8 list \<times> u8 list) option" where
  "sp_cover old no_sub p n bs =
     (if n = 0 then Some ([], bs)
      else if no_sub then do { d \<leftarrow> sp_old old p n; Some (d, bs) }
      else do { d \<leftarrow> sp_old old p n; (e, bs) \<leftarrow> sp_take n bs; Some (addData d e, bs) })"

fun sp_covers :: "nat \<Rightarrow> u8 list \<Rightarrow> u32 \<Rightarrow> u32 \<Rightarrow> u8 list \<Rightarrow> (u8 list \<times> u32) option" where
  "sp_covers 0 old np op bs = Some ([], np)"
| "sp_covers (Suc n) old np op bs =
     do { (len, bs) \<leftarrow> sp_varint 0 True bs;
          (tag, bs) \<leftarrow> sp_byte bs;
          (p, bs) \<leftarrow> sp_varint (ucast (tag AND 31)) (bit tag 5) bs;
          (gap, bs) \<leftarrow> sp_varint 0 True bs;
          let p = (if bit tag 6 then op - p else p + op);
          (lit, bs) \<leftarrow> sp_take (if np < gap + np then unat gap else 0) bs;
          (cov, bs) \<leftarrow> sp_cover old (bit tag 7) p (unat len) bs;
          (rest, np) \<leftarrow> sp_covers n old (gap + np + len) (p + len) bs;
          Some (lit @ cov @ rest, np) }"

definition spec_patch :: "u8 list \<Rightarrow> u32 \<Rightarrow> u8 list \<Rightarrow> u8 list option" where
  "spec_patch old newSize bs =
     do { (n, bs) \<leftarrow> sp_varint 0 True bs;
          (new, np) \<leftarrow> sp_covers (unat n) old 0 0 bs;
          if newSize = np then Some new else None }"

text \<open>Processing a cover in two parts.\<close>

lemma take_split: "k \<le> n \<Longrightarrow> take n xs = take k xs @ take (n - k) (drop k xs)"
  by (metis le_add_diff_inverse take_add)

lemma addData_append:
  "length a = length c \<Longrightarrow> addData (a @ b) (c @ d) = addData a c @ addData b d"
  by (simp add: addData_def)

lemma sp_cover_split:
  assumes k: "0 < k" "k \<le> n" and inold: "unat p + k \<le> length old"
    and kb: "\<not> no_sub \<Longrightarrow> k \<le> length bs" and pk: "unat (p + of_nat k) = unat p + k"
  shows "sp_cover old no_sub p n bs
    = (case sp_cover old no_sub (p + of_nat k) (n - k) (if no_sub then bs else drop k bs) of
         None \<Rightarrow> None
       | Some (d, bs') \<Rightarrow> Some ((if no_sub then take k (drop (unat p) old)
             else addData (take k (drop (unat p) old)) (take k bs)) @ d, bs'))"
proof (cases "n = k")
  case True
  then show ?thesis using assms by (auto simp: sp_cover_def sp_old_def sp_take_def)
next
  case False
  then have n: "n \<noteq> 0" "n - k \<noteq> 0" using k by simp_all
  have o1: "take n (drop (unat p) old) = take k (drop (unat p) old) @ take (n - k) (drop (unat p + k) old)"
    using take_split [OF k(2), of "drop (unat p) old"] by (simp add: add.commute)
  have b1: "take n bs = take k bs @ take (n - k) (drop k bs)" by (rule take_split [OF k(2)])
  have c1: "unat p + k + (n - k) \<le> length old \<longleftrightarrow> unat p + n \<le> length old" using k by simp
  have c2: "n - k \<le> length bs - k \<longleftrightarrow> n \<le> length bs" if "\<not> no_sub" using kb [OF that] k by auto
  have d1: "drop (n - k) (drop k bs) = drop n bs" using k by simp
  have l1: "length (take k (drop (unat p) old)) = length (take k bs)" if "\<not> no_sub"
    using kb [OF that] inold by simp
  show ?thesis
    using n c2 l1
    by (cases no_sub) (auto simp: sp_cover_def sp_old_def sp_take_def pk c1 o1 b1 d1 addData_append
        simp del: take_append drop_drop)
qed

section \<open>Streams\<close>

text \<open>A cache in use stands for the bytes still to come; once the end was hit it stays empty.\<close>

definition cache_rep :: "('i \<Rightarrow> u8 list) \<Rightarrow> 'i input_cache \<Rightarrow> u8 list \<Rightarrow> bool" where
  "cache_rep rest c bs \<longleftrightarrow> ic_begin c \<le> ic_end c \<and> ic_end c = length (ic_buf c) \<and> 0 < ic_end c
     \<and> bs = drop (ic_begin c) (ic_buf c) @ rest (ic_in c)"

definition cache_dead :: "'i input_cache \<Rightarrow> bool" where
  "cache_dead c \<longleftrightarrow> ic_begin c = 0 \<and> ic_end c = 0"

locale byte_source =
  fixes R :: "'i reader" and rest :: "'i \<Rightarrow> u8 list"
  assumes read_some: "rest s \<noteq> [] \<Longrightarrow> 0 < n \<Longrightarrow>
      \<exists>d s'. R s n = (True, d, s') \<and> d \<noteq> [] \<and> length d \<le> n \<and> rest s = d @ rest s'"
    and read_end: "rest s = [] \<or> n = 0 \<Longrightarrow> R s n = (ok, d, s') \<Longrightarrow> ok \<Longrightarrow> d = []"
begin

lemma rep_init: "0 < k \<Longrightarrow> cache_rep rest \<lparr>ic_begin = k, ic_end = k, ic_buf = replicate k 0, ic_in = s\<rparr> (rest s)"
  by (simp add: cache_rep_def)

lemma update_rep:
  assumes "cache_rep rest c bs" "ic_begin c = ic_end c" "bs \<noteq> []"
  obtains c' where "cache_update R c = (True, c')" "cache_rep rest c' bs" "ic_begin c' = 0"
proof -
  have bs: "bs = rest (ic_in c)" "0 < ic_end c" using assms by (auto simp: cache_rep_def)
  then obtain d s' where "R (ic_in c) (ic_end c) = (True, d, s')" "d \<noteq> []" "rest (ic_in c) = d @ rest s'"
    using read_some [of "ic_in c" "ic_end c"] assms(3) by auto
  with bs show thesis
    by (intro that [of "c\<lparr>ic_begin := 0, ic_end := length d, ic_buf := d, ic_in := s'\<rparr>"])
      (auto simp: cache_update_def cache_rep_def)
qed

lemma update_end:
  assumes "cache_rep rest c [] \<or> cache_dead c"
  obtains c' where "cache_update R c = (False, c')" "cache_dead c'"
proof -
  obtain ok d s' where r: "R (ic_in c) (ic_end c) = (ok, d, s')" by (metis prod_cases3)
  have "rest (ic_in c) = [] \<or> ic_end c = 0" using assms by (auto simp: cache_rep_def cache_dead_def)
  then have "ok \<Longrightarrow> d = []" by (rule read_end [OF _ r])
  then show thesis
    by (intro that [of "c\<lparr>ic_begin := 0, ic_end := 0, ic_buf := [], ic_in := s'\<rparr>"])
      (auto simp: cache_update_def r cache_dead_def)
qed

lemma rep_empty: "cache_rep rest c [] \<Longrightarrow> ic_begin c = ic_end c"
  by (simp add: cache_rep_def)

lemma dead_empty: "cache_dead c \<Longrightarrow> ic_begin c = ic_end c"
  by (simp add: cache_dead_def)

lemma read_byte_rep:
  assumes "cache_rep rest c (b # bs)"
  obtains c' where "cache_read_1byte R c = (b, c')" "cache_rep rest c' bs"
proof (cases "ic_begin c = ic_end c")
  case True
  obtain c1 where c1: "cache_update R c = (True, c1)" "cache_rep rest c1 (b # bs)" "ic_begin c1 = 0"
    using assms True by (rule update_rep) simp
  have ne: "ic_buf c1 \<noteq> []" using c1(2) by (auto simp: cache_rep_def)
  then have "ic_buf c1 ! 0 = b" "cache_rep rest (c1\<lparr>ic_begin := Suc 0\<rparr>) bs"
    using c1(2,3) by (auto simp: cache_rep_def neq_Nil_conv Suc_le_eq)
  with True c1 show thesis by (intro that) (simp_all add: cache_read_1byte_def)
next
  case False
  then have lt: "ic_begin c < length (ic_buf c)" using assms by (simp add: cache_rep_def)
  then have "drop (ic_begin c) (ic_buf c) = ic_buf c ! ic_begin c # drop (Suc (ic_begin c)) (ic_buf c)"
    by (simp add: Cons_nth_drop_Suc)
  with assms lt have "ic_buf c ! ic_begin c = b" "cache_rep rest (c\<lparr>ic_begin := Suc (ic_begin c)\<rparr>) bs"
    by (auto simp: cache_rep_def)
  with False show thesis by (intro that) (simp_all add: cache_read_1byte_def)
qed

lemma read_byte_end:
  assumes "cache_rep rest c [] \<or> cache_dead c"
  obtains c' where "cache_read_1byte R c = (0, c')" "cache_dead c'"
proof -
  obtain c' where "cache_update R c = (False, c')" "cache_dead c'" using assms by (rule update_end)
  moreover have "ic_begin c = ic_end c" using assms rep_empty dead_empty by blast
  ultimately show thesis by (intro that) (simp_all add: cache_read_1byte_def)
qed

lemma unpack_dead:
  assumes "cache_dead c"
  shows "cache_dead (snd (unpack_loop n R c v nx))"
  using assms
proof (induction n arbitrary: c v nx)
  case (Suc n)
  obtain c' where "cache_read_1byte R c = (0, c')" "cache_dead c'" using Suc.prems read_byte_end by blast
  then show ?case using Suc by simp
qed simp

lemma unpack_rep:
  assumes "cache_rep rest c bs" "length bs < n"
  shows "case sp_varint v nx bs of
      Some (v', bs') \<Rightarrow> (\<exists>c'. unpack_loop n R c v nx = (v', c') \<and> cache_rep rest c' bs') \<and> length bs' \<le> length bs
    | None \<Rightarrow> cache_dead (snd (unpack_loop n R c v nx))"
  using assms
proof (induction v nx bs arbitrary: c n rule: sp_varint.induct)
  case (1 v bs)
  then show ?case by (cases n) simp_all
next
  case (2 v)
  obtain m where "n = Suc m" using 2 by (cases n) auto
  obtain c' where "cache_read_1byte R c = (0, c')" "cache_dead c'" using 2 read_byte_end by blast
  then show ?case using \<open>n = Suc m\<close> unpack_dead by simp
next
  case (3 v b bs)
  obtain m where m: "n = Suc m" "length bs < m" using 3 by (cases n) auto
  obtain c' where c': "cache_read_1byte R c = (b, c')" "cache_rep rest c' bs" using 3 read_byte_rep by blast
  from 3(1) [OF c'(2) m(2)] show ?case
    by (auto simp: m c' split: option.splits)
qed

end

section \<open>The patch loop meets the format\<close>

text \<open>
  \<open>good t i\<close>: writing to the target \<open>t\<close> disturbs neither the old file nor what the stream \<open>i\<close>
  still has to deliver.  \<open>can_write t n\<close>: the next \<open>n\<close> bytes will be accepted.  A target that
  may fail at any time has it false throughout; then only what a successful run wrote is known.
\<close>

locale patch_run =
  fixes R :: "'o \<Rightarrow> 'i reader" and rest :: "'o \<Rightarrow> 'i \<Rightarrow> u8 list" and L :: "'o listener"
    and old :: "'o \<Rightarrow> u8 list" and written :: "'o \<Rightarrow> u8 list" and can_write :: "'o \<Rightarrow> nat \<Rightarrow> bool"
    and good :: "'o \<Rightarrow> 'i \<Rightarrow> bool" and params :: "'o \<Rightarrow> 'k"
  assumes source: "byte_source (R t) (rest t)"
    and read_good: "good t i \<Longrightarrow> R t i n = (ok, d, i') \<Longrightarrow> good t i'"
    and read_old: "good t i \<Longrightarrow> l_read_old L t p n =
        (if unat p + n \<le> length (old t) then Some (take n (drop (unat p) (old t))) else None)"
    and write_ok: "good t i \<Longrightarrow> l_write_new L t d = (True, t') \<Longrightarrow>
        written t' = written t @ d \<and> old t' = old t \<and> params t' = params t
        \<and> rest t' i = rest t i \<and> good t' i"
    and write_room: "good t i \<Longrightarrow> can_write t n \<Longrightarrow> length d \<le> n \<Longrightarrow>
        \<exists>t'. l_write_new L t d = (True, t') \<and> can_write t' (n - length d)"
    and room_mono: "can_write t n \<Longrightarrow> m \<le> n \<Longrightarrow> can_write t m"
    and small: "length (rest t i) < UNPACK_BOUND" "good t i \<Longrightarrow> length (old t) < 2 ^ 32"
begin

text \<open>A successful part of a run appended \<open>d\<close>; the input in the cache stands for \<open>bs\<close>.\<close>

definition ran :: "'o \<Rightarrow> 'o \<Rightarrow> u8 list \<Rightarrow> bool" where
  "ran t t' d \<longleftrightarrow> written t' = written t @ d \<and> old t' = old t \<and> params t' = params t
     \<and> (\<forall>k. can_write t (length d + k) \<longrightarrow> can_write t' k)"

definition at_input :: "'o \<Rightarrow> 'i input_cache \<Rightarrow> u8 list \<Rightarrow> bool" where
  "at_input t c bs \<longleftrightarrow> cache_rep (rest t) c bs \<and> good t (ic_in c)"

lemma ran_refl: "ran t t []"
  by (simp add: ran_def)

lemma ran_trans: "ran t t' d \<Longrightarrow> ran t' t'' e \<Longrightarrow> ran t t'' (d @ e)"
  by (simp add: ran_def add.assoc)

lemma write_step:
  assumes "at_input t c bs" "l_write_new L t d = (True, t')"
  shows "ran t t' d" "at_input t' c bs"
proof -
  have g: "good t (ic_in c)" using assms by (simp add: at_input_def)
  note w = write_ok [OF g assms(2)]
  have "can_write t' k" if "can_write t (length d + k)" for k
    using write_room [OF g that, of d] assms(2) by simp
  with w show "ran t t' d" by (simp add: ran_def)
  show "at_input t' c bs" using assms(1) w by (auto simp: at_input_def cache_rep_def)
qed

lemma write_possible:
  "at_input t c bs \<Longrightarrow> can_write t n \<Longrightarrow> length d \<le> n \<Longrightarrow> \<exists>t'. l_write_new L t d = (True, t')"
  using write_room unfolding at_input_def by blast

lemma update_good: "good t (ic_in c) \<Longrightarrow> cache_update (R t) c = (ok, c') \<Longrightarrow> good t (ic_in c')"
  by (auto simp: cache_update_def Let_def split: prod.splits dest: read_good)

lemma read_byte_good: "good t (ic_in c) \<Longrightarrow> cache_read_1byte (R t) c = (b, c') \<Longrightarrow> good t (ic_in c')"
  by (auto simp: cache_read_1byte_def split: if_splits prod.splits dest: update_good)

lemma unpack_good: "good t (ic_in c) \<Longrightarrow> unpack_loop n (R t) c v nx = (v', c') \<Longrightarrow> good t (ic_in c')"
  by (induction n arbitrary: c v nx) (auto split: if_splits prod.splits dest: read_byte_good)

lemma input_chunk:
  assumes "at_input t c bs" "n \<le> ic_end c - ic_begin c"
  shows "cache_chunk c n = take n bs" "at_input t (c\<lparr>ic_begin := ic_begin c + n\<rparr>) (drop n bs)"
    "n \<le> length bs"
  using assms by (auto simp: at_input_def cache_rep_def cache_chunk_def add.commute)

lemma input_refill:
  assumes "at_input t c bs" "bs \<noteq> []"
  obtains c' where "(if ic_end c - ic_begin c = 0 then cache_update (R t) c else (True, c)) = (True, c')"
    "at_input t c' bs" "0 < ic_end c' - ic_begin c'"
proof (cases "ic_begin c = ic_end c")
  case True
  have r: "cache_rep (rest t) c bs" and g: "good t (ic_in c)" using assms(1) by (simp_all add: at_input_def)
  obtain c' where c': "cache_update (R t) c = (True, c')" "cache_rep (rest t) c' bs" "ic_begin c' = 0"
    using byte_source.update_rep [OF source r True assms(2)] by metis
  show thesis
    by (rule that [of c']) (use True c' update_good [OF g c'(1)] in \<open>auto simp: at_input_def cache_rep_def\<close>)
next
  case False
  then show thesis using assms by (intro that [of c]) (auto simp: at_input_def cache_rep_def)
qed

lemma input_refill_end:
  assumes "at_input t c []"
  obtains c' where "(if ic_end c - ic_begin c = 0 then cache_update (R t) c else (True, c)) = (False, c')"
    "cache_dead c'"
proof -
  have "cache_rep (rest t) c []" using assms by (simp add: at_input_def)
  moreover from this have "ic_begin c = ic_end c" by (simp add: cache_rep_def)
  ultimately show thesis using byte_source.update_end [OF source, of t c] that by auto
qed

lemma copy_diff_aux:
  assumes "patch_copy_diff R L t c n = (ok, t', c')" "at_input t c bs"
  shows "(ok \<longrightarrow> n \<le> length bs \<and> ran t t' (take n bs) \<and> at_input t' c' (drop n bs))
    \<and> (n \<le> length bs \<longrightarrow> can_write t n \<longrightarrow> ok)"
  using assms
proof (induction n arbitrary: t c bs rule: less_induct)
  case (less n)
  note run = less.prems(1) [unfolded patch_copy_diff.simps [of R L t c n]]
  consider "n = 0" | "n \<noteq> 0" "bs = []" | "n \<noteq> 0" "bs \<noteq> []" by blast
  then show ?case
  proof cases
    case 1
    then show ?thesis using run less.prems(2) by (simp add: ran_refl)
  next
    case 2
    then obtain c1 where "(if ic_end c - ic_begin c = 0 then cache_update (R t) c else (True, c)) = (False, c1)"
      using less.prems(2) input_refill_end by blast
    then show ?thesis using run 2 by (simp add: Let_def)
  next
    case 3
    obtain c1 where c1: "(if ic_end c - ic_begin c = 0 then cache_update (R t) c else (True, c)) = (True, c1)"
      "at_input t c1 bs" "0 < ic_end c1 - ic_begin c1"
      using less.prems(2) 3(2) by (rule input_refill)
    define k where "k = min n (ic_end c1 - ic_begin c1)"
    have k: "0 < k" "k \<le> n" "k \<le> ic_end c1 - ic_begin c1" using 3 c1(3) by (simp_all add: k_def)
    note ch = input_chunk [OF c1(2) k(3)]
    obtain w t1 where w: "l_write_new L t (take k bs) = (w, t1)" by fastforce
    have step: "(ok, t', c') = (if \<not> w then (False, t1, c1)
        else patch_copy_diff R L t1 (c1\<lparr>ic_begin := ic_begin c1 + k\<rparr>) (n - k))"
      using run 3 k w ch(1) unfolding c1(1) Let_def prod.case
      by (simp add: k_def min_def split: if_splits)
    show ?thesis
    proof (cases w)
      case True
      have w': "l_write_new L t (take k bs) = (True, t1)" using w True by simp
      have r: "ran t t1 (take k bs)" by (rule write_step(1) [OF c1(2) w'])
      have rep1: "at_input t1 (c1\<lparr>ic_begin := ic_begin c1 + k\<rparr>) (drop k bs)"
        by (rule write_step(2) [OF ch(2) w'])
      have eq: "patch_copy_diff R L t1 (c1\<lparr>ic_begin := ic_begin c1 + k\<rparr>) (n - k) = (ok, t', c')"
        using step True by simp
      have "n - k < n" using k by simp
      note IH = less.IH [OF this eq rep1]
      have cat: "take k bs @ take (n - k) (drop k bs) = take n bs"
        using k(2) by (metis le_add_diff_inverse take_add)
      have cw: "can_write t n \<Longrightarrow> can_write t1 (n - k)"
        using r k(2) ch(3) by (simp add: ran_def)
      have app: "ran t t' (take n bs)" if "ran t1 t' (take (n - k) (drop k bs))"
        using ran_trans [OF r that] by (simp only: cat)
      show ?thesis
        using IH app cw k ch(3) by (auto simp: add.commute)
    next
      case False
      then have "\<not> can_write t n"
        using write_possible [OF c1(2), of n "take k bs"] w k ch(3) by auto
      then show ?thesis using step False by simp
    qed
  qed
qed

lemmas copy_diff = copy_diff_aux [THEN conjunct1, rule_format]
lemmas copy_diff_total = copy_diff_aux [THEN conjunct2, rule_format]

text \<open>A cover, with its difference or without.\<close>

lemma add_refill:
  assumes "at_input t c bs" "no_sub \<or> bs \<noteq> []"
  obtains c1 where "(if \<not> no_sub \<and> ic_end c - ic_begin c = 0 then snd (cache_update (R t) c) else c) = c1"
    "at_input t c1 bs" "no_sub \<or> 0 < ic_end c1 - ic_begin c1"
proof (cases no_sub)
  case True
  then show thesis using assms that by simp
next
  case False
  then have "bs \<noteq> []" using assms by simp
  with assms(1) obtain c1 where
    "(if ic_end c - ic_begin c = 0 then cache_update (R t) c else (True, c)) = (True, c1)"
    "at_input t c1 bs" "0 < ic_end c1 - ic_begin c1"
    by (rule input_refill)
  then show thesis using False that by (auto split: if_splits)
qed

text \<open>One round: \<open>k\<close> bytes of the old image, with or without a difference, make \<open>e\<close>.\<close>

lemma add_round:
  assumes run: "patch_add_old_withClip R L t c no_sub p n = (ok, t', c')" and input: "at_input t c bs"
    and n: "n \<noteq> 0" "no_sub \<or> bs \<noteq> []"
  obtains k e w t1 c1 c2 bs1 where "0 < k" "k \<le> n" "\<not> no_sub \<Longrightarrow> k \<le> length bs"
    "e = (if no_sub then take k (drop (unat p) (old t))
          else addData (take k (drop (unat p) (old t))) (take k bs))"
    "bs1 = (if no_sub then bs else drop k bs)" "at_input t c2 bs1" "l_write_new L t e = (w, t1)"
    "(ok, t', c') = (if \<not> unat p + k \<le> length (old t) then (False, t, c1)
        else if \<not> w then (False, t1, c2)
        else patch_add_old_withClip R L t1 c2 no_sub (p + of_nat k) (n - k))"
proof -
  note run = run [unfolded patch_add_old_withClip.simps [of R L t c no_sub p n]]
  obtain c1 where c1: "(if \<not> no_sub \<and> ic_end c - ic_begin c = 0 then snd (cache_update (R t) c) else c) = c1"
    "at_input t c1 bs" "no_sub \<or> 0 < ic_end c1 - ic_begin c1"
    using input n(2) by (rule add_refill)
  define m where "m = (if no_sub then ic_end c1 else ic_end c1 - ic_begin c1)"
  have m: "0 < m" using c1 by (auto simp: m_def at_input_def cache_rep_def)
  define k where "k = (if m > n then n else m)"
  have k: "0 < k" "k \<le> n" using m n(1) by (auto simp: k_def)
  have g1: "good t (ic_in c1)" using c1(2) by (simp add: at_input_def)
  let ?o = "take k (drop (unat p) (old t))"
  define e where "e = (if no_sub then ?o else addData ?o (take k bs))"
  define c2 where "c2 = (if no_sub then c1 else c1\<lparr>ic_begin := ic_begin c1 + k\<rparr>)"
  have kb: "k \<le> length bs" "cache_chunk c1 k = take k bs" if "\<not> no_sub"
    using input_chunk [OF c1(2), of k] that by (auto simp: k_def m_def)
  have c2: "at_input t c2 (if no_sub then bs else drop k bs)"
    using input_chunk(2) [OF c1(2), of k] c1(2) by (auto simp: c2_def k_def m_def)
  obtain w t1 where w: "l_write_new L t e = (w, t1)" by fastforce
  have "(ok, t', c') = (if \<not> unat p + k \<le> length (old t) then (False, t, c1)
      else if \<not> w then (False, t1, c2)
      else patch_add_old_withClip R L t1 c2 no_sub (p + of_nat k) (n - k))"
    using run n(1) m w kb unfolding Let_def c1(1) read_old [OF g1] m_def [symmetric] k_def [symmetric]
    by (auto simp: e_def c2_def)
  with k kb(1) e_def refl c2 w show thesis by (rule that)
qed

lemma add_old_aux:
  assumes "patch_add_old_withClip R L t c no_sub p n = (ok, t', c')" "at_input t c bs"
  shows "(ok \<longrightarrow> (\<exists>d bs'. sp_cover (old t) no_sub p n bs = Some (d, bs') \<and> ran t t' d \<and> at_input t' c' bs'))
    \<and> ((\<exists>d bs'. sp_cover (old t) no_sub p n bs = Some (d, bs')) \<longrightarrow> can_write t n \<longrightarrow> ok)"
  using assms
proof (induction n arbitrary: t c bs p rule: less_induct)
  case (less n)
  have good: "good t (ic_in c)" using less.prems(2) by (simp add: at_input_def)
  consider "n = 0" | "n \<noteq> 0" "\<not> no_sub" "bs = []" | "n \<noteq> 0" "no_sub \<or> bs \<noteq> []" by blast
  then show ?case
  proof cases
    case 1
    then show ?thesis using less.prems unfolding patch_add_old_withClip.simps [of R L t c no_sub p n]
      by (simp add: ran_refl sp_cover_def)
  next
    case 2
    then obtain c1 where "(if ic_end c - ic_begin c = 0 then cache_update (R t) c else (True, c)) = (False, c1)"
      "cache_dead c1"
      using less.prems(2) input_refill_end by blast
    then have "\<not> ok" using less.prems(1) 2 unfolding patch_add_old_withClip.simps [of R L t c no_sub p n]
      by (auto simp: Let_def cache_dead_def split: if_splits)
    then show ?thesis using 2 by (auto simp: sp_cover_def sp_take_def sp_old_def)
  next
    case 3
    obtain k e w t1 c1 c2 bs1 where k: "0 < k" "k \<le> n" "\<not> no_sub \<Longrightarrow> k \<le> length bs"
      and e: "e = (if no_sub then take k (drop (unat p) (old t))
          else addData (take k (drop (unat p) (old t))) (take k bs))"
      and bs1: "bs1 = (if no_sub then bs else drop k bs)" and c2: "at_input t c2 bs1"
      and w: "l_write_new L t e = (w, t1)"
      and step: "(ok, t', c') = (if \<not> unat p + k \<le> length (old t) then (False, t, c1)
        else if \<not> w then (False, t1, c2)
        else patch_add_old_withClip R L t1 c2 no_sub (p + of_nat k) (n - k))"
      using less.prems 3 by (rule add_round) (rule that; assumption)
    have le: "length e = k" if "unat p + k \<le> length (old t)"
    proof -
      have "k \<le> length (old t) - unat p" using that by arith
      then show ?thesis using k(3) by (cases no_sub) (simp_all add: e addData_def min_absorb2)
    qed
    consider "\<not> unat p + k \<le> length (old t)" | "unat p + k \<le> length (old t)" "\<not> w"
      | "unat p + k \<le> length (old t)" w by blast
    then show ?thesis
    proof cases
      case 1
      then have "sp_cover (old t) no_sub p n bs = None"
        using k 3(1) by (simp add: sp_cover_def sp_old_def)
      then show ?thesis using step 1 by simp
    next
      case 2
      then have "\<not> can_write t n" using write_possible [OF c2, of n e] w k le by auto
      then show ?thesis using step 2 by simp
    next
      case inold: 3
      have w': "l_write_new L t e = (True, t1)" using w inold(2) by simp
      have r: "ran t t1 e" and in1: "at_input t1 c2 bs1" by (rule write_step [OF c2 w'])+
      have o1: "old t1 = old t" using r by (simp add: ran_def)
      have eq: "patch_add_old_withClip R L t1 c2 no_sub (p + of_nat k) (n - k) = (ok, t', c')"
        using step inold by simp
      have pk: "unat (p + of_nat k) = unat p + k"
        using inold(1) small(2) [OF good] by (simp add: unat_of_nat unat_word_ariths)
      have cover: "sp_cover (old t) no_sub p n bs
          = (case sp_cover (old t) no_sub (p + of_nat k) (n - k) bs1 of
               None \<Rightarrow> None | Some (d, bs') \<Rightarrow> Some (e @ d, bs'))"
        unfolding e bs1 by (rule sp_cover_split) (use k inold pk in auto)
      have "n - k < n" using k by simp
      note IH = less.IH [OF this eq in1, unfolded o1]
      have cw: "can_write t n \<Longrightarrow> can_write t1 (n - k)" using r k le inold(1) by (simp add: ran_def)
      show ?thesis
        using IH cw ran_trans [OF r] unfolding cover by (fastforce split: option.splits)
    qed
  qed
qed

lemmas add_old = add_old_aux [THEN conjunct1, rule_format]
lemmas add_old_total = add_old_aux [THEN conjunct2, rule_format]

lemma unpack_input:
  assumes "at_input t c bs" "length bs < UNPACK_BOUND"
  shows "case sp_varint v nx bs of
      Some (v', bs') \<Rightarrow> (\<exists>c'. cache_unpackUInt (R t) c v nx = (v', c') \<and> at_input t c' bs') \<and> length bs' \<le> length bs
    | None \<Rightarrow> cache_dead (snd (cache_unpackUInt (R t) c v nx))"
  using byte_source.unpack_rep [OF source _ assms(2), of t c v nx] assms(1) unpack_good [of t c]
  unfolding cache_unpackUInt_def at_input_def by (fastforce split: option.splits)

lemma byte_input:
  assumes "at_input t c bs"
  shows "case sp_byte bs of
      Some (b, bs') \<Rightarrow> (\<exists>c'. cache_read_1byte (R t) c = (b, c') \<and> at_input t c' bs') \<and> length bs' \<le> length bs
    | None \<Rightarrow> cache_dead (snd (cache_read_1byte (R t) c))"
proof (cases bs)
  case Nil
  then show ?thesis using byte_source.read_byte_end [OF source, of t c] assms by (fastforce simp: at_input_def)
next
  case (Cons b bs')
  then show ?thesis
    using byte_source.read_byte_rep [OF source, of t c b bs'] assms read_byte_good [of t c]
    by (fastforce simp: at_input_def)
qed

text \<open>After the end of the input nothing more is written, and the run does not succeed.\<close>

lemma dead_unpack: "cache_dead c \<Longrightarrow> cache_dead (snd (cache_unpackUInt (R t) c v nx))"
  unfolding cache_unpackUInt_def by (rule byte_source.unpack_dead [OF source])

lemma dead_byte: "cache_dead c \<Longrightarrow> cache_dead (snd (cache_read_1byte (R t) c))"
  using byte_source.read_byte_end [OF source, of t c] by fastforce

lemma dead_copy: "cache_dead c \<Longrightarrow> patch_copy_diff R L t c n = (ok, t', c') \<Longrightarrow> ok \<Longrightarrow> cache_dead c'"
  using byte_source.update_end [OF source, of t c]
  by (subst (asm) patch_copy_diff.simps) (fastforce simp: Let_def cache_dead_def split: if_splits)

lemma dead_add: "cache_dead c \<Longrightarrow> patch_add_old_withClip R L t c ns p n = (ok, t', c') \<Longrightarrow> ok \<Longrightarrow> cache_dead c'"
  using byte_source.update_end [OF source, of t c]
  by (subst (asm) patch_add_old_withClip.simps) (fastforce simp: Let_def cache_dead_def split: if_splits)

lemma dead_cover_loop:
  "cache_dead c \<Longrightarrow> cover_loop n R L t c np op = (ok, t', c', np') \<Longrightarrow> ok \<Longrightarrow> cache_dead c'"
proof (induction n arbitrary: t c np op)
  case (Suc n)
  obtain len c1 where 1: "cache_unpackUInt (R t) c 0 True = (len, c1)" by fastforce
  obtain tag c2 where 2: "cache_read_1byte (R t) c1 = (tag, c2)" by fastforce
  obtain p c3 where 3: "cache_unpackUInt (R t) c2 (ucast (tag AND 31)) (bit tag 5) = (p, c3)" by fastforce
  obtain gap c4 where 4: "cache_unpackUInt (R t) c3 0 True = (gap, c4)" by fastforce
  have d4: "cache_dead c4"
    using Suc.prems(1) dead_unpack dead_byte 1 2 3 4 by (metis snd_conv)
  obtain ok1 t1 c5 where 5: "(if np < gap + np then patch_copy_diff R L t c4 (unat (gap + np - np)) else (True, t, c4)) = (ok1, t1, c5)"
    by (metis prod_cases3)
  obtain ok2 t2 c6 where 6: "patch_add_old_withClip R L t1 c5 (bit tag 7)
      (if bit tag 6 then op - p else p + op) (unat len) = (ok2, t2, c6)"
    by (metis prod_cases3)
  have run: "(ok, t', c', np') = (if \<not> ok1 then (False, t1, c5, np) else if \<not> ok2 then (False, t2, c6, np)
      else cover_loop n R L t2 c6 (gap + np + len) ((if bit tag 6 then op - p else p + op) + len))"
    using Suc.prems(2) 1 2 3 4 5 6 by (simp add: Let_def split: if_splits)
  then have ok: ok1 ok2 using Suc.prems(3) by (auto split: if_splits)
  have "cache_dead c5" using 5 d4 dead_copy ok(1) by (auto split: if_splits)
  then have "cache_dead c6" using dead_add 6 ok(2) by blast
  then show ?case using run ok Suc.IH Suc.prems(3) by simp
qed simp

text \<open>The four fields of a cover, from the cache and from the list.\<close>

definition sp_fields :: "u8 list \<Rightarrow> (u32 \<times> u8 \<times> u32 \<times> u32 \<times> u8 list) option" where
  "sp_fields bs =
     do { (len, bs) \<leftarrow> sp_varint 0 True bs;
          (tag, bs) \<leftarrow> sp_byte bs;
          (p, bs) \<leftarrow> sp_varint (ucast (tag AND 31)) (bit tag 5) bs;
          (gap, bs) \<leftarrow> sp_varint 0 True bs;
          Some (len, tag, p, gap, bs) }"

definition read_fields :: "'o \<Rightarrow> 'i input_cache \<Rightarrow> u32 \<times> u8 \<times> u32 \<times> u32 \<times> 'i input_cache" where
  "read_fields t c =
     (let (len, c) = cache_unpackUInt (R t) c 0 True;
          (tag, c) = cache_read_1byte (R t) c;
          (p, c) = cache_unpackUInt (R t) c (ucast (tag AND 31)) (bit tag 5);
          (gap, c) = cache_unpackUInt (R t) c 0 True
      in (len, tag, p, gap, c))"

lemma read_fields_dead:
  assumes "cache_dead c" "read_fields t c = (len, tag, p, gap, c')"
  shows "cache_dead c'"
  using assms(2) unfolding read_fields_def Let_def
  by (auto split: prod.splits) (metis assms(1) dead_byte dead_unpack snd_conv)

lemma read_fields_input:
  assumes input: "at_input t c bs" and len: "length bs < UNPACK_BOUND"
    and rf: "read_fields t c = (l, tag, p, gap, c')"
  shows "case sp_fields bs of
      Some (l', tag', p', gap', bs') \<Rightarrow>
        l' = l \<and> tag' = tag \<and> p' = p \<and> gap' = gap \<and> at_input t c' bs' \<and> length bs' \<le> length bs
    | None \<Rightarrow> cache_dead c'"
proof -
  obtain l1 c1 where 1: "cache_unpackUInt (R t) c 0 True = (l1, c1)" by fastforce
  obtain t2 c2 where 2: "cache_read_1byte (R t) c1 = (t2, c2)" by fastforce
  obtain p3 c3 where 3: "cache_unpackUInt (R t) c2 (ucast (t2 AND 31)) (bit t2 5) = (p3, c3)" by fastforce
  obtain g4 c4 where 4: "cache_unpackUInt (R t) c3 0 True = (g4, c4)" by fastforce
  have eq: "l1 = l" "t2 = tag" "p3 = p" "g4 = gap" "c4 = c'"
    using rf 1 2 3 4 by (auto simp: read_fields_def Let_def)
  have d: "cache_dead c1 \<Longrightarrow> cache_dead c2" "cache_dead c2 \<Longrightarrow> cache_dead c3" "cache_dead c3 \<Longrightarrow> cache_dead c4"
    using dead_unpack dead_byte 2 3 4 by (metis snd_conv)+
  note u1 = unpack_input [OF input len, of 0 True, unfolded 1]
  show ?thesis
  proof (cases "sp_varint 0 True bs")
    case None
    then show ?thesis using u1 d eq by (simp add: sp_fields_def)
  next
    case (Some x1)
    obtain l' bs1 where x1: "x1 = (l', bs1)" by fastforce
    then have i1: "l' = l1" "at_input t c1 bs1" "length bs1 \<le> length bs" using u1 Some by auto
    note u2 = byte_input [OF i1(2), unfolded 2]
    show ?thesis
    proof (cases "sp_byte bs1")
      case None
      then show ?thesis using u2 d eq Some x1 by (simp add: sp_fields_def)
    next
      case S2: (Some x2)
      obtain t' bs2 where x2: "x2 = (t', bs2)" by fastforce
      then have i2: "t' = t2" "at_input t c2 bs2" "length bs2 \<le> length bs1" using u2 S2 by auto
      then have len2: "length bs2 < UNPACK_BOUND" using i1 len by simp
      note u3 = unpack_input [OF i2(2) len2, of "ucast (t2 AND 31)" "bit t2 5", unfolded 3]
      show ?thesis
      proof (cases "sp_varint (ucast (t2 AND 31)) (bit t2 5) bs2")
        case None
        then show ?thesis using u3 d eq Some x1 S2 x2 i2 by (simp add: sp_fields_def)
      next
        case S3: (Some x3)
        obtain p' bs3 where x3: "x3 = (p', bs3)" by fastforce
        then have i3: "p' = p3" "at_input t c3 bs3" "length bs3 \<le> length bs2" using u3 S3 by auto
        then have len3: "length bs3 < UNPACK_BOUND" using len2 by simp
        note u4 = unpack_input [OF i3(2) len3, of 0 True, unfolded 4]
        show ?thesis
          using u4 Some x1 S2 x2 S3 x3 i1 i2 i3 eq by (auto simp: sp_fields_def split: option.splits)
      qed
    qed
  qed
qed

lemma sp_covers_fields:
  "sp_covers (Suc n) old' np op bs =
     do { (len, tag, p, gap, bs) \<leftarrow> sp_fields bs;
          let p = (if bit tag 6 then op - p else p + op);
          (lit, bs) \<leftarrow> sp_take (if np < gap + np then unat gap else 0) bs;
          (cov, bs) \<leftarrow> sp_cover old' (bit tag 7) p (unat len) bs;
          (rest, np) \<leftarrow> sp_covers n old' (gap + np + len) (p + len) bs;
          Some (lit @ cov @ rest, np) }"
  by (simp add: sp_fields_def Let_def split: prod.splits option.splits Option.bind_splits)

lemma cover_loop_fields:
  "cover_loop (Suc n) R L t c np op =
     (let (len, tag, p, gap, c) = read_fields t c;
          p = (if bit tag 6 then op - p else p + op);
          (ok, t, c) = (if np < gap + np then patch_copy_diff R L t c (unat gap) else (True, t, c))
      in if \<not> ok then (False, t, c, np) else
      case patch_add_old_withClip R L t c (bit tag 7) p (unat len) of (ok, t, c) \<Rightarrow>
      if \<not> ok then (False, t, c, np) else cover_loop n R L t c (gap + np + len) (p + len))"
  by (simp add: read_fields_def Let_def case_prod_unfold)

lemma copy_step:
  assumes "(if b then patch_copy_diff R L t c n else (True, t, c)) = (ok, t', c')" "at_input t c bs"
  shows "ok \<Longrightarrow> \<exists>lit bs'. sp_take (if b then n else 0) bs = Some (lit, bs') \<and> ran t t' lit
      \<and> at_input t' c' bs' \<and> length bs' \<le> length bs"
    and "sp_take (if b then n else 0) bs = Some (lit, bs') \<Longrightarrow> can_write t (length lit) \<Longrightarrow> ok"
proof -
  show "\<exists>lit bs'. sp_take (if b then n else 0) bs = Some (lit, bs') \<and> ran t t' lit
      \<and> at_input t' c' bs' \<and> length bs' \<le> length bs" if ok
  proof (cases b)
    case True
    then show ?thesis using copy_diff [of t c n ok t' c' bs] assms that by (simp add: sp_take_def)
  next
    case False
    then show ?thesis using assms by (simp add: sp_take_def ran_refl)
  qed
  show ok if "sp_take (if b then n else 0) bs = Some (lit, bs')" "can_write t (length lit)"
  proof (cases b)
    case True
    then show ?thesis
      using copy_diff_total [of t c n ok t' c' bs] assms that by (auto simp: sp_take_def split: if_splits)
  next
    case False
    then show ?thesis using assms by simp
  qed
qed

lemma add_step:
  assumes "patch_add_old_withClip R L t c no_sub p n = (ok, t', c')" "at_input t c bs"
  shows "ok \<Longrightarrow> \<exists>d bs'. sp_cover (old t) no_sub p n bs = Some (d, bs') \<and> ran t t' d
      \<and> at_input t' c' bs' \<and> length bs' \<le> length bs"
    and "sp_cover (old t) no_sub p n bs = Some (d, bs') \<Longrightarrow> can_write t (length d) \<Longrightarrow> ok"
proof -
  have len: "sp_cover (old t) no_sub p n bs = Some (d, bs') \<Longrightarrow> length d = n \<and> length bs' \<le> length bs"
    for d bs'
    by (auto simp: sp_cover_def sp_old_def sp_take_def addData_def split: if_splits Option.bind_splits)
  show "ok \<Longrightarrow> \<exists>d bs'. sp_cover (old t) no_sub p n bs = Some (d, bs') \<and> ran t t' d
      \<and> at_input t' c' bs' \<and> length bs' \<le> length bs"
    using add_old [OF assms] len by blast
  show "sp_cover (old t) no_sub p n bs = Some (d, bs') \<Longrightarrow> can_write t (length d) \<Longrightarrow> ok"
    using add_old_total [OF assms] len by blast
qed

lemma dead_unfinished: "cache_dead c \<Longrightarrow> \<not> cache_success_finish c"
  by (simp add: cache_dead_def cache_success_finish_def)

text \<open>One round of the loop, and what the specification takes from the list in it.\<close>

lemma cover_round:
  assumes "cover_loop (Suc n) R L t c np op = (ok, t', c', np')"
    and "read_fields t c = (len, tag, p, gap, c4)"
  obtains q ok1 t1 c5 ok2 t2 c6 where "q = (if bit tag 6 then op - p else p + op)"
    "(if np < gap + np then patch_copy_diff R L t c4 (unat gap) else (True, t, c4)) = (ok1, t1, c5)"
    "patch_add_old_withClip R L t1 c5 (bit tag 7) q (unat len) = (ok2, t2, c6)"
    "(ok, t', c', np') = (if \<not> ok1 then (False, t1, c5, np) else if \<not> ok2 then (False, t2, c6, np)
      else cover_loop n R L t2 c6 (gap + np + len) (q + len))"
proof -
  let ?q = "if bit tag 6 then op - p else p + op"
  obtain ok1 t1 c5 where 5:
    "(if np < gap + np then patch_copy_diff R L t c4 (unat gap) else (True, t, c4)) = (ok1, t1, c5)"
    by (rule prod_cases3)
  obtain ok2 t2 c6 where 6: "patch_add_old_withClip R L t1 c5 (bit tag 7) ?q (unat len) = (ok2, t2, c6)"
    by (rule prod_cases3)
  have "(ok, t', c', np') = (if \<not> ok1 then (False, t1, c5, np) else if \<not> ok2 then (False, t2, c6, np)
      else cover_loop n R L t2 c6 (gap + np + len) (?q + len))"
    using assms(1) unfolding cover_loop_fields assms(2) Let_def prod.case 5 6 by simp
  from that [OF refl 5 6 this] show thesis .
qed

lemma sp_covers_SomeE:
  assumes "sp_covers (Suc n) old' np op bs = Some (new, np')"
  obtains len tag p gap bs4 q lit bs5 cov bs6 r where "sp_fields bs = Some (len, tag, p, gap, bs4)"
    "q = (if bit tag 6 then op - p else p + op)"
    "sp_take (if np < gap + np then unat gap else 0) bs4 = Some (lit, bs5)"
    "sp_cover old' (bit tag 7) q (unat len) bs5 = Some (cov, bs6)"
    "sp_covers n old' (gap + np + len) (q + len) bs6 = Some (r, np')" "new = lit @ cov @ r"
  using assms unfolding sp_covers_fields Let_def by (auto split: Option.bind_splits)

lemma cover_loop_sound:
  assumes "cover_loop n R L t c np op = (True, t', c', np')" "at_input t c bs"
    and "length bs < UNPACK_BOUND" "cache_success_finish c'"
  shows "\<exists>new. sp_covers n (old t) np op bs = Some (new, np') \<and> ran t t' new"
  using assms
proof (induction n arbitrary: t c np op bs)
  case 0
  then show ?case by (simp add: ran_refl)
next
  case (Suc n)
  obtain len tag p gap c4 where rf: "read_fields t c = (len, tag, p, gap, c4)" by (metis prod_cases5)
  obtain q ok1 t1 c5 ok2 t2 c6 where q: "q = (if bit tag 6 then op - p else p + op)"
    and 5: "(if np < gap + np then patch_copy_diff R L t c4 (unat gap) else (True, t, c4)) = (ok1, t1, c5)"
    and 6: "patch_add_old_withClip R L t1 c5 (bit tag 7) q (unat len) = (ok2, t2, c6)"
    and run: "(True, t', c', np') = (if \<not> ok1 then (False, t1, c5, np) else if \<not> ok2 then (False, t2, c6, np)
      else cover_loop n R L t2 c6 (gap + np + len) (q + len))"
    using Suc.prems(1) rf by (rule cover_round)
  have o: ok1 ok2 "cover_loop n R L t2 c6 (gap + np + len) (q + len) = (True, t', c', np')"
    using run by (auto split: if_splits)
  note fields = read_fields_input [OF Suc.prems(2,3) rf]
  show ?case
  proof (cases "sp_fields bs")
    case None
    then have "cache_dead c4" using fields by simp
    then have "cache_dead c5" using 5 dead_copy o(1) by (auto split: if_splits)
    then have "cache_dead c6" using dead_add 6 o(2) by blast
    then show ?thesis using o(3) dead_cover_loop dead_unfinished Suc.prems(4) by blast
  next
    case (Some f)
    then obtain bs4 where f: "f = (len, tag, p, gap, bs4)" "at_input t c4 bs4" "length bs4 \<le> length bs"
      using fields by (cases f) auto
    from copy_step(1) [OF 5 f(2) o(1)] obtain lit bs5 where
      lit: "sp_take (if np < gap + np then unat gap else 0) bs4 = Some (lit, bs5)" "ran t t1 lit"
        "at_input t1 c5 bs5" "length bs5 \<le> length bs4" by blast
    have old1: "old t1 = old t" using lit(2) by (simp add: ran_def)
    from add_step(1) [OF 6 lit(3) o(2)] obtain cov bs6 where
      cov: "sp_cover (old t) (bit tag 7) q (unat len) bs5 = Some (cov, bs6)" "ran t1 t2 cov"
        "at_input t2 c6 bs6" "length bs6 \<le> length bs5" unfolding old1 by blast
    have old2: "old t2 = old t" using cov(2) old1 by (simp add: ran_def)
    have "length bs6 < UNPACK_BOUND" using cov(4) lit(4) f(3) Suc.prems(3) by simp
    from Suc.IH [OF o(3) cov(3) this Suc.prems(4)] obtain r where
      r: "sp_covers n (old t) (gap + np + len) (q + len) bs6 = Some (r, np')" "ran t2 t' r"
      unfolding old2 by blast
    have "sp_covers (Suc n) (old t) np op bs = Some (lit @ cov @ r, np')"
      unfolding sp_covers_fields Some f(1) Let_def by (cases "bit tag 6") (use q lit(1) cov(1) r(1) in simp_all)
    then show ?thesis using ran_trans [OF lit(2) ran_trans [OF cov(2) r(2)]] by blast
  qed
qed

lemma cover_loop_total:
  assumes "cover_loop n R L t c np op = (ok, t', c', np')" "at_input t c bs"
    and "length bs < UNPACK_BOUND" "sp_covers n (old t) np op bs = Some (new, np'')"
    and "can_write t (length new)"
  shows "ok \<and> cache_success_finish c' \<and> np'' = np'"
  using assms
proof (induction n arbitrary: t c np op bs new)
  case 0
  then show ?case by (auto simp: at_input_def cache_rep_def cache_success_finish_def)
next
  case (Suc n)
  obtain len tag p gap c4 where rf: "read_fields t c = (len, tag, p, gap, c4)" by (metis prod_cases5)
  obtain bs4 q lit bs5 cov bs6 r where f: "sp_fields bs = Some (len, tag, p, gap, bs4)"
    and q: "q = (if bit tag 6 then op - p else p + op)"
    and lit: "sp_take (if np < gap + np then unat gap else 0) bs4 = Some (lit, bs5)"
    and cov: "sp_cover (old t) (bit tag 7) q (unat len) bs5 = Some (cov, bs6)"
    and r: "sp_covers n (old t) (gap + np + len) (q + len) bs6 = Some (r, np'')" and new: "new = lit @ cov @ r"
    using Suc.prems(4) read_fields_input [OF Suc.prems(2,3) rf] by (elim sp_covers_SomeE) auto
  obtain ok1 t1 c5 ok2 t2 c6 where
    5: "(if np < gap + np then patch_copy_diff R L t c4 (unat gap) else (True, t, c4)) = (ok1, t1, c5)"
    and 6: "patch_add_old_withClip R L t1 c5 (bit tag 7) q (unat len) = (ok2, t2, c6)"
    and run: "(ok, t', c', np') = (if \<not> ok1 then (False, t1, c5, np) else if \<not> ok2 then (False, t2, c6, np)
      else cover_loop n R L t2 c6 (gap + np + len) (q + len))"
    using Suc.prems(1) rf unfolding q by (elim cover_round) auto
  have i4: "at_input t c4 bs4" "length bs4 \<le> length bs"
    using read_fields_input [OF Suc.prems(2,3) rf] f by auto
  have ok1: ok1
    using copy_step(2) [OF 5 i4(1) lit] room_mono [OF Suc.prems(5), of "length lit"] by (simp add: new)
  from copy_step(1) [OF 5 i4(1) ok1] lit have l: "ran t t1 lit" "at_input t1 c5 bs5" "length bs5 \<le> length bs4"
    by auto
  have old1: "old t1 = old t" and w1: "can_write t1 (length cov + length r)"
    using l(1) Suc.prems(5) by (simp_all add: ran_def new)
  have ok2: ok2
    using add_step(2) [OF 6 l(2), unfolded old1, OF cov] room_mono [OF w1, of "length cov"] by simp
  from add_step(1) [OF 6 l(2) ok2, unfolded old1] cov have v: "ran t1 t2 cov" "at_input t2 c6 bs6"
    "length bs6 \<le> length bs5" by auto
  have old2: "old t2 = old t" and w2: "can_write t2 (length r)" using v(1) w1 old1 by (simp_all add: ran_def)
  have run2: "cover_loop n R L t2 c6 (gap + np + len) (q + len) = (ok, t', c', np')"
    using run ok1 ok2 by simp
  have len6: "length bs6 < UNPACK_BOUND" using v(3) l(3) i4(2) Suc.prems(3) by simp
  show ?case by (rule Suc.IH [OF run2 v(2) len6 r [folded old2] w2])
qed

text \<open>The whole run against the specification.\<close>

lemma hpatch_lite_patch_spec:
  assumes g: "good t i" and sz: "2 \<le> cache_size"
    and run: "hpatch_lite_patch R L i t newSize cache_size = (ok, t', i')"
  shows "ok \<Longrightarrow> \<exists>new. spec_patch (old t) newSize (rest t i) = Some new
      \<and> written t' = written t @ new \<and> old t' = old t \<and> params t' = params t"
    and "spec_patch (old t) newSize (rest t i) = Some new \<Longrightarrow> can_write t (length new) \<Longrightarrow> ok"
proof -
  let ?h = "cache_size div 2"
  let ?c = "\<lparr>ic_begin = ?h, ic_end = ?h, ic_buf = replicate ?h 0, ic_in = i\<rparr>"
  have start: "at_input t ?c (rest t i)"
    using byte_source.rep_init [OF source, of ?h t i] g sz by (simp add: at_input_def)
  have len: "length (rest t i) < UNPACK_BOUND" by (rule small(1))
  obtain n c1 where 1: "cache_unpackUInt (R t) ?c 0 True = (n, c1)" by fastforce
  obtain ok1 t1 c2 np where 2: "cover_loop (unat n) R L t c1 0 0 = (ok1, t1, c2, np)" by (metis prod_cases4)
  have res: "ok \<longleftrightarrow> ok1 \<and> newSize = np \<and> cache_success_finish c2" "t' = t1"
    using run by (auto simp: hpatch_lite_patch_def Let_def 1 2 split: if_splits)
  note u = unpack_input [OF start len, of 0 True, unfolded 1]
  show "\<exists>new. spec_patch (old t) newSize (rest t i) = Some new
      \<and> written t' = written t @ new \<and> old t' = old t \<and> params t' = params t" if ok
  proof (cases "sp_varint 0 True (rest t i)")
    case None
    then have "cache_dead c2" using u dead_cover_loop 2 that res by auto
    then show ?thesis using that res dead_unfinished by blast
  next
    case (Some x)
    then obtain bs where bs: "x = (n, bs)" "at_input t c1 bs" "length bs < UNPACK_BOUND" using u len by (cases x) auto
    have "cover_loop (unat n) R L t c1 0 0 = (True, t1, c2, np)" using 2 that res by simp
    from cover_loop_sound [OF this bs(2,3)] that res
    obtain new where "sp_covers (unat n) (old t) 0 0 bs = Some (new, np)" "ran t t1 new" by blast
    then show ?thesis using Some bs(1) res that by (simp add: spec_patch_def ran_def)
  qed
  show ok if s: "spec_patch (old t) newSize (rest t i) = Some new" and room: "can_write t (length new)"
  proof -
    from s obtain m bs where m: "sp_varint 0 True (rest t i) = Some (m, bs)" "sp_covers (unat m) (old t) 0 0 bs = Some (new, newSize)"
      by (auto simp: spec_patch_def split: Option.bind_splits if_splits)
    then have bs: "m = n" "at_input t c1 bs" "length bs < UNPACK_BOUND" using u len by auto
    have "ok1 \<and> cache_success_finish c2 \<and> newSize = np"
      using cover_loop_total [OF 2 bs(2,3) m(2) [unfolded bs(1)] room] .
    then show ok using res(1) by blast
  qed
qed

end

section \<open>What every run keeps\<close>

text \<open>A property of the output that no write breaks holds after any run, whatever the input.\<close>

lemma copy_diff_keeps:
  assumes w: "\<And>t d ok t'. P t \<Longrightarrow> l_write_new L t d = (ok, t') \<Longrightarrow> P t'"
  shows "patch_copy_diff R L out c n = (ok, out', c') \<Longrightarrow> P out \<Longrightarrow> P out'"
proof (induction n arbitrary: out c rule: less_induct)
  case (less n)
  show ?case
  proof (cases "n = 0")
    case True
    then show ?thesis using less.prems by (simp add: patch_copy_diff.simps [of R L out c])
  next
    case False
    obtain u c1 where u: "(if ic_end c - ic_begin c = 0 then cache_update (R out) c else (True, c)) = (u, c1)"
      by fastforce
    let ?k = "if ic_end c1 - ic_begin c1 > n then n else ic_end c1 - ic_begin c1"
    obtain wr t1 where wr: "l_write_new L out (cache_chunk c1 ?k) = (wr, t1)" by fastforce
    have n: "n > 0" using False by simp
    have P1: "P t1" by (rule w [OF less.prems(2) wr])
    have step: "patch_copy_diff R L out c n =
        (if \<not> u \<or> ?k = 0 then (False, out, c1) else if \<not> wr then (False, t1, c1)
         else patch_copy_diff R L t1 (c1\<lparr>ic_begin := ic_begin c1 + ?k\<rparr>) (n - ?k))"
      by (subst patch_copy_diff.simps) (simp only: Let_def u n wr prod.case if_True)
    show ?thesis
    proof (cases "\<not> u \<or> ?k = 0")
      case True
      then show ?thesis using less.prems unfolding step by simp
    next
      case k: False
      then have lt: "n - ?k < n" using n by simp
      show ?thesis
        using less.prems(1) P1 less.IH [OF lt _ P1] k unfolding step by (cases wr) simp_all
    qed
  qed
qed

lemma add_old_keeps:
  assumes w: "\<And>t d ok t'. P t \<Longrightarrow> l_write_new L t d = (ok, t') \<Longrightarrow> P t'"
  shows "patch_add_old_withClip R L out c sd p n = (ok, out', c') \<Longrightarrow> P out \<Longrightarrow> P out'"
proof (induction n arbitrary: out c p rule: less_induct)
  case (less n)
  define c0 where "c0 = (if \<not> sd \<and> ic_end c - ic_begin c = 0 then snd (cache_update (R out) c) else c)"
  define j where "j = (if sd then ic_end c0 else ic_end c0 - ic_begin c0)"
  define k where "k = (if j > n then n else j)"
  show ?case
  proof (cases "n = 0 \<or> j = 0 \<or> l_read_old L out p k = None")
    case True
    then have "out' = out"
      using less.prems(1) unfolding j_def c0_def k_def
      by (subst (asm) patch_add_old_withClip.simps) (auto simp: Let_def split: if_splits)
    then show ?thesis using less.prems(2) by simp
  next
    case False
    then obtain d where d: "l_read_old L out p k = Some d" and n: "n > 0" and j: "j \<noteq> 0" by auto
    define dc where "dc = (if \<not> sd then (addData d (cache_chunk c0 k), c0\<lparr>ic_begin := ic_begin c0 + k\<rparr>) else (d, c0))"
    obtain d' c1 where dc': "dc = (d', c1)" by fastforce
    obtain wr t1 where wr: "l_write_new L out d' = (wr, t1)" by fastforce
    have P1: "P t1" by (rule w [OF less.prems(2) wr])
    have step: "patch_add_old_withClip R L out c sd p n =
        (if \<not> wr then (False, t1, c1) else patch_add_old_withClip R L t1 c1 sd (p + of_nat k) (n - k))"
      by (subst patch_add_old_withClip.simps)
        (simp only: Let_def n j d if_True if_False option.case c0_def [symmetric] j_def [symmetric]
          k_def [symmetric] dc_def [symmetric] dc' prod.case wr)
    have lt: "n - k < n" using n j by (simp add: k_def)
    show ?thesis
      using less.prems(1) P1 less.IH [OF lt _ P1] unfolding step by (cases wr) simp_all
  qed
qed

lemma cover_loop_keeps:
  assumes w: "\<And>t d ok t'. P t \<Longrightarrow> l_write_new L t d = (ok, t') \<Longrightarrow> P t'"
  shows "cover_loop n R L out c np op = (ok, out', c', np') \<Longrightarrow> P out \<Longrightarrow> P out'"
proof (induction n arbitrary: out c np op)
  case (Suc n)
  have copy: "P out1" if "patch_copy_diff R L out c k = (ok, out1, c1)" for c k ok out1 c1
    by (rule copy_diff_keeps [where P = P, OF _ that Suc.prems(2)]) (rule w)
  have add: "P out2" if "patch_add_old_withClip R L out1 c sd p k = (ok, out2, c2)" "P out1"
    for out1 c sd p k ok out2 c2
    by (rule add_old_keeps [where P = P, OF _ that]) (rule w)
  show ?case
    using Suc.prems by (auto simp: Let_def split: prod.splits if_splits dest: copy add Suc.IH)
qed simp

lemma hpatch_lite_patch_keeps:
  assumes w: "\<And>t d ok t'. P t \<Longrightarrow> l_write_new L t d = (ok, t') \<Longrightarrow> P t'"
    and run: "hpatch_lite_patch R L s out newSize k = (ok, out', s')" and P: "P out"
  shows "P out'"
proof -
  have "P out1" if "cover_loop n R L out c np op = (ok, out1, c1, np1)" for n c np op ok out1 c1 np1
    by (rule cover_loop_keeps [where P = P, OF _ that P]) (rule w)
  then show ?thesis using run by (auto simp: hpatch_lite_patch_def Let_def split: prod.splits if_splits)
qed

end
