(* ===== verification/Tinyuz.thy ===== *)
theory Tinyuz
  imports Hpatch_Lite
begin

unbundle bit_operations_syntax

text \<open>
  \<^verbatim>\<open>third_party/tinyuz/tuz_dec.c\<close> as the bootloader builds it (shared input cache, memory
  checks compiled out) and its glue \<^verbatim>\<open>bootloader/include/hpatch_decompress_tuz.h\<close>: the bit
  reader, the length codes, the dictionary ring and the resumable decompressor, over the
  readers of \<open>Hpatch_Lite\<close>.  A dictionary access outside the ring, which the compiled-out
  check would have caught, is undefined in C: the model's run ends with \<open>TUZ_OUTSIDE\<close> and the
  stream keeps the flag \<open>tz_outside\<close>.  The Makefile caps the dictionary size
  (\<^verbatim>\<open>-Dtuz_kMaxOfDictSize=8192\<close>) for the glue only; \<^verbatim>\<open>tuz_dec.c\<close> is built with the default cap,
  so that the size takes four bytes at the head of the stream.
\<close>

section \<open>State\<close>

datatype tuz_result = TUZ_OK | TUZ_STREAM_END | TUZ_CTRLTYPE_UNKNOW_ERROR | TUZ_READ_CODE_ERROR
  | TUZ_OUTSIDE | TUZ_BOUND

record 'i tuz_stream =
  tz_cache :: "'i input_cache"
  tz_dict_cur :: u32
  tz_dict_size :: u32
  tz_dict_buf :: "u8 list"
  tz_dictType_pos :: u32
  tz_dict_pos_back :: u32
  tz_dictType_len :: u32
  tz_literalType_len :: u32
  tz_types :: u32
  tz_type_count :: nat
  tz_isHaveData_back :: bool
  tz_outside :: bool

definition tuz_kMinLiteralLen :: u32 where "tuz_kMinLiteralLen = 15"
definition tuz_kMinDictMatchLen :: u32 where "tuz_kMinDictMatchLen = 2"
definition tuz_kMaxTypeBitCount :: nat where "tuz_kMaxTypeBitCount = 8"
definition tuz_kBigPosForLen :: u32 where "tuz_kBigPosForLen = 2048 + 512 + 128 - 1"
definition tuz_kDictSizeSavedBytes :: nat where "tuz_kDictSizeSavedBytes = 4"
definition tuz_ctrlType_literalLine :: u32 where "tuz_ctrlType_literalLine = 1"
definition tuz_ctrlType_clipEnd :: u32 where "tuz_ctrlType_clipEnd = 2"
definition tuz_ctrlType_streamEnd :: u32 where "tuz_ctrlType_streamEnd = 3"

section \<open>The code reader\<close>

definition tuz_read_1byte :: "'i reader \<Rightarrow> 'i tuz_stream \<Rightarrow> u8 \<times> 'i tuz_stream" where
  "tuz_read_1byte R z = (case cache_read_1byte R (tz_cache z) of (b, c) \<Rightarrow> (b, z\<lparr>tz_cache := c\<rparr>))"

definition cache_read_lowbits :: "'i reader \<Rightarrow> nat \<Rightarrow> 'i tuz_stream \<Rightarrow> u32 \<times> 'i tuz_stream" where
  "cache_read_lowbits R bitCount z =
     (let count = tz_type_count z; result = tz_types z in
      if count \<ge> bitCount
      then (result, z\<lparr>tz_type_count := count - bitCount, tz_types := drop_bit bitCount result\<rparr>)
      else case tuz_read_1byte R z of (v, z) \<Rightarrow>
        let bitCount = bitCount - count
        in (result OR push_bit count (ucast v),
            z\<lparr>tz_type_count := tuz_kMaxTypeBitCount - bitCount, tz_types := drop_bit bitCount (ucast v)\<rparr>))"

definition cache_read_1bit :: "'i reader \<Rightarrow> 'i tuz_stream \<Rightarrow> bool \<times> 'i tuz_stream" where
  "cache_read_1bit R z = (case cache_read_lowbits R 1 z of (v, z) \<Rightarrow> (bit v 0, z))"

definition cache_push_1bit :: "u32 \<Rightarrow> 'i tuz_stream \<Rightarrow> 'i tuz_stream" where
  "cache_push_1bit bitv z = z\<lparr>tz_types := push_bit 1 (tz_types z) + bitv, tz_type_count := tz_type_count z + 1\<rparr>"

fun unpack_len_loop :: "nat \<Rightarrow> 'i reader \<Rightarrow> nat \<Rightarrow> u32 \<Rightarrow> 'i tuz_stream \<Rightarrow> u32 \<times> 'i tuz_stream" where
  "unpack_len_loop 0 R readBit v z = (v, z)"
| "unpack_len_loop (Suc n) R readBit v z =
     (case cache_read_lowbits R readBit z of (lowbit, z) \<Rightarrow>
        let v = push_bit (readBit - 1) v + (lowbit AND (push_bit (readBit - 1) 1 - 1))
        in if \<not> bit lowbit (readBit - 1) then (v, z) else unpack_len_loop n R readBit (v + 1) z)"

definition cache_unpack_len :: "'i reader \<Rightarrow> 'i tuz_stream \<Rightarrow> u32 \<times> 'i tuz_stream" where
  "cache_unpack_len R z = unpack_len_loop UNPACK_BOUND R 2 0 z"

definition cache_unpack_pos_len :: "'i reader \<Rightarrow> 'i tuz_stream \<Rightarrow> u32 \<times> 'i tuz_stream" where
  "cache_unpack_pos_len R z = unpack_len_loop UNPACK_BOUND R 3 0 z"

definition cache_unpack_dict_pos :: "'i reader \<Rightarrow> 'i tuz_stream \<Rightarrow> u32 \<times> 'i tuz_stream" where
  "cache_unpack_dict_pos R z =
     (case tuz_read_1byte R z of (b, z) \<Rightarrow>
        let result = ucast b in
        if result < 128 then (result, z)
        else case cache_unpack_pos_len R z of (v, z) \<Rightarrow>
          (((result AND 127) OR push_bit 7 v) + 128, z))"

definition tuz_TStream_read_dict_size :: "'i reader \<Rightarrow> 'i \<Rightarrow> u32 \<times> 'i" where
  "tuz_TStream_read_dict_size R s =
     (case R s tuz_kDictSizeSavedBytes of (ok, saved, s) \<Rightarrow>
        if ok \<and> length saved = tuz_kDictSizeSavedBytes
        then (ucast (saved ! 0) OR push_bit 8 (ucast (saved ! 1)) OR push_bit 16 (ucast (saved ! 2))
              OR push_bit 24 (ucast (saved ! 3)), s)
        else (0, s))"

text \<open>The memory handed over: the dictionary, followed by the code cache.\<close>

definition tuz_TStream_open :: "'i \<Rightarrow> u8 list \<Rightarrow> u32 \<Rightarrow> nat \<Rightarrow> 'i tuz_stream" where
  "tuz_TStream_open s dict_and_cache dict_size cache_size =
     \<lparr> tz_cache = \<lparr> ic_begin = cache_size, ic_end = cache_size,
         ic_buf = take cache_size (drop (unat dict_size) dict_and_cache), ic_in = s \<rparr>,
       tz_dict_cur = 0, tz_dict_size = dict_size, tz_dict_buf = take (unat dict_size) dict_and_cache,
       tz_dictType_pos = 0, tz_dict_pos_back = 1, tz_dictType_len = 0, tz_literalType_len = 0,
       tz_types = 0, tz_type_count = 0, tz_isHaveData_back = False, tz_outside = False \<rparr>"

section \<open>The dictionary ring\<close>

definition dict_index :: "'i tuz_stream \<Rightarrow> u32" where
  "dict_index z =
     (let index_pos = tz_dict_cur z + tz_dictType_pos z
      in index_pos - (if tz_dictType_pos z < tz_dict_size z - tz_dict_cur z then 0 else tz_dict_size z))"

text \<open>\<open>None\<close>: the index is outside the dictionary.\<close>

definition dict_read_byte :: "'i tuz_stream \<Rightarrow> u8 option" where
  "dict_read_byte z =
     (let i = unat (dict_index z) in if i < length (tz_dict_buf z) then Some (tz_dict_buf z ! i) else None)"

definition dict_write_byte :: "u8 \<Rightarrow> 'i tuz_stream \<Rightarrow> 'i tuz_stream" where
  "dict_write_byte b z =
     (let index_pos = tz_dict_cur z + 1
      in z\<lparr>tz_dict_buf := (tz_dict_buf z)[unat (tz_dict_cur z) := b],
           tz_dict_cur := (if index_pos < tz_dict_size z then index_pos else 0)\<rparr>)"

section \<open>The decompressor\<close>

text \<open>The two copy loops; the first argument is the room left in the output.\<close>

fun copy_dict_loop :: "nat \<Rightarrow> 'i tuz_stream \<Rightarrow> u8 list \<Rightarrow> (nat \<times> 'i tuz_stream \<times> u8 list) option" where
  "copy_dict_loop 0 z out = Some (0, z, out)"
| "copy_dict_loop (Suc n) z out =
     (if tz_dictType_len z \<noteq> 0 then
        (case dict_read_byte z of
           None \<Rightarrow> None
         | Some b \<Rightarrow>
             (let z = dict_write_byte b z
              in copy_dict_loop n (z\<lparr>tz_dictType_len := tz_dictType_len z - 1\<rparr>) (out @ [b])))
      else Some (Suc n, z, out))"

fun copy_literal_loop :: "'i reader \<Rightarrow> nat \<Rightarrow> 'i tuz_stream \<Rightarrow> u8 list \<Rightarrow> nat \<times> 'i tuz_stream \<times> u8 list" where
  "copy_literal_loop R 0 z out = (0, z, out)"
| "copy_literal_loop R (Suc n) z out =
     (if tz_literalType_len z \<noteq> 0 then
        (case tuz_read_1byte R z of (b, z) \<Rightarrow>
           let z = dict_write_byte b z
           in copy_literal_loop R n (z\<lparr>tz_literalType_len := tz_literalType_len z - 1\<rparr>) (out @ [b]))
      else (Suc n, z, out))"

datatype type_step = Continue | Break | Return tuz_result

text \<open>
  \<open>type_process\<close>: one type bit and what follows it.  Every \<open>goto type_process\<close> and \<open>continue\<close> is
  \<open>Continue\<close>, since the two copies are skipped while nothing is left to copy.
\<close>

definition type_process :: "'i reader \<Rightarrow> nat \<Rightarrow> 'i tuz_stream \<Rightarrow> u8 list
    \<Rightarrow> type_step \<times> nat \<times> 'i tuz_stream \<times> u8 list" where
  "type_process R n z out =
     (case cache_read_1bit R z of (is_data, z) \<Rightarrow>
      if \<not> is_data then
        (let (saved_len, z) = cache_unpack_len R z;
             (back, z) = (if tz_isHaveData_back z then cache_read_1bit R z else (False, z));
             (saved_dict_pos, saved_len, z) =
               (if back then (tz_dict_pos_back z, saved_len, z)
                else case cache_unpack_dict_pos R z of (p, z) \<Rightarrow>
                  (p, saved_len + (if p > tuz_kBigPosForLen then 1 else 0), z));
             z = z\<lparr>tz_isHaveData_back := False\<rparr>
         in if saved_dict_pos \<noteq> 0 then
              (Continue, n, z\<lparr>tz_dict_pos_back := saved_dict_pos,
                 tz_dictType_len := saved_len + tuz_kMinDictMatchLen,
                 tz_dictType_pos := tz_dict_size z - saved_dict_pos\<rparr>, out)
            else if saved_len = tuz_ctrlType_literalLine then
              (let z = z\<lparr>tz_isHaveData_back := True\<rparr>
               in case cache_unpack_pos_len R z of (v, z) \<Rightarrow>
                 (Continue, n, z\<lparr>tz_literalType_len := v + tuz_kMinLiteralLen\<rparr>, out))
            else
              let z = z\<lparr>tz_dict_pos_back := 1, tz_type_count := 0\<rparr>
              in if saved_len = tuz_ctrlType_clipEnd then (Continue, n, z, out)
                 else if saved_len = tuz_ctrlType_streamEnd then (Return TUZ_STREAM_END, n, z, out)
                 else (Return (if cache_success_finish (tz_cache z)
                               then TUZ_CTRLTYPE_UNKNOW_ERROR else TUZ_READ_CODE_ERROR), n, z, out))
      else
        (case n of
           Suc m \<Rightarrow> (case tuz_read_1byte R z of (b, z) \<Rightarrow>
             (Continue, m, (dict_write_byte b z)\<lparr>tz_isHaveData_back := True\<rparr>, out @ [b]))
         | 0 \<Rightarrow> (Break, 0, cache_push_1bit 1 z, out)))"

fun tuz_loop :: "nat \<Rightarrow> 'i reader \<Rightarrow> nat \<Rightarrow> 'i tuz_stream \<Rightarrow> u8 list \<Rightarrow> tuz_result \<times> u8 list \<times> 'i tuz_stream" where
  "tuz_loop 0 R n z out = (TUZ_BOUND, out, z)"
| "tuz_loop (Suc f) R n z out =
     (case copy_dict_loop n z out of
        None \<Rightarrow> (TUZ_OUTSIDE, out, z\<lparr>tz_outside := True\<rparr>)
      | Some (n, z, out) \<Rightarrow>
          let finish = (\<lambda>z out. (if \<not> cache_success_finish (tz_cache z) then TUZ_READ_CODE_ERROR else TUZ_OK, out, z))
          in if tz_dictType_len z \<noteq> 0 then finish z out else
          (case copy_literal_loop R n z out of (n, z, out) \<Rightarrow>
             if tz_literalType_len z \<noteq> 0 then finish z out else
             (case type_process R n z out of
                (Continue, n, z, out) \<Rightarrow> tuz_loop f R n z out
              | (Break, n, z, out) \<Rightarrow> finish z out
              | (Return r, n, z, out) \<Rightarrow> (r, out, z))))"

definition TUZ_LOOP_BOUND :: nat where "TUZ_LOOP_BOUND = 2 ^ 64"

definition tuz_TStream_decompress_partial ::
  "'i reader \<Rightarrow> 'i tuz_stream \<Rightarrow> nat \<Rightarrow> tuz_result \<times> u8 list \<times> 'i tuz_stream" where
  "tuz_TStream_decompress_partial R z data_size = tuz_loop TUZ_LOOP_BOUND R data_size z []"

section \<open>The glue\<close>

definition tuz_kMaxOfDictSize :: u32 where "tuz_kMaxOfDictSize = 8192"

definition hpatch_tuz_reserved_mem_size :: "'i reader \<Rightarrow> 'i \<Rightarrow> u32 \<times> 'i" where
  "hpatch_tuz_reserved_mem_size R s =
     (case tuz_TStream_read_dict_size R s of (dictSize, s) \<Rightarrow>
        if dictSize - 1 \<ge> tuz_kMaxOfDictSize then (0, s) else (dictSize, s))"

definition hpatch_tuz_stream_decompress :: "'i reader \<Rightarrow> 'i tuz_stream reader" where
  "hpatch_tuz_stream_decompress R z data_size =
     (case tuz_TStream_decompress_partial R z data_size of (r, d, z) \<Rightarrow>
        (r = TUZ_OK \<or> r = TUZ_STREAM_END, d, z))"

section \<open>Bounds\<close>

text \<open>The ring: its buffer has the announced size and the write position lies inside.\<close>

definition ring_ok :: "'i tuz_stream \<Rightarrow> bool" where
  "ring_ok z \<longleftrightarrow> length (tz_dict_buf z) = unat (tz_dict_size z) \<and> tz_dict_cur z < tz_dict_size z"

lemma ring_write: "ring_ok z \<Longrightarrow> ring_ok (dict_write_byte b z)"
  by (auto simp: ring_ok_def dict_write_byte_def Let_def word_less_nat_alt)

text \<open>A read stays inside exactly when the distance fits the dictionary.\<close>

lemma dict_index_bound:
  assumes "ring_ok z" "unat (tz_dict_size z) \<le> 2 ^ 30" "tz_dictType_pos z < tz_dict_size z"
  shows "unat (dict_index z) = (unat (tz_dict_cur z) + unat (tz_dictType_pos z)) mod unat (tz_dict_size z)"
    and "dict_read_byte z = Some (tz_dict_buf z !
        ((unat (tz_dict_cur z) + unat (tz_dictType_pos z)) mod unat (tz_dict_size z)))"
proof -
  let ?c = "unat (tz_dict_cur z)" and ?p = "unat (tz_dictType_pos z)" and ?n = "unat (tz_dict_size z)"
  have lt: "?c < ?n" "?p < ?n" "?n \<le> 2 ^ 30" using assms by (simp_all add: ring_ok_def word_less_nat_alt)
  have sum: "unat (tz_dict_cur z + tz_dictType_pos z) = ?c + ?p"
    using lt by (subst unat_add_lem [THEN iffD1]) simp_all
  have sub: "unat (tz_dict_size z - tz_dict_cur z) = ?n - ?c"
    using lt by (intro unat_sub) (simp add: word_le_nat_alt)
  show idx: "unat (dict_index z) = (?c + ?p) mod ?n"
  proof (cases "?p < ?n - ?c")
    case True
    then show ?thesis using sum sub lt by (simp add: dict_index_def Let_def word_less_nat_alt)
  next
    case False
    then have ge: "?n \<le> ?c + ?p" by simp
    then have "tz_dict_size z \<le> tz_dict_cur z + tz_dictType_pos z" by (simp add: word_le_nat_alt sum)
    then have "unat (tz_dict_cur z + tz_dictType_pos z - tz_dict_size z) = ?c + ?p - ?n"
      using sum by (simp add: unat_sub)
    then show ?thesis
      using False sub ge lt by (simp add: dict_index_def Let_def word_less_nat_alt mod_if [of "?c + ?p"])
  qed
  show "dict_read_byte z = Some (tz_dict_buf z ! ((?c + ?p) mod ?n))"
    using assms(1) lt by (simp add: dict_read_byte_def Let_def idx ring_ok_def)
qed

end
