(* ===== verification/Delta_Patch.thy ===== *)
theory Delta_Patch
  imports Boot_Config Tinyuz
begin

unbundle bit_operations_syntax

text \<open>
  \<^verbatim>\<open>bootloader/src/delta_patch.c\<close>: the base-image digest, the stream of staged patch bytes, the
  listener callbacks on flash and the application of a patch.  The locale of \<open>Hpatch_Lite\<close> is
  given on these callbacks for every flash device, so that an uncompressed patch that applies
  leaves exactly the image the format specifies.
\<close>

section \<open>Streams and listeners\<close>

definition DELTA_PATCH_CACHE_SIZE :: nat where "DELTA_PATCH_CACHE_SIZE = 1024 * 16"
definition DELTA_TUZ_DICT_MAX :: u32 where "DELTA_TUZ_DICT_MAX = 8 * 1024"
definition DELTA_TUZ_DEC_BUF :: nat where "DELTA_TUZ_DEC_BUF = 1024"

record flash_diff_stream =
  fs_base :: u32
  fs_pos :: u32
  fs_len :: u32

record 's delta_listener =
  dl_flash :: 's
  dl_active_base :: u32
  dl_inactive_base :: u32
  dl_new_written :: u32
  dl_new_expected :: u32
  dl_active_logical_total :: u32

definition diff_stream_read :: "'s flash_ops \<Rightarrow> 's \<Rightarrow> flash_diff_stream reader" where
  "diff_stream_read F fl s data_size =
     (if data_size = 0 then (True, [], s)
      else let rem = unat (fs_len s - fs_pos s);
               want = (if data_size > rem then rem else data_size)
           in if want = 0 then (False, [], s)
              else case fl_read F fl (fs_base s + fs_pos s) (of_nat want) of (st, d) \<Rightarrow>
                if st \<noteq> FLASH_OK then (False, [], s)
                else (True, d, s\<lparr>fs_pos := fs_pos s + of_nat want\<rparr>))"

definition read_old_cb :: "'s flash_ops \<Rightarrow> 's delta_listener \<Rightarrow> u32 \<Rightarrow> nat \<Rightarrow> u8 list option" where
  "read_old_cb F L read_from_pos data_size =
     (if read_from_pos > dl_active_logical_total L then None
      else if data_size > unat (dl_active_logical_total L - read_from_pos) then None
      else case fl_read F (dl_flash L) (dl_active_base L + read_from_pos) (of_nat data_size) of (st, d) \<Rightarrow>
        if st \<noteq> FLASH_OK then None else Some d)"

definition write_new_cb :: "'s flash_ops \<Rightarrow> 's delta_listener \<Rightarrow> u8 list \<Rightarrow> bool \<times> 's delta_listener" where
  "write_new_cb F L data =
     (if length data > unat (dl_new_expected L - dl_new_written L) then (False, L)
      else case fl_program_bytes F (dl_flash L) (dl_inactive_base L + dl_new_written L) data of (st, fl) \<Rightarrow>
        if st \<noteq> FLASH_OK then (False, L\<lparr>dl_flash := fl\<rparr>)
        else (True, L\<lparr>dl_flash := fl, dl_new_written := dl_new_written L + of_nat (length data)\<rparr>))"

definition delta_callbacks :: "'s flash_ops \<Rightarrow> 's delta_listener listener" where
  "delta_callbacks F = \<lparr> l_read_old = read_old_cb F, l_write_new = write_new_cb F \<rparr>"

section \<open>The base image\<close>

lemma delta_chunk:
  fixes tot off :: u32
  assumes lt: "off < tot" and c: "chunk = tot - off" "chunk' = (if chunk > 512 then 512 else chunk)"
  shows "unat (off + chunk') = unat off + unat chunk'" "0 < unat chunk'"
proof -
  have t: "unat (tot - off) = unat tot - unat off" using lt by (intro unat_sub) simp
  have k: "0 < unat chunk'" "unat chunk' \<le> unat tot - unat off"
    using c lt t by (auto simp: word_less_nat_alt word_le_nat_alt)
  have "unat tot < 2 ^ 32" using unsigned_less [of tot, where 'a = nat] by simp
  then show "unat (off + chunk') = unat off + unat chunk'"
    using k lt by (subst unat_add_lem [THEN iffD1]) (simp_all add: word_less_nat_alt)
  show "0 < unat chunk'" by (rule k)
qed

function delta_hash_loop ::
  "'s flash_ops \<Rightarrow> 's \<Rightarrow> u32 \<Rightarrow> u32 \<Rightarrow> u32 \<Rightarrow> sha256_ctx_t \<Rightarrow> sha256_ctx_t option" where
  "delta_hash_loop F s base tot off ctx =
     (if off < tot then
        (let chunk = tot - off;
             chunk = (if chunk > 512 then 512 else chunk)
         in case fl_read F s (base + off) chunk of (st, buf) \<Rightarrow>
              if st \<noteq> FLASH_OK then None
              else delta_hash_loop F s base tot (off + chunk) (sha256_update ctx buf))
      else Some ctx)"
  by pat_completeness auto
termination
proof (relation "measure (\<lambda>(F, s, base, tot, off, ctx). unat tot - unat off)")
  fix F :: "'s flash_ops" and s :: 's and base tot off chunk chunk' :: u32 and ctx x st buf
  assume lt: "off < tot" and c: "chunk = tot - off" "chunk' = (if chunk > 512 then 512 else chunk)"
  show "((F, s, base, tot, off + chunk', sha256_update ctx buf), F, s, base, tot, off, ctx)
      \<in> measure (\<lambda>(F, s, base, tot, off, ctx). unat tot - unat off)"
    using delta_chunk [OF lt c] lt by (simp add: word_less_nat_alt)
qed simp

declare delta_hash_loop.simps [simp del]

definition delta_verify_active_base_sha256 :: "'s flash_ops \<Rightarrow> 's \<Rightarrow> u32 \<Rightarrow> u8 list \<Rightarrow> bool" where
  "delta_verify_active_base_sha256 F s active_slot_base expected_digest =
     (case fl_read F s active_slot_base FIRMWARE_HEADER_SIZE of (st, hb) \<Rightarrow>
        if st \<noteq> FLASH_OK then False
        else let hdr = hdr_of_bytes hb in
          if fh_magic hdr \<noteq> FIRMWARE_MAGIC then False
          else let tot = FIRMWARE_HEADER_SIZE + fh_image_size hdr in
            if tot > SLOT_SIZE then False
            else case delta_hash_loop F s active_slot_base tot 0 (sha256_init stack_ctx) of
              None \<Rightarrow> False
            | Some ctx \<Rightarrow> crypto_constant_time_equal (sha256_final ctx) expected_digest 32)"

section \<open>Applying a patch\<close>

text \<open>
  \<open>Undefined\<close> is the outcome of a run the C standard gives no meaning: a header field read past
  the stack buffer, or a dictionary access outside the ring.  The static work buffer and the
  stack garbage under the header are parameters.
\<close>

datatype delta_outcome = Applied bool | Undefined

record delta_env =
  de_stack :: "u8 list"
  de_tuz_work :: "u8 list"

definition run_finish :: "u32 \<Rightarrow> bool \<times> 's delta_listener \<Rightarrow> bool" where
  "run_finish newSize r = (case r of (ok, L) \<Rightarrow>
     ok \<and> dl_new_written L = dl_new_expected L \<and> newSize = dl_new_written L)"

definition delta_run_patch ::
  "'s flash_ops \<Rightarrow> delta_env \<Rightarrow> 's delta_listener \<Rightarrow> flash_diff_stream \<Rightarrow> u8 \<Rightarrow> u32
     \<Rightarrow> delta_outcome \<times> 's delta_listener" where
  "delta_run_patch F E L stream ct newSize =
     (let R = (\<lambda>L. diff_stream_read F (dl_flash L)) in
      if ct = 1 then
        (case hpatch_tuz_reserved_mem_size (R L) stream of (dictSize, stream) \<Rightarrow>
           if dictSize = 0 \<or> dictSize > DELTA_TUZ_DICT_MAX then (Applied False, L)
           else let tuzStream = tuz_TStream_open stream (de_tuz_work E) dictSize DELTA_TUZ_DEC_BUF
                in case hpatch_lite_patch (\<lambda>L. hpatch_tuz_stream_decompress (R L)) (delta_callbacks F)
                          tuzStream L newSize DELTA_PATCH_CACHE_SIZE of (ok, L, tuzStream) \<Rightarrow>
                  (if tz_outside tuzStream then Undefined else Applied (run_finish newSize (ok, L)), L))
      else if ct \<noteq> 0 then (Applied False, L)
      else case hpatch_lite_patch R (delta_callbacks F) stream L newSize DELTA_PATCH_CACHE_SIZE of
        (ok, L, stream) \<Rightarrow> (Applied (run_finish newSize (ok, L)), L))"

definition delta_apply_patch ::
  "'s flash_ops \<Rightarrow> delta_env \<Rightarrow> 's \<Rightarrow> u32 \<Rightarrow> u32 \<Rightarrow> u32 \<Rightarrow> u32 \<Rightarrow> delta_outcome \<times> 's" where
  "delta_apply_patch F E fl active_slot_base inactive_slot_base patch_total expected_new_total =
     (if patch_total = 0 \<or> expected_new_total = 0 then (Applied False, fl)
      else let slot_span = fl_ota_slot_span F in
      if expected_new_total + patch_total > slot_span then (Applied False, fl)
      else case fl_read F fl active_slot_base FIRMWARE_HEADER_SIZE of (st, hb) \<Rightarrow>
      if st \<noteq> FLASH_OK then (Applied False, fl)
      else let active_hdr = hdr_of_bytes hb in
      if fh_magic active_hdr \<noteq> FIRMWARE_MAGIC \<or> fh_image_size active_hdr = 0 then (Applied False, fl)
      else let active_logical_total = FIRMWARE_HEADER_SIZE + fh_image_size active_hdr in
      if active_logical_total > SLOT_SIZE then (Applied False, fl)
      else
        let stream = \<lparr> fs_base = inactive_slot_base + slot_span - patch_total, fs_pos = 0, fs_len = patch_total \<rparr>;
            L = \<lparr> dl_flash = fl, dl_active_base = active_slot_base, dl_inactive_base = inactive_slot_base,
                  dl_new_written = 0, dl_new_expected = expected_new_total,
                  dl_active_logical_total = active_logical_total \<rparr>
        in case hpatch_lite_open (diff_stream_read F fl) (de_stack E) stream of
             (OpenFail, stream) \<Rightarrow> (Applied False, fl)
           | (OpenOverflow, stream) \<Rightarrow> (Undefined, fl)
           | (OpenOk ct newSize uncSize, stream) \<Rightarrow>
               if newSize \<noteq> expected_new_total then (Applied False, fl)
               else case delta_run_patch F E L stream ct newSize of (r, L) \<Rightarrow> (r, dl_flash L))"

section \<open>What the callbacks mean on a flash device\<close>

definition d_rest :: "('s \<Rightarrow> mem) \<Rightarrow> 's \<Rightarrow> flash_diff_stream \<Rightarrow> u8 list" where
  "d_rest byte fl s = mem_bytes (byte fl) (fs_base s + fs_pos s) (unat (fs_len s - fs_pos s))"

definition d_old :: "('s \<Rightarrow> mem) \<Rightarrow> 's delta_listener \<Rightarrow> u8 list" where
  "d_old byte L = mem_bytes (byte (dl_flash L)) (dl_active_base L) (unat (dl_active_logical_total L))"

definition d_written :: "('s \<Rightarrow> mem) \<Rightarrow> 's delta_listener \<Rightarrow> u8 list" where
  "d_written byte L = mem_bytes (byte (dl_flash L)) (dl_inactive_base L) (unat (dl_new_written L))"

text \<open>The output region meets neither the old image nor the bytes of the patch still unread.\<close>

definition d_good :: "'s delta_listener \<Rightarrow> flash_diff_stream \<Rightarrow> bool" where
  "d_good L s \<longleftrightarrow> dl_new_written L \<le> dl_new_expected L
     \<and> flash_range (dl_inactive_base L) (unat (dl_new_expected L))
     \<and> (\<forall>x. in_range (dl_inactive_base L) (unat (dl_new_expected L)) x \<longrightarrow>
          \<not> in_range (fs_base s + fs_pos s) (unat (fs_len s - fs_pos s)) x
          \<and> \<not> in_range (dl_active_base L) (unat (dl_active_logical_total L)) x)"

definition d_params :: "'s delta_listener \<Rightarrow> u32 \<times> u32 \<times> u32 \<times> u32" where
  "d_params L = (dl_active_base L, dl_inactive_base L, dl_new_expected L, dl_active_logical_total L)"

definition d_room :: "u32 \<Rightarrow> 's delta_listener \<Rightarrow> nat \<Rightarrow> bool" where
  "d_room span L n \<longleftrightarrow> n \<le> unat (dl_new_expected L - dl_new_written L)
     \<and> dl_new_written L \<le> dl_new_expected L \<and> dl_new_expected L \<le> span
     \<and> dl_inactive_base L \<in> {SLOT_A_ADDR, SLOT_B_ADDR}"

lemma unat_lt_2p32: "unat (x :: u32) < 2 ^ 32"
proof -
  have "unat x < 2 ^ LENGTH(32)" by (rule unsigned_less)
  then show ?thesis by simp
qed

lemma d_rest_small: "length (d_rest byte fl s) < UNPACK_BOUND"
  using unat_lt_2p32 [of "fs_len s - fs_pos s"] by (simp add: d_rest_def UNPACK_BOUND_def)

text \<open>Reading \<open>k\<close> bytes moves the stream on by \<open>k\<close>.\<close>

lemma stream_advance:
  assumes "k \<le> unat (fs_len s - fs_pos s)"
  defines "s' \<equiv> s\<lparr>fs_pos := fs_pos s + of_nat k\<rparr>"
  shows "unat (fs_len s' - fs_pos s') = unat (fs_len s - fs_pos s) - k"
    and "fs_base s' + fs_pos s' = (fs_base s + fs_pos s) + of_nat k"
proof -
  have k: "unat (of_nat k :: u32) = k" using assms(1) unat_lt_2p32 [of "fs_len s - fs_pos s"] by (simp add: unat_of_nat)
  have "fs_len s' - fs_pos s' = (fs_len s - fs_pos s) - of_nat k" by (simp add: s'_def)
  moreover have "(of_nat k :: u32) \<le> fs_len s - fs_pos s" using assms(1) by (simp add: word_le_nat_alt k)
  ultimately show "unat (fs_len s' - fs_pos s') = unat (fs_len s - fs_pos s) - k" by (simp add: unat_sub k)
  show "fs_base s' + fs_pos s' = (fs_base s + fs_pos s) + of_nat k" by (simp add: s'_def add.assoc)
qed

context flash_device
begin

lemma diff_stream_read_eq:
  "diff_stream_read F fl s n =
     (if n = 0 then (True, [], s)
      else let k = min n (unat (fs_len s - fs_pos s)) in
        if k = 0 then (False, [], s) else (True, take k (d_rest byte fl s), s\<lparr>fs_pos := fs_pos s + of_nat k\<rparr>))"
proof -
  have "unat (of_nat (min n (unat (fs_len s - fs_pos s))) :: u32) = min n (unat (fs_len s - fs_pos s))"
    using unat_lt_2p32 [of "fs_len s - fs_pos s"] by (simp add: unat_of_nat min_def)
  then show ?thesis
    by (auto simp: diff_stream_read_def read Let_def d_rest_def take_mem_bytes min_def)
qed

lemma diff_source: "byte_source (diff_stream_read F fl) (d_rest byte fl)"
proof
  fix s :: flash_diff_stream and n :: nat
  assume ne: "d_rest byte fl s \<noteq> []" and n: "0 < n"
  define k where "k = min n (unat (fs_len s - fs_pos s))"
  have "0 < unat (fs_len s - fs_pos s)" using ne by (cases "unat (fs_len s - fs_pos s)") (simp_all add: d_rest_def)
  then have k: "0 < k" "k \<le> n" "k \<le> unat (fs_len s - fs_pos s)" using n by (simp_all add: k_def)
  let ?s' = "s\<lparr>fs_pos := fs_pos s + of_nat k\<rparr>"
  obtain r where r: "unat (fs_len s - fs_pos s) = k + r" using le_Suc_ex [OF k(3)] by blast
  have "d_rest byte fl s = take k (d_rest byte fl s) @ d_rest byte fl ?s'"
    unfolding d_rest_def stream_advance [OF k(3)] r mem_bytes_append by simp
  moreover have "diff_stream_read F fl s n = (True, take k (d_rest byte fl s), ?s')"
    using n k by (simp add: diff_stream_read_eq k_def [symmetric] Let_def)
  ultimately show "\<exists>d s'. diff_stream_read F fl s n = (True, d, s') \<and> d \<noteq> [] \<and> length d \<le> n
      \<and> d_rest byte fl s = d @ d_rest byte fl s'"
    using k ne by (intro exI [of _ "take k (d_rest byte fl s)"] exI [of _ ?s']) (simp add: d_rest_def)
next
  fix s n ok d s'
  assume "d_rest byte fl s = [] \<or> n = 0" "diff_stream_read F fl s n = (ok, d, s')" ok
  then show "d = []" by (auto simp: diff_stream_read_eq Let_def d_rest_def split: if_splits)
qed

lemma diff_read_good:
  assumes good: "d_good L s" and rd: "diff_stream_read F fl s n = (ok, d, s')"
  shows "d_good L s'"
proof -
  define k where "k = min n (unat (fs_len s - fs_pos s))"
  have "s' = s \<or> s' = s\<lparr>fs_pos := fs_pos s + of_nat k\<rparr>"
    using rd by (simp add: diff_stream_read_eq Let_def k_def [symmetric] split: if_splits)
  moreover have kl: "k \<le> unat (fs_len s - fs_pos s)" by (simp add: k_def)
  ultimately consider "s' = s" | "s' = s\<lparr>fs_pos := fs_pos s + of_nat k\<rparr>" by blast
  then show ?thesis
  proof cases
    case 1
    then show ?thesis using good by simp
  next
    case 2
    note adv = stream_advance [OF kl, folded 2]
    obtain r where r: "unat (fs_len s - fs_pos s) = k + r" using le_Suc_ex [OF kl] by blast
    have "in_range (fs_base s' + fs_pos s') (unat (fs_len s' - fs_pos s')) x
        \<Longrightarrow> in_range (fs_base s + fs_pos s) (unat (fs_len s - fs_pos s)) x" for x
      unfolding adv r by (erule in_range_sub(2)) (use unat_lt_2p32 [of "fs_len s - fs_pos s"] r in simp_all)
    then show ?thesis using good unfolding d_good_def by blast
  qed
qed

lemma read_old_eq:
  "read_old_cb F L p n =
    (if unat p + n \<le> length (d_old byte L) then Some (take n (drop (unat p) (d_old byte L))) else None)"
proof -
  let ?T = "dl_active_logical_total L"
  have T: "unat ?T < 2 ^ 32" by (rule unat_lt_2p32)
  show ?thesis
  proof (cases "p \<le> ?T")
    case True
    then have sub: "unat (?T - p) = unat ?T - unat p" "unat p \<le> unat ?T"
      by (simp_all add: unat_sub word_le_nat_alt)
    have n: "unat (of_nat n :: u32) = n" if "n \<le> unat ?T" using that T by (simp add: unat_of_nat)
    show ?thesis
    proof (cases "unat p + n \<le> unat ?T")
      case fits: True
      have "take n (drop (unat p) (d_old byte L)) = mem_bytes (byte (dl_flash L)) (dl_active_base L + p) n"
        using fits by (simp add: d_old_def drop_mem_bytes take_mem_bytes)
      then show ?thesis using fits True sub n
        by (simp add: read_old_cb_def read d_old_def not_less)
    next
      case False
      then show ?thesis using sub True by (auto simp: read_old_cb_def d_old_def not_less)
    qed
  next
    case False
    then have lt: "?T < p" by (simp only: not_le)
    then have "unat ?T < unat p" by (simp add: word_less_nat_alt)
    then show ?thesis using lt by (simp add: read_old_cb_def d_old_def)
  qed
qed

text \<open>An accepted write in numbers: the bytes, the new position, and what stays.\<close>

lemma write_new_effect:
  assumes good: "d_good L s" and w: "write_new_cb F L d = (True, L')"
  obtains fl where "L' = L\<lparr>dl_flash := fl, dl_new_written := dl_new_written L + of_nat (length d)\<rparr>"
    "byte fl = mem_write (byte (dl_flash L)) (dl_inactive_base L + dl_new_written L) d"
    "unat (dl_new_written L + of_nat (length d)) = unat (dl_new_written L) + length d"
    "unat (dl_new_written L) + length d \<le> unat (dl_new_expected L)"
    "unat (dl_new_expected L) \<le> 2 ^ 20"
proof -
  let ?W = "dl_new_written L" and ?E = "dl_new_expected L" and ?B = "dl_inactive_base L"
  have r: "flash_range ?B (unat ?E)" using good by (simp add: d_good_def)
  have g: "?W \<le> ?E" "unat ?E \<le> 2 ^ 20" using good flash_range_length [OF r] by (simp_all add: d_good_def)
  have sub: "unat (?E - ?W) = unat ?E - unat ?W" "unat ?W \<le> unat ?E"
    using g by (simp_all add: unat_sub word_le_nat_alt)
  obtain fl where fl: "fl_program_bytes F (dl_flash L) (?B + ?W) d = (FLASH_OK, fl)"
    "L' = L\<lparr>dl_flash := fl, dl_new_written := ?W + of_nat (length d)\<rparr>" and len: "length d \<le> unat ?E - unat ?W"
    using w sub by (auto simp: write_new_cb_def split: if_splits prod.splits)
  have "byte fl = mem_write (byte (dl_flash L)) (?B + ?W) d"
    by (rule program_ok [OF fl(1)])
      (use flash_range_sub [OF r, of "unat ?W" "length d"] len sub(2) in simp)
  moreover have "unat (?W + of_nat (length d)) = unat ?W + length d"
    using len g(2) sub(2) by (simp add: unat_word_ariths unat_of_nat)
  ultimately show thesis by (intro that [of fl]) (use fl(2) len sub(2) g(2) in simp_all)
qed

lemma write_new_ok:
  assumes good: "d_good L s" and w: "write_new_cb F L d = (True, L')"
  shows "d_written byte L' = d_written byte L @ d" "d_old byte L' = d_old byte L"
    "d_rest byte (dl_flash L') s = d_rest byte (dl_flash L) s" "d_good L' s"
    "d_params L' = d_params L"
proof -
  let ?W = "dl_new_written L" and ?E = "dl_new_expected L" and ?B = "dl_inactive_base L"
  obtain fl where L': "L' = L\<lparr>dl_flash := fl, dl_new_written := ?W + of_nat (length d)\<rparr>"
    and b: "byte fl = mem_write (byte (dl_flash L)) (?B + ?W) d"
    and n: "unat (?W + of_nat (length d)) = unat ?W + length d" "unat ?W + length d \<le> unat ?E" "unat ?E \<le> 2 ^ 20"
    by (rule write_new_effect [OF good w])
  have parts: "\<not> in_range (?B + ?W) (length d) x" if "\<not> in_range ?B (unat ?E) x" for x
    using that in_range_sub(2) [of ?B "unat ?W" "length d" x "unat ?E"] n by auto
  have fr: "mem_bytes (byte fl) a k = mem_bytes (byte (dl_flash L)) a k"
    if "\<And>x. in_range ?B (unat ?E) x \<Longrightarrow> \<not> in_range a k x" "k \<le> 2 ^ 32" for a k
    by (rule mem_bytes_cong) (use that parts in \<open>auto simp: mem_eq_on_def b intro: mem_write_other\<close>)
  show "d_old byte L' = d_old byte L"
    unfolding d_old_def L' using good unat_lt_2p32 [of "dl_active_logical_total L"]
    by simp (rule fr, auto simp: d_good_def)
  show "d_rest byte (dl_flash L') s = d_rest byte (dl_flash L) s"
    unfolding d_rest_def L' using good unat_lt_2p32 [of "fs_len s - fs_pos s"]
    by simp (rule fr, auto simp: d_good_def)
  have "\<not> in_range (?B + ?W) (length d) x" if x: "in_range ?B (unat ?W) x" for x
    using in_range_sub(1) [of ?B "unat ?W" "length d" x "unat ?E"] x n by (auto simp: in_range_def)
  then have front: "mem_bytes (byte fl) ?B (unat ?W) = mem_bytes (byte (dl_flash L)) ?B (unat ?W)"
    by (intro mem_bytes_cong) (use unat_lt_2p32 [of ?W] in \<open>auto simp: mem_eq_on_def b intro: mem_write_other\<close>)
  have "mem_bytes (byte fl) (?B + ?W) (length d) = d"
    unfolding b using n by (intro mem_bytes_write_same) simp
  then have "mem_bytes (byte fl) ?B (unat ?W + length d) = mem_bytes (byte (dl_flash L)) ?B (unat ?W) @ d"
    by (simp add: mem_bytes_append front)
  then show "d_written byte L' = d_written byte L @ d" by (simp add: d_written_def L' n(1))
  show "d_params L' = d_params L" by (simp add: L' d_params_def)
  show "d_good L' s" using good n by (simp add: d_good_def L' word_le_nat_alt)
qed

end

section \<open>The patch run on flash\<close>

text \<open>Every device gives a patch run; one without faults also accepts all that fits the slot.\<close>

context flash_device
begin

lemma old_small: "length (d_old byte L) < 2 ^ 32"
  unfolding d_old_def length_mem_bytes by (rule unat_lt_2p32)

lemma delta_run:
  assumes room: "\<And>L s n d. d_good L s \<Longrightarrow> room L n \<Longrightarrow> length d \<le> n \<Longrightarrow>
      \<exists>L'. write_new_cb F L d = (True, L') \<and> room L' (n - length d)"
    and mono: "\<And>L n m. room L n \<Longrightarrow> m \<le> n \<Longrightarrow> room L m"
  shows "patch_run (\<lambda>L. diff_stream_read F (dl_flash L)) (\<lambda>L. d_rest byte (dl_flash L))
    (delta_callbacks F) (d_old byte) (d_written byte) room d_good d_params"
proof (rule patch_run.intro)
  fix t t' :: "'s delta_listener" and i i' n m ok and d :: "u8 list" and p
  show "byte_source (diff_stream_read F (dl_flash t)) (d_rest byte (dl_flash t))"
    by (rule diff_source)
  show "d_good t i \<Longrightarrow> diff_stream_read F (dl_flash t) i n = (ok, d, i') \<Longrightarrow> d_good t i'"
    by (rule diff_read_good)
  show "l_read_old (delta_callbacks F) t p n =
      (if unat p + n \<le> length (d_old byte t) then Some (take n (drop (unat p) (d_old byte t))) else None)"
    by (simp add: delta_callbacks_def read_old_eq)
  show "d_written byte t' = d_written byte t @ d \<and> d_old byte t' = d_old byte t \<and> d_params t' = d_params t
      \<and> d_rest byte (dl_flash t') i = d_rest byte (dl_flash t) i \<and> d_good t' i"
    if "d_good t i" "l_write_new (delta_callbacks F) t d = (True, t')"
    using write_new_ok [of t i d t'] that by (simp add: delta_callbacks_def)
  show "\<exists>t'. l_write_new (delta_callbacks F) t d = (True, t') \<and> room t' (n - length d)"
    if "d_good t i" "room t n" "length d \<le> n"
    using room [OF that] by (simp add: delta_callbacks_def)
  show "room t n \<Longrightarrow> m \<le> n \<Longrightarrow> room t m" by (rule mono)
  show "length (d_rest byte (dl_flash t) i) < UNPACK_BOUND" by (rule d_rest_small)
  show "length (d_old byte t) < 2 ^ 32" by (rule old_small)
qed

end

sublocale flash_device \<subseteq> delta: patch_run "\<lambda>L. diff_stream_read F (dl_flash L)"
  "\<lambda>L. d_rest byte (dl_flash L)" "delta_callbacks F" "d_old byte" "d_written byte"
  "\<lambda>L n. False" d_good d_params
  by (rule delta_run) simp_all

lemma slot_window:
  assumes "a \<in> {SLOT_A_ADDR, SLOT_B_ADDR}" "n \<le> 471040" "i < n"
  shows "in_range SLOT_A_ADDR n (a + of_nat i) \<or> in_range SLOT_B_ADDR n (a + of_nat i)"
proof -
  have "in_range a n (a + of_nat i)" using assms(2,3) by (intro in_range_offset) simp_all
  then show ?thesis using assms(1) by auto
qed

context byte_flash
begin

lemma write_new_room:
  assumes room: "d_room (fl_ota_slot_span F) L n" and g: "good (dl_flash L)" and len: "length d \<le> n"
  obtains L' where "write_new_cb F L d = (True, L')" "d_room (fl_ota_slot_span F) L' (n - length d)"
    "good (dl_flash L')"
proof -
  let ?W = "dl_new_written L" and ?E = "dl_new_expected L" and ?B = "dl_inactive_base L"
  have r: "n \<le> unat (?E - ?W)" "?W \<le> ?E" "?E \<le> fl_ota_slot_span F" "?B \<in> {SLOT_A_ADDR, SLOT_B_ADDR}"
    using room by (simp_all add: d_room_def)
  have sub: "unat (?E - ?W) = unat ?E - unat ?W" "unat ?W \<le> unat ?E"
    using r by (simp_all add: unat_sub word_le_nat_alt)
  have E: "unat ?E \<le> unat (fl_ota_slot_span F)" using r(3) by (simp add: word_le_nat_alt)
  have fits: "unat ?W + length d \<le> unat ?E" using r(1) len sub by simp
  have w: "\<forall>i<length d. writable (?B + ?W + of_nat i)"
  proof (intro allI impI)
    fix i assume "i < length d"
    then have "unat ?W + i < unat (fl_ota_slot_span F)" using fits E by simp
    from slot_window [OF r(4) span(2) this] have "writable (?B + of_nat (unat ?W + i))"
      using writable_regions by blast
    then show "writable (?B + ?W + of_nat i)" by (simp add: add.assoc)
  qed
  have "flash_range (?B + of_nat (unat ?W)) (length d)"
    by (rule flash_range_sub [OF flash_range_slot [OF r(4) span(2)]]) (use fits E in simp)
  then have dr: "flash_range (?B + ?W) (length d)" by simp
  obtain fl where fl: "fl_program_bytes F (dl_flash L) (?B + ?W) d = (FLASH_OK, fl)" "good fl"
    using g w dr by (rule program_any_effect)
  let ?L' = "L\<lparr>dl_flash := fl, dl_new_written := ?W + of_nat (length d)\<rparr>"
  have W': "unat (?W + of_nat (length d)) = unat ?W + length d"
    using fits E span(2) by (simp add: unat_word_ariths unat_of_nat)
  have le: "?W + of_nat (length d) \<le> ?E" using fits by (simp add: word_le_nat_alt W')
  have "unat (?E - (?W + of_nat (length d))) = unat ?E - (unat ?W + length d)"
    using le by (simp add: unat_sub W')
  then have "d_room (fl_ota_slot_span F) ?L' (n - length d)"
    using r le len sub by (simp add: d_room_def)
  moreover have "write_new_cb F L d = (True, ?L')"
    using fl(1) fits sub by (simp add: write_new_cb_def)
  ultimately show thesis using that [of ?L'] fl(2) by simp
qed

lemma room_down: "d_room span L n \<Longrightarrow> m \<le> n \<Longrightarrow> d_room span L m"
  by (simp add: d_room_def)

end

sublocale byte_flash \<subseteq> delta_total: patch_run "\<lambda>L. diff_stream_read F (dl_flash L)"
  "\<lambda>L. d_rest byte (dl_flash L)" "delta_callbacks F" "d_old byte" "d_written byte"
  "\<lambda>L n. d_room (fl_ota_slot_span F) L n \<and> good (dl_flash L)" d_good d_params
proof (rule delta_run)
  fix L :: "'s delta_listener" and s n m and d :: "u8 list"
  assume r: "d_room (fl_ota_slot_span F) L n \<and> good (dl_flash L)"
  show "\<exists>L'. write_new_cb F L d = (True, L')
      \<and> d_room (fl_ota_slot_span F) L' (n - length d) \<and> good (dl_flash L')" if "length d \<le> n"
    using write_new_room [of L n d] r that by metis
  show "d_room (fl_ota_slot_span F) L m \<and> good (dl_flash L)" if "m \<le> n"
    using r that room_down by blast
qed

section \<open>Applying a staged patch\<close>

definition old_image :: "mem \<Rightarrow> u32 \<Rightarrow> u8 list" where
  "old_image m a = mem_bytes m a (unat (512 + fh_image_size (image_header m a)))"

text \<open>The staged patch and the listener \<open>delta_apply_patch\<close> starts from.\<close>

definition staged :: "u32 \<Rightarrow> u32 \<Rightarrow> u32 \<Rightarrow> flash_diff_stream" where
  "staged span ib pt = \<lparr> fs_base = ib + span - pt, fs_pos = 0, fs_len = pt \<rparr>"

definition start_listener :: "('s \<Rightarrow> mem) \<Rightarrow> 's \<Rightarrow> u32 \<Rightarrow> u32 \<Rightarrow> u32 \<Rightarrow> 's delta_listener" where
  "start_listener byte fl ab ib net = \<lparr> dl_flash = fl, dl_active_base = ab, dl_inactive_base = ib,
     dl_new_written = 0, dl_new_expected = net,
     dl_active_logical_total = 512 + fh_image_size (image_header (byte fl) ab) \<rparr>"

text \<open>Two different slots, and an output and a patch that fit one slot together.\<close>

definition delta_layout :: "u32 \<Rightarrow> u32 \<Rightarrow> u32 \<Rightarrow> u32 \<Rightarrow> u32 \<Rightarrow> bool" where
  "delta_layout span ab ib pt net \<longleftrightarrow> ab \<in> {SLOT_A_ADDR, SLOT_B_ADDR} \<and> ib \<in> {SLOT_A_ADDR, SLOT_B_ADDR}
     \<and> ab \<noteq> ib \<and> pt \<noteq> 0 \<and> net \<noteq> 0 \<and> unat net + unat pt \<le> unat span \<and> unat span \<le> 471040"

lemma slots_apart:
  assumes "ab \<in> {SLOT_A_ADDR, SLOT_B_ADDR}" "ib \<in> {SLOT_A_ADDR, SLOT_B_ADDR}" "ab \<noteq> ib"
    "in_range ab 471040 x" "in_range ib 471040 x"
  shows False
  using assms by (auto simp: in_slot_a_range in_slot_b_range)

lemma staged_range:
  assumes "unat net + unat pt \<le> unat span" "in_range ib (unat net) x"
  shows "\<not> in_range (ib + span - pt) (unat pt) x"
proof
  assume r0: "in_range (ib + span - pt) (unat pt) x"
  have le: "pt \<le> span" using assms(1) by (simp add: word_le_nat_alt)
  have sub: "unat (span - pt) = unat span - unat pt" using le by (simp add: unat_sub)
  have "ib + span - pt = ib + of_nat (unat (span - pt))" by (simp add: algebra_simps)
  from r0 [unfolded this] have r: "in_range (ib + of_nat (unat (span - pt))) (unat pt) x" .
  have "unat (x - ib) = unat (x - (ib + of_nat (unat (span - pt)))) + unat (span - pt)"
    by (rule in_range_sub(1) [OF r, of "unat span"])
      (use assms(1) unat_lt_2p32 [of span] in \<open>simp_all add: sub\<close>)
  then show False using assms by (simp add: in_range_def sub)
qed

context flash_device
begin

lemma start_good:
  assumes lay: "delta_layout span ab ib pt net"
    and tot: "512 + fh_image_size (image_header (byte fl) ab) \<le> SLOT_SIZE"
  shows "d_good (start_listener byte fl ab ib net) (staged span ib pt)"
proof -
  let ?L = "start_listener byte fl ab ib net"
  have l: "unat net + unat pt \<le> unat span" "unat span \<le> 471040" using lay by (simp_all add: delta_layout_def)
  have t: "unat (512 + fh_image_size (image_header (byte fl) ab)) \<le> 471040"
    using tot by (simp add: word_le_nat_alt layout_simps)
  have "\<not> in_range ab (unat (512 + fh_image_size (image_header (byte fl) ab))) x"
    if "in_range ib (unat net) x" for x
    using slots_apart [of ab ib x] lay in_range_mono [OF that, of 471040] in_range_mono [of ab _ x 471040] t l
    by (auto simp: delta_layout_def)
  moreover have "\<not> in_range (ib + span - pt) (unat pt) x" if "in_range ib (unat net) x" for x
    using staged_range [OF l(1) that] .
  moreover have "0 \<le> net" by simp
  moreover have "flash_range ib (unat net)"
    by (rule flash_range_slot) (use lay l in \<open>simp_all add: delta_layout_def\<close>)
  ultimately show ?thesis
    using l unfolding d_good_def start_listener_def staged_def by simp
qed

lemma open_good:
  assumes "d_good L s" "hpatch_lite_open (diff_stream_read F fl) stack s = (OpenOk ct n u, s')"
  shows "d_good L s'"
  using assms(2) unfolding hpatch_lite_open_def Let_def
  by (auto split: prod.splits if_splits dest!: diff_read_good [rotated] intro: assms(1))

text \<open>What \<open>delta_apply_patch\<close> does once its checks passed and the patch is not compressed.\<close>

lemma apply_plain_eq:
  assumes lay: "delta_layout (fl_ota_slot_span F) ab ib pt net"
    and hdr: "fh_magic (image_header (byte fl) ab) = FIRMWARE_MAGIC"
      "fh_image_size (image_header (byte fl) ab) \<noteq> 0"
      "512 + fh_image_size (image_header (byte fl) ab) \<le> SLOT_SIZE"
    and opn: "hpatch_lite_open (diff_stream_read F fl) (de_stack E) (staged (fl_ota_slot_span F) ib pt)
      = (OpenOk 0 net u, s)"
  shows "delta_apply_patch F E fl ab ib pt net =
    (case hpatch_lite_patch (\<lambda>L. diff_stream_read F (dl_flash L)) (delta_callbacks F) s
        (start_listener byte fl ab ib net) net DELTA_PATCH_CACHE_SIZE of
      (ok, L, s) \<Rightarrow> (Applied (run_finish net (ok, L)), dl_flash L))"
proof -
  have rd: "fl_read F fl ab 512 = (FLASH_OK, mem_bytes (byte fl) ab 512)"
    by (simp add: read)
  have l: "pt \<noteq> 0" "net \<noteq> 0" "unat net + unat pt \<le> unat (fl_ota_slot_span F)"
    using lay by (simp_all add: delta_layout_def)
  have "unat (net + pt) = unat net + unat pt"
    using l(3) unat_lt_2p32 [of "fl_ota_slot_span F"] by (subst unat_add_lem [THEN iffD1]) simp_all
  then have sum: "\<not> net + pt > fl_ota_slot_span F" using l(3) by (simp add: word_less_nat_alt)
  have fsz: "FIRMWARE_HEADER_SIZE = 512" by (simp add: layout_simps)
  have big: "\<not> 512 + fh_image_size (image_header (byte fl) ab) > SLOT_SIZE" using hdr(3) by simp
  show ?thesis
    using l sum hdr(1,2) big opn
    unfolding delta_apply_patch_def fsz rd prod.case Let_def image_header_def [symmetric]
    by (simp add: staged_def start_listener_def delta_run_patch_def Let_def del: not_less split: prod.splits)
qed

lemma apply_plain_ok:
  assumes lay: "delta_layout (fl_ota_slot_span F) ab ib pt net"
    and opn: "hpatch_lite_open (diff_stream_read F fl) (de_stack E) (staged (fl_ota_slot_span F) ib pt)
      = (OpenOk 0 n u, s)"
    and ok: "delta_apply_patch F E fl ab ib pt net = (Applied True, fl')"
  shows "spec_patch (old_image (byte fl) ab) net (d_rest byte fl s) = Some (mem_bytes (byte fl') ib (unat net))"
    and "old_image (byte fl) ab = mem_bytes (byte fl') ab (length (old_image (byte fl) ab))"
proof -
  have rd: "fl_read F fl ab 512 = (FLASH_OK, mem_bytes (byte fl) ab 512)"
    by (simp add: read)
  have fsz: "FIRMWARE_HEADER_SIZE = 512" by (simp add: layout_simps)
  have hdr: "fh_magic (image_header (byte fl) ab) = FIRMWARE_MAGIC"
      "fh_image_size (image_header (byte fl) ab) \<noteq> 0"
      "512 + fh_image_size (image_header (byte fl) ab) \<le> SLOT_SIZE" and n: "n = net"
    using ok opn unfolding delta_apply_patch_def fsz rd prod.case Let_def image_header_def [symmetric] staged_def
    by (simp_all split: if_splits)
  let ?L = "start_listener byte fl ab ib net"
  obtain k L s' where run: "hpatch_lite_patch (\<lambda>L. diff_stream_read F (dl_flash L)) (delta_callbacks F) s ?L net
      DELTA_PATCH_CACHE_SIZE = (k, L, s')" by (metis prod_cases3)
  have fin: k "dl_new_written L = dl_new_expected L" "fl' = dl_flash L"
    using apply_plain_eq [OF lay hdr opn [unfolded n]] ok by (simp_all add: run run_finish_def)
  have good: "d_good ?L s" by (rule open_good [OF start_good [OF lay hdr(3)] opn])
  from delta.hpatch_lite_patch_spec(1) [OF good _ run fin(1)]
  obtain new where new: "spec_patch (d_old byte ?L) net (d_rest byte fl s) = Some new"
    "d_written byte L = d_written byte ?L @ new" "d_old byte L = d_old byte ?L" "d_params L = d_params ?L"
    by (auto simp: DELTA_PATCH_CACHE_SIZE_def start_listener_def)
  have o: "d_old byte ?L = old_image (byte fl) ab"
    by (simp add: d_old_def start_listener_def old_image_def)
  have "d_written byte ?L = []" by (simp add: d_written_def start_listener_def)
  moreover have "d_written byte L = mem_bytes (byte fl') ib (unat net)"
    using new(4) fin(2,3) by (simp add: d_written_def d_params_def start_listener_def)
  ultimately show "spec_patch (old_image (byte fl) ab) net (d_rest byte fl s) = Some (mem_bytes (byte fl') ib (unat net))"
    using new(1,2) o by simp
  show "old_image (byte fl) ab = mem_bytes (byte fl') ab (length (old_image (byte fl) ab))"
    using new(3,4) o fin(3) by (simp add: d_old_def d_params_def start_listener_def old_image_def)
qed

end

text \<open>Without faults every patch whose output fits applies.\<close>

context byte_flash
begin

lemma apply_plain_complete:
  assumes g: "good fl" and lay: "delta_layout (fl_ota_slot_span F) ab ib pt net"
    and hdr: "fh_magic (image_header (byte fl) ab) = FIRMWARE_MAGIC"
      "fh_image_size (image_header (byte fl) ab) \<noteq> 0"
      "512 + fh_image_size (image_header (byte fl) ab) \<le> SLOT_SIZE"
    and opn: "hpatch_lite_open (diff_stream_read F fl) (de_stack E) (staged (fl_ota_slot_span F) ib pt)
      = (OpenOk 0 net u, s)"
    and new: "spec_patch (old_image (byte fl) ab) net (d_rest byte fl s) = Some new" "length new = unat net"
  obtains fl' where "delta_apply_patch F E fl ab ib pt net = (Applied True, fl')"
    "mem_bytes (byte fl') ib (unat net) = new"
proof -
  let ?L = "start_listener byte fl ab ib net"
  obtain k L s' where run: "hpatch_lite_patch (\<lambda>L. diff_stream_read F (dl_flash L)) (delta_callbacks F) s ?L net
      DELTA_PATCH_CACHE_SIZE = (k, L, s')" by (metis prod_cases3)
  have good: "d_good ?L s" by (rule open_good [OF start_good [OF lay hdr(3)] opn])
  have o: "d_old byte ?L = old_image (byte fl) ab"
    by (simp add: d_old_def start_listener_def old_image_def)
  have room: "d_room (fl_ota_slot_span F) ?L (length new) \<and> good (dl_flash ?L)"
    using lay g by (simp add: d_room_def start_listener_def delta_layout_def new(2) word_le_nat_alt)
  have c: "2 \<le> DELTA_PATCH_CACHE_SIZE" by (simp add: DELTA_PATCH_CACHE_SIZE_def)
  have f: "dl_flash ?L = fl" by (simp add: start_listener_def)
  have k: k
    using delta_total.hpatch_lite_patch_spec(2) [OF good c run _ room] new(1) unfolding o f by blast
  obtain new' where new': "spec_patch (d_old byte ?L) net (d_rest byte (dl_flash ?L) s) = Some new'"
    "d_written byte L = d_written byte ?L @ new'" "d_params L = d_params ?L"
    using delta_total.hpatch_lite_patch_spec(1) [OF good c run k] by blast
  have w: "d_written byte L = new"
    using new(1) new'(1,2) unfolding o f by (simp add: d_written_def start_listener_def)
  have "length (d_written byte L) = unat net" unfolding w by (rule new(2))
  then have full: "dl_new_written L = net" by (simp add: d_written_def word_unat_eq_iff)
  have e: "dl_new_expected L = net" "dl_inactive_base L = ib"
    using new'(3) by (simp_all add: d_params_def start_listener_def)
  have "delta_apply_patch F E fl ab ib pt net = (Applied True, dl_flash L)"
    using k full e by (simp add: apply_plain_eq [OF lay hdr opn] run run_finish_def)
  moreover have "mem_bytes (byte (dl_flash L)) ib (unat net) = new"
    using w full e by (simp add: d_written_def)
  ultimately show thesis by (rule that)
qed

end

section \<open>The digest of the base image\<close>

context flash_device
begin

lemma delta_hash_loop_eq:
  "off \<le> tot \<Longrightarrow> delta_hash_loop F s base tot off c
    = Some (sha256_update c (mem_bytes (byte s) (base + off) (unat tot - unat off)))"
proof (induction "unat tot - unat off" arbitrary: off c rule: less_induct)
  case less
  show ?case
  proof (cases "off < tot")
    case False
    then show ?thesis using less.prems by (subst delta_hash_loop.simps) simp
  next
    case True
    define j where "j = (if tot - off > 512 then 512 else tot - off)"
    have t: "unat (tot - off) = unat tot - unat off" using less.prems by (simp add: unat_sub)
    have k: "0 < unat j" "unat j \<le> unat tot - unat off"
      using True t by (auto simp: word_less_nat_alt j_def)
    have o: "unat (off + j) = unat off + unat j"
      using k(2) True unat_lt_2p32 [of tot]
      by (subst unat_add_lem [THEN iffD1]) (simp_all add: word_less_nat_alt)
    have le: "off + j \<le> tot" using k True by (simp add: word_le_nat_alt word_less_nat_alt o)
    have "delta_hash_loop F s base tot off c
        = delta_hash_loop F s base tot (off + j) (sha256_update c (mem_bytes (byte s) (base + off) (unat j)))"
      using True by (subst delta_hash_loop.simps) (simp add: Let_def read j_def [symmetric])
    also have "\<dots> = Some (sha256_update (sha256_update c (mem_bytes (byte s) (base + off) (unat j)))
        (mem_bytes (byte s) (base + (off + j)) (unat tot - (unat off + unat j))))"
      unfolding o [symmetric] by (rule less.hyps [OF _ le]) (use k True o in \<open>simp add: word_less_nat_alt\<close>)
    also have "\<dots> = Some (sha256_update c
        (mem_bytes (byte s) (base + off) (unat j + (unat tot - unat off - unat j))))"
      by (simp add: sha256_update_append mem_bytes_append add.assoc)
    also have "unat j + (unat tot - unat off - unat j) = unat tot - unat off" using k(2) by simp
    finally show ?thesis .
  qed
qed

lemma delta_verify_eq:
  assumes "length dg = 32"
  shows "delta_verify_active_base_sha256 F s a dg \<longleftrightarrow>
    (let h = image_header (byte s) a in
       fh_magic h = FIRMWARE_MAGIC \<and> 512 + fh_image_size h \<le> SLOT_SIZE
       \<and> fips_sha256 (old_image (byte s) a) = dg)"
proof -
  have fsz: "FIRMWARE_HEADER_SIZE = 512" by (simp add: layout_simps)
  have rd: "fl_read F s a 512 = (FLASH_OK, mem_bytes (byte s) a 512)" by (simp add: read)
  have ct: "crypto_constant_time_equal (fips_sha256 m) dg 32 \<longleftrightarrow> fips_sha256 m = dg" for m
    using constant_time_equal_iff [of "fips_sha256 m" 32 dg] assms by (simp add: length_fips_sha256)
  show ?thesis
    unfolding delta_verify_active_base_sha256_def fsz rd prod.case Let_def image_header_def [symmetric]
    by (auto simp: delta_hash_loop_eq old_image_def sha256_stream_final ct)
qed

end

section \<open>What an application leaves alone\<close>

context flash_device
begin

text \<open>
  Compressed or not, applied or not, an application only programs runs of the output region:
  what each of these keeps, the application keeps.
\<close>

lemma delta_apply_keeps:
  assumes run: "delta_apply_patch F E fl ab ib pt net = (r, fl')"
    and dest: "flash_range ib (unat net)" and start: "Q fl"
    and step: "\<And>s k d rs s'. Q s \<Longrightarrow> k + length d \<le> unat net
      \<Longrightarrow> fl_program_bytes F s (ib + of_nat k) d = (rs, s') \<Longrightarrow> Q s'"
  shows "Q fl'"
proof -
  note net = flash_range_length [OF dest]
  define P where "P L \<longleftrightarrow> dl_inactive_base L = ib \<and> dl_new_expected L = net \<and> dl_new_written L \<le> net
      \<and> Q (dl_flash L)" for L :: "'s delta_listener"
  have w: "P L'" if P: "P L" and c: "l_write_new (delta_callbacks F) L d = (ok, L')" for L d ok L'
  proof (cases "length d > unat (dl_new_expected L - dl_new_written L)")
    case True
    then show ?thesis using P c by (simp add: delta_callbacks_def write_new_cb_def)
  next
    case False
    let ?W = "dl_new_written L"
    have W: "unat ?W \<le> unat net" using P by (simp add: P_def word_le_nat_alt)
    have len: "unat ?W + length d \<le> unat net"
      using False P W by (simp add: P_def unat_sub)
    obtain rs f where f: "fl_program_bytes F (dl_flash L) (ib + ?W) d = (rs, f)" by fastforce
    have fx: "Q f" using step [OF _ len, of "dl_flash L" rs f] P f by (simp add: P_def)
    have "unat (?W + of_nat (length d)) = unat ?W + length d"
      using len net by (simp add: unat_word_ariths unat_of_nat)
    then have "?W + of_nat (length d) \<le> net" using len by (simp add: word_le_nat_alt)
    then show ?thesis
      using False P c f fx by (auto simp: delta_callbacks_def write_new_cb_def P_def split: if_splits)
  qed
  have plain: "P L'" if "hpatch_lite_patch R (delta_callbacks F) s L n k = (ok, L', s')" "P L"
    for R and s s' :: flash_diff_stream and L n k ok L'
    by (rule hpatch_lite_patch_keeps [where P = P, OF _ that]) (rule w)
  have packed: "P L'" if "hpatch_lite_patch R (delta_callbacks F) s L n k = (ok, L', s')" "P L"
    for R and s s' :: "flash_diff_stream tuz_stream" and L n k ok L'
    by (rule hpatch_lite_patch_keeps [where P = P, OF _ that]) (rule w)
  have init: "P \<lparr> dl_flash = fl, dl_active_base = ab, dl_inactive_base = ib, dl_new_written = 0,
      dl_new_expected = net, dl_active_logical_total = t \<rparr>" for t by (simp add: P_def start)
  have "P L'" if "delta_run_patch F E L s ct n = (r, L')" "P L" for L s ct n r L'
    using that by (auto simp: delta_run_patch_def Let_def split: prod.splits if_splits dest!: plain packed)
  then show ?thesis
    using run init start
    by (auto simp: delta_apply_patch_def Let_def P_def split: prod.splits if_splits open_result.splits)
qed

text \<open>So nothing outside the output region changes.\<close>

lemma delta_apply_frame:
  assumes run: "delta_apply_patch F E fl ab ib pt net = (r, fl')"
    and dest: "flash_range ib (unat net)" and x: "\<not> in_range ib (unat net) x"
  shows "byte fl' x = byte fl x"
proof (rule delta_apply_keeps [where Q = "\<lambda>s. byte s x = byte fl x", OF run dest])
  fix s k d rs s'
  assume s: "byte s x = byte fl x" "k + length d \<le> unat net"
    and p: "fl_program_bytes F s (ib + of_nat k) d = (rs, s')"
  have "\<not> in_range (ib + of_nat k) (length d) x"
    using x in_range_sub(2) [of ib k "length d" x "unat net"] s(2) flash_range_length [OF dest] by auto
  moreover have "flash_range (ib + of_nat k) (length d)" by (rule flash_range_sub [OF dest s(2)])
  ultimately show "byte s' x = byte fl x" using program_frame [OF p] s(1) by simp
qed simp

end

context reliable_flash
begin

lemma delta_apply_good:
  assumes run: "delta_apply_patch F E fl ab ib pt net = (r, fl')"
    and dest: "flash_range ib (unat net)" and g: "good fl"
  shows "good fl'"
proof (rule delta_apply_keeps [where Q = good, OF run dest g])
  fix s k d rs s'
  assume s: "good s" "k + length d \<le> unat net" and p: "fl_program_bytes F s (ib + of_nat k) d = (rs, s')"
  from program_good [OF s(1) flash_range_sub [OF dest s(2)]] p show "good s'" by simp
qed

end

end
