(* ===== verification/Slot_Erase.thy ===== *)
theory Slot_Erase
  imports Boot_Config
begin

text \<open>
  What an erase of an update slot covers.  Slots are not aligned to flash sectors: slot A
  starts inside the sector of the boot configuration and its last 16 KB share a sector with
  the head of slot B.  The lemmas turn a sector erase into an interval of addresses and give
  its effect on the other slot and on the configuration.
\<close>

section \<open>Erased intervals\<close>

lemma sector_bound_le: "i \<le> j \<Longrightarrow> j \<le> 12 \<Longrightarrow> sector_bound i \<le> sector_bound j"
  using sector_bound_mono [of i j] by (cases "i = j") auto

text \<open>From the sector of the first byte to the sector of the last.\<close>

lemma erase_covers_interval:
  assumes i: "i < 12" "sector_bound i \<le> unat a" "unat a < sector_bound (Suc i)"
    and j: "j < 12" "sector_bound j < unat a + unat sz" "unat a + unat sz \<le> sector_bound (Suc j)"
    and nz: "sz \<noteq> 0"
  shows "erase_covers a sz x \<longleftrightarrow> sector_bound i \<le> unat x \<and> unat x < sector_bound (Suc j)"
proof -
  have lim: "0x08000000 \<le> sector_bound i" "sector_bound (Suc j) \<le> 0x08100000"
    using sector_bound_limits [of i] sector_bound_limits [of "Suc j"] i(1) j(1) by simp_all
  have start: "unat (flash_sector_start a) = sector_bound i" by (rule flash_sector_in(1) [OF i])
  have stop: "unat (a + sz) = unat a + unat sz"
    using j(3) lim(2) by (subst unat_add_lem [THEN iffD1]) simp_all
  show ?thesis
  proof (cases "0x08000000 \<le> unat x \<and> unat x < 0x08100000")
    case True
    then obtain k where k: "k < 12" "sector_bound k \<le> unat x" "unat x < sector_bound (Suc k)"
      using sector_exists by blast
    have "sector_bound k < unat a + unat sz \<longleftrightarrow> k \<le> j"
    proof
      assume lt: "sector_bound k < unat a + unat sz"
      show "k \<le> j"
      proof (rule ccontr)
        assume "\<not> k \<le> j"
        then have "sector_bound (Suc j) \<le> sector_bound k" using k(1) by (intro sector_bound_le) simp_all
        then show False using lt j(3) by simp
      qed
    next
      assume "k \<le> j"
      then have "sector_bound k \<le> sector_bound j" using j(1) by (intro sector_bound_le) simp_all
      then show "sector_bound k < unat a + unat sz" using j(2) by simp
    qed
    moreover have "k \<le> j \<longleftrightarrow> unat x < sector_bound (Suc j)"
    proof
      assume "k \<le> j"
      then have "sector_bound (Suc k) \<le> sector_bound (Suc j)" using j(1) by (intro sector_bound_le) simp_all
      then show "unat x < sector_bound (Suc j)" using k(3) by simp
    next
      assume lt: "unat x < sector_bound (Suc j)"
      show "k \<le> j"
      proof (rule ccontr)
        assume "\<not> k \<le> j"
        then have "sector_bound (Suc j) \<le> sector_bound k" using k(1) by (intro sector_bound_le) simp_all
        then show False using lt k(2) by simp
      qed
    qed
    ultimately show ?thesis
      using True nz i(2) lim start stop flash_sector_in(1) [OF k]
      by (auto simp: erase_covers_def word_le_nat_alt word_less_nat_alt layout_simps)
  next
    case False
    then show ?thesis using lim by (auto simp: erase_covers_def word_le_nat_alt layout_simps)
  qed
qed

lemma sector_bounds_slots:
  "sector_bound 4 = 0x08010000" "sector_bound 5 = 0x08020000" "sector_bound 8 = 0x08080000"
  "sector_bound 9 = 0x080A0000"
  by (simp_all add: sector_bound_def k_sector_start_def)

lemma last_sector:
  assumes "0x08000000 < n" "n \<le> (0x08100000 :: nat)"
  obtains j where "j < 12" "sector_bound j < n" "n \<le> sector_bound (Suc j)"
proof -
  obtain k where n: "n = Suc k" using assms(1) by (cases n) simp_all
  have "unat (of_nat k :: u32) = k" using assms by (simp add: unat_of_nat n)
  moreover have "0x08000000 \<le> k" "k < 0x08100000" using assms by (simp_all add: n)
  ultimately obtain j where "j < 12" "sector_bound j \<le> k" "k < sector_bound (Suc j)"
    using sector_exists [of "of_nat k"] by metis
  then show thesis by (intro that [of j]) (simp_all add: n)
qed

lemma sector_index_le: "sector_bound j < sector_bound k \<Longrightarrow> k \<le> 12 \<Longrightarrow> j \<le> 12 \<Longrightarrow> j < k"
  using sector_bound_le [of k j] by (meson not_le)

section \<open>Erasing a slot\<close>

text \<open>An erase for an image of \<open>sz\<close> bytes covers the image and stays above the bootloader.\<close>

lemma slot_a_erase:
  assumes "sz \<noteq> 0" "unat sz \<le> 471040"
  shows "unat sz \<le> 0x6F000 \<Longrightarrow> erase_covers SLOT_A_ADDR sz x \<Longrightarrow> unat x < 0x08080000"
    and "0x6F000 < unat sz \<Longrightarrow> erase_covers SLOT_A_ADDR sz x \<longleftrightarrow> 0x08010000 \<le> unat x \<and> unat x < 0x080A0000"
    and "erase_covers SLOT_A_ADDR sz x \<Longrightarrow> 0x08010000 \<le> unat x"
    and "0x08010000 \<le> unat x \<Longrightarrow> unat x < 0x08011000 + unat sz \<Longrightarrow> erase_covers SLOT_A_ADDR sz x"
proof -
  have a: "unat SLOT_A_ADDR = 0x08011000" by (simp add: layout_simps)
  have pos: "0 < unat sz" using assms(1) by (simp add: unat_gt_0)
  obtain j where j: "j < 12" "sector_bound j < unat SLOT_A_ADDR + unat sz"
      "unat SLOT_A_ADDR + unat sz \<le> sector_bound (Suc j)"
    using last_sector [of "unat SLOT_A_ADDR + unat sz"] assms pos by (auto simp: a)
  have c: "erase_covers SLOT_A_ADDR sz x \<longleftrightarrow> 0x08010000 \<le> unat x \<and> unat x < sector_bound (Suc j)"
    using erase_covers_interval [of 4 SLOT_A_ADDR j sz x] j assms(1) by (simp add: sector_bounds_slots a)
  show "unat x < 0x08080000" if "unat sz \<le> 0x6F000" "erase_covers SLOT_A_ADDR sz x"
  proof -
    have "j < 8" using sector_index_le [of j 8] j that(1) by (simp add: sector_bounds_slots a)
    then have "sector_bound (Suc j) \<le> sector_bound 8" by (intro sector_bound_le) simp_all
    then show ?thesis using that(2) c by (simp add: sector_bounds_slots)
  qed
  show "erase_covers SLOT_A_ADDR sz x \<longleftrightarrow> 0x08010000 \<le> unat x \<and> unat x < 0x080A0000" if "0x6F000 < unat sz"
  proof -
    have "j < 9" using sector_index_le [of j 9] j assms(2) by (simp add: sector_bounds_slots a)
    moreover have "8 < Suc j" using sector_index_le [of 8 "Suc j"] j that by (simp add: sector_bounds_slots a)
    ultimately have "Suc j = 9" by simp
    then show ?thesis using c by (simp add: sector_bounds_slots)
  qed
  show "0x08010000 \<le> unat x" if "erase_covers SLOT_A_ADDR sz x" using that c by simp
  show "erase_covers SLOT_A_ADDR sz x" if "0x08010000 \<le> unat x" "unat x < 0x08011000 + unat sz"
    using that c j(3) by (simp add: a)
qed

lemma slot_b_erase:
  assumes "sz \<noteq> 0" "unat sz \<le> 471040"
  shows "erase_covers SLOT_B_ADDR sz x \<Longrightarrow> 0x08080000 \<le> unat x"
    and "0x08080000 \<le> unat x \<Longrightarrow> unat x < 0x08084000 + unat sz \<Longrightarrow> erase_covers SLOT_B_ADDR sz x"
proof -
  have a: "unat SLOT_B_ADDR = 0x08084000" by (simp add: layout_simps)
  have pos: "0 < unat sz" using assms(1) by (simp add: unat_gt_0)
  obtain j where j: "j < 12" "sector_bound j < unat SLOT_B_ADDR + unat sz"
      "unat SLOT_B_ADDR + unat sz \<le> sector_bound (Suc j)"
    using last_sector [of "unat SLOT_B_ADDR + unat sz"] assms pos by (auto simp: a)
  have c: "erase_covers SLOT_B_ADDR sz x \<longleftrightarrow> 0x08080000 \<le> unat x \<and> unat x < sector_bound (Suc j)"
    using erase_covers_interval [of 8 SLOT_B_ADDR j sz x] j assms(1) by (simp add: sector_bounds_slots a)
  show "0x08080000 \<le> unat x" if "erase_covers SLOT_B_ADDR sz x" using that c by simp
  show "erase_covers SLOT_B_ADDR sz x" if "0x08080000 \<le> unat x" "unat x < 0x08084000 + unat sz"
    using that c j(3) by (simp add: a)
qed

lemma slot_erase_above:
  assumes "slot \<in> {SLOT_A_ADDR, SLOT_B_ADDR}" "sz \<noteq> 0" "unat sz \<le> 471040" "erase_covers slot sz x"
  shows "0x08010000 \<le> unat x"
  using assms slot_a_erase(3) [OF assms(2,3)] slot_b_erase(1) [OF assms(2,3)] by force

lemma slot_erase_covers:
  assumes "slot \<in> {SLOT_A_ADDR, SLOT_B_ADDR}" "sz \<noteq> 0" "unat sz \<le> 471040" "in_range slot (unat sz) x"
  shows "erase_covers slot sz x"
  using assms slot_a_erase(4) [OF assms(2,3)] slot_b_erase(2) [OF assms(2,3)]
  by (auto simp: in_slot_a_range in_slot_b_range)

section \<open>An image and its extent\<close>

text \<open>A valid image depends on no byte past its payload.\<close>

lemma image_ok_extent:
  assumes ok: "image_ok C m a" and ext: "512 + unat (fh_image_size (image_header m a)) \<le> n" "n \<le> 471040"
    and eq: "mem_eq_on a n m m'"
  shows "image_ok C m' a"
proof -
  have h: "image_header m a = image_header m' a"
    using mem_eq_on_sub [OF eq, of 0 512] ext by (intro image_header_cong) simp
  have "mem_eq_on (a + of_nat 512) (unat (fh_image_size (image_header m a))) m m'"
    by (rule mem_eq_on_sub [OF eq]) (use ext in simp_all)
  then have "image_payload m a = image_payload m' a"
    unfolding image_payload_def h
    by (intro mem_bytes_cong) (use ext in \<open>simp_all add: h\<close>)
  then show ?thesis using ok h by (simp add: image_ok_def signed_message_def)
qed

context flash_device
begin

text \<open>
  The slots are not independent.  An erase of slot A also erases the configuration, and
  slot B's header as soon as the erased length exceeds \<open>0x6F000\<close>; an erase of slot B also
  erases what slot A holds past that offset.
\<close>

lemma erase_a_config:
  assumes e: "fl_erase_range F s SLOT_A_ADDR sz = (FLASH_OK, s')" and sz: "sz \<noteq> 0" "unat sz \<le> 471040"
  shows "mem_bytes (byte s') BOOT_CONFIG_ADDR 24 = replicate 24 0xFF"
proof (rule nth_equalityI)
  fix i assume i: "i < length (mem_bytes (byte s') BOOT_CONFIG_ADDR 24)"
  let ?x = "BOOT_CONFIG_ADDR + of_nat i"
  have r: "in_range BOOT_CONFIG_ADDR 24 ?x" using i by (simp add: in_range_offset)
  then have "0x08010000 \<le> unat ?x" "unat ?x < 0x08010018" by (simp_all add: in_config_range)
  then have "erase_covers SLOT_A_ADDR sz ?x" by (intro slot_a_erase(4) [OF sz]) simp_all
  moreover have "writable ?x" using in_range_mono [OF r, of 4096] by (intro writable_regions) simp
  ultimately show "mem_bytes (byte s') BOOT_CONFIG_ADDR 24 ! i = replicate 24 0xFF ! i"
    using erase_ok [OF e] i by simp
qed simp

lemma erase_a_keeps_b:
  assumes e: "fl_erase_range F s SLOT_A_ADDR sz = (r, s')" and sz: "sz \<noteq> 0" "unat sz \<le> 0x6F000"
  shows "image_ok C (byte s') SLOT_B_ADDR \<longleftrightarrow> image_ok C (byte s) SLOT_B_ADDR"
proof (rule image_ok_cong)
  show "mem_eq_on SLOT_B_ADDR 471040 (byte s') (byte s)"
    unfolding mem_eq_on_def
  proof (intro allI impI)
    fix x assume "in_range SLOT_B_ADDR 471040 x"
    then have "\<not> erase_covers SLOT_A_ADDR sz x"
      using slot_a_erase(1) [of sz x] sz by (auto simp: in_slot_b_range)
    then show "byte s' x = byte s x" using erase_frame [OF e] by blast
  qed
qed

lemma erase_a_destroys_b:
  assumes e: "fl_erase_range F s SLOT_A_ADDR sz = (FLASH_OK, s')" and sz: "0x6F000 < unat sz" "unat sz \<le> 471040"
  shows "\<not> image_ok C (byte s') SLOT_B_ADDR"
proof (rule image_ok_erased)
  fix x assume x: "in_range SLOT_B_ADDR 4 x"
  have nz: "sz \<noteq> 0" using sz(1) by auto
  have "writable x" using in_range_mono [OF x, of "unat (fl_ota_slot_span F)"] span
    by (intro writable_regions) simp
  moreover have "erase_covers SLOT_A_ADDR sz x"
    using slot_a_erase(2) [OF nz sz(2) sz(1)] x by (simp add: in_slot_b_range)
  ultimately show "byte s' x = 0xFF" by (intro erase_ok [OF e])
qed

lemma erase_b_keeps_a:
  assumes e: "fl_erase_range F s SLOT_B_ADDR sz = (r, s')" and sz: "sz \<noteq> 0" "unat sz \<le> 471040"
    and ok: "image_ok C (byte s) SLOT_A_ADDR"
    and fits: "512 + unat (fh_image_size (image_header (byte s) SLOT_A_ADDR)) \<le> 0x6F000"
  shows "image_ok C (byte s') SLOT_A_ADDR"
proof (rule image_ok_extent [OF ok fits])
  show "mem_eq_on SLOT_A_ADDR 0x6F000 (byte s) (byte s')"
    unfolding mem_eq_on_def
  proof (intro allI impI)
    fix x assume "in_range SLOT_A_ADDR 0x6F000 x"
    then have "\<not> erase_covers SLOT_B_ADDR sz x"
      using slot_b_erase(1) [OF sz, of x] by (auto simp: in_slot_a_range)
    then show "byte s x = byte s' x" using erase_frame [OF e] by metis
  qed
qed simp

lemma erase_b_keeps_config:
  assumes e: "fl_erase_range F s SLOT_B_ADDR sz = (r, s')" and sz: "sz \<noteq> 0" "unat sz \<le> 471040"
  shows "mem_bytes (byte s') BOOT_CONFIG_ADDR 24 = mem_bytes (byte s) BOOT_CONFIG_ADDR 24"
proof (rule mem_bytes_cong)
  show "mem_eq_on BOOT_CONFIG_ADDR 24 (byte s') (byte s)"
    unfolding mem_eq_on_def
  proof (intro allI impI)
    fix x assume "in_range BOOT_CONFIG_ADDR 24 x"
    then have "\<not> erase_covers SLOT_B_ADDR sz x"
      using slot_b_erase(1) [OF sz, of x] by (auto simp: in_config_range)
    then show "byte s' x = byte s x" using erase_frame [OF e] by blast
  qed
qed simp

end

end
