(* ===== verification/Ota_Client.thy ===== *)
theory Ota_Client
  imports Boot_Main Ota_Frame Delta_Patch Slot_Erase
begin

unbundle bit_operations_syntax

text \<open>
  \<^verbatim>\<open>bootloader/src/ota_client.c\<close>: the transfer state, the handler of every opcode and the
  receive loop.  The state extends the one of \<^verbatim>\<open>main\<close> by the static \<open>g_state\<close>; the serial
  line is a bus.  Log lines and the delay before a reset are left out.  The lemmas give the
  contract of each handler on every flash device; \<open>Ota_Session\<close> builds on them.
\<close>

section \<open>State\<close>

datatype ota_kind_t = OTA_KIND_FULL | OTA_KIND_DELTA

record ota_state_t =
  os_active :: bool
  os_kind :: ota_kind_t
  os_slot_addr :: u32
  os_xfer_total :: u32
  os_written :: u32
  os_expected_seq :: u16
  os_patch_tail_base :: u32
  os_expected_new_total :: u32
  os_active_slot_base :: u32

definition ota_state_zero :: ota_state_t where
  "ota_state_zero = \<lparr> os_active = False, os_kind = OTA_KIND_FULL, os_slot_addr = 0, os_xfer_total = 0,
     os_written = 0, os_expected_seq = 0, os_patch_tail_base = 0, os_expected_new_total = 0,
     os_active_slot_base = 0 \<rparr>"

record 's ota_st = "'s boot_st" +
  g_state :: ota_state_t

definition OTA_START_DELTA_PAYLOAD :: u16 where "OTA_START_DELTA_PAYLOAD = 4 + 4 + 32"

section \<open>The handlers\<close>

definition handle_start ::
  "crypto_env \<Rightarrow> 's flash_ops \<Rightarrow> ota_frame_t \<Rightarrow> 's ota_st \<Rightarrow> bool \<times> 's ota_st" where
  "handle_start C F f st =
     (if fr_len f < 4 then (False, st)
      else
        let cfg = snd (boot_config_load C F (bs_flash st));
            target = memory_map_other_slot (cfg_active_slot cfg);
            slot_addr = memory_map_slot_addr target;
            tot = rd_u32_le (fr_data f)
        in if tot < FIRMWARE_HEADER_SIZE \<or> tot > FIRMWARE_HEADER_SIZE + FIRMWARE_MAX_PAYLOAD_SIZE
           then (False, st)
           else case fl_erase_range F (bs_flash st) slot_addr tot of (rs, fl) \<Rightarrow>
             let st = st\<lparr>bs_flash := fl\<rparr> in
             if rs \<noteq> FLASH_OK then (False, st)
             else (True, st\<lparr>g_state := (g_state st)\<lparr> os_active := True, os_kind := OTA_KIND_FULL,
                     os_slot_addr := slot_addr, os_xfer_total := tot, os_written := 0,
                     os_expected_seq := fr_seq f + 1 \<rparr>\<rparr>))"

definition handle_start_delta ::
  "crypto_env \<Rightarrow> 's flash_ops \<Rightarrow> ota_frame_t \<Rightarrow> 's ota_st \<Rightarrow> bool \<times> 's ota_st" where
  "handle_start_delta C F f st =
     (if fr_len f < OTA_START_DELTA_PAYLOAD then (False, st)
      else
        let cfg = snd (boot_config_load C F (bs_flash st));
            target = memory_map_other_slot (cfg_active_slot cfg);
            slot_addr = memory_map_slot_addr target;
            patch_total = rd_u32_le (fr_data f);
            expected_new = rd_u32_le (drop 4 (fr_data f));
            digest = drop 8 (fr_data f);
            slot_span = fl_ota_slot_span F
        in if patch_total = 0 \<or> patch_total > slot_span then (False, st)
           else if expected_new < FIRMWARE_HEADER_SIZE
             \<or> expected_new > FIRMWARE_HEADER_SIZE + FIRMWARE_MAX_PAYLOAD_SIZE then (False, st)
           else if expected_new + patch_total > slot_span then (False, st)
           else
             let active_base = memory_map_slot_addr (cfg_active_slot cfg) in
             if \<not> delta_verify_active_base_sha256 F (bs_flash st) active_base digest then (False, st)
             else case fl_erase_range F (bs_flash st) slot_addr slot_span of (rs, fl) \<Rightarrow>
               let st = st\<lparr>bs_flash := fl\<rparr> in
               if rs \<noteq> FLASH_OK then (False, st)
               else (True, st\<lparr>g_state := (g_state st)\<lparr> os_active := True, os_kind := OTA_KIND_DELTA,
                       os_slot_addr := slot_addr, os_xfer_total := patch_total,
                       os_expected_new_total := expected_new, os_active_slot_base := active_base,
                       os_patch_tail_base := slot_addr + slot_span - patch_total, os_written := 0,
                       os_expected_seq := fr_seq f + 1 \<rparr>\<rparr>))"

definition handle_data :: "'s flash_ops \<Rightarrow> ota_frame_t \<Rightarrow> 's ota_st \<Rightarrow> bool \<times> 's ota_st" where
  "handle_data F f st =
     (let g = g_state st in
      if \<not> os_active g then (False, st)
      else if fr_seq f \<noteq> os_expected_seq g then (False, st)
      else if fr_len f = 0 then (False, st)
      else if os_written g + ucast (fr_len f) > os_xfer_total g then (False, st)
      else
        let dest = (if os_kind g = OTA_KIND_DELTA then os_patch_tail_base g + os_written g
                    else os_slot_addr g + os_written g)
        in case fl_program_bytes F (bs_flash st) dest (fr_data f) of (rs, fl) \<Rightarrow>
             let st = st\<lparr>bs_flash := fl\<rparr> in
             if rs \<noteq> FLASH_OK then (False, st)
             else (True, st\<lparr>g_state := g\<lparr> os_written := os_written g + ucast (fr_len f),
                     os_expected_seq := os_expected_seq g + 1 \<rparr>\<rparr>))"

text \<open>\<open>None\<close> is a delta application the C standard gives no meaning.\<close>

definition handle_end ::
  "crypto_env \<Rightarrow> 's flash_ops \<Rightarrow> delta_env \<Rightarrow> 's ota_st \<Rightarrow> bool option \<times> 's ota_st" where
  "handle_end C F E st =
     (let g = g_state st in
      if \<not> os_active g then (Some False, st)
      else if os_written g \<noteq> os_xfer_total g then (Some False, st)
      else
        let (applied, fl) =
              (if os_kind g = OTA_KIND_DELTA
               then delta_apply_patch F E (bs_flash st) (os_active_slot_base g) (os_slot_addr g)
                      (os_xfer_total g) (os_expected_new_total g)
               else (Applied True, bs_flash st));
            st = st\<lparr>bs_flash := fl\<rparr>
        in case applied of
             Undefined \<Rightarrow> (None, st)
           | Applied False \<Rightarrow> (Some False, st)
           | Applied True \<Rightarrow>
               if \<not> crypto_verify_firmware C F fl (os_slot_addr g) then (Some False, st)
               else case fl_read F fl (os_slot_addr g) FIRMWARE_HEADER_SIZE of (rs, hb) \<Rightarrow>
                 let hdr = hdr_of_bytes hb in
                 if rs \<noteq> FLASH_OK \<or> fh_magic hdr \<noteq> FIRMWARE_MAGIC then (Some False, st)
                 else
                   let cfg = snd (boot_config_load C F fl) in
                   if \<not> boot_config_firmware_allowed cfg (fh_version hdr) then (Some False, st)
                   else (Some True, st\<lparr>bs_shared := (bs_shared st)\<lparr> sb_magic := SHARED_BLOCK_MAGIC,
                           sb_ota_pending := 1, sb_boot_confirmed := 0 \<rparr>\<rparr>))"

section \<open>The receive loop\<close>

definition handle_frame ::
  "crypto_env \<Rightarrow> 's flash_ops \<Rightarrow> delta_env \<Rightarrow> ota_frame_t \<Rightarrow> 's ota_st \<Rightarrow> bool option \<times> 's ota_st" where
  "handle_frame C F E f st =
     (if fr_op f = OTA_OP_START then (case handle_start C F f st of (ok, st) \<Rightarrow> (Some ok, st))
      else if fr_op f = OTA_OP_START_DELTA then (case handle_start_delta C F f st of (ok, st) \<Rightarrow> (Some ok, st))
      else if fr_op f = OTA_OP_DATA then (case handle_data F f st of (ok, st) \<Rightarrow> (Some ok, st))
      else if fr_op f = OTA_OP_END then handle_end C F E st
      else (Some False, st))"

text \<open>Only the END of a delta transfer runs the patcher, so only it can leave what C defines.\<close>

lemma handle_frame_undefined:
  assumes "handle_frame C F E f st = (None, st')"
  shows "fr_op f = OTA_OP_END \<and> os_active (g_state st) \<and> os_kind (g_state st) = OTA_KIND_DELTA"
proof -
  have e: "os_active (g_state st) \<and> os_kind (g_state st) = OTA_KIND_DELTA" if "handle_end C F E st = (None, st')"
    using that by (auto simp: handle_end_def Let_def split: if_splits prod.splits delta_outcome.splits bool.splits)
  show ?thesis using assms by (auto simp: handle_frame_def e split: if_splits prod.splits)
qed

datatype ota_exit = OtaReturned bool | OtaReset | OtaUndefined

text \<open>The store that requests the reset.\<close>

definition system_reset :: "'h bus \<Rightarrow> 'h \<Rightarrow> 'h" where
  "system_reset B h = bus_wr B h (fst bootloader_system_reset) (snd bootloader_system_reset)"

partial_function (option) receive_loop ::
  "crypto_env \<Rightarrow> 's flash_ops \<Rightarrow> delta_env \<Rightarrow> 'h bus \<Rightarrow> nat \<Rightarrow> 's ota_st \<Rightarrow> 'h
     \<Rightarrow> (ota_exit \<times> 's ota_st \<times> 'h) option" where
  "receive_loop C F E B consec_errs st h =
     (if consec_errs < 16 then
        (case read_frame B (iwdg_kick B h) of
           None \<Rightarrow> None
         | Some (r, h) \<Rightarrow>
             (case r of
                Inl s \<Rightarrow>
                  receive_loop C F E B (consec_errs + 1) st
                    (if s = FRAME_CRC_BAD \<or> s = FRAME_TOO_BIG then send_response B OTA_RESP_NAK 0 h else h)
              | Inr f \<Rightarrow>
                  if fr_op f = OTA_OP_ABORT
                  then Some (OtaReturned False, st, send_response B OTA_RESP_ACK (fr_seq f) h)
                  else (case handle_frame C F E f st of (res, st) \<Rightarrow>
                    (case res of
                       None \<Rightarrow> Some (OtaUndefined, st, h)
                     | Some ok \<Rightarrow>
                         if ok then
                           (if fr_op f = OTA_OP_END
                            then Some (OtaReset, st,
                                   system_reset B (send_response B OTA_RESP_ACK (fr_seq f) h))
                            else receive_loop C F E B 0 st (send_response B OTA_RESP_ACK (fr_seq f) h))
                         else receive_loop C F E B (consec_errs + 1) st
                                (send_response B OTA_RESP_NAK (fr_seq f) h)))))
      else Some (OtaReturned False, st, h))"

definition ota_client_receive ::
  "crypto_env \<Rightarrow> 's flash_ops \<Rightarrow> delta_env \<Rightarrow> 'h bus \<Rightarrow> 's ota_st \<Rightarrow> 'h
     \<Rightarrow> (ota_exit \<times> 's ota_st \<times> 'h) option" where
  "ota_client_receive C F E B st h = receive_loop C F E B 0 (st\<lparr>g_state := ota_state_zero\<rparr>) h"

section \<open>The transfer invariant\<close>

text \<open>
  \<open>data_base\<close> is the address of the first payload byte, \<open>received\<close> what was stored so far.
  A transfer in progress aims at one of the two slots and stays inside it.
\<close>

definition data_base :: "ota_state_t \<Rightarrow> u32" where
  "data_base g = (if os_kind g = OTA_KIND_DELTA then os_patch_tail_base g else os_slot_addr g)"

definition received :: "mem \<Rightarrow> ota_state_t \<Rightarrow> u8 list" where
  "received m g = mem_bytes m (data_base g) (unat (os_written g))"

definition transfer_ok :: "u32 \<Rightarrow> ota_state_t \<Rightarrow> bool" where
  "transfer_ok span g \<longleftrightarrow> (os_active g \<longrightarrow>
     os_slot_addr g \<in> {SLOT_A_ADDR, SLOT_B_ADDR} \<and> os_written g \<le> os_xfer_total g \<and>
     (if os_kind g = OTA_KIND_DELTA
      then os_xfer_total g \<noteq> 0 \<and> os_expected_new_total g \<noteq> 0 \<and> unat span \<le> 471040
        \<and> unat (os_expected_new_total g) + unat (os_xfer_total g) \<le> unat span
        \<and> os_patch_tail_base g = os_slot_addr g + span - os_xfer_total g
      else 512 \<le> os_xfer_total g \<and> os_xfer_total g \<le> 471040))"

text \<open>What a transfer is about, apart from its progress.\<close>

definition transfer_of :: "ota_state_t \<Rightarrow> ota_kind_t \<times> u32 \<times> u32 \<times> u32 \<times> u32 \<times> u32" where
  "transfer_of g = (os_kind g, os_slot_addr g, os_xfer_total g, os_patch_tail_base g,
     os_expected_new_total g, os_active_slot_base g)"

text \<open>The slot a start request aims at, and its two parameters.\<close>

definition ota_target :: "crypto_env \<Rightarrow> mem \<Rightarrow> u32" where
  "ota_target C m = memory_map_slot_addr (memory_map_other_slot (cfg_active_slot (loaded_cfg C m)))"

lemma ota_target_in: "ota_target C m \<in> {SLOT_A_ADDR, SLOT_B_ADDR}"
  using slot_addr_cases [of "memory_map_other_slot (cfg_active_slot (loaded_cfg C m))"]
  by (auto simp: ota_target_def)

lemma transfer_ok_zero: "transfer_ok span ota_state_zero"
  by (simp add: transfer_ok_def ota_state_zero_def)

lemma other_addr_ne:
  assumes "slot \<in> {SLOT_A, SLOT_B}"
  shows "memory_map_slot_addr slot \<noteq> memory_map_slot_addr (memory_map_other_slot slot)"
  using assms by auto

section \<open>Contracts of the handlers\<close>

context flash_device
begin

lemma load_snd:
  "length (public_key_sha256 C) = 32 \<Longrightarrow> snd (boot_config_load C F s) = loaded_cfg C (byte s)"
  by (simp add: boot_config_load_eq [OF flash_device_axioms])

lemma start_ok:
  assumes pk: "length (public_key_sha256 C) = 32" and h: "handle_start C F f st = (True, st')"
  shows "fl_erase_range F (bs_flash st) (ota_target C (byte (bs_flash st))) (rd_u32_le (fr_data f))
      = (FLASH_OK, bs_flash st')"
    and "g_state st' = (g_state st)\<lparr> os_active := True, os_kind := OTA_KIND_FULL,
      os_slot_addr := ota_target C (byte (bs_flash st)), os_xfer_total := rd_u32_le (fr_data f),
      os_written := 0, os_expected_seq := fr_seq f + 1 \<rparr>"
    and "512 \<le> rd_u32_le (fr_data f)" "rd_u32_le (fr_data f) \<le> 471040" "bs_shared st' = bs_shared st"
  using h by (auto simp: handle_start_def Let_def load_snd [OF pk] ota_target_def layout_simps not_less
      split: if_splits prod.splits)

lemma start_failed:
  assumes pk: "length (public_key_sha256 C) = 32" and h: "handle_start C F f st = (False, st')"
  shows "g_state st' = g_state st" "bs_shared st' = bs_shared st"
    and "bs_flash st' = bs_flash st \<or> (512 \<le> rd_u32_le (fr_data f) \<and> rd_u32_le (fr_data f) \<le> 471040 \<and>
      (\<exists>r. fl_erase_range F (bs_flash st) (ota_target C (byte (bs_flash st))) (rd_u32_le (fr_data f))
        = (r, bs_flash st')))"
  using h by (auto simp: handle_start_def Let_def load_snd [OF pk] ota_target_def layout_simps not_less
      split: if_splits prod.splits)

lemma span_pos: "fl_ota_slot_span F \<noteq> 0" "unat (fl_ota_slot_span F) \<le> 471040"
  using span by auto

text \<open>What the guards of a delta start leave of its two totals.\<close>

lemma delta_totals:
  assumes "pt \<noteq> 0" "pt \<le> fl_ota_slot_span F" "512 \<le> net" "net \<le> 471040" "net + pt \<le> fl_ota_slot_span F"
  shows "net \<noteq> 0" "unat net + unat pt \<le> unat (fl_ota_slot_span F)"
proof -
  have "unat net \<le> 471040" "unat pt \<le> 471040" using assms(2,4) span by (simp_all add: word_le_nat_alt)
  then have "unat (net + pt) = unat net + unat pt" by (subst unat_add_lem [THEN iffD1]) simp_all
  then show "unat net + unat pt \<le> unat (fl_ota_slot_span F)" using assms(5) by (simp add: word_le_nat_alt)
  show "net \<noteq> 0" using assms(3) by auto
qed

lemma start_delta_ok:
  assumes pk: "length (public_key_sha256 C) = 32" and h: "handle_start_delta C F f st = (True, st')"
  defines "m \<equiv> byte (bs_flash st)" and "pt \<equiv> rd_u32_le (fr_data f)" and "net \<equiv> rd_u32_le (drop 4 (fr_data f))"
  defines "ab \<equiv> memory_map_slot_addr (cfg_active_slot (loaded_cfg C m))"
  shows "fl_erase_range F (bs_flash st) (ota_target C m) (fl_ota_slot_span F) = (FLASH_OK, bs_flash st')"
    and "g_state st' = (g_state st)\<lparr> os_active := True, os_kind := OTA_KIND_DELTA,
      os_slot_addr := ota_target C m, os_xfer_total := pt, os_expected_new_total := net,
      os_active_slot_base := ab, os_patch_tail_base := ota_target C m + fl_ota_slot_span F - pt,
      os_written := 0, os_expected_seq := fr_seq f + 1 \<rparr>"
    and "pt \<noteq> 0" "unat net + unat pt \<le> unat (fl_ota_slot_span F)" "512 \<le> net"
    and "delta_verify_active_base_sha256 F (bs_flash st) ab (drop 8 (fr_data f))"
    and "bs_shared st' = bs_shared st"
proof -
  have g: "pt \<noteq> 0" "pt \<le> fl_ota_slot_span F" "512 \<le> net" "net \<le> 471040" "net + pt \<le> fl_ota_slot_span F"
    using h by (auto simp: handle_start_delta_def Let_def load_snd [OF pk] layout_simps not_less pt_def net_def
        split: if_splits prod.splits)
  show "unat net + unat pt \<le> unat (fl_ota_slot_span F)" by (rule delta_totals(2) [OF g])
  show "pt \<noteq> 0" "512 \<le> net" by (rule g)+
  show "fl_erase_range F (bs_flash st) (ota_target C m) (fl_ota_slot_span F) = (FLASH_OK, bs_flash st')"
    "g_state st' = (g_state st)\<lparr> os_active := True, os_kind := OTA_KIND_DELTA,
      os_slot_addr := ota_target C m, os_xfer_total := pt, os_expected_new_total := net,
      os_active_slot_base := ab, os_patch_tail_base := ota_target C m + fl_ota_slot_span F - pt,
      os_written := 0, os_expected_seq := fr_seq f + 1 \<rparr>"
    "delta_verify_active_base_sha256 F (bs_flash st) ab (drop 8 (fr_data f))"
    "bs_shared st' = bs_shared st"
    using h by (auto simp: handle_start_delta_def Let_def load_snd [OF pk] ota_target_def m_def pt_def net_def ab_def
        split: if_splits prod.splits)
qed

lemma start_delta_failed:
  assumes pk: "length (public_key_sha256 C) = 32" and h: "handle_start_delta C F f st = (False, st')"
  shows "g_state st' = g_state st" "bs_shared st' = bs_shared st"
    and "bs_flash st' = bs_flash st \<or>
      (\<exists>r. fl_erase_range F (bs_flash st) (ota_target C (byte (bs_flash st))) (fl_ota_slot_span F)
        = (r, bs_flash st'))"
  using h by (auto simp: handle_start_delta_def Let_def load_snd [OF pk] ota_target_def
      split: if_splits prod.splits)

end

section \<open>Data and end\<close>

text \<open>The bytes a transfer may write lie in its slot.\<close>

lemma transfer_bounds:
  assumes ok: "transfer_ok span g" and act: "os_active g"
  shows "os_slot_addr g \<in> {SLOT_A_ADDR, SLOT_B_ADDR}" "os_written g \<le> os_xfer_total g"
    and "unat (os_xfer_total g) \<le> 471040"
    and "in_range (data_base g) (unat (os_xfer_total g)) x \<Longrightarrow> in_range (os_slot_addr g) 471040 x"
proof -
  show "os_slot_addr g \<in> {SLOT_A_ADDR, SLOT_B_ADDR}" "os_written g \<le> os_xfer_total g"
    using ok act by (simp_all add: transfer_ok_def)
  show t: "unat (os_xfer_total g) \<le> 471040"
    using ok act by (auto simp: transfer_ok_def word_le_nat_alt split: if_splits)
  show "in_range (os_slot_addr g) 471040 x" if r: "in_range (data_base g) (unat (os_xfer_total g)) x"
  proof (cases "os_kind g = OTA_KIND_DELTA")
    case False
    then show ?thesis using in_range_mono [OF r t] by (simp add: data_base_def)
  next
    case True
    have l: "unat (os_xfer_total g) \<le> unat span" "unat span \<le> 471040"
      and b: "data_base g = os_slot_addr g + (span - os_xfer_total g)"
      using ok act True by (simp_all add: transfer_ok_def data_base_def algebra_simps)
    have s: "unat (span - os_xfer_total g) = unat span - unat (os_xfer_total g)"
      using l(1) by (simp add: unat_sub word_le_nat_alt)
    have "in_range (os_slot_addr g + of_nat (unat (span - os_xfer_total g))) (unat (os_xfer_total g)) x"
      using r by (simp add: b)
    then show ?thesis by (rule in_range_sub(2)) (use l in \<open>simp_all add: s\<close>)
  qed
qed

lemma transfer_in_flash:
  assumes ok: "transfer_ok span g" and act: "os_active g"
  shows "flash_range (data_base g) (unat (os_xfer_total g))"
proof (cases "os_kind g = OTA_KIND_DELTA")
  case False
  then show ?thesis using flash_range_slot [OF transfer_bounds(1,3) [OF ok act]] by (simp add: data_base_def)
next
  case True
  have l: "unat (os_xfer_total g) \<le> unat span" "unat span \<le> 471040"
    and b: "data_base g = os_slot_addr g + of_nat (unat (span - os_xfer_total g))"
    using ok act True by (simp_all add: transfer_ok_def data_base_def algebra_simps)
  have "unat (span - os_xfer_total g) = unat span - unat (os_xfer_total g)"
    using l(1) by (simp add: unat_sub word_le_nat_alt)
  then show ?thesis
    unfolding b by (intro flash_range_sub [OF flash_range_slot [OF transfer_bounds(1) [OF ok act] l(2)]]) (use l in simp)
qed

context flash_device
begin

lemma data_step:
  assumes h: "handle_data F f st = (ok, st')"
  shows "bs_shared st' = bs_shared st"
    and "\<not> ok \<Longrightarrow> g_state st' = g_state st"
    and "ok \<Longrightarrow> os_active (g_state st) \<and> fr_seq f = os_expected_seq (g_state st) \<and> fr_len f \<noteq> 0
      \<and> os_written (g_state st) + ucast (fr_len f) \<le> os_xfer_total (g_state st)
      \<and> g_state st' = (g_state st)\<lparr> os_written := os_written (g_state st) + ucast (fr_len f),
          os_expected_seq := os_expected_seq (g_state st) + 1 \<rparr>
      \<and> fl_program_bytes F (bs_flash st) (data_base (g_state st) + os_written (g_state st)) (fr_data f)
          = (FLASH_OK, bs_flash st')"
    and "bs_flash st' = bs_flash st \<or> (os_active (g_state st)
      \<and> os_written (g_state st) + ucast (fr_len f) \<le> os_xfer_total (g_state st)
      \<and> (\<exists>r. fl_program_bytes F (bs_flash st) (data_base (g_state st) + os_written (g_state st)) (fr_data f)
          = (r, bs_flash st')))"
  using h by (auto simp: handle_data_def Let_def data_base_def not_less split: if_splits prod.splits)

text \<open>The arithmetic of a stored frame.\<close>

lemma data_fits:
  assumes ok: "transfer_ok span g" and act: "os_active g" and wf: "frame_wf f"
    and fits: "os_written g + ucast (fr_len f) \<le> os_xfer_total g"
  shows "unat (os_written g + ucast (fr_len f)) = unat (os_written g) + length (fr_data f)"
    and "unat (os_written g) + length (fr_data f) \<le> unat (os_xfer_total g)" "length (fr_data f) \<le> 1024"
proof -
  have l: "length (fr_data f) = unat (fr_len f)" "unat (fr_len f) \<le> 1024"
    using wf by (simp_all add: frame_wf_def OTA_MAX_PAYLOAD_def word_le_nat_alt)
  have u: "unat (ucast (fr_len f) :: u32) = unat (fr_len f)"
    by (simp add: unsigned_ucast_eq take_bit_nat_eq_self_iff l(2) order_le_less_trans [OF l(2)])
  have "unat (os_written g) \<le> 471040"
    using transfer_bounds(2,3) [OF ok act] by (simp add: word_le_nat_alt)
  then show a: "unat (os_written g + ucast (fr_len f)) = unat (os_written g) + length (fr_data f)"
    using l u by (subst unat_add_lem [THEN iffD1]) simp_all
  show "unat (os_written g) + length (fr_data f) \<le> unat (os_xfer_total g)"
    using fits unfolding word_le_nat_alt a .
  show "length (fr_data f) \<le> 1024" using l by simp
qed

lemma data_range:
  assumes "transfer_ok span g" "os_active g" "frame_wf f" "os_written g + ucast (fr_len f) \<le> os_xfer_total g"
  shows "flash_range (data_base g + os_written g) (length (fr_data f))"
  using flash_range_sub [OF transfer_in_flash [OF assms(1,2)] data_fits(2) [OF assms]] by simp

lemma data_frame:
  assumes ok: "transfer_ok span (g_state st)" and wf: "frame_wf f" and h: "handle_data F f st = (r, st')"
    and x: "os_active (g_state st) \<Longrightarrow> \<not> in_range (os_slot_addr (g_state st)) 471040 x"
  shows "byte (bs_flash st') x = byte (bs_flash st) x"
proof (cases "bs_flash st' = bs_flash st")
  case False
  let ?g = "g_state st"
  obtain rs where a: "os_active ?g" "os_written ?g + ucast (fr_len f) \<le> os_xfer_total ?g"
    and p: "fl_program_bytes F (bs_flash st) (data_base ?g + os_written ?g) (fr_data f) = (rs, bs_flash st')"
    using data_step(4) [OF h] False by blast
  note fits = data_fits [OF ok a(1) wf a(2)] and b = transfer_bounds [OF ok a(1)]
  have "\<not> in_range (data_base ?g + os_written ?g) (length (fr_data f)) x"
  proof
    assume "in_range (data_base ?g + os_written ?g) (length (fr_data f)) x"
    then have "in_range (data_base ?g + of_nat (unat (os_written ?g))) (length (fr_data f)) x" by simp
    then have "in_range (data_base ?g) (unat (os_xfer_total ?g)) x"
      by (rule in_range_sub(2)) (use fits(2) b(3) in simp_all)
    then show False using b(4) x [OF a(1)] by blast
  qed
  then show ?thesis by (rule program_frame [OF p data_range [OF ok a(1) wf a(2)]])
qed simp

text \<open>An accepted data frame appends its payload to what was received.\<close>

lemma data_appends:
  assumes ok: "transfer_ok span (g_state st)" and wf: "frame_wf f" and h: "handle_data F f st = (True, st')"
  shows "received (byte (bs_flash st')) (g_state st') = received (byte (bs_flash st)) (g_state st) @ fr_data f"
    and "transfer_ok span (g_state st')" "transfer_of (g_state st') = transfer_of (g_state st)"
    and "os_active (g_state st) \<and> os_active (g_state st')"
proof -
  let ?g = "g_state st" and ?W = "os_written (g_state st)"
  note d = data_step(3) [OF h, simplified]
  have g': "g_state st' = ?g\<lparr> os_written := ?W + ucast (fr_len f), os_expected_seq := os_expected_seq ?g + 1 \<rparr>"
    and a: "os_active ?g" "?W + ucast (fr_len f) \<le> os_xfer_total ?g"
    and p: "fl_program_bytes F (bs_flash st) (data_base ?g + ?W) (fr_data f) = (FLASH_OK, bs_flash st')"
    using d by auto
  note fits = data_fits [OF ok a(1) wf a(2)] and b = transfer_bounds [OF ok a(1)]
  have m: "byte (bs_flash st') = mem_write (byte (bs_flash st)) (data_base ?g + ?W) (fr_data f)"
    by (rule program_ok [OF p data_range [OF ok a(1) wf a(2)]])
  have base: "data_base (g_state st') = data_base ?g" by (simp add: g' data_base_def)
  have w': "os_written (g_state st') = ?W + ucast (fr_len f)" by (simp add: g')
  have front: "mem_bytes (byte (bs_flash st')) (data_base ?g) (unat ?W)
      = mem_bytes (byte (bs_flash st)) (data_base ?g) (unat ?W)"
  proof (rule mem_bytes_cong)
    show "mem_eq_on (data_base ?g) (unat ?W) (byte (bs_flash st')) (byte (bs_flash st))"
      unfolding mem_eq_on_def
    proof (intro allI impI)
      fix x assume x: "in_range (data_base ?g) (unat ?W) x"
      have "\<not> in_range (data_base ?g + ?W) (length (fr_data f)) x"
      proof
        assume "in_range (data_base ?g + ?W) (length (fr_data f)) x"
        then have "in_range (data_base ?g + of_nat (unat ?W)) (length (fr_data f)) x" by simp
        from in_range_sub(1) [OF this, of "unat (os_xfer_total ?g)"] have "unat ?W \<le> unat (x - data_base ?g)"
          using fits(2) b(3) by simp
        then show False using x by (simp add: in_range_def)
      qed
      then show "byte (bs_flash st') x = byte (bs_flash st) x" unfolding m by (rule mem_write_other)
    qed
  qed (use unat_lt_2p32 [of ?W] in simp)
  have tail: "mem_bytes (byte (bs_flash st')) (data_base ?g + ?W) (length (fr_data f)) = fr_data f"
    unfolding m using fits(3) by (intro mem_bytes_write_same) simp
  show "received (byte (bs_flash st')) (g_state st') = received (byte (bs_flash st)) ?g @ fr_data f"
    using front tail w' by (simp add: received_def base fits(1) mem_bytes_append)
  show "transfer_ok span (g_state st')" using ok a by (simp add: transfer_ok_def g')
  show "transfer_of (g_state st') = transfer_of ?g" by (simp add: transfer_of_def g')
  show "os_active ?g \<and> os_active (g_state st')" using a by (simp add: g')
qed

text \<open>A positive answer to an end request: the slot holds a valid image of an allowed version.\<close>

lemma end_ok:
  assumes pk: "length (public_key_sha256 C) = 32" and h: "handle_end C F E st = (Some True, st')"
  shows "os_active (g_state st)" "os_written (g_state st) = os_xfer_total (g_state st)" "g_state st' = g_state st"
    and "image_ok C (byte (bs_flash st')) (os_slot_addr (g_state st))"
    and "boot_config_firmware_allowed (loaded_cfg C (byte (bs_flash st')))
      (fh_version (image_header (byte (bs_flash st')) (os_slot_addr (g_state st))))"
    and "bs_shared st' = (bs_shared st)\<lparr> sb_magic := SHARED_BLOCK_MAGIC, sb_ota_pending := 1, sb_boot_confirmed := 0 \<rparr>"
    and "if os_kind (g_state st) = OTA_KIND_DELTA
      then delta_apply_patch F E (bs_flash st) (os_active_slot_base (g_state st)) (os_slot_addr (g_state st))
        (os_xfer_total (g_state st)) (os_expected_new_total (g_state st)) = (Applied True, bs_flash st')
      else bs_flash st' = bs_flash st"
proof -
  have rd: "fl_read F s a FIRMWARE_HEADER_SIZE = (FLASH_OK, mem_bytes (byte s) a 512)" for s a
    by (simp add: read layout_simps)
  show "os_active (g_state st)" "os_written (g_state st) = os_xfer_total (g_state st)" "g_state st' = g_state st"
    "image_ok C (byte (bs_flash st')) (os_slot_addr (g_state st))"
    "boot_config_firmware_allowed (loaded_cfg C (byte (bs_flash st')))
      (fh_version (image_header (byte (bs_flash st')) (os_slot_addr (g_state st))))"
    "bs_shared st' = (bs_shared st)\<lparr> sb_magic := SHARED_BLOCK_MAGIC, sb_ota_pending := 1, sb_boot_confirmed := 0 \<rparr>"
    "if os_kind (g_state st) = OTA_KIND_DELTA
      then delta_apply_patch F E (bs_flash st) (os_active_slot_base (g_state st)) (os_slot_addr (g_state st))
        (os_xfer_total (g_state st)) (os_expected_new_total (g_state st)) = (Applied True, bs_flash st')
      else bs_flash st' = bs_flash st"
    using h unfolding handle_end_def Let_def rd
    by (auto simp: load_snd [OF pk] image_header_def [symmetric] crypto_verify_firmware_eq [OF flash_device_axioms pk]
        split: if_splits prod.splits delta_outcome.splits bool.splits)
qed

text \<open>Any other answer leaves the request flags and the transfer state as they were.\<close>

lemma end_other:
  assumes "handle_end C F E st = (r, st')"
  shows "g_state st' = g_state st" "r \<noteq> Some True \<Longrightarrow> bs_shared st' = bs_shared st"
    and "bs_flash st' = bs_flash st \<or> (os_active (g_state st) \<and> os_kind (g_state st) = OTA_KIND_DELTA \<and>
      (\<exists>r. delta_apply_patch F E (bs_flash st) (os_active_slot_base (g_state st)) (os_slot_addr (g_state st))
        (os_xfer_total (g_state st)) (os_expected_new_total (g_state st)) = (r, bs_flash st')))"
  using assms by (auto simp: handle_end_def Let_def split: if_splits prod.splits delta_outcome.splits bool.splits)

end

end
