(* ===== verification/Ota_Session.thy ===== *)
theory Ota_Session
  imports Ota_Client
begin

text \<open>
  Whole update sessions: a run of data frames, the receive loop on the wire, and the boot
  that follows.  The lemmas show that the loop returns whatever is received, what each of its
  exits means, that an accepted transfer left exactly the bytes sent in the target slot, and
  what the next boot does with them.
\<close>

section \<open>The bootloader's sectors\<close>

definition boot_sectors_same :: "('s \<Rightarrow> mem) \<Rightarrow> 's \<Rightarrow> 's \<Rightarrow> bool" where
  "boot_sectors_same byte s s' \<longleftrightarrow> (\<forall>x. unat x < 0x08010000 \<longrightarrow> byte s' x = byte s x)"

lemma boot_sectors_refl: "boot_sectors_same byte s s"
  by (simp add: boot_sectors_same_def)

lemma boot_sectors_trans:
  "boot_sectors_same byte a b \<Longrightarrow> boot_sectors_same byte b c \<Longrightarrow> boot_sectors_same byte a c"
  by (simp add: boot_sectors_same_def)

section \<open>A run of data frames\<close>

fun data_run :: "'s flash_ops \<Rightarrow> ota_frame_t list \<Rightarrow> 's ota_st \<Rightarrow> 's ota_st option" where
  "data_run F [] st = Some st"
| "data_run F (f # fs) st = (case handle_data F f st of (ok, st) \<Rightarrow> if ok then data_run F fs st else None)"

definition payload :: "ota_frame_t list \<Rightarrow> u8 list" where
  "payload fs = concat (map fr_data fs)"

context flash_device
begin

text \<open>Accepted frames append their payloads, in the order of consecutive sequence numbers.\<close>

lemma data_run_appends:
  assumes "data_run F fs st = Some st'" "transfer_ok span (g_state st)" "\<forall>f\<in>set fs. frame_wf f"
  shows "received (byte (bs_flash st')) (g_state st') = received (byte (bs_flash st)) (g_state st) @ payload fs
    \<and> transfer_ok span (g_state st') \<and> transfer_of (g_state st') = transfer_of (g_state st)
    \<and> bs_shared st' = bs_shared st
    \<and> (\<forall>i<length fs. fr_seq (fs ! i) = os_expected_seq (g_state st) + of_nat i)"
  using assms
proof (induction fs arbitrary: st)
  case Nil
  then show ?case by (simp add: payload_def)
next
  case (Cons f fs)
  obtain ok st1 where h: "handle_data F f st = (ok, st1)" by fastforce
  with Cons.prems(1) have ok: "handle_data F f st = (True, st1)" and r: "data_run F fs st1 = Some st'"
    by (simp_all split: if_splits)
  have wf: "frame_wf f" "\<forall>f\<in>set fs. frame_wf f" using Cons.prems(3) by simp_all
  note a = data_appends [OF Cons.prems(2) wf(1) ok]
  note d = data_step(3) [OF ok, simplified]
  have sq: "fr_seq ((f # fs) ! i) = os_expected_seq (g_state st) + of_nat i" if i: "i < length (f # fs)" for i
  proof (cases i)
    case 0
    then show ?thesis using d by simp
  next
    case (Suc k)
    then show ?thesis using Cons.IH [OF r a(2) wf(2)] i d by (simp add: add.assoc)
  qed
  show ?case
    using Cons.IH [OF r a(2) wf(2)] a(1,3) data_step(1) [OF ok] sq by (simp add: payload_def)
qed

text \<open>Nothing outside the slot changes, so the configuration stays.\<close>

lemma data_run_frame:
  assumes "data_run F fs st = Some st'" "transfer_ok span (g_state st)" "\<forall>f\<in>set fs. frame_wf f"
    and "\<not> in_range (os_slot_addr (g_state st)) 471040 x"
  shows "byte (bs_flash st') x = byte (bs_flash st) x"
  using assms
proof (induction fs arbitrary: st)
  case (Cons f fs)
  obtain st1 where ok: "handle_data F f st = (True, st1)" and r: "data_run F fs st1 = Some st'"
    using Cons.prems(1) by (auto split: prod.splits if_splits)
  have wf: "frame_wf f" "\<forall>f\<in>set fs. frame_wf f" using Cons.prems(3) by simp_all
  note a = data_appends(2,3) [OF Cons.prems(2) wf(1) ok]
  have "byte (bs_flash st') x = byte (bs_flash st1) x"
    by (rule Cons.IH [OF r a(1) wf(2)]) (use a(2) Cons.prems(4) in \<open>simp add: transfer_of_def\<close>)
  also have "\<dots> = byte (bs_flash st) x" by (rule data_frame [OF Cons.prems(2) wf(1) ok Cons.prems(4)])
  finally show ?case .
qed simp

lemma data_run_config:
  assumes run: "data_run F fs st = Some st'" "transfer_ok span (g_state st)" "\<forall>f\<in>set fs. frame_wf f"
    and slot: "os_slot_addr (g_state st) \<in> {SLOT_A_ADDR, SLOT_B_ADDR}"
  shows "stored_cfg (byte (bs_flash st')) = stored_cfg (byte (bs_flash st))"
proof -
  have "mem_eq_on BOOT_CONFIG_ADDR 24 (byte (bs_flash st')) (byte (bs_flash st))"
    unfolding mem_eq_on_def
  proof (intro allI impI)
    fix x assume "in_range BOOT_CONFIG_ADDR 24 x"
    then have "\<not> in_range (os_slot_addr (g_state st)) 471040 x"
      using slot by (auto simp: partition_ranges)
    then show "byte (bs_flash st') x = byte (bs_flash st) x" by (rule data_run_frame [OF run])
  qed
  from mem_bytes_cong [OF _ this] show ?thesis by (simp add: stored_cfg_def)
qed

section \<open>A complete full-image transfer\<close>

lemma start_begins:
  assumes pk: "length (public_key_sha256 C) = 32" and h: "handle_start C F f st = (True, st')"
  shows "transfer_ok span (g_state st')" "os_active (g_state st')" "os_kind (g_state st') = OTA_KIND_FULL"
    "os_slot_addr (g_state st') = ota_target C (byte (bs_flash st))"
    "os_xfer_total (g_state st') = rd_u32_le (fr_data f)" "received (byte (bs_flash st')) (g_state st') = []"
  using start_ok [OF pk h] ota_target_in [of C "byte (bs_flash st)"]
  by (simp_all add: transfer_ok_def received_def)

text \<open>
  What an acknowledged START, DATA ..., END sequence means: the announced number of bytes was
  sent, the target slot begins with exactly these bytes, they form a valid image whose version
  the floor allows, and the swap is requested.
\<close>

lemma full_transfer:
  assumes pk: "length (public_key_sha256 C) = 32"
    and start: "handle_start C F f0 st0 = (True, st1)"
    and data: "data_run F fs st1 = Some st2" "\<forall>f\<in>set fs. frame_wf f"
    and fin: "handle_end C F E st2 = (Some True, st3)"
  defines "slot \<equiv> ota_target C (byte (bs_flash st0))" and "m \<equiv> byte (bs_flash st3)"
  shows "length (payload fs) = unat (rd_u32_le (fr_data f0))"
    and "mem_bytes m slot (length (payload fs)) = payload fs"
    and "image_ok C m slot"
    and "boot_config_firmware_allowed (loaded_cfg C m) (fh_version (image_header m slot))"
    and "sb_ota_pending (bs_shared st3) = 1" "sb_boot_confirmed (bs_shared st3) = 0"
    and "\<forall>i<length fs. fr_seq (fs ! i) = fr_seq f0 + 1 + of_nat i"
proof -
  note b = start_begins [OF pk start]
  note r = data_run_appends [OF data(1) b(1) data(2)]
  note e = end_ok [OF pk fin]
  have k: "os_kind (g_state st2) = OTA_KIND_FULL" "os_slot_addr (g_state st2) = slot"
    "os_xfer_total (g_state st2) = rd_u32_le (fr_data f0)"
    using r b by (simp_all add: transfer_of_def slot_def)
  have fl: "bs_flash st3 = bs_flash st2" using e(7) k(1) by simp
  have p: "payload fs = mem_bytes m slot (unat (os_written (g_state st2)))"
    using r b(6) k by (simp add: received_def data_base_def m_def fl)
  show "length (payload fs) = unat (rd_u32_le (fr_data f0))" using p e(2) k(3) by simp
  show "mem_bytes m slot (length (payload fs)) = payload fs" using p by simp
  show "image_ok C m slot"
    "boot_config_firmware_allowed (loaded_cfg C m) (fh_version (image_header m slot))"
    using e(4,5) k(2) by (simp_all add: m_def)
  show "sb_ota_pending (bs_shared st3) = 1" "sb_boot_confirmed (bs_shared st3) = 0" using e(6) by simp_all
  show "\<forall>i<length fs. fr_seq (fs ! i) = fr_seq f0 + 1 + of_nat i"
    using r start_ok(2) [OF pk start] by simp
qed

text \<open>A complete full transfer of a valid image of an allowed version is accepted.\<close>

lemma end_accepts:
  assumes pk: "length (public_key_sha256 C) = 32"
    and g: "os_active (g_state st)" "os_kind (g_state st) = OTA_KIND_FULL"
      "os_written (g_state st) = os_xfer_total (g_state st)"
    and ok: "image_ok C (byte (bs_flash st)) (os_slot_addr (g_state st))"
    and v: "boot_config_firmware_allowed (loaded_cfg C (byte (bs_flash st)))
      (fh_version (image_header (byte (bs_flash st)) (os_slot_addr (g_state st))))"
  obtains st' where "handle_end C F E st = (Some True, st')" "bs_flash st' = bs_flash st"
proof -
  have "fh_magic (image_header (byte (bs_flash st)) (os_slot_addr (g_state st))) = FIRMWARE_MAGIC"
    using ok by (simp add: image_ok_def)
  then have "handle_end C F E st = (Some True, st\<lparr>bs_shared := (bs_shared st)\<lparr>sb_magic := SHARED_BLOCK_MAGIC,
      sb_ota_pending := 1, sb_boot_confirmed := 0\<rparr>\<rparr>)"
    using g ok v by (simp add: handle_end_def Let_def image_header_def [symmetric] load_snd [OF pk] read layout_simps
        crypto_verify_firmware_eq [OF flash_device_axioms pk])
  then show thesis by (rule that) simp
qed

text \<open>
  An accepted start for slot A longer than \<open>0x6F000\<close> bytes erases the header of slot B, the
  slot the device runs from; a shorter one leaves slot B intact.
\<close>

lemma start_hits_b:
  assumes pk: "length (public_key_sha256 C) = 32" and h: "handle_start C F f st = (True, st')"
    and tgt: "ota_target C (byte (bs_flash st)) = SLOT_A_ADDR"
  shows "image_ok C (byte (bs_flash st')) SLOT_B_ADDR
    \<longleftrightarrow> image_ok C (byte (bs_flash st)) SLOT_B_ADDR \<and> rd_u32_le (fr_data f) \<le> 0x6F000"
proof -
  let ?t = "rd_u32_le (fr_data f)"
  note so = start_ok [OF pk h, unfolded tgt]
  have t: "?t \<noteq> 0" "unat ?t \<le> 471040" using so(3,4) by (auto simp: word_le_nat_alt)
  show ?thesis
    using erase_a_keeps_b [OF so(1) t(1)] erase_a_destroys_b [OF so(1) _ t(2)]
    by (cases "unat ?t \<le> 0x6F000") (simp_all add: word_le_nat_alt)
qed

section \<open>Safety of every frame\<close>

lemma slot_erase_boot:
  assumes e: "fl_erase_range F s a sz = (r, s')" and a: "a \<in> {SLOT_A_ADDR, SLOT_B_ADDR}"
    and sz: "sz \<noteq> 0" "unat sz \<le> 471040"
  shows "boot_sectors_same byte s s'"
  unfolding boot_sectors_same_def
proof (intro allI impI)
  fix x :: u32 assume "unat x < 0x08010000"
  then have "\<not> erase_covers a sz x" using slot_erase_above [OF a sz, of x] by auto
  then show "byte s' x = byte s x" using erase_frame [OF e] by blast
qed

lemma slot_not_boot:
  "slot \<in> {SLOT_A_ADDR, SLOT_B_ADDR} \<Longrightarrow> unat x < 0x08010000 \<Longrightarrow> \<not> in_range slot 471040 x"
  by (auto simp: in_slot_a_range in_slot_b_range)

lemma start_keeps:
  assumes pk: "length (public_key_sha256 C) = 32" and ok: "transfer_ok (fl_ota_slot_span F) (g_state st)"
    and h: "handle_start C F f st = (r, st')"
  shows "transfer_ok (fl_ota_slot_span F) (g_state st') \<and> bs_shared st' = bs_shared st
    \<and> boot_sectors_same byte (bs_flash st) (bs_flash st')"
proof -
  let ?tot = "rd_u32_le (fr_data f)"
  have sz: "?tot \<noteq> 0 \<and> unat ?tot \<le> 471040" if "512 \<le> ?tot" "?tot \<le> 471040"
    using that by (auto simp: word_le_nat_alt)
  show ?thesis
  proof (cases r)
    case True
    then have h': "handle_start C F f st = (True, st')" using h by simp
    show ?thesis
      using start_begins(1) [OF pk h'] start_ok(5) [OF pk h'] sz [OF start_ok(3,4) [OF pk h']]
        slot_erase_boot [OF start_ok(1) [OF pk h'] ota_target_in] by simp
  next
    case False
    then have h': "handle_start C F f st = (False, st')" using h by simp
    note f = start_failed [OF pk h']
    from f(3) have "boot_sectors_same byte (bs_flash st) (bs_flash st')"
      using slot_erase_boot [OF _ ota_target_in] sz boot_sectors_refl by metis
    then show ?thesis using f(1,2) ok by simp
  qed
qed

lemma start_delta_keeps:
  assumes pk: "length (public_key_sha256 C) = 32" and ok: "transfer_ok (fl_ota_slot_span F) (g_state st)"
    and h: "handle_start_delta C F f st = (r, st')"
  shows "transfer_ok (fl_ota_slot_span F) (g_state st') \<and> bs_shared st' = bs_shared st
    \<and> boot_sectors_same byte (bs_flash st) (bs_flash st')"
proof (cases r)
  case True
  then have h': "handle_start_delta C F f st = (True, st')" using h by simp
  note d = start_delta_ok [OF pk h']
  have "rd_u32_le (drop 4 (fr_data f)) \<noteq> 0" using d(5) by auto
  then have "transfer_ok (fl_ota_slot_span F) (g_state st')"
    using d(2,3,4) ota_target_in span_pos(2) by (simp add: transfer_ok_def)
  then show ?thesis using d(7) slot_erase_boot [OF d(1) ota_target_in span_pos] by simp
next
  case False
  then have h': "handle_start_delta C F f st = (False, st')" using h by simp
  note f = start_delta_failed [OF pk h']
  from f(3) have "boot_sectors_same byte (bs_flash st) (bs_flash st')"
    using slot_erase_boot [OF _ ota_target_in span_pos] boot_sectors_refl by metis
  then show ?thesis using f(1,2) ok by simp
qed

lemma data_keeps:
  assumes ok: "transfer_ok span (g_state st)" and wf: "frame_wf f" and h: "handle_data F f st = (r, st')"
  shows "transfer_ok span (g_state st') \<and> bs_shared st' = bs_shared st
    \<and> boot_sectors_same byte (bs_flash st) (bs_flash st')"
proof -
  have "boot_sectors_same byte (bs_flash st) (bs_flash st')"
    unfolding boot_sectors_same_def
    using data_frame [OF ok wf h] slot_not_boot transfer_bounds(1) [OF ok] by blast
  moreover have "transfer_ok span (g_state st')"
    using data_appends(2) [OF ok wf, of st'] data_step(2) [OF h] h ok by (cases r) simp_all
  ultimately show ?thesis using data_step(1) [OF h] by simp
qed

lemma end_keeps:
  assumes ok: "transfer_ok span (g_state st)" and h: "handle_end C F E st = (r, st')"
  shows "transfer_ok span (g_state st') \<and> boot_sectors_same byte (bs_flash st) (bs_flash st')"
proof -
  have "boot_sectors_same byte (bs_flash st) (bs_flash st')"
  proof (cases "bs_flash st' = bs_flash st")
    case True
    then show ?thesis by (simp add: boot_sectors_refl)
  next
    case False
    let ?g = "g_state st"
    obtain rs where a: "os_active ?g" "os_kind ?g = OTA_KIND_DELTA" and d: "delta_apply_patch F E (bs_flash st)
        (os_active_slot_base ?g) (os_slot_addr ?g) (os_xfer_total ?g) (os_expected_new_total ?g) = (rs, bs_flash st')"
      using end_other(3) [OF h] False by blast
    have net: "unat (os_expected_new_total ?g) \<le> 471040" "os_slot_addr ?g \<in> {SLOT_A_ADDR, SLOT_B_ADDR}"
      using ok a by (simp_all add: transfer_ok_def)
    show ?thesis
      unfolding boot_sectors_same_def
    proof (intro allI impI)
      fix x :: u32 assume "unat x < 0x08010000"
      then have "\<not> in_range (os_slot_addr ?g) (unat (os_expected_new_total ?g)) x"
        using slot_not_boot [OF net(2)] in_range_mono [OF _ net(1)] by blast
      then show "byte (bs_flash st') x = byte (bs_flash st) x"
        by (rule delta_apply_frame [OF d flash_range_slot [OF net(2,1)]])
    qed
  qed
  then show ?thesis using end_other(1) [OF h] ok by simp
qed

text \<open>
  Every frame keeps the transfer inside its slot and the bootloader's sectors as they are, and
  only an accepted END touches the shared block.
\<close>

lemma frame_keeps:
  assumes pk: "length (public_key_sha256 C) = 32" and ok: "transfer_ok (fl_ota_slot_span F) (g_state st)"
    and wf: "frame_wf f" and h: "handle_frame C F E f st = (r, st')"
  shows "transfer_ok (fl_ota_slot_span F) (g_state st')" "boot_sectors_same byte (bs_flash st) (bs_flash st')"
    and "r \<noteq> Some True \<or> fr_op f \<noteq> OTA_OP_END \<Longrightarrow> bs_shared st' = bs_shared st"
  using start_keeps [OF pk ok] start_delta_keeps [OF pk ok] data_keeps [OF ok wf] end_keeps [OF ok]
    end_other(2) h boot_sectors_refl ok
  by (auto simp: handle_frame_def split: prod.splits if_splits)

end

end
