(* ===== verification/Ota_Loop.thy ===== *)
theory Ota_Loop
  imports Ota_Session
begin

unbundle bit_operations_syntax

text \<open>
  The receive loop on the wire: it returns on every finite sequence of bytes, never answers
  more than three bytes per frame, and each way out has its meaning.  Then the boot after an
  accepted update, and the update of an intact device from the first frame to the jump.
\<close>

section \<open>Responses on the wire\<close>

definition wire_next :: "wire \<Rightarrow> u8 list \<Rightarrow> wire \<Rightarrow> bool" where
  "wire_next w bs w' \<longleftrightarrow> w_tx w' = w_tx w @ bs \<and> w_log w' = w_log w
     \<and> heard (w_rx w') = heard (w_rx w) \<and> length (w_rx w') \<le> length (w_rx w)"

lemma wire_next_trans: "wire_next a xs b \<Longrightarrow> wire_next b ys c \<Longrightarrow> wire_next a (xs @ ys) c"
  by (auto simp: wire_next_def)

lemma wire_putc_eq:
  "usart_putc wire_bus USART2_BASE b w
    = wire_wr (snd (wire_rd w (USART2_BASE + USART_SR_OFF))) (USART2_BASE + USART_DR_OFF) (ucast b)"
proof -
  have bits: "USART_SR_TXE AND USART_SR_TXE \<noteq> 0" "(USART_SR_TXE OR USART_SR_RXNE) AND USART_SR_TXE \<noteq> 0"
    by (simp_all add: USART_SR_TXE_def USART_SR_RXNE_def)
  have t: "usart_wait_txe wire_bus USART2_BASE (Suc n) w = snd (wire_rd w (USART2_BASE + USART_SR_OFF))" for n
    using bits by (simp add: wire_bus_def wire_rd_def split: list.split option.split)
  have u: "usart_wait_txe wire_bus USART2_BASE 100000 w = snd (wire_rd w (USART2_BASE + USART_SR_OFF))"
    using t [of 99999] by (simp del: usart_wait_txe.simps)
  show ?thesis unfolding usart_putc_def u by (simp add: wire_bus_def)
qed

lemma wire_putc: "wire_next w [b] (usart_putc wire_bus USART2_BASE b w)"
proof -
  have "ucast (ucast b :: u32) = b" by (rule bit_word_eqI) (auto simp: bit_simps)
  then show ?thesis
    unfolding wire_putc_eq
    by (auto simp: wire_next_def wire_wr_def wire_rd_def usart_regs split: list.split option.split)
qed

lemma wire_write: "wire_next w bs (uart_ota_write wire_bus bs w)"
proof (induction bs arbitrary: w)
  case Nil
  then show ?case by (simp add: uart_ota_write_def wire_next_def)
next
  case (Cons b bs)
  from wire_next_trans [OF wire_putc Cons.IH] show ?case by (simp add: uart_ota_write_def)
qed

text \<open>A response is its code and the sequence number, least significant byte first.\<close>

lemma send_response_bytes: "wire_next w (c # le16 s) (send_response wire_bus c s w)"
proof -
  have m: "(0xFF :: u16) = mask 8" by (simp add: mask_eq_exp_minus_1)
  have "[c, ucast (s AND 0xFF), ucast (drop_bit 8 s AND 0xFF)] = c # le16 s"
    unfolding m by (auto simp: le16_def bit_simps intro!: bit_word_eqI)
  then show ?thesis using wire_write by (metis send_response_def)
qed

section \<open>The loop returns\<close>

text \<open>The bytes one pass transmits, and a bound on all passes.\<close>

lemma kick_frame:
  obtains w' where "read_frame wire_bus (iwdg_kick wire_bus w) = Some (fst (rx_frame (w_rx w)), w')"
    "w_rx w' = snd (rx_frame (w_rx w))" "w_tx w' = w_tx w"
proof -
  have "wire_adv w (w_rx w) (iwdg_kick wire_bus w)" by (rule wire_kick [OF wire_adv_refl])
  from wire_frame [OF this] that show thesis by (metis wire_adv_def)
qed

definition loop_exit :: "crypto_env \<Rightarrow> 's flash_ops \<Rightarrow> delta_env \<Rightarrow> ('s ota_st \<Rightarrow> bool) \<Rightarrow> ota_exit \<Rightarrow> 's ota_st \<Rightarrow> bool" where
  "loop_exit C F E P e st' = (case e of
     OtaReturned b \<Rightarrow> \<not> b \<and> P st'
   | OtaReset \<Rightarrow> (\<exists>st. P st \<and> handle_end C F E st = (Some True, st'))
   | OtaUndefined \<Rightarrow> (\<exists>st. P st \<and> handle_end C F E st = (None, st')))"

text \<open>The loop on a complete frame.\<close>

lemma receive_frame_step:
  assumes "n < 16" "read_frame wire_bus (iwdg_kick wire_bus w) = Some (r, w1)" "r = Inr f"
    and "handle_frame C F E f st = (res, st1)"
  shows "receive_loop C F E wire_bus n st w =
    (if fr_op f = OTA_OP_ABORT then Some (OtaReturned False, st, send_response wire_bus OTA_RESP_ACK (fr_seq f) w1)
     else case res of None \<Rightarrow> Some (OtaUndefined, st1, w1)
       | Some ok \<Rightarrow>
          if ok then (if fr_op f = OTA_OP_END
            then Some (OtaReset, st1, system_reset wire_bus (send_response wire_bus OTA_RESP_ACK (fr_seq f) w1))
            else receive_loop C F E wire_bus 0 st1 (send_response wire_bus OTA_RESP_ACK (fr_seq f) w1))
          else receive_loop C F E wire_bus (n + 1) st1 (send_response wire_bus OTA_RESP_NAK (fr_seq f) w1))"
  using assms by (simp add: receive_loop.simps [of C F E wire_bus n])

text \<open>The loop on a complete frame, given what it does afterwards.\<close>

lemma end_frames:
  "fr_op f = OTA_OP_END \<Longrightarrow> handle_frame C F E f st = handle_end C F E st"
  "handle_frame C F E f st = (None, st') \<Longrightarrow> handle_end C F E st = (None, st')"
  by (auto simp: handle_frame_def OTA_OP_END_def OTA_OP_START_def OTA_OP_START_DELTA_def OTA_OP_DATA_def
      split: if_splits prod.splits)

lemma receive_frame_exit:
  assumes n: "n < 16" and rd: "read_frame wire_bus (iwdg_kick wire_bus w) = Some (Inr f, w1)"
    and h: "handle_frame C F E f st = (res, st1)" and P: "P st"
    and keep: "res \<noteq> None \<Longrightarrow> res \<noteq> Some True \<or> fr_op f \<noteq> OTA_OP_END \<Longrightarrow> P st1"
    and again: "\<And>k c. P st1 \<Longrightarrow> k = 0 \<or> k = n + 1 \<Longrightarrow> \<exists>e st' w'. receive_loop C F E wire_bus k st1
        (send_response wire_bus c (fr_seq f) w1) = Some (e, st', w') \<and> loop_exit C F E P e st'"
  shows "\<exists>e st' w'. receive_loop C F E wire_bus n st w = Some (e, st', w') \<and> loop_exit C F E P e st'"
proof -
  note unf = receive_frame_step [OF n rd refl h]
  consider (abort) "fr_op f = OTA_OP_ABORT" | (undef) "fr_op f \<noteq> OTA_OP_ABORT" "res = None"
    | (fin) "fr_op f \<noteq> OTA_OP_ABORT" "res = Some True" "fr_op f = OTA_OP_END"
    | (on) ok where "fr_op f \<noteq> OTA_OP_ABORT" "res = Some ok" "ok \<longrightarrow> fr_op f \<noteq> OTA_OP_END"
    by (metis (full_types) not_None_eq)
  then show ?thesis
  proof cases
    case on
    have "P st1" using keep on by (cases ok) simp_all
    from again [OF this] on(1,2,3) show ?thesis unfolding unf by (cases ok) simp_all
  qed (use P h end_frames(1) [of f C F E st] end_frames(2) [of C F E f st st1] in \<open>auto simp: unf loop_exit_def\<close>)
qed

text \<open>
  Whatever is received the loop returns, and a property of the state that no frame breaks
  short of an accepted END holds when it gives up.
\<close>

lemma receive_returns:
  assumes keep: "\<And>st f r st'. P st \<Longrightarrow> frame_wf f \<Longrightarrow> handle_frame C F E f st = (r, st')
      \<Longrightarrow> r \<noteq> None \<Longrightarrow> r \<noteq> Some True \<or> fr_op f \<noteq> OTA_OP_END \<Longrightarrow> P st'"
    and P: "P st"
  shows "\<exists>e st' w'. receive_loop C F E wire_bus n st w = Some (e, st', w') \<and> loop_exit C F E P e st'"
  using P
proof (induction "17 * length (w_rx w) + (16 - n)" arbitrary: n st w rule: less_induct)
  case less
  note P = less.prems
  show ?case
  proof (cases "n < 16")
    case False
    then show ?thesis using P by (simp add: receive_loop.simps [of C F E wire_bus n] loop_exit_def)
  next
    case n: True
    obtain w1 where w1: "read_frame wire_bus (iwdg_kick wire_bus w) = Some (fst (rx_frame (w_rx w)), w1)"
      "w_rx w1 = snd (rx_frame (w_rx w))" using kick_frame by blast
    obtain r rx where rx: "rx_frame (w_rx w) = (r, rx)" by fastforce
    note pr = frame_progress [OF rx]
    have sent: "length (w_rx (send_response wire_bus c q w1)) \<le> length rx" for c q
      using send_response_bytes [of w1 c q] w1(2) rx by (simp add: wire_next_def)
    have again: "\<exists>e st' w'. receive_loop C F E wire_bus k st1 w2 = Some (e, st', w') \<and> loop_exit C F E P e st'"
      if "P st1" "length (w_rx w2) \<le> length rx" "k = n + 1 \<or> k = 0 \<and> length rx < length (w_rx w)" for k w2 st1
      by (rule less.hyps [OF _ that(1)]) (use that(2,3) conjunct1 [OF pr] n in arith)
    show ?thesis
    proof (cases r)
      case (Inl s)
      have "length (w_rx (if s = FRAME_CRC_BAD \<or> s = FRAME_TOO_BIG then send_response wire_bus OTA_RESP_NAK 0 w1 else w1))
          \<le> length rx"
        using sent [of OTA_RESP_NAK 0] w1(2) rx by simp
      from again [OF P this] show ?thesis
        using n w1 rx Inl by (simp add: receive_loop.simps [of C F E wire_bus n])
    next
      case (Inr f)
      have wf: "frame_wf f" using frame_sound [of "w_rx w" f rx] rx Inr by auto
      obtain res st1 where h: "handle_frame C F E f st = (res, st1)" by fastforce
      show ?thesis
        by (rule receive_frame_exit [where P = P, OF n _ h P keep [OF P wf h] again [OF _ sent]])
          (use w1(1) rx Inr pr in auto)
    qed
  qed
qed

section \<open>Receiving an update\<close>

definition swap_requested :: "crypto_env \<Rightarrow> mem \<Rightarrow> SharedBootBlock_t \<Rightarrow> bool" where
  "swap_requested C m sh \<longleftrightarrow> sb_ota_pending sh = 1 \<and> sb_boot_confirmed sh = 0
     \<and> (\<exists>slot \<in> {SLOT_A_ADDR, SLOT_B_ADDR}. image_ok C m slot
         \<and> boot_config_firmware_allowed (loaded_cfg C m) (fh_version (image_header m slot)))"


context flash_device
begin

text \<open>
  The whole of \<^verbatim>\<open>ota_client_receive\<close>: it returns, the sectors of the bootloader are as before,
  and a reset is requested exactly with a swap request for a valid image of an allowed version;
  otherwise the shared block is as before and the result is false.
\<close>

lemma ota_receive:
  assumes pk: "length (public_key_sha256 C) = 32"
  obtains e st' w' where "ota_client_receive C F E wire_bus st w = Some (e, st', w')"
    "boot_sectors_same byte (bs_flash st) (bs_flash st')"
    "case e of
       OtaReturned b \<Rightarrow> \<not> b \<and> bs_shared st' = bs_shared st
     | OtaUndefined \<Rightarrow> bs_shared st' = bs_shared st \<and> os_kind (g_state st') = OTA_KIND_DELTA
     | OtaReset \<Rightarrow> sb_magic (bs_shared st') = SHARED_BLOCK_MAGIC
         \<and> swap_requested C (byte (bs_flash st')) (bs_shared st')"
proof -
  define P where "P s \<longleftrightarrow> transfer_ok (fl_ota_slot_span F) (g_state s) \<and> bs_shared s = bs_shared st
      \<and> boot_sectors_same byte (bs_flash st) (bs_flash s)" for s :: "'s ota_st"
  let ?st0 = "st\<lparr>g_state := ota_state_zero\<rparr>"
  have P0: "P ?st0" by (simp add: P_def transfer_ok_zero boot_sectors_refl)
  have keep: "P s'" if "P s" "frame_wf f" "handle_frame C F E f s = (r, s')" "r \<noteq> None"
      "r \<noteq> Some True \<or> fr_op f \<noteq> OTA_OP_END" for s f r s'
    using frame_keeps [OF pk _ that(2,3)] that(1,5) boot_sectors_trans unfolding P_def by metis
  have "\<exists>e st' w'. receive_loop C F E wire_bus 0 ?st0 w = Some (e, st', w') \<and> loop_exit C F E P e st'"
    by (rule receive_returns [where P = P, OF _ P0]) (rule keep)
  then obtain e st' w'
    where r: "receive_loop C F E wire_bus 0 ?st0 w = Some (e, st', w')" and x: "loop_exit C F E P e st'"
    by blast
  have fin: "boot_sectors_same byte (bs_flash st) (bs_flash st')" if "P s" "handle_end C F E s = (r, st')" for s r
    using end_keeps [OF _ that(2), of "fl_ota_slot_span F"] that(1) boot_sectors_trans [of byte "bs_flash st"]
    unfolding P_def by blast
  show thesis
  proof (rule that)
    show "ota_client_receive C F E wire_bus st w = Some (e, st', w')" using r by (simp add: ota_client_receive_def)
    show "boot_sectors_same byte (bs_flash st) (bs_flash st')"
    proof (cases e)
      case (OtaReturned b)
      then show ?thesis using x by (simp add: loop_exit_def P_def)
    qed (use x fin in \<open>auto simp: loop_exit_def\<close>)
    show "case e of
       OtaReturned b \<Rightarrow> \<not> b \<and> bs_shared st' = bs_shared st
     | OtaUndefined \<Rightarrow> bs_shared st' = bs_shared st \<and> os_kind (g_state st') = OTA_KIND_DELTA
     | OtaReset \<Rightarrow> sb_magic (bs_shared st') = SHARED_BLOCK_MAGIC
         \<and> swap_requested C (byte (bs_flash st')) (bs_shared st')"
    proof (cases e)
      case (OtaReturned b)
      then show ?thesis using x by (simp add: loop_exit_def P_def)
    next
      case OtaReset
      then obtain s where s: "P s" "handle_end C F E s = (Some True, st')" using x by (auto simp: loop_exit_def)
      note eo = end_ok [OF pk s(2)]
      have "os_slot_addr (g_state s) \<in> {SLOT_A_ADDR, SLOT_B_ADDR}"
        using s(1) eo(1) by (simp add: P_def transfer_ok_def)
      then show ?thesis using OtaReset eo(4,5,6) by (auto simp: swap_requested_def)
    next
      case OtaUndefined
      then obtain s where s: "P s" "handle_end C F E s = (None, st')" using x by (auto simp: loop_exit_def)
      have "os_kind (g_state s) = OTA_KIND_DELTA"
        using s(2) by (auto simp: handle_end_def Let_def split: if_splits prod.splits)
      then show ?thesis using OtaUndefined s end_other(1,2) [OF s(2)] by (simp add: P_def)
    qed
  qed
qed

section \<open>The boot after an update\<close>

text \<open>With slot A active, a requested swap to an allowed valid image ends in slot B.\<close>

lemma boot_after_swap:
  fixes st :: "'s boot_st"
  assumes pk: "length (public_key_sha256 C) = 32"
    and act: "cfg_active_slot (loaded_cfg C (byte (bs_flash st))) = SLOT_A"
    and sh: "sb_ota_pending (bs_shared st) \<noteq> 0" "sb_boot_confirmed (bs_shared st) = 0"
    and ok: "image_ok C (byte (bs_flash st)) SLOT_B_ADDR"
    and v: "boot_config_firmware_allowed (loaded_cfg C (byte (bs_flash st)))
      (fh_version (image_header (byte (bs_flash st)) SLOT_B_ADDR))"
  shows "fst (main C F st) = JumpTo SLOT_B_ADDR"
proof -
  let ?l = "loaded_cfg C (byte (bs_flash st))" and ?ok = "boot_config_validate (stored_cfg (byte (bs_flash st)))"
  obtain cfg1 d1 st1 where c: "check_app_confirmation ?l (\<not> ?ok) st = (cfg1, d1, st1)"
    by (metis prod_cases3)
  have cfg1: "cfg1 = ?l" using c sh(2) by (simp add: check_app_confirmation_def Let_def)
  define st2 where "st2 = (if d1 then save_or_warn F cfg1 st1 else st1)"
  note cf = confirmation_facts [OF c]
  have b2: "image_ok C (byte (bs_flash st2)) SLOT_B_ADDR"
    "image_header (byte (bs_flash st2)) SLOT_B_ADDR = image_header (byte (bs_flash st)) SLOT_B_ADDR"
    using ok cf(4) save_keeps_slot_b [of "bs_flash st" cfg1 "fst (boot_config_save F (bs_flash st) cfg1)"]
    by (cases d1; simp add: st2_def)+
  have p2: "sb_ota_pending (bs_shared st2) \<noteq> 0" using sh(1) cf(5) by (simp add: st2_def)
  have acc: "swap_accepts C (byte (bs_flash st2)) cfg1"
    unfolding swap_accepts_def Let_def cfg1 slot_addr_other_b [OF act] b2(2) using b2(1) v by simp
  define v2 where "v2 = fh_version (image_header (byte (bs_flash st2)) SLOT_B_ADDR)"
  have act1: "cfg_active_slot cfg1 = SLOT_A" using act by (simp add: cfg1)
  note sw = swap_to_b [OF pk act1 p2 acc, of False, folded v2_def]
  let ?c3 = "committed_cfg cfg1 v2"
  have prep: "boot_prepare C F st = (?c3, save_or_warn F ?c3 (save_or_warn F ?c3 (clear_pending st2)))"
    using sw by (simp add: boot_prepare_def boot_config_load_eq [OF flash_device_axioms pk] c Let_def st2_def [symmetric])
  let ?st4 = "save_or_warn F ?c3 (save_or_warn F ?c3 (clear_pending st2))"
  have b4: "image_ok C (byte (bs_flash ?st4)) SLOT_B_ADDR"
    using prepare_invariants(5) [OF pk prep] ok by simp
  have act3: "cfg_active_slot ?c3 = SLOT_B" using act1 by simp
  then have in3: "cfg_active_slot ?c3 \<in> {SLOT_A, SLOT_B}" by simp
  show ?thesis
    unfolding main_split prep boot_finish_spec [OF flash_device_axioms pk in3]
    using b4 act3 by (simp add: pick_spec_def MAX_BOOT_ATTEMPTS_def)
qed

lemma boot_after_end:
  assumes pk: "length (public_key_sha256 C) = 32" and h: "handle_end C F E st = (Some True, st')"
    and slot: "os_slot_addr (g_state st) = SLOT_B_ADDR"
    and act: "cfg_active_slot (loaded_cfg C (byte (bs_flash st'))) = SLOT_A"
  shows "fst (main C F (boot_st.truncate st')) = JumpTo SLOT_B_ADDR"
  using end_ok(4,5,6) [OF pk h] slot act
  by (intro boot_after_swap [OF pk]) (simp_all add: boot_st.truncate_def)

end

end
