(* ===== verification/Ota_Update.thy ===== *)
theory Ota_Update
  imports Ota_Loop
begin

text \<open>
  Updates from the first frame to the jump, on a device without faults.  Into slot B an
  update of an intact device goes through and the next boot runs it.  Into slot A none does:
  the start request erases the configuration, so the next boot saves a reconstructed one, and
  that save erases the header just written.
\<close>

section \<open>Images as byte strings\<close>

text \<open>
  \<open>good_image C img\<close>: stored in slot B the bytes are a valid image that ends where they end.
\<close>

definition image_in_b :: "u8 list \<Rightarrow> mem" where
  "image_in_b img = mem_write (\<lambda>x. 0xFF) SLOT_B_ADDR img"

definition good_image :: "crypto_env \<Rightarrow> u8 list \<Rightarrow> bool" where
  "good_image C img \<longleftrightarrow> image_ok C (image_in_b img) SLOT_B_ADDR
     \<and> length img = 512 + unat (fh_image_size (image_header (image_in_b img) SLOT_B_ADDR))"

lemma mem_bytes_eq_on:
  assumes "mem_bytes m a n = mem_bytes m' a n"
  shows "mem_eq_on a n m m'"
  unfolding mem_eq_on_def
proof (intro allI impI)
  fix x assume "in_range a n x"
  then have lt: "unat (x - a) < n" by (simp add: in_range_def)
  have "m (a + of_nat (unat (x - a))) = m' (a + of_nat (unat (x - a)))"
    using arg_cong [OF assms, of "\<lambda>l. l ! unat (x - a)"] lt by simp
  then show "m x = m' x" by simp
qed

lemma good_image_size:
  assumes "good_image C img"
  shows "512 < length img" "length img \<le> 471040"
  using assms by (auto simp: good_image_def image_ok_def word_le_nat_alt word_gt_0 unat_gt_0 layout_simps)

lemma good_image_stored:
  assumes good: "good_image C img" and m: "mem_bytes m SLOT_B_ADDR (length img) = img"
  shows "image_ok C m SLOT_B_ADDR"
    and "image_header m SLOT_B_ADDR = image_header (image_in_b img) SLOT_B_ADDR"
proof -
  have len: "length img \<le> 471040" by (rule good_image_size(2) [OF good])
  have "mem_bytes (image_in_b img) SLOT_B_ADDR (length img) = img"
    unfolding image_in_b_def using len by (intro mem_bytes_write_same) simp
  then have eq: "mem_eq_on SLOT_B_ADDR (length img) (image_in_b img) m"
    using m by (intro mem_bytes_eq_on) simp
  show "image_ok C m SLOT_B_ADDR"
    by (rule image_ok_extent [OF _ _ len eq]) (use good in \<open>simp_all add: good_image_def\<close>)
  have "mem_eq_on SLOT_B_ADDR 512 (image_in_b img) m"
    using mem_eq_on_sub [OF eq, of 0 512] good_image_size [OF good] by simp
  from image_header_cong [OF this] show "image_header m SLOT_B_ADDR = image_header (image_in_b img) SLOT_B_ADDR"
    by simp
qed

text \<open>The data frames a host cuts an image into.\<close>

definition frames_of :: "u16 \<Rightarrow> u8 list \<Rightarrow> ota_frame_t list \<Rightarrow> bool" where
  "frames_of q img fs \<longleftrightarrow> payload fs = img
     \<and> (\<forall>f\<in>set fs. frame_wf f \<and> fr_len f \<noteq> 0) \<and> (\<forall>i<length fs. fr_seq (fs ! i) = q + of_nat i)"

text \<open>
  Between two data frames of a full transfer: the device is good, what is still to be written
  is erased, and it starts at a multiple of the programming unit.
\<close>

definition ready :: "('s \<Rightarrow> mem) \<Rightarrow> ('s \<Rightarrow> bool) \<Rightarrow> nat \<Rightarrow> 's ota_st \<Rightarrow> bool" where
  "ready byte good gran st \<longleftrightarrow> good (bs_flash st) \<and> gran dvd unat (os_written (g_state st))
     \<and> erased (byte (bs_flash st)) (os_slot_addr (g_state st) + os_written (g_state st))
         (unat (os_xfer_total (g_state st)) - unat (os_written (g_state st)))"

section \<open>Into slot B\<close>

context reliable_flash
begin

lemma slot_writable:
  assumes "a \<in> {SLOT_A_ADDR, SLOT_B_ADDR}" "i < unat (fl_ota_slot_span F)"
  shows "writable (a + of_nat i)"
  using slot_window [OF assms(1) span_pos(2) assms(2)] writable_regions by blast

lemma start_accepted:
  fixes st :: "'s ota_st"
  assumes pk: "length (public_key_sha256 C) = 32" and g: "good (bs_flash st)" and len: "4 \<le> fr_len f"
    and tot: "512 \<le> rd_u32_le (fr_data f)" "rd_u32_le (fr_data f) \<le> 471040"
  obtains st' where "handle_start C F f st = (True, st')"
proof -
  let ?a = "ota_target C (byte (bs_flash st))" and ?t = "rd_u32_le (fr_data f)"
  have "FLASH_BASE_ADDR \<le> ?a \<and> unat ?a + unat ?t \<le> 0x08100000"
    using ota_target_in [of C "byte (bs_flash st)"] tot(2)
    by (auto simp: layout_simps word_le_nat_alt)
  then obtain fl where "fl_erase_range F (bs_flash st) ?a ?t = (FLASH_OK, fl)"
    using erase_effect [OF g] by metis
  then have "\<exists>st'. handle_start C F f st = (True, st')"
    using len tot by (simp add: handle_start_def Let_def load_snd [OF pk] ota_target_def layout_simps not_less)
  then show thesis using that by blast
qed

lemma start_ready:
  fixes st :: "'s ota_st"
  assumes pk: "length (public_key_sha256 C) = 32" and g: "good (bs_flash st)"
    and h: "handle_start C F f st = (True, st')" and fits: "rd_u32_le (fr_data f) \<le> fl_ota_slot_span F"
  shows "ready byte good gran st'"
proof -
  let ?a = "ota_target C (byte (bs_flash st))" and ?t = "rd_u32_le (fr_data f)"
  note so = start_ok [OF pk h]
  have t: "?t \<noteq> 0" "unat ?t \<le> 471040" "unat ?t \<le> unat (fl_ota_slot_span F)"
    using so(3,4) fits by (auto simp: word_le_nat_alt)
  have "byte (bs_flash st') (?a + of_nat i) = 0xFF" if i: "i < unat ?t" for i
  proof (rule erase_ok [OF so(1)])
    show "erase_covers ?a ?t (?a + of_nat i)"
      by (rule slot_erase_covers [OF ota_target_in t(1,2)]) (use i t(2) in \<open>simp add: in_range_offset\<close>)
    show "writable (?a + of_nat i)" by (rule slot_writable [OF ota_target_in]) (use i t(3) in simp)
  qed
  then show ?thesis
    using erase_good [OF g, of ?a ?t] so(1,2) by (simp add: ready_def erased_def)
qed

text \<open>A frame of whole programming units that fits is stored, and leaves the device ready.\<close>

lemma data_accepted:
  fixes st :: "'s ota_st"
  assumes ok: "transfer_ok (fl_ota_slot_span F) (g_state st)" and act: "os_active (g_state st)"
    and full: "os_kind (g_state st) = OTA_KIND_FULL"
    and span: "os_xfer_total (g_state st) \<le> fl_ota_slot_span F" and rdy: "ready byte good gran st"
    and f: "frame_wf f" "fr_len f \<noteq> 0" "fr_seq f = os_expected_seq (g_state st)" "gran dvd unat (fr_len f)"
    and fits: "unat (os_written (g_state st)) + length (fr_data f) \<le> unat (os_xfer_total (g_state st))"
  obtains st' where "handle_data F f st = (True, st')" "ready byte good gran st'"
proof -
  let ?g = "g_state st" and ?n = "length (fr_data f)" and ?w = "unat (os_written (g_state st))"
  let ?p = "os_slot_addr ?g + os_written ?g" and ?T = "unat (os_xfer_total (g_state st))"
  note b = transfer_bounds [OF ok act]
  have l: "?n = unat (fr_len f)" "unat (fr_len f) \<le> 1024"
    using f(1) by (simp_all add: frame_wf_def OTA_MAX_PAYLOAD_def word_le_nat_alt)
  have u: "unat (ucast (fr_len f) :: u32) = unat (fr_len f)"
    by (simp add: unsigned_ucast_eq take_bit_nat_eq_self_iff l(2) order_le_less_trans [OF l(2)])
  have sum: "unat (os_written ?g + ucast (fr_len f)) = ?w + ?n"
    using l u fits b(3) by (subst unat_add_lem [THEN iffD1]) simp_all
  then have g: "\<not> os_written ?g + ucast (fr_len f) > os_xfer_total ?g"
    using fits by (simp add: word_less_nat_alt)
  have w: "\<forall>i<?n. writable (?p + of_nat i)"
  proof (intro allI impI)
    fix i assume "i < ?n"
    then have "writable (os_slot_addr ?g + of_nat (?w + i))"
      using fits span by (intro slot_writable [OF b(1)]) (simp add: word_le_nat_alt)
    then show "writable (?p + of_nat i)" by (simp add: add.assoc)
  qed
  have "flash_range (os_slot_addr ?g + of_nat ?w) ?n"
    by (rule flash_range_sub [OF flash_range_slot [OF b(1) b(3)] fits])
  then have r: "flash_range ?p ?n" by simp
  have rd: "good (bs_flash st)" "gran dvd ?w" "erased (byte (bs_flash st)) ?p (?T - ?w)"
    using rdy by (simp_all add: ready_def)
  have e: "erased (byte (bs_flash st)) ?p ?n"
    using rd(3) fits by (auto intro: erased_mono)
  have "unat ?p = unat (os_slot_addr ?g) + ?w"
    using b(1,3) fits by (subst unat_add_lem [THEN iffD1]) (auto simp: layout_simps)
  moreover have "4 dvd unat (os_slot_addr ?g)" using b(1) by (auto simp: layout_simps)
  ultimately have "gran dvd unat ?p" using rd(2) dvd_trans [OF gran] by simp
  from program_effect [OF rd(1) w r this _ e] obtain fl where
    fl: "fl_program_bytes F (bs_flash st) ?p (fr_data f) = (FLASH_OK, fl)"
      "byte fl = mem_write (byte (bs_flash st)) ?p (fr_data f)" "good fl"
    using f(4) l(1) by metis
  obtain st' where h: "handle_data F f st = (True, st')"
    using act full f(2,3) g fl(1) by (simp add: handle_data_def Let_def)
  note d = data_step(3) [OF h, simplified]
  have g': "g_state st' = ?g\<lparr> os_written := os_written ?g + ucast (fr_len f),
      os_expected_seq := os_expected_seq ?g + 1 \<rparr>" "bs_flash st' = fl"
    using d fl(1) full by (simp_all add: data_base_def)
  have "erased (byte fl) (?p + of_nat ?n) (?T - (?w + ?n))"
    unfolding fl(2) by (rule erased_after [OF rd(3)]) (use fits b(3) in simp_all)
  moreover have "?p + of_nat ?n = os_slot_addr ?g + (os_written ?g + ucast (fr_len f))"
    unfolding l(1) u [symmetric] by (simp add: add.assoc)
  ultimately have "ready byte good gran st'"
    using fl(3) rd(2) f(4) l(1) sum by (simp add: ready_def g' add.assoc)
  with h that show thesis by blast
qed

lemma data_run_good:
  assumes "data_run F fs st = Some st'" "transfer_ok span (g_state st)" "\<forall>f\<in>set fs. frame_wf f"
    and "good (bs_flash st)"
  shows "good (bs_flash st')"
  using assms
proof (induction fs arbitrary: st)
  case (Cons f fs)
  obtain st1 where h: "handle_data F f st = (True, st1)" and r: "data_run F fs st1 = Some st'"
    using Cons.prems(1) by (auto split: prod.splits if_splits)
  have wf: "frame_wf f" "\<forall>f\<in>set fs. frame_wf f" using Cons.prems(3) by simp_all
  note d = data_step(3) [OF h, simplified]
  have fr: "flash_range (data_base (g_state st) + os_written (g_state st)) (length (fr_data f))"
    using d by (intro data_range [OF Cons.prems(2) _ wf(1)]) blast+
  have "good (bs_flash st1)" using program_good [OF Cons.prems(4) fr] d by simp
  then show ?case by (rule Cons.IH [OF r data_appends(2) [OF Cons.prems(2) wf(1) h] wf(2)])
qed simp

lemma data_run_accepted:
  fixes st :: "'s ota_st"
  assumes "transfer_ok (fl_ota_slot_span F) (g_state st)" "os_active (g_state st)"
    and "os_kind (g_state st) = OTA_KIND_FULL" "os_xfer_total (g_state st) \<le> fl_ota_slot_span F"
    and "ready byte good gran st"
    and "frames_of (os_expected_seq (g_state st)) img fs" "\<forall>f\<in>set fs. gran dvd unat (fr_len f)"
    and "unat (os_written (g_state st)) + length img \<le> unat (os_xfer_total (g_state st))"
  shows "\<exists>st'. data_run F fs st = Some st' \<and> os_active (g_state st') \<and> good (bs_flash st')
    \<and> unat (os_written (g_state st')) = unat (os_written (g_state st)) + length img"
  using assms
proof (induction fs arbitrary: st img)
  case Nil
  then show ?case by (simp add: frames_of_def payload_def ready_def)
next
  case (Cons f fs)
  note ok = Cons.prems(1) and act = Cons.prems(2) and rdy = Cons.prems(5)
  have fr: "frame_wf f" "fr_len f \<noteq> 0" "fr_seq f = os_expected_seq (g_state st)" "gran dvd unat (fr_len f)"
    and img: "img = fr_data f @ payload fs"
    using Cons.prems(6,7) by (force simp: frames_of_def payload_def)+
  have sq: "fr_seq (fs ! i) = os_expected_seq (g_state st) + 1 + of_nat i" if "i < length fs" for i
  proof -
    have "Suc i < length (f # fs)" using that by simp
    then have "fr_seq ((f # fs) ! Suc i) = os_expected_seq (g_state st) + of_nat (Suc i)"
      using Cons.prems(6) unfolding frames_of_def by blast
    then show ?thesis by (simp add: add.assoc)
  qed
  obtain st1 where h: "handle_data F f st = (True, st1)" and r1: "ready byte good gran st1"
    by (rule data_accepted [OF ok act Cons.prems(3,4) rdy fr]) (use Cons.prems(8) img in simp)
  note d = data_step(3) [OF h, simplified]
  have g1: "g_state st1 = (g_state st)\<lparr> os_written := os_written (g_state st) + ucast (fr_len f),
      os_expected_seq := os_expected_seq (g_state st) + 1 \<rparr>" using d by blast
  note fits = data_fits [OF ok act fr(1)]
  have w1: "unat (os_written (g_state st1)) = unat (os_written (g_state st)) + length (fr_data f)"
    using d fits(1) by (simp add: g1)
  have "frames_of (os_expected_seq (g_state st1)) (payload fs) fs"
    using Cons.prems(6) sq by (simp add: frames_of_def g1)
  from Cons.IH [OF data_appends(2) [OF ok fr(1) h] _ _ _ r1 this] Cons.prems img w1 act h show ?case
    by (simp add: g1 add.assoc)
qed

text \<open>A whole image sent to a good device is stored in the target slot.\<close>

lemma transfer_stored:
  fixes st :: "'s ota_st"
  assumes pk: "length (public_key_sha256 C) = 32" and g: "good (bs_flash st)"
    and size: "512 \<le> length img" "length img \<le> 471040" "length img \<le> unat (fl_ota_slot_span F)"
    and f0: "4 \<le> fr_len f0" "rd_u32_le (fr_data f0) = of_nat (length img)"
    and fs: "frames_of (fr_seq f0 + 1) img fs" "\<forall>f\<in>set fs. gran dvd unat (fr_len f)"
  obtains st1 st2 where "handle_start C F f0 st = (True, st1)" "data_run F fs st1 = Some st2"
    "os_active (g_state st2)" "os_kind (g_state st2) = OTA_KIND_FULL"
    "os_slot_addr (g_state st2) = ota_target C (byte (bs_flash st))"
    "os_written (g_state st2) = os_xfer_total (g_state st2)"
    "mem_bytes (byte (bs_flash st2)) (ota_target C (byte (bs_flash st))) (length img) = img"
proof -
  have tot: "unat (rd_u32_le (fr_data f0)) = length img" using size by (simp add: f0(2) unat_of_nat)
  obtain st1 where s: "handle_start C F f0 st = (True, st1)"
    by (rule start_accepted [OF pk g f0(1)]) (use size tot in \<open>simp_all add: word_le_nat_alt\<close>)
  note so = start_ok [OF pk s] and sb = start_begins [OF pk s]
  have fit: "rd_u32_le (fr_data f0) \<le> fl_ota_slot_span F"
    using tot size(3) by (simp add: word_le_nat_alt)
  have "\<exists>st2. data_run F fs st1 = Some st2 \<and> os_active (g_state st2) \<and> good (bs_flash st2)
      \<and> unat (os_written (g_state st2)) = unat (os_written (g_state st1)) + length img"
    by (rule data_run_accepted [OF sb(1-3) _ start_ready [OF pk g s fit]])
      (use so(2) tot fit fs in simp_all)
  then obtain st2 where d: "data_run F fs st1 = Some st2" "os_active (g_state st2)"
    "unat (os_written (g_state st2)) = length img" using so(2) by auto
  have wf: "\<forall>f\<in>set fs. frame_wf f" using fs(1) by (simp add: frames_of_def)
  note r = data_run_appends [OF d(1) sb(1) wf]
  have g2: "os_kind (g_state st2) = OTA_KIND_FULL"
    "os_slot_addr (g_state st2) = ota_target C (byte (bs_flash st))"
    "os_xfer_total (g_state st2) = rd_u32_le (fr_data f0)"
    using r so(2) by (simp_all add: transfer_of_def)
  show thesis
  proof (rule that [OF s d(1,2) g2(1,2)])
    show "os_written (g_state st2) = os_xfer_total (g_state st2)"
      using d(3) tot g2(3) by (simp add: word_unat_eq_iff)
    show "mem_bytes (byte (bs_flash st2)) (ota_target C (byte (bs_flash st))) (length img) = img"
      using r sb(6) g2 fs d(3) by (simp add: received_def data_base_def frames_of_def)
  qed
qed

text \<open>
  An intact device whose active slot is A takes any valid image that fits and whose version
  the floor allows, and the next boot runs it from slot B.
\<close>

lemma update_installs:
  fixes st :: "'s ota_st"
  assumes pk: "length (public_key_sha256 C) = 32" and g: "good (bs_flash st)"
    and cfg: "boot_config_validate (stored_cfg (byte (bs_flash st)))"
      "cfg_active_slot (stored_cfg (byte (bs_flash st))) = SLOT_A"
    and img: "good_image C img" "length img \<le> unat (fl_ota_slot_span F)"
    and v: "boot_config_firmware_allowed (stored_cfg (byte (bs_flash st)))
      (fh_version (image_header (image_in_b img) SLOT_B_ADDR))"
    and f0: "4 \<le> fr_len f0" "rd_u32_le (fr_data f0) = of_nat (length img)"
    and fs: "frames_of (fr_seq f0 + 1) img fs" "\<forall>f\<in>set fs. gran dvd unat (fr_len f)"
  obtains st1 st2 st3 where "handle_start C F f0 st = (True, st1)" "data_run F fs st1 = Some st2"
    "handle_end C F E st2 = (Some True, st3)"
    "mem_bytes (byte (bs_flash st3)) SLOT_B_ADDR (length img) = img"
    "fst (main C F (boot_st.truncate st3)) = JumpTo SLOT_B_ADDR"
proof -
  have size: "512 < length img" "length img \<le> 471040" by (rule good_image_size [OF img(1)])+
  let ?m = "byte (bs_flash st)"
  have l: "loaded_cfg C ?m = stored_cfg ?m" using cfg(1) by (simp add: loaded_cfg_def)
  have tgt: "ota_target C ?m = SLOT_B_ADDR" by (simp add: ota_target_def l cfg(2))
  obtain st1 st2 where s: "handle_start C F f0 st = (True, st1)" and d: "data_run F fs st1 = Some st2"
    and t: "os_active (g_state st2)" "os_kind (g_state st2) = OTA_KIND_FULL" "os_slot_addr (g_state st2) = SLOT_B_ADDR"
      "os_written (g_state st2) = os_xfer_total (g_state st2)"
    and b: "mem_bytes (byte (bs_flash st2)) SLOT_B_ADDR (length img) = img"
    by (rule transfer_stored [OF pk g _ size(2) img(2) f0 fs, unfolded tgt]) (use size(1) in simp)
  note so = start_ok [OF pk s, unfolded tgt] and sb = start_begins [OF pk s]
  note ok = good_image_stored [OF img(1) b]
  have wf: "\<forall>f\<in>set fs. frame_wf f" using fs(1) by (simp add: frames_of_def)
  have nz: "rd_u32_le (fr_data f0) \<noteq> 0" "unat (rd_u32_le (fr_data f0)) \<le> 471040"
    using so(3,4) by (auto simp: word_le_nat_alt)
  have c1: "mem_bytes (byte (bs_flash st1)) BOOT_CONFIG_ADDR 24 = mem_bytes ?m BOOT_CONFIG_ADDR 24"
    by (rule erase_b_keeps_config [OF so(1) nz])
  have sl1: "os_slot_addr (g_state st1) \<in> {SLOT_A_ADDR, SLOT_B_ADDR}" using so(2) by simp
  have c2: "stored_cfg (byte (bs_flash st2)) = stored_cfg ?m"
    using data_run_config [OF d sb(1) wf sl1] c1 by (simp add: stored_cfg_def)
  then have l2: "loaded_cfg C (byte (bs_flash st2)) = stored_cfg ?m" using cfg(1) by (simp add: loaded_cfg_def)
  obtain st3 where e: "handle_end C F E st2 = (Some True, st3)" "bs_flash st3 = bs_flash st2"
    by (rule end_accepts [OF pk t(1,2,4), of E]) (use ok v t(3) l2 in simp_all)
  show thesis
    by (rule that [OF s d e(1)]) (use b e(2) boot_after_end [OF pk e(1) t(3)] l2 cfg(2) in simp_all)
qed

section \<open>Into slot A\<close>

text \<open>A boot that finds no valid configuration never ends in slot A.\<close>

lemma boot_without_config:
  fixes st :: "'s boot_st"
  assumes pk: "length (public_key_sha256 C) = 32" and g: "good (bs_flash st)"
    and bad: "\<not> boot_config_validate (stored_cfg (byte (bs_flash st)))"
    and main: "main C F st = (JumpTo a, st')"
  shows "a \<noteq> SLOT_A_ADDR"
proof -
  let ?l = "loaded_cfg C (byte (bs_flash st))"
  obtain cfg1 d1 st1 where c: "check_app_confirmation ?l True st = (cfg1, d1, st1)" by (metis prod_cases3)
  have d1: d1 using c by (auto simp: check_app_confirmation_def Let_def split: if_splits)
  obtain cfg3 d3 st3 where p: "process_ota_pending_swap C F cfg1 False (save_or_warn F cfg1 st1) = (cfg3, d3, st3)"
    by (metis prod_cases3)
  have prep: "boot_prepare C F st = (cfg3, if d3 then save_or_warn F cfg3 st3 else st3)"
    by (simp add: boot_prepare_def boot_config_load_eq [OF flash_device_axioms pk] bad c d1 p Let_def)
  have g1: "good (bs_flash st1)" using g confirmation_facts(4) [OF c] by simp
  have g2: "good (bs_flash (save_or_warn F cfg1 st1))" by (simp add: save_good g1)
  have g3: "good (bs_flash st3)" by (rule swap_good [OF pk p g2])
  have "\<not> image_ok C (byte (bs_flash st3)) SLOT_A_ADDR"
    by (rule swap_no_slot_a [OF pk p g2]) (simp add: save_no_slot_a g1)
  then have no: "\<not> image_ok C (byte (bs_flash (snd (boot_prepare C F st)))) SLOT_A_ADDR"
    by (simp add: prep save_no_slot_a g3)
  from main_sound [OF flash_device_axioms pk main] no show ?thesis by metis
qed

text \<open>
  So a transfer into slot A that was accepted to the end, its image verified and its swap
  requested, leaves a device without a stored configuration, whose next boot does not run it.
\<close>

lemma update_to_a_unrecorded:
  fixes st0 :: "'s ota_st"
  assumes pk: "length (public_key_sha256 C) = 32" and g: "good (bs_flash st0)"
    and start: "handle_start C F f0 st0 = (True, st1)"
    and tgt: "ota_target C (byte (bs_flash st0)) = SLOT_A_ADDR"
    and data: "data_run F fs st1 = Some st2" "\<forall>f\<in>set fs. frame_wf f"
    and fin: "handle_end C F E st2 = (Some True, st3)"
  shows "good (bs_flash st3)" "\<not> boot_config_validate (stored_cfg (byte (bs_flash st3)))"
proof -
  note so = start_ok [OF pk start, unfolded tgt] and sb = start_begins [OF pk start]
  have sz: "rd_u32_le (fr_data f0) \<noteq> 0" "unat (rd_u32_le (fr_data f0)) \<le> 471040"
    using so(3,4) by (auto simp: word_le_nat_alt)
  have "stored_cfg (byte (bs_flash st1)) = cfg_of_bytes (replicate 24 0xFF)"
    by (simp add: stored_cfg_def erase_a_config [OF so(1) sz])
  moreover have "cfg_magic (cfg_of_bytes (replicate 24 0xFF)) = 0xFFFFFFFF"
    by (simp add: cfg_of_bytes_def rd_u32_le_def)
  ultimately have bad: "\<not> boot_config_validate (stored_cfg (byte (bs_flash st1)))"
    by (simp add: boot_config_validate_def layout_simps)
  have sl1: "os_slot_addr (g_state st1) \<in> {SLOT_A_ADDR, SLOT_B_ADDR}" using so(2) by simp
  have "os_kind (g_state st2) = OTA_KIND_FULL"
    using data_run_appends [OF data(1) sb(1) data(2)] so(2) by (simp add: transfer_of_def)
  then have "bs_flash st3 = bs_flash st2" using end_ok(7) [OF pk fin] by simp
  then have e: "bs_flash st3 = bs_flash st2" .
  have "good (bs_flash st1)" using erase_good [OF g] so(1) by (metis snd_conv)
  then show "good (bs_flash st3)" unfolding e by (rule data_run_good [OF data(1) sb(1) data(2)])
  show "\<not> boot_config_validate (stored_cfg (byte (bs_flash st3)))"
    using bad data_run_config [OF data(1) sb(1) data(2) sl1] by (simp add: e)
qed

end

end
