(* ===== verification/Device_Life.thy ===== *)
theory Device_Life
  imports Config_Types Ota_Update
begin

text \<open>
  The whole life of a device: boots, also cut short between or inside their saves, what the
  application does to the shared block, restarts that leave arbitrary SRAM, and single frames of
  an update that stay in defined behaviour, with power lost between any two of them.  On a
  device without faults whose flash survives a restart, every reachable state keeps the
  bootloader's own sectors, a well-typed configuration and a transfer that stays inside its slot.
\<close>

section \<open>The step relation\<close>

text \<open>A boot starts the OTA client over: its static state is zeroed with the rest of RAM.\<close>

definition after_boot :: "'s boot_st \<Rightarrow> 's ota_st" where
  "after_boot b = boot_st.extend b (ota_st.fields ota_state_zero)"

lemma after_boot_simps [simp]:
  "bs_flash (after_boot b) = bs_flash b" "bs_shared (after_boot b) = bs_shared b"
  "g_state (after_boot b) = ota_state_zero"
  by (simp_all add: after_boot_def boot_st.extend_def ota_st.fields_def)

text \<open>After a restart the next boot zeroes the client's state; until then nothing reads it.\<close>

definition after_restart :: "'s ota_st \<Rightarrow> 's \<Rightarrow> SharedBootBlock_t \<Rightarrow> 's ota_st" where
  "after_restart st s sh = st\<lparr>bs_flash := s, bs_shared := sh, g_state := ota_state_zero\<rparr>"

inductive life_step ::
  "crypto_env \<Rightarrow> 's flash_ops \<Rightarrow> delta_env \<Rightarrow> ('s \<Rightarrow> 's \<Rightarrow> bool) \<Rightarrow> nat \<Rightarrow> 's ota_st \<Rightarrow> 's ota_st \<Rightarrow> bool"
  for C F E R g where
  boot: "main C F (boot_st.truncate st) = (out, b) \<Longrightarrow> life_step C F E R g st (after_boot b)"
| cut: "cut_boot C F g (boot_st.truncate st) s \<Longrightarrow> R s s' \<Longrightarrow> life_step C F E R g st (after_restart st s' any)"
| confirm: "life_step C F E R g st (st\<lparr>bs_shared := bootloader_confirm_boot (bs_shared st)\<rparr>)"
| request: "life_step C F E R g st (st\<lparr>bs_shared := bootloader_request_ota_swap (bs_shared st)\<rparr>)"
| restart: "R (bs_flash st) s' \<Longrightarrow> life_step C F E R g st (after_restart st s' any)"
| session: "life_step C F E R g st (st\<lparr>g_state := ota_state_zero\<rparr>)"
| frame: "frame_wf f \<Longrightarrow> handle_frame C F E f st = (Some ok, st') \<Longrightarrow> life_step C F E R g st st'"

inductive_cases life_stepE: "life_step C F E R g st st'"

inductive life ::
  "crypto_env \<Rightarrow> 's flash_ops \<Rightarrow> delta_env \<Rightarrow> ('s \<Rightarrow> 's \<Rightarrow> bool) \<Rightarrow> nat \<Rightarrow> 's ota_st \<Rightarrow> 's ota_st \<Rightarrow> bool"
  for C F E R g where
  life_refl: "life C F E R g st st"
| life_next: "life C F E R g st st1 \<Longrightarrow> life_step C F E R g st1 st2 \<Longrightarrow> life C F E R g st st2"

text \<open>A run of the receive loop is a sequence of such steps, whatever the line delivers.\<close>

lemma end_frame: "handle_end C F E st = (r, st') \<Longrightarrow>
    handle_frame C F E \<lparr> fr_op = OTA_OP_END, fr_seq = 0, fr_len = 0, fr_data = [] \<rparr> st = (r, st')"
  by (simp add: handle_frame_def OTA_OP_END_def OTA_OP_START_def OTA_OP_START_DELTA_def OTA_OP_DATA_def)

lemma receive_is_life:
  assumes run: "ota_client_receive C F E wire_bus st w = Some (e, st', w')" and e: "e \<noteq> OtaUndefined"
  shows "life C F E R g st st'"
proof -
  let ?P = "life C F E R g st"
  have start: "?P (st\<lparr>g_state := ota_state_zero\<rparr>)" by (rule life_next [OF life_refl session])
  have keep: "?P s'" if "?P s" "frame_wf f" "handle_frame C F E f s = (r, s')" "r \<noteq> None" for s f r s'
    using that(4) life_next [OF that(1) frame [OF that(2)]] that(3) by auto
  have "\<exists>e st' w'. receive_loop C F E wire_bus 0 (st\<lparr>g_state := ota_state_zero\<rparr>) w = Some (e, st', w')
      \<and> loop_exit C F E ?P e st'"
    by (rule receive_returns [where P = ?P, OF _ start]) (rule keep)
  then have x: "loop_exit C F E ?P e st'" using run by (auto simp: ota_client_receive_def)
  show ?thesis
  proof (cases e)
    case OtaReset
    then obtain s where s: "?P s" "handle_end C F E s = (Some True, st')" using x by (auto simp: loop_exit_def)
    show ?thesis by (rule keep [OF s(1) _ end_frame [OF s(2)]]) (simp_all add: frame_wf_def OTA_MAX_PAYLOAD_def)
  qed (use x e in \<open>simp_all add: loop_exit_def\<close>)
qed

section \<open>Boots\<close>

text \<open>A boot writes nothing but the sector of the configuration.\<close>

context flash_device
begin

lemma maybe_save_frame:
  assumes "\<not> (0x08010000 \<le> unat x \<and> unat x < 0x08020000)"
  shows "byte (bs_flash (if d then save_or_warn F c st else st)) x = byte (bs_flash st) x"
  using save_frame [OF prod.collapse [symmetric] assms] by simp

lemma main_frame:
  assumes pk: "length (public_key_sha256 C) = 32" and main: "main C F st = (out, st')"
    and x: "\<not> (0x08010000 \<le> unat x \<and> unat x < 0x08020000)"
  shows "byte (bs_flash st') x = byte (bs_flash st) x"
proof -
  let ?l = "loaded_cfg C (byte (bs_flash st))" and ?ok = "boot_config_validate (stored_cfg (byte (bs_flash st)))"
  obtain cfg1 d1 st1 where c: "check_app_confirmation ?l (\<not> ?ok) st = (cfg1, d1, st1)"
    by (metis prod_cases3)
  let ?st2 = "if d1 then save_or_warn F cfg1 st1 else st1"
  obtain cfg3 d3 st3 where p: "process_ota_pending_swap C F cfg1 False ?st2 = (cfg3, d3, st3)"
    by (metis prod_cases3)
  have prep: "boot_prepare C F st = (cfg3, if d3 then save_or_warn F cfg3 st3 else st3)"
    by (simp add: boot_prepare_def boot_config_load_eq [OF flash_device_axioms pk] c Let_def p)
  let ?st4 = "if d3 then save_or_warn F cfg3 st3 else st3"
  obtain d c' where f: "snd (boot_finish C F (cfg3, ?st4)) = (if d then save_or_warn F c' ?st4 else ?st4)"
    by (rule finish_state)
  have "byte (bs_flash st3) x = byte (bs_flash ?st2) x"
    using pk p by (rule swap_cases) (simp_all add: save_frame [OF prod.collapse [symmetric] x])
  then have "byte (bs_flash ?st4) x = byte (bs_flash st) x"
    unfolding maybe_save_frame [OF x] confirmation_facts(4) [OF c] .
  moreover have "st' = snd (boot_finish C F (cfg3, ?st4))"
    using main main_split [of C F st] prep by simp
  ultimately show ?thesis unfolding f by (simp only: maybe_save_frame [OF x])
qed

text \<open>Nor does a boot that is cut short.\<close>

lemma saved_frame:
  assumes "\<not> (0x08010000 \<le> unat x \<and> unat x < 0x08020000)"
  shows "byte (saved F cs s) x = byte s x"
proof (induction cs arbitrary: s)
  case (Cons c cs)
  then show ?case using save_frame [where s = s and c = c, OF prod.collapse [symmetric] assms] by simp
qed simp

lemma interrupted_frame:
  assumes x: "\<not> (0x08010000 \<le> unat x \<and> unat x < 0x08020000)" and k: "k \<le> 20"
  shows "byte (save_interrupted F s c k) x = byte s x"
proof -
  let ?d = "take k (take 20 (cfg_bytes (boot_config_stamp_crc c)))"
  obtain r s1 where e: "fl_erase_range F s BOOT_CONFIG_ADDR 24 = (r, s1)" by fastforce
  obtain q s2 where p: "fl_program_bytes F s1 BOOT_CONFIG_ADDR ?d = (q, s2)" by fastforce
  have "\<not> in_range BOOT_CONFIG_ADDR (length ?d) x"
    using x k by (auto simp: in_range_def word_le_nat_alt unat_sub_if' layout_simps split: if_splits)
  from program_frame [OF p _ this] erase_frame [OF e, of x] x k have "byte s2 x = byte s x"
    by (simp add: config_sector)
  then show ?thesis unfolding save_interrupted_def e snd_conv p .
qed

lemma cut_frame:
  assumes "cut_boot C F g st s" "\<not> (0x08010000 \<le> unat x \<and> unat x < 0x08020000)"
  shows "byte s x = byte (bs_flash st) x"
  using assms(1)
proof (cases rule: cut_boot.cases)
  case (between cs ds)
  then show ?thesis using saved_frame [OF assms(2)] by simp
next
  case (inside cs c ds k)
  then show ?thesis using saved_frame [OF assms(2)] interrupted_frame [OF assms(2)] by simp
qed

end

section \<open>Frames\<close>

text \<open>What every reachable state is.\<close>

definition sound_state ::
  "crypto_env \<Rightarrow> 's flash_ops \<Rightarrow> ('s \<Rightarrow> mem) \<Rightarrow> ('s \<Rightarrow> bool) \<Rightarrow> 's ota_st \<Rightarrow> bool" where
  "sound_state C F byte good st \<longleftrightarrow> good (bs_flash st) \<and> cfg_typed (loaded_cfg C (byte (bs_flash st)))
     \<and> transfer_ok (fl_ota_slot_span F) (g_state st)"

lemma typed_iff: "cfg_typed (loaded_cfg C m) \<longleftrightarrow> (boot_config_validate (stored_cfg m) \<longrightarrow> cfg_typed (stored_cfg m))"
  using typed_recovered by (simp add: loaded_cfg_def)

context reliable_flash
begin

text \<open>
  An erase of either slot leaves the configuration as it is or, for slot A, erased, and then
  the next load recovers one.
\<close>

lemma slot_erase_typed:
  assumes g: "good s" and a: "a \<in> {SLOT_A_ADDR, SLOT_B_ADDR}" and sz: "sz \<noteq> 0" "unat sz \<le> 471040"
    and e: "fl_erase_range F s a sz = (r, s')" and t: "cfg_typed (loaded_cfg C (byte s))"
  shows "good s' \<and> cfg_typed (loaded_cfg C (byte s'))"
proof -
  have "fst (fl_erase_range F s a sz) = FLASH_OK"
    by (rule erase_succeeds [OF g]) (use a sz(2) in \<open>auto simp: layout_simps\<close>)
  then have ok: "fl_erase_range F s a sz = (FLASH_OK, s')" using e by simp
  have "cfg_typed (loaded_cfg C (byte s'))"
  proof (cases "a = SLOT_A_ADDR")
    case True
    then have "\<not> boot_config_validate (stored_cfg (byte s'))"
      using erase_a_config [OF _ sz, of s s'] ok
      by (simp add: stored_cfg_def boot_config_validate_def cfg_of_bytes_def rd_u32_le_def layout_simps)
    then show ?thesis by (simp add: typed_iff)
  next
    case False
    then have "stored_cfg (byte s') = stored_cfg (byte s)"
      using erase_b_keeps_config [OF _ sz, of s r s'] e a by (simp add: stored_cfg_def)
    then show ?thesis using t by (simp add: typed_iff)
  qed
  then show ?thesis using erase_good [OF g, of a sz] e by simp
qed

lemma same_config_typed:
  assumes "\<And>x. in_range BOOT_CONFIG_ADDR 24 x \<Longrightarrow> byte s' x = byte s x" "cfg_typed (loaded_cfg C (byte s))"
  shows "cfg_typed (loaded_cfg C (byte s'))"
proof -
  have "mem_bytes (byte s') BOOT_CONFIG_ADDR 24 = mem_bytes (byte s) BOOT_CONFIG_ADDR 24"
    by (rule mem_bytes_cong) (simp_all add: mem_eq_on_def assms(1))
  then show ?thesis using assms(2) by (simp add: typed_iff stored_cfg_def)
qed

text \<open>A frame, whatever it is and however it is answered.\<close>

lemma start_sound:
  assumes pk: "length (public_key_sha256 C) = 32" and h: "handle_start C F f st = (r, st')"
    and g: "good (bs_flash st)" and t: "cfg_typed (loaded_cfg C (byte (bs_flash st)))"
  shows "good (bs_flash st') \<and> cfg_typed (loaded_cfg C (byte (bs_flash st')))"
proof -
  let ?n = "rd_u32_le (fr_data f)"
  have e: "good (bs_flash st') \<and> cfg_typed (loaded_cfg C (byte (bs_flash st')))"
    if "512 \<le> ?n" "?n \<le> 471040" "fl_erase_range F (bs_flash st) (ota_target C (byte (bs_flash st))) ?n = (q, bs_flash st')" for q
    by (rule slot_erase_typed [OF g ota_target_in _ _ that(3) t]) (use that(1,2) in \<open>auto simp: word_le_nat_alt\<close>)
  show ?thesis
  proof (cases r)
    case True
    then have "handle_start C F f st = (True, st')" using h by simp
    from start_ok(1,3,4) [OF pk this] show ?thesis by (intro e)
  next
    case False
    then show ?thesis using e start_failed(3) [OF pk, of f st st'] h g t by auto
  qed
qed

lemma start_delta_sound:
  assumes pk: "length (public_key_sha256 C) = 32" and h: "handle_start_delta C F f st = (r, st')"
    and g: "good (bs_flash st)" and t: "cfg_typed (loaded_cfg C (byte (bs_flash st)))"
  shows "good (bs_flash st') \<and> cfg_typed (loaded_cfg C (byte (bs_flash st')))"
proof -
  have e: "good (bs_flash st') \<and> cfg_typed (loaded_cfg C (byte (bs_flash st')))"
    if "fl_erase_range F (bs_flash st) (ota_target C (byte (bs_flash st))) (fl_ota_slot_span F) = (q, bs_flash st')" for q
    by (rule slot_erase_typed [OF g ota_target_in span_pos that t])
  show ?thesis
  proof (cases r)
    case True
    then have "handle_start_delta C F f st = (True, st')" using h by simp
    from start_delta_ok(1) [OF pk this] show ?thesis by (rule e)
  next
    case False
    then show ?thesis using e start_delta_failed(3) [OF pk, of f st st'] h g t by auto
  qed
qed

lemma data_sound:
  assumes ok: "transfer_ok span (g_state st)" and wf: "frame_wf f" and h: "handle_data F f st = (r, st')"
    and g: "good (bs_flash st)" and t: "cfg_typed (loaded_cfg C (byte (bs_flash st)))"
  shows "good (bs_flash st') \<and> cfg_typed (loaded_cfg C (byte (bs_flash st')))"
proof
  let ?g = "g_state st"
  show "good (bs_flash st')"
  proof (cases "bs_flash st' = bs_flash st")
    case False
    then obtain q where q: "os_active ?g" "os_written ?g + ucast (fr_len f) \<le> os_xfer_total ?g"
      "fl_program_bytes F (bs_flash st) (data_base ?g + os_written ?g) (fr_data f) = (q, bs_flash st')"
      using data_step(4) [OF h] by blast
    from program_good [OF g data_range [OF ok q(1) wf q(2)]] q(3) show ?thesis by simp
  qed (simp add: g)
  have out: "\<not> in_range (os_slot_addr ?g) 471040 x" if "os_active ?g" "in_range BOOT_CONFIG_ADDR 24 x" for x
    using transfer_bounds(1) [OF ok that(1)] that(2) by (auto simp: partition_ranges)
  show "cfg_typed (loaded_cfg C (byte (bs_flash st')))"
    by (rule same_config_typed [OF _ t]) (rule data_frame [OF ok wf h], rule out)
qed

lemma end_sound:
  assumes ok: "transfer_ok span (g_state st)" and h: "handle_end C F E st = (r, st')"
    and g: "good (bs_flash st)" and t: "cfg_typed (loaded_cfg C (byte (bs_flash st)))"
  shows "good (bs_flash st') \<and> cfg_typed (loaded_cfg C (byte (bs_flash st')))"
proof (cases "bs_flash st' = bs_flash st")
  case True
  then show ?thesis using g t by simp
next
  case False
  let ?g = "g_state st"
  obtain q where a: "os_active ?g" "os_kind ?g = OTA_KIND_DELTA" and d: "delta_apply_patch F E (bs_flash st)
      (os_active_slot_base ?g) (os_slot_addr ?g) (os_xfer_total ?g) (os_expected_new_total ?g) = (q, bs_flash st')"
    using end_other(3) [OF h] False by blast
  have net: "unat (os_expected_new_total ?g) \<le> 471040" "os_slot_addr ?g \<in> {SLOT_A_ADDR, SLOT_B_ADDR}"
    using ok a by (simp_all add: transfer_ok_def)
  note dest = flash_range_slot [OF net(2,1)]
  have "cfg_typed (loaded_cfg C (byte (bs_flash st')))"
  proof (rule same_config_typed [OF _ t])
    fix x assume "in_range BOOT_CONFIG_ADDR 24 x"
    then have "\<not> in_range (os_slot_addr ?g) 471040 x" using net(2) by (auto simp: partition_ranges)
    then have "\<not> in_range (os_slot_addr ?g) (unat (os_expected_new_total ?g)) x"
      using in_range_mono [OF _ net(1)] by blast
    then show "byte (bs_flash st') x = byte (bs_flash st) x" by (rule delta_apply_frame [OF d dest])
  qed
  then show ?thesis using delta_apply_good [OF d dest g] by simp
qed

lemma frame_sound_state:
  assumes pk: "length (public_key_sha256 C) = 32" and s: "sound_state C F byte good st"
    and wf: "frame_wf f" and h: "handle_frame C F E f st = (r, st')"
  shows "sound_state C F byte good st'"
proof -
  have ok: "transfer_ok (fl_ota_slot_span F) (g_state st)" and g: "good (bs_flash st)"
    and t: "cfg_typed (loaded_cfg C (byte (bs_flash st)))" using s by (simp_all add: sound_state_def)
  have "good (bs_flash st') \<and> cfg_typed (loaded_cfg C (byte (bs_flash st')))"
    using h start_sound [OF pk _ g t] start_delta_sound [OF pk _ g t] data_sound [OF ok wf _ g t]
      end_sound [OF ok _ g t] g t
    by (auto simp: handle_frame_def split: prod.splits if_splits)
  then show ?thesis using frame_keeps(1) [OF pk ok wf h] by (simp add: sound_state_def)
qed

end

section \<open>All reachable states\<close>

context persistent_flash
begin

lemma life_sound:
  assumes pk: "length (public_key_sha256 C) = 32" and l: "life C F E restart gran st st'"
    and s: "sound_state C F byte good st"
  shows "sound_state C F byte good st' \<and> boot_sectors_same byte (bs_flash st) (bs_flash st')"
  using l s
proof (induction rule: life.induct)
  case life_refl
  then show ?case by (simp add: boot_sectors_refl)
next
  case (life_next st st1 st2)
  then have s1: "sound_state C F byte good st1" and b1: "boot_sectors_same byte (bs_flash st) (bs_flash st1)" by blast+
  have shared: "sound_state C F byte good (st1\<lparr>bs_shared := sh\<rparr>)
      \<and> boot_sectors_same byte (bs_flash st1) (bs_flash (st1\<lparr>bs_shared := sh\<rparr>))" for sh
    using s1 by (simp add: sound_state_def boot_sectors_refl)
  let ?b1 = "boot_st.truncate st1"
  have fl: "bs_flash ?b1 = bs_flash st1" by (simp add: boot_st.truncate_def)
  have g: "good (bs_flash ?b1)" and t: "cfg_typed (loaded_cfg C (byte (bs_flash ?b1)))"
    using s1 by (simp_all add: sound_state_def fl)
  have "sound_state C F byte good st2 \<and> boot_sectors_same byte (bs_flash st1) (bs_flash st2)"
    using life_next.hyps(2)
  proof (cases rule: life_step.cases)
    case (boot out b)
    have "boot_sectors_same byte (bs_flash st1) (bs_flash b)"
      unfolding boot_sectors_same_def using main_frame [OF pk boot(2)] by (auto simp: fl)
    then show ?thesis
      using main_state(4) [OF pk g boot(2)] typed_main [OF pk g boot(2) t] boot(1)
      by (simp add: sound_state_def transfer_ok_zero)
  next
    case (cut s s' any)
    note ce = cut_effect(1) [OF pk g records_magic [OF pk] cut(2)]
    have "boot_sectors_same byte (bs_flash st1) s"
      unfolding boot_sectors_same_def using cut_frame [OF cut(2)] by (auto simp: fl)
    then show ?thesis
      using restart_keeps [OF ce cut(3)] restart_good [OF ce cut(3)] cut_typed [OF pk g t cut(2)]
      by (simp add: cut(1) after_restart_def sound_state_def transfer_ok_zero boot_sectors_same_def)
  next
    case (restart s' any)
    have "good (bs_flash st1)" "cfg_typed (loaded_cfg C (byte (bs_flash st1)))" using g t by (simp_all only: fl)
    then show ?thesis
      using restart_keeps [OF _ restart(2)] restart_good [OF _ restart(2)]
      by (simp add: restart(1) after_restart_def sound_state_def transfer_ok_zero boot_sectors_same_def)
  next
    case (frame f ok)
    then show ?thesis
      using frame_sound_state [OF pk s1] frame_keeps(2) [OF pk _ frame(1,2)] s1 by (simp add: sound_state_def)
  next
    case session
    then show ?thesis using s1 by (simp add: sound_state_def boot_sectors_refl transfer_ok_zero)
  qed (use s1 shared in blast)+
  then show ?case using boot_sectors_trans [OF b1] by simp
qed

section \<open>An update into slot A\<close>

text \<open>Without a stored record, or without an image in slot A, no boot ends there.\<close>

lemma no_boot_from_a:
  assumes pk: "length (public_key_sha256 C) = 32" and g: "good (bs_flash st)"
    and no: "boot_config_validate (stored_cfg (byte (bs_flash st))) \<Longrightarrow> \<not> image_ok C (byte (bs_flash st)) SLOT_A_ADDR"
  shows "fst (main C F st) \<noteq> JumpTo SLOT_A_ADDR"
proof
  assume "fst (main C F st) = JumpTo SLOT_A_ADDR"
  then obtain st' where m: "main C F st = (JumpTo SLOT_A_ADDR, st')" by (metis prod.collapse)
  show False
  proof (cases "boot_config_validate (stored_cfg (byte (bs_flash st)))")
    case True
    then have "\<not> image_ok C (byte (bs_flash (snd (boot_prepare C F st)))) SLOT_A_ADDR"
      using prepare_state(2) [OF pk g prod.collapse [symmetric]] no by blast
    then show False using main_sound [OF flash_device_axioms pk m] by metis
  next
    case False
    then show False using boot_without_config [OF pk g _ m] by blast
  qed
qed

lemma update_to_a_never:
  fixes st0 :: "'s ota_st"
  assumes pk: "length (public_key_sha256 C) = 32" and g: "good (bs_flash st0)"
    and start: "handle_start C F f0 st0 = (True, st1)"
    and tgt: "ota_target C (byte (bs_flash st0)) = SLOT_A_ADDR"
    and data: "data_run F fs st1 = Some st2" "\<forall>f\<in>set fs. frame_wf f"
    and fin: "handle_end C F E st2 = (Some True, st3)"
    and c: "loss_cycles C F restart gran (boot_st.truncate st3) st'"
  shows "fst (main C F st') \<noteq> JumpTo SLOT_A_ADDR"
proof -
  note u = update_to_a_unrecorded [OF pk g start tgt data fin]
  have e: "bs_flash (boot_st.truncate st3) = bs_flash st3" by (simp add: boot_st.truncate_def)
  have g3: "good (bs_flash (boot_st.truncate st3))" using u(1) by (simp only: e)
  have "boot_config_validate (stored_cfg (byte (bs_flash st'))) \<longrightarrow> \<not> image_ok C (byte (bs_flash st')) SLOT_A_ADDR"
    by (rule unrecorded_a_lost [OF pk g3 c]) (use u(2) in \<open>simp add: e\<close>)
  moreover have "good (bs_flash st')" using loss_cycles_invariants [OF pk g3 c] by blast
  ultimately show ?thesis using no_boot_from_a [OF pk] by blast
qed

end

end
