(* ===== verification/Verify_Io.thy ===== *)
theory Verify_Io
  imports Delta_Patch Bus
begin

unbundle bit_operations_syntax

text \<open>
  The long computations of \<^verbatim>\<open>crypto.c\<close>, \<^verbatim>\<open>boot_config.c\<close> and \<^verbatim>\<open>delta_patch.c\<close> once more, as they
  run: each loop over flash refreshes the watchdog once a chunk, and the signature check is
  bracketed by two refreshes.  The results are those of \<open>Crypto\<close>, \<open>Boot_Config\<close> and
  \<open>Delta_Patch\<close>, and nothing but refreshes reaches the bus.
\<close>

section \<open>Verification with its watchdog refreshes\<close>

function stream_payload_io ::
  "('c \<Rightarrow> u8 list \<Rightarrow> 'c) \<Rightarrow> 's flash_ops \<Rightarrow> 'h bus \<Rightarrow> 's \<Rightarrow> u32 \<Rightarrow> u32 \<Rightarrow> 'c \<Rightarrow> 'h \<Rightarrow> 'c option \<times> 'h" where
  "stream_payload_io upd F B s addr remaining c h =
     (if remaining > 0
      then (let chunk = (if remaining > VERIFY_CHUNK_BYTES then VERIFY_CHUNK_BYTES else remaining)
            in case fl_read F s addr chunk of (st, buf) \<Rightarrow>
                 if st \<noteq> FLASH_OK then (None, h)
                 else stream_payload_io upd F B s (addr + chunk) (remaining - chunk) (upd c buf) (iwdg_kick B h))
      else (Some c, h))"
  by pat_completeness auto
termination
  by (relation "measure (\<lambda>(upd, F, B, s, addr, remaining, c, h). unat remaining)")
    (auto simp: VERIFY_CHUNK_BYTES_def word_less_nat_alt word_le_nat_alt unat_sub split: if_splits)

declare stream_payload_io.simps [simp del]

definition hash_signed_region_io ::
  "'s flash_ops \<Rightarrow> 'h bus \<Rightarrow> 's \<Rightarrow> u32 \<Rightarrow> FirmwareHeader_t \<Rightarrow> 'h \<Rightarrow> u8 list option \<times> 'h" where
  "hash_signed_region_io F B s slot_addr hdr h =
     (let sig_offset = 20;
          hb = hdr_bytes hdr;
          c1 = sha256_update (sha256_init stack_ctx) (take sig_offset hb);
          c2 = sha256_update c1 (replicate (unat FIRMWARE_SIGNATURE_SIZE) 0);
          c3 = sha256_update c2
                 (take (unat FIRMWARE_HEADER_SIZE - sig_offset - unat FIRMWARE_SIGNATURE_SIZE)
                    (drop (sig_offset + unat FIRMWARE_SIGNATURE_SIZE) hb))
      in case stream_payload_io sha256_update F B s (slot_addr + FIRMWARE_HEADER_SIZE)
                (fh_image_size hdr) c3 h of
           (None, h) \<Rightarrow> (None, h)
         | (Some c, h) \<Rightarrow> (Some (sha256_final c), h))"

definition crypto_verify_firmware_io ::
  "crypto_env \<Rightarrow> 's flash_ops \<Rightarrow> 'h bus \<Rightarrow> 's \<Rightarrow> u32 \<Rightarrow> 'h \<Rightarrow> bool \<times> 'h" where
  "crypto_verify_firmware_io C F B s slot_addr h =
     (if \<not> crypto_validate_public_key C then (False, h)
      else case fl_read F s slot_addr FIRMWARE_HEADER_SIZE of (st, hb) \<Rightarrow>
        if st \<noteq> FLASH_OK then (False, h)
        else let hdr = hdr_of_bytes hb in
          if fh_magic hdr \<noteq> FIRMWARE_MAGIC then (False, h)
          else if fh_image_size hdr = 0 then (False, h)
          else if fh_image_size hdr > FIRMWARE_MAX_PAYLOAD_SIZE then (False, h)
          else case stream_payload_io crc32_update F B s (slot_addr + FIRMWARE_HEADER_SIZE)
                      (fh_image_size hdr) CRC32_INIT h of
            (None, h) \<Rightarrow> (False, h)
          | (Some crc_state, h) \<Rightarrow>
              if crc32_finalize crc_state \<noteq> fh_crc32 hdr then (False, h)
              else case hash_signed_region_io F B s slot_addr hdr h of
                (None, h) \<Rightarrow> (False, h)
              | (Some hash, h) \<Rightarrow>
                  if \<not> is_canonical_low_s (fh_signature hdr) then (False, h)
                  else let h = iwdg_kick B h;
                           ok = uECC_verify C (public_key_xy C) hash (fh_signature hdr);
                           h = iwdg_kick B h
                       in (ok = 1, h))"

section \<open>The configuration\<close>

definition recover_probe_io ::
  "crypto_env \<Rightarrow> 's flash_ops \<Rightarrow> 'h bus \<Rightarrow> 's \<Rightarrow> u32 \<Rightarrow> 'h \<Rightarrow> u32 option \<times> 'h" where
  "recover_probe_io C F B s addr h =
     (case fl_read F s addr FIRMWARE_HEADER_SIZE of (st, hb) \<Rightarrow>
        if st = FLASH_OK then
          let hdr = hdr_of_bytes hb in
          if fh_magic hdr = FIRMWARE_MAGIC \<and> fh_image_size hdr > 0
             \<and> fh_image_size hdr \<le> FIRMWARE_MAX_PAYLOAD_SIZE then
            (case crypto_verify_firmware_io C F B s addr h of (ok, h) \<Rightarrow>
               (if ok then Some (fh_version hdr) else None, h))
          else (None, h)
        else (None, h))"

definition boot_config_recover_from_slots_io ::
  "crypto_env \<Rightarrow> 's flash_ops \<Rightarrow> 'h bus \<Rightarrow> 's \<Rightarrow> BootConfig_t \<Rightarrow> 'h \<Rightarrow> BootConfig_t \<times> 'h" where
  "boot_config_recover_from_slots_io C F B s cfg h =
     (let (a, h) = recover_probe_io C F B s SLOT_A_ADDR h;
          (b, h) = recover_probe_io C F B s SLOT_B_ADDR h;
          cfg = (case a of Some v \<Rightarrow> cfg\<lparr>cfg_slot_a_version := v\<rparr> | None \<Rightarrow> cfg);
          cfg = (case b of Some v \<Rightarrow> cfg\<lparr>cfg_slot_b_version := v\<rparr> | None \<Rightarrow> cfg);
          (floor, cfg) =
            (if a \<noteq> None \<and> cfg_slot_a_version cfg > 0
             then (cfg_slot_a_version cfg, cfg\<lparr>cfg_active_slot := SLOT_A\<rparr>) else (0, cfg));
          (floor, cfg) =
            (if b \<noteq> None \<and> cfg_slot_b_version cfg > floor
             then (cfg_slot_b_version cfg, cfg\<lparr>cfg_active_slot := SLOT_B\<rparr>) else (floor, cfg));
          cfg = (if floor > 0 then cfg\<lparr>cfg_rollback_counter := rollback_of floor\<rparr> else cfg)
      in (boot_config_stamp_crc cfg, h))"

definition boot_config_load_io ::
  "crypto_env \<Rightarrow> 's flash_ops \<Rightarrow> 'h bus \<Rightarrow> 's \<Rightarrow> 'h \<Rightarrow> (bool \<times> BootConfig_t) \<times> 'h" where
  "boot_config_load_io C F B s h =
     (let out = cfg_of_bytes (snd (fl_read F s BOOT_CONFIG_ADDR 24))
      in if boot_config_validate out then ((True, out), h)
         else case boot_config_recover_from_slots_io C F B s boot_config_default h of (cfg, h) \<Rightarrow>
           ((False, cfg), h))"

section \<open>The digest of the base image\<close>

function delta_hash_loop_io ::
  "'s flash_ops \<Rightarrow> 'h bus \<Rightarrow> 's \<Rightarrow> u32 \<Rightarrow> u32 \<Rightarrow> u32 \<Rightarrow> sha256_ctx_t \<Rightarrow> 'h \<Rightarrow> sha256_ctx_t option \<times> 'h" where
  "delta_hash_loop_io F B s base tot off ctx h =
     (if off < tot then
        (let chunk = tot - off;
             chunk = (if chunk > 512 then 512 else chunk)
         in case fl_read F s (base + off) chunk of (st, buf) \<Rightarrow>
              if st \<noteq> FLASH_OK then (None, h)
              else delta_hash_loop_io F B s base tot (off + chunk) (sha256_update ctx buf) (iwdg_kick B h))
      else (Some ctx, h))"
  by pat_completeness auto
termination
proof (relation "measure (\<lambda>(F, B, s, base, tot, off, ctx, h). unat tot - unat off)")
  fix F :: "'s flash_ops" and B :: "'h bus" and s :: 's and base tot off chunk chunk' :: u32 and ctx x st buf h
  assume lt: "off < tot" and c: "chunk = tot - off" "chunk' = (if chunk > 512 then 512 else chunk)"
  show "((F, B, s, base, tot, off + chunk', sha256_update ctx buf, iwdg_kick B h), F, B, s, base, tot, off, ctx, h)
      \<in> measure (\<lambda>(F, B, s, base, tot, off, ctx, h). unat tot - unat off)"
    using delta_chunk [OF lt c] lt by (simp add: word_less_nat_alt)
qed simp

declare delta_hash_loop_io.simps [simp del]

definition delta_verify_active_base_sha256_io ::
  "'s flash_ops \<Rightarrow> 'h bus \<Rightarrow> 's \<Rightarrow> u32 \<Rightarrow> u8 list \<Rightarrow> 'h \<Rightarrow> bool \<times> 'h" where
  "delta_verify_active_base_sha256_io F B s active_slot_base expected_digest h =
     (case fl_read F s active_slot_base FIRMWARE_HEADER_SIZE of (st, hb) \<Rightarrow>
        if st \<noteq> FLASH_OK then (False, h)
        else let hdr = hdr_of_bytes hb in
          if fh_magic hdr \<noteq> FIRMWARE_MAGIC then (False, h)
          else let tot = FIRMWARE_HEADER_SIZE + fh_image_size hdr in
            if tot > SLOT_SIZE then (False, h)
            else case delta_hash_loop_io F B s active_slot_base tot 0 (sha256_init stack_ctx) h of
              (None, h) \<Rightarrow> (False, h)
            | (Some ctx, h) \<Rightarrow> (crypto_constant_time_equal (sha256_final ctx) expected_digest 32, h))"

section \<open>The results, and what reaches the bus\<close>

text \<open>A call with output, split into its result and the rest of the bus.\<close>

lemma io_split: "fst x = r \<Longrightarrow> x = (r, snd x)"
  by (simp add: prod_eq_iff)

lemma ex_pair_io:
  assumes "fst x = r"
  obtains h' where "x = (r, h')"
  using assms by (cases x) auto

lemma stream_payload_io_fst [simp]:
  "fst (stream_payload_io upd F B s a n c h) = stream_payload upd F s a n c"
proof (induction upd F B s a n c h rule: stream_payload_io.induct)
  case (1 upd F B s addr remaining c h)
  then show ?case
    by (subst stream_payload_io.simps, subst stream_payload.simps) (auto simp: Let_def split: prod.splits)
qed

lemma stream_payload_ioD: "stream_payload_io upd F B s a n c h = (r, h') \<Longrightarrow> stream_payload upd F s a n c = r"
  using stream_payload_io_fst by (metis fst_conv)

lemma hash_signed_region_io_fst [simp]:
  "fst (hash_signed_region_io F B s a hdr h) = hash_signed_region F s a hdr"
  by (auto simp: hash_signed_region_io_def hash_signed_region_def Let_def
      split: prod.split option.split dest!: stream_payload_ioD)

lemma hash_signed_region_ioD: "hash_signed_region_io F B s a hdr h = (r, h') \<Longrightarrow> hash_signed_region F s a hdr = r"
  using hash_signed_region_io_fst by (metis fst_conv)

lemma crypto_verify_firmware_io_fst [simp]:
  "fst (crypto_verify_firmware_io C F B s a h) = crypto_verify_firmware C F s a"
  by (auto simp: crypto_verify_firmware_io_def crypto_verify_firmware_def Let_def
      split: prod.split option.split dest!: stream_payload_ioD hash_signed_region_ioD)

lemma recover_probe_io_fst [simp]: "fst (recover_probe_io C F B s a h) = recover_probe C F s a"
  unfolding recover_probe_io_def recover_probe_def Let_def
  by (subst io_split [OF crypto_verify_firmware_io_fst]) (simp split: prod.split)

lemma recover_probe_ioE:
  obtains h' where "recover_probe_io C F B s a h = (recover_probe C F s a, h')"
  by (rule that) (rule io_split [OF recover_probe_io_fst])

lemma boot_config_load_io_fst [simp]: "fst (boot_config_load_io C F B s h) = boot_config_load C F s"
proof -
  have r: "fst (boot_config_recover_from_slots_io C F B s cfg h) = boot_config_recover_from_slots C F s cfg"
    for cfg h
  proof -
    obtain h1 where 1: "recover_probe_io C F B s SLOT_A_ADDR h = (recover_probe C F s SLOT_A_ADDR, h1)"
      by (rule recover_probe_ioE)
    obtain h2 where 2: "recover_probe_io C F B s SLOT_B_ADDR h1 = (recover_probe C F s SLOT_B_ADDR, h2)"
      by (rule recover_probe_ioE)
    show ?thesis
      unfolding boot_config_recover_from_slots_io_def boot_config_recover_from_slots_def 1 2 prod.case Let_def
      by (simp add: split_beta)
  qed
  show ?thesis
    unfolding boot_config_load_io_def boot_config_load_def Let_def
    by (subst io_split [OF r]) simp
qed

lemma delta_hash_loop_io_fst [simp]:
  "fst (delta_hash_loop_io F B s base tot off ctx h) = delta_hash_loop F s base tot off ctx"
proof (induction F B s base tot off ctx h rule: delta_hash_loop_io.induct)
  case (1 F B s base tot off ctx h)
  then show ?case
    by (subst delta_hash_loop_io.simps, subst delta_hash_loop.simps) (auto simp: Let_def split: prod.splits)
qed

lemma delta_hash_loop_ioD: "delta_hash_loop_io F B s base tot off c h = (r, h') \<Longrightarrow> delta_hash_loop F s base tot off c = r"
  using delta_hash_loop_io_fst by (metis fst_conv)

lemma delta_verify_active_base_sha256_io_fst [simp]:
  "fst (delta_verify_active_base_sha256_io F B s a dg h) = delta_verify_active_base_sha256 F s a dg"
  by (auto simp: delta_verify_active_base_sha256_io_def delta_verify_active_base_sha256_def Let_def
      split: prod.split option.split dest!: delta_hash_loop_ioD)

text \<open>Whatever a refresh keeps, the whole computation keeps.\<close>

locale refresh_frame =
  fixes B :: "'h bus" and keeps :: "'h \<Rightarrow> bool"
  assumes kick: "keeps h \<Longrightarrow> keeps (iwdg_kick B h)"
begin

lemma payload: "keeps h \<Longrightarrow> keeps (snd (stream_payload_io upd F B s a n c h))"
  using kick
proof (induction upd F B s a n c h rule: stream_payload_io.induct)
  case (1 upd F B s a n c h)
  let ?k = "if n > VERIFY_CHUNK_BYTES then VERIFY_CHUNK_BYTES else n"
  obtain st buf where rd: "fl_read F s a ?k = (st, buf)" by fastforce
  show ?case
  proof (cases "n > 0 \<and> st = FLASH_OK")
    case True
    then have "keeps (snd (stream_payload_io upd F B s (a + ?k) (n - ?k) (upd c buf) (iwdg_kick B h)))"
      by (intro "1.IH" [OF _ refl rd [symmetric]] "1.prems") simp_all
    then show ?thesis using True rd by (subst stream_payload_io.simps) (simp only: Let_def prod.case simp_thms if_True if_False)
  next
    case False
    then show ?thesis using "1.prems" rd by (subst stream_payload_io.simps) (auto simp only: Let_def prod.case simp_thms if_True if_False snd_conv split: if_splits)
  qed
qed

lemma payloadD: "stream_payload_io upd F B s a n c h = (r, h') \<Longrightarrow> keeps h \<Longrightarrow> keeps h'"
  using payload by (metis snd_conv)

lemma hash: "hash_signed_region_io F B s a hdr h = (r, h') \<Longrightarrow> keeps h \<Longrightarrow> keeps h'"
  by (auto simp: hash_signed_region_io_def Let_def split: prod.splits option.splits dest: payloadD)

lemma verify: "crypto_verify_firmware_io C F B s a h = (r, h') \<Longrightarrow> keeps h \<Longrightarrow> keeps h'"
  by (auto simp: crypto_verify_firmware_io_def Let_def kick
      split: prod.splits option.splits if_splits dest!: payloadD hash)

lemma probe: "recover_probe_io C F B s a h = (r, h') \<Longrightarrow> keeps h \<Longrightarrow> keeps h'"
  by (auto simp: recover_probe_io_def Let_def split: prod.splits if_splits dest: verify)

lemma load:
  assumes "boot_config_load_io C F B s h = (r, h')" "keeps h"
  shows "keeps h'"
proof -
  obtain a h1 where a: "recover_probe_io C F B s SLOT_A_ADDR h = (a, h1)" by fastforce
  obtain b h2 where b: "recover_probe_io C F B s SLOT_B_ADDR h1 = (b, h2)" by fastforce
  have "snd (boot_config_recover_from_slots_io C F B s boot_config_default h) = h2"
    by (simp add: boot_config_recover_from_slots_io_def a b split_beta Let_def)
  then have "h' = h \<or> h' = h2"
    using assms(1) by (auto simp: boot_config_load_io_def Let_def split: prod.splits if_splits)
  then show ?thesis using assms(2) probe [OF a] probe [OF b] by blast
qed

lemma hash_loop: "keeps h \<Longrightarrow> keeps (snd (delta_hash_loop_io F B s base tot off c h))"
  using kick
proof (induction F B s base tot off c h rule: delta_hash_loop_io.induct)
  case (1 F B s base tot off c h)
  let ?k = "if tot - off > 512 then 512 else tot - off"
  obtain st buf where rd: "fl_read F s (base + off) ?k = (st, buf)" by fastforce
  show ?case
  proof (cases "off < tot \<and> st = FLASH_OK")
    case True
    then have "keeps (snd (delta_hash_loop_io F B s base tot (off + ?k) (sha256_update c buf) (iwdg_kick B h)))"
      by (intro "1.IH" [OF _ refl refl rd [symmetric]] "1.prems") simp_all
    then show ?thesis using True rd by (subst delta_hash_loop_io.simps) (simp only: Let_def prod.case simp_thms if_True if_False)
  next
    case False
    then show ?thesis using "1.prems" rd by (subst delta_hash_loop_io.simps) (auto simp only: Let_def prod.case simp_thms if_True if_False snd_conv split: if_splits)
  qed
qed

lemma hash_loopD: "delta_hash_loop_io F B s base tot off c h = (r, h') \<Longrightarrow> keeps h \<Longrightarrow> keeps h'"
  using hash_loop by (metis snd_conv)

lemma base_digest: "delta_verify_active_base_sha256_io F B s a dg h = (r, h') \<Longrightarrow> keeps h \<Longrightarrow> keeps h'"
  by (auto simp: delta_verify_active_base_sha256_io_def Let_def split: prod.splits option.splits if_splits
      dest: hash_loopD)

end

end
