(* ===== verification/Wire_Log.thy ===== *)
theory Wire_Log
  imports Uart
begin

text \<open>
  The log channel of \<^verbatim>\<open>uart.c\<close> on the serial line: what \<^verbatim>\<open>uart_log_puts\<close> and \<^verbatim>\<open>uart_log_printf\<close>
  append to the log, and that neither touches the OTA channel.  \<open>log_line\<close> and \<open>log_fmt\<close> are the two
  calls with the line ending all messages have.
\<close>

section \<open>Messages\<close>

definition log_line :: "'h bus \<Rightarrow> string \<Rightarrow> 'h \<Rightarrow> 'h" where
  "log_line B s h = uart_log_puts B (ascii s @ crlf) h"

definition log_fmt :: "'h bus \<Rightarrow> string \<Rightarrow> va_arg list \<Rightarrow> 'h \<Rightarrow> 'h" where
  "log_fmt B s args h = uart_log_printf B (ascii s @ crlf) args h"

lemma ascii_append: "ascii (s @ t) = ascii s @ ascii t"
  by (simp add: ascii_def)

text \<open>Whatever one character of log output keeps, every message keeps.\<close>

locale log_frame =
  fixes B :: "'h bus" and keeps :: "'h \<Rightarrow> bool"
  assumes char: "keeps h \<Longrightarrow> keeps (uart_log_putc B c h)"
begin

lemma puts: "keeps h \<Longrightarrow> keeps (uart_log_puts B s h)"
  by (induction s arbitrary: h) (simp_all add: char)

lemma directive: "keeps h \<Longrightarrow> keeps (snd (fmt_directive B c w args h))"
  by (simp add: fmt_directive_def log_print_uint_def puts char Let_def split: prod.split)

lemma printf: "keeps h \<Longrightarrow> keeps (uart_log_printf B fmt args h)"
proof (induction "length fmt" arbitrary: fmt args h rule: less_induct)
  case less
  show ?case
  proof (cases fmt)
    case (Cons c fs)
    define f1 where "f1 = (if fs \<noteq> [] \<and> hd fs = 0x30 then tl fs else fs)"
    obtain w f2 where f2: "fmt_width 0 f1 = (w, f2)" by fastforce
    obtain args' h' where d: "fmt_directive B (if f2 = [] then 0 else hd f2) w args h = (args', h')" by fastforce
    have "length f2 \<le> length fs" using fmt_width_length [of 0 f1] f2 by (simp add: f1_def split: if_splits)
    then have "keeps (uart_log_printf B (if f2 = [] then f2 else tl f2) args' h')"
      using directive [OF less.prems, of "if f2 = [] then 0 else hd f2" w args] d Cons
      by (intro less.hyps) (auto simp: le_imp_less_Suc)
    moreover have "keeps (uart_log_printf B fs args (uart_log_putc B c h))"
      using Cons char [OF less.prems] by (intro less.hyps) simp_all
    ultimately show ?thesis using Cons f2 d by (simp add: f1_def [symmetric] Let_def)
  qed (use less.prems in simp)
qed

lemma line: "keeps h \<Longrightarrow> keeps (log_line B s h)"
  by (simp add: log_line_def puts)

lemma fmt: "keeps h \<Longrightarrow> keeps (log_fmt B s args h)"
  by (simp add: log_fmt_def printf)

end

section \<open>Log output on the wire\<close>

definition wire_logs :: "wire \<Rightarrow> u8 list \<Rightarrow> wire \<Rightarrow> bool" where
  "wire_logs w bs w' \<longleftrightarrow> w_rx w' = w_rx w \<and> w_tx w' = w_tx w \<and> w_log w' = w_log w @ bs"

lemma wire_logs_trans: "wire_logs a xs b \<Longrightarrow> wire_logs b ys c \<Longrightarrow> wire_logs a (xs @ ys) c"
  by (simp add: wire_logs_def)

lemma wire_log_putc: "wire_logs w [c] (uart_log_putc wire_bus c w)"
proof -
  have bits: "USART_SR_TXE AND USART_SR_TXE \<noteq> 0" by (simp add: USART_SR_TXE_def)
  have t: "usart_wait_txe wire_bus USART1_BASE (Suc n) w = w" for n
    using bits by (simp add: wire_bus_def wire_rd_def usart_regs)
  have "usart_wait_txe wire_bus USART1_BASE 100000 w = w"
    using t [of 99999] by (simp del: usart_wait_txe.simps)
  moreover have "ucast (ucast c :: u32) = c" by (rule bit_word_eqI) (auto simp: bit_simps)
  ultimately show ?thesis
    by (simp add: wire_logs_def uart_log_putc_def usart_putc_def wire_bus_def wire_wr_def usart_regs)
qed

lemma wire_log_puts: "wire_logs w s (uart_log_puts wire_bus s w)"
proof (induction s arbitrary: w)
  case Nil
  then show ?case by (simp add: wire_logs_def)
next
  case (Cons c s)
  from wire_logs_trans [OF wire_log_putc Cons.IH] show ?case by simp
qed

text \<open>Formats: plain text is copied, \<open>%08x\<close> prints eight hexadecimal digits.\<close>

definition hex8 :: "u32 \<Rightarrow> u8 list" where
  "hex8 v = rev (uint_buf (unat v) 16 8 False)"

lemma printf_plain:
  "0x25 \<notin> set s \<Longrightarrow> uart_log_printf B (s @ fmt) args h = uart_log_printf B fmt args (uart_log_puts B s h)"
  by (induction s arbitrary: h) auto

lemma printf_hex8:
  "uart_log_printf B ([0x25, 0x30, 0x38, 0x78] @ fmt) (VaInt v # args) h
    = uart_log_printf B fmt args (uart_log_puts B (hex8 v) h)"
  by (simp add: fmt_directive_def log_print_uint_def hex8_def)

lemma wire_printf_hex8:
  assumes "0x25 \<notin> set s" "0x25 \<notin> set t"
  shows "wire_logs w (s @ hex8 v @ t) (uart_log_printf wire_bus (s @ [0x25, 0x30, 0x38, 0x78] @ t) [VaInt v] w)"
proof -
  have "uart_log_printf wire_bus (s @ [0x25, 0x30, 0x38, 0x78] @ t) [VaInt v] w
      = uart_log_puts wire_bus t (uart_log_puts wire_bus (hex8 v) (uart_log_puts wire_bus s w))"
    using printf_plain [OF assms(2), of wire_bus "[]"] unfolding printf_plain [OF assms(1)] printf_hex8 by simp
  then show ?thesis using wire_logs_trans [OF wire_logs_trans [OF wire_log_puts wire_log_puts] wire_log_puts] by simp
qed

end
