(* ===== verification/Ota_Io.thy ===== *)
theory Ota_Io
  imports Ota_Loop Verify_Io Wire_Log
begin

unbundle bit_operations_syntax

text \<open>
  \<^verbatim>\<open>ota_client.c\<close> and the application of a patch once more, as they run: with every log line and the
  watchdog refreshes of the computations in \<open>Verify_Io\<close>.  The handlers give the results of
  \<open>Ota_Client\<close>, and on the serial line the receive loop does: the log channel and the watchdog
  decide nothing, so that what \<open>Ota_Loop\<close> shows of the loop holds of the program.
\<close>

section \<open>The handlers with their output\<close>

definition handle_start_io ::
  "crypto_env \<Rightarrow> 's flash_ops \<Rightarrow> 'h bus \<Rightarrow> ota_frame_t \<Rightarrow> 's ota_st \<Rightarrow> 'h \<Rightarrow> (bool \<times> 's ota_st) \<times> 'h" where
  "handle_start_io C F B f st h =
     (if fr_len f < 4 then ((False, st), h)
      else case boot_config_load_io C F B (bs_flash st) h of ((_, cfg), h) \<Rightarrow>
        let target = memory_map_other_slot (cfg_active_slot cfg);
            slot_addr = memory_map_slot_addr target;
            tot = rd_u32_le (fr_data f)
        in if tot < FIRMWARE_HEADER_SIZE \<or> tot > FIRMWARE_HEADER_SIZE + FIRMWARE_MAX_PAYLOAD_SIZE
           then ((False, st), log_fmt B ''OTA : reject START total_size=%u out of range'' [VaInt tot] h)
           else
             let h = log_fmt B ''OTA : START slot=%c addr=0x%08x total=%u''
                       [VaInt (ucast target), VaInt slot_addr, VaInt tot] h
             in case fl_erase_range F (bs_flash st) slot_addr tot of (rs, fl) \<Rightarrow>
             let st = st\<lparr>bs_flash := fl\<rparr> in
             if rs \<noteq> FLASH_OK then ((False, st), log_line B ''OTA : erase failed'' h)
             else ((True, st\<lparr>g_state := (g_state st)\<lparr> os_active := True, os_kind := OTA_KIND_FULL,
                     os_slot_addr := slot_addr, os_xfer_total := tot, os_written := 0,
                     os_expected_seq := fr_seq f + 1 \<rparr>\<rparr>), h))"

definition handle_start_delta_io ::
  "crypto_env \<Rightarrow> 's flash_ops \<Rightarrow> 'h bus \<Rightarrow> ota_frame_t \<Rightarrow> 's ota_st \<Rightarrow> 'h \<Rightarrow> (bool \<times> 's ota_st) \<times> 'h" where
  "handle_start_delta_io C F B f st h =
     (if fr_len f < OTA_START_DELTA_PAYLOAD then ((False, st), h)
      else case boot_config_load_io C F B (bs_flash st) h of ((_, cfg), h) \<Rightarrow>
        let target = memory_map_other_slot (cfg_active_slot cfg);
            slot_addr = memory_map_slot_addr target;
            patch_total = rd_u32_le (fr_data f);
            expected_new = rd_u32_le (drop 4 (fr_data f));
            digest = drop 8 (fr_data f);
            slot_span = fl_ota_slot_span F
        in if patch_total = 0 \<or> patch_total > slot_span
           then ((False, st), log_line B ''OTA : START_DELTA bad patch_total'' h)
           else if expected_new < FIRMWARE_HEADER_SIZE
             \<or> expected_new > FIRMWARE_HEADER_SIZE + FIRMWARE_MAX_PAYLOAD_SIZE
           then ((False, st), log_line B ''OTA : START_DELTA bad expected_new_total'' h)
           else if expected_new + patch_total > slot_span
           then ((False, st), log_line B ''OTA : START_DELTA patch+new overlap slot'' h)
           else
             let active_base = memory_map_slot_addr (cfg_active_slot cfg) in
             case delta_verify_active_base_sha256_io F B (bs_flash st) active_base digest h of (same, h) \<Rightarrow>
             if \<not> same then ((False, st), log_line B ''OTA : START_DELTA base SHA-256 mismatch'' h)
             else
               let h = log_fmt B ''OTA : START_DELTA slot=%c inact=0x%08x patch=%u new=%u''
                         [VaInt (ucast target), VaInt slot_addr, VaInt patch_total, VaInt expected_new] h
               in case fl_erase_range F (bs_flash st) slot_addr slot_span of (rs, fl) \<Rightarrow>
               let st = st\<lparr>bs_flash := fl\<rparr> in
               if rs \<noteq> FLASH_OK then ((False, st), log_line B ''OTA : erase inactive slot failed'' h)
               else ((True, st\<lparr>g_state := (g_state st)\<lparr> os_active := True, os_kind := OTA_KIND_DELTA,
                       os_slot_addr := slot_addr, os_xfer_total := patch_total,
                       os_expected_new_total := expected_new, os_active_slot_base := active_base,
                       os_patch_tail_base := slot_addr + slot_span - patch_total, os_written := 0,
                       os_expected_seq := fr_seq f + 1 \<rparr>\<rparr>), h))"

definition handle_data_io ::
  "'s flash_ops \<Rightarrow> 'h bus \<Rightarrow> ota_frame_t \<Rightarrow> 's ota_st \<Rightarrow> 'h \<Rightarrow> (bool \<times> 's ota_st) \<times> 'h" where
  "handle_data_io F B f st h =
     (let g = g_state st in
      if \<not> os_active g then ((False, st), h)
      else if fr_seq f \<noteq> os_expected_seq g then ((False, st), h)
      else if fr_len f = 0 then ((False, st), h)
      else if os_written g + ucast (fr_len f) > os_xfer_total g then ((False, st), h)
      else
        let dest = (if os_kind g = OTA_KIND_DELTA then os_patch_tail_base g + os_written g
                    else os_slot_addr g + os_written g)
        in case fl_program_bytes F (bs_flash st) dest (fr_data f) of (rs, fl) \<Rightarrow>
             let st = st\<lparr>bs_flash := fl\<rparr> in
             if rs \<noteq> FLASH_OK then ((False, st), log_line B ''OTA : flash write failed'' h)
             else ((True, st\<lparr>g_state := g\<lparr> os_written := os_written g + ucast (fr_len f),
                     os_expected_seq := os_expected_seq g + 1 \<rparr>\<rparr>), h))"

definition delta_run_patch_io ::
  "'s flash_ops \<Rightarrow> delta_env \<Rightarrow> 'h bus \<Rightarrow> 's delta_listener \<Rightarrow> flash_diff_stream \<Rightarrow> u8 \<Rightarrow> u32 \<Rightarrow> 'h
     \<Rightarrow> (delta_outcome \<times> 's delta_listener) \<times> 'h" where
  "delta_run_patch_io F E B L stream ct newSize h =
     (let R = (\<lambda>L. diff_stream_read F (dl_flash L)) in
      if ct = 1 then
        (case hpatch_tuz_reserved_mem_size (R L) stream of (dictSize, stream) \<Rightarrow>
           if dictSize = 0 \<or> dictSize > DELTA_TUZ_DICT_MAX
           then ((Applied False, L), log_line B ''DELTA: tuz dict size out of range'' h)
           else let tuzStream = tuz_TStream_open stream (de_tuz_work E) dictSize DELTA_TUZ_DEC_BUF
                in case hpatch_lite_patch (\<lambda>L. hpatch_tuz_stream_decompress (R L)) (delta_callbacks F)
                          tuzStream L newSize DELTA_PATCH_CACHE_SIZE of (ok, L, tuzStream) \<Rightarrow>
                  ((if tz_outside tuzStream then Undefined else Applied (run_finish newSize (ok, L)), L), h))
      else if ct \<noteq> 0 then ((Applied False, L), log_line B ''DELTA: unsupported compress type'' h)
      else case hpatch_lite_patch R (delta_callbacks F) stream L newSize DELTA_PATCH_CACHE_SIZE of
        (ok, L, stream) \<Rightarrow> ((Applied (run_finish newSize (ok, L)), L), h))"

definition delta_apply_patch_io ::
  "'s flash_ops \<Rightarrow> delta_env \<Rightarrow> 'h bus \<Rightarrow> 's \<Rightarrow> u32 \<Rightarrow> u32 \<Rightarrow> u32 \<Rightarrow> u32 \<Rightarrow> 'h
     \<Rightarrow> (delta_outcome \<times> 's) \<times> 'h" where
  "delta_apply_patch_io F E B fl active_slot_base inactive_slot_base patch_total expected_new_total h =
     (if patch_total = 0 \<or> expected_new_total = 0 then ((Applied False, fl), h)
      else let slot_span = fl_ota_slot_span F in
      if expected_new_total + patch_total > slot_span then ((Applied False, fl), h)
      else case fl_read F fl active_slot_base FIRMWARE_HEADER_SIZE of (st, hb) \<Rightarrow>
      if st \<noteq> FLASH_OK then ((Applied False, fl), h)
      else let active_hdr = hdr_of_bytes hb in
      if fh_magic active_hdr \<noteq> FIRMWARE_MAGIC \<or> fh_image_size active_hdr = 0 then ((Applied False, fl), h)
      else let active_logical_total = FIRMWARE_HEADER_SIZE + fh_image_size active_hdr in
      if active_logical_total > SLOT_SIZE then ((Applied False, fl), h)
      else
        let stream = \<lparr> fs_base = inactive_slot_base + slot_span - patch_total, fs_pos = 0, fs_len = patch_total \<rparr>;
            L = \<lparr> dl_flash = fl, dl_active_base = active_slot_base, dl_inactive_base = inactive_slot_base,
                  dl_new_written = 0, dl_new_expected = expected_new_total,
                  dl_active_logical_total = active_logical_total \<rparr>
        in case hpatch_lite_open (diff_stream_read F fl) (de_stack E) stream of
             (OpenFail, stream) \<Rightarrow> ((Applied False, fl), h)
           | (OpenOverflow, stream) \<Rightarrow> ((Undefined, fl), h)
           | (OpenOk ct newSize uncSize, stream) \<Rightarrow>
               if newSize \<noteq> expected_new_total then ((Applied False, fl), h)
               else case delta_run_patch_io F E B L stream ct newSize h of ((r, L), h) \<Rightarrow> ((r, dl_flash L), h))"

definition handle_end_io ::
  "crypto_env \<Rightarrow> 's flash_ops \<Rightarrow> delta_env \<Rightarrow> 'h bus \<Rightarrow> 's ota_st \<Rightarrow> 'h \<Rightarrow> (bool option \<times> 's ota_st) \<times> 'h" where
  "handle_end_io C F E B st h =
     (let g = g_state st in
      if \<not> os_active g then ((Some False, st), h)
      else if os_written g \<noteq> os_xfer_total g
      then ((Some False, st), log_fmt B ''OTA : END short, got %u of %u'' [VaInt (os_written g), VaInt (os_xfer_total g)] h)
      else
        let ((applied, fl), h) =
              (if os_kind g = OTA_KIND_DELTA
               then delta_apply_patch_io F E B (bs_flash st) (os_active_slot_base g) (os_slot_addr g)
                      (os_xfer_total g) (os_expected_new_total g) h
               else ((Applied True, bs_flash st), h));
            st = st\<lparr>bs_flash := fl\<rparr>
        in case applied of
             Undefined \<Rightarrow> ((None, st), h)
           | Applied False \<Rightarrow> ((Some False, st), log_line B ''OTA : delta apply failed'' h)
           | Applied True \<Rightarrow>
               case crypto_verify_firmware_io C F B fl (os_slot_addr g) h of (valid, h) \<Rightarrow>
               if \<not> valid then ((Some False, st), log_line B ''OTA : verify failed; staying on active slot'' h)
               else case fl_read F fl (os_slot_addr g) FIRMWARE_HEADER_SIZE of (rs, hb) \<Rightarrow>
                 let hdr = hdr_of_bytes hb in
                 if rs \<noteq> FLASH_OK \<or> fh_magic hdr \<noteq> FIRMWARE_MAGIC
                 then ((Some False, st), log_line B ''OTA : header read failed after verify'' h)
                 else case boot_config_load_io C F B fl h of ((_, cfg), h) \<Rightarrow>
                   if \<not> boot_config_firmware_allowed cfg (fh_version hdr)
                   then ((Some False, st), log_fmt B ''OTA : reject version 0x%08x (floor 0x%08x)''
                           [VaInt (fh_version hdr), VaInt (boot_config_antidowngrade_floor cfg)] h)
                   else ((Some True, st\<lparr>bs_shared := (bs_shared st)\<lparr> sb_magic := SHARED_BLOCK_MAGIC,
                           sb_ota_pending := 1, sb_boot_confirmed := 0 \<rparr>\<rparr>),
                         log_line B ''OTA : END verified; rebooting'' h))"

definition handle_frame_io ::
  "crypto_env \<Rightarrow> 's flash_ops \<Rightarrow> delta_env \<Rightarrow> 'h bus \<Rightarrow> ota_frame_t \<Rightarrow> 's ota_st \<Rightarrow> 'h
     \<Rightarrow> (bool option \<times> 's ota_st) \<times> 'h" where
  "handle_frame_io C F E B f st h =
     (if fr_op f = OTA_OP_START then
        (case handle_start_io C F B f st h of ((ok, st), h) \<Rightarrow> ((Some ok, st), h))
      else if fr_op f = OTA_OP_START_DELTA then
        (case handle_start_delta_io C F B f st h of ((ok, st), h) \<Rightarrow> ((Some ok, st), h))
      else if fr_op f = OTA_OP_DATA then
        (case handle_data_io F B f st h of ((ok, st), h) \<Rightarrow> ((Some ok, st), h))
      else if fr_op f = OTA_OP_END then handle_end_io C F E B st h
      else ((Some False, st), h))"

section \<open>The receive loop with its output\<close>

partial_function (option) receive_loop_io ::
  "crypto_env \<Rightarrow> 's flash_ops \<Rightarrow> delta_env \<Rightarrow> 'h bus \<Rightarrow> nat \<Rightarrow> 's ota_st \<Rightarrow> 'h
     \<Rightarrow> (ota_exit \<times> 's ota_st \<times> 'h) option" where
  "receive_loop_io C F E B consec_errs st h =
     (if consec_errs < 16 then
        (case read_frame B (iwdg_kick B h) of
           None \<Rightarrow> None
         | Some (r, h) \<Rightarrow>
             (case r of
                Inl s \<Rightarrow>
                  receive_loop_io C F E B (consec_errs + 1) st
                    (if s = FRAME_CRC_BAD \<or> s = FRAME_TOO_BIG then send_response B OTA_RESP_NAK 0 h else h)
              | Inr f \<Rightarrow>
                  if fr_op f = OTA_OP_ABORT
                  then Some (OtaReturned False, st,
                         send_response B OTA_RESP_ACK (fr_seq f) (log_line B ''OTA : ABORT received'' h))
                  else (case handle_frame_io C F E B f st h of ((res, st), h) \<Rightarrow>
                    (case res of
                       None \<Rightarrow> Some (OtaUndefined, st, h)
                     | Some ok \<Rightarrow>
                         if ok then
                           (if fr_op f = OTA_OP_END
                            then Some (OtaReset, st,
                                   system_reset B (send_response B OTA_RESP_ACK (fr_seq f) h))
                            else receive_loop_io C F E B 0 st (send_response B OTA_RESP_ACK (fr_seq f) h))
                         else receive_loop_io C F E B (consec_errs + 1) st
                                (send_response B OTA_RESP_NAK (fr_seq f) h)))))
      else Some (OtaReturned False, st, log_line B ''OTA : too many consecutive errors; aborting'' h))"

definition ota_client_receive_io ::
  "crypto_env \<Rightarrow> 's flash_ops \<Rightarrow> delta_env \<Rightarrow> 'h bus \<Rightarrow> 's ota_st \<Rightarrow> 'h
     \<Rightarrow> (ota_exit \<times> 's ota_st \<times> 'h) option" where
  "ota_client_receive_io C F E B st h =
     receive_loop_io C F E B 0 (st\<lparr>g_state := ota_state_zero\<rparr>)
       (log_line B ''OTA : ready, awaiting frames on USART2 (TCP 4444 in QEMU)'' h)"

section \<open>The results of the handlers\<close>

lemma boot_config_load_ioD: "boot_config_load_io C F B s h = (r, h') \<Longrightarrow> boot_config_load C F s = r"
  using boot_config_load_io_fst by (metis fst_conv)

lemma crypto_verify_firmware_ioD: "crypto_verify_firmware_io C F B s a h = (r, h') \<Longrightarrow> crypto_verify_firmware C F s a = r"
  using crypto_verify_firmware_io_fst by (metis fst_conv)

lemma delta_verify_ioD:
  "delta_verify_active_base_sha256_io F B s a dg h = (r, h') \<Longrightarrow> delta_verify_active_base_sha256 F s a dg = r"
  using delta_verify_active_base_sha256_io_fst by (metis fst_conv)

lemma handle_start_io_fst [simp]: "fst (handle_start_io C F B f st h) = handle_start C F f st"
  by (auto simp: handle_start_io_def handle_start_def Let_def split: prod.split dest!: boot_config_load_ioD)

lemma handle_start_delta_io_fst [simp]: "fst (handle_start_delta_io C F B f st h) = handle_start_delta C F f st"
  by (auto simp: handle_start_delta_io_def handle_start_delta_def Let_def split: prod.split
      dest!: boot_config_load_ioD delta_verify_ioD)

lemma handle_data_io_fst [simp]: "fst (handle_data_io F B f st h) = handle_data F f st"
  by (simp add: handle_data_io_def handle_data_def Let_def split: prod.split)

lemma delta_run_patch_io_fst [simp]: "fst (delta_run_patch_io F E B L s ct n h) = delta_run_patch F E L s ct n"
  by (simp add: delta_run_patch_io_def delta_run_patch_def Let_def split: prod.split)

lemma delta_run_ioD: "delta_run_patch_io F E B L s ct n h = (r, h') \<Longrightarrow> delta_run_patch F E L s ct n = r"
  using delta_run_patch_io_fst by (metis fst_conv)

lemma delta_apply_patch_io_fst [simp]:
  "fst (delta_apply_patch_io F E B fl a b pt net h) = delta_apply_patch F E fl a b pt net"
  by (auto simp: delta_apply_patch_io_def delta_apply_patch_def Let_def split: prod.split open_result.split
      dest!: delta_run_ioD)

lemma delta_apply_ioD:
  "delta_apply_patch_io F E B fl a b pt net h = (r, h') \<Longrightarrow> delta_apply_patch F E fl a b pt net = r"
  using delta_apply_patch_io_fst by (metis fst_conv)

lemma handle_end_io_fst [simp]: "fst (handle_end_io C F E B st h) = handle_end C F E st"
proof -
  let ?g = "g_state st"
  let ?ap = "if os_kind ?g = OTA_KIND_DELTA
    then delta_apply_patch F E (bs_flash st) (os_active_slot_base ?g) (os_slot_addr ?g)
      (os_xfer_total ?g) (os_expected_new_total ?g) else (Applied True, bs_flash st)"
  let ?ap_io = "if os_kind ?g = OTA_KIND_DELTA
    then delta_apply_patch_io F E B (bs_flash st) (os_active_slot_base ?g) (os_slot_addr ?g)
      (os_xfer_total ?g) (os_expected_new_total ?g) h else ((Applied True, bs_flash st), h)"
  obtain r fl where ap: "?ap = (r, fl)" by fastforce
  have "fst ?ap_io = (r, fl)" unfolding ap [symmetric] by simp
  then obtain h1 where ap_io: "?ap_io = ((r, fl), h1)" by (rule ex_pair_io)
  obtain h2 where v: "crypto_verify_firmware_io C F B fl (os_slot_addr ?g) h1
      = (crypto_verify_firmware C F fl (os_slot_addr ?g), h2)"
    by (rule ex_pair_io [OF crypto_verify_firmware_io_fst])
  obtain ok cfg where b: "boot_config_load C F fl = (ok, cfg)" by fastforce
  obtain h3 where c: "boot_config_load_io C F B fl h2 = ((ok, cfg), h3)"
    using ex_pair_io [OF boot_config_load_io_fst, of C F B fl h2] unfolding b by blast
  show ?thesis
    unfolding handle_end_io_def handle_end_def Let_def ap ap_io prod.case v b c snd_conv
    by (cases "fl_read F fl (os_slot_addr ?g) FIRMWARE_HEADER_SIZE")
      (simp split: delta_outcome.split bool.split)
qed

lemma handle_frame_io_fst [simp]: "fst (handle_frame_io C F E B f st h) = handle_frame C F E f st"
  by (simp add: handle_frame_io_def handle_frame_def prod.case_eq_if)

section \<open>What the handlers do to the bus\<close>

text \<open>Whatever a refresh and a character of log output keep, every handler keeps.\<close>

locale io_frame = refresh_frame B keeps + log_frame B keeps for B :: "'h bus" and keeps
begin

lemma start: "handle_start_io C F B f st h = (r, h') \<Longrightarrow> keeps h \<Longrightarrow> keeps h'"
  by (auto simp: handle_start_io_def Let_def line fmt split: if_splits prod.splits dest!: load)

lemma start_delta: "handle_start_delta_io C F B f st h = (r, h') \<Longrightarrow> keeps h \<Longrightarrow> keeps h'"
  by (auto simp: handle_start_delta_io_def Let_def line fmt split: if_splits prod.splits dest!: load base_digest)

lemma data: "handle_data_io F B f st h = (r, h') \<Longrightarrow> keeps h \<Longrightarrow> keeps h'"
  by (auto simp: handle_data_io_def Let_def line split: if_splits prod.splits)

lemma patch: "delta_apply_patch_io F E B fl a b pt net h = (r, h') \<Longrightarrow> keeps h \<Longrightarrow> keeps h'"
  by (auto simp: delta_apply_patch_io_def delta_run_patch_io_def Let_def line
      split: if_splits prod.splits open_result.splits)

lemma finish:
  assumes "handle_end_io C F E B st h = (r, h')" "keeps h"
  shows "keeps h'"
proof -
  let ?g = "g_state st"
  let ?ap = "if os_kind ?g = OTA_KIND_DELTA
    then delta_apply_patch_io F E B (bs_flash st) (os_active_slot_base ?g) (os_slot_addr ?g)
      (os_xfer_total ?g) (os_expected_new_total ?g) h else ((Applied True, bs_flash st), h)"
  obtain ap fl h1 where ap: "?ap = ((ap, fl), h1)" by (metis prod.collapse)
  have 1: "keeps h1" using ap patch assms(2) by (auto split: if_splits)
  obtain v h2 where v: "crypto_verify_firmware_io C F B fl (os_slot_addr ?g) h1 = (v, h2)" by fastforce
  have 2: "keeps h2" by (rule verify [OF v 1])
  obtain ok cfg h3 where c: "boot_config_load_io C F B fl h2 = ((ok, cfg), h3)" by (metis prod.collapse)
  have 3: "keeps h3" by (rule load [OF c 2])
  show ?thesis
    using assms 1 2 3 unfolding handle_end_io_def Let_def ap prod.case v c
    by (auto simp: line fmt split: if_splits prod.splits delta_outcome.splits bool.splits)
qed

lemma frame: "handle_frame_io C F E B f st h = (r, h') \<Longrightarrow> keeps h \<Longrightarrow> keeps h'"
  by (auto simp: handle_frame_io_def split: if_splits prod.splits dest: start start_delta data finish)

end

section \<open>On the serial line\<close>

text \<open>The OTA channel of two wires is the same.\<close>

definition wire_same :: "wire \<Rightarrow> wire \<Rightarrow> bool" where
  "wire_same w v \<longleftrightarrow> w_rx v = w_rx w \<and> w_tx v = w_tx w"

lemma wire_same_log: "wire_same w v \<Longrightarrow> wire_logs v bs v' \<Longrightarrow> wire_same w v'"
  by (simp add: wire_same_def wire_logs_def)

interpretation ota_wire: io_frame wire_bus "wire_same w" for w
proof
  show "wire_same w h \<Longrightarrow> wire_same w (iwdg_kick wire_bus h)" for h
    using wire_kick [OF wire_adv_refl, of h] by (simp add: wire_same_def wire_adv_def)
  show "wire_same w h \<Longrightarrow> wire_same w (uart_log_putc wire_bus c h)" for h c
    by (rule wire_same_log [OF _ wire_log_putc])
qed

lemma wire_same_refl: "wire_same w w"
  by (simp add: wire_same_def)

lemma wire_same_left: "wire_same w v \<Longrightarrow> wire_same w w' \<Longrightarrow> wire_same w' v"
  by (simp add: wire_same_def)

text \<open>A response depends only on the channel.\<close>

lemma putc_same: "wire_same w v \<Longrightarrow> wire_same (usart_putc wire_bus USART2_BASE b w) (usart_putc wire_bus USART2_BASE b v)"
  unfolding wire_putc_eq
  by (auto simp: wire_same_def wire_wr_def wire_rd_def usart_regs split: list.split option.split)

lemma response_same: "wire_same w v \<Longrightarrow> wire_same (send_response wire_bus c q w) (send_response wire_bus c q v)"
proof -
  have "wire_same w v \<Longrightarrow> wire_same (uart_ota_write wire_bus bs w) (uart_ota_write wire_bus bs v)" for bs
    by (induction bs arbitrary: w v) (simp_all add: uart_ota_write_def putc_same)
  then show "wire_same w v \<Longrightarrow> wire_same (send_response wire_bus c q w) (send_response wire_bus c q v)"
    by (simp add: send_response_def)
qed

lemma reset_same: "wire_same w v \<Longrightarrow> wire_same (system_reset wire_bus w) (system_reset wire_bus v)"
  by (simp add: wire_same_def system_reset_def bootloader_system_reset_def wire_bus_def wire_wr_def usart_regs)

text \<open>
  On the serial line the loop with its output and the loop without it take the same way: they
  return together, with the same exit, device and channel.
\<close>

lemma receive_loop_io_step:
  assumes "n < 16" "read_frame wire_bus (iwdg_kick wire_bus w) = Some (r, w1)" "r = Inr f"
    and "handle_frame_io C F E wire_bus f st w1 = ((res, st1), w2)"
  shows "receive_loop_io C F E wire_bus n st w =
    (if fr_op f = OTA_OP_ABORT then Some (OtaReturned False, st,
       send_response wire_bus OTA_RESP_ACK (fr_seq f) (log_line wire_bus ''OTA : ABORT received'' w1))
     else case res of None \<Rightarrow> Some (OtaUndefined, st1, w2)
       | Some ok \<Rightarrow>
          if ok then (if fr_op f = OTA_OP_END
            then Some (OtaReset, st1, system_reset wire_bus (send_response wire_bus OTA_RESP_ACK (fr_seq f) w2))
            else receive_loop_io C F E wire_bus 0 st1 (send_response wire_bus OTA_RESP_ACK (fr_seq f) w2))
          else receive_loop_io C F E wire_bus (n + 1) st1 (send_response wire_bus OTA_RESP_NAK (fr_seq f) w2))"
  using assms by (simp add: receive_loop_io.simps [of C F E wire_bus n])

lemma wire_same_frame:
  assumes "wire_same w v"
  obtains r w1 v1 where "read_frame wire_bus (iwdg_kick wire_bus w) = Some (r, w1)"
    "read_frame wire_bus (iwdg_kick wire_bus v) = Some (r, v1)" "wire_same w1 v1"
proof -
  obtain w1 where 1: "read_frame wire_bus (iwdg_kick wire_bus w) = Some (fst (rx_frame (w_rx w)), w1)"
    "w_rx w1 = snd (rx_frame (w_rx w))" "w_tx w1 = w_tx w" by (rule kick_frame)
  obtain v1 where 2: "read_frame wire_bus (iwdg_kick wire_bus v) = Some (fst (rx_frame (w_rx v)), v1)"
    "w_rx v1 = snd (rx_frame (w_rx v))" "w_tx v1 = w_tx v" by (rule kick_frame)
  show thesis
    by (rule that [OF 1(1)]) (use 1(2,3) 2 assms in \<open>auto simp: wire_same_def\<close>)
qed

lemma receive_loop_follows:
  assumes "wire_same w v" "receive_loop C F E wire_bus n st v = Some (e, st', v')"
  shows "\<exists>w'. receive_loop_io C F E wire_bus n st w = Some (e, st', w') \<and> wire_same w' v'"
proof -
  have "B = wire_bus \<longrightarrow> (\<forall>w. wire_same w v \<longrightarrow> (case x of (e, st', v') \<Rightarrow>
      \<exists>w'. receive_loop_io C F E wire_bus n st w = Some (e, st', w') \<and> wire_same w' v'))"
    if "receive_loop C F E B n st v = Some x" for B :: "wire bus" and C F E n st v x
  proof (induction rule: receive_loop.raw_induct [OF _ that])
    case (1 loop C F E B n st v x)
    show ?case
    proof (intro impI allI)
      fix w
      assume B: "B = wire_bus" and s: "wire_same w v"
      have ih: "case x of (e, st', v') \<Rightarrow>
          \<exists>w'. receive_loop_io C F E wire_bus k st1 w1 = Some (e, st', w') \<and> wire_same w' v'"
        if "loop C F E wire_bus k st1 v1 = Some x" "wire_same w1 v1" for k st1 v1 w1
        using 1(1) [OF that(1)] that(2) by blast
      obtain r w1 v1 where fr: "read_frame wire_bus (iwdg_kick wire_bus w) = Some (r, w1)"
        "read_frame wire_bus (iwdg_kick wire_bus v) = Some (r, v1)" and s1: "wire_same w1 v1"
        using wire_same_frame [OF s] by metis
      show "case x of (e, st', v') \<Rightarrow>
          \<exists>w'. receive_loop_io C F E wire_bus n st w = Some (e, st', w') \<and> wire_same w' v'"
      proof (cases "n < 16")
        case False
        then show ?thesis
          using 1(2) s wire_same_left [OF s ota_wire.line [OF wire_same_refl]]
          by (auto simp: B receive_loop_io.simps [of C F E wire_bus n])
      next
        case n: True
        show ?thesis
        proof (cases r)
          case (Inl err)
          then show ?thesis
            using 1(2) n fr ih s1 response_same [OF s1]
            by (simp add: B receive_loop_io.simps [of C F E wire_bus n])
        next
          case (Inr f)
          obtain res st1 where h: "handle_frame C F E f st = (res, st1)" by fastforce
          obtain w2 where h_io: "handle_frame_io C F E wire_bus f st w1 = ((res, st1), w2)"
            using ex_pair_io [OF handle_frame_io_fst, of C F E wire_bus f st w1] unfolding h by blast
          have s2: "wire_same w2 v1"
            by (rule wire_same_left [OF s1 ota_wire.frame [OF h_io wire_same_refl]])
          have l: "wire_same (log_line wire_bus ''OTA : ABORT received'' w1) v1"
            by (rule wire_same_left [OF s1 ota_wire.line [OF wire_same_refl]])
          show ?thesis
            using 1(2) n fr(2) Inr h response_same [OF l] reset_same [OF response_same [OF s2]] s2
              ih [OF _ response_same [OF s2]]
            unfolding receive_loop_io_step [OF n fr(1) Inr h_io]
            by (auto simp: B split: option.splits if_splits)
        qed
      qed
    qed
  qed
  from this [OF assms(2)] assms(1) show ?thesis by simp
qed

lemma ota_client_receive_follows:
  assumes "ota_client_receive C F E wire_bus st w = Some (e, st', v')"
  obtains w' where "ota_client_receive_io C F E wire_bus st w = Some (e, st', w')" "wire_same w' v'"
  using receive_loop_follows [OF wire_same_left [OF wire_same_refl ota_wire.line [OF wire_same_refl]]]
    assms unfolding ota_client_receive_def ota_client_receive_io_def by metis

text \<open>The outcome of a reception, for the program with its output.\<close>

context flash_device
begin

lemma ota_receive_io:
  assumes pk: "length (public_key_sha256 C) = 32"
  obtains e st' w' where "ota_client_receive_io C F E wire_bus st w = Some (e, st', w')"
    "boot_sectors_same byte (bs_flash st) (bs_flash st')"
    "case e of
       OtaReturned b \<Rightarrow> \<not> b \<and> bs_shared st' = bs_shared st
     | OtaUndefined \<Rightarrow> bs_shared st' = bs_shared st \<and> os_kind (g_state st') = OTA_KIND_DELTA
     | OtaReset \<Rightarrow> sb_magic (bs_shared st') = SHARED_BLOCK_MAGIC
         \<and> swap_requested C (byte (bs_flash st')) (bs_shared st')"
  by (rule ota_receive [OF pk, of E st w]) (metis ota_client_receive_follows that)

end

text \<open>A refresh leaves the whole channel and the log as they are.\<close>

interpretation log_kicks: refresh_frame wire_bus "wire_logs w bs" for w bs
proof
  show "wire_logs w bs h \<Longrightarrow> wire_logs w bs (iwdg_kick wire_bus h)" for h
    using wire_kick [OF wire_adv_refl, of h] by (simp add: wire_logs_def wire_adv_def)
qed

end
