(* ===== verification/Recovery.thy ===== *)
theory Recovery
  imports Ota_Io
begin

text \<open>
  \<^verbatim>\<open>bootloader/src/recovery.c\<close>: the menu entered when neither slot verifies, here with its
  log output and its watchdog refreshes, over the bus of \<open>Uart\<close>.  The menu has no end of its own: \<open>recovery_mode_run\<close>
  is \<open>None\<close> when it runs for ever, as it does on a silent line, and a value when it asks for a
  reset.
\<close>

section \<open>The code\<close>

definition recovery_banner :: "u8 list" where
  "recovery_banner = concat (map (\<lambda>l. ascii l @ crlf)
     [[], replicate 53 CHR ''*'',
      ''*  RECOVERY MODE - both slots failed verification    *'',
      ''*  Send a command on USART2 (TCP 4444 in QEMU):      *'',
      ''*    U = Upload signed image (OTA frame protocol)    *'',
      ''*    V = Verify both slots and report                *'',
      ''*    R = Reboot                                      *'',
      replicate 53 CHR ''*''])"

definition print_banner :: "'h bus \<Rightarrow> 'h \<Rightarrow> 'h" where
  "print_banner B h = uart_log_puts B recovery_banner h"

definition verify_and_report :: "crypto_env \<Rightarrow> 's flash_ops \<Rightarrow> 'h bus \<Rightarrow> 's \<Rightarrow> 'h \<Rightarrow> 'h" where
  "verify_and_report C F B s h =
     (let h = uart_log_printf B (ascii ''VERIFY: slot A @ 0x%08x ... '') [VaInt SLOT_A_ADDR] h;
          (a, h) = crypto_verify_firmware_io C F B s SLOT_A_ADDR h;
          h = uart_log_puts B (ascii (if a then ''OK'' else ''FAIL'') @ crlf) h;
          h = uart_log_printf B (ascii ''VERIFY: slot B @ 0x%08x ... '') [VaInt SLOT_B_ADDR] h;
          (b, h) = crypto_verify_firmware_io C F B s SLOT_B_ADDR h
      in uart_log_puts B (ascii (if b then ''OK'' else ''FAIL'') @ crlf) h)"

datatype recovery_exit = RecoveryReset | RecoveryUndefined

definition is_cmd :: "char \<Rightarrow> char \<Rightarrow> u8 \<Rightarrow> bool" where
  "is_cmd u l c \<longleftrightarrow> c = of_char u \<or> c = of_char l"

partial_function (option) recovery_loop ::
  "crypto_env \<Rightarrow> 's flash_ops \<Rightarrow> delta_env \<Rightarrow> 'h bus \<Rightarrow> 's ota_st \<Rightarrow> 'h
     \<Rightarrow> (recovery_exit \<times> 's ota_st \<times> 'h) option" where
  "recovery_loop C F E B st h =
     (case uart_ota_getc B 1000 (iwdg_kick B h) of (r, h) \<Rightarrow>
        (case r of
           None \<Rightarrow> recovery_loop C F E B st h
         | Some cmd \<Rightarrow>
             if is_cmd CHR ''U'' CHR ''u'' cmd then
               (case ota_client_receive_io C F E B st
                       (uart_log_puts B (ascii ''RECOVERY: starting OTA receive'' @ crlf) h) of
                  None \<Rightarrow> None
                | Some (e, st, h) \<Rightarrow>
                    (case e of
                       OtaReset \<Rightarrow> Some (RecoveryReset, st, h)
                     | OtaUndefined \<Rightarrow> Some (RecoveryUndefined, st, h)
                     | OtaReturned b \<Rightarrow> recovery_loop C F E B st (print_banner B h)))
             else if is_cmd CHR ''V'' CHR ''v'' cmd then
               recovery_loop C F E B st (print_banner B (verify_and_report C F B (bs_flash st) h))
             else if is_cmd CHR ''R'' CHR ''r'' cmd then
               Some (RecoveryReset, st, system_reset B
                 (uart_log_puts B (ascii ''RECOVERY: rebooting on user request'' @ crlf) h))
             else recovery_loop C F E B st h))"

definition recovery_mode_run ::
  "crypto_env \<Rightarrow> 's flash_ops \<Rightarrow> delta_env \<Rightarrow> 'h bus \<Rightarrow> 's ota_st \<Rightarrow> 'h
     \<Rightarrow> (recovery_exit \<times> 's ota_st \<times> 'h) option" where
  "recovery_mode_run C F E B st h = recovery_loop C F E B st (print_banner B h)"

section \<open>The verify command\<close>

text \<open>What the verify command prints for two verdicts.\<close>

definition verify_line :: "char \<Rightarrow> u32 \<Rightarrow> bool \<Rightarrow> u8 list" where
  "verify_line c a ok = ascii (''VERIFY: slot '' @ [c] @ '' @ 0x'') @ hex8 a @ ascii '' ... ''
     @ ascii (if ok then ''OK'' else ''FAIL'') @ crlf"

lemma verify_report_logs:
  "wire_logs w (verify_line CHR ''A'' SLOT_A_ADDR (crypto_verify_firmware C F s SLOT_A_ADDR)
      @ verify_line CHR ''B'' SLOT_B_ADDR (crypto_verify_firmware C F s SLOT_B_ADDR))
    (verify_and_report C F wire_bus s w)"
proof -
  have fa: "ascii ''VERIFY: slot A @ 0x%08x ... '' = ascii ''VERIFY: slot A @ 0x'' @ [0x25, 0x30, 0x38, 0x78] @ ascii '' ... ''"
    and fb: "ascii ''VERIFY: slot B @ 0x%08x ... '' = ascii ''VERIFY: slot B @ 0x'' @ [0x25, 0x30, 0x38, 0x78] @ ascii '' ... ''"
    by (simp_all add: ascii_def)
  have np: "0x25 \<notin> set (ascii ''VERIFY: slot A @ 0x'')" "0x25 \<notin> set (ascii ''VERIFY: slot B @ 0x'')"
    "0x25 \<notin> set (ascii '' ... '')"
    by (simp_all add: ascii_def)
  let ?t = "\<lambda>a. ascii (if crypto_verify_firmware C F s a then ''OK'' else ''FAIL'') @ crlf"
  let ?p = "\<lambda>p a. uart_log_printf wire_bus (p @ [0x25, 0x30, 0x38, 0x78] @ ascii '' ... '') [VaInt a]"
  let ?v = "\<lambda>a h. crypto_verify_firmware_io C F wire_bus s a h"
  have line: "wire_logs v ((p @ hex8 a @ ascii '' ... '') @ ?t a) (uart_log_puts wire_bus (?t a) (snd (?v a (?p p a v))))"
    if "0x25 \<notin> set p" for p a v
    by (rule wire_logs_trans [OF log_kicks.verify [OF surjective_pairing wire_printf_hex8 [OF that np(3)]] wire_log_puts])
  have v: "?v a h = (crypto_verify_firmware C F s a, snd (?v a h))" for a h
    by (rule io_split [OF crypto_verify_firmware_io_fst])
  have r: "verify_and_report C F wire_bus s w = (let h = ?p (ascii ''VERIFY: slot A @ 0x'') SLOT_A_ADDR w;
      h = uart_log_puts wire_bus (?t SLOT_A_ADDR) (snd (?v SLOT_A_ADDR h));
      h = ?p (ascii ''VERIFY: slot B @ 0x'') SLOT_B_ADDR h
    in uart_log_puts wire_bus (?t SLOT_B_ADDR) (snd (?v SLOT_B_ADDR h)))"
    unfolding verify_and_report_def fa fb Let_def by (simp add: split_beta)
  from wire_logs_trans [OF line [OF np(1), of w SLOT_A_ADDR] line [OF np(2), of _ SLOT_B_ADDR]]
  show ?thesis
    unfolding r by (simp only: Let_def verify_line_def append_assoc append.simps)
qed

section \<open>The menu\<close>

lemma recovery_getc:
  obtains w' where "uart_ota_getc wire_bus 1000 (iwdg_kick wire_bus w) = (fst (poll (getc_budget 1000) (w_rx w)), w')"
    "wire_adv w (snd (poll (getc_budget 1000) (w_rx w))) w'"
proof -
  have k: "wire_adv w (w_rx w) (iwdg_kick wire_bus w)" by (rule wire_kick [OF wire_adv_refl])
  then have rx: "w_rx (iwdg_kick wire_bus w) = w_rx w" by (simp add: wire_adv_def)
  note g = wire_getc [where t = 1000 and w = "iwdg_kick wire_bus w", unfolded rx]
  show thesis
    by (rule that [of "snd (uart_ota_getc wire_bus 1000 (iwdg_kick wire_bus w))"])
      (use g wire_adv_trans [OF k] in \<open>simp_all add: prod_eq_iff\<close>)
qed

lemma wire_banner: "w_rx (print_banner wire_bus w) = w_rx w"
  using wire_log_puts [of w recovery_banner] by (simp add: print_banner_def wire_logs_def)

lemma wire_verify_rx: "w_rx (verify_and_report C F wire_bus s w) = w_rx w"
  using verify_report_logs [of w C F s] by (simp add: wire_logs_def)

text \<open>
  The menu is left only after an upload or a reboot command was heard; so on a line that
  never carries one, a silent one for instance, it runs for ever.
\<close>

definition leaves_menu :: "u8 \<Rightarrow> bool" where
  "leaves_menu c \<longleftrightarrow> is_cmd CHR ''U'' CHR ''u'' c \<or> is_cmd CHR ''R'' CHR ''r'' c"

lemma recovery_left:
  "recovery_loop C F E wire_bus st w = Some x \<Longrightarrow> \<exists>c \<in> set (heard (w_rx w)). leaves_menu c"
proof -
  have "B = wire_bus \<longrightarrow> (\<exists>c \<in> set (heard (w_rx w)). leaves_menu c)"
    if "recovery_loop C F E B st w = Some x" for B :: "wire bus" and C F E st w x
  proof (induction rule: recovery_loop.raw_induct [OF _ that])
    case (1 loop C F E B st w x)
    show ?case
    proof
      assume B: "B = wire_bus"
      obtain w1 where g: "uart_ota_getc wire_bus 1000 (iwdg_kick wire_bus w)
          = (fst (poll (getc_budget 1000) (w_rx w)), w1)" "wire_adv w (snd (poll (getc_budget 1000) (w_rx w))) w1"
        by (rule recovery_getc)
      obtain r rx where p: "poll (getc_budget 1000) (w_rx w) = (r, rx)" by fastforce
      have h: "set (heard (w_rx w)) = (case r of None \<Rightarrow> {} | Some b \<Rightarrow> {b}) \<union> set (heard (w_rx w1))"
        using poll_heard [OF p] g(2) by (auto simp: p wire_adv_def split: option.split)
      have ih: "\<exists>c \<in> set (heard (w_rx w1)). leaves_menu c"
        if "loop C F E wire_bus st w2 = Some y" "w_rx w2 = w_rx w1" for w2 y
        using 1(1) [of C F E wire_bus st w2 y] that by simp
      show "\<exists>c \<in> set (heard (w_rx w)). leaves_menu c"
      proof (cases r)
        case None
        then show ?thesis using 1(2) ih h by (auto simp: B g(1) p)
      next
        case (Some c)
        show ?thesis
        proof (cases "leaves_menu c")
          case True
          then show ?thesis using h Some by auto
        next
          case False
          then have "loop C F E wire_bus st (if is_cmd CHR ''V'' CHR ''v'' c
              then print_banner wire_bus (verify_and_report C F wire_bus (bs_flash st) w1) else w1) = Some x"
            using 1(2) Some by (auto simp: B g(1) p leaves_menu_def)
          from ih [OF this] have "\<exists>c \<in> set (heard (w_rx w1)). leaves_menu c"
            by (simp add: wire_banner wire_verify_rx)
          then show ?thesis using h by auto
        qed
      qed
    qed
  qed
  then show "recovery_loop C F E wire_bus st w = Some x \<Longrightarrow> \<exists>c \<in> set (heard (w_rx w)). leaves_menu c" by blast
qed

lemma recovery_runs_forever:
  assumes "\<forall>c \<in> set (heard (w_rx w)). \<not> leaves_menu c"
  shows "recovery_mode_run C F E wire_bus st w = None"
  using recovery_left [of C F E st "print_banner wire_bus w"] assms
  by (cases "recovery_mode_run C F E wire_bus st w") (auto simp: recovery_mode_run_def wire_banner)

text \<open>
  Idle time and harmless bytes before a command are passed over, at most with a report on the
  log.
\<close>

lemma poll_prefix:
  assumes "0 < n"
  shows "poll n (pre @ Some c # rx) = (Some c, rx) \<and> heard pre = []
    \<or> (\<exists>d q. poll n (pre @ Some c # rx) = (d, q @ Some c # rx) \<and> length q < length pre
        \<and> heard pre = (case d of None \<Rightarrow> [] | Some b \<Rightarrow> [b]) @ heard q)"
  using assms
proof (induction pre arbitrary: n)
  case Nil
  then show ?case by simp
next
  case (Cons x pre)
  then obtain m where m: "n = Suc m" by (cases n) auto
  show ?case
  proof (cases x)
    case None
    show ?thesis
    proof (cases m)
      case (Suc k)
      from Cons.IH [of m] Suc None m show ?thesis by fastforce
    qed (use None m in auto)
  qed (use m in auto)
qed

lemma recovery_hears:
  assumes "\<forall>d \<in> set (heard pre). \<not> leaves_menu d" "w_rx w = pre @ Some c # rx"
  shows "\<exists>w1 w2. recovery_loop C F E wire_bus st w = recovery_loop C F E wire_bus st w1
    \<and> uart_ota_getc wire_bus 1000 (iwdg_kick wire_bus w1) = (Some c, w2) \<and> w_rx w2 = rx \<and> w_tx w2 = w_tx w"
  using assms
proof (induction "length pre" arbitrary: pre w rule: less_induct)
  case less
  obtain w1 where g: "uart_ota_getc wire_bus 1000 (iwdg_kick wire_bus w) = (fst (poll (getc_budget 1000) (w_rx w)), w1)"
    "wire_adv w (snd (poll (getc_budget 1000) (w_rx w))) w1"
    by (rule recovery_getc)
  have "0 < getc_budget 1000" by (simp add: getc_budget_def POLLS_PER_MS_def)
  from poll_prefix [OF this, of pre c rx] show ?case
  proof (elim disjE exE conjE)
    assume "poll (getc_budget 1000) (pre @ Some c # rx) = (Some c, rx)"
    then show ?thesis using g less.prems(2) by (auto simp: wire_adv_def)
  next
    fix r q assume p: "poll (getc_budget 1000) (pre @ Some c # rx) = (r, q @ Some c # rx)" "length q < length pre"
      "heard pre = (case r of None \<Rightarrow> [] | Some b \<Rightarrow> [b]) @ heard q"
    define w2 where "w2 = (case r of None \<Rightarrow> w1 | Some d \<Rightarrow> if is_cmd CHR ''V'' CHR ''v'' d
      then print_banner wire_bus (verify_and_report C F wire_bus (bs_flash st) w1) else w1)"
    have rx: "w_rx w2 = q @ Some c # rx" and tx: "w_tx w2 = w_tx w"
      using g(2) p(1) less.prems(2) wire_log_puts [of _ recovery_banner] verify_report_logs [of w1 C F "bs_flash st"]
      by (auto simp: w2_def print_banner_def wire_logs_def wire_adv_def split: option.split)
    have q: "\<forall>d \<in> set (heard q). \<not> leaves_menu d" using less.prems(1) p(3) by auto
    have "recovery_loop C F E wire_bus st w = recovery_loop C F E wire_bus st w2"
    proof (cases r)
      case None
      then show ?thesis
        using g(1) p(1) less.prems(2) by (subst recovery_loop.simps) (simp add: w2_def)
    next
      case (Some d)
      then have "\<not> leaves_menu d" using less.prems(1) p(3) by simp
      then show ?thesis
        using g(1) p(1) less.prems(2) Some by (subst recovery_loop.simps) (simp add: w2_def leaves_menu_def)
    qed
    then show ?thesis using less.hyps [OF p(2) q rx] tx by auto
  qed
qed

text \<open>A reboot command gets through whatever harmless bytes precede it, and changes nothing.\<close>

lemma recovery_reboot:
  assumes pre: "\<forall>d \<in> set (heard pre). \<not> leaves_menu d" and cmd: "is_cmd CHR ''R'' CHR ''r'' c"
    and rx: "w_rx w = pre @ Some c # rx"
  obtains w' where "recovery_mode_run C F E wire_bus st w = Some (RecoveryReset, st, w')"
proof -
  have "w_rx (print_banner wire_bus w) = pre @ Some c # rx" by (simp add: wire_banner rx)
  then obtain w1 w2 where w1: "recovery_loop C F E wire_bus st (print_banner wire_bus w) = recovery_loop C F E wire_bus st w1"
    "uart_ota_getc wire_bus 1000 (iwdg_kick wire_bus w1) = (Some c, w2)" using recovery_hears [OF pre] by metis
  have "\<not> is_cmd CHR ''U'' CHR ''u'' c" "\<not> is_cmd CHR ''V'' CHR ''v'' c" using cmd by (auto simp: is_cmd_def)
  then have "recovery_loop C F E wire_bus st w1 = Some (RecoveryReset, st, system_reset wire_bus
      (uart_log_puts wire_bus (ascii ''RECOVERY: rebooting on user request'' @ crlf) w2))"
    using w1(2) cmd by (subst recovery_loop.simps) simp
  then show thesis using that w1(1) by (simp add: recovery_mode_run_def)
qed

text \<open>An upload command starts the reception, and a reset asked for there ends the menu.\<close>

lemma recovery_upload:
  assumes pre: "\<forall>d \<in> set (heard pre). \<not> leaves_menu d" and cmd: "is_cmd CHR ''U'' CHR ''u'' c"
    and rx: "w_rx w = pre @ Some c # rx"
    and recv: "\<And>v. w_rx v = rx \<Longrightarrow> \<exists>v'. ota_client_receive C F E wire_bus st v = Some (OtaReset, st', v') \<and> w_tx v' = w_tx v @ bs"
  obtains w' where "recovery_mode_run C F E wire_bus st w = Some (RecoveryReset, st', w')" "w_tx w' = w_tx w @ bs"
proof -
  have b: "w_rx (print_banner wire_bus w) = pre @ Some c # rx" "w_tx (print_banner wire_bus w) = w_tx w"
    using wire_log_puts [of w recovery_banner] by (simp_all add: rx print_banner_def wire_logs_def)
  then obtain w1 w2 where w1: "recovery_loop C F E wire_bus st (print_banner wire_bus w) = recovery_loop C F E wire_bus st w1"
    "uart_ota_getc wire_bus 1000 (iwdg_kick wire_bus w1) = (Some c, w2)" "w_rx w2 = rx" "w_tx w2 = w_tx w"
    using recovery_hears [OF pre b(1)] by metis
  let ?w3 = "uart_log_puts wire_bus (ascii ''RECOVERY: starting OTA receive'' @ crlf) w2"
  have w3: "w_rx ?w3 = rx" "w_tx ?w3 = w_tx w"
    using wire_log_puts [of w2] w1(3,4) by (simp_all add: wire_logs_def)
  obtain v' where v': "ota_client_receive C F E wire_bus st ?w3 = Some (OtaReset, st', v')" "w_tx v' = w_tx w @ bs"
    using recv [OF w3(1)] w3(2) by auto
  obtain w' where w': "ota_client_receive_io C F E wire_bus st ?w3 = Some (OtaReset, st', w')" "wire_same w' v'"
    by (rule ota_client_receive_follows [OF v'(1)])
  have "recovery_loop C F E wire_bus st w1 = Some (RecoveryReset, st', w')"
    using w1(2) cmd w'(1) by (subst recovery_loop.simps) simp
  then show thesis using that [of w'] w1(1) w'(2) v'(2) by (simp add: recovery_mode_run_def wire_same_def)
qed

section \<open>What the menu can do\<close>

text \<open>
  The menu by invariant: what every reception that returns preserves holds whenever the menu
  waits for a command.
\<close>

lemma recovery_invariant:
  assumes run: "recovery_loop C F E B st h = Some (e, st', h')" and init: "Q st"
    and upload: "\<And>st h x st2 h2. Q st \<Longrightarrow> ota_client_receive_io C F E B st h = Some (x, st2, h2) \<Longrightarrow>
      (case x of OtaReturned b \<Rightarrow> Q st2 | OtaReset \<Rightarrow> R RecoveryReset st2 | OtaUndefined \<Rightarrow> R RecoveryUndefined st2)"
    and reboot: "\<And>st. Q st \<Longrightarrow> R RecoveryReset st"
  shows "R e st'"
proof -
  have "C' = C \<and> F' = F \<and> E' = E \<and> B' = B \<and> Q st \<longrightarrow> R (fst x) (fst (snd x))"
    if "recovery_loop C' F' E' B' st h = Some x" for C' F' E' B' st h x
  proof (induction rule: recovery_loop.raw_induct [OF _ that])
    case (1 loop C' F' E' B' st h x)
    note ih = 1(1) and eq = 1(2)
    show ?case
    proof
      assume a: "C' = C \<and> F' = F \<and> E' = E \<and> B' = B \<and> Q st"
      then have q: "Q st" by simp
      obtain r h1 where g: "uart_ota_getc B 1000 (iwdg_kick B h) = (r, h1)" by fastforce
      have again: "R (fst x) (fst (snd x))" if "loop C F E B st2 h2 = Some x" "Q st2" for st2 h2
        using ih [OF that(1)] that(2) by simp
      show "R (fst x) (fst (snd x))"
      proof (cases "\<exists>c. r = Some c \<and> is_cmd CHR ''U'' CHR ''u'' c")
        case True
        then obtain oe st2 h2 where o: "ota_client_receive_io C F E B st
            (uart_log_puts B (ascii ''RECOVERY: starting OTA receive'' @ crlf) h1) = Some (oe, st2, h2)"
          and x: "(case oe of OtaReset \<Rightarrow> Some (RecoveryReset, st2, h2) | OtaUndefined \<Rightarrow> Some (RecoveryUndefined, st2, h2)
            | OtaReturned b \<Rightarrow> loop C F E B st2 (print_banner B h2)) = Some x"
          using eq a by (auto simp: g split: option.splits)
        from upload [OF q o] x again show ?thesis by (auto split: ota_exit.splits)
      next
        case False
        then have "(\<exists>st2 h2. loop C F E B st2 h2 = Some x \<and> st2 = st) \<or> (\<exists>h2. x = (RecoveryReset, st, h2))"
          using eq a by (cases r) (auto simp: g split: if_splits)
        then show ?thesis using again q reboot [OF q] by (metis fst_conv snd_conv)
      qed
    qed
  qed
  from this [OF run] init show ?thesis by simp
qed

context flash_device
begin

lemma recovery_outcome_loop:
  assumes pk: "length (public_key_sha256 C) = 32"
    and run: "recovery_loop C F E wire_bus st w = Some (e, st', w')"
  shows "boot_sectors_same byte (bs_flash st) (bs_flash st')
    \<and> (bs_shared st' = bs_shared st \<or> e = RecoveryReset \<and> swap_requested C (byte (bs_flash st')) (bs_shared st'))"
proof -
  define Q where "Q s \<longleftrightarrow> boot_sectors_same byte (bs_flash st) (bs_flash s) \<and> bs_shared s = bs_shared st" for s :: "'s ota_st"
  define R where "R x s \<longleftrightarrow> boot_sectors_same byte (bs_flash st) (bs_flash s)
    \<and> (bs_shared s = bs_shared st \<or> x = RecoveryReset \<and> swap_requested C (byte (bs_flash s)) (bs_shared s))"
    for x and s :: "'s ota_st"
  have "R e st'"
  proof (rule recovery_invariant [OF run])
    show "Q st" by (simp add: Q_def boot_sectors_refl)
    show "R RecoveryReset s" if "Q s" for s using that by (simp add: Q_def R_def)
    fix s v x s2 v2
    assume q: "Q s" and r: "ota_client_receive_io C F E wire_bus s v = Some (x, s2, v2)"
    obtain x' s2' v2' where o: "ota_client_receive_io C F E wire_bus s v = Some (x', s2', v2')"
      "boot_sectors_same byte (bs_flash s) (bs_flash s2')"
      "case x' of OtaReturned b \<Rightarrow> \<not> b \<and> bs_shared s2' = bs_shared s
        | OtaUndefined \<Rightarrow> bs_shared s2' = bs_shared s \<and> os_kind (g_state s2') = OTA_KIND_DELTA
        | OtaReset \<Rightarrow> sb_magic (bs_shared s2') = SHARED_BLOCK_MAGIC
            \<and> swap_requested C (byte (bs_flash s2')) (bs_shared s2')"
      by (rule ota_receive_io [OF pk])
    have "boot_sectors_same byte (bs_flash st) (bs_flash s2)"
      using q o(1,2) r boot_sectors_trans [of byte "bs_flash st" "bs_flash s"] by (simp add: Q_def)
    then show "case x of OtaReturned b \<Rightarrow> Q s2 | OtaReset \<Rightarrow> R RecoveryReset s2 | OtaUndefined \<Rightarrow> R RecoveryUndefined s2"
      using o(1,3) q r by (auto simp: Q_def R_def split: ota_exit.splits)
  qed
  then show ?thesis by (simp add: R_def)
qed

lemma recovery_outcome:
  assumes "length (public_key_sha256 C) = 32"
    and "recovery_mode_run C F E wire_bus st w = Some (e, st', w')"
  shows "boot_sectors_same byte (bs_flash st) (bs_flash st')"
    and "bs_shared st' = bs_shared st \<or> e = RecoveryReset \<and> swap_requested C (byte (bs_flash st')) (bs_shared st')"
  using recovery_outcome_loop [OF assms(1)] assms(2) unfolding recovery_mode_run_def by blast+

end

end
