(* ===== verification/Boot_Io.thy ===== *)
theory Boot_Io
  imports Recovery
begin

unbundle bit_operations_syntax

text \<open>
  \<^verbatim>\<open>bootloader/src/main.c\<close> once more, as it runs: the peripheral initialisation, the banner and
  every log line, the watchdog refreshes of the verification, the recovery menu and the jump, threaded through the bus of \<open>Bus\<close>.  The
  functions are those of \<open>Boot_Main\<close> with their output; \<open>main_io_is_main\<close> says that the output
  decides nothing, so that the theorems about \<open>Boot_Main.main\<close> are theorems about the program.
  The flash state and the other peripherals are separate arguments.
\<close>

section \<open>The functions with their output\<close>

definition log_banner :: "'h bus \<Rightarrow> BootConfig_t \<Rightarrow> 'h \<Rightarrow> 'h" where
  "log_banner B cfg h =
     (let h = log_line B [] h;
          h = log_line B (replicate 46 CHR ''='') h;
          h = log_line B '' Secure Dual-Bank Bootloader (P-256 + SHA-256)'' h;
          h = log_line B (replicate 46 CHR ''='') h
      in log_fmt B '' active=%c  attempts=%u  ver_a=0x%08x  ver_b=0x%08x''
           [VaInt (ucast (cfg_active_slot cfg)), VaInt (ucast (cfg_boot_attempts cfg)),
            VaInt (cfg_slot_a_version cfg), VaInt (cfg_slot_b_version cfg)] h)"

definition save_or_warn_io ::
  "'s flash_ops \<Rightarrow> 'h bus \<Rightarrow> BootConfig_t \<Rightarrow> string \<Rightarrow> 's boot_st \<Rightarrow> 'h \<Rightarrow> 's boot_st \<times> 'h" where
  "save_or_warn_io F B cfg what st h =
     (case boot_config_save F (bs_flash st) cfg of (ok, fl) \<Rightarrow>
        (st\<lparr>bs_flash := fl\<rparr>,
         if \<not> ok then log_fmt B ''WARN: failed to persist config (%s)'' [VaStr (Some (ascii what))] h else h))"

definition check_app_confirmation_io ::
  "'h bus \<Rightarrow> BootConfig_t \<Rightarrow> bool \<Rightarrow> 's boot_st \<Rightarrow> 'h \<Rightarrow> (BootConfig_t \<times> bool \<times> 's boot_st) \<times> 'h" where
  "check_app_confirmation_io B cfg cfg_dirty st h =
     (let sh = bs_shared st;
          (cfg, cfg_dirty, h) =
            (if sb_magic sh = SHARED_BLOCK_MAGIC \<and> sb_boot_confirmed sh \<noteq> 0
             then (cfg\<lparr>cfg_boot_attempts := 0, cfg_last_good_boot := cfg_last_good_boot cfg + 1\<rparr>, True,
                   log_line B ''INFO: previous boot confirmed by application'' h)
             else (cfg, cfg_dirty, log_line B ''INFO: no boot confirmation from previous app (cold or crash)'' h))
      in ((cfg, cfg_dirty, st\<lparr>bs_shared := sh\<lparr>sb_boot_confirmed := 0, sb_magic := SHARED_BLOCK_MAGIC\<rparr>\<rparr>), h))"

definition process_ota_pending_swap_io ::
  "crypto_env \<Rightarrow> 's flash_ops \<Rightarrow> 'h bus \<Rightarrow> BootConfig_t \<Rightarrow> bool \<Rightarrow> 's boot_st \<Rightarrow> 'h
     \<Rightarrow> (BootConfig_t \<times> bool \<times> 's boot_st) \<times> 'h" where
  "process_ota_pending_swap_io C F B cfg cfg_dirty st h =
     (if sb_ota_pending (bs_shared st) = 0 then ((cfg, cfg_dirty, st), h)
      else
        let st = st\<lparr>bs_shared := (bs_shared st)\<lparr>sb_ota_pending := 0\<rparr>\<rparr>;
            inactive = memory_map_other_slot (cfg_active_slot cfg);
            inactive_addr = memory_map_slot_addr inactive;
            h = log_fmt B ''INFO: OTA pending; verifying inactive slot %c at 0x%08x''
                  [VaInt (ucast inactive), VaInt inactive_addr] h
        in case crypto_verify_firmware_io C F B (bs_flash st) inactive_addr h of (valid, h) \<Rightarrow>
        if \<not> valid then
             ((cfg, cfg_dirty, st), log_line B ''WARN: inactive slot failed verify; staying on active'' h)
        else case fl_read F (bs_flash st) inactive_addr FIRMWARE_HEADER_SIZE of (rs, hb) \<Rightarrow>
          let hdr = hdr_of_bytes hb in
          if rs \<noteq> FLASH_OK \<or> fh_magic hdr \<noteq> FIRMWARE_MAGIC then
            ((cfg, cfg_dirty, st),
             log_line B ''WARN: failed to read inactive slot header; staying on active'' h)
          else if \<not> boot_config_firmware_allowed cfg (fh_version hdr) then
            ((cfg, cfg_dirty, st),
             log_fmt B ''WARN: reject inactive slot version 0x%08x (floor 0x%08x)''
               [VaInt (fh_version hdr), VaInt (boot_config_antidowngrade_floor cfg)] h)
          else
            let old_active = cfg_active_slot cfg;
                cfg = boot_config_record_ota_to_slot cfg inactive (fh_version hdr);
                cfg = cfg\<lparr>cfg_active_slot := inactive, cfg_boot_attempts := 0\<rparr>;
                (st, h) = save_or_warn_io F B cfg ''ota-swap-commit'' st h
            in case crypto_verify_firmware_io C F B (bs_flash st)
                      (memory_map_slot_addr (cfg_active_slot cfg)) h of (valid, h) \<Rightarrow>
               if valid
               then ((cfg, True, st),
                     log_fmt B ''INFO: OTA swap committed; new active slot=%c''
                       [VaInt (ucast (cfg_active_slot cfg))] h)
               else (let h = log_line B ''WARN: post-swap re-verify failed; reverting'' h;
                         cfg = cfg\<lparr>cfg_active_slot := old_active\<rparr>;
                         (st, h) = save_or_warn_io F B cfg ''ota-swap-revert'' st h
                     in ((cfg, True, st), h)))"

fun pick_loop_io ::
  "nat \<Rightarrow> crypto_env \<Rightarrow> 's flash_ops \<Rightarrow> 'h bus \<Rightarrow> 's \<Rightarrow> BootConfig_t \<Rightarrow> bool \<Rightarrow> 'h
     \<Rightarrow> (u8 \<times> BootConfig_t \<times> bool) \<times> 'h" where
  "pick_loop_io 0 C F B s cfg cfg_dirty h =
     ((0, cfg, cfg_dirty), log_line B ''ERR : MAX_SWAP_RETRIES exceeded; entering recovery'' h)"
| "pick_loop_io (Suc n) C F B s cfg cfg_dirty h =
     (let active_addr = memory_map_slot_addr (cfg_active_slot cfg);
          h = log_fmt B ''INFO: verifying active slot %c at 0x%08x''
                [VaInt (ucast (cfg_active_slot cfg)), VaInt active_addr] h in
      case crypto_verify_firmware_io C F B s active_addr h of (valid, h) \<Rightarrow>
      if valid then
        if cfg_boot_attempts cfg \<ge> MAX_BOOT_ATTEMPTS then
          pick_loop_io n C F B s
            (cfg\<lparr>cfg_active_slot := memory_map_other_slot (cfg_active_slot cfg), cfg_boot_attempts := 0\<rparr>)
            True
            (log_fmt B ''WARN: %u consecutive boot attempts on slot %c; switching slot''
               [VaInt (ucast (cfg_boot_attempts cfg)), VaInt (ucast (cfg_active_slot cfg))] h)
        else (let cfg = cfg\<lparr>cfg_boot_attempts := cfg_boot_attempts cfg + 1\<rparr>
              in ((cfg_active_slot cfg, cfg, True), h))
      else
        let other_slot = memory_map_other_slot (cfg_active_slot cfg);
            other_addr = memory_map_slot_addr other_slot;
            h = log_fmt B ''WARN: active slot %c invalid; trying %c at 0x%08x''
                  [VaInt (ucast (cfg_active_slot cfg)), VaInt (ucast other_slot), VaInt other_addr] h
        in case crypto_verify_firmware_io C F B s other_addr h of (valid, h) \<Rightarrow>
           if valid
           then (let cfg = cfg\<lparr>cfg_active_slot := other_slot, cfg_boot_attempts := 0\<rparr>
                 in ((cfg_active_slot cfg, cfg, True), h))
           else ((0, cfg, cfg_dirty), log_line B ''ERR : both slots failed verification'' h))"

definition pick_slot_to_boot_io ::
  "crypto_env \<Rightarrow> 's flash_ops \<Rightarrow> 'h bus \<Rightarrow> 's \<Rightarrow> BootConfig_t \<Rightarrow> bool \<Rightarrow> 'h
     \<Rightarrow> (u8 \<times> BootConfig_t \<times> bool) \<times> 'h" where
  "pick_slot_to_boot_io C F B s cfg cfg_dirty h = pick_loop_io MAX_SWAP_RETRIES C F B s cfg cfg_dirty h"

section \<open>The program\<close>

text \<open>
  The ends of a run: the application is started with the core set up for it, the core is reset
  out of the recovery menu, or behaviour is undefined there; a run that never ends (the menu,
  or the halt on a misaligned vector table) is \<open>None\<close>.
\<close>

datatype 's boot_exit = Started cpu_t "'s boot_st" | WasReset "'s ota_st" | WasUndefined "'s ota_st"

definition jump_io ::
  "'s flash_ops \<Rightarrow> 'h bus \<Rightarrow> 's boot_st \<Rightarrow> u32 \<Rightarrow> cpu_t \<Rightarrow> 'h \<Rightarrow> ('s boot_exit \<times> 'h) option" where
  "jump_io F B st slot_addr cpu h =
     (case bootloader_jump_to_application F (bs_flash st) slot_addr cpu of
        None \<Rightarrow> None
      | Some cpu \<Rightarrow> Some (Started cpu st, h))"

definition recover_io ::
  "crypto_env \<Rightarrow> 's flash_ops \<Rightarrow> delta_env \<Rightarrow> 'h bus \<Rightarrow> 's boot_st \<Rightarrow> 'h \<Rightarrow> ('s boot_exit \<times> 'h) option" where
  "recover_io C F E B st h =
     (case recovery_mode_run C F E B (boot_st.extend st (ota_st.fields ota_state_zero)) h of
        None \<Rightarrow> None
      | Some (RecoveryReset, st, h) \<Rightarrow> Some (WasReset st, h)
      | Some (RecoveryUndefined, st, h) \<Rightarrow> Some (WasUndefined st, h))"

definition main_io ::
  "crypto_env \<Rightarrow> 's flash_ops \<Rightarrow> ('s \<Rightarrow> flash_status_t \<times> 's) \<Rightarrow> delta_env \<Rightarrow> 'h bus \<Rightarrow> cpu_t
     \<Rightarrow> 's boot_st \<Rightarrow> 'h \<Rightarrow> ('s boot_exit \<times> 'h) option" where
  "main_io C F flash_init E B cpu st h =
     (let h = iwdg_init B h;
          h = uart_init B h;
          st = st\<lparr>bs_flash := snd (flash_init (bs_flash st))\<rparr>;
          ((cfg_loaded_ok, cfg), h) = boot_config_load_io C F B (bs_flash st) h;
          cfg_dirty = (\<not> cfg_loaded_ok);
          h = (if \<not> cfg_loaded_ok then log_line B ''WARN: boot config invalid; using defaults'' h else h);
          h = log_banner B cfg h;
          ((cfg, cfg_dirty, st), h) = check_app_confirmation_io B cfg cfg_dirty st h;
          (cfg_dirty, st, h) = (if cfg_dirty
             then (case save_or_warn_io F B cfg ''post-confirm-check'' st h of (st, h) \<Rightarrow> (False, st, h))
             else (cfg_dirty, st, h));
          ((cfg, cfg_dirty, st), h) = process_ota_pending_swap_io C F B cfg cfg_dirty st h;
          (cfg_dirty, st, h) = (if cfg_dirty
             then (case save_or_warn_io F B cfg ''post-ota-swap'' st h of (st, h) \<Rightarrow> (False, st, h))
             else (cfg_dirty, st, h));
          ((boot_slot, cfg, cfg_dirty), h) = pick_slot_to_boot_io C F B (bs_flash st) cfg cfg_dirty h;
          (st, h) = (if cfg_dirty then save_or_warn_io F B cfg ''post-pick'' st h else (st, h))
      in if boot_slot = 0 then recover_io C F E B st h
         else let slot_addr = memory_map_slot_addr boot_slot;
                  h = log_fmt B ''INFO: jumping to slot %c (0x%08x + 0x%x)''
                        [VaInt (ucast boot_slot), VaInt slot_addr, VaInt FIRMWARE_HEADER_SIZE] h
              in jump_io F B st slot_addr cpu h)"

section \<open>The output decides nothing\<close>

lemma save_or_warn_io_fst [simp]: "fst (save_or_warn_io F B cfg what st h) = save_or_warn F cfg st"
  by (simp add: save_or_warn_io_def save_or_warn_def split: prod.split)

lemma check_app_confirmation_io_fst [simp]:
  "fst (check_app_confirmation_io B cfg d st h) = check_app_confirmation cfg d st"
  by (simp add: check_app_confirmation_io_def check_app_confirmation_def Let_def)

lemma process_ota_pending_swap_io_fst [simp]:
  "fst (process_ota_pending_swap_io C F B cfg d st h) = process_ota_pending_swap C F cfg d st"
proof -
  have s: "save_or_warn_io F B c what st h = (save_or_warn F c st, snd (save_or_warn_io F B c what st h))"
    for c what st h by (simp add: prod_eq_iff)
  have v: "crypto_verify_firmware_io C F B fl a h = (crypto_verify_firmware C F fl a, snd (crypto_verify_firmware_io C F B fl a h))"
    for fl a h by (rule io_split [OF crypto_verify_firmware_io_fst])
  show ?thesis
    unfolding process_ota_pending_swap_io_def process_ota_pending_swap_def
    by (subst (1 2) s, subst (1 2) v) (simp add: Let_def split: prod.split)
qed

lemma pick_loop_io_fst [simp]: "fst (pick_loop_io n C F B s cfg d h) = pick_loop n C F s cfg d"
proof (induction n arbitrary: cfg d h)
  case (Suc n)
  have v: "crypto_verify_firmware_io C F B fl a h = (crypto_verify_firmware C F fl a, snd (crypto_verify_firmware_io C F B fl a h))"
    for fl a h by (rule io_split [OF crypto_verify_firmware_io_fst])
  show ?case
    unfolding pick_loop_io.simps pick_loop.simps by (subst (1 2) v) (simp add: Let_def Suc.IH)
qed simp

lemma pick_slot_to_boot_io_fst [simp]:
  "fst (pick_slot_to_boot_io C F B s cfg d h) = pick_slot_to_boot C F s cfg d"
  by (simp add: pick_slot_to_boot_io_def pick_slot_to_boot_def)

text \<open>How a run ends, from the outcome of \<open>Boot_Main.main\<close> and the state of the peripherals.\<close>

definition exit_io ::
  "crypto_env \<Rightarrow> 's flash_ops \<Rightarrow> delta_env \<Rightarrow> 'h bus \<Rightarrow> cpu_t \<Rightarrow> main_exit \<times> 's boot_st \<Rightarrow> 'h
     \<Rightarrow> ('s boot_exit \<times> 'h) option" where
  "exit_io C F E B cpu r h =
     (case fst r of
        JumpTo a \<Rightarrow> jump_io F B (snd r) a cpu h
      | RecoveryMode \<Rightarrow> recover_io C F E B (snd r) h)"

text \<open>
  Whatever a refresh and a character of log output keep, the boot keeps from the end of the
  initialisation to its exit.
\<close>

context io_frame
begin

lemma save_pair:
  assumes "keeps h"
  obtains h' where "save_or_warn_io F B c what st h = (save_or_warn F c st, h')" "keeps h'"
proof (rule that)
  show "save_or_warn_io F B c what st h = (save_or_warn F c st, snd (save_or_warn_io F B c what st h))"
    by (rule io_split [OF save_or_warn_io_fst])
  show "keeps (snd (save_or_warn_io F B c what st h))"
    using assms by (simp add: save_or_warn_io_def fmt split: prod.split)
qed

lemma maybe_save_pair:
  assumes "keeps h"
  obtains h' where "(if d then (case save_or_warn_io F B c what st h of (st, h) \<Rightarrow> (False, st, h)) else (d, st, h))
      = (False, if d then save_or_warn F c st else st, h')" "keeps h'"
  using assms by (cases d) (auto intro: save_pair [of h F c what st])

lemma confirm_pair:
  assumes "keeps h"
  obtains h' where "check_app_confirmation_io B c d st h = (check_app_confirmation c d st, h')" "keeps h'"
proof (rule that)
  show "check_app_confirmation_io B c d st h = (check_app_confirmation c d st, snd (check_app_confirmation_io B c d st h))"
    by (rule io_split [OF check_app_confirmation_io_fst])
  show "keeps (snd (check_app_confirmation_io B c d st h))"
    using assms by (simp add: check_app_confirmation_io_def Let_def line)
qed

lemma swap_pair:
  assumes "keeps h"
  obtains h' where "process_ota_pending_swap_io C F B c d st h = (process_ota_pending_swap C F c d st, h')" "keeps h'"
proof (rule that)
  show "process_ota_pending_swap_io C F B c d st h
      = (process_ota_pending_swap C F c d st, snd (process_ota_pending_swap_io C F B c d st h))"
    by (rule io_split [OF process_ota_pending_swap_io_fst])
  show "keeps (snd (process_ota_pending_swap_io C F B c d st h))"
    using assms by (auto simp: process_ota_pending_swap_io_def save_or_warn_io_def Let_def line fmt
        split: prod.splits dest!: verify)
qed

lemma pick: "keeps h \<Longrightarrow> keeps (snd (pick_loop_io n C F B s c d h))"
proof (induction n arbitrary: c d h)
  case (Suc n)
  let ?h = "log_fmt B ''INFO: verifying active slot %c at 0x%08x''
    [VaInt (ucast (cfg_active_slot c)), VaInt (memory_map_slot_addr (cfg_active_slot c))] h"
  obtain v h1 where v: "crypto_verify_firmware_io C F B s (memory_map_slot_addr (cfg_active_slot c)) ?h = (v, h1)"
    by fastforce
  have k: "keeps h1" by (rule verify [OF v fmt [OF Suc.prems]])
  show ?case
    using k Suc.IH unfolding pick_loop_io.simps Let_def v prod.case
    by (auto simp: fmt line split: prod.split dest!: verify)
qed (simp add: line)

lemma pick_pair:
  assumes "keeps h"
  obtains h' where "pick_slot_to_boot_io C F B s c d h = (pick_slot_to_boot C F s c d, h')" "keeps h'"
proof (rule that)
  show "pick_slot_to_boot_io C F B s c d h = (pick_slot_to_boot C F s c d, snd (pick_slot_to_boot_io C F B s c d h))"
    by (rule io_split [OF pick_slot_to_boot_io_fst])
  show "keeps (snd (pick_slot_to_boot_io C F B s c d h))"
    using assms by (simp add: pick_slot_to_boot_io_def pick)
qed

lemma load_pair:
  assumes "keeps h"
  obtains h' where "boot_config_load_io C F B s h = (boot_config_load C F s, h')" "keeps h'"
  using assms io_split [OF boot_config_load_io_fst, of C F B s h] load by metis

lemma main_exit:
  assumes init: "keeps (uart_init B (iwdg_init B h))"
  obtains h' where "main_io C F fi E B cpu st h
      = exit_io C F E B cpu (main C F (st\<lparr>bs_flash := snd (fi (bs_flash st))\<rparr>)) h'" "keeps h'"
proof -
  let ?st = "st\<lparr>bs_flash := snd (fi (bs_flash st))\<rparr>"
  have fl: "bs_flash ?st = snd (fi (bs_flash st))" by simp
  obtain ok c0 where l: "boot_config_load C F (snd (fi (bs_flash st))) = (ok, c0)" by fastforce
  obtain h0 where h0: "boot_config_load_io C F B (snd (fi (bs_flash st))) (uart_init B (iwdg_init B h)) = ((ok, c0), h0)"
    "keeps h0" using load_pair [OF init, where C = C and F = F and s = "snd (fi (bs_flash st))"] unfolding l by blast
  define h1 where "h1 = log_banner B c0
    (if \<not> ok then log_line B ''WARN: boot config invalid; using defaults'' h0 else h0)"
  have k1: "keeps h1" using h0(2) by (simp add: h1_def log_banner_def Let_def line fmt)
  obtain c1 d1 st1 where c1: "check_app_confirmation c0 (\<not> ok) ?st = (c1, d1, st1)" by (metis prod_cases3)
  obtain h2 where h2: "check_app_confirmation_io B c0 (\<not> ok) ?st h1 = ((c1, d1, st1), h2)" "keeps h2"
    using confirm_pair [OF k1, of c0 "\<not> ok" ?st] unfolding c1 by blast
  define st2 where "st2 = (if d1 then save_or_warn F c1 st1 else st1)"
  obtain h3 where h3: "(if d1 then (case save_or_warn_io F B c1 ''post-confirm-check'' st1 h2 of (st, h) \<Rightarrow> (False, st, h))
      else (d1, st1, h2)) = (False, st2, h3)" "keeps h3"
    unfolding st2_def by (rule maybe_save_pair [OF h2(2)])
  obtain c3 d3 st3 where c3: "process_ota_pending_swap C F c1 False st2 = (c3, d3, st3)" by (metis prod_cases3)
  obtain h4 where h4: "process_ota_pending_swap_io C F B c1 False st2 h3 = ((c3, d3, st3), h4)" "keeps h4"
    using swap_pair [OF h3(2), of C F c1 False st2] unfolding c3 by blast
  define st4 where "st4 = (if d3 then save_or_warn F c3 st3 else st3)"
  obtain h5 where h5: "(if d3 then (case save_or_warn_io F B c3 ''post-ota-swap'' st3 h4 of (st, h) \<Rightarrow> (False, st, h))
      else (d3, st3, h4)) = (False, st4, h5)" "keeps h5"
    unfolding st4_def by (rule maybe_save_pair [OF h4(2)])
  obtain sl c5 d5 where c5: "pick_slot_to_boot C F (bs_flash st4) c3 False = (sl, c5, d5)" by (metis prod_cases3)
  obtain h6 where h6: "pick_slot_to_boot_io C F B (bs_flash st4) c3 False h5 = ((sl, c5, d5), h6)" "keeps h6"
    using pick_pair [OF h5(2), of C F "bs_flash st4" c3 False] unfolding c5 by blast
  define st6 where "st6 = (if d5 then save_or_warn F c5 st4 else st4)"
  obtain h7 where h7: "(if d5 then save_or_warn_io F B c5 ''post-pick'' st4 h6 else (st4, h6)) = (st6, h7)" "keeps h7"
    using h6(2) by (cases d5) (auto simp: st6_def intro: save_pair [of h6 F c5 "''post-pick''" st4])
  have m: "main C F ?st = (if sl = 0 then RecoveryMode else JumpTo (memory_map_slot_addr sl), st6)"
    unfolding main_def Let_def fl l prod.case c1 st2_def [symmetric]
    using c3 c5 by (cases d1; cases d3) (simp_all add: st2_def st4_def st6_def)
  define h8 where "h8 = (if sl = 0 then h7 else log_fmt B ''INFO: jumping to slot %c (0x%08x + 0x%x)''
    [VaInt (ucast sl), VaInt (memory_map_slot_addr sl), VaInt FIRMWARE_HEADER_SIZE] h7)"
  have "keeps h8" using h7(2) by (simp add: h8_def fmt)
  moreover have "main_io C F fi E B cpu st h
      = exit_io C F E B cpu (main C F ?st) h8"
    unfolding m exit_io_def
    by (simp only: main_io_def Let_def fl h0(1) prod.case h1_def [symmetric] h2(1) h3(1) h4(1) h5(1) h6(1) h7(1))
      (simp add: h8_def)
  ultimately show thesis using that by blast
qed

end

text \<open>Nothing has to be kept for the exit itself to be the one of \<open>main\<close>.\<close>

interpretation any_bus: io_frame B "\<lambda>_. True" for B
  by unfold_locales simp_all

lemma main_io_is_main:
  "\<exists>h'. main_io C F fi E B cpu st h
     = exit_io C F E B cpu (main C F (st\<lparr>bs_flash := snd (fi (bs_flash st))\<rparr>)) h'"
  by (rule any_bus.main_exit [where B = B and h = h and C = C and F = F and fi = fi and E = E and cpu = cpu and st = st]) blast+

section \<open>On the serial line\<close>

text \<open>The initialisation leaves the OTA channel alone: it touches neither its status nor its data register.\<close>

lemma wire_same_regs:
  assumes "wire_same v w"
  shows "a \<notin> {USART2_BASE + USART_SR_OFF, USART2_BASE + USART_DR_OFF} \<Longrightarrow> wire_same v (snd (bus_rd wire_bus w a))"
    and "a \<noteq> USART2_BASE + USART_DR_OFF \<Longrightarrow> wire_same v (bus_wr wire_bus w a x)"
    and "a \<notin> {USART2_BASE + USART_SR_OFF, USART2_BASE + USART_DR_OFF} \<Longrightarrow> wire_same v (reg_or wire_bus a x w)"
  using assms by (simp_all add: wire_same_def wire_bus_def wire_rd_def wire_wr_def reg_or_def)

lemma wire_watchdog: "wire_same v w \<Longrightarrow> wire_same v (iwdg_init wire_bus w)"
proof -
  have wait: "wire_same v w \<Longrightarrow> wire_same v (iwdg_wait wire_bus n w)" for n w
  proof (induction n arbitrary: w)
    case 0
    then show ?case using wire_same_regs(1) [OF 0, of IWDG_SR]
      by (subst iwdg_wait.simps) (simp add: split_beta IWDG_SR_def usart_regs)
  next
    case (Suc n)
    then show ?case using wire_same_regs(1) [OF Suc.prems, of IWDG_SR]
      by (subst iwdg_wait.simps) (simp add: split_beta IWDG_SR_def usart_regs)
  qed
  show "wire_same v w \<Longrightarrow> wire_same v (iwdg_init wire_bus w)"
    by (simp add: iwdg_init_def Let_def wait wire_same_regs(2) IWDG_KR_def IWDG_PR_def IWDG_RLR_def usart_regs)
qed

lemma wire_init: "wire_same v w \<Longrightarrow> wire_same v (uart_init wire_bus w)"
  by (simp add: uart_init_def usart_init_def Let_def split_beta wire_same_regs usart_regs
      RCC_AHB1ENR_def RCC_APB1ENR_def RCC_APB2ENR_def GPIOA_MODER_def GPIOA_AFRL_def GPIOA_AFRH_def)

lemma main_io_on_wire:
  obtains w' where "main_io C F fi E wire_bus cpu st w
      = exit_io C F E wire_bus cpu (main C F (st\<lparr>bs_flash := snd (fi (bs_flash st))\<rparr>)) w'" "wire_same w w'"
  by (rule ota_wire.main_exit [OF wire_init [OF wire_watchdog [OF wire_same_refl]]])

end
