(* ===== verification/Line_Update.thy ===== *)
theory Line_Update
  imports Boot_Io Ota_Update
begin

text \<open>
  Updates on the line, from the bytes a host sends to the reset: encoded frames with idle time
  between them are received one by one, each is answered, and the loop ends in the reset the
  handlers of \<open>Ota_Update\<close> lead to.  From the recovery menu that is the way out of a device that
  boots nothing.
\<close>

section \<open>Frames on the line\<close>

text \<open>
  \<open>line_of fs rx\<close>: the poll outcomes \<open>rx\<close> begin with the encodings of \<open>fs\<close>, before each of which the
  line is idle for less than the timeout of a byte.
\<close>

fun line_of :: "ota_frame_t list \<Rightarrow> u8 option list \<Rightarrow> bool" where
  "line_of [] rx \<longleftrightarrow> True"
| "line_of (f # fs) rx \<longleftrightarrow> (\<exists>g rx'. g < ota_budget
     \<and> rx = replicate g None @ map Some (encode_frame f) @ rx' \<and> line_of fs rx')"

lemma line_of_skip: "line_of fs (None # rx) \<Longrightarrow> line_of fs rx"
proof (cases fs)
  case (Cons f fs')
  assume "line_of fs (None # rx)"
  then obtain g rx' where g: "g < ota_budget"
    "None # rx = replicate g None @ map Some (encode_frame f) @ rx'" "line_of fs' rx'"
    using Cons by auto
  then obtain k where "g = Suc k" by (cases g) (auto simp: encode_frame_def)
  then show ?thesis using g Cons by (auto intro!: exI [of _ k] exI [of _ rx'])
qed simp

lemma poll_idle: "g < n \<Longrightarrow> poll n (replicate g None @ rx) = poll (n - g) rx"
proof (induction g arbitrary: n)
  case (Suc g)
  then obtain m where "n = Suc m" by (cases n) auto
  then show ?case using Suc by simp
qed simp

lemma frame_after_idle:
  assumes "g < ota_budget" "frame_wf f"
  shows "rx_frame (replicate g None @ map Some (encode_frame f) @ rx) = (Inr f, rx)"
proof -
  let ?r = "map Some (frame_body f @ le32 (crc32 (frame_body f))) @ rx"
  have "poll ota_budget (replicate g None @ Some OTA_FRAME_SOH # ?r) = (Some OTA_FRAME_SOH, ?r)"
    using assms(1) by (simp add: poll_idle)
  then have "rx_resync (replicate g None @ map Some (encode_frame f) @ rx) = (True, ?r)"
    by (simp add: rx_resync.simps [of "replicate g None @ x" for x] encode_frame_def)
  then show ?thesis using body_received [OF assms(2), of "crc32 (frame_body f)" rx] by (simp add: rx_frame_def)
qed

text \<open>While the device answers, only idle polls pass.\<close>

lemma line_of_putc: "line_of fs (w_rx w) \<Longrightarrow> line_of fs (w_rx (usart_putc wire_bus USART2_BASE b w))"
  unfolding wire_putc_eq
  by (auto simp: wire_wr_def wire_rd_def usart_regs line_of_skip split: list.split option.split)

lemma line_of_response: "line_of fs (w_rx w) \<Longrightarrow> line_of fs (w_rx (send_response wire_bus c q w))"
proof -
  have "line_of fs (w_rx w) \<Longrightarrow> line_of fs (w_rx (uart_ota_write wire_bus bs w))" for bs
    by (induction bs arbitrary: w) (simp_all add: uart_ota_write_def line_of_putc)
  then show "line_of fs (w_rx w) \<Longrightarrow> line_of fs (w_rx (send_response wire_bus c q w))"
    by (simp add: send_response_def)
qed

lemma line_frame:
  assumes "line_of (f # fs) (w_rx w)" "frame_wf f"
  obtains w1 where "read_frame wire_bus (iwdg_kick wire_bus w) = Some (Inr f, w1)"
    "line_of fs (w_rx w1)" "w_tx w1 = w_tx w"
proof -
  obtain g rx where g: "g < ota_budget" "w_rx w = replicate g None @ map Some (encode_frame f) @ rx" "line_of fs rx"
    using assms(1) by auto
  obtain w1 where w1: "read_frame wire_bus (iwdg_kick wire_bus w) = Some (fst (rx_frame (w_rx w)), w1)"
    "w_rx w1 = snd (rx_frame (w_rx w))" "w_tx w1 = w_tx w" by (rule kick_frame)
  have "rx_frame (w_rx w) = (Inr f, rx)" unfolding g(2) by (rule frame_after_idle [OF g(1) assms(2)])
  then show thesis using that [of w1] w1 g(3) by simp
qed

definition ack :: "ota_frame_t \<Rightarrow> u8 list" where
  "ack f = OTA_RESP_ACK # le16 (fr_seq f)"

lemma ack_sent: "w_tx (send_response wire_bus OTA_RESP_ACK (fr_seq f) w) = w_tx w @ ack f"
  using send_response_bytes [of w OTA_RESP_ACK "fr_seq f"] by (simp add: wire_next_def ack_def)

section \<open>Accepted frames\<close>

text \<open>A frame the handlers accept, other than END, is acknowledged and the loop goes on.\<close>

lemma loop_accepts:
  assumes "n < 16" "line_of (f # fs) (w_rx w)" "frame_wf f"
    and "fr_op f \<noteq> OTA_OP_ABORT" "fr_op f \<noteq> OTA_OP_END" "handle_frame C F E f st = (Some True, st1)"
  obtains w1 where "receive_loop C F E wire_bus n st w = receive_loop C F E wire_bus 0 st1 w1"
    "line_of fs (w_rx w1)" "w_tx w1 = w_tx w @ ack f"
proof -
  obtain w1 where w1: "read_frame wire_bus (iwdg_kick wire_bus w) = Some (Inr f, w1)"
    "line_of fs (w_rx w1)" "w_tx w1 = w_tx w" by (rule line_frame [OF assms(2,3)])
  show thesis
    by (rule that [of "send_response wire_bus OTA_RESP_ACK (fr_seq f) w1"])
      (use receive_frame_step [OF assms(1) w1(1) refl assms(6)] assms(4,5) line_of_response w1(2,3) ack_sent
        in \<open>simp_all\<close>)
qed

lemma loop_finishes:
  assumes "n < 16" "line_of (f # fs) (w_rx w)" "frame_wf f"
    and "fr_op f = OTA_OP_END" "handle_end C F E st = (Some True, st1)"
  obtains w1 where "receive_loop C F E wire_bus n st w = Some (OtaReset, st1, w1)"
    "w_tx w1 = w_tx w @ ack f"
proof -
  obtain w1 where w1: "read_frame wire_bus (iwdg_kick wire_bus w) = Some (Inr f, w1)"
    "line_of fs (w_rx w1)" "w_tx w1 = w_tx w" by (rule line_frame [OF assms(2,3)])
  have h: "handle_frame C F E f st = (Some True, st1)"
    using assms(4,5) by (simp add: handle_frame_def OTA_OP_END_def OTA_OP_START_def OTA_OP_START_DELTA_def OTA_OP_DATA_def)
  have tx: "w_tx (system_reset wire_bus v) = w_tx v" for v
    by (simp add: system_reset_def bootloader_system_reset_def SCB_AIRCR_ADDR_def wire_bus_def wire_wr_def usart_regs)
  have "fr_op f \<noteq> OTA_OP_ABORT" using assms(4) by (simp add: OTA_OP_END_def OTA_OP_ABORT_def)
  then have "receive_loop C F E wire_bus n st w
      = Some (OtaReset, st1, system_reset wire_bus (send_response wire_bus OTA_RESP_ACK (fr_seq f) w1))"
    using receive_frame_step [OF assms(1) w1(1) refl h] assms(4) by simp
  then show thesis by (rule that) (simp add: tx ack_sent w1(3))
qed

lemma loop_data_run:
  assumes "data_run F fs st = Some st'" "line_of (fs @ rest) (w_rx w)"
    and "\<forall>f\<in>set fs. frame_wf f \<and> fr_op f = OTA_OP_DATA" "n < 16"
  shows "\<exists>w' n'. receive_loop C F E wire_bus n st w = receive_loop C F E wire_bus n' st' w' \<and> n' < 16
    \<and> line_of rest (w_rx w') \<and> w_tx w' = w_tx w @ concat (map ack fs)"
  using assms
proof (induction fs arbitrary: n st w)
  case (Cons f fs)
  obtain st1 where d: "handle_data F f st = (True, st1)" and r: "data_run F fs st1 = Some st'"
    using Cons.prems(1) by (auto split: prod.splits if_splits)
  have op: "frame_wf f" "fr_op f = OTA_OP_DATA" and l: "line_of (f # (fs @ rest)) (w_rx w)"
    using Cons.prems(2,3) by auto
  have h: "handle_frame C F E f st = (Some True, st1)"
    using d op(2) by (simp add: handle_frame_def OTA_OP_START_def OTA_OP_START_DELTA_def OTA_OP_DATA_def)
  have ne: "fr_op f \<noteq> OTA_OP_ABORT" "fr_op f \<noteq> OTA_OP_END"
    using op(2) by (simp_all add: OTA_OP_DATA_def OTA_OP_END_def OTA_OP_ABORT_def)
  obtain w1 where w1: "receive_loop C F E wire_bus n st w = receive_loop C F E wire_bus 0 st1 w1"
    "line_of (fs @ rest) (w_rx w1)" "w_tx w1 = w_tx w @ ack f"
    by (rule loop_accepts [OF Cons.prems(4) l op(1) ne h])
  from Cons.IH [OF r w1(2), of 0] Cons.prems(3) w1(1,3) show ?case by auto
qed auto

text \<open>A whole full-image session on the line, from the frames its handlers accept.\<close>

definition session_frames :: "ota_frame_t \<Rightarrow> ota_frame_t list \<Rightarrow> ota_frame_t \<Rightarrow> bool" where
  "session_frames f0 fs f1 \<longleftrightarrow> frame_wf f0 \<and> fr_op f0 = OTA_OP_START
     \<and> (\<forall>f\<in>set fs. frame_wf f \<and> fr_op f = OTA_OP_DATA) \<and> frame_wf f1 \<and> fr_op f1 = OTA_OP_END"

lemma session_on_line:
  assumes sf: "session_frames f0 fs f1" and line: "line_of (f0 # fs @ [f1]) (w_rx w)"
    and h: "handle_start C F f0 (st\<lparr>g_state := ota_state_zero\<rparr>) = (True, st1)"
      "data_run F fs st1 = Some st2" "handle_end C F E st2 = (Some True, st3)"
  obtains w' where "ota_client_receive C F E wire_bus st w = Some (OtaReset, st3, w')"
    "w_tx w' = w_tx w @ concat (map ack (f0 # fs @ [f1]))"
proof -
  let ?st = "st\<lparr>g_state := ota_state_zero\<rparr>"
  have h0: "handle_frame C F E f0 ?st = (Some True, st1)"
    using h(1) sf by (simp add: handle_frame_def session_frames_def)
  have ne: "fr_op f0 \<noteq> OTA_OP_ABORT" "fr_op f0 \<noteq> OTA_OP_END"
    using sf by (simp_all add: session_frames_def OTA_OP_START_def OTA_OP_END_def OTA_OP_ABORT_def)
  have wf: "frame_wf f0" "\<forall>f\<in>set fs. frame_wf f \<and> fr_op f = OTA_OP_DATA" "frame_wf f1" "fr_op f1 = OTA_OP_END"
    using sf by (simp_all add: session_frames_def)
  obtain w1 where w1: "receive_loop C F E wire_bus 0 ?st w = receive_loop C F E wire_bus 0 st1 w1"
    "line_of (fs @ [f1]) (w_rx w1)" "w_tx w1 = w_tx w @ ack f0"
    by (rule loop_accepts [of 0, OF _ line wf(1) ne h0]) simp
  obtain w2 n where w2: "receive_loop C F E wire_bus 0 st1 w1 = receive_loop C F E wire_bus n st2 w2" "n < 16"
    "line_of [f1] (w_rx w2)" "w_tx w2 = w_tx w1 @ concat (map ack fs)"
    using loop_data_run [OF h(2) w1(2) wf(2), of 0 C E] by auto
  obtain w3 where w3: "receive_loop C F E wire_bus n st2 w2 = Some (OtaReset, st3, w3)"
    "w_tx w3 = w_tx w2 @ ack f1"
    by (rule loop_finishes [OF w2(2,3) wf(3,4) h(3)])
  show thesis
    by (rule that [of w3]) (use w1 w2 w3 in \<open>simp_all add: ota_client_receive_def\<close>)
qed

section \<open>Out of the recovery menu\<close>

text \<open>
  What a host sends to install \<open>img\<close>: after idle time or harmless bytes the upload command,
  then START with the length of the image, the image cut into frames, and END.
\<close>

definition upload_line :: "u8 list \<Rightarrow> nat \<Rightarrow> ota_frame_t \<Rightarrow> ota_frame_t list \<Rightarrow> ota_frame_t \<Rightarrow> u8 option list \<Rightarrow> bool" where
  "upload_line img gran f0 fs f1 line \<longleftrightarrow> session_frames f0 fs f1
     \<and> 4 \<le> fr_len f0 \<and> rd_u32_le (fr_data f0) = of_nat (length img)
     \<and> frames_of (fr_seq f0 + 1) img fs \<and> (\<forall>f\<in>set fs. gran dvd unat (fr_len f))
     \<and> (\<exists>pre c rx. line = pre @ Some c # rx \<and> (\<forall>d\<in>set (heard pre). \<not> leaves_menu d)
          \<and> is_cmd CHR ''U'' CHR ''u'' c \<and> line_of (f0 # fs @ [f1]) rx)"

context reliable_flash
begin

text \<open>
  With slot A active an upload from the menu goes through: every frame is acknowledged, the
  core is reset, and the boot that follows runs the image from slot B.
\<close>

lemma recovery_installs:
  fixes st :: "'s ota_st"
  assumes pk: "length (public_key_sha256 C) = 32" and g: "good (bs_flash st)"
    and cfg: "boot_config_validate (stored_cfg (byte (bs_flash st)))"
      "cfg_active_slot (stored_cfg (byte (bs_flash st))) = SLOT_A"
    and img: "good_image C img" "length img \<le> unat (fl_ota_slot_span F)"
    and v: "boot_config_firmware_allowed (stored_cfg (byte (bs_flash st)))
      (fh_version (image_header (image_in_b img) SLOT_B_ADDR))"
    and line: "upload_line img gran f0 fs f1 (w_rx w)"
  obtains st' w' where "recovery_mode_run C F E wire_bus st w = Some (RecoveryReset, st', w')"
    "w_tx w' = w_tx w @ concat (map ack (f0 # fs @ [f1]))"
    "mem_bytes (byte (bs_flash st')) SLOT_B_ADDR (length img) = img"
    "fst (main C F (boot_st.truncate st')) = JumpTo SLOT_B_ADDR"
proof -
  let ?st = "st\<lparr>g_state := ota_state_zero\<rparr>"
  obtain pre c rx where l: "w_rx w = pre @ Some c # rx" "\<forall>d\<in>set (heard pre). \<not> leaves_menu d"
    "is_cmd CHR ''U'' CHR ''u'' c" "line_of (f0 # fs @ [f1]) rx" and sf: "session_frames f0 fs f1"
    and f0: "4 \<le> fr_len f0" "rd_u32_le (fr_data f0) = of_nat (length img)"
    and fs: "frames_of (fr_seq f0 + 1) img fs" "\<forall>f\<in>set fs. gran dvd unat (fr_len f)"
    using line unfolding upload_line_def by blast
  obtain st1 st2 st3 where h: "handle_start C F f0 ?st = (True, st1)" "data_run F fs st1 = Some st2"
    "handle_end C F E st2 = (Some True, st3)" "mem_bytes (byte (bs_flash st3)) SLOT_B_ADDR (length img) = img"
    "fst (main C F (boot_st.truncate st3)) = JumpTo SLOT_B_ADDR"
    by (rule update_installs [where st = ?st and E = E, OF pk _ _ _ img _ f0 fs]) (use g cfg v in simp_all)
  have recv: "\<exists>v'. ota_client_receive C F E wire_bus st v = Some (OtaReset, st3, v')
      \<and> w_tx v' = w_tx v @ concat (map ack (f0 # fs @ [f1]))" if "w_rx v = rx" for v
    by (rule session_on_line [OF sf _ h(1-3), of v]) (use l(4) that in auto)
  obtain w' where "recovery_mode_run C F E wire_bus st w = Some (RecoveryReset, st3, w')"
    "w_tx w' = w_tx w @ concat (map ack (f0 # fs @ [f1]))"
    by (rule recovery_upload [OF l(2,3,1) recv])
  then show thesis using that h(4,5) by blast
qed

text \<open>
  A device with no valid image in either slot ends its boot in the menu, with a valid stored
  configuration that has the active slot and the floor it was started with.
\<close>

lemma bricked_main:
  fixes st :: "'s boot_st"
  assumes pk: "length (public_key_sha256 C) = 32" and g: "good (bs_flash st)"
    and act: "cfg_active_slot (loaded_cfg C (byte (bs_flash st))) = SLOT_A"
    and no: "\<not> image_ok C (byte (bs_flash st)) SLOT_A_ADDR" "\<not> image_ok C (byte (bs_flash st)) SLOT_B_ADDR"
  obtains st' where "main C F st = (RecoveryMode, st')" "good (bs_flash st')"
    "boot_config_validate (stored_cfg (byte (bs_flash st')))"
    "cfg_active_slot (stored_cfg (byte (bs_flash st'))) = SLOT_A"
    "boot_config_antidowngrade_floor (stored_cfg (byte (bs_flash st')))
      = boot_config_antidowngrade_floor (loaded_cfg C (byte (bs_flash st)))"
proof -
  let ?l = "loaded_cfg C (byte (bs_flash st))" and ?ok = "boot_config_validate (stored_cfg (byte (bs_flash st)))"
  obtain cfg1 d1 st1 where c: "check_app_confirmation ?l (\<not> ?ok) st = (cfg1, d1, st1)" by (metis prod_cases3)
  note cf = confirmation_facts [OF c]
  define st2 where "st2 = (if d1 then save_or_warn F cfg1 st1 else st1)"
  have g2: "good (bs_flash st2)" using g cf(4) by (simp add: st2_def save_good)
  have no2: "\<not> image_ok C (byte (bs_flash st2)) SLOT_A_ADDR" "\<not> image_ok C (byte (bs_flash st2)) SLOT_B_ADDR"
    using no cf(4) g maybe_save_keeps_b [of C d1 cfg1 st1] by (auto simp: st2_def save_no_slot_a)
  obtain cfg3 d3 st3 where p: "process_ota_pending_swap C F cfg1 False st2 = (cfg3, d3, st3)" by (metis prod_cases3)
  have act1: "cfg_active_slot cfg1 = SLOT_A" using act cf(2) by simp
  have "\<not> swap_accepts C (byte (bs_flash st2)) cfg1"
    using no2(2) by (simp add: swap_accepts_def slot_addr_other_b [OF act1])
  with swap_cases [OF pk p] have e: "cfg3 = cfg1" "\<not> d3" "bs_flash st3 = bs_flash st2" by (metis clear_pending_simps(1))+
  have prep: "boot_prepare C F st = (cfg1, st3)"
    using e by (simp add: boot_prepare_def boot_config_load_eq [OF flash_device_axioms pk] c Let_def st2_def [symmetric] p)
  have in1: "cfg_active_slot cfg1 \<in> {SLOT_A, SLOT_B}" using act1 by simp
  have m: "main C F st = (RecoveryMode, st3)"
    unfolding main_split prep boot_finish_spec [OF flash_device_axioms pk in1]
    using no2 by (simp add: e(3) act1 pick_spec_def)
  have stored: "boot_config_validate (stored_cfg (byte (bs_flash st2))) \<and> stored_cfg (byte (bs_flash st2)) = boot_config_stamp_crc cfg1"
  proof (cases d1)
    case True
    have "boot_config_save F (bs_flash st1) cfg1 = (True, bs_flash st2)"
      using True save_succeeds [of "bs_flash st1" cfg1] g cf(4) by (simp add: st2_def prod_eq_iff)
    from save_ok [OF this] show ?thesis
      using cf(3) loaded_magic [of C "byte (bs_flash st)"] by (simp add: stored_cfg_def codec_simps)
  next
    case False
    then have "?ok" "cfg1 = ?l" using c by (auto simp: check_app_confirmation_def Let_def split: if_splits)
    then show ?thesis using False cf(4) stamp_of_loaded [of C "byte (bs_flash st)"] by (simp add: st2_def loaded_cfg_def)
  qed
  show thesis
    by (rule that [OF m]) (use stored e(3) g2 act1 cf(1,3) in \<open>simp_all add: loaded_magic\<close>)
qed

text \<open>
  So such a device is not lost: switched on, it runs into the menu, takes the image a host uploads
  over the line, acknowledges every frame and resets the core, and its next boot runs that image.
\<close>

lemma unbrick:
  fixes st :: "'s boot_st" and fi :: "'s \<Rightarrow> flash_status_t \<times> 's"
  defines "st0 \<equiv> st\<lparr>bs_flash := snd (fi (bs_flash st))\<rparr>"
  assumes pk: "length (public_key_sha256 C) = 32" and g: "good (bs_flash st0)"
    and act: "cfg_active_slot (loaded_cfg C (byte (bs_flash st0))) = SLOT_A"
    and no: "\<not> image_ok C (byte (bs_flash st0)) SLOT_A_ADDR" "\<not> image_ok C (byte (bs_flash st0)) SLOT_B_ADDR"
    and img: "good_image C img" "length img \<le> unat (fl_ota_slot_span F)"
    and v: "boot_config_firmware_allowed (loaded_cfg C (byte (bs_flash st0)))
      (fh_version (image_header (image_in_b img) SLOT_B_ADDR))"
    and line: "upload_line img gran f0 fs f1 (w_rx w)"
  obtains st' w' where "main_io C F fi E wire_bus cpu st w = Some (WasReset st', w')"
    "w_tx w' = w_tx w @ concat (map ack (f0 # fs @ [f1]))"
    "mem_bytes (byte (bs_flash st')) SLOT_B_ADDR (length img) = img"
    "fst (main C F (boot_st.truncate st')) = JumpTo SLOT_B_ADDR"
proof -
  obtain st1 where m: "main C F st0 = (RecoveryMode, st1)" "good (bs_flash st1)"
    "boot_config_validate (stored_cfg (byte (bs_flash st1)))"
    "cfg_active_slot (stored_cfg (byte (bs_flash st1))) = SLOT_A"
    "boot_config_antidowngrade_floor (stored_cfg (byte (bs_flash st1)))
      = boot_config_antidowngrade_floor (loaded_cfg C (byte (bs_flash st0)))"
    by (rule bricked_main [OF pk g act no])
  obtain w1 where w1: "main_io C F fi E wire_bus cpu st w = exit_io C F E wire_bus cpu (main C F st0) w1" "wire_same w w1"
    unfolding st0_def by (rule main_io_on_wire)
  let ?st1 = "boot_st.extend st1 (ota_st.fields ota_state_zero)"
  have fl: "bs_flash ?st1 = bs_flash st1" by (simp add: boot_st.extend_def)
  have v1: "boot_config_firmware_allowed (stored_cfg (byte (bs_flash st1)))
      (fh_version (image_header (image_in_b img) SLOT_B_ADDR))"
    using v m(5) by (simp add: boot_config_firmware_allowed_def)
  have line1: "upload_line img gran f0 fs f1 (w_rx w1)" using line w1(2) by (simp add: wire_same_def)
  obtain st' w' where r: "recovery_mode_run C F E wire_bus ?st1 w1 = Some (RecoveryReset, st', w')"
    "w_tx w' = w_tx w1 @ concat (map ack (f0 # fs @ [f1]))"
    "mem_bytes (byte (bs_flash st')) SLOT_B_ADDR (length img) = img"
    "fst (main C F (boot_st.truncate st')) = JumpTo SLOT_B_ADDR"
    by (rule recovery_installs [where st = ?st1, unfolded fl, OF pk m(2,3,4) img v1 line1])
  have "main_io C F fi E wire_bus cpu st w = Some (WasReset st', w')"
    by (simp add: w1(1) m(1) exit_io_def recover_io_def r(1))
  then show thesis by (rule that) (use r w1(2) in \<open>simp_all add: wire_same_def\<close>)
qed

end

end
