(* ===== verification/Demo.thy ===== *)
theory Demo
  imports Boot_Config
begin

unbundle bit_operations_syntax

text \<open>
  Concrete devices for the instances of the theorems: a signature library that accepts, a
  public key with its digest, one-byte images with a correct checksum and a canonical
  signature, and a simulated flash whose ROM holds any choice of configuration and slots.
\<close>

section \<open>A key and an image\<close>

definition demo_env :: crypto_env where
  "demo_env = \<lparr> uECC_valid_public_key = (\<lambda>_. 1), uECC_verify = (\<lambda>_ _ _. 1),
     public_key_xy = replicate 64 1, public_key_sha256 = fips_sha256 (replicate 64 1) \<rparr>"

definition demo_hdr :: "u32 \<Rightarrow> FirmwareHeader_t" where
  "demo_hdr v = \<lparr> fh_magic = FIRMWARE_MAGIC, fh_version = v, fh_image_size = 1, fh_timestamp = 0,
     fh_crc32 = crc32 [0x55], fh_signature = replicate 31 0 @ [1] @ replicate 31 0 @ [1],
     fh_reserved = replicate 428 0xFF \<rparr>"

definition demo_slot :: "u32 \<Rightarrow> u8 list" where
  "demo_slot v = hdr_bytes (demo_hdr v) @ [0x55]"

lemma demo_env_len [simp]: "length (public_key_sha256 demo_env) = 32"
  by (simp add: demo_env_def length_fips_sha256)

lemma demo_hdr_wf: "hdr_wf (demo_hdr v)"
  by (simp add: demo_hdr_def hdr_wf_def)

lemma length_demo_slot [simp]: "length (demo_slot v) = 513"
  by (simp add: demo_slot_def length_hdr_bytes demo_hdr_wf)

lemma be_nat_zeros: "be_nat (replicate n 0 @ bs) = be_nat bs"
  by (induction n) (simp_all add: be_nat_Cons)

lemma demo_image:
  assumes "mem_bytes m a 513 = demo_slot v"
  shows "image_ok demo_env m a" and "image_header m a = demo_hdr v"
proof -
  have sp: "mem_bytes m a 512 @ mem_bytes m (a + 512) 1 = hdr_bytes (demo_hdr v) @ [0x55]"
    using assms mem_bytes_append [of m a 512 1] by (simp add: demo_slot_def)
  then have b: "mem_bytes m a 512 = hdr_bytes (demo_hdr v)" "mem_bytes m (a + 512) 1 = [0x55]"
    using append_eq_append_conv [of "mem_bytes m a 512" "hdr_bytes (demo_hdr v)"]
    by (simp_all add: length_hdr_bytes demo_hdr_wf)
  show h: "image_header m a = demo_hdr v"
    using hdr_of_hdr_bytes [OF demo_hdr_wf, of v "[]"] by (simp add: image_header_def b)
  have p: "image_payload m a = [0x55]"
    using b(2) by (simp add: image_payload_def h) (simp add: demo_hdr_def)
  have s: "low_s (fh_signature (demo_hdr v))"
    by (simp add: demo_hdr_def low_s_def be_nat_zeros be_nat_Cons secp256r1_order_def)
  show "image_ok demo_env m a"
    unfolding image_ok_def h p using s
    by (simp add: demo_hdr_def demo_env_def pubkey_ok_def layout_simps)
qed

section \<open>A simulated device\<close>

definition sim_of_rom :: "mem \<Rightarrow> sim_flash" where
  "sim_of_rom rom = snd (sim_flash_init
     \<lparr> sim_rom = rom, sh_magic = 0, sh_config = (\<lambda>_. 0), sh_slot_a = (\<lambda>_. 0), sh_slot_b = (\<lambda>_. 0),
       sim_kicks = 0 \<rparr>)"

lemma sim_flash_init_byte:
  "sh_magic s \<noteq> QEMU_SHADOW_MAGIC \<Longrightarrow> sim_byte (snd (sim_flash_init s)) = sim_rom s"
  by (rule ext) (simp add: sim_byte_def sim_flash_init_def shadow_byte_ptr_def)

lemma sim_of_rom_byte [simp]: "sim_byte (sim_of_rom rom) = rom"
  by (simp add: sim_of_rom_def sim_flash_init_byte QEMU_SHADOW_MAGIC_def)

definition put :: "u32 \<Rightarrow> u8 list option \<Rightarrow> mem \<Rightarrow> mem" where
  "put a d m = (case d of None \<Rightarrow> m | Some bs \<Rightarrow> mem_write m a bs)"

definition demo_mem :: "BootConfig_t option \<Rightarrow> u32 option \<Rightarrow> u32 option \<Rightarrow> mem" where
  "demo_mem c a b =
     put BOOT_CONFIG_ADDR (map_option (\<lambda>c. cfg_bytes (boot_config_stamp_crc c)) c)
       (put SLOT_A_ADDR (map_option demo_slot a) (put SLOT_B_ADDR (map_option demo_slot b) (\<lambda>_. 0xFF)))"

lemma put_bytes_same: "length bs \<le> 2 ^ 20 \<Longrightarrow> mem_bytes (put a (Some bs) m) a (length bs) = bs"
  by (simp add: put_def mem_bytes_write_same)

lemma put_bytes_other:
  assumes "\<And>x. in_range a n x \<Longrightarrow> \<not> in_range b (case d of None \<Rightarrow> 0 | Some bs \<Rightarrow> length bs) x" "n \<le> 2 ^ 20"
  shows "mem_bytes (put b d m) a n = mem_bytes m a n"
proof (rule mem_bytes_cong)
  show "mem_eq_on a n (put b d m) m"
    using assms(1) by (auto simp: mem_eq_on_def put_def mem_write_other split: option.splits)
qed (use assms in simp)

lemma demo_mem_a: "mem_bytes (demo_mem c a b) SLOT_A_ADDR 513
    = (case a of None \<Rightarrow> replicate 513 0xFF | Some v \<Rightarrow> demo_slot v)"
proof -
  have "mem_bytes (demo_mem c a b) SLOT_A_ADDR 513
      = mem_bytes (put SLOT_A_ADDR (map_option demo_slot a) (put SLOT_B_ADDR (map_option demo_slot b) (\<lambda>_. 0xFF))) SLOT_A_ADDR 513"
    unfolding demo_mem_def
    by (rule put_bytes_other) (auto simp: partition_ranges split: option.splits)
  also have "\<dots> = (case a of None \<Rightarrow> replicate 513 0xFF | Some v \<Rightarrow> demo_slot v)"
  proof (cases a)
    case None
    have "mem_bytes (put SLOT_B_ADDR (map_option demo_slot b) (\<lambda>_. 0xFF)) SLOT_A_ADDR 513
        = mem_bytes (\<lambda>_. 0xFF) SLOT_A_ADDR 513"
      by (rule put_bytes_other) (auto simp: partition_ranges split: option.splits)
    then show ?thesis
      by (simp add: None put_def mem_bytes_def map_replicate_const)
  next
    case (Some v)
    then show ?thesis using put_bytes_same [of "demo_slot v"] by simp
  qed
  finally show ?thesis .
qed

lemma demo_mem_b: "mem_bytes (demo_mem c a b) SLOT_B_ADDR 513
    = (case b of None \<Rightarrow> replicate 513 0xFF | Some v \<Rightarrow> demo_slot v)"
proof -
  have "mem_bytes (demo_mem c a b) SLOT_B_ADDR 513
      = mem_bytes (put SLOT_A_ADDR (map_option demo_slot a) (put SLOT_B_ADDR (map_option demo_slot b) (\<lambda>_. 0xFF))) SLOT_B_ADDR 513"
    unfolding demo_mem_def
    by (rule put_bytes_other) (auto simp: partition_ranges split: option.splits)
  also have "\<dots> = mem_bytes (put SLOT_B_ADDR (map_option demo_slot b) (\<lambda>_. 0xFF)) SLOT_B_ADDR 513"
    by (rule put_bytes_other) (auto simp: partition_ranges split: option.splits)
  also have "\<dots> = (case b of None \<Rightarrow> replicate 513 0xFF | Some v \<Rightarrow> demo_slot v)"
    using put_bytes_same [of "demo_slot (the b)"]
    by (cases b) (simp_all add: put_def mem_bytes_def map_replicate_const)
  finally show ?thesis .
qed

lemma demo_stored: "stored_cfg (demo_mem (Some c) a b) = boot_config_stamp_crc c"
  using put_bytes_same [of "cfg_bytes (boot_config_stamp_crc c)" BOOT_CONFIG_ADDR]
  by (simp add: stored_cfg_def demo_mem_def codec_simps)

lemma erased_not_ok: "mem_bytes m a 513 = replicate 513 0xFF \<Longrightarrow> \<not> image_ok C m a"
proof (rule image_ok_erased)
  fix x assume eq: "mem_bytes m a 513 = replicate 513 0xFF" and x: "in_range a 4 x"
  have "mem_bytes m a 513 ! unat (x - a) = 0xFF" using x unfolding eq by (simp add: in_range_def)
  then show "m x = 0xFF" using x by (simp add: in_range_def)
qed

lemma demo_slots:
  "image_ok demo_env (demo_mem c a b) SLOT_A_ADDR \<longleftrightarrow> a \<noteq> None"
  "image_ok demo_env (demo_mem c a b) SLOT_B_ADDR \<longleftrightarrow> b \<noteq> None"
  "image_header (demo_mem c (Some v) b) SLOT_A_ADDR = demo_hdr v"
  "image_header (demo_mem c a (Some v)) SLOT_B_ADDR = demo_hdr v"
  using demo_mem_a [of c a b] demo_mem_b [of c a b] demo_mem_a [of c "Some v" b] demo_mem_b [of c a "Some v"]
  by (cases a; cases b; auto simp: erased_not_ok intro: demo_image)+

lemma demo_slot_version:
  "slot_version demo_env (demo_mem c a b) SLOT_A_ADDR = a"
  "slot_version demo_env (demo_mem c a b) SLOT_B_ADDR = b"
  by (cases a; cases b; simp add: slot_version_def demo_slots; simp add: demo_hdr_def)+

end
