(* ===== verification/Demo_Boot.thy ===== *)
theory Demo_Boot
  imports Boot_Cycles Demo
begin

text \<open>
  Concrete boots on the simulated device and on hardware: a stored configuration with slot A
  active, a choice of images in the two slots and an idle shared block.
\<close>

definition demo_cfg :: "u32 \<Rightarrow> u32 \<Rightarrow> BootConfig_t" where
  "demo_cfg a b = \<lparr> cfg_slot_a_version = a, cfg_slot_b_version = b, cfg_active_slot = SLOT_A,
     cfg_boot_attempts = 0, cfg_rollback_counter = 1, cfg_reserved = 0, cfg_last_good_boot = 0,
     cfg_magic = BOOT_CONFIG_MAGIC, cfg_crc32 = 0 \<rparr>"

definition demo_shared :: SharedBootBlock_t where
  "demo_shared = \<lparr> sb_magic = SHARED_BLOCK_MAGIC, sb_boot_confirmed = 0, sb_ota_pending = 0, sb_reserved = 0 \<rparr>"

definition demo_boot :: "u32 option \<Rightarrow> u32 option \<Rightarrow> sim_flash boot_st" where
  "demo_boot a b = \<lparr> bs_flash = sim_of_rom (demo_mem (Some (demo_cfg (ver0 a) 0)) a b), bs_shared = demo_shared \<rparr>"

definition demo_pending :: "sim_flash boot_st \<Rightarrow> sim_flash boot_st" where
  "demo_pending st = st\<lparr>bs_shared := (bs_shared st)\<lparr>sb_ota_pending := 1\<rparr>\<rparr>"

lemma demo_cfg_fields [simp]:
  "cfg_magic (demo_cfg a b) = BOOT_CONFIG_MAGIC" "cfg_active_slot (demo_cfg a b) = SLOT_A"
  "cfg_boot_attempts (demo_cfg a b) = 0" "cfg_slot_a_version (demo_cfg a b) = a"
  "cfg_slot_b_version (demo_cfg a b) = b" "cfg_rollback_counter (demo_cfg a b) = 1"
  by (simp_all add: demo_cfg_def)

lemma demo_cfg_stored: "stored_cfg (demo_mem (Some (demo_cfg x y)) a b) = boot_config_stamp_crc (demo_cfg x y)"
  by (rule demo_stored)

lemma demo_cfg_loaded:
  "loaded_cfg demo_env (demo_mem (Some (demo_cfg x y)) a b) = boot_config_stamp_crc (demo_cfg x y)"
  by (simp add: loaded_cfg_def demo_cfg_stored)

lemma demo_boot_facts:
  "sim_byte (bs_flash (demo_boot a b)) = demo_mem (Some (demo_cfg (ver0 a) 0)) a b"
  "bs_shared (demo_boot a b) = demo_shared"
  "bs_flash (demo_pending st) = bs_flash st" "sb_ota_pending (bs_shared (demo_pending st)) = 1"
  "cfg_active_slot (loaded_cfg demo_env (demo_mem (Some (demo_cfg x y)) a b)) = SLOT_A"
  "image_ok demo_env (demo_mem (Some c) a b) SLOT_A_ADDR \<longleftrightarrow> a \<noteq> None"
  "image_ok demo_env (demo_mem (Some c) a b) SLOT_B_ADDR \<longleftrightarrow> b \<noteq> None"
  "image_header (demo_mem (Some c) (Some v) b) SLOT_A_ADDR = demo_hdr v"
  "image_header (demo_mem (Some c) a (Some v)) SLOT_B_ADDR = demo_hdr v"
  by (simp_all add: demo_boot_def demo_pending_def demo_cfg_loaded demo_slots)

lemma demo_hdr_version [simp]: "fh_version (demo_hdr v) = v"
  by (simp add: demo_hdr_def)

text \<open>With an idle shared block a device boots its valid slot A.\<close>

lemma device_boot_a:
  assumes dev: "flash_device F byte writable"
    and m: "byte s = demo_mem (Some (demo_cfg v 0)) (Some v) b"
  shows "\<exists>st'. main demo_env F \<lparr>bs_flash = s, bs_shared = demo_shared\<rparr> = (JumpTo SLOT_A_ADDR, st')"
proof -
  let ?st = "\<lparr>bs_flash = s, bs_shared = demo_shared\<rparr>"
  let ?c = "boot_config_stamp_crc (demo_cfg v 0)"
  have l: "boot_config_load demo_env F s = (True, ?c)"
    by (simp add: boot_config_load_eq [OF dev demo_env_len] m demo_cfg_stored demo_cfg_loaded)
  have c: "check_app_confirmation ?c False ?st = (?c, False, ?st)"
    by (simp add: check_app_confirmation_def demo_shared_def Let_def)
  have p: "process_ota_pending_swap demo_env F ?c False ?st = (?c, False, ?st)"
    by (simp add: process_ota_pending_swap_def demo_shared_def)
  have prep: "boot_prepare demo_env F ?st = (?c, ?st)"
    by (simp add: boot_prepare_def l c p)
  have act: "cfg_active_slot ?c \<in> {SLOT_A, SLOT_B}" by simp
  have ok: "image_ok demo_env (byte (bs_flash ?st)) SLOT_A_ADDR" by (simp add: m demo_slots)
  show ?thesis
    unfolding main_split prep boot_finish_spec [OF dev demo_env_len act]
    using ok by (simp add: pick_spec_def MAX_BOOT_ATTEMPTS_def)
qed

lemma demo_boot_a: "\<exists>st'. main demo_env sim_ops (demo_boot (Some v) b) = (JumpTo SLOT_A_ADDR, st')"
  unfolding demo_boot_def by (rule device_boot_a [OF sim.flash_device_axioms]) (simp add: ver0_def)

section \<open>The same devices on hardware\<close>

definition hw_of_mem :: "mem \<Rightarrow> flash_ctl" where
  "hw_of_mem m = snd (hw_flash_init fc_bus (fc_reset m 0))"

definition hw_demo :: "u32 option \<Rightarrow> u32 option \<Rightarrow> flash_ctl boot_st" where
  "hw_demo a b = \<lparr> bs_flash = hw_of_mem (demo_mem (Some (demo_cfg (ver0 a) 0)) a b), bs_shared = demo_shared \<rparr>"

lemma hw_of_mem_good [simp]: "fc_good (hw_of_mem m)"
  unfolding hw_of_mem_def by (rule fc_init_good(2) [OF fc_reset_narrow])

lemma put_outside:
  assumes "\<And>bs. d = Some bs \<Longrightarrow> flash_range a (length bs)" "\<not> in_flash x"
  shows "put a d m x = m x"
proof (cases d)
  case (Some bs)
  have "\<not> in_range a (length bs) x"
    using flash_range_in(1) [OF assms(1) [OF Some], of "unat (x - a)"] assms(2) by (auto simp: in_range_def)
  then show ?thesis by (simp add: Some put_def mem_write_other)
qed (simp add: put_def)

lemma hw_of_mem_byte:
  assumes "\<And>x. \<not> in_flash x \<Longrightarrow> m x = 0xFF"
  shows "hw_load fc_bus (hw_of_mem m) = m"
  unfolding hw_of_mem_def fc_init_good(3) [OF fc_reset_narrow]
  by (rule ext) (use assms in \<open>simp add: hw_load_def fc_reset_def\<close>)

lemma hw_demo_byte [simp]: "hw_load fc_bus (hw_of_mem (demo_mem c a b)) = demo_mem c a b"
proof (rule hw_of_mem_byte)
  fix x assume "\<not> in_flash x"
  then show "demo_mem c a b x = 0xFF"
    unfolding demo_mem_def
    by (subst put_outside, force simp: flash_range_def layout_simps, assumption)+ simp
qed

lemma hw_demo_simps [simp]:
  "bs_flash (hw_demo a b) = hw_of_mem (demo_mem (Some (demo_cfg (ver0 a) 0)) a b)" "bs_shared (hw_demo a b) = demo_shared"
  "fc_good (bs_flash (hw_demo a b))"
  "hw_load fc_bus (bs_flash (hw_demo a b)) = demo_mem (Some (demo_cfg (ver0 a) 0)) a b"
  by (simp_all add: hw_demo_def hw_of_mem_good hw_demo_byte)

lemma hw_demo_boot_a: "\<exists>st'. main demo_env (hw_ops fc_bus) (hw_demo (Some v) b) = (JumpTo SLOT_A_ADDR, st')"
  unfolding hw_demo_def
  by (rule device_boot_a [OF fc.backend_ok]) (simp add: hw_demo_byte ver0_def)

section \<open>Images and configurations that differ in one place\<close>

definition one_byte_image :: "u8 \<Rightarrow> mem" where
  "one_byte_image b = mem_write (\<lambda>_. 0xFF) SLOT_A_ADDR (hdr_bytes (demo_hdr 7) @ [b])"

lemma one_byte_bytes:
  "mem_bytes (one_byte_image b) SLOT_A_ADDR 513 = hdr_bytes (demo_hdr 7) @ [b]"
proof -
  have "length (hdr_bytes (demo_hdr 7) @ [b]) = 513" by (simp add: length_hdr_bytes demo_hdr_wf)
  then show ?thesis
    using mem_bytes_write_same [of "hdr_bytes (demo_hdr 7) @ [b]" "\<lambda>_. 0xFF" SLOT_A_ADDR]
    by (simp add: one_byte_image_def)
qed

lemma one_byte_ok: "image_ok demo_env (one_byte_image 0x55) SLOT_A_ADDR"
  using demo_image(1) [of "one_byte_image 0x55" SLOT_A_ADDR 7] one_byte_bytes by (simp add: demo_slot_def)

lemma one_byte_layout:
  "image_header (one_byte_image b) SLOT_A_ADDR = demo_hdr 7" "image_payload (one_byte_image b) SLOT_A_ADDR = [b]"
proof -
  have "mem_bytes (one_byte_image b) SLOT_A_ADDR 512 @ mem_bytes (one_byte_image b) (SLOT_A_ADDR + 512) 1
      = hdr_bytes (demo_hdr 7) @ [b]"
    using one_byte_bytes [of b] mem_bytes_append [of "one_byte_image b" SLOT_A_ADDR 512 1] by simp
  then have e: "mem_bytes (one_byte_image b) SLOT_A_ADDR 512 = hdr_bytes (demo_hdr 7)"
    "mem_bytes (one_byte_image b) (SLOT_A_ADDR + 512) 1 = [b]"
    using append_eq_append_conv [of "mem_bytes (one_byte_image b) SLOT_A_ADDR 512" "hdr_bytes (demo_hdr 7)"]
    by (simp_all add: length_hdr_bytes demo_hdr_wf)
  show h: "image_header (one_byte_image b) SLOT_A_ADDR = demo_hdr 7"
    using hdr_of_hdr_bytes [OF demo_hdr_wf, of 7 "[]"] by (simp add: image_header_def e)
  show "image_payload (one_byte_image b) SLOT_A_ADDR = [b]"
    using e(2) by (simp add: image_payload_def h) (simp add: demo_hdr_def)
qed

lemma SLOT_A_not_FF: "SLOT_A \<noteq> 0xFF"
  by (simp add: layout_simps)

lemma erased_config_invalid:
  assumes "mem_bytes m BOOT_CONFIG_ADDR 24 = replicate 24 0xFF"
  shows "\<not> boot_config_validate (stored_cfg m)"
proof -
  have "cfg_magic (stored_cfg m) = 0xFFFFFFFF" by (simp add: stored_cfg_def assms cfg_of_bytes_def rd_u32_le_def)
  then show ?thesis by (simp add: boot_config_validate_def layout_simps)
qed

lemma demo_no_config: "\<not> boot_config_validate (stored_cfg (demo_mem None a b))"
proof (rule erased_config_invalid)
  have "mem_bytes (demo_mem None a b) BOOT_CONFIG_ADDR 24
      = mem_bytes (put SLOT_B_ADDR (map_option demo_slot b) (\<lambda>_. 0xFF)) BOOT_CONFIG_ADDR 24"
    unfolding demo_mem_def put_def [of BOOT_CONFIG_ADDR] option.map option.case
    by (rule put_bytes_other) (auto simp: partition_ranges split: option.splits)
  also have "\<dots> = mem_bytes (\<lambda>_. 0xFF) BOOT_CONFIG_ADDR 24"
    by (rule put_bytes_other) (auto simp: partition_ranges split: option.splits)
  finally show "mem_bytes (demo_mem None a b) BOOT_CONFIG_ADDR 24 = replicate 24 0xFF"
    by (simp add: mem_bytes_def map_replicate_const)
qed

end
