(* ===== verification/Demo_Ota.thy ===== *)
theory Demo_Ota
  imports Line_Update Demo_Boot
begin

text \<open>
  Concrete update sessions: frames, serial lines and the simulated device with a choice of
  active slot.
\<close>

section \<open>Lines and states\<close>

definition demo_wire :: "u8 option list \<Rightarrow> wire" where
  "demo_wire rx = \<lparr> w_rx = rx, w_tx = [], w_log = [], w_regs = (\<lambda>_. 0) \<rparr>"

definition demo_delta :: delta_env where
  "demo_delta = \<lparr> de_stack = replicate 4 0, de_tuz_work = replicate 9216 0 \<rparr>"

definition demo_device :: "u8 \<Rightarrow> u32 option \<Rightarrow> u32 option \<Rightarrow> sim_flash ota_st" where
  "demo_device act a b =
     \<lparr> bs_flash = sim_of_rom (demo_mem (Some ((demo_cfg (ver0 a) (ver0 b))\<lparr>cfg_active_slot := act\<rparr>)) a b),
       bs_shared = demo_shared, g_state = ota_state_zero \<rparr>"

lemma demo_device_facts [simp]:
  "bs_shared (demo_device act a b) = demo_shared" "g_state (demo_device act a b) = ota_state_zero"
  "sim_byte (bs_flash (demo_device act a b))
    = demo_mem (Some ((demo_cfg (ver0 a) (ver0 b))\<lparr>cfg_active_slot := act\<rparr>)) a b"
  by (simp_all add: demo_device_def)

lemma demo_device_cfg:
  "stored_cfg (sim_byte (bs_flash (demo_device act a b)))
    = boot_config_stamp_crc ((demo_cfg (ver0 a) (ver0 b))\<lparr>cfg_active_slot := act\<rparr>)"
  "loaded_cfg demo_env (sim_byte (bs_flash (demo_device act a b)))
    = boot_config_stamp_crc ((demo_cfg (ver0 a) (ver0 b))\<lparr>cfg_active_slot := act\<rparr>)"
  by (simp_all add: demo_stored loaded_cfg_def)

lemma demo_target:
  "ota_target demo_env (sim_byte (bs_flash (demo_device SLOT_A a b))) = SLOT_B_ADDR"
  "ota_target demo_env (sim_byte (bs_flash (demo_device SLOT_B a b))) = SLOT_A_ADDR"
  unfolding ota_target_def demo_device_cfg by simp_all

lemma demo_device_live:
  "sim_live (demo_mem (Some ((demo_cfg (ver0 a) (ver0 b))\<lparr>cfg_active_slot := act\<rparr>)) a b) (bs_flash (demo_device act a b))"
  by (simp add: demo_device_def sim_of_rom_def sim_flash_init_def sim_live_def QEMU_SHADOW_MAGIC_def)

section \<open>Frames\<close>

definition demo_start :: "u32 \<Rightarrow> ota_frame_t" where
  "demo_start n = \<lparr> fr_op = OTA_OP_START, fr_seq = 1, fr_len = 4, fr_data = le32 n \<rparr>"

definition demo_data :: "u16 \<Rightarrow> u8 list \<Rightarrow> ota_frame_t" where
  "demo_data q d = \<lparr> fr_op = OTA_OP_DATA, fr_seq = q, fr_len = of_nat (length d), fr_data = d \<rparr>"

definition demo_end :: "u16 \<Rightarrow> ota_frame_t" where
  "demo_end q = \<lparr> fr_op = OTA_OP_END, fr_seq = q, fr_len = 0, fr_data = [] \<rparr>"

lemma rd_le32_all [simp]: "rd_u32_le (le32 v) = v"
  using rd_le32 [of v "[]"] by simp

lemma demo_frames_wf: "frame_wf (demo_start n)" "length d \<le> 1024 \<Longrightarrow> frame_wf (demo_data q d)"
  by (simp_all add: frame_wf_def demo_start_def demo_data_def OTA_MAX_PAYLOAD_def unat_of_nat word_le_nat_alt)

lemma demo_good: "good_image demo_env (demo_slot v)"
proof -
  have "mem_bytes (image_in_b (demo_slot v)) SLOT_B_ADDR 513 = demo_slot v"
    using mem_bytes_write_same [of "demo_slot v" "\<lambda>_. 0xFF" SLOT_B_ADDR] by (simp add: image_in_b_def)
  from demo_image [OF this] show ?thesis by (simp add: good_image_def) (simp add: demo_hdr_def)
qed

lemma demo_good_header: "image_header (image_in_b (demo_slot v)) SLOT_B_ADDR = demo_hdr v"
proof -
  have "mem_bytes (image_in_b (demo_slot v)) SLOT_B_ADDR 513 = demo_slot v"
    using mem_bytes_write_same [of "demo_slot v" "\<lambda>_. 0xFF" SLOT_B_ADDR] by (simp add: image_in_b_def)
  from demo_image(2) [OF this] show ?thesis .
qed

lemma demo_frames_of: "frames_of 2 (demo_slot v) [demo_data 2 (demo_slot v)]"
proof -
  have "(of_nat 513 :: u16) \<noteq> 0" by simp
  then show ?thesis
    using demo_frames_wf(2) [of "demo_slot v" 2] by (simp add: frames_of_def payload_def demo_data_def)
qed

text \<open>A complete session on a device that runs version \<open>0x10000\<close> from slot A.\<close>

lemma demo_session:
  obtains st1 st2 st3 where
    "handle_start demo_env sim_ops (demo_start 513) (demo_device SLOT_A (Some 0x10000) None) = (True, st1)"
    "data_run sim_ops [demo_data 2 (demo_slot 0x20000)] st1 = Some st2"
    "handle_end demo_env sim_ops demo_delta st2 = (Some True, st3)"
    "fst (main demo_env sim_ops (boot_st.truncate st3)) = JumpTo SLOT_B_ADDR"
proof (rule sim.update_installs [where E = demo_delta, OF demo_env_len TrueI _ _ demo_good])
  show "boot_config_validate (stored_cfg (sim_byte (bs_flash (demo_device SLOT_A (Some 0x10000) None))))"
    "cfg_active_slot (stored_cfg (sim_byte (bs_flash (demo_device SLOT_A (Some 0x10000) None)))) = SLOT_A"
    unfolding demo_device_cfg by simp_all
  show "length (demo_slot 0x20000) \<le> unat (fl_ota_slot_span sim_ops)"
    by (simp add: sim_ops_def sim_ota_slot_span_def layout_simps)
  show "boot_config_firmware_allowed (stored_cfg (sim_byte (bs_flash (demo_device SLOT_A (Some 0x10000) None))))
      (fh_version (image_header (image_in_b (demo_slot 0x20000)) SLOT_B_ADDR))"
    unfolding demo_device_cfg demo_good_header
    by (simp add: boot_config_firmware_allowed_def floor_eq ver0_def)
  show "4 \<le> fr_len (demo_start 513)" "rd_u32_le (fr_data (demo_start 513)) = of_nat (length (demo_slot 0x20000))"
    by (simp_all add: demo_start_def)
  show "frames_of (fr_seq (demo_start 513) + 1) (demo_slot 0x20000) [demo_data 2 (demo_slot 0x20000)]"
    using demo_frames_of by (simp add: demo_start_def)
qed (rule one_dvd ballI that | assumption)+

text \<open>The same session on a device that runs version \<open>0x10000\<close> from slot B.\<close>

lemma demo_session_a:
  obtains st1 st2 st3 where
    "handle_start demo_env sim_ops (demo_start 513) (demo_device SLOT_B None (Some 0x10000)) = (True, st1)"
    "data_run sim_ops [demo_data 2 (demo_slot 0x20000)] st1 = Some st2"
    "handle_end demo_env sim_ops demo_delta st2 = (Some True, st3)"
proof -
  let ?st = "demo_device SLOT_B None (Some 0x10000)" and ?f = "demo_data 2 (demo_slot 0x20000)"
  have t: "rd_u32_le (fr_data (demo_start 513)) = 513" by (simp add: demo_start_def)
  have fo: "frames_of (fr_seq (demo_start 513) + 1) (demo_slot 0x20000) [?f]"
    using demo_frames_of by (simp add: demo_start_def)
  have fit: "length (demo_slot 0x20000) \<le> unat (fl_ota_slot_span sim_ops)"
    by (simp add: sim_ops_def sim_ota_slot_span_def layout_simps)
  obtain st1 st2 where s: "handle_start demo_env sim_ops (demo_start 513) ?st = (True, st1)"
    and d: "data_run sim_ops [?f] st1 = Some st2"
    and g2: "os_active (g_state st2)" "os_kind (g_state st2) = OTA_KIND_FULL" "os_slot_addr (g_state st2) = SLOT_A_ADDR"
      "os_written (g_state st2) = os_xfer_total (g_state st2)"
    and b: "mem_bytes (sim_byte (bs_flash st2)) SLOT_A_ADDR (length (demo_slot 0x20000)) = demo_slot 0x20000"
    by (rule sim.transfer_stored [where st = ?st, OF demo_env_len TrueI _ _ fit _ _ fo, unfolded demo_target])
      (simp_all add: demo_start_def)
  note so = sim.start_ok [OF demo_env_len s, unfolded demo_target] and sb = sim.start_begins [OF demo_env_len s]
  let ?m2 = "sim_byte (bs_flash st2)"
  have b': "mem_bytes ?m2 SLOT_A_ADDR 513 = demo_slot 0x20000" using b by simp
  note im = demo_image [OF b']
  have wf: "\<forall>f\<in>set [?f]. frame_wf f" by (simp add: demo_frames_wf)
  have sl1: "os_slot_addr (g_state st1) \<in> {SLOT_A_ADDR, SLOT_B_ADDR}" using so(2) by simp
  have bad: "\<not> boot_config_validate (stored_cfg ?m2)"
    unfolding sim.data_run_config [OF d sb(1) wf sl1]
    by (rule erased_config_invalid) (use sim.erase_a_config [OF so(1)] t in simp)
  have eq: "mem_eq_on SLOT_B_ADDR 471040 (sim_byte (bs_flash ?st)) ?m2"
    unfolding mem_eq_on_def
  proof (intro allI impI)
    fix x assume x: "in_range SLOT_B_ADDR 471040 x"
    then have "\<not> erase_covers SLOT_A_ADDR 513 x" using slot_a_erase(1) [of 513 x] by (auto simp: in_slot_b_range)
    moreover have "\<not> in_range (os_slot_addr (g_state st1)) 471040 x" using x so(2) by (auto simp: partition_ranges)
    ultimately show "sim_byte (bs_flash ?st) x = ?m2 x"
      using sim.erase_frame [OF so(1)] sim.data_run_frame [OF d sb(1) wf] t by metis
  qed
  have b2: "image_ok demo_env ?m2 SLOT_B_ADDR" "image_header ?m2 SLOT_B_ADDR = demo_hdr 0x10000"
    using image_ok_cong [OF eq, of demo_env, symmetric] image_header_cong [OF mem_eq_on_sub [OF eq, of 0 512, simplified]]
    by (simp_all add: demo_slots)
  have l: "loaded_cfg demo_env ?m2 = recovered_cfg (Some 0x20000) (Some 0x10000)"
    using bad im b2 by (simp add: loaded_cfg_def slot_version_def)
  obtain st3 where "handle_end demo_env sim_ops demo_delta st2 = (Some True, st3)"
    by (rule sim.end_accepts [OF demo_env_len g2(1,2,4), of demo_delta])
      (simp_all add: g2(3) im l boot_config_firmware_allowed_def recovered_floor ver0_def)
  then show thesis using that s d by blast
qed

section \<open>An upload\<close>

text \<open>An upload from the menu: a line feed, the command, and the frames with an idle poll before each.\<close>

definition demo_upload :: "u8 list \<Rightarrow> u8 option list" where
  "demo_upload img = [None, Some 0x0A] @ Some 0x55
     # concat (map (\<lambda>f. None # map Some (encode_frame f)) [demo_start (of_nat (length img)), demo_data 2 img, demo_end 3])"

lemma demo_upload_line:
  "upload_line (demo_slot v) 1 (demo_start 513) [demo_data 2 (demo_slot v)] (demo_end 3) (w_rx (demo_wire (demo_upload (demo_slot v))))"
proof -
  let ?img = "demo_slot v"
  have sf: "session_frames (demo_start 513) [demo_data 2 ?img] (demo_end 3)"
    using demo_frames_wf(2) [of ?img 2] demo_frames_wf(1)
    by (simp add: session_frames_def frame_wf_def demo_end_def demo_start_def demo_data_def OTA_MAX_PAYLOAD_def)
  have one: "line_of (f # fs) (None # map Some (encode_frame f) @ rx)" if "line_of fs rx" for f fs rx
    using that by (auto simp: ota_budget_value intro!: exI [of _ 1] exI [of _ rx])
  let ?rx = "concat (map (\<lambda>f. None # map Some (encode_frame f)) [demo_start 513, demo_data 2 ?img, demo_end 3])"
  have l: "line_of (demo_start 513 # [demo_data 2 ?img] @ [demo_end 3]) ?rx"
    using one [OF one [OF one [of "[]" "[]"]], of "demo_start 513" "demo_data 2 ?img" "demo_end 3"] by simp
  have w: "w_rx (demo_wire (demo_upload ?img)) = [None, Some 0x0A] @ Some 0x55 # ?rx"
    by (simp add: demo_wire_def demo_upload_def)
  have "\<forall>d\<in>set (heard [None, Some 0x0A]). \<not> leaves_menu d" "is_cmd CHR ''U'' CHR ''u'' 0x55"
    by (simp_all add: leaves_menu_def is_cmd_def)
  with w l have "\<exists>pre c rx. w_rx (demo_wire (demo_upload ?img)) = pre @ Some c # rx \<and> (\<forall>d\<in>set (heard pre). \<not> leaves_menu d)
      \<and> is_cmd CHR ''U'' CHR ''u'' c \<and> line_of (demo_start 513 # [demo_data 2 ?img] @ [demo_end 3]) rx"
    by blast
  moreover have "4 \<le> fr_len (demo_start 513)" "rd_u32_le (fr_data (demo_start 513)) = of_nat (length ?img)"
    "fr_seq (demo_start 513) + 1 = 2" by (simp_all add: demo_start_def)
  ultimately show ?thesis
    unfolding upload_line_def using sf demo_frames_of [of v] by (simp del: line_of.simps)
qed

end
