(* ===== verification/Qemu_Power.thy ===== *)
theory Qemu_Power
  imports Device_Life Demo_Ota
begin

text \<open>
  A power cycle of the QEMU build.  The shadow is lost, \<open>flash_init\<close> seeds it from the ROM, and
  nothing the program does changes the ROM: the device is what it was at its first switch-on.
\<close>

context flash_device
begin

text \<open>A valid record that names slot A, the only valid image, and no confirmation: slot A is booted.\<close>

lemma only_image_booted:
  assumes pk: "length (public_key_sha256 C) = 32"
    and ok: "boot_config_validate (stored_cfg (byte (bs_flash st)))"
    and act: "cfg_active_slot (stored_cfg (byte (bs_flash st))) = SLOT_A"
    and a: "image_ok C (byte (bs_flash st)) SLOT_A_ADDR" and b: "\<not> image_ok C (byte (bs_flash st)) SLOT_B_ADDR"
    and sh: "sb_magic (bs_shared st) \<noteq> SHARED_BLOCK_MAGIC \<or> sb_boot_confirmed (bs_shared st) = 0"
  shows "fst (main C F st) = JumpTo SLOT_A_ADDR"
proof -
  let ?c = "stored_cfg (byte (bs_flash st))"
  have l: "boot_config_load C F (bs_flash st) = (True, ?c)"
    using ok by (simp add: boot_config_load_eq [OF flash_device_axioms pk] loaded_cfg_def)
  obtain st1 where c: "check_app_confirmation ?c False st = (?c, False, st1)" and f: "bs_flash st1 = bs_flash st"
    using sh by (auto simp: check_app_confirmation_def Let_def)
  obtain st3 where p: "process_ota_pending_swap C F ?c False st1 = (?c, False, st3)" and f3: "bs_flash st3 = bs_flash st"
  proof (cases "sb_ota_pending (bs_shared st1) = 0")
    case True
    then show thesis using that [OF swap_no_request] f by blast
  next
    case False
    have "\<not> swap_accepts C (byte (bs_flash st1)) ?c" using b act f by (simp add: swap_accepts_def)
    then show thesis using that swap_eq [OF pk False, of ?c False] f by simp
  qed
  have prep: "boot_prepare C F st = (?c, st3)" by (simp add: boot_prepare_def l c p)
  have "cfg_active_slot ?c \<in> {SLOT_A, SLOT_B}" using act by simp
  from boot_finish_spec [OF flash_device_axioms pk this, of st3] show ?thesis
    using a b act by (simp add: main_split prep f3 pick_spec_def)
qed

end

text \<open>The life of the device above a ROM, up to a power cycle.\<close>

lemma qemu_life_live:
  assumes "length (public_key_sha256 C) = 32" "life C sim_ops E sim_soft_reset 1 st st'"
    and "sim_live rom (bs_flash st)" "cfg_typed (loaded_cfg C (sim_byte (bs_flash st)))"
    and "transfer_ok (fl_ota_slot_span sim_ops) (g_state st)"
  shows "sim_rom (bs_flash st') = rom"
  using sims.life_sound [OF assms(1,2)] assms(3-5) by (auto simp: sound_state_def sim_live_def)

text \<open>Switched on for the first time.\<close>

lemma sim_first_start: "sim_live m (sim_of_rom m)"
  by (simp add: sim_live_def sim_of_rom_def sim_flash_init_def QEMU_SHADOW_MAGIC_def)

end
