(* ===== verification/Demo_Delta.thy ===== *)
theory Demo_Delta
  imports Demo_Ota Delta_Patch
begin

unbundle bit_operations_syntax

text \<open>
  A staged patch on the simulated device: a literal byte followed by the first two bytes of the
  image in slot A, in the format of \<open>Hpatch_Lite\<close>.
\<close>

definition demo_patch :: "u8 list" where
  "demo_patch = [0x68, 0x49, 0, 1, 3, 1, 2, 0x80, 1, 0x55]"

definition demo_patched :: "u32 \<Rightarrow> sim_flash" where
  "demo_patched v = sim_of_rom (put (SLOT_B_ADDR + 32758) (Some demo_patch) (demo_mem None (Some v) None))"

lemma demo_patched_image:
  "mem_bytes (sim_byte (demo_patched v)) SLOT_A_ADDR 513 = demo_slot v"
proof -
  have "mem_bytes (sim_byte (demo_patched v)) SLOT_A_ADDR 513 = mem_bytes (demo_mem None (Some v) None) SLOT_A_ADDR 513"
    unfolding demo_patched_def sim_of_rom_byte
    by (rule put_bytes_other) (auto simp: demo_patch_def in_range_def layout_simps unat_arith_simps)
  then show ?thesis by (simp add: demo_mem_a)
qed

lemma demo_patched_header: "image_header (sim_byte (demo_patched v)) SLOT_A_ADDR = demo_hdr v"
  by (rule demo_image(2) [OF demo_patched_image])

lemma demo_patched_old: "old_image (sim_byte (demo_patched v)) SLOT_A_ADDR = demo_slot v"
  using demo_patched_image [of v] by (simp add: old_image_def demo_patched_header) (simp add: demo_hdr_def)

lemma demo_span [simp]: "fl_ota_slot_span sim_ops = 32768"
  by (simp add: sim_ops_def sim_ota_slot_span_def layout_simps)

lemma demo_patch_length [simp]: "length demo_patch = 10"
  by (simp add: demo_patch_def)

lemma unat_10: "unat (10 :: u32) = 10"
  by code_simp

lemma demo_staged:
  "d_rest sim_byte (demo_patched v) (staged 32768 SLOT_B_ADDR 10) = demo_patch"
proof -
  let ?s = "staged 32768 SLOT_B_ADDR 10"
  have "fs_base ?s + fs_pos ?s = SLOT_B_ADDR + 32758" "fs_len ?s - fs_pos ?s = 10" by (simp_all add: staged_def)
  then show ?thesis
    using put_bytes_same [of demo_patch "SLOT_B_ADDR + 32758" "demo_mem None (Some v) None"]
    by (simp only: d_rest_def demo_patched_def sim_of_rom_byte demo_patch_length unat_10) simp
qed

lemma demo_rest:
  assumes "k \<le> 10"
  shows "d_rest sim_byte (demo_patched v) ((staged 32768 SLOT_B_ADDR 10)\<lparr>fs_pos := of_nat k\<rparr>) = drop k demo_patch"
proof -
  let ?s = "staged 32768 SLOT_B_ADDR 10"
  have l: "k \<le> unat (fs_len ?s - fs_pos ?s)" using assms by (simp add: staged_def)
  have z: "fs_pos ?s = 0" by (simp add: staged_def)
  note a = stream_advance [OF l, unfolded z add_0_left add_0_right diff_zero]
  have "drop k (d_rest sim_byte (demo_patched v) ?s)
      = mem_bytes (sim_byte (demo_patched v)) (fs_base ?s + of_nat k) (unat (fs_len ?s) - k)"
    using l by (simp add: d_rest_def z drop_mem_bytes)
  then show ?thesis
    unfolding demo_staged by (simp only: d_rest_def a)
qed

lemma demo_open:
  "hpatch_lite_open (diff_stream_read sim_ops (demo_patched v)) (de_stack demo_delta) (staged 32768 SLOT_B_ADDR 10)
    = (OpenOk 0 3 0, (staged 32768 SLOT_B_ADDR 10)\<lparr>fs_pos := 5\<rparr>)"
proof -
  let ?s = "staged 32768 SLOT_B_ADDR 10" and ?R = "diff_stream_read sim_ops (demo_patched v)"
  have r1: "?R ?s 4 = (True, [0x68, 0x49, 0, 1], ?s\<lparr>fs_pos := 4\<rparr>)"
    unfolding sim.diff_stream_read_eq demo_staged by (simp add: staged_def demo_patch_def)
  have r2: "?R (?s\<lparr>fs_pos := 4\<rparr>) 1 = (True, [3], ?s\<lparr>fs_pos := 5\<rparr>)"
    using demo_rest [of 4 v]
    unfolding sim.diff_stream_read_eq by (simp add: staged_def demo_patch_def)
  have r3: "?R (?s\<lparr>fs_pos := 5\<rparr>) 0 = (True, [], ?s\<lparr>fs_pos := 5\<rparr>)" by (simp add: diff_stream_read_def)
  have o: "overlay [0x68, 0x49, 0, 1] (de_stack demo_delta) = [0x68, 0x49, 0, 1]"
    "overlay [3] [0x68, 0x49, 0, 1] = [3, 0x49, 0, 1]" "overlay [] [3, 0x49, 0, 1] = [3, 0x49, 0, 1 :: u8]"
    by (simp_all add: overlay_def demo_delta_def)
  have n: "[0x68, 0x49, 0, 1 :: u8] ! 3 = 1" "[0x68, 0x49, 0, 1 :: u8] ! 2 = 0"
    "unat ((1 :: u8) AND 7) = 1" "unat (drop_bit 3 (1 :: u8) AND 7) = 0" by simp_all
  have h: "hpi_readSize [3, 0x49, 0, 1] 1 = 3" "hpi_readSize [3, 0x49, 0, 1] 0 = 0"
    by (simp_all add: hpi_readSize_def)
  show ?thesis
    by (simp only: hpatch_lite_open_def hpi_kHeadSize_def Let_def r1 prod.case o n) (simp add: r2 [unfolded One_nat_def] o r3 h [unfolded One_nat_def])
qed

lemma demo_new:
  "spec_patch (demo_slot v) 3 (d_rest sim_byte (demo_patched v) ((staged 32768 SLOT_B_ADDR 10)\<lparr>fs_pos := 5\<rparr>))
    = Some (0x55 # take 2 (demo_slot v))"
proof -
  let ?old = "demo_slot v"
  have d: "drop 5 demo_patch = [1, 2, 0x80, 1, 0x55]" by (simp add: demo_patch_def)
  have v: "sp_varint 0 True (1 # bs) = Some (1, bs)" "sp_varint 0 True (2 # bs) = Some (2, bs)"
    "sp_varint 0 False bs = Some (0, bs)" for bs
    by simp_all
  have t: "bit (0x80 :: u8) 7" "\<not> bit (0x80 :: u8) 6" by simp_all
  have c: "sp_cover ?old True 0 2 bs = Some (take 2 ?old, bs)" for bs
    by (simp add: sp_cover_def sp_old_def)
  have "sp_covers (Suc 0) ?old 0 0 [2, 0x80, 1, 0x55] = Some (0x55 # take 2 ?old, 3)"
    unfolding sp_covers.simps by (simp add: v t c sp_take_def del: sp_varint.simps)
  then show ?thesis
    using demo_rest [of 5 v] unfolding spec_patch_def by (simp add: d v del: sp_varint.simps)
qed

lemma demo_layout: "delta_layout 32768 SLOT_A_ADDR SLOT_B_ADDR 10 3"
  by (simp add: delta_layout_def)

lemma demo_patched_header_ok:
  "fh_magic (image_header (sim_byte (demo_patched v)) SLOT_A_ADDR) = FIRMWARE_MAGIC"
  "fh_image_size (image_header (sim_byte (demo_patched v)) SLOT_A_ADDR) \<noteq> 0"
  "512 + fh_image_size (image_header (sim_byte (demo_patched v)) SLOT_A_ADDR) \<le> SLOT_SIZE"
  unfolding demo_patched_header by (simp_all add: demo_hdr_def layout_simps)

lemma demo_new_spec:
  "spec_patch (old_image (sim_byte (demo_patched v)) SLOT_A_ADDR) 3
    (d_rest sim_byte (demo_patched v) ((staged 32768 SLOT_B_ADDR 10)\<lparr>fs_pos := 5\<rparr>))
    = Some (0x55 # take 2 (demo_slot v))"
  "length (0x55 # take 2 (demo_slot v)) = unat (3 :: u32)"
  using demo_new by (simp_all add: demo_patched_old)

text \<open>Slot B holds no header: it is erased up to the staged patch.\<close>

lemma demo_patched_b: "fh_magic (image_header (sim_byte (demo_patched v)) SLOT_B_ADDR) \<noteq> FIRMWARE_MAGIC"
proof -
  have eq: "mem_bytes (sim_byte (demo_patched v)) SLOT_B_ADDR 513 = mem_bytes (demo_mem None (Some v) None) SLOT_B_ADDR 513"
    unfolding demo_patched_def sim_of_rom_byte
    by (rule put_bytes_other) (auto simp: demo_patch_def in_range_def layout_simps unat_arith_simps)
  have "take 512 (mem_bytes (sim_byte (demo_patched v)) SLOT_B_ADDR 513)
      = take 512 (replicate 513 0xFF)" unfolding eq demo_mem_b by simp
  then have "mem_bytes (sim_byte (demo_patched v)) SLOT_B_ADDR 512 = replicate 512 0xFF"
    by (simp add: take_mem_bytes)
  then show ?thesis
    unfolding image_header_def by (simp add: hdr_of_bytes_def rd_u32_le_def FIRMWARE_MAGIC_def)
qed

end
