(* ===== verification/Tuz_Ends.thy ===== *)
theory Tuz_Ends
  imports Delta_Patch
begin

unbundle bit_operations_syntax

text \<open>
  The decompressor returns on every input, damaged input included.  Past the end of the stream a
  byte reads as zero, and a code made of zero bits is an error, so every round of the loop uses up
  something of the input: \<open>tuz_left\<close> counts what is left in the stream and in the bits that were
  fetched but not used.  Hence the step bounds of \<open>Tinyuz\<close> are never reached.
\<close>

section \<open>What is left of the input\<close>

definition cache_left :: "('i \<Rightarrow> u8 list) \<Rightarrow> 'i input_cache \<Rightarrow> u8 list \<Rightarrow> bool" where
  "cache_left rest c bs \<longleftrightarrow> cache_rep rest c bs \<or> cache_dead c \<and> bs = []"

definition tuz_input :: "('i \<Rightarrow> u8 list) \<Rightarrow> 'i tuz_stream \<Rightarrow> u8 list \<Rightarrow> bool" where
  "tuz_input rest z bs \<longleftrightarrow> cache_left rest (tz_cache z) bs \<and> tz_type_count z \<le> 8"

definition tuz_left :: "'i tuz_stream \<Rightarrow> u8 list \<Rightarrow> nat" where
  "tuz_left z bs = 16 * length bs + (if tz_types z = 0 then 0 else Suc (tz_type_count z))"

lemma tuz_left_bound: "tuz_input rest z bs \<Longrightarrow> tuz_left z bs \<le> 16 * length bs + 9"
  by (simp add: tuz_input_def tuz_left_def)

lemma tuz_open_input:
  assumes "0 < k" "unat ds + k \<le> length mem"
  shows "tuz_input rest (tuz_TStream_open s mem ds k) (rest s)"
  using assms by (simp add: tuz_input_def cache_left_def cache_rep_def tuz_TStream_open_def)

text \<open>
  \<open>tuz_uses q z bs z' bs'\<close>: from \<open>z\<close> to \<open>z'\<close> some input was used, or none and then \<open>q\<close> holds.
\<close>

definition tuz_uses ::
  "('i \<Rightarrow> u8 list) \<Rightarrow> bool \<Rightarrow> 'i tuz_stream \<Rightarrow> u8 list \<Rightarrow> 'i tuz_stream \<Rightarrow> u8 list \<Rightarrow> bool" where
  "tuz_uses rest q z bs z' bs' \<longleftrightarrow> tuz_input rest z' bs' \<and> length bs' \<le> length bs
     \<and> (tuz_left z' bs' < tuz_left z bs \<or> tuz_left z' bs' = tuz_left z bs \<and> q)"

lemma tuz_uses_weaken: "tuz_uses rest q z bs z' bs' \<Longrightarrow> (q \<Longrightarrow> r) \<Longrightarrow> tuz_uses rest r z bs z' bs'"
  unfolding tuz_uses_def by blast

text \<open>Both depend on the cache and the fetched bits alone.\<close>

lemma dict_write_input [simp]:
  "tz_cache (dict_write_byte b z) = tz_cache z" "tz_types (dict_write_byte b z) = tz_types z"
  "tz_type_count (dict_write_byte b z) = tz_type_count z"
  "tz_literalType_len (dict_write_byte b z) = tz_literalType_len z"
  by (simp_all add: dict_write_byte_def Let_def)

lemma tuz_input_cong:
  "tz_cache y = tz_cache z \<Longrightarrow> tz_type_count y = tz_type_count z \<Longrightarrow> tuz_input rest y bs = tuz_input rest z bs"
  by (simp add: tuz_input_def)

lemma tuz_left_cong:
  "tz_types y = tz_types z \<Longrightarrow> tz_type_count y = tz_type_count z \<Longrightarrow> tuz_left y bs = tuz_left z bs"
  by (simp add: tuz_left_def)

text \<open>What \<open>type_process\<close> does once the length and the distance of a match are read.\<close>

definition tuz_match ::
  "'i reader \<Rightarrow> u32 \<Rightarrow> u32 \<Rightarrow> nat \<Rightarrow> 'i tuz_stream \<Rightarrow> u8 list \<Rightarrow> type_step \<times> nat \<times> 'i tuz_stream \<times> u8 list" where
  "tuz_match R p len n z out =
     (if p \<noteq> 0 then
        (Continue, n, z\<lparr>tz_dict_pos_back := p, tz_dictType_len := len + tuz_kMinDictMatchLen,
           tz_dictType_pos := tz_dict_size z - p\<rparr>, out)
      else if len = tuz_ctrlType_literalLine then
        (case cache_unpack_pos_len R (z\<lparr>tz_isHaveData_back := True\<rparr>) of (v, z) \<Rightarrow>
           (Continue, n, z\<lparr>tz_literalType_len := v + tuz_kMinLiteralLen\<rparr>, out))
      else let z = z\<lparr>tz_dict_pos_back := 1, tz_type_count := 0\<rparr>
           in if len = tuz_ctrlType_clipEnd then (Continue, n, z, out)
              else if len = tuz_ctrlType_streamEnd then (Return TUZ_STREAM_END, n, z, out)
              else (Return (if cache_success_finish (tz_cache z)
                            then TUZ_CTRLTYPE_UNKNOW_ERROR else TUZ_READ_CODE_ERROR), n, z, out))"

context byte_source
begin

lemma read_byte_left:
  assumes "cache_left rest c bs"
  obtains b c' bs' where "cache_read_1byte R c = (b, c')" "cache_left rest c' bs'"
    "bs = [] \<Longrightarrow> b = 0 \<and> bs' = []" "bs \<noteq> [] \<Longrightarrow> bs = b # bs'"
proof (cases bs)
  case Nil
  then have "cache_rep rest c [] \<or> cache_dead c" using assms by (auto simp: cache_left_def)
  then obtain c' where "cache_read_1byte R c = (0, c')" "cache_dead c'" by (rule read_byte_end)
  then show thesis using Nil by (intro that [of 0 c' "[]"]) (simp_all add: cache_left_def)
next
  case (Cons b bs')
  then have "cache_rep rest c (b # bs')" using assms by (simp add: cache_left_def)
  then obtain c' where "cache_read_1byte R c = (b, c')" "cache_rep rest c' bs'" by (rule read_byte_rep)
  then show thesis using Cons by (intro that [of b c' bs']) (simp_all add: cache_left_def)
qed

lemma tuz_byte_uses:
  assumes "tuz_input rest z bs" "tuz_read_1byte R z = (b, z')"
  obtains bs' where "tuz_uses rest (b = 0) z bs z' bs'"
proof -
  obtain c where c: "cache_read_1byte R (tz_cache z) = (b, c)" "z' = z\<lparr>tz_cache := c\<rparr>"
    using assms(2) by (auto simp: tuz_read_1byte_def split: prod.splits)
  have "cache_left rest (tz_cache z) bs" using assms(1) by (simp add: tuz_input_def)
  then obtain bs' where "cache_left rest c bs'" "bs = [] \<Longrightarrow> b = 0 \<and> bs' = []" "bs \<noteq> [] \<Longrightarrow> bs = b # bs'"
    using c(1) by (rule_tac read_byte_left) auto
  then have "tuz_uses rest (b = 0) z bs z' bs'"
    using assms(1) c(2) by (cases bs) (auto simp: tuz_uses_def tuz_input_def tuz_left_def)
  then show thesis by (rule that)
qed

lemma lowbits_uses:
  assumes "tuz_input rest z bs" "cache_read_lowbits R k z = (v, z')" "0 < k" "k \<le> 8"
  obtains bs' where "tuz_uses rest (v = 0) z bs z' bs'" "tz_type_count z' < 8"
proof (cases "k \<le> tz_type_count z")
  case True
  then have e: "v = tz_types z" "z' = z\<lparr>tz_type_count := tz_type_count z - k, tz_types := drop_bit k (tz_types z)\<rparr>"
    using assms(2) by (auto simp: cache_read_lowbits_def Let_def)
  have "tuz_uses rest (v = 0) z bs z' bs"
    using assms(1,3) True by (auto simp: tuz_uses_def tuz_input_def tuz_left_def e)
  moreover have "tz_type_count z' < 8" using assms(1,3) True by (auto simp: tuz_input_def e)
  ultimately show thesis by (rule that)
next
  case False
  let ?c = "tz_type_count z"
  obtain b y where y: "tuz_read_1byte R z = (b, y)" by fastforce
  obtain c where c: "cache_read_1byte R (tz_cache z) = (b, c)" "y = z\<lparr>tz_cache := c\<rparr>"
    using y by (auto simp: tuz_read_1byte_def split: prod.splits)
  have e: "v = tz_types z OR push_bit ?c (ucast b)"
    "z' = y\<lparr>tz_type_count := 8 - (k - ?c), tz_types := drop_bit (k - ?c) (ucast b)\<rparr>"
    using assms(2) False y by (simp_all add: cache_read_lowbits_def Let_def tuz_kMaxTypeBitCount_def)
  have "cache_left rest (tz_cache z) bs" using assms(1) by (simp add: tuz_input_def)
  then obtain bs' where l: "cache_left rest c bs'" "bs = [] \<Longrightarrow> b = 0 \<and> bs' = []" "bs \<noteq> [] \<Longrightarrow> bs = b # bs'"
    using c(1) by (rule_tac read_byte_left) auto
  have "tuz_uses rest (v = 0) z bs z' bs'"
    using l by (cases bs) (auto simp: tuz_uses_def tuz_input_def tuz_left_def e c(2))
  moreover have "tz_type_count z' < 8" using False assms(3,4) by (simp add: e)
  ultimately show thesis by (rule that)
qed

lemma bit1_uses:
  assumes "tuz_input rest z bs" "cache_read_1bit R z = (b, z')"
  obtains bs' where "tuz_uses rest (\<not> b) z bs z' bs'" "tz_type_count z' < 8"
proof -
  obtain v where v: "cache_read_lowbits R 1 z = (v, z')" "b = bit v 0"
    using assms(2) by (auto simp: cache_read_1bit_def split: prod.splits)
  have k: "(0 :: nat) < 1" "(1 :: nat) \<le> 8" by simp_all
  obtain bs' where u: "tuz_uses rest (v = 0) z bs z' bs'" "tz_type_count z' < 8"
    using lowbits_uses [OF assms(1) v(1) k] by blast
  have "v = 0 \<Longrightarrow> \<not> b" using v(2) by simp
  then have "tuz_uses rest (\<not> b) z bs z' bs'" using tuz_uses_weaken [OF u(1)] by blast
  then show thesis using u(2) by (rule that)
qed

text \<open>A length code: with more steps than input is left, the number of steps does not matter.\<close>

lemma unpack_len_uses:
  assumes "tuz_input rest z bs" "unpack_len_loop (Suc n) R k v z = (w, z')" "0 < k" "k \<le> 8"
  shows "\<exists>bs'. tuz_uses rest (v = 0 \<longrightarrow> w = 0) z bs z' bs'"
  using assms(1,2)
proof (induction n arbitrary: v z bs)
  case 0
  obtain low y where y: "cache_read_lowbits R k z = (low, y)" by fastforce
  obtain bs' where u: "tuz_uses rest (low = 0) z bs y bs'"
    using lowbits_uses [OF 0(1) y assms(3,4)] by blast
  have "z' = y" "v = 0 \<Longrightarrow> low = 0 \<Longrightarrow> w = 0" using 0(2) y by (auto simp: Let_def split: if_splits)
  then show ?case using tuz_uses_weaken [OF u, of "v = 0 \<longrightarrow> w = 0"] by blast
next
  case (Suc n)
  obtain low y where y: "cache_read_lowbits R k z = (low, y)" by fastforce
  obtain bs1 where u: "tuz_uses rest (low = 0) z bs y bs1"
    using lowbits_uses [OF Suc.prems(1) y assms(3,4)] by blast
  let ?v = "push_bit (k - 1) v + (low AND (push_bit (k - 1) 1 - 1))"
  show ?case
  proof (cases "bit low (k - 1)")
    case True
    then have nz: "low \<noteq> 0" by auto
    have "unpack_len_loop (Suc n) R k (?v + 1) y = (w, z')"
      using Suc.prems(2) y True by (simp add: Let_def)
    then obtain bs' where "tuz_uses rest (?v + 1 = 0 \<longrightarrow> w = 0) y bs1 z' bs'"
      using Suc.IH u by (blast dest: tuz_uses_def [THEN iffD1])
    then show ?thesis using u nz unfolding tuz_uses_def by (intro exI [of _ bs']) auto
  next
    case False
    then have "z' = y" "v = 0 \<Longrightarrow> low = 0 \<Longrightarrow> w = 0"
      using Suc.prems(2) y by (auto simp: Let_def)
    then show ?thesis using tuz_uses_weaken [OF u, of "v = 0 \<longrightarrow> w = 0"] by blast
  qed
qed

lemma unpack_len_fuel:
  assumes "tuz_input rest z bs" "tuz_left z bs < n" "tuz_left z bs < m" "0 < k" "k \<le> 8"
  shows "unpack_len_loop n R k v z = unpack_len_loop m R k v z"
  using assms(1-3)
proof (induction n arbitrary: m v z bs)
  case (Suc n)
  obtain m' where m: "m = Suc m'" using Suc.prems(3) by (cases m) auto
  obtain low y where y: "cache_read_lowbits R k z = (low, y)" by fastforce
  obtain bs1 where u: "tuz_uses rest (low = 0) z bs y bs1"
    using lowbits_uses [OF Suc.prems(1) y assms(4,5)] by blast
  show ?case
  proof (cases "bit low (k - 1)")
    case True
    then have "low \<noteq> 0" by auto
    then have "tuz_input rest y bs1" "tuz_left y bs1 < n" "tuz_left y bs1 < m'"
      using u Suc.prems(2,3) by (auto simp: tuz_uses_def m)
    then have "unpack_len_loop n R k w y = unpack_len_loop m' R k w y" for w by (rule Suc.IH)
    then show ?thesis using y True by (simp add: m Let_def)
  next
    case False
    then show ?thesis using y by (simp add: m Let_def)
  qed
qed simp

lemma unpack_len_code_uses:
  assumes "tuz_input rest z bs" "cache_unpack_len R z = (v, z') \<or> cache_unpack_pos_len R z = (v, z')"
  obtains bs' where "tuz_uses rest (v = 0) z bs z' bs'"
proof -
  have b: "UNPACK_BOUND = Suc (2 ^ 64 - 1)" by (simp add: UNPACK_BOUND_def)
  have run: "\<exists>bs'. tuz_uses rest (v = 0) z bs z' bs'"
    if "unpack_len_loop UNPACK_BOUND R k 0 z = (v, z')" "0 < k" "k \<le> 8" for k
    using unpack_len_uses [OF assms(1) that(1) [unfolded b] that(2,3)] by (simp only: simp_thms)
  have "\<exists>bs'. tuz_uses rest (v = 0) z bs z' bs'"
    using assms(2) unfolding cache_unpack_len_def cache_unpack_pos_len_def
    by (elim disjE) (erule run; simp)+
  then show thesis using that by blast
qed

lemma dict_pos_uses:
  assumes "tuz_input rest z bs" "cache_unpack_dict_pos R z = (p, z')"
  obtains bs' where "tuz_uses rest (p = 0) z bs z' bs'"
proof -
  obtain b y where y: "tuz_read_1byte R z = (b, y)" by fastforce
  obtain bs1 where u: "tuz_uses rest (b = 0) z bs y bs1" using tuz_byte_uses [OF assms(1) y] by blast
  show thesis
  proof (cases "(ucast b :: u32) < 128")
    case True
    then have e: "z' = y" "p = ucast b" using assms(2) y by (auto simp: cache_unpack_dict_pos_def Let_def)
    have "tuz_uses rest (p = 0) z bs y bs1" using tuz_uses_weaken [OF u] e(2) by simp
    then show thesis using e(1) that by simp
  next
    case False
    then have nz: "b \<noteq> 0" by auto
    obtain v where v: "cache_unpack_pos_len R y = (v, z')"
      using assms(2) y False by (auto simp: cache_unpack_dict_pos_def Let_def split: prod.splits)
    have "tuz_input rest y bs1" using u by (simp add: tuz_uses_def)
    then obtain bs' where "tuz_uses rest (v = 0) y bs1 z' bs'" using unpack_len_code_uses v by blast
    then have "tuz_uses rest (p = 0) z bs z' bs'" using u nz unfolding tuz_uses_def by auto
    then show thesis by (rule that)
  qed
qed

lemma back_bit_uses:
  assumes "tuz_input rest z bs" "(if h then cache_read_1bit R z else (False, z)) = (b, z')"
  obtains bs' where "tuz_uses rest (\<not> b) z bs z' bs'"
proof (cases h)
  case True
  then show thesis using assms bit1_uses that by metis
next
  case False
  then show thesis using assms that [of bs] by (auto simp: tuz_uses_def)
qed

text \<open>
  \<open>type_process\<close> in three parts: the distance of a match, what a match or a control code does
  then, and a literal.
\<close>

lemma distance_uses:
  fixes len :: u32
  assumes "tuz_input rest z bs"
    and "(if bk then (tz_dict_pos_back z, len, z)
        else case cache_unpack_dict_pos R z of (p, z) \<Rightarrow>
          (p, len + (if p > tuz_kBigPosForLen then 1 else 0), z)) = (p, len', z')"
  obtains bs' where "tuz_uses rest (bk \<or> p = 0 \<and> len' = len) z bs z' bs'"
proof (cases bk)
  case True
  then show ?thesis using assms that [of bs] by (auto simp: tuz_uses_def)
next
  case False
  obtain p0 y where y: "cache_unpack_dict_pos R z = (p0, y)" by fastforce
  have e: "p = p0" "z' = y" "len' = len + (if p0 > tuz_kBigPosForLen then 1 else 0)"
    using assms(2) unfolding y prod.case using False by auto
  obtain bs' where u: "tuz_uses rest (p0 = 0) z bs y bs'" using dict_pos_uses [OF assms(1) y] by blast
  have "p0 = 0 \<Longrightarrow> p = 0 \<and> len' = len" unfolding e by simp
  then have "tuz_uses rest (bk \<or> p = 0 \<and> len' = len) z bs y bs'"
    by (intro tuz_uses_weaken [OF u] disjI2)
  then show ?thesis using e(2) that by blast
qed

lemma match_uses:
  assumes "tuz_input rest z bs" "tuz_match R p len n z out = (s, n', z', out')"
  shows "n' = n \<and> out' = out \<and> (s = Continue \<longrightarrow> p \<noteq> 0 \<or> len \<noteq> 0)
    \<and> (\<exists>bs'. tuz_uses rest True z bs z' bs')"
proof (cases "p = 0 \<and> len = tuz_ctrlType_literalLine")
  case True
  let ?y = "z\<lparr>tz_isHaveData_back := True\<rparr>"
  have y: "tuz_input rest ?y bs" "tuz_left ?y bs = tuz_left z bs"
    using assms(1) by (simp_all add: tuz_input_def tuz_left_def)
  obtain v w where v: "cache_unpack_pos_len R ?y = (v, w)" by fastforce
  obtain bs' where u: "tuz_uses rest (v = 0) ?y bs w bs'" using unpack_len_code_uses y(1) v by blast
  have e: "n' = n" "out' = out" "z' = w\<lparr>tz_literalType_len := v + tuz_kMinLiteralLen\<rparr>"
    using assms(2) True v unfolding tuz_match_def by auto
  have "tuz_input rest z' bs' = tuz_input rest w bs'" "tuz_left z' bs' = tuz_left w bs'"
    by (intro tuz_input_cong tuz_left_cong; simp add: e)+
  then show ?thesis using u y(2) e True by (auto simp: tuz_uses_def tuz_ctrlType_literalLine_def)
next
  case False
  then have e: "n' = n" "out' = out" "tz_cache z' = tz_cache z" "tz_types z' = tz_types z"
    "tz_type_count z' \<le> tz_type_count z" "s = Continue \<Longrightarrow> p \<noteq> 0 \<or> len \<noteq> 0"
    using assms(2) by (auto simp: tuz_match_def Let_def tuz_ctrlType_clipEnd_def split: if_splits)
  have "tuz_uses rest True z bs z' bs"
    using assms(1) e(3-5) by (auto simp: tuz_uses_def tuz_input_def tuz_left_def)
  then show ?thesis using e by blast
qed

lemma literal_uses:
  assumes "tuz_input rest z bs" "tz_type_count z < 8"
    and "(case n of
           Suc m \<Rightarrow> (case tuz_read_1byte R z of (b, z) \<Rightarrow>
             (Continue, m, (dict_write_byte b z)\<lparr>tz_isHaveData_back := True\<rparr>, out @ [b]))
         | 0 \<Rightarrow> (Break, 0, cache_push_1bit 1 z, out)) = (s, n', z', out')"
  shows "n' + length out' = n + length out \<and> (\<exists>bs'. tuz_input rest z' bs' \<and> length bs' \<le> length bs
    \<and> (s = Continue \<longrightarrow> tuz_left z' bs' \<le> tuz_left z bs))"
proof (cases n)
  case 0
  then have "tuz_input rest z' bs" using assms by (auto simp: tuz_input_def cache_push_1bit_def)
  then show ?thesis using assms(3) 0 by auto
next
  case (Suc m)
  obtain b y where y: "tuz_read_1byte R z = (b, y)" by fastforce
  obtain bs' where u: "tuz_uses rest (b = 0) z bs y bs'" using tuz_byte_uses [OF assms(1) y] by blast
  have e: "n' = m" "out' = out @ [b]" "z' = (dict_write_byte b y)\<lparr>tz_isHaveData_back := True\<rparr>"
    using assms(3) Suc y by simp_all
  have "tuz_input rest z' bs' = tuz_input rest y bs'" "tuz_left z' bs' = tuz_left y bs'"
    by (intro tuz_input_cong tuz_left_cong; simp add: e)+
  then show ?thesis using u Suc e(1,2) by (intro conjI exI [of _ bs']) (auto simp: tuz_uses_def)
qed

text \<open>Every round that continues uses some of the input.\<close>

lemma type_process_uses:
  assumes "tuz_input rest z bs" "type_process R n z out = (s, n', z', out')"
  shows "n' + length out' = n + length out \<and> (\<exists>bs'. tuz_input rest z' bs' \<and> length bs' \<le> length bs
    \<and> (s = Continue \<longrightarrow> tuz_left z' bs' < tuz_left z bs))"
proof -
  obtain d z1 where d: "cache_read_1bit R z = (d, z1)" by fastforce
  obtain bs1 where u1: "tuz_uses rest (\<not> d) z bs z1 bs1" "tz_type_count z1 < 8"
    using bit1_uses [OF assms(1) d] by blast
  have i1: "tuz_input rest z1 bs1" using u1(1) by (simp add: tuz_uses_def)
  show ?thesis
  proof (cases d)
    case True
    from literal_uses [OF i1 u1(2)] assms(2) d True show ?thesis
      using u1(1) by (fastforce simp: type_process_def tuz_uses_def)
  next
    case False
    obtain len z2 where l: "cache_unpack_len R z1 = (len, z2)" by fastforce
    obtain bs2 where u2: "tuz_uses rest (len = 0) z1 bs1 z2 bs2" using unpack_len_code_uses i1 l by blast
    obtain bk z3 where b: "(if tz_isHaveData_back z2 then cache_read_1bit R z2 else (False, z2)) = (bk, z3)"
      by fastforce
    obtain bs3 where u3: "tuz_uses rest (\<not> bk) z2 bs2 z3 bs3"
      using back_bit_uses [OF _ b] u2 unfolding tuz_uses_def by blast
    obtain p len' z4 where q: "(if bk then (tz_dict_pos_back z3, len, z3)
        else case cache_unpack_dict_pos R z3 of (p, z) \<Rightarrow>
          (p, len + (if p > tuz_kBigPosForLen then 1 else 0), z)) = (p, len', z4)"
      by (rule prod_cases3)
    obtain bs4 where u4: "tuz_uses rest (bk \<or> p = 0 \<and> len' = len) z3 bs3 z4 bs4"
      using distance_uses [OF _ q] u3 unfolding tuz_uses_def by blast
    let ?z5 = "z4\<lparr>tz_isHaveData_back := False\<rparr>"
    have z5: "tuz_input rest ?z5 bs4 = tuz_input rest z4 bs4" "tuz_left ?z5 bs4 = tuz_left z4 bs4"
      by (intro tuz_input_cong tuz_left_cong; simp)+
    have "tuz_match R p len' n ?z5 out = (s, n', z', out')"
      using assms(2) False
      by (simp only: type_process_def tuz_match_def d l b q prod.case Let_def not_False_eq_True if_True)
    from match_uses [OF _ this, of bs4] u4 z5 obtain bs5 where m: "n' = n" "out' = out"
      "s = Continue \<Longrightarrow> p \<noteq> 0 \<or> len' \<noteq> 0" "tuz_uses rest True ?z5 bs4 z' bs5"
      by (auto simp: tuz_uses_def)
    have "s = Continue \<Longrightarrow> tuz_left z' bs5 < tuz_left z bs"
      using u1(1) u2 u3 u4 m(3,4) z5(2) unfolding tuz_uses_def by force
    moreover have "tuz_input rest z' bs5" "length bs5 \<le> length bs"
      using u1(1) u2 u3 u4 m(4) by (auto simp: tuz_uses_def)
    ultimately show ?thesis using m(1,2) by blast
  qed
qed

lemma copy_literal_uses:
  assumes "tuz_input rest z bs" "copy_literal_loop R n z out = (n', z', out')"
  shows "n' + length out' = n + length out \<and> (\<exists>bs'. tuz_input rest z' bs' \<and> length bs' \<le> length bs
    \<and> tuz_left z' bs' \<le> tuz_left z bs)"
  using assms
proof (induction n arbitrary: z bs out)
  case (Suc n)
  show ?case
  proof (cases "tz_literalType_len z = 0")
    case False
    obtain b y where y: "tuz_read_1byte R z = (b, y)" by fastforce
    obtain bs1 where u: "tuz_uses rest (b = 0) z bs y bs1" using tuz_byte_uses [OF Suc.prems(1) y] by blast
    let ?w = "(dict_write_byte b y)\<lparr>tz_literalType_len := tz_literalType_len y - 1\<rparr>"
    have w: "tuz_input rest ?w bs1 = tuz_input rest y bs1" "tuz_left ?w bs1 = tuz_left y bs1"
      by (intro tuz_input_cong tuz_left_cong; simp)+
    have "copy_literal_loop R n ?w (out @ [b]) = (n', z', out')"
      using Suc.prems(2) False y by (simp add: Let_def)
    from Suc.IH [OF _ this] w u show ?thesis by (fastforce simp: tuz_uses_def)
  qed (use Suc.prems in auto)
qed auto

end

lemma copy_dict_frame:
  assumes "copy_dict_loop n z out = Some (n', z', out')"
  shows "n' + length out' = n + length out \<and> tz_cache z' = tz_cache z \<and> tz_types z' = tz_types z
    \<and> tz_type_count z' = tz_type_count z"
  using assms
proof (induction n z out rule: copy_dict_loop.induct)
  case (2 n z out)
  then show ?case by (fastforce simp: Let_def split: if_splits option.splits)
qed simp

context byte_source
begin

text \<open>The decompressor never reaches its bound, and what it delivers fits the request.\<close>

lemma tuz_loop_ends:
  assumes "tuz_input rest z bs" "tuz_left z bs < f" "tuz_loop f R n z out = (r, out', z')"
  shows "r \<noteq> TUZ_BOUND \<and> length out' \<le> n + length out
    \<and> (\<exists>bs'. tuz_input rest z' bs' \<and> length bs' \<le> length bs)"
  using assms
proof (induction f arbitrary: n z bs out)
  case (Suc f)
  show ?case
  proof (cases "copy_dict_loop n z out")
    case None
    have "tuz_input rest (z\<lparr>tz_outside := True\<rparr>) bs = tuz_input rest z bs" by (rule tuz_input_cong) simp_all
    then show ?thesis using Suc.prems None by (auto simp: Let_def)
  next
    case (Some x)
    obtain n1 z1 out1 where x: "x = (n1, z1, out1)" by (metis prod_cases3)
    note c1 = copy_dict_frame [OF Some [unfolded x]]
    have i1: "tuz_input rest z1 bs" "tuz_left z1 bs = tuz_left z bs"
      using Suc.prems(1) c1 by (simp_all add: tuz_input_def tuz_left_def)
    let ?fin = "\<lambda>z. if \<not> cache_success_finish (tz_cache z) then TUZ_READ_CODE_ERROR else TUZ_OK"
    obtain n2 z2 out2 where l: "copy_literal_loop R n1 z1 out1 = (n2, z2, out2)" by (metis prod_cases3)
    obtain bs2 where c2: "n2 + length out2 = n1 + length out1" "tuz_input rest z2 bs2"
      "length bs2 \<le> length bs" "tuz_left z2 bs2 \<le> tuz_left z bs"
      using copy_literal_uses [OF i1(1) l] i1(2) by auto
    obtain s n3 z3 out3 where t: "type_process R n2 z2 out2 = (s, n3, z3, out3)" by (metis prod_cases4)
    obtain bs3 where c3: "n3 + length out3 = n2 + length out2" "tuz_input rest z3 bs3"
      "length bs3 \<le> length bs2" "s = Continue \<Longrightarrow> tuz_left z3 bs3 < tuz_left z2 bs2"
      using type_process_uses [OF c2(2) t] by auto
    have run: "(r, out', z') =
      (if tz_dictType_len z1 \<noteq> 0 then (?fin z1, out1, z1)
       else if tz_literalType_len z2 \<noteq> 0 then (?fin z2, out2, z2)
       else case s of Continue \<Rightarrow> tuz_loop f R n3 z3 out3 | Break \<Rightarrow> (?fin z3, out3, z3)
         | Return r \<Rightarrow> (r, out3, z3))"
      using Suc.prems(3) unfolding tuz_loop.simps Some x option.case prod.case Let_def l t
      by (simp split: type_step.splits)
    have fin: "?fin w \<noteq> TUZ_BOUND" for w by simp
    have ret: "s \<noteq> Return TUZ_BOUND" using t by (auto simp: type_process_def Let_def split: prod.splits if_splits nat.splits)
    consider "tz_dictType_len z1 \<noteq> 0" | "tz_dictType_len z1 = 0" "tz_literalType_len z2 \<noteq> 0"
      | "tz_dictType_len z1 = 0" "tz_literalType_len z2 = 0" "s \<noteq> Continue"
      | "tz_dictType_len z1 = 0" "tz_literalType_len z2 = 0" "s = Continue" by blast
    then show ?thesis
    proof cases
      case 1
      then show ?thesis using run i1 c1 fin by auto
    next
      case 2
      then show ?thesis using run c1 c2 fin by auto
    next
      case 3
      then show ?thesis using run c1 c2 c3 fin ret by (cases s) (auto intro!: exI [of _ bs3])
    next
      case 4
      then have "tuz_loop f R n3 z3 out3 = (r, out', z')" using run by simp
      moreover have "tuz_left z3 bs3 < f" using c2(4) c3(4) 4 Suc.prems(2) by simp
      ultimately show ?thesis using Suc.IH [OF c3(2)] c1 c2(1,3) c3(1,3) by fastforce
    qed
  qed
qed simp

lemma tuz_partial_ends:
  assumes "tuz_input rest z bs" "length bs < 2 ^ 59"
    and "tuz_TStream_decompress_partial R z n = (r, d, z')"
  shows "r \<noteq> TUZ_BOUND \<and> length d \<le> n \<and> (\<exists>bs'. tuz_input rest z' bs' \<and> length bs' \<le> length bs)"
proof -
  have "tuz_left z bs < TUZ_LOOP_BOUND"
    using tuz_left_bound [OF assms(1)] assms(2) by (simp add: TUZ_LOOP_BOUND_def)
  from tuz_loop_ends [OF assms(1) this assms(3) [unfolded tuz_TStream_decompress_partial_def]]
  show ?thesis by simp
qed

end

text \<open>In particular on the staged patch in flash.\<close>

sublocale flash_device \<subseteq> diff: byte_source "diff_stream_read F fl" "d_rest byte fl" for fl
  by (rule diff_source)

context flash_device
begin

lemma tuz_flash_ends:
  assumes "tuz_input (d_rest byte fl) z bs" "length bs < 2 ^ 59"
    and "tuz_TStream_decompress_partial (diff_stream_read F fl) z n = (r, d, z')"
  shows "r \<noteq> TUZ_BOUND \<and> length d \<le> n
    \<and> (\<exists>bs'. tuz_input (d_rest byte fl) z' bs' \<and> length bs' \<le> length bs)"
  using assms by (rule diff.tuz_partial_ends)

end

end
