(* ===== verification/Tuz_Ring.thy ===== *)
theory Tuz_Ring
  imports Tuz_Ends
begin

text \<open>
  The decompressor keeps its ring: writes go to the write position, which stays inside the
  buffer, and reading codes does not touch the dictionary.  Only a read at a distance beyond the ring, the
  result \<open>TUZ_OUTSIDE\<close>, leaves it.
\<close>

text \<open>The code reader.\<close>

lemma ring_byte: "tuz_read_1byte R z = (b, z') \<Longrightarrow> ring_ok z' = ring_ok z"
  by (auto simp: tuz_read_1byte_def ring_ok_def split: prod.splits)

lemma ring_bits: "cache_read_lowbits R k z = (v, z') \<Longrightarrow> ring_ok z' = ring_ok z"
  by (auto simp: cache_read_lowbits_def Let_def split: prod.splits if_splits dest: ring_byte)
    (auto simp: ring_ok_def dest: ring_byte)

lemma ring_bit: "cache_read_1bit R z = (v, z') \<Longrightarrow> ring_ok z' = ring_ok z"
  by (auto simp: cache_read_1bit_def split: prod.splits dest: ring_bits)

lemma ring_unpack: "unpack_len_loop n R k v z = (v', z') \<Longrightarrow> ring_ok z' = ring_ok z"
  by (induction n arbitrary: v z) (auto simp: Let_def split: prod.splits if_splits dest: ring_bits)

lemma ring_len: "cache_unpack_len R z = (v, z') \<Longrightarrow> ring_ok z' = ring_ok z"
  "cache_unpack_pos_len R z = (v, z') \<Longrightarrow> ring_ok z' = ring_ok z"
  unfolding cache_unpack_len_def cache_unpack_pos_len_def by (erule ring_unpack)+

lemma ring_pos: "cache_unpack_dict_pos R z = (p, z') \<Longrightarrow> ring_ok z' = ring_ok z"
  by (auto simp: cache_unpack_dict_pos_def Let_def split: prod.splits if_splits dest: ring_byte ring_len)

text \<open>Fields outside the ring.\<close>

lemma ring_fields [simp]:
  "ring_ok (z\<lparr>tz_isHaveData_back := h\<rparr>) = ring_ok z" "ring_ok (z\<lparr>tz_literalType_len := l\<rparr>) = ring_ok z"
  "ring_ok (z\<lparr>tz_dictType_len := l\<rparr>) = ring_ok z" "ring_ok (z\<lparr>tz_dictType_pos := p\<rparr>) = ring_ok z"
  "ring_ok (z\<lparr>tz_dict_pos_back := p\<rparr>) = ring_ok z" "ring_ok (z\<lparr>tz_type_count := c\<rparr>) = ring_ok z"
  "ring_ok (cache_push_1bit b z) = ring_ok z"
  by (simp_all add: ring_ok_def cache_push_1bit_def)

text \<open>The two copies and a round of the loop.\<close>

lemma ring_copy_dict: "copy_dict_loop n z out = Some (n', z', out') \<Longrightarrow> ring_ok z \<Longrightarrow> ring_ok z'"
  by (induction n z out rule: copy_dict_loop.induct) (auto simp: Let_def ring_write split: if_splits option.splits)

lemma ring_copy_literal: "copy_literal_loop R n z out = (n', z', out') \<Longrightarrow> ring_ok z \<Longrightarrow> ring_ok z'"
proof (induction R n z out rule: copy_literal_loop.induct)
  case (2 R n z out)
  show ?case
  proof (cases "tz_literalType_len z = 0")
    case False
    obtain b y where y: "tuz_read_1byte R z = (b, y)" by fastforce
    have "ring_ok (dict_write_byte b y)" using ring_byte [OF y] "2.prems"(2) by (intro ring_write) simp
    then show ?thesis using "2.IH" [OF False y [symmetric] refl] "2.prems"(1) False y by (simp add: Let_def)
  qed (use "2.prems" in simp)
qed simp

lemma ring_match: "tuz_match R p len n z out = (s, n', z', out') \<Longrightarrow> ring_ok z \<Longrightarrow> ring_ok z'"
  by (auto simp: tuz_match_def Let_def split: if_splits prod.splits dest: ring_len)

lemma ring_type_process:
  assumes t: "type_process R n z out = (s, n', z', out')" and ok: "ring_ok z"
  shows "ring_ok z'"
proof -
  obtain d z1 where d: "cache_read_1bit R z = (d, z1)" by fastforce
  have k1: "ring_ok z1" using ring_bit [OF d] ok by simp
  show ?thesis
  proof (cases d)
    case True
    show ?thesis
    proof (cases n)
      case (Suc m)
      obtain b y where y: "tuz_read_1byte R z1 = (b, y)" by fastforce
      have "z' = (dict_write_byte b y)\<lparr>tz_isHaveData_back := True\<rparr>"
        using t d True Suc y by (simp add: type_process_def)
      then show ?thesis using ring_write [of y b] ring_byte [OF y] k1 by simp
    qed (use t d True k1 in \<open>auto simp: type_process_def\<close>)
  next
    case False
    obtain len z2 where l: "cache_unpack_len R z1 = (len, z2)" by fastforce
    obtain bk z3 where b: "(if tz_isHaveData_back z2 then cache_read_1bit R z2 else (False, z2)) = (bk, z3)"
      by fastforce
    obtain p len' z4 where q: "(if bk then (tz_dict_pos_back z3, len, z3)
        else case cache_unpack_dict_pos R z3 of (p, z) \<Rightarrow>
          (p, len + (if p > tuz_kBigPosForLen then 1 else 0), z)) = (p, len', z4)"
      by (rule prod_cases3)
    have k3: "ring_ok z3" using ring_len(1) [OF l] k1 b by (auto split: if_splits dest: ring_bit)
    have k4: "ring_ok z4" using q k3 by (auto split: if_splits prod.splits dest: ring_pos)
    have "tuz_match R p len' n (z4\<lparr>tz_isHaveData_back := False\<rparr>) out = (s, n', z', out')"
      using t False
      by (simp only: type_process_def tuz_match_def d l b q prod.case Let_def not_False_eq_True if_True)
    then show ?thesis by (rule ring_match) (simp add: k4)
  qed
qed

lemma ring_loop: "tuz_loop f R n z out = (r, out', z') \<Longrightarrow> ring_ok z \<Longrightarrow> r \<noteq> TUZ_OUTSIDE \<Longrightarrow> ring_ok z'"
proof (induction f arbitrary: n z out)
  case (Suc f)
  show ?case
  proof (cases "copy_dict_loop n z out")
    case None
    then show ?thesis using Suc.prems by simp
  next
    case (Some x)
    obtain n1 z1 out1 where x: "x = (n1, z1, out1)" by (metis prod_cases3)
    obtain n2 z2 out2 where l: "copy_literal_loop R n1 z1 out1 = (n2, z2, out2)" by (metis prod_cases3)
    obtain s n3 z3 out3 where t: "type_process R n2 z2 out2 = (s, n3, z3, out3)" by (metis prod_cases4)
    have k: "ring_ok z1" "ring_ok z2" "ring_ok z3"
      using ring_copy_dict Some x ring_copy_literal [OF l] ring_type_process [OF t] Suc.prems(2) by blast+
    have "(tz_dictType_len z1 \<noteq> 0 \<and> z' = z1) \<or> (tz_literalType_len z2 \<noteq> 0 \<and> z' = z2) \<or> z' = z3
        \<or> tuz_loop f R n3 z3 out3 = (r, out', z')"
      using Suc.prems(1) unfolding tuz_loop.simps Some x option.case prod.case Let_def l t
      by (auto split: if_splits type_step.splits)
    then show ?thesis using k Suc.IH Suc.prems(3) by blast
  qed
qed simp

context flash_device
begin

lemma tuz_flash_keeps_ring:
  assumes "ring_ok z" "tuz_TStream_decompress_partial (diff_stream_read F fl) z n = (r, d, z')" "r \<noteq> TUZ_OUTSIDE"
  shows "ring_ok z'"
  using ring_loop assms unfolding tuz_TStream_decompress_partial_def by blast

end

text \<open>A stream opened over enough memory has its ring.\<close>

lemma ring_open: "0 < dict \<Longrightarrow> unat dict \<le> length mem \<Longrightarrow> ring_ok (tuz_TStream_open s mem dict cache)"
  by (simp add: ring_ok_def tuz_TStream_open_def)

end
