(* ===== verification/Flash_Busy.thy ===== *)
theory Flash_Busy
  imports Flash_Ctl
begin

unbundle bit_operations_syntax

text \<open>
  A second concrete controller, one that is busy: an erase or a store into flash keeps BSY set
  for \<open>d\<close> polls of the status register; STRT stays set while an erase runs; loads from flash and
  stores to flash or the control register wait for the end of the operation.  It satisfies
  \<open>flash_ctrl\<close> for every \<open>d\<close> of 16 bits, so the laws hold of controllers whose STRT bit reads
  back as set.  Everything but the timing is the controller of \<open>Flash_Ctl\<close>.
\<close>

record busy_ctl =
  bc_core :: flash_ctl
  bc_left :: "16 word"
  bc_strt :: bool

definition cr_sector :: "u32 \<Rightarrow> nat" where
  "cr_sector v = unat (drop_bit FLASH_CR_SNB_POS (v AND FLASH_CR_SNB_MSK))"

text \<open>The state once the operation under way has ended.\<close>

definition bc_end :: "busy_ctl \<Rightarrow> busy_ctl" where
  "bc_end s = s\<lparr>bc_core := (if bc_strt s then fc_erase (fc_sector (cr_sector (fc_cr (bc_core s)))) (bc_core s)
     else bc_core s), bc_left := 0, bc_strt := False\<rparr>"

definition bc_rd :: "busy_ctl \<Rightarrow> u32 \<Rightarrow> u32 \<times> busy_ctl" where
  "bc_rd s a =
     (if in_flash a then (fst (fc_rd (bc_core (bc_end s)) a), bc_end s)
      else if a = FLASH_SR then
        (if bc_left s = 0 then (fst (fc_rd (bc_core s) a), bc_end s)
         else (fst (fc_rd (bc_core s) a) OR FLASH_SR_BSY, s\<lparr>bc_left := bc_left s - 1\<rparr>))
      else if a = FLASH_CR \<and> bc_strt s then (fst (fc_rd (bc_core s) a) OR FLASH_CR_STRT, s)
      else (fst (fc_rd (bc_core s) a), s))"

definition bc_wr :: "16 word \<Rightarrow> busy_ctl \<Rightarrow> u32 \<Rightarrow> u32 \<Rightarrow> busy_ctl" where
  "bc_wr d s a v =
     (if in_flash a then (bc_end s)\<lparr>bc_core := fc_wr (bc_core (bc_end s)) a v, bc_left := d\<rparr>
      else if a = FLASH_CR then
        (let s = bc_end s in
         if \<not> fc_locked (bc_core s) \<and> v AND FLASH_CR_STRT \<noteq> 0 \<and> v AND FLASH_CR_SER \<noteq> 0 \<and> v AND FLASH_CR_MER = 0
         then s\<lparr>bc_core := (bc_core s)\<lparr>fc_cr := v AND NOT (FLASH_CR_STRT OR FLASH_CR_MER)\<rparr>,
                bc_left := d, bc_strt := True\<rparr>
         else s\<lparr>bc_core := fc_wr (bc_core s) a v\<rparr>)
      else s\<lparr>bc_core := fc_wr (bc_core s) a v\<rparr>)"

definition bc_wr8 :: "16 word \<Rightarrow> busy_ctl \<Rightarrow> u32 \<Rightarrow> u8 \<Rightarrow> busy_ctl" where
  "bc_wr8 d s a b =
     (if in_flash a then (bc_end s)\<lparr>bc_core := fc_wr8 (bc_core (bc_end s)) a b, bc_left := d\<rparr> else s)"

definition bc_rd8 :: "busy_ctl \<Rightarrow> u32 \<Rightarrow> u8" where
  "bc_rd8 s = fc_mem (bc_core (bc_end s))"

definition bc_bus :: "16 word \<Rightarrow> busy_ctl bus" where
  "bc_bus d = \<lparr> bus_rd = bc_rd, bus_wr = bc_wr d, bus_wr8 = bc_wr8 d, bus_rd8 = bc_rd8 \<rparr>"

lemma bc_bus_sel [simp]:
  "bus_rd (bc_bus d) = bc_rd" "bus_wr (bc_bus d) = bc_wr d" "bus_wr8 (bc_bus d) = bc_wr8 d"
  "bus_rd8 (bc_bus d) = bc_rd8"
  by (simp_all add: bc_bus_def)

text \<open>Loads return the memory as it is after the operation under way.\<close>

lemma bc_rd8_erase:
  "bc_rd8 s x = (if bc_strt s \<and> fc_sector (cr_sector (fc_cr (bc_core s))) x then 0xFF else fc_mem (bc_core s) x)"
  by (simp add: bc_rd8_def bc_end_def fc_erase_def)

lemma bc_end_end [simp]: "bc_end (bc_end s) = bc_end s" "\<not> bc_strt (bc_end s)" "bc_rd8 (bc_end s) = bc_rd8 s"
  by (simp_all add: bc_end_def bc_rd8_def)

lemma bc_rd8_core: "bc_rd8 s = fc_mem (bc_core (bc_end s))"
  by (fact bc_rd8_def)

lemma bc_rd8_rd [simp]: "bc_rd8 (snd (bc_rd s a)) = bc_rd8 s"
  by (rule ext) (simp add: bc_rd_def, simp add: bc_rd8_erase)

lemma bc_rd8_upd [simp]:
  "bc_rd8 ((bc_end s)\<lparr>bc_core := c, bc_left := l\<rparr>) = fc_mem c" "bc_rd8 ((bc_end s)\<lparr>bc_core := c\<rparr>) = fc_mem c"
  by (rule ext, simp add: bc_rd8_erase)+

lemma bc_rd8_started:
  "bc_rd8 ((bc_end s)\<lparr>bc_core := (bc_core (bc_end s))\<lparr>fc_cr := v\<rparr>, bc_left := l, bc_strt := True\<rparr>) x
    = (if fc_sector (cr_sector v) x then 0xFF else bc_rd8 s x)"
  unfolding bc_rd8_erase [where s = "(bc_end s)\<lparr>bc_core := c, bc_left := l, bc_strt := True\<rparr>" for c l]
  by (simp add: bc_rd8_core)

text \<open>A store to the control register that starts an erase shows the sector as erased.\<close>

lemma bc_rd8_cr:
  "bc_rd8 (bc_wr d s FLASH_CR v) x = (if \<not> fc_locked (bc_core (bc_end s)) \<and> bit v 16
       \<and> (bit v 2 \<or> bit v 1 \<and> fc_sector (cr_sector v) x) then 0xFF else bc_rd8 s x)"
proof -
  have m: "(v AND NOT (FLASH_CR_STRT OR FLASH_CR_MER)) AND FLASH_CR_SNB_MSK = v AND FLASH_CR_SNB_MSK"
    unfolding and.assoc by (simp add: FLASH_CR_STRT_def FLASH_CR_MER_def FLASH_CR_SNB_MSK_def FLASH_CR_SNB_POS_def)
  have n: "cr_sector (v AND NOT (FLASH_CR_STRT OR FLASH_CR_MER)) = cr_sector v" by (simp only: cr_sector_def m)
  show ?thesis
  proof (cases "\<not> fc_locked (bc_core (bc_end s)) \<and> bit v 16 \<and> bit v 1 \<and> \<not> bit v 2")
    case True
    then show ?thesis
      by (simp add: bc_wr_def fc_regs_out cr_bits Let_def bc_rd8_started n del: bit.de_Morgan_disj)
  next
    case False
    then have "bc_wr d s FLASH_CR v = (bc_end s)\<lparr>bc_core := fc_wr (bc_core (bc_end s)) FLASH_CR v\<rparr>"
      by (auto simp: bc_wr_def fc_regs_out cr_bits Let_def)
    moreover have "fc_mem (fc_wr (bc_core (bc_end s)) FLASH_CR v) x
        = (if \<not> fc_locked (bc_core (bc_end s)) \<and> bit v 16 \<and> bit v 2 then 0xFF else bc_rd8 s x)"
      using False by (auto simp: fc_wr_def fc_regs_out fc_store_cr_def Let_def cr_bits fc_erase_def bc_rd8_core)
    ultimately show ?thesis using False by auto
  qed
qed

text \<open>The wait ends: the counter has 16 bits and goes down at every poll.\<close>

lemma bc_kick: "iwdg_kick (bc_bus d) s = s"
  by (simp add: iwdg_kick_def bc_wr_def fc_wr_def fc_regs_out)

lemma bc_wait_ends: "unat (bc_left s) < n \<Longrightarrow> fst (wait_busy_loop (bc_bus d) n i s) \<noteq> FLASH_ERR_BUSY"
proof (induction n arbitrary: i s)
  case (Suc n)
  have sr: "bc_rd s FLASH_SR = (if bc_left s = 0 then (fst (fc_rd (bc_core s) FLASH_SR), bc_end s)
      else (fst (fc_rd (bc_core s) FLASH_SR) OR FLASH_SR_BSY, s\<lparr>bc_left := bc_left s - 1\<rparr>))"
    by (simp add: bc_rd_def fc_regs_out)
  show ?case
  proof (cases "bc_left s = 0")
    case True
    have "(fc_sr c AND NOT FLASH_SR_BSY) AND FLASH_SR_BSY = 0" for c :: flash_ctl
      by (rule bit_eqI) (auto simp: bit_simps)
    then have "fst (fc_rd c FLASH_SR) AND FLASH_SR_BSY = 0" for c by (simp add: fc_rd_def fc_regs_out)
    then show ?thesis by (simp add: sr True split: prod.split)
  next
    case False
    have "(u OR FLASH_SR_BSY) AND FLASH_SR_BSY \<noteq> 0" for u :: u32
      by (rule notI, drule arg_cong [where f = "\<lambda>u. bit u 16"]) (simp add: bit_simps FLASH_SR_BSY_def)
    moreover have "unat (bc_left s) \<noteq> 0" using False by (simp add: unat_eq_0)
    then have "unat (bc_left s - 1) < n" using Suc.prems by (simp add: unat_sub word_le_nat_alt)
    ultimately show ?thesis using Suc.IH [of "s\<lparr>bc_left := bc_left s - 1\<rparr>"] False by (simp add: sr bc_kick)
  qed
qed simp

lemma bc_timely: "fst (wait_busy (bc_bus d) s) \<noteq> FLASH_ERR_BUSY"
proof -
  have "unat (bc_left s) < 2 ^ 16" by (rule less_le_trans [OF unsigned_less]) simp
  then show ?thesis unfolding wait_busy_def by (intro bc_wait_ends) simp
qed

lemma bc_wr_keep:
  assumes "\<not> in_flash a" "a \<noteq> FLASH_CR"
  shows "fc_mem (fc_wr c a v) = fc_mem c" "cr_sector (fc_cr (fc_wr c a v)) = cr_sector (fc_cr c)"
proof -
  have "(u AND NOT FLASH_CR_LOCK) AND FLASH_CR_SNB_MSK = u AND FLASH_CR_SNB_MSK" for u
    unfolding and.assoc by (simp add: FLASH_CR_LOCK_def FLASH_CR_SNB_MSK_def FLASH_CR_SNB_POS_def)
  then have "cr_sector (u AND NOT FLASH_CR_LOCK) = cr_sector u" for u by (simp only: cr_sector_def)
  then show "fc_mem (fc_wr c a v) = fc_mem c" "cr_sector (fc_cr (fc_wr c a v)) = cr_sector (fc_cr c)"
    using assms by (simp_all add: fc_wr_def)
qed

text \<open>Storing back the erase selection just read erases the same sector once more, or nothing.\<close>

lemma bc_cr_read:
  assumes "bc_rd s FLASH_CR = (v, s')"
  shows "s' = s" "bit v 16 = bc_strt s" "\<not> bit v 2" "cr_sector v = cr_sector (fc_cr (bc_core s))"
proof -
  have v: "v = (fc_cr (bc_core s) AND NOT (FLASH_CR_STRT OR FLASH_CR_MER)) OR (if bc_strt s then FLASH_CR_STRT else 0)"
    and s: "s' = s"
    using assms fc_regs_out(5) [symmetric] by (auto simp: bc_rd_def fc_rd_def fc_regs_out split: if_splits)
  show "s' = s" by (rule s)
  show "bit v 16 = bc_strt s" "\<not> bit v 2" by (simp_all add: v bit_simps FLASH_CR_STRT_def FLASH_CR_MER_def)
  have "v AND FLASH_CR_SNB_MSK = fc_cr (bc_core s) AND FLASH_CR_SNB_MSK"
    unfolding v bit.conj_disj_distrib2 and.assoc
    by (simp add: FLASH_CR_STRT_def FLASH_CR_MER_def FLASH_CR_SNB_MSK_def FLASH_CR_SNB_POS_def)
  then show "cr_sector v = cr_sector (fc_cr (bc_core s))" by (simp add: cr_sector_def)
qed

lemma bc_cr_again:
  assumes r: "bc_rd s FLASH_CR = (v, s')"
    and w: "w AND (FLASH_CR_SER OR FLASH_CR_SNB_MSK OR FLASH_CR_STRT OR FLASH_CR_MER)
      = v AND (FLASH_CR_SER OR FLASH_CR_SNB_MSK OR FLASH_CR_STRT OR FLASH_CR_MER)"
  shows "bc_rd8 (bc_wr d s' FLASH_CR w) x = bc_rd8 s x"
proof -
  have b: "bit w k = bit v k" if "k \<in> {2, 16}" for k
    using arg_cong [OF w, where f = "\<lambda>u. bit u k"] that
    by (auto simp: bit_simps FLASH_CR_STRT_def FLASH_CR_MER_def)
  have "w AND FLASH_CR_SNB_MSK = v AND FLASH_CR_SNB_MSK"
    using arg_cong [OF w, where f = "\<lambda>u. u AND FLASH_CR_SNB_MSK"] unfolding and.assoc
    by (simp add: FLASH_CR_STRT_def FLASH_CR_MER_def FLASH_CR_SER_def FLASH_CR_SNB_MSK_def FLASH_CR_SNB_POS_def)
  then have "cr_sector w = cr_sector v" by (simp add: cr_sector_def)
  then show ?thesis using b [of 2] b [of 16] bc_cr_read [OF r] bc_rd8_erase [of s x] by (simp add: bc_rd8_cr)
qed

interpretation bc: flash_ctrl "bc_bus d" "\<lambda>s. \<not> bc_strt s" for d :: "16 word"
proof unfold_locales
  fix s s' :: busy_ctl and a v w x :: u32 and b :: u8 and j :: nat
  show "bus_rd8 (bc_bus d) (snd (bus_rd (bc_bus d) s a)) x = bus_rd8 (bc_bus d) s x" by simp
  show "bus_rd8 (bc_bus d) (bus_wr (bc_bus d) s a v) x = bus_rd8 (bc_bus d) s x" if "\<not> in_flash a" "a \<noteq> FLASH_CR"
    using that bc_wr_keep [OF that, of "bc_core s" v] by (simp add: bc_wr_def bc_rd8_erase)
  show "bus_rd8 (bc_bus d) (bus_wr (bc_bus d) s FLASH_CR v) x = bus_rd8 (bc_bus d) s x" if "v AND FLASH_CR_STRT = 0"
    using that by (simp add: bc_rd8_cr cr_bits)
  show "bus_rd8 (bc_bus d) (bus_wr (bc_bus d) s FLASH_CR v) x = bus_rd8 (bc_bus d) s x"
    if "v AND FLASH_CR_SER \<noteq> 0" "v AND FLASH_CR_MER = 0"
      "j = unat (drop_bit FLASH_CR_SNB_POS (v AND FLASH_CR_SNB_MSK))" "j < 12"
      "\<not> (sector_bound j \<le> unat x \<and> unat x < sector_bound (Suc j))"
    using that by (auto simp: bc_rd8_cr cr_bits fc_sector_def cr_sector_def)
  show "bus_rd8 (bc_bus d) (bus_wr (bc_bus d) s' FLASH_CR w) x = bus_rd8 (bc_bus d) s x"
    if r: "bus_rd (bc_bus d) s FLASH_CR = (v, s')"
      and w: "w AND (FLASH_CR_SER OR FLASH_CR_SNB_MSK OR FLASH_CR_STRT OR FLASH_CR_MER)
        = v AND (FLASH_CR_SER OR FLASH_CR_SNB_MSK OR FLASH_CR_STRT OR FLASH_CR_MER)"
    using bc_cr_again [OF r [unfolded bc_bus_sel] w] by simp
  show "fst (bus_rd (bc_bus d) s FLASH_CR) AND FLASH_CR_MER = 0"
    using bc_cr_read(3) [of s "fst (bc_rd s FLASH_CR)" "snd (bc_rd s FLASH_CR)"] by (simp add: cr_bits)
  show "fst (bus_rd (bc_bus d) s FLASH_CR) AND FLASH_CR_STRT = 0" if "\<not> bc_strt s"
    using bc_cr_read(2) [of s "fst (bc_rd s FLASH_CR)" "snd (bc_rd s FLASH_CR)"] that by (simp add: cr_bits)
  show "\<not> bc_strt s'" if "bus_rd (bc_bus d) s FLASH_SR = (v, s')" "v AND FLASH_SR_BSY = 0"
  proof (cases "bc_left s = 0")
    case True
    then show ?thesis using that(1) by (auto simp: bc_rd_def fc_regs_out)
  next
    case False
    have "(u OR FLASH_SR_BSY) AND FLASH_SR_BSY \<noteq> 0" for u :: u32
      by (rule notI, drule arg_cong [where f = "\<lambda>u. bit u 16"]) (simp add: bit_simps FLASH_SR_BSY_def)
    then show ?thesis using that False by (auto simp: bc_rd_def fc_regs_out)
  qed
  show "\<not> bc_strt (snd (bus_rd (bc_bus d) s a))" if "\<not> bc_strt s"
    using that by (simp add: bc_rd_def)
  show "\<not> bc_strt (bus_wr (bc_bus d) s a v)" if "\<not> bc_strt s" "\<not> in_flash a" "a \<noteq> FLASH_CR"
    using that by (simp add: bc_wr_def)
  show "bus_rd8 (bc_bus d) (bus_wr (bc_bus d) s a v) x = bus_rd8 (bc_bus d) s x"
    if "flash_range a 4" "\<not> in_range a 4 x"
    using that flash_range_in(1) [OF that(1), of 0] fc_program_other [of a "le32 v" x]
    by (simp add: bc_wr_def fc_wr_def bc_rd8_core [of s])
  show "bus_rd8 (bc_bus d) (bus_wr8 (bc_bus d) s a b) x = bus_rd8 (bc_bus d) s x" if "in_flash a" "x \<noteq> a"
    using that fc_program_other [of a "[b]" x] by (simp add: bc_wr8_def fc_wr8_def bc_rd8_core [of s] in_range_def unat_eq_0)
  show "fst (bus_rd (bc_bus d) s a) = rd_u32_le (mem_bytes (bus_rd8 (bc_bus d) s) a 4)" if "flash_range a 4"
    using flash_range_in(1) [OF that, of 0] by (simp add: bc_rd_def fc_rd_def bc_rd8_core)
  show "fst (wait_busy (bc_bus d) s) \<noteq> FLASH_ERR_BUSY" by (rule bc_timely)
qed

text \<open>The controller is seen at work: while an erase runs, BSY and STRT read as set.\<close>

lemma bc_erase_starts:
  assumes "\<not> fc_locked (bc_core (bc_end s))" "bit v 16" "bit v 1" "\<not> bit v 2"
  shows "bc_strt (bc_wr d s FLASH_CR v)" "bc_left (bc_wr d s FLASH_CR v) = d"
  using assms by (simp_all add: bc_wr_def fc_regs_out Let_def cr_bits)

lemma bc_shows_busy:
  assumes "bc_strt s" "bc_left s \<noteq> 0"
  shows "fst (bc_rd s FLASH_CR) AND FLASH_CR_STRT \<noteq> 0" "fst (bc_rd s FLASH_SR) AND FLASH_SR_BSY \<noteq> 0"
proof -
  have o: "(u OR FLASH_SR_BSY) AND FLASH_SR_BSY \<noteq> 0" for u :: u32
    by (rule notI, drule arg_cong [where f = "\<lambda>u. bit u 16"]) (simp add: bit_simps FLASH_SR_BSY_def)
  show "fst (bc_rd s FLASH_SR) AND FLASH_SR_BSY \<noteq> 0" using assms o by (simp add: bc_rd_def fc_regs_out)
  show "fst (bc_rd s FLASH_CR) AND FLASH_CR_STRT \<noteq> 0"
    using bc_cr_read(2) [of s "fst (bc_rd s FLASH_CR)" "snd (bc_rd s FLASH_CR)"] assms(1) by (simp add: cr_bits)
qed

end
