(* ===== verification/App.thy ===== *)
theory App
  imports Boot_Io
begin

unbundle bit_operations_syntax

text \<open>
  The demo application, \<^verbatim>\<open>application/src/app_main.c\<close> and \<^verbatim>\<open>system_app.c\<close>, on the same bus as
  the drivers it links.  \<^verbatim>\<open>app_main\<close> never returns, so it is its start followed by any number
  of iterations, the last of which may be cut by a reset before or after its confirmation; the build-time version string is a parameter.  The last section puts the
  application between two boots.
\<close>

section \<open>The program\<close>

text \<open>\<open>while (i--)\<close> on the 32-bit counter: the body sees the decremented value.\<close>

fun delay_loop :: "'h bus \<Rightarrow> nat \<Rightarrow> 'h \<Rightarrow> 'h" where
  "delay_loop B 0 h = h"
| "delay_loop B (Suc i) h =
     delay_loop B i (if (of_nat i :: u32) AND 0xFFFF = 0 then iwdg_kick B h else h)"

declare delay_loop.simps [simp del]

definition delay_ms :: "'h bus \<Rightarrow> u32 \<Rightarrow> 'h \<Rightarrow> 'h" where
  "delay_ms B ms h = delay_loop B (unat (ms * 1600)) h"

record 'h app_st =
  app_tick :: u32
  app_shared :: SharedBootBlock_t
  app_hw :: 'h

definition app_start :: "'h bus \<Rightarrow> string \<Rightarrow> SharedBootBlock_t \<Rightarrow> 'h \<Rightarrow> 'h app_st" where
  "app_start B ver sh h =
     (let h = iwdg_init B h;
          h = uart_init B h;
          h = log_line B [] h;
          h = log_line B (replicate 46 CHR ''='') h;
          h = log_line B ('' Demo Application v'' @ ver @ '' running'') h;
          h = log_line B (replicate 46 CHR ''='') h
      in \<lparr>app_tick = 0, app_shared = sh, app_hw = h\<rparr>)"

text \<open>An iteration up to its delay: the line on the log, and the confirmation in the sixth.\<close>

definition app_pass :: "'h bus \<Rightarrow> string \<Rightarrow> 'h app_st \<Rightarrow> 'h app_st" where
  "app_pass B ver a =
     (let tick = app_tick a;
          h = log_fmt B (''App v'' @ ver @ '' tick %u'') [VaInt tick] (app_hw a);
          (sh, h) = (if tick = 5
                     then (bootloader_confirm_boot (app_shared a),
                           log_line B ''App: boot confirmed to bootloader'' h)
                     else (app_shared a, h))
      in a\<lparr>app_shared := sh, app_hw := h\<rparr>)"

definition app_iteration :: "'h bus \<Rightarrow> string \<Rightarrow> 'h app_st \<Rightarrow> 'h app_st" where
  "app_iteration B ver a =
     (let a = app_pass B ver a;
          h = delay_ms B 1000 (app_hw a);
          h = iwdg_kick B h
      in a\<lparr>app_tick := app_tick a + 1, app_hw := h\<rparr>)"

text \<open>
  \<open>app_main\<close> after \<open>n\<close> complete iterations, and \<open>app_until\<close>, where a reset can find it: \<open>n\<close> iterations are
  complete, and in the next one the confirmation lies ahead (\<open>late\<close> is false) or behind, which
  holds during the delay of one second.
\<close>

definition app_main :: "'h bus \<Rightarrow> string \<Rightarrow> nat \<Rightarrow> SharedBootBlock_t \<Rightarrow> 'h \<Rightarrow> 'h app_st" where
  "app_main B ver n sh h = (app_iteration B ver ^^ n) (app_start B ver sh h)"

definition app_until :: "'h bus \<Rightarrow> string \<Rightarrow> nat \<Rightarrow> bool \<Rightarrow> SharedBootBlock_t \<Rightarrow> 'h \<Rightarrow> 'h app_st" where
  "app_until B ver n late sh h = (if late then app_pass B ver (app_main B ver n sh h) else app_main B ver n sh h)"

definition SystemInit_App :: "cpu_t \<Rightarrow> cpu_t" where
  "SystemInit_App cpu = (if cpu_vtor cpu = 0 then cpu\<lparr>cpu_vtor := SLOT_A_ADDR + 0x200\<rparr> else cpu)"

section \<open>The watchdog during the delay\<close>

lemma low_half_zero:
  assumes "i < 2 ^ 32"
  shows "(of_nat i :: u32) AND 0xFFFF = 0 \<longleftrightarrow> i mod 65536 = 0"
proof -
  have "(of_nat i :: u32) AND 0xFFFF = take_bit 16 (of_nat i)"
    by (simp add: take_bit_eq_mask mask_eq_exp_minus_1)
  then have "unat ((of_nat i :: u32) AND 0xFFFF) = take_bit 16 (unat (of_nat i :: u32))"
    by (simp only: unsigned_take_bit_eq)
  also have "\<dots> = i mod 65536"
    using assms by (simp add: unat_of_nat take_bit_eq_mod)
  finally show ?thesis by (metis unsigned_0 unsigned_eq_0_iff)
qed

lemma ceil_Suc:
  "(Suc i + 65535) div 65536 = (i + 65535) div 65536 + (if i mod 65536 = 0 then 1 else 0)"
proof -
  obtain q r where i: "i = 65536 * q + r" "r < 65536"
    by (metis mult_div_mod_eq mod_less_divisor zero_less_numeral)
  have "(Suc i + 65535) div 65536 = Suc q"
    by (rule div_nat_eqI) (use i in simp_all)
  moreover have "(i + 65535) div 65536 = (if r = 0 then q else Suc q)"
    by (rule div_nat_eqI) (use i in \<open>auto split: if_splits\<close>)
  ultimately show ?thesis using i by simp
qed

text \<open>One refresh for every started run of 65536 counts.\<close>

lemma delay_kicks:
  "n < 2 ^ 32 \<Longrightarrow> delay_loop B n h = (iwdg_kick B ^^ ((n + 65535) div 65536)) h"
proof (induction n arbitrary: h)
  case 0
  then show ?case by (simp add: delay_loop.simps)
next
  case (Suc i)
  then have z: "(of_nat i :: u32) AND 0xFFFF = 0 \<longleftrightarrow> i mod 65536 = 0"
    by (intro low_half_zero) simp
  show ?case
    using Suc unfolding delay_loop.simps z ceil_Suc
    by (cases "i mod 65536 = 0") (simp_all add: funpow_swap1)
qed

lemma delay_second: "delay_ms B 1000 h = (iwdg_kick B ^^ 25) h"
proof -
  have "unat (1000 * 1600 :: u32) = 1600000" by simp
  then show ?thesis unfolding delay_ms_def using delay_kicks [where n = 1600000 and B = B and h = h] by simp
qed

section \<open>The confirmation\<close>

lemma confirm_idem [simp]:
  "bootloader_confirm_boot (bootloader_confirm_boot b) = bootloader_confirm_boot b"
  by (simp add: bootloader_confirm_boot_def)

lemma pass_simps [simp]:
  "app_tick (app_pass B ver a) = app_tick a"
  "app_shared (app_pass B ver a)
     = (if app_tick a = 5 then bootloader_confirm_boot (app_shared a) else app_shared a)"
  by (simp_all add: app_pass_def Let_def)

lemma iteration_simps [simp]:
  "app_tick (app_iteration B ver a) = app_tick a + 1"
  "app_shared (app_iteration B ver a) = app_shared (app_pass B ver a)"
  by (simp_all add: app_iteration_def Let_def del: pass_simps(2))

lemma app_tick_eq: "app_tick (app_main B ver n sh h) = of_nat n"
  by (induction n) (simp_all add: app_main_def app_start_def Let_def)

text \<open>The counter passes 5 again after it wraps; the second confirmation changes nothing.\<close>

lemma app_shared_eq:
  "app_shared (app_main B ver n sh h) = (if 6 \<le> n then bootloader_confirm_boot sh else sh)"
proof (induction n)
  case 0
  then show ?case by (simp add: app_main_def app_start_def Let_def)
next
  case (Suc n)
  have t: "(of_nat n :: u32) = 5 \<longleftrightarrow> n = 5" if "n < 6"
  proof
    assume "(of_nat n :: u32) = 5"
    then have "unat (of_nat n :: u32) = unat (5 :: u32)" by simp
    then show "n = 5" using that by (simp add: unat_of_nat take_bit_eq_mod)
  qed simp
  have "app_shared (app_main B ver (Suc n) sh h)
      = (if (of_nat n :: u32) = 5 then bootloader_confirm_boot (app_shared (app_main B ver n sh h))
         else app_shared (app_main B ver n sh h))"
    using app_tick_eq [of B ver n sh h] by (simp add: app_main_def)
  then show ?case
    using t Suc by (cases "n < 6") (auto simp: not_less)
qed

text \<open>Up to the delay an iteration shares what the whole iteration does.\<close>

lemma app_until_shared:
  "app_shared (app_until B ver n late sh h)
    = (if 6 \<le> n + (if late then 1 else 0) then bootloader_confirm_boot sh else sh)"
proof (cases late)
  case True
  have "app_shared (app_pass B ver (app_main B ver n sh h)) = app_shared (app_main B ver (Suc n) sh h)"
    by (simp add: app_main_def)
  then show ?thesis using True by (simp only: app_until_def if_True app_shared_eq) simp
qed (simp add: app_until_def app_shared_eq)

text \<open>The vector table the bootloader set is never zero, and the application keeps it.\<close>

lemma slot_vector_nonzero: "memory_map_slot_addr slot + 512 \<noteq> 0"
  by (rule slot_addr_cases [of slot]) (simp_all add: layout_simps)

lemma init_keeps_vector:
  assumes "cpu_vtor cpu = memory_map_slot_addr slot + 512"
  shows "SystemInit_App cpu = cpu"
  using assms slot_vector_nonzero by (simp add: SystemInit_App_def)

section \<open>Between two boots\<close>

text \<open>Every boot hands over a shared block with nothing pending and nothing confirmed.\<close>

lemma swap_shared:
  assumes "process_ota_pending_swap C F cfg d st = (cfg', d', st')"
  shows "bs_shared st' = (bs_shared st)\<lparr>sb_ota_pending := 0\<rparr>"
  using assms
  by (cases "bs_shared st") (auto simp: process_ota_pending_swap_def Let_def split: prod.splits if_splits)

lemma main_shared:
  "bs_shared (snd (main C F st)) = (bs_shared st)\<lparr>sb_magic := SHARED_BLOCK_MAGIC, sb_boot_confirmed := 0, sb_ota_pending := 0\<rparr>"
proof -
  obtain ok c0 where l: "boot_config_load C F (bs_flash st) = (ok, c0)" by fastforce
  obtain c1 d1 st1 where c1: "check_app_confirmation c0 (\<not> ok) st = (c1, d1, st1)" by (metis prod_cases3)
  have s1: "bs_shared st1 = (bs_shared st)\<lparr>sb_boot_confirmed := 0, sb_magic := SHARED_BLOCK_MAGIC\<rparr>"
    using c1 by (auto simp: check_app_confirmation_def Let_def split: if_splits)
  define st2 where "st2 = (if d1 then save_or_warn F c1 st1 else st1)"
  obtain c3 d3 st3 where c3: "process_ota_pending_swap C F c1 False st2 = (c3, d3, st3)" by (metis prod_cases3)
  define st4 where "st4 = (if d3 then save_or_warn F c3 st3 else st3)"
  obtain sl c5 d5 where c5: "pick_slot_to_boot C F (bs_flash st4) c3 False = (sl, c5, d5)" by (metis prod_cases3)
  have e: "(if d1 then (False, save_or_warn F c1 st1) else (d1, st1)) = (False, st2)"
    "(if d3 then (False, save_or_warn F c3 st3) else (d3, st3)) = (False, st4)"
    by (simp_all add: st2_def st4_def)
  have "snd (main C F st) = (if d5 then save_or_warn F c5 st4 else st4)"
    by (simp only: main_def Let_def l c1 prod.case e c3 c5) simp
  moreover have "bs_shared st2 = bs_shared st1" "bs_shared st4 = bs_shared st3"
    by (simp_all add: st2_def st4_def)
  ultimately show ?thesis using swap_shared [OF c3] s1 by simp
qed

text \<open>What the next boot makes of the application's run.\<close>

lemma confirmation_after_app:
  assumes "sb_magic sh = SHARED_BLOCK_MAGIC" "sb_boot_confirmed sh = 0"
  shows "check_app_confirmation cfg d (st\<lparr>bs_shared := app_shared (app_until B ver n late sh h)\<rparr>)
    = (if 6 \<le> n + (if late then 1 else 0)
       then (cfg\<lparr>cfg_boot_attempts := 0, cfg_last_good_boot := cfg_last_good_boot cfg + 1\<rparr>, True,
             st\<lparr>bs_shared := sh\<rparr>)
       else (cfg, d, st\<lparr>bs_shared := sh\<rparr>))"
  using assms
  by (cases sh) (simp add: app_until_shared check_app_confirmation_def bootloader_confirm_boot_def Let_def)

end
