(* ===== verification/Sha_Eval.thy ===== *)
theory Sha_Eval
  imports Sha256
begin

unbundle bit_operations_syntax

text \<open>
  The compression function on words given as lists of their bits, least significant first.  On bits
  rotations are rearrangements and an addition is a ripple of carries, so that the hash of a
  concrete message is computed by rewriting.
\<close>

section \<open>Words as lists of bits\<close>

type_synonym bits = "bool list"

definition wb :: "bits \<Rightarrow> u32" where
  "wb bs = horner_sum of_bool 2 bs"

lemma bit_wb: "length bs = 32 \<Longrightarrow> bit (wb bs) i \<longleftrightarrow> i < 32 \<and> bs ! i"
  by (simp add: wb_def bit_horner_sum_bit_word_iff)

fun num_bits :: "num \<Rightarrow> bits" where
  "num_bits num.One = [True]"
| "num_bits (num.Bit0 n) = False # num_bits n"
| "num_bits (num.Bit1 n) = True # num_bits n"

definition int_bits :: "int \<Rightarrow> bits" where
  "int_bits k = map (bit k) [0..<32]"

lemma bit_numeral_bits: "bit (numeral n :: int) i \<longleftrightarrow> i < length (num_bits n) \<and> num_bits n ! i"
  by (induction n arbitrary: i) (auto simp: nth_Cons bit_numeral_rec bit_1_iff split: nat.splits)

lemma int_bits_code [code]:
  "int_bits 0 = replicate 32 False"
  "int_bits (Int.Pos n) = take 32 (num_bits n @ replicate 32 False)"
proof -
  show "int_bits 0 = replicate 32 False" by (rule nth_equalityI) (simp_all add: int_bits_def)
  show "int_bits (Int.Pos n) = take 32 (num_bits n @ replicate 32 False)"
    by (rule nth_equalityI) (auto simp: int_bits_def Int.Pos_def bit_numeral_bits nth_append)
qed

lemma length_int_bits [simp]: "length (int_bits k) = 32"
  by (simp add: int_bits_def)

lemma wb_int_bits: "wb (int_bits k) = word_of_int k"
  by (rule bit_word_eqI) (simp add: bit_wb int_bits_def bit_word_of_int_iff)

definition bxor :: "bits \<Rightarrow> bits \<Rightarrow> bits" where
  "bxor = map2 (\<noteq>)"

definition brotr :: "nat \<Rightarrow> bits \<Rightarrow> bits" where
  "brotr n bs = drop n bs @ take n bs"

definition bshr :: "nat \<Rightarrow> bits \<Rightarrow> bits" where
  "bshr n bs = drop n bs @ replicate n False"

fun badd_carry :: "bool \<Rightarrow> bits \<Rightarrow> bits \<Rightarrow> bits" where
  "badd_carry c (x # xs) (y # ys) =
     ((x \<noteq> y) \<noteq> c) # badd_carry (if x = y then x else c) xs ys"
| "badd_carry c _ _ = []"

definition badd :: "bits \<Rightarrow> bits \<Rightarrow> bits" where
  "badd = badd_carry False"

lemma length_badd_carry: "length xs = length ys \<Longrightarrow> length (badd_carry c xs ys) = length xs"
  by (induction c xs ys rule: badd_carry.induct) auto

lemma length_bits [simp]:
  "length xs = 32 \<Longrightarrow> length ys = 32 \<Longrightarrow> length (bxor xs ys) = 32"
  "length xs = 32 \<Longrightarrow> length ys = 32 \<Longrightarrow> length (badd xs ys) = 32"
  "length xs = 32 \<Longrightarrow> n \<le> 32 \<Longrightarrow> length (brotr n xs) = 32"
  "length xs = 32 \<Longrightarrow> n \<le> 32 \<Longrightarrow> length (bshr n xs) = 32"
  by (simp_all add: bxor_def badd_def length_badd_carry brotr_def bshr_def)

lemma badd_carry_val:
  "length xs = length ys \<Longrightarrow>
   \<exists>k. wb xs + wb ys + of_bool c = wb (badd_carry c xs ys) + 2 ^ length xs * k"
proof (induction c xs ys rule: badd_carry.induct)
  case (1 c x xs y ys)
  let ?c = "if x = y then x else c"
  obtain k where k: "wb xs + wb ys + of_bool ?c = wb (badd_carry ?c xs ys) + 2 ^ length xs * k"
    using 1 by auto
  have "wb (x # xs) + wb (y # ys) + of_bool c
      = of_bool ((x \<noteq> y) \<noteq> c) + 2 * (wb xs + wb ys + of_bool ?c)"
    by (simp add: wb_def algebra_simps)
  also have "\<dots> = wb (badd_carry c (x # xs) (y # ys)) + 2 ^ length (x # xs) * k"
    unfolding k by (simp add: wb_def algebra_simps)
  finally show ?case by blast
qed (auto simp: wb_def)

lemma wb_ops:
  "length xs = 32 \<Longrightarrow> length ys = 32 \<Longrightarrow> wb (bxor xs ys) = wb xs XOR wb ys"
  "length xs = 32 \<Longrightarrow> length ys = 32 \<Longrightarrow> wb (badd xs ys) = wb xs + wb ys"
  "length xs = 32 \<Longrightarrow> n < 32 \<Longrightarrow> wb (brotr n xs) = word_rotr n (wb xs)"
  "length xs = 32 \<Longrightarrow> n \<le> 32 \<Longrightarrow> wb (bshr n xs) = drop_bit n (wb xs)"
proof -
  show "wb (bxor xs ys) = wb xs XOR wb ys" if "length xs = 32" "length ys = 32"
    by (rule bit_word_eqI) (use that in \<open>simp add: bit_wb bit_simps\<close>, simp add: bxor_def)
  show "wb (badd xs ys) = wb xs + wb ys" if l: "length xs = 32" "length ys = 32"
  proof -
    have z: "(2 :: u32) ^ length xs = 0" using word_pow_0 [where ?'a = 32] l by simp
    obtain k where "wb xs + wb ys + of_bool False = wb (badd_carry False xs ys) + 2 ^ length xs * k"
      using badd_carry_val [of xs ys False] l by auto
    then show ?thesis unfolding z by (simp add: badd_def)
  qed
  show "wb (brotr n xs) = word_rotr n (wb xs)" if l: "length xs = 32" "n < 32"
  proof (rule bit_word_eqI)
    fix i assume "i < LENGTH(32)"
    then have i: "i < 32" by simp
    have "(i + n) mod 32 = (if i + n < 32 then i + n else i + n - 32)"
      using i l by (simp add: mod_if)
    then show "bit (wb (brotr n xs)) i \<longleftrightarrow> bit (word_rotr n (wb xs)) i"
      using l i by (auto simp: bit_wb bit_word_rotr_iff brotr_def nth_append algebra_simps)
  qed
  show "wb (bshr n xs) = drop_bit n (wb xs)" if l: "length xs = 32" "n \<le> 32"
    by (rule bit_word_eqI) (use l in \<open>auto simp: bit_wb bit_drop_bit_eq bshr_def nth_append\<close>)
qed

definition bS0 :: "bits \<Rightarrow> bits" where
  "bS0 x = bxor (bxor (brotr 2 x) (brotr 13 x)) (brotr 22 x)"
definition bS1 :: "bits \<Rightarrow> bits" where
  "bS1 x = bxor (bxor (brotr 6 x) (brotr 11 x)) (brotr 25 x)"
definition bs0 :: "bits \<Rightarrow> bits" where
  "bs0 x = bxor (bxor (brotr 7 x) (brotr 18 x)) (bshr 3 x)"
definition bs1 :: "bits \<Rightarrow> bits" where
  "bs1 x = bxor (bxor (brotr 17 x) (brotr 19 x)) (bshr 10 x)"

fun bch :: "bits \<Rightarrow> bits \<Rightarrow> bits \<Rightarrow> bits" where
  "bch (x # xs) (y # ys) (z # zs) = (if x then y else z) # bch xs ys zs"
| "bch _ _ _ = []"

fun bmaj :: "bits \<Rightarrow> bits \<Rightarrow> bits \<Rightarrow> bits" where
  "bmaj (x # xs) (y # ys) (z # zs) = (if x = y then x else z) # bmaj xs ys zs"
| "bmaj _ _ _ = []"

lemma bch_nth:
  "length xs = n \<Longrightarrow> length ys = n \<Longrightarrow> length zs = n \<Longrightarrow> length (bch xs ys zs) = n
    \<and> (\<forall>i < n. bch xs ys zs ! i = (if xs ! i then ys ! i else zs ! i))"
  by (induction xs ys zs arbitrary: n rule: bch.induct) (auto simp: nth_Cons split: nat.splits)

lemma bmaj_nth:
  "length xs = n \<Longrightarrow> length ys = n \<Longrightarrow> length zs = n \<Longrightarrow> length (bmaj xs ys zs) = n
    \<and> (\<forall>i < n. bmaj xs ys zs ! i = (if xs ! i = ys ! i then xs ! i else zs ! i))"
  by (induction xs ys zs arbitrary: n rule: bmaj.induct) (auto simp: nth_Cons split: nat.splits)

lemma wb_functions:
  "length x = 32 \<Longrightarrow> length (bS0 x) = 32 \<and> wb (bS0 x) = fips_S0 (wb x)"
  "length x = 32 \<Longrightarrow> length (bS1 x) = 32 \<and> wb (bS1 x) = fips_S1 (wb x)"
  "length x = 32 \<Longrightarrow> length (bs0 x) = 32 \<and> wb (bs0 x) = fips_s0 (wb x)"
  "length x = 32 \<Longrightarrow> length (bs1 x) = 32 \<and> wb (bs1 x) = fips_s1 (wb x)"
  "length x = 32 \<Longrightarrow> length y = 32 \<Longrightarrow> length z = 32 \<Longrightarrow>
     length (bch x y z) = 32 \<and> wb (bch x y z) = CH (wb x) (wb y) (wb z)"
  "length x = 32 \<Longrightarrow> length y = 32 \<Longrightarrow> length z = 32 \<Longrightarrow>
     length (bmaj x y z) = 32 \<and> wb (bmaj x y z) = MAJ (wb x) (wb y) (wb z)"
proof -
  show "length (bch x y z) = 32 \<and> wb (bch x y z) = CH (wb x) (wb y) (wb z)"
    if l: "length x = 32" "length y = 32" "length z = 32"
    using bch_nth [OF l] l by (auto intro!: bit_word_eqI simp: bit_wb CH_def bit_simps split: if_splits)
  show "length (bmaj x y z) = 32 \<and> wb (bmaj x y z) = MAJ (wb x) (wb y) (wb z)"
    if l: "length x = 32" "length y = 32" "length z = 32"
    using bmaj_nth [OF l] l by (auto intro!: bit_word_eqI simp: bit_wb MAJ_def bit_simps split: if_splits)
qed (simp_all add: bS0_def bS1_def bs0_def bs1_def fips_S0_def fips_S1_def fips_s0_def fips_s1_def wb_ops
    xor.assoc)

section \<open>The rounds\<close>

type_synonym bregs = "bits \<times> bits \<times> bits \<times> bits \<times> bits \<times> bits \<times> bits \<times> bits"

fun bround :: "bits \<Rightarrow> bits \<Rightarrow> bregs \<Rightarrow> bregs" where
  "bround k w (a, b, c, d, e, f, g, h) =
     (let t1 = badd (badd (badd (badd h (bS1 e)) (bch e f g)) k) w
      in (badd t1 (badd (bS0 a) (bmaj a b c)), a, b, c, badd d t1, e, f, g))"

text \<open>The sixteen words of the schedule from the current one on.\<close>

type_synonym window = "bits \<times> bits \<times> bits \<times> bits \<times> bits \<times> bits \<times> bits \<times> bits
  \<times> bits \<times> bits \<times> bits \<times> bits \<times> bits \<times> bits \<times> bits \<times> bits"

fun bnext :: "window \<Rightarrow> window" where
  "bnext (w0, w1, w2, w3, w4, w5, w6, w7, w8, w9, w10, w11, w12, w13, w14, w15) =
     (w1, w2, w3, w4, w5, w6, w7, w8, w9, w10, w11, w12, w13, w14, w15,
      badd (badd (badd (bs1 w14) w9) (bs0 w1)) w0)"

fun brun :: "bits list \<Rightarrow> bregs \<Rightarrow> window \<Rightarrow> bregs" where
  "brun [] r w = r"
| "brun (k # ks) r w = brun ks (bround k (fst w) r) (bnext w)"

fun window_list :: "window \<Rightarrow> bits list" where
  "window_list (w0, w1, w2, w3, w4, w5, w6, w7, w8, w9, w10, w11, w12, w13, w14, w15) =
     [w0, w1, w2, w3, w4, w5, w6, w7, w8, w9, w10, w11, w12, w13, w14, w15]"

fun wb_regs :: "bregs \<Rightarrow> regs" where
  "wb_regs (a, b, c, d, e, f, g, h) = (wb a, wb b, wb c, wb d, wb e, wb f, wb g, wb h)"

fun regs_list :: "bregs \<Rightarrow> bits list" where
  "regs_list (a, b, c, d, e, f, g, h) = [a, b, c, d, e, f, g, h]"

definition words32 :: "bits list \<Rightarrow> bool" where
  "words32 = list_all (\<lambda>x. length x = 32)"

lemma bround_wb:
  assumes "words32 (regs_list r)" "length k = 32" "length w = 32"
  shows "words32 (regs_list (bround k w r))
    \<and> wb_regs (bround k w r) = (let (a, b, c, d, e, f, g, h) = wb_regs r;
         t1 = h + fips_S1 e + CH e f g + wb k + wb w;
         t2 = fips_S0 a + MAJ a b c
       in (t1 + t2, a, b, c, d + t1, e, f, g))"
  using assms by (cases r rule: wb_regs.cases) (simp add: words32_def wb_ops wb_functions Let_def)

lemma bnext_wb:
  assumes "words32 (window_list w)" "map wb (window_list w) = map (fips_W blk) [t..<t + 16]"
  shows "words32 (window_list (bnext w)) \<and> map wb (window_list (bnext w)) = map (fips_W blk) [Suc t..<Suc t + 16]"
proof -
  obtain w0 w1 w2 w3 w4 w5 w6 w7 w8 w9 w10 w11 w12 w13 w14 w15
    where w: "w = (w0, w1, w2, w3, w4, w5, w6, w7, w8, w9, w10, w11, w12, w13, w14, w15)"
    by (rule window_list.cases)
  have l: "[t..<t + 16] = map ((+) t) [0, 1, 2, 3, 4, 5, 6, 7, 8, 9, 10, 11, 12, 13, 14, 15]"
    and l': "[Suc t..<Suc t + 16] = map ((+) t) [1, 2, 3, 4, 5, 6, 7, 8, 9, 10, 11, 12, 13, 14, 15, 16]"
    by (simp_all add: upt_conv_Cons)
  have "fips_W blk (t + 16) = fips_s1 (fips_W blk (t + 14)) + fips_W blk (t + 9)
      + fips_s0 (fips_W blk (t + 1)) + fips_W blk t"
    by (subst fips_W.simps) (simp add: add.commute)
  then show ?thesis
    using assms unfolding w l l' by (simp add: words32_def wb_ops wb_functions)
qed

lemma brun_wb:
  assumes "words32 ks" "words32 (regs_list r)" "words32 (window_list w)"
    and "map wb ks = drop t sha256_K" "t + length ks = 64"
    and "map wb (window_list w) = map (fips_W blk) [t..<t + 16]"
    and "wb_regs r = fips_rounds blk t r0"
  shows "words32 (regs_list (brun ks r w)) \<and> wb_regs (brun ks r w) = fips_rounds blk 64 r0"
  using assms
proof (induction ks arbitrary: r w t)
  case (Cons k ks)
  have t: "t < length sha256_K" using Cons.prems(4) by (metis drop_eq_Nil list.map_disc_iff list.simps(3) not_le_imp_less)
  have K: "wb k = sha256_K ! t" "map wb ks = drop (Suc t) sha256_K"
    using Cons.prems(4) Cons_nth_drop_Suc [OF t] by (metis list.inject list.simps(9))+
  obtain w0 ws where w: "w = (w0, ws)" by (rule prod.exhaust)
  have W: "length w0 = 32" "wb w0 = fips_W blk t"
    using Cons.prems(3,6) by (cases "(w0, ws)" rule: window_list.cases; simp add: w words32_def upt_conv_Cons)+
  note R = bround_wb [OF Cons.prems(2) _ W(1), of k]
  have "fips_rounds blk (Suc t) r0 = wb_regs (bround k w0 r)"
    using R Cons.prems(1) by (simp add: words32_def K W Cons.prems(7) Let_def split: prod.split)
  then show ?case
    using Cons.IH [of "bround k w0 r" "bnext w" "Suc t"] R Cons.prems K bnext_wb [OF Cons.prems(3,6)]
    by (simp add: words32_def w)
qed simp

section \<open>One block\<close>

definition K_ints :: "int list" where
  "K_ints = concat [
    [0x428a2f98, 0x71374491, 0xb5c0fbcf, 0xe9b5dba5, 0x3956c25b, 0x59f111f1],
    [0x923f82a4, 0xab1c5ed5, 0xd807aa98, 0x12835b01, 0x243185be, 0x550c7dc3],
    [0x72be5d74, 0x80deb1fe, 0x9bdc06a7, 0xc19bf174, 0xe49b69c1, 0xefbe4786],
    [0x0fc19dc6, 0x240ca1cc, 0x2de92c6f, 0x4a7484aa, 0x5cb0a9dc, 0x76f988da],
    [0x983e5152, 0xa831c66d, 0xb00327c8, 0xbf597fc7, 0xc6e00bf3, 0xd5a79147],
    [0x06ca6351, 0x14292967, 0x27b70a85, 0x2e1b2138, 0x4d2c6dfc, 0x53380d13],
    [0x650a7354, 0x766a0abb, 0x81c2c92e, 0x92722c85, 0xa2bfe8a1, 0xa81a664b],
    [0xc24b8b70, 0xc76c51a3, 0xd192e819, 0xd6990624, 0xf40e3585, 0x106aa070],
    [0x19a4c116, 0x1e376c08, 0x2748774c, 0x34b0bcb5, 0x391c0cb3, 0x4ed8aa4a],
    [0x5b9cca4f, 0x682e6ff3, 0x748f82ee, 0x78a5636f, 0x84c87814, 0x8cc70208],
    [0x90befffa, 0xa4506ceb, 0xbef9a3f7, 0xc67178f2]]"

lemma K_ints_words: "map word_of_int K_ints = sha256_K"
  by (simp add: K_ints_def sha256_K_def)

definition regs_of_ints :: "int list \<Rightarrow> bregs" where
  "regs_of_ints st = (case map int_bits st of s \<Rightarrow>
     (s ! 0, s ! 1, s ! 2, s ! 3, s ! 4, s ! 5, s ! 6, s ! 7))"

definition window_of_ints :: "int list \<Rightarrow> window" where
  "window_of_ints ws = (case map int_bits ws of w \<Rightarrow>
     (w ! 0, w ! 1, w ! 2, w ! 3, w ! 4, w ! 5, w ! 6, w ! 7,
      w ! 8, w ! 9, w ! 10, w ! 11, w ! 12, w ! 13, w ! 14, w ! 15))"

definition bcompress :: "int list \<Rightarrow> int list \<Rightarrow> bits list" where
  "bcompress st ws = map2 badd (map int_bits st)
     (regs_list (brun (map int_bits K_ints) (regs_of_ints st) (window_of_ints ws)))"

lemma list_8: "length xs = 8 \<Longrightarrow> xs = [xs ! 0, xs ! 1, xs ! 2, xs ! 3, xs ! 4, xs ! 5, xs ! 6, xs ! 7]"
  by (auto simp: list_eq_iff_nth_eq less_Suc_eq numeral_eq_Suc)

lemma list_16: "length xs = 16 \<Longrightarrow> xs = [xs ! 0, xs ! 1, xs ! 2, xs ! 3, xs ! 4, xs ! 5, xs ! 6, xs ! 7,
    xs ! 8, xs ! 9, xs ! 10, xs ! 11, xs ! 12, xs ! 13, xs ! 14, xs ! 15]"
  by (auto simp: list_eq_iff_nth_eq less_Suc_eq numeral_eq_Suc)

lemma compress_eval:
  assumes len: "length st = 8" "length ws = 16"
    and blk: "map (\<lambda>i. be_word blk (4 * i)) [0..<16] = map word_of_int ws"
    and st': "bcompress st ws = map int_bits st'"
  shows "fips_compress (map word_of_int st) blk = map word_of_int st'"
proof -
  let ?r = "regs_of_ints st" and ?w = "window_of_ints ws"
  have r: "regs_list ?r = map int_bits st"
    using list_8 [of "map int_bits st"] len(1) by (simp add: regs_of_ints_def)
  have w: "window_list ?w = map int_bits ws"
    using list_16 [of "map int_bits ws"] len(2) by (simp add: window_of_ints_def)
  have wbi: "map (wb \<circ> int_bits) xs = map word_of_int xs" for xs by (simp add: wb_int_bits)
  have W: "map wb (window_list ?w) = map (fips_W blk) [0..<0 + 16]"
    unfolding w using blk [symmetric] by (simp add: wbi fips_W.simps)
  have R: "wb_regs ?r = regs_of (map word_of_int st)"
    using len(1) by (simp add: regs_of_ints_def regs_of_def wb_int_bits)
  have b: "words32 (regs_list (brun (map int_bits K_ints) ?r ?w))
      \<and> wb_regs (brun (map int_bits K_ints) ?r ?w) = fips_rounds blk 64 (regs_of (map word_of_int st))"
    by (rule brun_wb [OF _ _ _ _ _ W])
      (simp_all add: words32_def list_all_iff r w K_ints_words wbi R, simp add: K_ints_def)
  obtain a b c d e f g h where t: "brun (map int_bits K_ints) ?r ?w = (a, b, c, d, e, f, g, h)"
    by (rule wb_regs.cases)
  obtain s0 s1 s2 s3 s4 s5 s6 s7 where s: "st = [s0, s1, s2, s3, s4, s5, s6, s7]"
    using list_8 [OF len(1)] by blast
  have "fips_rounds blk 64 (regs_of (map word_of_int st)) = (wb a, wb b, wb c, wb d, wb e, wb f, wb g, wb h)"
    using b t by simp
  moreover have "length a = 32" "length b = 32" "length c = 32" "length d = 32"
      "length e = 32" "length f = 32" "length g = 32" "length h = 32"
    using b t by (simp_all add: words32_def)
  ultimately have "map wb (bcompress st ws) = fips_compress (map word_of_int st) blk"
    using t by (simp add: s bcompress_def fips_compress_def wb_ops wb_int_bits)
  then show ?thesis using st' by (simp add: wbi)
qed

end
