(* ===== verification/Vli.thy ===== *)
theory Vli
  imports Prelude
begin

unbundle bit_operations_syntax

text \<open>
  \<^verbatim>\<open>third_party/micro-ecc/uECC.c\<close>, the very long integers of the signature library as the
  Makefile builds it (\<^verbatim>\<open>uECC_PLATFORM=0\<close>: portable C, 32-bit words, least significant word
  first).  An array of \<open>num_words\<close> words is a list of that length; a routine that fills a
  result array returns it, with its carry or borrow first.  Every loop reads the operands at
  an index before it stores the result there, so that the in-place calls of the library are
  calls on the values.  \<open>vli_val\<close> is the number an array stands for, and each routine is
  proved to be the arithmetic it is named after.
\<close>

section \<open>The code\<close>

type_synonym vli = "u32 list"

definition uECC_vli_clear :: "nat \<Rightarrow> vli" where
  "uECC_vli_clear num_words = replicate num_words 0"

definition uECC_vli_isZero :: "vli \<Rightarrow> bool" where
  "uECC_vli_isZero vli = (fold (\<lambda>x bits. bits OR x) vli 0 = 0)"

definition uECC_vli_testBit :: "vli \<Rightarrow> nat \<Rightarrow> bool" where
  "uECC_vli_testBit vli b = (vli ! drop_bit 5 b AND push_bit (b AND 31) 1 \<noteq> 0)"

text \<open>The scan from the last word down to the first non-zero one.\<close>

fun vli_numDigits :: "vli \<Rightarrow> nat \<Rightarrow> nat" where
  "vli_numDigits vli 0 = 0"
| "vli_numDigits vli (Suc i) = (if vli ! i = 0 then vli_numDigits vli i else Suc i)"

function digit_bits :: "u32 \<Rightarrow> nat" where
  "digit_bits digit = (if digit \<noteq> 0 then Suc (digit_bits (drop_bit 1 digit)) else 0)"
  by pat_completeness auto
termination
  by (relation "measure unat") (auto simp: unat_div drop_bit_eq_div unat_gt_0)

declare digit_bits.simps [simp del]

definition uECC_vli_numBits :: "vli \<Rightarrow> nat \<Rightarrow> nat" where
  "uECC_vli_numBits vli max_words =
     (let num_digits = vli_numDigits vli max_words
      in if num_digits = 0 then 0
         else (num_digits - 1) * 32 + digit_bits (vli ! (num_digits - 1)))"

text \<open>The comparison runs from the most significant word.\<close>

fun cmp_from_top :: "vli \<Rightarrow> vli \<Rightarrow> int" where
  "cmp_from_top (l # ls) (r # rs) =
     (if l > r then 1 else if l < r then - 1 else cmp_from_top ls rs)"
| "cmp_from_top _ _ = 0"

definition uECC_vli_cmp_unsafe :: "vli \<Rightarrow> vli \<Rightarrow> int" where
  "uECC_vli_cmp_unsafe left right = cmp_from_top (rev left) (rev right)"

fun diff_from_top :: "u32 \<Rightarrow> vli \<Rightarrow> vli \<Rightarrow> u32" where
  "diff_from_top diff (l # ls) (r # rs) = diff_from_top (diff OR (l XOR r)) ls rs"
| "diff_from_top diff _ _ = diff"

definition uECC_vli_equal :: "vli \<Rightarrow> vli \<Rightarrow> bool" where
  "uECC_vli_equal left right = (diff_from_top 0 (rev left) (rev right) = 0)"

fun rshift1_from_top :: "u32 \<Rightarrow> vli \<Rightarrow> vli" where
  "rshift1_from_top carry [] = []"
| "rshift1_from_top carry (temp # ts) =
     (drop_bit 1 temp OR carry) # rshift1_from_top (push_bit 31 temp) ts"

definition uECC_vli_rshift1 :: "vli \<Rightarrow> vli" where
  "uECC_vli_rshift1 vli = rev (rshift1_from_top 0 (rev vli))"

fun add_loop :: "u32 \<Rightarrow> vli \<Rightarrow> vli \<Rightarrow> u32 \<times> vli" where
  "add_loop carry (l # ls) (r # rs) =
     (let sum = l + r + carry;
          carry' = (if sum \<noteq> l then (if sum < l then 1 else 0) else carry);
          (c, result) = add_loop carry' ls rs
      in (c, sum # result))"
| "add_loop carry _ _ = (carry, [])"

definition uECC_vli_add :: "vli \<Rightarrow> vli \<Rightarrow> u32 \<times> vli" where
  "uECC_vli_add left right = add_loop 0 left right"

fun sub_loop :: "u32 \<Rightarrow> vli \<Rightarrow> vli \<Rightarrow> u32 \<times> vli" where
  "sub_loop borrow (l # ls) (r # rs) =
     (let diff = l - r - borrow;
          borrow' = (if diff \<noteq> l then (if diff > l then 1 else 0) else borrow);
          (b, result) = sub_loop borrow' ls rs
      in (b, diff # result))"
| "sub_loop borrow _ _ = (borrow, [])"

definition uECC_vli_sub :: "vli \<Rightarrow> vli \<Rightarrow> u32 \<times> vli" where
  "uECC_vli_sub left right = sub_loop 0 left right"

definition HIGH_BIT_SET :: u32 where "HIGH_BIT_SET = 0x80000000"

section \<open>The number an array stands for\<close>

abbreviation word_base :: int where "word_base \<equiv> 4294967296"

fun vli_val :: "vli \<Rightarrow> int" where
  "vli_val [] = 0"
| "vli_val (x # xs) = uint x + word_base * vli_val xs"

lemma uint_u32_lt: "uint (x :: u32) < word_base"
  using uint_lt2p [of x] by simp

lemma vli_val_nonneg [simp]: "0 \<le> vli_val xs"
  by (induction xs) simp_all

lemma vli_val_lt: "vli_val xs < word_base ^ length xs"
proof (induction xs)
  case (Cons x xs)
  have "vli_val xs + 1 \<le> word_base ^ length xs" using Cons.IH by simp
  then have "word_base * (vli_val xs + 1) \<le> word_base * word_base ^ length xs" by simp
  then show ?case using uint_u32_lt [of x] by (simp add: algebra_simps)
qed simp

lemma vli_val_append: "vli_val (xs @ ys) = vli_val xs + word_base ^ length xs * vli_val ys"
  by (induction xs) (simp_all add: algebra_simps)

lemma vli_val_zeros [simp]: "vli_val (replicate n 0) = 0"
  by (induction n) simp_all

lemma vli_val_split: "vli_val xs = vli_val (take n xs) + word_base ^ min (length xs) n * vli_val (drop n xs)"
  using vli_val_append [of "take n xs" "drop n xs"] by simp

lemma uint_mod_base: "(uint (x :: u32) + word_base * k) mod word_base = uint x"
  using uint_u32_lt [of x] by simp

lemma vli_val_inj:
  "length xs = length ys \<Longrightarrow> vli_val xs = vli_val ys \<Longrightarrow> xs = ys"
proof (induction xs ys rule: list_induct2)
  case (Cons x xs y ys)
  have "uint x = uint y"
    using arg_cong [OF Cons.prems, of "\<lambda>v. v mod word_base"]
      uint_mod_base [of x "vli_val xs"] uint_mod_base [of y "vli_val ys"] by simp
  then have "x = y" by (rule unsigned_word_eqI)
  with \<open>uint x = uint y\<close> show ?case using Cons by simp
qed simp

lemma vli_val_0_iff: "vli_val xs = 0 \<longleftrightarrow> (\<forall>x \<in> set xs. x = 0)"
proof (induction xs)
  case (Cons x xs)
  have "uint x + word_base * vli_val xs = 0 \<longleftrightarrow> uint x = 0 \<and> vli_val xs = 0"
    using vli_val_nonneg [of xs] uint_ge_0 [of x] by linarith
  then show ?case using Cons.IH by (simp add: uint_0_iff)
qed simp

section \<open>Comparison\<close>

lemma isZero_fold: "fold (\<lambda>x bits. bits OR x) xs b = 0 \<longleftrightarrow> b = 0 \<and> (\<forall>x \<in> set xs. (x :: u32) = 0)"
  by (induction xs arbitrary: b) (auto simp: or_eq_0_iff)

lemma isZero_iff: "uECC_vli_isZero v \<longleftrightarrow> vli_val v = 0"
  by (simp add: uECC_vli_isZero_def isZero_fold vli_val_0_iff)

lemma sgn_leading:
  assumes "0 \<le> a" "a < B" "0 \<le> b" "b < (B :: int)"
  shows "sgn (B * d + (a - b)) = (if d = 0 then sgn (a - b) else sgn d)"
proof -
  consider "d = 0" | "1 \<le> d" | "d \<le> - 1" by linarith
  then show ?thesis
  proof cases
    case 2
    then have "B * 1 \<le> B * d" using assms by (intro mult_left_mono) simp_all
    then have "0 < B * d + (a - b)" using assms by linarith
    then show ?thesis using 2 by simp
  next
    case 3
    then have "B * d \<le> B * (- 1)" using assms by (intro mult_left_mono) simp_all
    then have "B * d + (a - b) < 0" using assms by linarith
    then show ?thesis using 3 by simp
  qed simp
qed

lemma cmp_from_top_eq:
  "length xs = length ys \<Longrightarrow>
   cmp_from_top (rev xs) (rev ys) = sgn (vli_val xs - vli_val ys)"
proof (induction xs arbitrary: ys rule: rev_induct)
  case (snoc x xs)
  then obtain y ys' where ys: "ys = ys' @ [y]" "length xs = length ys'"
    by (metis append_butlast_last_id length_0_conv length_append_singleton length_butlast
        diff_Suc_1 nat.distinct(1))
  let ?B = "word_base ^ length ys'"
  have d: "vli_val (xs @ [x]) - vli_val ys
      = ?B * (uint x - uint y) + (vli_val xs - vli_val ys')"
    using ys by (simp add: vli_val_append algebra_simps)
  have lt: "vli_val xs < ?B" "vli_val ys' < ?B"
    using vli_val_lt [of xs] vli_val_lt [of ys'] ys by simp_all
  show ?case
    unfolding d sgn_leading [OF vli_val_nonneg lt(1) vli_val_nonneg lt(2)]
    unfolding ys(1) rev_append rev.simps append_Nil append_Cons cmp_from_top.simps
      snoc.IH [OF ys(2)]
    by (rule linorder_cases [of x y]) (simp_all add: word_less_def)
qed simp

lemma cmp_unsafe_eq:
  "length left = length right \<Longrightarrow>
   uECC_vli_cmp_unsafe left right = sgn (vli_val left - vli_val right)"
  by (simp add: uECC_vli_cmp_unsafe_def cmp_from_top_eq)

lemma cmp_unsafe_iffs:
  assumes "length left = length right"
  shows "uECC_vli_cmp_unsafe left right = 1 \<longleftrightarrow> vli_val right < vli_val left"
    and "0 < uECC_vli_cmp_unsafe left right \<longleftrightarrow> vli_val right < vli_val left"
    and "uECC_vli_cmp_unsafe left right < 0 \<longleftrightarrow> vli_val left < vli_val right"
    and "uECC_vli_cmp_unsafe left right = 0 \<longleftrightarrow> vli_val left = vli_val right"
  by (auto simp: cmp_unsafe_eq [OF assms] sgn_if)

lemma diff_from_top_0:
  "length xs = length ys \<Longrightarrow> diff_from_top d xs ys = 0 \<longleftrightarrow> d = 0 \<and> xs = ys"
  by (induction xs ys arbitrary: d rule: list_induct2) (auto simp: or_eq_0_iff xor_eq_0_word)

lemma vli_equal_iff:
  "length left = length right \<Longrightarrow> uECC_vli_equal left right \<longleftrightarrow> left = right"
  by (simp add: uECC_vli_equal_def diff_from_top_0)

section \<open>Shift, sum and difference\<close>

lemma rshift1_length [simp]: "length (rshift1_from_top c ts) = length ts"
  by (induction ts arbitrary: c) simp_all

lemma vli_rshift1_length [simp]: "length (uECC_vli_rshift1 v) = length v"
  by (simp add: uECC_vli_rshift1_def)

lemma uint_half_carry:
  fixes x :: u32
  assumes "c = 0 \<or> c = 2 ^ 31"
  shows "uint (drop_bit 1 x OR c) = uint x div 2 + uint c"
proof -
  have "drop_bit 1 x AND push_bit 31 1 = 0"
    by (rule bit_word_eqI, unfold bit_and_iff bit_push_bit_iff bit_drop_bit_eq o_def)
      (auto dest: bit_imp_le_length)
  then have "drop_bit 1 x AND 2 ^ 31 = 0" by (simp add: push_bit_eq_mult)
  then have "drop_bit 1 x AND c = 0" using assms by auto
  then have "drop_bit 1 x OR c = drop_bit 1 x + c"
    by (rule disjunctive_add_eq_or [symmetric])
  moreover have "uint (drop_bit 1 x + c) = uint x div 2 + uint c"
    using assms uint_u32_lt [of x]
    by (auto simp: uint_word_ariths uint_div_distrib drop_bit_eq_div)
  ultimately show ?thesis by simp
qed

lemma uint_push_31: "uint (push_bit 31 t :: u32) = (uint t mod 2) * 2 ^ 31"
  using mod_mult_mult2 [of "uint t" "2 ^ 31" 2]
  by (simp add: push_bit_eq_mult uint_word_ariths)

lemma push_31_cases: "push_bit 31 t = (0 :: u32) \<or> push_bit 31 t = (2 ^ 31 :: u32)"
proof -
  have "uint t mod 2 = 0 \<or> uint t mod 2 = 1" by linarith
  then have "uint (push_bit 31 t :: u32) = uint (0 :: u32)
      \<or> uint (push_bit 31 t :: u32) = uint (2 ^ 31 :: u32)"
    unfolding uint_push_31 by auto
  then show ?thesis by (metis unsigned_word_eqI)
qed

lemma half_leading:
  "(V div 2 + (T mod 2) * 2147483648 * P) + word_base * P * (T div 2 + C)
    = (V + word_base * P * T) div 2 + C * (word_base * P)" for V T P C :: int
proof -
  have "word_base * P * T = 2 * (2147483648 * P * T)" by simp
  then have "(V + word_base * P * T) div 2 = V div 2 + 2147483648 * P * T" by simp
  also have "2147483648 * P * T = 2147483648 * P * (2 * (T div 2) + T mod 2)" by simp
  finally show ?thesis by (simp only: algebra_simps)
qed

lemma rshift1_from_top_val:
  assumes "carry = 0 \<or> carry = 2 ^ 31" and "length ts = Suc n"
  shows "vli_val (rev (rshift1_from_top carry ts))
    = vli_val (rev ts) div 2 + uint carry * word_base ^ n"
  using assms
proof (induction ts arbitrary: carry n)
  case (Cons t ts)
  show ?case
  proof (cases ts)
    case Nil
    then show ?thesis using Cons.prems uint_half_carry [OF Cons.prems(1), of t] by simp
  next
    case (Cons u us)
    then obtain m where m: "length ts = Suc m" "n = Suc m" using Cons.prems by auto
    show ?thesis
      using half_leading [of "vli_val (rev ts)" "uint t" "word_base ^ m" "uint carry"]
        Cons.IH [OF push_31_cases m(1), of t] uint_half_carry [OF Cons.prems(1), of t]
      unfolding rshift1_from_top.simps rev.simps vli_val_append length_rev rshift1_length m
        uint_push_31 power_Suc vli_val.simps
      by simp
  qed
qed simp

lemma rshift1_val: "vli_val (uECC_vli_rshift1 v) = vli_val v div 2"
proof (cases "length v")
  case (Suc n)
  then show ?thesis using rshift1_from_top_val [of 0 "rev v" n] by (simp add: uECC_vli_rshift1_def)
qed (simp add: uECC_vli_rshift1_def)

text \<open>The carry of one word addition, read off a comparison, and the borrow of a subtraction.\<close>

lemma carry_int:
  fixes l r c :: int
  assumes "0 \<le> l" "l < B" "0 \<le> r" "r < B" "c = 0 \<or> c = 1"
  defines "s \<equiv> (l + r + c) mod B"
  shows "s + B * (if s \<noteq> l then (if s < l then 1 else 0) else c) = l + r + c"
proof (cases "l + r + c < B")
  case True
  then have "s = l + r + c" using assms(1-5) by (auto simp: s_def)
  then show ?thesis using assms(1-5) by auto
next
  case False
  have "s = (l + r + c - B) mod B" by (simp add: s_def)
  also have "\<dots> = l + r + c - B"
    by (rule mod_pos_pos_trivial) (use False assms(1-5) in auto)
  finally show ?thesis using assms(1-5) False by auto
qed

lemma borrow_int:
  fixes l r b :: int
  assumes "0 \<le> l" "l < B" "0 \<le> r" "r < B" "b = 0 \<or> b = 1"
  defines "d \<equiv> (l - r - b) mod B"
  shows "d = l - r - b + B * (if d \<noteq> l then (if d > l then 1 else 0) else b)"
proof (cases "0 \<le> l - r - b")
  case True
  then have "d = l - r - b" using assms by auto
  then show ?thesis using assms(1-5) by auto
next
  case False
  have "d = (l - r - b + B) mod B" by (simp add: d_def)
  also have "\<dots> = l - r - b + B"
    by (rule mod_pos_pos_trivial) (use False assms(1-5) in auto)
  finally show ?thesis using assms(1-5) False by auto
qed

lemma u32_bit_cases: "c = (0 :: u32) \<or> c = 1 \<Longrightarrow> uint c = 0 \<or> uint c = 1"
  by auto

lemma uint_eq_iff_u32: "a = b \<longleftrightarrow> uint a = uint (b :: u32)"
  by (auto dest: unsigned_word_eqI)

lemma add_carry_step:
  fixes l r c :: u32
  assumes "c = 0 \<or> c = 1"
  defines "s \<equiv> l + r + c"
  defines "c' \<equiv> (if s \<noteq> l then (if s < l then 1 else 0) else c)"
  shows "uint s + word_base * uint c' = uint l + uint r + uint c" and "c' = 0 \<or> c' = 1"
proof -
  have s: "uint s = (uint l + uint r + uint c) mod word_base"
    by (simp add: s_def uint_word_ariths mod_add_left_eq)
  have c': "uint c' = (if uint s \<noteq> uint l then (if uint s < uint l then 1 else 0) else uint c)"
    by (simp add: c'_def word_less_def flip: uint_eq_iff_u32)
  show "uint s + word_base * uint c' = uint l + uint r + uint c"
    unfolding c' s
    by (rule carry_int [OF _ uint_u32_lt _ uint_u32_lt u32_bit_cases [OF assms(1)]]) simp_all
  show "c' = 0 \<or> c' = 1" using assms(1) by (simp add: c'_def)
qed

lemma sub_borrow_step:
  fixes l r b :: u32
  assumes "b = 0 \<or> b = 1"
  defines "d \<equiv> l - r - b"
  defines "b' \<equiv> (if d \<noteq> l then (if d > l then 1 else 0) else b)"
  shows "uint d = uint l - uint r - uint b + word_base * uint b'" and "b' = 0 \<or> b' = 1"
proof -
  have d: "uint d = (uint l - uint r - uint b) mod word_base"
    by (simp add: d_def uint_word_ariths mod_diff_left_eq)
  have b': "uint b' = (if uint d \<noteq> uint l then (if uint d > uint l then 1 else 0) else uint b)"
    by (simp add: b'_def word_less_def flip: uint_eq_iff_u32)
  show "uint d = uint l - uint r - uint b + word_base * uint b'"
    unfolding b' d
    by (rule borrow_int [OF _ uint_u32_lt _ uint_u32_lt u32_bit_cases [OF assms(1)]]) simp_all
  show "b' = 0 \<or> b' = 1" using assms(1) by (simp add: b'_def)
qed

lemma add_loop_val:
  assumes "length ls = length rs" and "c = 0 \<or> c = 1"
  shows "add_loop c ls rs = (k, res) \<Longrightarrow>
    length res = length ls \<and> (k = 0 \<or> k = 1)
    \<and> vli_val res + word_base ^ length ls * uint k = vli_val ls + vli_val rs + uint c"
  using assms
proof (induction ls rs arbitrary: c k res rule: list_induct2)
  case (Cons l ls r rs)
  let ?c = "if l + r + c \<noteq> l then (if l + r + c < l then 1 else 0) else c"
  obtain res' where res: "add_loop ?c ls rs = (k, res')" "res = (l + r + c) # res'"
    using Cons.prems(1) by (auto simp: Let_def split: prod.splits)
  note st = add_carry_step [OF Cons.prems(2), of l r]
  show ?case
    using Cons.IH [OF res(1) st(2)] st(1) unfolding res(2)
    by (simp only: vli_val.simps length_Cons power_Suc) (simp add: algebra_simps)
qed auto

lemma sub_loop_val:
  assumes "length ls = length rs" and "b = 0 \<or> b = 1"
  shows "sub_loop b ls rs = (k, res) \<Longrightarrow>
    length res = length ls \<and> (k = 0 \<or> k = 1)
    \<and> vli_val res = vli_val ls - vli_val rs - uint b + word_base ^ length ls * uint k"
  using assms
proof (induction ls rs arbitrary: b k res rule: list_induct2)
  case (Cons l ls r rs)
  let ?b = "if l - r - b \<noteq> l then (if l - r - b > l then 1 else 0) else b"
  obtain res' where res: "sub_loop ?b ls rs = (k, res')" "res = (l - r - b) # res'"
    using Cons.prems(1) by (auto simp: Let_def split: prod.splits)
  note st = sub_borrow_step [OF Cons.prems(2), of l r]
  show ?case
    using Cons.IH [OF res(1) st(2)] st(1) unfolding res(2)
    by (simp only: vli_val.simps length_Cons power_Suc) (simp add: algebra_simps)
qed auto

section \<open>The words of a number\<close>

fun vli_of :: "nat \<Rightarrow> int \<Rightarrow> vli" where
  "vli_of 0 v = []"
| "vli_of (Suc n) v = word_of_int v # vli_of n (v div word_base)"

lemma length_vli_of [simp]: "length (vli_of n v) = n"
  by (induction n arbitrary: v) simp_all

lemma vli_val_of: "vli_val (vli_of n v) = v mod word_base ^ n"
proof (induction n arbitrary: v)
  case (Suc n)
  have "v mod (word_base * word_base ^ n)
      = word_base * (v div word_base mod word_base ^ n) + v mod word_base"
    by (rule zmod_zmult2_eq) simp
  then show ?case using Suc.IH [of "v div word_base"] by (simp add: uint_word_of_int)
qed simp

lemma vli_of_eqI:
  assumes "length v = n" "vli_val v = k mod word_base ^ n"
  shows "v = vli_of n k"
  by (rule vli_val_inj) (use assms in \<open>simp_all add: vli_val_of\<close>)

lemma vli_of_val: "length v = n \<Longrightarrow> vli_of n (vli_val v) = v"
  using vli_val_lt [of v] by (intro vli_of_eqI [symmetric]) simp_all

lemma vli_of_cong: "a mod word_base ^ n = b mod word_base ^ n \<Longrightarrow> vli_of n a = vli_of n b"
  by (rule vli_of_eqI) (simp_all add: vli_val_of)

lemma vli_add_eq:
  assumes "length left = n" "length right = n"
  shows "uECC_vli_add left right
    = (if vli_val left + vli_val right < word_base ^ n then 0 else 1,
       vli_of n (vli_val left + vli_val right))"
proof -
  obtain k res where a: "uECC_vli_add left right = (k, res)" by fastforce
  then have r: "length res = n" "k = 0 \<or> k = 1"
      "vli_val res + word_base ^ n * uint k = vli_val left + vli_val right"
    using add_loop_val [of left right 0 k res] assms by (auto simp: uECC_vli_add_def)
  have lt: "vli_val res < word_base ^ n" using vli_val_lt [of res] r(1) by simp
  have "vli_val res = (vli_val left + vli_val right) mod word_base ^ n"
    unfolding r(3) [symmetric] using lt by simp
  then have "res = vli_of n (vli_val left + vli_val right)"
    using r(1) by (intro vli_of_eqI) simp_all
  moreover have "k = (if vli_val left + vli_val right < word_base ^ n then 0 else 1)"
    using r(2) lt vli_val_nonneg [of res]
    by (auto simp del: vli_val_nonneg simp flip: r(3))
  ultimately show ?thesis using a by simp
qed

lemma vli_sub_eq:
  assumes "length left = n" "length right = n"
  shows "uECC_vli_sub left right
    = (if vli_val left < vli_val right then 1 else 0, vli_of n (vli_val left - vli_val right))"
proof -
  obtain k res where a: "uECC_vli_sub left right = (k, res)" by fastforce
  then have r: "length res = n" "k = 0 \<or> k = 1"
      "vli_val res = vli_val left - vli_val right + word_base ^ n * uint k"
    using sub_loop_val [of left right 0 k res] assms by (auto simp: uECC_vli_sub_def)
  have lt: "vli_val res < word_base ^ n" "vli_val left < word_base ^ n"
      "vli_val right < word_base ^ n"
    using vli_val_lt [of res] vli_val_lt [of left] vli_val_lt [of right] r(1) assms by simp_all
  have "(vli_val left - vli_val right) mod word_base ^ n
      = (vli_val left - vli_val right + word_base ^ n * uint k) mod word_base ^ n" by simp
  also have "\<dots> = vli_val res" using lt(1) by (simp flip: r(3))
  finally have "res = vli_of n (vli_val left - vli_val right)"
    using r(1) by (intro vli_of_eqI) simp_all
  moreover have "k = (if vli_val left < vli_val right then 1 else 0)"
    using r(2,3) lt vli_val_nonneg [of res] vli_val_nonneg [of left] vli_val_nonneg [of right]
    by auto
  ultimately show ?thesis using a by simp
qed

lemma vli_rshift1_eq:
  assumes "length v = n"
  shows "uECC_vli_rshift1 v = vli_of n (vli_val v div 2)"
proof (rule vli_of_eqI)
  have "0 \<le> vli_val v div 2" "vli_val v div 2 \<le> vli_val v"
    using vli_val_nonneg [of v] by linarith+
  then show "vli_val (uECC_vli_rshift1 v) = vli_val v div 2 mod word_base ^ n"
    using vli_val_lt [of v] assms by (simp add: rshift1_val)
qed (use assms in simp)

section \<open>Bits\<close>

lemma testBit_nth: "uECC_vli_testBit v b \<longleftrightarrow> bit (v ! (b div 32)) (b mod 32)"
proof -
  have "b AND 31 = b mod 32"
    using take_bit_eq_mask [of 5 b] by (simp add: take_bit_eq_mod mask_eq_exp_minus_1)
  then have "uECC_vli_testBit v b
      \<longleftrightarrow> v ! (b div 32) AND push_bit (b mod 32) 1 \<noteq> 0"
    by (simp add: uECC_vli_testBit_def drop_bit_eq_div)
  then show ?thesis by (simp add: bit_iff_and_push_bit_not_eq_0)
qed

lemma bit_vli_val: "b < 32 * length v \<Longrightarrow> bit (vli_val v) b \<longleftrightarrow> bit (v ! (b div 32)) (b mod 32)"
proof (induction v arbitrary: b)
  case (Cons x xs)
  show ?case
  proof (cases "b < 32")
    case True
    then have e: "word_base = 2 ^ b * 2 ^ (32 - b)" by (simp flip: power_add)
    have d: "(uint x + word_base * vli_val xs) div 2 ^ b
        = 2 ^ (32 - b) * vli_val xs + uint x div 2 ^ b"
      unfolding e mult.assoc by (rule div_mult_self2) simp
    have "bit (vli_val (x # xs)) b = odd (uint x div 2 ^ b)"
      unfolding bit_iff_odd vli_val.simps d using True by simp
    also have "\<dots> = bit x b"
      unfolding bit_iff_odd [symmetric] using True by (simp add: bit_uint_iff)
    finally show ?thesis using True by simp
  next
    case False
    then obtain c where c: "b = 32 + c" using le_Suc_ex [of 32 b] by auto
    have "(uint x + word_base * vli_val xs) div word_base = vli_val xs"
      using uint_u32_lt [of x] by simp
    then have "(uint x + word_base * vli_val xs) div 2 ^ b = vli_val xs div 2 ^ c"
      using zdiv_zmult2_eq [of "2 ^ c" "uint x + word_base * vli_val xs" word_base]
      by (simp add: c power_add del: div_mult_self2)
    then have "bit (vli_val (x # xs)) b = bit (vli_val xs) c"
      unfolding bit_iff_odd vli_val.simps by (rule arg_cong)
    moreover have "b div 32 = Suc (c div 32)" and "b mod 32 = c mod 32" using c by simp_all
    ultimately show ?thesis using Cons.IH [of c] Cons.prems c by (simp del: vli_val.simps)
  qed
qed simp

lemma testBit_eq: "b < 32 * length v \<Longrightarrow> uECC_vli_testBit v b \<longleftrightarrow> bit (vli_val v) b"
  by (simp add: testBit_nth bit_vli_val)

lemma numDigits_le: "vli_numDigits v m \<le> m"
  by (induction v m rule: vli_numDigits.induct) auto

lemma numDigits_top: "vli_numDigits v m = Suc d \<Longrightarrow> v ! d \<noteq> 0"
  by (induction v m rule: vli_numDigits.induct) (auto split: if_splits)

lemma numDigits_above: "vli_numDigits v m \<le> i \<Longrightarrow> i < m \<Longrightarrow> v ! i = 0"
  by (induction v m rule: vli_numDigits.induct) (auto simp: less_Suc_eq split: if_splits)

lemma digit_bits_bounds:
  "d \<noteq> 0 \<Longrightarrow> 0 < digit_bits d \<and> 2 ^ (digit_bits d - 1) \<le> uint d \<and> uint d < 2 ^ digit_bits d"
proof (induction d rule: digit_bits.induct)
  case (1 d)
  have h: "uint (drop_bit 1 d) = uint d div 2"
    by (simp add: drop_bit_eq_div uint_div_distrib)
  show ?case
  proof (cases "drop_bit 1 d = 0")
    case True
    then have "uint d div 2 = 0" using h by (simp del: One_nat_def)
    then have "uint d < 2" by linarith
    moreover have "0 < uint d" using 1(2) by (simp add: uint_0_iff order.strict_iff_order)
    ultimately have "uint d = 1" by linarith
    moreover have "digit_bits d = 1"
      using 1(2) True digit_bits.simps [of d] digit_bits.simps [of 0] by simp
    ultimately show ?thesis by simp
  next
    case False
    note ih = 1(1) [OF 1(2) False]
    then obtain k where k: "digit_bits (drop_bit 1 d) = Suc k" by (cases "digit_bits (drop_bit 1 d)") auto
    have "digit_bits d = Suc (Suc k)" using 1(2) k by (subst digit_bits.simps) simp
    moreover have "2 ^ k \<le> uint d div 2" "uint d div 2 < 2 ^ Suc k" using ih k h by simp_all
    then have "2 ^ Suc k \<le> uint d" and "uint d < 2 ^ Suc (Suc k)"
      unfolding power_Suc by linarith+
    ultimately show ?thesis by simp
  qed
qed

text \<open>An array is its words up to the first non-zero one from the top.\<close>

lemma vli_val_top:
  assumes "vli_numDigits v (length v) = Suc d"
  shows "vli_val v = vli_val (take d v) + word_base ^ d * uint (v ! d)"
proof -
  have d: "d < length v" using numDigits_le [of v "length v"] assms by simp
  have "vli_val (drop (Suc d) v) = 0"
    unfolding vli_val_0_iff
    using numDigits_above [of v "length v"] assms by (auto simp: in_set_conv_nth)
  moreover have "v = take d v @ v ! d # drop (Suc d) v" using d by (rule id_take_nth_drop)
  then have "vli_val v = vli_val (take d v) + word_base ^ d * vli_val (v ! d # drop (Suc d) v)"
    using d vli_val_append [of "take d v" "v ! d # drop (Suc d) v"] by simp
  ultimately show ?thesis by simp
qed

lemma numBits_0: "vli_numDigits v (length v) = 0 \<Longrightarrow> vli_val v = 0"
  using numDigits_above [of v "length v"] by (auto simp: vli_val_0_iff in_set_conv_nth)

lemma numBits_bounds:
  fixes v
  defines "nb \<equiv> uECC_vli_numBits v (length v)"
  assumes "0 < vli_val v"
  shows "0 < nb" and "2 ^ (nb - 1) \<le> vli_val v" and "vli_val v < 2 ^ nb" and "nb \<le> 32 * length v"
proof -
  obtain d where d: "vli_numDigits v (length v) = Suc d"
    using numBits_0 [of v] assms(2) by (cases "vli_numDigits v (length v)") auto
  let ?k = "digit_bits (v ! d)"
  have k: "0 < ?k" "2 ^ (?k - 1) \<le> uint (v ! d)" "uint (v ! d) < 2 ^ ?k"
    using digit_bits_bounds [OF numDigits_top [OF d]] by simp_all
  have nb: "nb = 32 * d + ?k" using d by (simp add: nb_def uECC_vli_numBits_def)
  show "0 < nb" using k(1) nb by simp
  have len: "Suc d \<le> length v" using numDigits_le [of v "length v"] d by simp
  have "(2 :: int) ^ (?k - 1) < 2 ^ 32" using k(2) uint_u32_lt [of "v ! d"] by simp
  then have "?k - 1 < 32" by (rule power_less_imp_less_exp [rotated]) simp
  then show "nb \<le> 32 * length v" using nb len by simp
  have B: "word_base ^ d = 2 ^ (32 * d)" by (simp add: power_mult)
  have V: "vli_val v = vli_val (take d v) + 2 ^ (32 * d) * uint (v ! d)"
    using vli_val_top [OF d] by (simp only: B)
  have lo: "vli_val (take d v) < 2 ^ (32 * d)"
    using vli_val_lt [of "take d v"] len by (simp only: B [symmetric]) simp
  have "nb - 1 = 32 * d + (?k - 1)" using nb k(1) by simp
  then have "(2 :: int) ^ (nb - 1) = 2 ^ (32 * d) * 2 ^ (?k - 1)" by (simp only: power_add)
  also have "\<dots> \<le> 2 ^ (32 * d) * uint (v ! d)" using k(2) by (rule mult_left_mono) simp
  finally show "2 ^ (nb - 1) \<le> vli_val v" using V vli_val_nonneg [of "take d v"] by linarith
  have "2 ^ (32 * d) * (uint (v ! d) + 1) \<le> (2 :: int) ^ (32 * d) * 2 ^ ?k"
    using k(3) by (intro mult_left_mono) simp_all
  then show "vli_val v < 2 ^ nb" using V lo nb by (simp add: power_add algebra_simps)
qed

lemma numBits_of_0: "vli_val v = 0 \<Longrightarrow> uECC_vli_numBits v (length v) = 0"
proof (cases "vli_numDigits v (length v)")
  case (Suc d)
  assume "vli_val v = 0"
  moreover have "v ! d \<in> set v" using numDigits_le [of v "length v"] Suc by simp
  ultimately show ?thesis using numDigits_top [OF Suc] by (auto simp: vli_val_0_iff)
qed (simp add: uECC_vli_numBits_def)

end
