(* ===== verification/Vli_Mult.thy ===== *)
theory Vli_Mult
  imports Vli
begin

unbundle bit_operations_syntax

text \<open>
  \<^verbatim>\<open>third_party/micro-ecc/uECC.c\<close>: the product and the square of two arrays, column by column,
  in the three-word accumulator \<open>(r2, r1, r0)\<close>.  The result is the exact product of the two
  numbers, twice as many words long; in particular the accumulator never overflows.
\<close>

section \<open>The code\<close>

type_synonym acc3 = "u32 \<times> u32 \<times> u32"

fun muladd :: "u32 \<Rightarrow> u32 \<Rightarrow> acc3 \<Rightarrow> acc3" where
  "muladd a b (r0, r1, r2) =
     (let p = (ucast a :: u64) * ucast b;
          r01 = (push_bit 32 (ucast r1) OR ucast r0) + p;
          r2' = r2 + (if r01 < p then 1 else 0)
      in (ucast r01, ucast (drop_bit 32 r01), r2'))"

fun mul2add :: "u32 \<Rightarrow> u32 \<Rightarrow> acc3 \<Rightarrow> acc3" where
  "mul2add a b (r0, r1, r2) =
     (let p = (ucast a :: u64) * ucast b;
          r2a = r2 + ucast (drop_bit 63 p);
          p2 = p * 2;
          r01 = (push_bit 32 (ucast r1) OR ucast r0) + p2;
          r2b = r2a + (if r01 < p2 then 1 else 0)
      in (ucast r01, ucast (drop_bit 32 r01), r2b))"

text \<open>The end of a column: \<open>r0\<close> is stored and the accumulator moves down one word.\<close>

definition mult_columns :: "(nat \<Rightarrow> acc3 \<Rightarrow> acc3) \<Rightarrow> nat list \<Rightarrow> vli \<times> acc3 \<Rightarrow> vli \<times> acc3" where
  "mult_columns col ks st =
     fold (\<lambda>k (result, acc). case col k acc of (r0, r1, r2) \<Rightarrow> (result @ [r0], (r1, r2, 0))) ks st"

definition uECC_vli_mult :: "vli \<Rightarrow> vli \<Rightarrow> nat \<Rightarrow> vli" where
  "uECC_vli_mult left right num_words =
     (let col = (\<lambda>is k. fold (\<lambda>i. muladd (left ! i) (right ! (k - i))) is);
          st1 = mult_columns (\<lambda>k. col [0..<k + 1] k) [0..<num_words] ([], (0, 0, 0));
          (result, (r0, r1, r2)) =
            mult_columns (\<lambda>k. col [k + 1 - num_words..<num_words] k)
              [num_words..<num_words * 2 - 1] st1
      in result @ [r0])"

definition square_step :: "vli \<Rightarrow> nat \<Rightarrow> nat \<Rightarrow> acc3 \<Rightarrow> acc3" where
  "square_step left k i =
     (if i < k - i then mul2add (left ! i) (left ! (k - i))
      else muladd (left ! i) (left ! (k - i)))"

definition uECC_vli_square :: "vli \<Rightarrow> nat \<Rightarrow> vli" where
  "uECC_vli_square left num_words =
     (let min = (\<lambda>k. if k < num_words then 0 else k + 1 - num_words);
          (result, (r0, r1, r2)) =
            mult_columns
              (\<lambda>k. fold (square_step left k) (takeWhile (\<lambda>i. i \<le> k \<and> i \<le> k - i) [min k..<k + 1]))
              [0..<num_words * 2 - 1] ([], (0, 0, 0))
      in result @ [r0])"

section \<open>The accumulator\<close>

fun acc_val :: "acc3 \<Rightarrow> int" where
  "acc_val (r0, r1, r2) = uint r0 + word_base * (uint r1 + word_base * uint r2)"

lemma acc_val_nonneg [simp]: "0 \<le> acc_val t"
  by (cases t) simp

abbreviation acc_limit :: int where "acc_limit \<equiv> word_base * (word_base * word_base)"

lemma uint_r01:
  fixes r0 r1 :: u32
  shows "uint (push_bit 32 (ucast r1) OR ucast r0 :: u64) = uint r0 + word_base * uint r1"
proof -
  have "push_bit 32 (ucast r1) AND ucast r0 = (0 :: u64)"
    by (rule bit_word_eqI) (auto simp: bit_simps dest: bit_imp_le_length)
  then have "push_bit 32 (ucast r1) OR ucast r0 = push_bit 32 (ucast r1) + (ucast r0 :: u64)"
    by (rule disjunctive_add_eq_or [symmetric])
  then show ?thesis
    using uint_u32_lt [of r0] uint_u32_lt [of r1]
    by (simp add: push_bit_eq_mult uint_word_ariths uint_up_ucast is_up_def)
qed

lemma uint_mul_64:
  fixes a b :: u32
  shows "uint ((ucast a :: u64) * ucast b) = uint a * uint b"
    and "uint a * uint b \<le> 18446744065119617025"
proof -
  have "uint a * uint b \<le> 4294967295 * 4294967295"
    by (rule mult_mono) (use uint_u32_lt [of a] uint_u32_lt [of b] in simp_all)
  then show "uint a * uint b \<le> 18446744065119617025" by simp
  then show "uint ((ucast a :: u64) * ucast b) = uint a * uint b"
    by (simp add: uint_word_ariths uint_up_ucast is_up_def)
qed

lemma uint_split_64:
  fixes x :: u64
  shows "uint (ucast x :: u32) = uint x mod word_base"
    and "uint (ucast (drop_bit 32 x) :: u32) = uint x div word_base"
    and "uint x = uint (ucast x :: u32) + word_base * uint (ucast (drop_bit 32 x) :: u32)"
proof -
  show "uint (ucast x :: u32) = uint x mod word_base"
    by (simp add: unsigned_ucast_eq take_bit_eq_mod)
  have "uint x < 18446744073709551616" using uint_lt2p [of x] by simp
  then have "uint x div word_base < word_base" by presburger
  moreover have "0 \<le> uint x div word_base" by (simp add: pos_imp_zdiv_nonneg_iff)
  ultimately have "uint x div word_base mod word_base = uint x div word_base"
    by (rule mod_pos_pos_trivial [rotated])
  then show "uint (ucast (drop_bit 32 x) :: u32) = uint x div word_base"
    by (simp add: unsigned_ucast_eq take_bit_eq_mod drop_bit_eq_div uint_div_distrib)
  then show "uint x = uint (ucast x :: u32) + word_base * uint (ucast (drop_bit 32 x) :: u32)"
    by (simp add: \<open>uint (ucast x :: u32) = uint x mod word_base\<close>)
qed

lemma acc_val_split:
  fixes x :: u64
  shows "acc_val (ucast x, ucast (drop_bit 32 x), c) = uint x + word_base * word_base * uint c"
  using uint_split_64(3) [of x, symmetric] by simp

text \<open>Adding \<open>P\<close> to the two low words \<open>A\<close>, the carry read off the comparison.\<close>

lemma carry_64:
  fixes x p :: u64
  shows "uint (x + p) + word_base * word_base * uint (if x + p < p then 1 else 0 :: u32)
    = uint x + uint p"
proof -
  have "uint (x + p) = (uint p + uint x + 0) mod 18446744073709551616"
    by (simp add: uint_word_ariths add.commute)
  moreover have "uint p < 18446744073709551616" "uint x < 18446744073709551616"
    using uint_lt2p [of p] uint_lt2p [of x] by simp_all
  ultimately show ?thesis
    using carry_int [of "uint p" 18446744073709551616 "uint x" 0]
    by (auto simp: word_less_def split: if_splits)
qed

lemma uint_add_small:
  fixes a b :: u32
  shows "uint a + uint b < word_base \<Longrightarrow> uint (a + b) = uint a + uint b"
  by (simp add: uint_word_ariths)

lemma muladd_val:
  assumes "acc_val t + uint a * uint b < acc_limit"
  shows "acc_val (muladd a b t) = acc_val t + uint a * uint b"
proof -
  obtain r0 r1 r2 where t: "t = (r0, r1, r2)" by (cases t) auto
  define p where "p = (ucast a :: u64) * ucast b"
  define x where "x = (push_bit 32 (ucast r1) OR ucast r0 :: u64)"
  define k where "k = (if x + p < p then 1 else 0 :: u32)"
  have sum: "uint (x + p) + word_base * word_base * uint k = uint r0 + word_base * uint r1 + uint a * uint b"
    unfolding k_def carry_64 by (simp add: p_def x_def uint_mul_64 uint_r01)
  have "word_base * word_base * (uint r2 + uint k) \<le> acc_val t + uint a * uint b"
    using sum uint_ge_0 [of "x + p"] unfolding t acc_val.simps distrib_left mult.assoc by linarith
  then have "uint r2 + uint k < word_base" using assms by simp
  then have "uint (r2 + k) = uint r2 + uint k" by (rule uint_add_small)
  moreover have "muladd a b t = (ucast (x + p), ucast (drop_bit 32 (x + p)), r2 + k)"
    by (simp add: t p_def x_def k_def Let_def)
  ultimately show ?thesis
    using sum by (simp only: t acc_val_split) simp
qed

lemma mul2add_val:
  assumes "acc_val t + 2 * (uint a * uint b) < acc_limit"
  shows "acc_val (mul2add a b t) = acc_val t + 2 * (uint a * uint b)"
proof -
  obtain r0 r1 r2 where t: "t = (r0, r1, r2)" by (cases t) auto
  define p where "p = (ucast a :: u64) * ucast b"
  define x where "x = (push_bit 32 (ucast r1) OR ucast r0 :: u64)"
  define h where "h = (ucast (drop_bit 63 p) :: u32)"
  define k where "k = (if x + p * 2 < p * 2 then 1 else 0 :: u32)"
  have p: "uint p = uint a * uint b" "0 \<le> uint p" "uint p < 18446744073709551616"
    using uint_mul_64 [of a b] by (simp_all add: p_def)
  define q where "q = uint p div 9223372036854775808"
  define m where "m = uint p mod 9223372036854775808"
  have qm: "uint p = 9223372036854775808 * q + m" "0 \<le> m" "m < 9223372036854775808"
    by (simp_all add: q_def m_def)
  have q: "q = 0 \<or> q = 1" using p qm by linarith
  have "uint (drop_bit 63 p) = uint p div 9223372036854775808"
    by (simp add: drop_bit_eq_div uint_div_distrib)
  then have "uint (drop_bit 63 p) = q" by (simp add: q_def)
  then have h: "uint h = q"
    using q by (auto simp add: h_def unsigned_ucast_eq take_bit_eq_mod)
  have "uint (p * 2) = (uint p * 2) mod 18446744073709551616"
    by (simp add: uint_word_ariths)
  also have "\<dots> = 2 * m" using q qm by auto
  finally have dbl: "uint (p * 2) + word_base * word_base * uint h = 2 * (uint a * uint b)"
    using qm(1) by (simp add: h p(1) [symmetric])
  have "uint (x + p * 2) + word_base * word_base * uint k
      = uint r0 + word_base * uint r1 + uint (p * 2)"
    unfolding k_def carry_64 by (simp add: x_def uint_r01)
  then have sum: "uint (x + p * 2) + word_base * word_base * (uint h + uint k)
      = uint r0 + word_base * uint r1 + 2 * (uint a * uint b)"
    using dbl by (simp add: algebra_simps)
  have "word_base * word_base * (uint r2 + uint h + uint k) \<le> acc_val t + 2 * (uint a * uint b)"
    using sum uint_ge_0 [of "x + p * 2"] unfolding t acc_val.simps distrib_left mult.assoc
    by linarith
  then have lt: "uint r2 + uint h + uint k < word_base" using assms by simp
  have "uint (r2 + h) = uint r2 + uint h"
    by (rule uint_add_small) (use lt uint_ge_0 [of k] in linarith)
  then have "uint (r2 + h + k) = uint r2 + uint h + uint k"
    using uint_add_small [of "r2 + h" k] lt by simp
  moreover have "mul2add a b t
      = (ucast (x + p * 2), ucast (drop_bit 32 (x + p * 2)), r2 + h + k)"
    by (simp add: t p_def x_def h_def k_def Let_def)
  ultimately show ?thesis
    using sum by (simp only: t acc_val_split) simp
qed


section \<open>Columns\<close>

lemma fold_add_val:
  fixes c :: "nat \<Rightarrow> int"
  assumes step: "\<And>i t. i \<in> set is \<Longrightarrow> acc_val t + c i < acc_limit \<Longrightarrow> acc_val (f i t) = acc_val t + c i"
    and nn: "\<And>i. i \<in> set is \<Longrightarrow> 0 \<le> c i"
    and lim: "acc_val t + sum_list (map c is) < acc_limit"
  shows "acc_val (fold f is t) = acc_val t + sum_list (map c is)"
  using assms
proof (induction "is" arbitrary: t)
  case (Cons i js)
  have "0 \<le> sum_list (map c js)" using Cons.prems(2) by (intro sum_list_nonneg) auto
  then have "acc_val t + c i < acc_limit" using Cons.prems(3) by simp
  then have f: "acc_val (f i t) = acc_val t + c i" using Cons.prems(1) by simp
  have "acc_val (fold f js (f i t)) = acc_val (f i t) + sum_list (map c js)"
    by (rule Cons.IH) (use Cons.prems f in auto)
  then show ?case using f by simp
qed simp

text \<open>
  With \<open>C k\<close> the number column \<open>k\<close> contributes, the words written and the accumulator stand
  for the sum of the columns, as long as a column is at most \<open>n\<close> full products.
\<close>

lemma acc_shift: "acc_val (r0, r1, r2) = uint r0 + word_base * acc_val (r1, r2, 0)"
  by simp

declare acc_val.simps [simp del] muladd.simps [simp del] mul2add.simps [simp del]

lemma mult_columns_val:
  fixes C :: "nat \<Rightarrow> int"
  assumes col: "\<And>k t. k \<in> set ks \<Longrightarrow> acc_val t + C k < acc_limit \<Longrightarrow> acc_val (col k t) = acc_val t + C k"
    and bound: "\<And>k. k \<in> set ks \<Longrightarrow> C k \<le> N * (4294967295 * 4294967295)"
    and N: "0 \<le> N" "N < word_base"
    and ks: "ks = [length res..<m]" "length res \<le> m"
    and t: "acc_val t \<le> N * word_base"
    and run: "mult_columns col ks (res, t) = (res', t')"
  shows "length res' = m \<and> acc_val t' \<le> N * word_base
    \<and> vli_val res' + word_base ^ m * acc_val t'
      = vli_val res + word_base ^ length res * acc_val t + (\<Sum>k \<in> {length res..<m}. word_base ^ k * C k)"
  using assms
proof (induction ks arbitrary: res t)
  case Nil
  then have "m = length res" by (auto simp: eq_commute [of "[]"])
  then show ?case using Nil.prems by (simp add: mult_columns_def)
next
  case (Cons k ks)
  have k: "k = length res" "k < m" "ks = [Suc k..<m]"
    using Cons.prems(5) [symmetric] by (auto simp: upt_eq_Cons_conv)
  obtain r0 r1 r2 where r: "col k t = (r0, r1, r2)" by (cases "col k t") auto
  have b: "C k \<le> N * (4294967295 * 4294967295)" using Cons.prems(2) by simp
  have le: "acc_val t + C k \<le> N * (word_base * word_base)"
    using b Cons.prems(3,7) by (simp add: algebra_simps)
  also have "N * (word_base * word_base) < acc_limit" using Cons.prems(4) by simp
  finally have v: "acc_val (r0, r1, r2) = acc_val t + C k" using Cons.prems(1) r by fastforce
  have "word_base * acc_val (r1, r2, 0) \<le> word_base * (N * word_base)"
    using v le uint_ge_0 [of r0] unfolding acc_shift [of r0] by linarith
  then have t': "acc_val (r1, r2, 0) \<le> N * word_base" by simp
  have "length res' = m \<and> acc_val t' \<le> N * word_base
    \<and> vli_val res' + word_base ^ m * acc_val t'
      = vli_val (res @ [r0]) + word_base ^ length (res @ [r0]) * acc_val (r1, r2, 0)
        + (\<Sum>k \<in> {length (res @ [r0])..<m}. word_base ^ k * C k)"
  proof (rule Cons.IH)
    show "mult_columns col ks (res @ [r0], (r1, r2, 0)) = (res', t')"
      using Cons.prems(8) r by (simp add: mult_columns_def)
  qed (use Cons.prems k t' in \<open>simp_all\<close>)
  moreover have "vli_val (res @ [r0]) + word_base ^ length (res @ [r0]) * acc_val (r1, r2, 0)
      = vli_val res + word_base ^ k * (acc_val t + C k)"
    unfolding v [symmetric] acc_shift [of r0] using k(1)
    by (simp add: vli_val_append algebra_simps)
  moreover have "(\<Sum>k \<in> {length res..<m}. word_base ^ k * C k)
      = word_base ^ k * C k + (\<Sum>k \<in> {length (res @ [r0])..<m}. word_base ^ k * C k)"
    using k by (simp add: sum.atLeast_Suc_lessThan)
  ultimately show ?case using k(1) by (simp add: distrib_left)
qed

section \<open>The product\<close>

lemma vli_val_sum: "vli_val v = (\<Sum>i < length v. word_base ^ i * uint (v ! i))"
  by (induction v) (simp_all add: sum.lessThan_Suc_shift sum_distrib_left mult.assoc
      del: sum.lessThan_Suc)

lemma uint_u32_le: "uint (x :: u32) \<le> 4294967295"
  using uint_u32_lt [of x] by simp

definition column :: "vli \<Rightarrow> vli \<Rightarrow> nat \<Rightarrow> nat \<Rightarrow> int" where
  "column l r n k = (\<Sum>i \<in> {i. i < n \<and> i \<le> k \<and> k < n + i}. uint (l ! i) * uint (r ! (k - i)))"

lemma finite_column [simp]: "finite {i. i < n \<and> i \<le> k \<and> k < n + (i :: nat)}"
  by simp

lemma column_le: "column l r n k \<le> int n * (4294967295 * 4294967295)"
proof -
  let ?I = "{i. i < n \<and> i \<le> k \<and> k < n + i}"
  have "card ?I \<le> card {..<n}" by (rule card_mono) auto
  moreover have "column l r n k \<le> of_nat (card ?I) * (4294967295 * 4294967295)"
    unfolding column_def
    by (rule sum_bounded_above, rule mult_mono) (simp_all add: uint_u32_le)
  ultimately show ?thesis by simp
qed

lemma vli_val_times:
  assumes "length l = n" "length r = n"
  shows "vli_val l * vli_val r = (\<Sum>k \<in> {0..<2 * n - 1}. word_base ^ k * column l r n k)"
proof -
  let ?f = "\<lambda>(i, j). word_base ^ (i + j) * (uint (l ! i) * uint (r ! j))"
  let ?g = "\<lambda>(k, i). word_base ^ k * (uint (l ! i) * uint (r ! (k - i)))"
  have "vli_val l * vli_val r = (\<Sum>i<n. \<Sum>j<n. ?f (i, j))"
    by (simp add: vli_val_sum assms sum_product power_add mult_ac)
  also have "\<dots> = sum ?f ({..<n} \<times> {..<n})" by (simp add: sum.cartesian_product)
  also have "\<dots> = sum ?g (SIGMA k:{0..<2 * n - 1}. {i. i < n \<and> i \<le> k \<and> k < n + i})"
    by (rule sum.reindex_bij_witness [of _ "\<lambda>(k, i). (i, k - i)" "\<lambda>(i, j). (i + j, i)"]) auto
  also have "\<dots> = (\<Sum>k \<in> {0..<2 * n - 1}. word_base ^ k * column l r n k)"
    by (simp add: sum.Sigma [symmetric] column_def sum_distrib_left)
  finally show ?thesis .
qed

lemma sum_list_upt: "sum_list (map c [a..<b]) = sum c {a..<b :: nat}"
  by (simp add: interv_sum_list_conv_sum_set_nat)

lemma muladd_column:
  assumes "{a..<b} = {i. i < n \<and> i \<le> k \<and> k < n + i}"
    and "acc_val t + column l r n k < acc_limit"
  shows "acc_val (fold (\<lambda>i. muladd (l ! i) (r ! (k - i))) [a..<b] t) = acc_val t + column l r n k"
  using assms fold_add_val [of "[a..<b]" "\<lambda>i. uint (l ! i) * uint (r ! (k - i))"
      "\<lambda>i. muladd (l ! i) (r ! (k - i))" t]
  by (simp add: muladd_val sum_list_upt column_def)

lemma last_digit:
  assumes "vli_val res + word_base ^ length res * acc_val (r0, r1, r2) < word_base ^ Suc (length res)"
  shows "vli_val (res @ [r0]) = vli_val res + word_base ^ length res * acc_val (r0, r1, r2)"
proof -
  have "word_base ^ length res * acc_val (r0, r1, r2) < word_base ^ length res * word_base"
    using assms vli_val_nonneg [of res] unfolding power_Suc mult.commute [of word_base]
    by linarith
  then have "acc_val (r0, r1, r2) < word_base" by (simp only: mult_less_cancel_left_pos zero_less_power)
  then have "uint r1 + word_base * uint r2 < 1" using uint_ge_0 [of r0]
    unfolding acc_val.simps distrib_left by linarith
  then have "uint r1 = 0 \<and> uint r2 = 0" using uint_ge_0 [of r1] uint_ge_0 [of r2] by linarith
  then show ?thesis by (simp add: vli_val_append acc_val.simps)
qed

theorem vli_mult_val:
  assumes "length l = n" "length r = n" "0 < n" "n < 2 ^ 32"
  shows "length (uECC_vli_mult l r n) = 2 * n \<and> vli_val (uECC_vli_mult l r n) = vli_val l * vli_val r"
proof -
  let ?N = "int n"
  have N: "0 \<le> ?N" "?N < word_base" using assms(4) by simp_all
  obtain m where n: "n = Suc m" using assms(3) by (cases n) auto
  let ?c = "\<lambda>is k. fold (\<lambda>i. muladd (l ! i) (r ! (k - i))) is"
  have col1: "acc_val (?c [0..<k + 1] k t) = acc_val t + column l r n k"
    if "k \<in> set [0..<n]" "acc_val t + column l r n k < acc_limit" for k t
    by (rule muladd_column) (use that in auto)
  have col2: "acc_val (?c [k + 1 - n..<n] k t) = acc_val t + column l r n k"
    if "k \<in> set [n..<n * 2 - 1]" "acc_val t + column l r n k < acc_limit" for k t
    by (rule muladd_column) (use that in auto)
  obtain v1 t1 where r1: "mult_columns (\<lambda>k. ?c [0..<k + 1] k) [0..<n] ([], (0, 0, 0)) = (v1, t1)"
    by (rule prod.exhaust)
  have s1: "length v1 = n \<and> acc_val t1 \<le> ?N * word_base \<and> vli_val v1 + word_base ^ n * acc_val t1
      = vli_val [] + word_base ^ length ([] :: vli) * acc_val (0, 0, 0)
        + (\<Sum>k \<in> {length ([] :: vli)..<n}. word_base ^ k * column l r n k)"
    by (rule mult_columns_val [OF col1 column_le N _ _ _ r1]) (simp_all add: acc_val.simps)
  obtain v2 r0 r1' r2 where r2: "mult_columns (\<lambda>k. ?c [k + 1 - n..<n] k) [n..<n * 2 - 1] (v1, t1)
      = (v2, (r0, r1', r2))" by (rule prod_cases4)
  have s2: "length v2 = n * 2 - 1 \<and> acc_val (r0, r1', r2) \<le> ?N * word_base
      \<and> vli_val v2 + word_base ^ (n * 2 - 1) * acc_val (r0, r1', r2)
      = vli_val v1 + word_base ^ length v1 * acc_val t1
        + (\<Sum>k \<in> {length v1..<n * 2 - 1}. word_base ^ k * column l r n k)"
    by (rule mult_columns_val [OF col2 column_le N _ _ _ r2]) (use s1 n in simp_all)
  have split: "(\<Sum>k \<in> {0..<n * 2 - 1}. word_base ^ k * column l r n k)
      = (\<Sum>k \<in> {0..<n}. word_base ^ k * column l r n k)
        + (\<Sum>k \<in> {n..<n * 2 - 1}. word_base ^ k * column l r n k)"
    by (rule sum.atLeastLessThan_concat [symmetric]) (use n in simp_all)
  have z: "acc_val (0, 0, 0) = 0" by (simp add: acc_val.simps)
  have "vli_val v2 + word_base ^ length v2 * acc_val (r0, r1', r2) = vli_val l * vli_val r"
    using s1 s2 split unfolding vli_val_times [OF assms(1,2)] mult.commute [of 2 n]
    by (simp add: z)
  moreover have "vli_val l * vli_val r < word_base ^ n * word_base ^ n"
    using vli_val_lt [of l] vli_val_lt [of r] assms by (intro mult_strict_mono) simp_all
  moreover have "word_base ^ n * word_base ^ n = word_base ^ Suc (length v2)"
    using s2 n by (simp flip: power_add)
  ultimately have "vli_val (v2 @ [r0]) = vli_val l * vli_val r"
    using last_digit [of v2 r0 r1' r2] by simp
  moreover have "uECC_vli_mult l r n = v2 @ [r0]"
    using r1 r2 by (simp add: uECC_vli_mult_def Let_def del: upt_Suc)
  ultimately show ?thesis using s2 n by simp
qed

section \<open>The square\<close>

text \<open>A column of the square: every product off the middle occurs twice.\<close>

lemma square_column_sum:
  fixes f :: "nat \<Rightarrow> int"
  assumes "lo + hi = k" "lo \<le> hi" and sym: "\<And>i. i \<le> k \<Longrightarrow> f (k - i) = f i"
  shows "(\<Sum>i \<in> {lo..hi}. f i) = (\<Sum>i \<in> {lo..k div 2}. if i < k - i then 2 * f i else f i)"
proof -
  define L where "L = {i \<in> {lo..hi}. 2 * i < k}"
  define M where "M = {i \<in> {lo..hi}. 2 * i = k}"
  define H where "H = {i \<in> {lo..hi}. k < 2 * i}"
  let ?g = "\<lambda>i. if i < k - i then 2 * f i else f i"
  have fin: "finite L" "finite M" "finite H" by (simp_all add: L_def M_def H_def)
  have disj: "L \<inter> M = {}" "(L \<union> M) \<inter> H = {}" by (auto simp: L_def M_def H_def)
  have all: "{lo..hi} = L \<union> M \<union> H" by (auto simp: L_def M_def H_def)
  have half: "{lo..k div 2} = L \<union> M" using assms by (auto simp: L_def M_def)
  have "sum f H = sum f L"
    by (rule sum.reindex_bij_witness [of _ "\<lambda>i. k - i" "\<lambda>i. k - i"])
      (use assms in \<open>auto simp: L_def H_def\<close>)
  moreover have "sum f (L \<union> M \<union> H) = sum f L + sum f M + sum f H"
    using fin disj by (simp add: sum.union_disjoint)
  moreover have "sum ?g (L \<union> M) = sum ?g L + sum ?g M"
    using fin disj by (simp add: sum.union_disjoint)
  moreover have "sum ?g L = sum (\<lambda>i. 2 * f i) L" by (rule sum.cong) (auto simp: L_def)
  moreover have "sum ?g M = sum f M" by (rule sum.cong) (auto simp: M_def)
  ultimately show ?thesis unfolding all half by (simp add: sum_distrib_left [symmetric])
qed

lemma square_steps:
  assumes "m \<le> k div 2"
  shows "takeWhile (\<lambda>i. i \<le> k \<and> i \<le> k - i) [m..<k + 1] = [m..<k div 2 + 1]"
proof -
  have "[m..<k + 1] = [m..<k div 2 + 1] @ [k div 2 + 1..<k + 1]"
    using assms upt_add_eq_append [of m "k div 2 + 1" "k - k div 2"] by simp
  then show ?thesis
    by (simp only:) (subst takeWhile_append2; cases "k div 2 + 1 < k + 1"; auto simp: upt_conv_Cons simp del: upt_Suc)
qed

lemma square_column:
  assumes k: "k < 2 * n - 1" and lim: "acc_val t + column l l n k < acc_limit"
  defines "m \<equiv> (if k < n then 0 else k + 1 - n)"
  shows "acc_val (fold (square_step l k) (takeWhile (\<lambda>i. i \<le> k \<and> i \<le> k - i) [m..<k + 1]) t)
    = acc_val t + column l l n k"
proof -
  let ?f = "\<lambda>i. uint (l ! i) * uint (l ! (k - i))"
  let ?g = "\<lambda>i. if i < k - i then 2 * ?f i else ?f i"
  have m: "m \<le> k div 2" "m \<le> k - m" "m + (k - m) = k" using k by (auto simp: m_def)
  have "{i. i < n \<and> i \<le> k \<and> k < n + i} = {m..k - m}" using k by (auto simp: m_def)
  then have "column l l n k = sum ?f {m..k - m}" by (simp add: column_def)
  also have "\<dots> = sum ?g {m..k div 2}"
    by (rule square_column_sum [OF m(3,2)]) simp
  finally have c: "column l l n k = sum_list (map ?g [m..<k div 2 + 1])"
    by (simp add: sum_list_upt atLeastLessThanSuc_atLeastAtMost del: upt_Suc)
  show ?thesis
    unfolding square_steps [OF m(1)] c
  proof (rule fold_add_val)
    show "acc_val (square_step l k i t) = acc_val t + ?g i" if "acc_val t + ?g i < acc_limit" for i t
      using that by (auto simp: square_step_def muladd_val mul2add_val split: if_splits)
  qed (use lim c in auto)
qed

theorem vli_square_val:
  assumes "length l = n" "0 < n" "n < 2 ^ 32"
  shows "length (uECC_vli_square l n) = 2 * n \<and> vli_val (uECC_vli_square l n) = vli_val l * vli_val l"
proof -
  let ?N = "int n"
  have N: "0 \<le> ?N" "?N < word_base" using assms by simp_all
  obtain m where n: "n = Suc m" using assms(2) by (cases n) auto
  let ?c = "\<lambda>k. fold (square_step l k)
    (takeWhile (\<lambda>i. i \<le> k \<and> i \<le> k - i) [(if k < n then 0 else k + 1 - n)..<k + 1])"
  have col: "acc_val (?c k t) = acc_val t + column l l n k"
    if "k \<in> set [0..<n * 2 - 1]" "acc_val t + column l l n k < acc_limit" for k t
    by (rule square_column) (use that in auto)
  obtain v r0 r1 r2 where r: "mult_columns ?c [0..<n * 2 - 1] ([], (0, 0, 0)) = (v, (r0, r1, r2))"
    by (rule prod_cases4)
  have s: "length v = n * 2 - 1 \<and> acc_val (r0, r1, r2) \<le> ?N * word_base
      \<and> vli_val v + word_base ^ (n * 2 - 1) * acc_val (r0, r1, r2)
      = vli_val [] + word_base ^ length ([] :: vli) * acc_val (0, 0, 0)
        + (\<Sum>k \<in> {length ([] :: vli)..<n * 2 - 1}. word_base ^ k * column l l n k)"
    by (rule mult_columns_val [OF col column_le N _ _ _ r]) (simp_all add: acc_val.simps)
  have z: "acc_val (0, 0, 0) = 0" by (simp add: acc_val.simps)
  have "vli_val v + word_base ^ length v * acc_val (r0, r1, r2) = vli_val l * vli_val l"
    using s unfolding vli_val_times [OF assms(1,1)] mult.commute [of 2 n] by (simp add: z)
  moreover have "vli_val l * vli_val l < word_base ^ n * word_base ^ n"
    using vli_val_lt [of l] assms by (intro mult_strict_mono) simp_all
  moreover have "word_base ^ n * word_base ^ n = word_base ^ Suc (length v)"
    using s n by (simp flip: power_add)
  ultimately have "vli_val (v @ [r0]) = vli_val l * vli_val l"
    using last_digit [of v r0 r1 r2] by simp
  moreover have "uECC_vli_square l n = v @ [r0]"
    using r by (simp add: uECC_vli_square_def Let_def del: upt_Suc)
  ultimately show ?thesis using s n by simp
qed

end
