(* ===== verification/Vli_Mod.thy ===== *)
theory Vli_Mod
  imports Vli_Mult
begin

unbundle bit_operations_syntax

text \<open>
  \<^verbatim>\<open>third_party/micro-ecc/uECC.c\<close>: arithmetic modulo an array.  Sum and difference, the
  reduction of a double-length product by shifting and subtracting the modulus, and the
  binary inverse, whose loop has no bound in the code: it is a partial function, and it is
  proved to return for every input and odd modulus, with the inverse up to the greatest
  common divisor.
\<close>

section \<open>The code\<close>

definition uECC_vli_modAdd :: "vli \<Rightarrow> vli \<Rightarrow> vli \<Rightarrow> vli" where
  "uECC_vli_modAdd left right mod' =
     (let (carry, result) = uECC_vli_add left right
      in if carry \<noteq> 0 \<or> uECC_vli_cmp_unsafe mod' result \<noteq> 1
         then snd (uECC_vli_sub result mod') else result)"

definition uECC_vli_modSub :: "vli \<Rightarrow> vli \<Rightarrow> vli \<Rightarrow> vli" where
  "uECC_vli_modSub left right mod' =
     (let (l_borrow, result) = uECC_vli_sub left right
      in if l_borrow \<noteq> 0 then snd (uECC_vli_add result mod') else result)"

text \<open>The two ways \<open>uECC_vli_mmod\<close> aligns the modulus with the product.\<close>

fun shl_words :: "nat \<Rightarrow> u32 \<Rightarrow> vli \<Rightarrow> vli" where
  "shl_words bit_shift carry [] = []"
| "shl_words bit_shift carry (x # xs) =
     (push_bit bit_shift x OR carry) # shl_words bit_shift (drop_bit (32 - bit_shift) x) xs"

definition mod_multiple_init :: "vli \<Rightarrow> nat \<Rightarrow> vli" where
  "mod_multiple_init mod' shift =
     (let word_shift = shift div 32; bit_shift = shift mod 32
      in if bit_shift > 0 then uECC_vli_clear word_shift @ shl_words bit_shift 0 mod'
         else uECC_vli_clear word_shift @ mod')"

text \<open>One shift right of the double-length multiple, in its two halves.\<close>

definition mod_multiple_shift :: "nat \<Rightarrow> vli \<Rightarrow> vli" where
  "mod_multiple_shift num_words mm =
     (let low = uECC_vli_rshift1 (take num_words mm);
          high = drop num_words mm;
          low' = low[num_words - 1 := low ! (num_words - 1) OR push_bit 31 (high ! 0)]
      in low' @ uECC_vli_rshift1 high)"

text \<open>The buffers \<open>v[0]\<close> and \<open>v[1]\<close>, the index of the current one, and the multiple.\<close>

type_synonym mmod_st = "vli \<times> vli \<times> u32 \<times> vli"

fun mmod_step :: "nat \<Rightarrow> mmod_st \<Rightarrow> mmod_st" where
  "mmod_step num_words (v0, v1, index, mm) =
     (let cur = (if index = 0 then v0 else v1);
          (borrow, diff) = uECC_vli_sub cur mm;
          v0' = (if index = 0 then v0 else diff);
          v1' = (if index = 0 then diff else v1);
          index' = (if index XOR borrow = 0 then 1 else 0)
      in (v0', v1', index', mod_multiple_shift num_words mm))"

definition uECC_vli_mmod :: "vli \<Rightarrow> vli \<Rightarrow> nat \<Rightarrow> vli" where
  "uECC_vli_mmod product mod' num_words =
     (let shift = num_words * 2 * 32 - uECC_vli_numBits mod' num_words;
          tmp = replicate (2 * num_words) 0;
          (v0, v1, index, mm) =
            (mmod_step num_words ^^ Suc shift) (tmp, product, 1, mod_multiple_init mod' shift)
      in take num_words (if index = 0 then v0 else v1))"

definition uECC_vli_modMult :: "vli \<Rightarrow> vli \<Rightarrow> vli \<Rightarrow> nat \<Rightarrow> vli" where
  "uECC_vli_modMult left right mod' num_words =
     uECC_vli_mmod (uECC_vli_mult left right num_words) mod' num_words"

definition EVEN :: "vli \<Rightarrow> bool" where
  "EVEN vli \<longleftrightarrow> vli ! 0 AND 1 = 0"

definition vli_modInv_update :: "vli \<Rightarrow> vli \<Rightarrow> nat \<Rightarrow> vli" where
  "vli_modInv_update uv mod' num_words =
     (let (carry, uv1) = (if \<not> EVEN uv then uECC_vli_add uv mod' else (0, uv));
          uv2 = uECC_vli_rshift1 uv1
      in if carry \<noteq> 0
         then uv2[num_words - 1 := uv2 ! (num_words - 1) OR HIGH_BIT_SET] else uv2)"

partial_function (option) modInv_loop ::
  "vli \<Rightarrow> nat \<Rightarrow> vli \<Rightarrow> vli \<Rightarrow> vli \<Rightarrow> vli \<Rightarrow> vli option" where
  "modInv_loop mod' num_words a b u v =
     (let cmpResult = uECC_vli_cmp_unsafe a b
      in if cmpResult = 0 then Some u
         else if EVEN a then
           modInv_loop mod' num_words (uECC_vli_rshift1 a) b (vli_modInv_update u mod' num_words) v
         else if EVEN b then
           modInv_loop mod' num_words a (uECC_vli_rshift1 b) u (vli_modInv_update v mod' num_words)
         else if cmpResult > 0 then
           (let a' = uECC_vli_rshift1 (snd (uECC_vli_sub a b));
                u1 = (if uECC_vli_cmp_unsafe u v < 0 then snd (uECC_vli_add u mod') else u);
                u2 = snd (uECC_vli_sub u1 v)
            in modInv_loop mod' num_words a' b (vli_modInv_update u2 mod' num_words) v)
         else
           (let b' = uECC_vli_rshift1 (snd (uECC_vli_sub b a));
                v1 = (if uECC_vli_cmp_unsafe v u < 0 then snd (uECC_vli_add v mod') else v);
                v2 = snd (uECC_vli_sub v1 u)
            in modInv_loop mod' num_words a b' u (vli_modInv_update v2 mod' num_words)))"

definition uECC_vli_modInv :: "vli \<Rightarrow> vli \<Rightarrow> nat \<Rightarrow> vli option" where
  "uECC_vli_modInv input mod' num_words =
     (if uECC_vli_isZero input then Some (uECC_vli_clear num_words)
      else modInv_loop mod' num_words input mod'
             ((uECC_vli_clear num_words)[0 := 1]) (uECC_vli_clear num_words))"

section \<open>Sum and difference\<close>

lemma vli_val_vli_of_small: "0 \<le> v \<Longrightarrow> v < word_base ^ n \<Longrightarrow> vli_val (vli_of n v) = v"
  by (simp add: vli_val_of)

lemma vli_lt: "length v = n \<Longrightarrow> vli_val v < word_base ^ n"
  using vli_val_lt [of v] by simp

lemma vli_of_add_base: "vli_of n (v + word_base ^ n) = vli_of n v"
  by (rule vli_of_cong) simp

lemma vli_of_diff_base: "vli_of n (v - word_base ^ n) = vli_of n v"
  using vli_of_add_base [of n "v - word_base ^ n"] by simp

lemma modAdd_eq:
  assumes len: "length left = n" "length right = n" "length m = n"
    and lt: "vli_val left < vli_val m" "vli_val right < vli_val m"
  shows "uECC_vli_modAdd left right m = vli_of n ((vli_val left + vli_val right) mod vli_val m)"
proof -
  let ?s = "vli_val left + vli_val right"
  have B: "vli_val m < word_base ^ n" by (rule vli_lt [OF len(3)])
  have sub: "snd (uECC_vli_sub (vli_of n ?s) m) = vli_of n (?s - vli_val m)"
    by (simp add: vli_sub_eq len) (rule vli_of_cong, simp add: vli_val_of mod_diff_left_eq)
  show ?thesis
  proof (cases "?s < vli_val m")
    case True
    then have "vli_val (vli_of n ?s) = ?s" using B by (intro vli_val_vli_of_small) simp_all
    then show ?thesis
      using True B by (simp add: uECC_vli_modAdd_def vli_add_eq len cmp_unsafe_iffs)
  next
    case False
    have md: "?s mod vli_val m = ?s - vli_val m"
    proof -
      have "?s mod vli_val m = (?s - vli_val m) mod vli_val m" by simp
      also have "\<dots> = ?s - vli_val m" using False lt by (intro mod_pos_pos_trivial) simp_all
      finally show ?thesis .
    qed
    have "vli_val (vli_of n ?s) = ?s" if "?s < word_base ^ n"
      using that by (intro vli_val_vli_of_small) simp_all
    then show ?thesis
      using False sub unfolding md uECC_vli_modAdd_def
      by (auto simp: vli_add_eq len cmp_unsafe_iffs)
  qed
qed

lemma modSub_eq:
  assumes len: "length left = n" "length right = n" "length m = n"
    and lt: "vli_val left < vli_val m" "vli_val right < vli_val m"
  shows "uECC_vli_modSub left right m = vli_of n ((vli_val left - vli_val right) mod vli_val m)"
proof -
  let ?d = "vli_val left - vli_val right"
  have add: "snd (uECC_vli_add (vli_of n ?d) m) = vli_of n (?d + vli_val m)"
    by (simp add: vli_add_eq len) (rule vli_of_cong, simp add: vli_val_of mod_add_left_eq)
  show ?thesis
  proof (cases "vli_val left < vli_val right")
    case True
    have "?d mod vli_val m = (?d + vli_val m) mod vli_val m" by simp
    also have "\<dots> = ?d + vli_val m"
      using True lt vli_val_nonneg [of left] by (intro mod_pos_pos_trivial) linarith+
    finally show ?thesis using True add by (simp add: uECC_vli_modSub_def vli_sub_eq len)
  next
    case False
    then have "?d mod vli_val m = ?d"
      using lt vli_val_nonneg [of right] by (intro mod_pos_pos_trivial) linarith+
    then show ?thesis using False by (simp add: uECC_vli_modSub_def vli_sub_eq len)
  qed
qed

section \<open>Halving\<close>

text \<open>Storing a carry in the free top bit.\<close>

lemma set_high_val:
  assumes len: "length xs = Suc m" and c: "c = 0 \<or> c = 2 ^ 31"
    and lt: "vli_val xs < 2147483648 * word_base ^ m"
  shows "vli_val (xs[m := xs ! m OR c]) = vli_val xs + uint c * word_base ^ m"
proof -
  obtain ys y where xs: "xs = ys @ [y]" "length ys = m"
    using len by (metis append_butlast_last_id length_butlast diff_Suc_1 list.size(3) nat.distinct(1))
  have "vli_val xs = vli_val ys + word_base ^ m * uint y" by (simp add: xs vli_val_append)
  then have "word_base ^ m * uint y < word_base ^ m * 2147483648"
    using lt vli_val_nonneg [of ys] by linarith
  then have y: "uint y < 2147483648" by simp
  have "y AND push_bit 31 1 = 0"
  proof (rule bit_word_eqI)
    fix i
    have "\<not> bit (uint y) 31"
      using y by (simp add: bit_iff_odd)
    then have "\<not> bit y 31" by (simp add: bit_uint_iff)
    then show "bit (y AND push_bit 31 1) i \<longleftrightarrow> bit (0 :: u32) i"
      unfolding bit_and_iff bit_push_bit_iff
      by (cases "i = 31") (auto dest: bit_imp_le_length)
  qed
  then have "y AND 2 ^ 31 = 0" by (simp add: push_bit_eq_mult)
  then have "y AND c = 0" using c by auto
  then have "y OR c = y + c" by (rule disjunctive_add_eq_or [symmetric])
  moreover have "uint (y + c) = uint y + uint c"
    using y c by (auto simp: uint_word_ariths)
  ultimately show ?thesis
    unfolding xs by (simp add: xs(2) nth_append list_update_append vli_val_append algebra_simps)
qed

lemma EVEN_iff: "v \<noteq> [] \<Longrightarrow> EVEN v \<longleftrightarrow> even (vli_val v)"
proof (cases v)
  case (Cons x xs)
  have "EVEN v \<longleftrightarrow> even x"
    using Cons by (simp add: EVEN_def and_one_eq even_iff_mod_2_eq_zero)
  also have "\<dots> \<longleftrightarrow> even (uint x)" using bit_uint_iff [of x 0] by (simp add: bit_0)
  finally show ?thesis using Cons by simp
qed simp

definition half_mod :: "int \<Rightarrow> int \<Rightarrow> int" where
  "half_mod m u = (if even u then u div 2 else (u + m) div 2)"

lemma half_mod_bounds:
  assumes "odd m" "0 \<le> u" "u < m"
  shows "0 \<le> half_mod m u" and "half_mod m u < m" and "2 * half_mod m u mod m = u"
  using assms by (auto simp: half_mod_def elim!: evenE oddE)

lemma modInv_update_eq:
  assumes len: "length u = n" "length m = n" and m: "odd (vli_val m)" and u: "vli_val u < vli_val m"
  shows "vli_modInv_update u m n = vli_of n (half_mod (vli_val m) (vli_val u))"
proof (cases n)
  case 0
  then show ?thesis using assms by simp
next
  case (Suc k)
  have ne: "u \<noteq> []" using len Suc by auto
  show ?thesis
  proof (cases "even (vli_val u)")
    case True
    then show ?thesis
      using len by (simp add: vli_modInv_update_def EVEN_iff [OF ne] half_mod_def vli_rshift1_eq)
  next
    case False
    let ?s = "vli_val u + vli_val m"
    let ?w = "vli_of n ?s"
    have B: "vli_val m < word_base ^ n" by (rule vli_lt [OF len(2)])
    show ?thesis
    proof (cases "?s < word_base ^ n")
      case True
      then have "vli_val ?w = ?s" by (intro vli_val_vli_of_small) simp_all
      then show ?thesis
        using False True len
        by (simp add: vli_modInv_update_def EVEN_iff [OF ne] half_mod_def vli_rshift1_eq vli_add_eq)
    next
      case carry: False
      have "?w = vli_of n (?s - word_base ^ n)" by (simp add: vli_of_diff_base)
      then have w: "vli_val ?w = ?s - word_base ^ n"
        using carry u B by (simp add: vli_val_vli_of_small)
      have e: "word_base ^ n = 2 * (2147483648 * word_base ^ k)" by (simp add: Suc)
      have half: "vli_val ?w div 2 = ?s div 2 - 2147483648 * word_base ^ k"
        unfolding w e by simp
      have "vli_val (uECC_vli_rshift1 ?w) = vli_val ?w div 2" by (rule rshift1_val)
      moreover have "vli_val ?w div 2 < 2147483648 * word_base ^ k"
        using w u B e by linarith
      ultimately have "vli_val ((uECC_vli_rshift1 ?w)[k := uECC_vli_rshift1 ?w ! k OR HIGH_BIT_SET])
          = ?s div 2"
        using set_high_val [of "uECC_vli_rshift1 ?w" k HIGH_BIT_SET] half Suc
        by (simp add: HIGH_BIT_SET_def)
      moreover have "0 \<le> ?s div 2" "?s div 2 < word_base ^ n"
        using u B vli_val_nonneg [of u] vli_val_nonneg [of m] by linarith+
      ultimately have "(uECC_vli_rshift1 ?w)[k := uECC_vli_rshift1 ?w ! k OR HIGH_BIT_SET]
          = vli_of n (?s div 2)"
        by (intro vli_of_eqI) (simp_all add: Suc)
      then show ?thesis
        using False carry len
        by (simp add: vli_modInv_update_def EVEN_iff [OF ne] half_mod_def vli_add_eq Suc)
    qed
  qed
qed

section \<open>The inverse\<close>

lemma modInv_sub_eq:
  assumes len: "length u = n" "length v = n" "length m = n"
    and lt: "vli_val u < vli_val m" "vli_val v < vli_val m"
  shows "snd (uECC_vli_sub
      (if uECC_vli_cmp_unsafe u v < 0 then snd (uECC_vli_add u m) else u) v)
    = vli_of n ((vli_val u - vli_val v) mod vli_val m)"
proof (cases "vli_val u < vli_val v")
  case True
  have "(vli_val u - vli_val v) mod vli_val m
      = (vli_val u - vli_val v + vli_val m) mod vli_val m" by simp
  also have "\<dots> = vli_val u + vli_val m - vli_val v"
    by (subst mod_pos_pos_trivial) (use True lt vli_val_nonneg [of u] in linarith)+
  finally have md: "(vli_val u - vli_val v) mod vli_val m = vli_val u + vli_val m - vli_val v" .
  have "snd (uECC_vli_sub (vli_of n (vli_val u + vli_val m)) v)
      = vli_of n (vli_val u + vli_val m - vli_val v)"
    by (simp add: vli_sub_eq len) (rule vli_of_cong, simp add: vli_val_of mod_diff_left_eq)
  then show ?thesis using True unfolding md by (simp add: cmp_unsafe_iffs vli_add_eq len)
next
  case False
  then have "(vli_val u - vli_val v) mod vli_val m = vli_val u - vli_val v"
    using lt vli_val_nonneg [of v] by (intro mod_pos_pos_trivial) linarith+
  then show ?thesis using False by (simp add: cmp_unsafe_iffs vli_sub_eq len)
qed

text \<open>The relation the loop keeps between a pair \<open>(a, u)\<close> and the input \<open>x\<close>.\<close>

definition inv_rel :: "int \<Rightarrow> int \<Rightarrow> int \<Rightarrow> int \<Rightarrow> bool" where
  "inv_rel M x A U \<longleftrightarrow> 0 \<le> U \<and> U < M \<and> M dvd U * x - A"

lemma odd_dvd_double:
  fixes M :: int
  assumes "odd M" "M dvd 2 * k"
  shows "M dvd k"
proof -
  have "coprime M 2" using assms(1) by simp
  then show ?thesis using assms(2) by (simp add: coprime_dvd_mult_right_iff)
qed

lemma inv_rel_half:
  assumes r: "inv_rel M x A U" and M: "odd M" and A: "even A"
  shows "inv_rel M x (A div 2) (half_mod M U)"
proof -
  have U: "0 \<le> U" "U < M" "M dvd U * x - A" using r by (simp_all add: inv_rel_def)
  obtain j where j: "2 * half_mod M U = U + M * j"
    by (cases "even U") (auto simp: half_mod_def M intro: that [of 0] that [of 1])
  have "2 * (half_mod M U * x - A div 2) = (2 * half_mod M U) * x - A"
    using A by (simp add: algebra_simps)
  also have "\<dots> = (U * x - A) + M * (j * x)" unfolding j by (simp add: algebra_simps)
  finally have e: "2 * (half_mod M U * x - A div 2) = (U * x - A) + M * (j * x)" .
  have "M dvd half_mod M U * x - A div 2"
    by (rule odd_dvd_double [OF M]) (unfold e, intro dvd_add U dvd_triv_left)
  then show ?thesis
    using half_mod_bounds(1,2) [OF M U(1,2)] unfolding inv_rel_def by blast
qed

lemma inv_rel_diff:
  assumes "inv_rel M x A U" "inv_rel M x B V"
  shows "inv_rel M x (A - B) ((U - V) mod M)"
proof -
  have U: "0 \<le> U" "U < M" "M dvd U * x - A" "M dvd V * x - B"
    using assms by (simp_all add: inv_rel_def)
  have e: "(U - V) mod M * x - (A - B)
      = (U * x - A) - (V * x - B) - M * ((U - V) div M * x)"
    by (simp add: minus_div_mult_eq_mod [symmetric] algebra_simps)
  have "M dvd (U - V) mod M * x - (A - B)" unfolding e by (intro dvd_diff U dvd_triv_left)
  moreover have "0 \<le> (U - V) mod M" "(U - V) mod M < M" using U by simp_all
  ultimately show ?thesis by (simp add: inv_rel_def)
qed

lemma gcd_half:
  fixes A :: int
  assumes "even A" "odd B"
  shows "gcd (A div 2) B = gcd A B"
proof -
  have "gcd (2 * (A div 2)) B = gcd (A div 2) B"
    by (rule gcd_mult_left_left_cancel) (use assms(2) in simp)
  then show ?thesis using assms(1) by simp
qed

lemma gcd_half_diff:
  fixes A :: int
  assumes "odd A" "odd B"
  shows "gcd ((A - B) div 2) B = gcd A B"
  using gcd_half [of "A - B" B] assms by (simp add: gcd_diff1)

lemma modInv_update_rel:
  assumes "length u = n" "length m = n" "odd (vli_val m)" "inv_rel (vli_val m) x A (vli_val u)" "even A"
  shows "length (vli_modInv_update u m n) = n"
    and "inv_rel (vli_val m) x (A div 2) (vli_val (vli_modInv_update u m n))"
proof -
  have u: "vli_val u < vli_val m" using assms(4) by (simp add: inv_rel_def)
  note upd = modInv_update_eq [OF assms(1-3) u]
  show "length (vli_modInv_update u m n) = n" by (simp add: upd)
  have "vli_val (vli_modInv_update u m n) = half_mod (vli_val m) (vli_val u)"
    unfolding upd using half_mod_bounds(1,2) [OF assms(3) vli_val_nonneg u] vli_lt [OF assms(2)]
    by (intro vli_val_vli_of_small) simp_all
  then show "inv_rel (vli_val m) x (A div 2) (vli_val (vli_modInv_update u m n))"
    using inv_rel_half [OF assms(4,3,5)] by simp
qed

lemma modInv_sub_rel:
  assumes "length u = n" "length v = n" "length m = n"
    and "inv_rel (vli_val m) x A (vli_val u)" "inv_rel (vli_val m) x B (vli_val v)"
  defines "w \<equiv> snd (uECC_vli_sub
      (if uECC_vli_cmp_unsafe u v < 0 then snd (uECC_vli_add u m) else u) v)"
  shows "length w = n" and "inv_rel (vli_val m) x (A - B) (vli_val w)"
proof -
  have lt: "vli_val u < vli_val m" "vli_val v < vli_val m" using assms(4,5) by (simp_all add: inv_rel_def)
  note w = modInv_sub_eq [OF assms(1-3) lt, folded w_def]
  show "length w = n" by (simp add: w)
  have pos: "0 < vli_val m" using lt vli_val_nonneg [of u] by linarith
  have "vli_val w = (vli_val u - vli_val v) mod vli_val m"
    unfolding w using pos vli_lt [OF assms(3)]
    by (intro vli_val_vli_of_small) (simp, meson pos_mod_bound order.strict_trans)
  then show "inv_rel (vli_val m) x (A - B) (vli_val w)" using inv_rel_diff [OF assms(4,5)] by simp
qed

text \<open>The half difference of two odd numbers, the larger first.\<close>

lemma half_diff_val:
  assumes "length a = n" "length b = n" "vli_val b < vli_val a"
  shows "length (uECC_vli_rshift1 (snd (uECC_vli_sub a b))) = n"
    and "vli_val (uECC_vli_rshift1 (snd (uECC_vli_sub a b))) = (vli_val a - vli_val b) div 2"
proof -
  have "vli_val a - vli_val b < word_base ^ n"
    using vli_lt [OF assms(1)] vli_val_nonneg [of b] by linarith
  then have "vli_val (snd (uECC_vli_sub a b)) = vli_val a - vli_val b"
    using assms by (simp add: vli_sub_eq vli_val_vli_of_small)
  then show "vli_val (uECC_vli_rshift1 (snd (uECC_vli_sub a b))) = (vli_val a - vli_val b) div 2"
    by (simp add: rshift1_val)
  show "length (uECC_vli_rshift1 (snd (uECC_vli_sub a b))) = n"
    using assms by (simp add: vli_sub_eq)
qed

lemma modInv_loop_returns:
  assumes "length a = n" "length b = n" "length u = n" "length v = n" "length m = n" "0 < n"
    and "odd (vli_val m)" "0 < vli_val a" "0 < vli_val b" "odd (vli_val a) \<or> odd (vli_val b)"
    and "inv_rel (vli_val m) x (vli_val a) (vli_val u)"
    and "inv_rel (vli_val m) x (vli_val b) (vli_val v)"
  shows "\<exists>r. modInv_loop m n a b u v = Some r \<and> length r = n
    \<and> inv_rel (vli_val m) x (gcd (vli_val a) (vli_val b)) (vli_val r)"
  using assms
proof (induction "nat (vli_val a + vli_val b)" arbitrary: a b u v rule: less_induct)
  case less
  note len = less.prems(1-5) and n = less.prems(6) and M = less.prems(7) and pos = less.prems(8,9)
    and par = less.prems(10) and ra = less.prems(11) and rb = less.prems(12)
  have ne: "a \<noteq> []" "b \<noteq> []" using len n by auto
  have lab: "length a = length b" using len by simp
  note ev = EVEN_iff [OF ne(1)] EVEN_iff [OF ne(2)] and cmps = cmp_unsafe_iffs [OF lab]
  consider (eq) "vli_val a = vli_val b" | (ea) "vli_val a \<noteq> vli_val b" "even (vli_val a)"
    | (eb) "vli_val a \<noteq> vli_val b" "odd (vli_val a)" "even (vli_val b)"
    | (gt) "vli_val b < vli_val a" "odd (vli_val a)" "odd (vli_val b)"
    | (lt) "vli_val a < vli_val b" "odd (vli_val a)" "odd (vli_val b)" by linarith
  then show ?case
  proof cases
    case eq
    then show ?thesis using len ra pos by (subst modInv_loop.simps) (simp add: cmps)
  next
    case ea
    note upd = modInv_update_rel [OF len(3,5) M ra ea(2)]
    have "\<exists>r. modInv_loop m n (uECC_vli_rshift1 a) b (vli_modInv_update u m n) v = Some r
        \<and> length r = n
        \<and> inv_rel (vli_val m) x (gcd (vli_val (uECC_vli_rshift1 a)) (vli_val b)) (vli_val r)"
      by (rule less.hyps) (use len n M pos par rb upd ea in \<open>auto simp: rshift1_val\<close>)
    then show ?thesis
      using ea par by (subst modInv_loop.simps) (simp add: cmps ev rshift1_val gcd_half)
  next
    case eb
    note upd = modInv_update_rel [OF len(4,5) M rb eb(3)]
    have "\<exists>r. modInv_loop m n a (uECC_vli_rshift1 b) u (vli_modInv_update v m n) = Some r
        \<and> length r = n
        \<and> inv_rel (vli_val m) x (gcd (vli_val a) (vli_val (uECC_vli_rshift1 b))) (vli_val r)"
      by (rule less.hyps) (use len n M pos par ra upd eb in \<open>auto simp: rshift1_val\<close>)
    moreover have "gcd (vli_val a) (vli_val b div 2) = gcd (vli_val a) (vli_val b)"
      using gcd_half [OF eb(3,2)] by (simp add: gcd.commute)
    ultimately show ?thesis
      using eb by (subst modInv_loop.simps) (simp add: cmps ev rshift1_val)
  next
    case gt
    note sub = modInv_sub_rel [OF len(3,4,5) ra rb] and hd = half_diff_val [OF len(1,2) gt(1)]
    have e: "even (vli_val a - vli_val b)" using gt by simp
    then have p: "0 < (vli_val a - vli_val b) div 2" using gt(1) by presburger
    note upd = modInv_update_rel [OF sub(1) len(5) M sub(2) e]
    have "\<exists>r. modInv_loop m n (uECC_vli_rshift1 (snd (uECC_vli_sub a b))) b
        (vli_modInv_update (snd (uECC_vli_sub
          (if uECC_vli_cmp_unsafe u v < 0 then snd (uECC_vli_add u m) else u) v)) m n) v = Some r
        \<and> length r = n \<and> inv_rel (vli_val m) x
          (gcd (vli_val (uECC_vli_rshift1 (snd (uECC_vli_sub a b)))) (vli_val b)) (vli_val r)"
      by (rule less.hyps) (use len n M pos rb upd gt hd p in auto)
    then show ?thesis
      unfolding hd gcd_half_diff [OF gt(2,3)] using gt
      by (subst modInv_loop.simps) (simp add: cmps ev Let_def)
  next
    case lt
    note sub = modInv_sub_rel [OF len(4,3,5) rb ra] and hd = half_diff_val [OF len(2,1) lt(1)]
    have e: "even (vli_val b - vli_val a)" using lt by simp
    then have p: "0 < (vli_val b - vli_val a) div 2" using lt(1) by presburger
    note upd = modInv_update_rel [OF sub(1) len(5) M sub(2) e]
    have "\<exists>r. modInv_loop m n a (uECC_vli_rshift1 (snd (uECC_vli_sub b a))) u
        (vli_modInv_update (snd (uECC_vli_sub
          (if uECC_vli_cmp_unsafe v u < 0 then snd (uECC_vli_add v m) else v) u)) m n) = Some r
        \<and> length r = n \<and> inv_rel (vli_val m) x
          (gcd (vli_val a) (vli_val (uECC_vli_rshift1 (snd (uECC_vli_sub b a))))) (vli_val r)"
      by (rule less.hyps) (use len n M pos ra upd lt hd p in auto)
    then show ?thesis
      unfolding hd gcd.commute [of "vli_val a"] gcd_half_diff [OF lt(3,2)] using lt
      by (subst modInv_loop.simps) (simp add: cmps ev Let_def gcd.commute)
  qed
qed

lemma vli_clear_simps [simp]:
  "length (uECC_vli_clear n) = n" "vli_val (uECC_vli_clear n) = 0"
  by (simp_all add: uECC_vli_clear_def)

lemma vli_one: "0 < n \<Longrightarrow> length ((uECC_vli_clear n)[0 := 1]) = n
    \<and> vli_val ((uECC_vli_clear n)[0 := 1]) = 1"
  by (cases n) (simp_all add: uECC_vli_clear_def)

theorem modInv_spec:
  assumes "length input = n" "length m = n" "0 < n" "odd (vli_val m)" "1 < vli_val m"
  shows "\<exists>r. uECC_vli_modInv input m n = Some r \<and> length r = n \<and> vli_val r < vli_val m
    \<and> vli_val r * vli_val input mod vli_val m = gcd (vli_val input) (vli_val m) mod vli_val m"
proof (cases "vli_val input = 0")
  case True
  then show ?thesis using assms by (simp add: uECC_vli_modInv_def isZero_iff)
next
  case False
  then have pos: "0 < vli_val input" using vli_val_nonneg [of input] by linarith
  have r1: "inv_rel (vli_val m) (vli_val input) (vli_val input) 1"
    and r0: "inv_rel (vli_val m) (vli_val input) (vli_val m) 0"
    using assms(5) by (simp_all add: inv_rel_def)
  have "\<exists>r. modInv_loop m n input m ((uECC_vli_clear n)[0 := 1]) (uECC_vli_clear n) = Some r
      \<and> length r = n
      \<and> inv_rel (vli_val m) (vli_val input) (gcd (vli_val input) (vli_val m)) (vli_val r)"
    by (rule modInv_loop_returns) (use assms pos vli_one [OF assms(3)] r0 r1 in simp_all)
  then obtain r where r: "modInv_loop m n input m ((uECC_vli_clear n)[0 := 1]) (uECC_vli_clear n) = Some r"
      "length r = n" "inv_rel (vli_val m) (vli_val input) (gcd (vli_val input) (vli_val m)) (vli_val r)"
    by blast
  have "uECC_vli_modInv input m n = Some r"
    using False r(1) by (simp add: uECC_vli_modInv_def isZero_iff)
  moreover have "vli_val r * vli_val input mod vli_val m
      = gcd (vli_val input) (vli_val m) mod vli_val m"
    using r(3) unfolding inv_rel_def mod_eq_dvd_iff by blast
  ultimately show ?thesis using r(2,3) unfolding inv_rel_def by blast
qed

section \<open>Reduction by shifting and subtracting\<close>

lemma mod_multiple_shift_val:
  assumes "length mm = 2 * n" "n = Suc k"
  shows "length (mod_multiple_shift n mm) = 2 * n
    \<and> vli_val (mod_multiple_shift n mm) = vli_val mm div 2"
proof -
  let ?lo = "take n mm" and ?hi = "drop n mm"
  let ?r = "uECC_vli_rshift1 ?lo"
  obtain h hs where hi: "?hi = h # hs" using assms by (cases ?hi) auto
  have len: "length ?lo = Suc k" "length ?hi = n" "length ?r = Suc k" using assms by simp_all
  have "mm ! n = ?hi ! 0" using assms by simp
  then have h0: "mm ! n = h" by (simp only: hi nth_Cons_0)
  have lo: "vli_val ?lo < 2 * (2147483648 * word_base ^ k)"
    using vli_lt [OF len(1)] by simp
  have "vli_val ?r < 2147483648 * word_base ^ k" unfolding rshift1_val using lo by linarith
  then have v: "vli_val (?r[k := ?r ! k OR push_bit 31 h])
      = vli_val ?lo div 2 + uint (push_bit 31 h) * word_base ^ k"
    using set_high_val [OF len(3) push_31_cases] by (simp add: rshift1_val)
  have "uint h mod 2 = vli_val ?hi mod 2" unfolding hi by (simp add: mod_add_eq [symmetric])
  then have p: "uint (push_bit 31 h) = (vli_val ?hi mod 2) * 2147483648"
    by (simp add: uint_push_31)
  have "vli_val mm = vli_val ?lo + word_base * word_base ^ k * vli_val ?hi"
    using vli_val_append [of ?lo ?hi] len by simp
  then have "vli_val mm div 2 = vli_val ?lo div 2 + vli_val ?hi mod 2 * 2147483648 * word_base ^ k
      + word_base * word_base ^ k * (vli_val ?hi div 2)"
    using half_leading [of "vli_val ?lo" "vli_val ?hi" "word_base ^ k" 0] by simp
  then show ?thesis
    using len v assms h0
    by (simp add: mod_multiple_shift_def Let_def vli_val_append p rshift1_val)
qed

text \<open>
  The multiple starts at \<open>m * 2 ^ s\<close> and is halved after each step; the current buffer stays
  congruent to the product and below twice the multiple.
\<close>

fun mmod_cur :: "mmod_st \<Rightarrow> vli" where
  "mmod_cur (v0, v1, index, mm) = (if index = 0 then v0 else v1)"

fun mmod_inv :: "nat \<Rightarrow> int \<Rightarrow> int \<Rightarrow> int \<Rightarrow> mmod_st \<Rightarrow> bool" where
  "mmod_inv n P M mult (v0, v1, index, mm) \<longleftrightarrow>
     length v0 = 2 * n \<and> length v1 = 2 * n \<and> length mm = 2 * n \<and> (index = 0 \<or> index = 1)
     \<and> vli_val mm = mult \<and> vli_val (mmod_cur (v0, v1, index, mm)) < 2 * mult
     \<and> vli_val (mmod_cur (v0, v1, index, mm)) mod M = P mod M"

lemma mmod_step_cur:
  assumes i: "mmod_inv n P M (M * c) st" and n: "n = Suc k"
  shows "\<exists>v0 v1 index mm. mmod_step n st = (v0, v1, index, mm)
    \<and> length v0 = 2 * n \<and> length v1 = 2 * n \<and> length mm = 2 * n \<and> (index = 0 \<or> index = 1)
    \<and> vli_val mm = (M * c) div 2 \<and> vli_val (mmod_cur (v0, v1, index, mm)) < M * c
    \<and> vli_val (mmod_cur (v0, v1, index, mm)) mod M = P mod M"
proof -
  obtain v0 v1 index mm where st: "st = (v0, v1, index, mm)" by (cases st) auto
  define cur where "cur = (if index = 0 then v0 else v1)"
  have len: "length cur = 2 * n" "length mm = 2 * n" "length v0 = 2 * n" "length v1 = 2 * n"
    and ix: "index = 0 \<or> index = 1" and mm: "vli_val mm = M * c"
    and lt: "vli_val cur < 2 * (M * c)" and cg: "vli_val cur mod M = P mod M"
    using i by (auto simp: st cur_def)
  define diff where "diff = vli_of (2 * n) (vli_val cur - M * c)"
  have sub: "uECC_vli_sub cur mm = (if vli_val cur < M * c then 1 else 0, diff)"
    by (simp add: vli_sub_eq [OF len(1,2)] mm diff_def)
  have step: "mmod_step n st = (if index = 0 then v0 else diff, if index = 0 then diff else v1,
      if index XOR (if vli_val cur < M * c then 1 else 0) = 0 then 1 else 0, mod_multiple_shift n mm)"
    unfolding st by (simp add: sub cur_def [symmetric] Let_def)
  have d: "vli_val diff = vli_val cur - M * c" if "\<not> vli_val cur < M * c"
    unfolding diff_def using that vli_lt [OF len(1)] vli_val_nonneg [of mm] mm
    by (intro vli_val_vli_of_small) linarith+
  have "(vli_val cur - M * c) mod M = P mod M"
    using cg by (simp add: mod_diff_eq [symmetric])
  then show ?thesis
    unfolding step using ix len mod_multiple_shift_val [OF len(2) n] mm lt cg d
    by (auto simp: cur_def diff_def)
qed

lemma mmod_steps:
  "n = Suc k \<Longrightarrow> mmod_inv n P M (M * 2 ^ s) st \<Longrightarrow>
   vli_val (mmod_cur ((mmod_step n ^^ Suc s) st)) < M
   \<and> vli_val (mmod_cur ((mmod_step n ^^ Suc s) st)) mod M = P mod M
   \<and> length (mmod_cur ((mmod_step n ^^ Suc s) st)) = 2 * n"
proof (induction s arbitrary: st)
  case 0
  then show ?case using mmod_step_cur [of n P M 1 st k] by auto
next
  case (Suc s)
  have "(M * 2 ^ Suc s) div 2 = M * 2 ^ s" by simp
  then have "mmod_inv n P M (M * 2 ^ s) (mmod_step n st)"
    using mmod_step_cur [OF Suc.prems(2,1)] by auto
  then show ?case
    using Suc.IH [OF Suc.prems(1)] by (simp only: funpow_Suc_right [of "Suc s"] o_apply)
qed

text \<open>A modulus with its top bit set, as both moduli of the curve have.\<close>

lemma numBits_full:
  assumes "length m = n" "0 < n" "2 ^ (32 * n - 1) \<le> vli_val m"
  shows "uECC_vli_numBits m n = 32 * n"
proof -
  have "0 < vli_val m" using assms(3) by (meson order.strict_trans2 zero_less_numeral zero_less_power)
  note nb = numBits_bounds [OF this, unfolded assms(1)]
  have "(2 :: int) ^ (32 * n - 1) < 2 ^ uECC_vli_numBits m n" using nb(3) assms(3) by linarith
  then have "32 * n - 1 < uECC_vli_numBits m n" by (rule power_less_imp_less_exp [rotated]) simp
  then show ?thesis using nb(4) by linarith
qed

theorem vli_mmod_eq:
  assumes len: "length product = 2 * n" "length m = n" and n: "0 < n"
    and top: "2 ^ (32 * n - 1) \<le> vli_val m"
  shows "uECC_vli_mmod product m n = vli_of n (vli_val product mod vli_val m)"
proof -
  obtain k where k: "n = Suc k" using n by (cases n) auto
  have B: "(2 :: int) ^ (32 * n) = word_base ^ n" by (simp add: power_mult)
  have h: "(2 :: int) ^ (32 * n) = 2 * 2 ^ (32 * n - 1)" using n by (simp flip: power_Suc)
  have pos: "0 < vli_val m" using top by (meson order.strict_trans2 zero_less_numeral zero_less_power)
  have shift: "n * 2 * 32 - uECC_vli_numBits m n = 32 * n"
    using numBits_full [OF len(2) n top] by simp
  have init: "mod_multiple_init m (32 * n) = uECC_vli_clear n @ m"
    by (simp add: mod_multiple_init_def)
  let ?st = "(replicate (2 * n) 0, product, 1, uECC_vli_clear n @ m)"
  have "vli_val product < word_base ^ n * word_base ^ n"
    using vli_lt [OF len(1)] by (simp add: mult_2 power_add)
  also have "\<dots> \<le> 2 * (vli_val m * word_base ^ n)"
    using top h unfolding B [symmetric] by simp
  finally have "mmod_inv n (vli_val product) (vli_val m) (vli_val m * 2 ^ (32 * n)) ?st"
    using len by (simp add: vli_val_append B mult.commute [of "word_base ^ n"])
  note r = mmod_steps [OF k this]
  define cur where "cur = mmod_cur ((mmod_step n ^^ Suc (32 * n)) ?st)"
  have "uECC_vli_mmod product m n = take n cur"
    unfolding uECC_vli_mmod_def shift init cur_def Let_def
    by (cases "(mmod_step n ^^ Suc (32 * n)) ?st") (simp del: funpow.simps)
  moreover have c: "vli_val cur < vli_val m" "vli_val cur mod vli_val m = vli_val product mod vli_val m"
      "length cur = 2 * n" using r by (simp_all only: cur_def)
  moreover have "vli_val cur = vli_val product mod vli_val m" using c by simp
  moreover have "vli_val (take n cur) = vli_val cur"
  proof -
    have e: "vli_val cur = vli_val (take n cur) + word_base ^ n * vli_val (drop n cur)"
      using vli_val_split [of cur n] c(3) by simp
    have "\<not> 1 \<le> vli_val (drop n cur)"
    proof
      assume "1 \<le> vli_val (drop n cur)"
      then have "word_base ^ n * 1 \<le> word_base ^ n * vli_val (drop n cur)"
        by (intro mult_left_mono) simp_all
      then show False
        using e c(1) vli_lt [OF len(2)] vli_val_nonneg [of "take n cur"] by linarith
    qed
    then have "vli_val (drop n cur) = 0" using vli_val_nonneg [of "drop n cur"] by linarith
    then show ?thesis using e by simp
  qed
  ultimately show ?thesis
    using vli_of_val [of "take n cur" n] by simp
qed

theorem vli_modMult_eq:
  assumes "length left = n" "length right = n" "length m = n" "0 < n" "n < 2 ^ 32"
    and "2 ^ (32 * n - 1) \<le> vli_val m"
  shows "uECC_vli_modMult left right m n = vli_of n (vli_val left * vli_val right mod vli_val m)"
  using assms by (simp add: uECC_vli_modMult_def vli_mmod_eq vli_mult_val)

end
