(* ===== verification/P256.thy ===== *)
theory P256
  imports Vli_Mod "HOL-Library.Monad_Syntax"
begin

unbundle bit_operations_syntax

text \<open>
  \<^verbatim>\<open>third_party/micro-ecc/curve-specific.inc\<close>, the curve secp256r1, and the point operations
  of \<^verbatim>\<open>uECC.c\<close> that verification uses.  The reduction modulo the field prime folds a
  sixteen-word product with eight word rearrangements and a final loop; it is proved to be
  the remainder for every product, the loop included.  On residues the field routines are
  the ring operations, so that each point operation is a tuple of polynomials.

  The curve record keeps the data of the C structure; its three function pointers have one
  value in this build and are called directly.
\<close>

section \<open>The curve\<close>

record uECC_Curve_t =
  cv_num_words :: nat
  cv_num_bytes :: nat
  cv_num_n_bits :: nat
  cv_p :: vli
  cv_n :: vli
  cv_G :: vli
  cv_b :: vli

definition curve_secp256r1 :: uECC_Curve_t where
  "curve_secp256r1 = \<lparr> cv_num_words = 8, cv_num_bytes = 32, cv_num_n_bits = 256,
     cv_p = [0xFFFFFFFF, 0xFFFFFFFF, 0xFFFFFFFF, 0x00000000,
             0x00000000, 0x00000000, 0x00000001, 0xFFFFFFFF],
     cv_n = [0xFC632551, 0xF3B9CAC2, 0xA7179E84, 0xBCE6FAAD,
             0xFFFFFFFF, 0xFFFFFFFF, 0x00000000, 0xFFFFFFFF],
     cv_G = [0xD898C296, 0xF4A13945, 0x2DEB33A0, 0x77037D81,
             0x63A440F2, 0xF8BCE6E5, 0xE12C4247, 0x6B17D1F2,
             0x37BF51F5, 0xCBB64068, 0x6B315ECE, 0x2BCE3357,
             0x7C0F9E16, 0x8EE7EB4A, 0xFE1A7F9B, 0x4FE342E2],
     cv_b = [0x27D2604B, 0x3BCE3C3E, 0xCC53B0F6, 0x651D06B0,
             0x769886BC, 0xB3EBBD55, 0xAA3A93E7, 0x5AC635D8] \<rparr>"

section \<open>Reduction modulo the field prime\<close>

text \<open>The C \<open>int carry\<close> counts carries and borrows of a few additions; it is an \<open>int\<close> here.\<close>

partial_function (option) mmod_fast_raise :: "int \<Rightarrow> vli \<Rightarrow> vli option" where
  "mmod_fast_raise carry result =
     (let (c, result') = uECC_vli_add result (cv_p curve_secp256r1);
          carry' = carry + uint c
      in if carry' < 0 then mmod_fast_raise carry' result' else Some result')"

partial_function (option) mmod_fast_lower :: "int \<Rightarrow> vli \<Rightarrow> vli option" where
  "mmod_fast_lower carry result =
     (if carry \<noteq> 0 \<or> uECC_vli_cmp_unsafe (cv_p curve_secp256r1) result \<noteq> 1
      then (let (b, result') = uECC_vli_sub result (cv_p curve_secp256r1)
            in mmod_fast_lower (carry - uint b) result')
      else Some result)"

definition vli_mmod_fast_secp256r1 :: "vli \<Rightarrow> vli option" where
  "vli_mmod_fast_secp256r1 product =
     (let w = (\<lambda>i. product ! i);
          result = take 8 product;
          \<comment> \<open>s1\<close>
          (c1, tmp) = (let t = [0, 0, 0, w 11, w 12, w 13, w 14, w 15] in uECC_vli_add t t);
          (c2, result) = uECC_vli_add result tmp;
          \<comment> \<open>s2: the low three words of \<open>tmp\<close> are still zero\<close>
          (c3, tmp) = (let t = take 3 tmp @ [w 12, w 13, w 14, w 15, 0] in uECC_vli_add t t);
          (c4, result) = uECC_vli_add result tmp;
          \<comment> \<open>s3\<close>
          (c5, result) = uECC_vli_add result [w 8, w 9, w 10, 0, 0, 0, w 14, w 15];
          \<comment> \<open>s4\<close>
          (c6, result) = uECC_vli_add result [w 9, w 10, w 11, w 13, w 14, w 15, w 13, w 8];
          \<comment> \<open>d1 to d4\<close>
          (b1, result) = uECC_vli_sub result [w 11, w 12, w 13, 0, 0, 0, w 8, w 10];
          (b2, result) = uECC_vli_sub result [w 12, w 13, w 14, w 15, 0, 0, w 9, w 11];
          (b3, result) = uECC_vli_sub result [w 13, w 14, w 15, w 8, w 9, w 10, 0, w 12];
          (b4, result) = uECC_vli_sub result [w 14, w 15, 0, w 9, w 10, w 11, 0, w 13];
          carry = uint c1 + uint c2 + uint c3 + uint c4 + uint c5 + uint c6
                  - uint b1 - uint b2 - uint b3 - uint b4
      in if carry < 0 then mmod_fast_raise carry result else mmod_fast_lower carry result)"

definition P256 :: int where
  "P256 = 0xFFFFFFFF00000001000000000000000000000000FFFFFFFFFFFFFFFFFFFFFFFF"

lemma curve_simps [simp]:
  "cv_num_words curve_secp256r1 = 8" "cv_num_bytes curve_secp256r1 = 32"
  "cv_num_n_bits curve_secp256r1 = 256"
  by (simp_all add: curve_secp256r1_def)

lemma curve_p [simp]: "length (cv_p curve_secp256r1) = 8" "vli_val (cv_p curve_secp256r1) = P256"
  by (simp_all add: curve_secp256r1_def P256_def)

abbreviation B256 :: int where
  "B256 \<equiv> 115792089237316195423570985008687907853269984665640564039457584007913129639936"

lemma word_base_8: "word_base ^ 8 = B256"
  by simp

lemma P256_bounds: "0 < P256" "P256 < B256" "B256 < 2 * P256"
  by (simp_all add: P256_def)

lemma vli8_lt: "length v = 8 \<Longrightarrow> vli_val v < B256"
  using vli_val_lt [of v] by simp

text \<open>The running total: the array plus the carry above it.\<close>

lemma add_total:
  assumes "uECC_vli_add l r = (c, res)" "length l = 8" "length r = 8"
  shows "length res = 8" and "vli_val res + B256 * uint c = vli_val l + vli_val r"
    and "0 \<le> uint c" and "uint c \<le> 1"
  using add_loop_val [of l r 0 c res] assms by (auto simp: uECC_vli_add_def)

lemma sub_total:
  assumes "uECC_vli_sub l r = (b, res)" "length l = 8" "length r = 8"
  shows "length res = 8" and "vli_val res - B256 * uint b = vli_val l - vli_val r"
    and "0 \<le> uint b" and "uint b \<le> 1"
  using sub_loop_val [of l r 0 b res] assms by (auto simp: uECC_vli_sub_def)

lemma mmod_fast_raise_returns:
  assumes "length result = 8" "carry < 0"
  shows "mmod_fast_raise carry result = Some (vli_of 8 ((vli_val result + B256 * carry) mod P256))"
  using assms
proof (induction "nat (- (vli_val result + B256 * carry))" arbitrary: carry result rule: less_induct)
  case less
  obtain c res where a: "uECC_vli_add result (cv_p curve_secp256r1) = (c, res)" by fastforce
  note t = add_total [OF a less.prems(1) curve_p(1)]
  let ?V = "vli_val result + B256 * carry"
  let ?W = "vli_val res + B256 * (carry + uint c)"
  have W: "?W = ?V + P256" using t(2) by simp
  have V: "?V < 0" using less.prems vli8_lt [OF less.prems(1)] by linarith
  show ?case
  proof (cases "carry + uint c < 0")
    case True
    have "mmod_fast_raise (carry + uint c) res = Some (vli_of 8 (?W mod P256))"
      by (rule less.hyps) (use True V W t(1) P256_bounds in \<open>simp_all add: P256_def\<close>)
    then show ?thesis using True unfolding W
      by (subst mmod_fast_raise.simps) (simp add: a)
  next
    case False
    then have "carry + uint c = 0" using less.prems(2) t(4) by linarith
    then have "vli_val res = ?V + P256" using W by simp
    moreover have "?V mod P256 = (?V + P256) mod P256" by simp
    moreover have "(?V + P256) mod P256 = ?V + P256"
      by (rule mod_pos_pos_trivial) (use V calculation(1) vli_val_nonneg [of res] in linarith)+
    ultimately show ?thesis
      using False vli_of_val [OF t(1)] by (subst mmod_fast_raise.simps) (simp add: a)
  qed
qed

lemma mmod_fast_lower_returns:
  assumes "length result = 8" "0 \<le> carry"
  shows "mmod_fast_lower carry result = Some (vli_of 8 ((vli_val result + B256 * carry) mod P256))"
  using assms
proof (induction "nat (vli_val result + B256 * carry)" arbitrary: carry result rule: less_induct)
  case less
  obtain b res where a: "uECC_vli_sub result (cv_p curve_secp256r1) = (b, res)" by fastforce
  note t = sub_total [OF a less.prems(1) curve_p(1)]
  let ?V = "vli_val result + B256 * carry"
  let ?W = "vli_val res + B256 * (carry - uint b)"
  have W: "?W = ?V - P256" using t(2) by (simp add: algebra_simps)
  have more: "carry \<noteq> 0 \<or> uECC_vli_cmp_unsafe (cv_p curve_secp256r1) result \<noteq> 1 \<longleftrightarrow> P256 \<le> ?V"
  proof (cases "carry = 0")
    case True
    then show ?thesis using less.prems by (simp add: cmp_unsafe_iffs not_less)
  next
    case False
    then have "B256 * 1 \<le> B256 * carry" using less.prems(2) by (intro mult_left_mono) simp_all
    then show ?thesis using False P256_bounds vli_val_nonneg [of result] by linarith
  qed
  show ?case
  proof (cases "P256 \<le> ?V")
    case True
    have "0 \<le> ?W" using True W by simp
    then have c: "0 \<le> carry - uint b"
      using vli8_lt [OF t(1)] unfolding right_diff_distrib by linarith
    have "mmod_fast_lower (carry - uint b) res = Some (vli_of 8 (?W mod P256))"
      by (rule less.hyps) (use True c W t(1) P256_bounds in linarith)+
    moreover have "?W mod P256 = ?V mod P256" unfolding W by simp
    ultimately show ?thesis using True more
      by (subst mmod_fast_lower.simps) (simp add: a)
  next
    case False
    then have "carry = 0" using more by blast
    then show ?thesis using False more vli_of_val [OF less.prems(1)] less.prems
      by (subst mmod_fast_lower.simps) simp
  qed
qed

lemma vli_val_16:
  assumes "length v = 16"
  shows "vli_val v = vli_val (take 8 v) + B256 * (uint (v ! 8)
    + word_base * (uint (v ! 9) + word_base * (uint (v ! 10) + word_base * (uint (v ! 11)
    + word_base * (uint (v ! 12) + word_base * (uint (v ! 13) + word_base * (uint (v ! 14)
    + word_base * uint (v ! 15))))))))"
proof -
  have "drop 8 v = [v ! 8, v ! 9, v ! 10, v ! 11, v ! 12, v ! 13, v ! 14, v ! 15]"
    using assms by (intro nth_equalityI) (auto simp: less_Suc_eq numeral_eq_Suc)
  then show ?thesis using vli_val_split [of v 8] assms by simp
qed

lemma add_loop_zeros:
  "add_loop 0 (0 # ls) (0 # rs) = (case add_loop 0 ls rs of (c, res) \<Rightarrow> (c, 0 # res))"
  by simp

text \<open>
  What the eight terms add up to: the product less a multiple of the prime, written out as a
  combination of the upper eight words.
\<close>

lemma mmod_fast_total:
  fixes w :: "nat \<Rightarrow> u32"
  shows "\<exists>q. B256 * (uint (w 8) + word_base * (uint (w 9) + word_base * (uint (w 10)
      + word_base * (uint (w 11) + word_base * (uint (w 12) + word_base * (uint (w 13)
      + word_base * (uint (w 14) + word_base * uint (w 15))))))))
    = 2 * vli_val [0, 0, 0, w 11, w 12, w 13, w 14, w 15]
      + 2 * vli_val [0, 0, 0, w 12, w 13, w 14, w 15, 0]
      + vli_val [w 8, w 9, w 10, 0, 0, 0, w 14, w 15]
      + vli_val [w 9, w 10, w 11, w 13, w 14, w 15, w 13, w 8]
      - vli_val [w 11, w 12, w 13, 0, 0, 0, w 8, w 10]
      - vli_val [w 12, w 13, w 14, w 15, 0, 0, w 9, w 11]
      - vli_val [w 13, w 14, w 15, w 8, w 9, w 10, 0, w 12]
      - vli_val [w 14, w 15, 0, w 9, w 10, w 11, 0, w 13] + P256 * q"
  by (rule exI [of _ "1 * uint (w 8) + 4294967297 * uint (w 9) + 18446744078004518912 * uint (w 10) + 79228162532711081667253501951 * uint (w 11) + 340282367000166625977638945021017194495 * uint (w 12) + 1461501637671185285124623296161210883009696235519 * uint (w 13) + 6277101736848182401166692341332123086285927382448418586623 * uint (w 14) + 26959946673427741530053695850515137729844644212646842236464328081408 * uint (w 15)"])
    (simp add: P256_def)

theorem mmod_fast_eq:
  assumes len: "length product = 16"
  shows "vli_mmod_fast_secp256r1 product = Some (vli_of 8 (vli_val product mod P256))"
proof -
  let ?w = "\<lambda>i. product ! i"
  let ?s1 = "[0, 0, 0, ?w 11, ?w 12, ?w 13, ?w 14, ?w 15]"
  let ?s2 = "[0, 0, 0, ?w 12, ?w 13, ?w 14, ?w 15, 0]"
  let ?s3 = "[?w 8, ?w 9, ?w 10, 0, 0, 0, ?w 14, ?w 15]"
  let ?s4 = "[?w 9, ?w 10, ?w 11, ?w 13, ?w 14, ?w 15, ?w 13, ?w 8]"
  let ?d1 = "[?w 11, ?w 12, ?w 13, 0, 0, 0, ?w 8, ?w 10]"
  let ?d2 = "[?w 12, ?w 13, ?w 14, ?w 15, 0, 0, ?w 9, ?w 11]"
  let ?d3 = "[?w 13, ?w 14, ?w 15, ?w 8, ?w 9, ?w 10, 0, ?w 12]"
  let ?d4 = "[?w 14, ?w 15, 0, ?w 9, ?w 10, ?w 11, 0, ?w 13]"
  have l: "length ?s1 = 8" "length ?s2 = 8" "length ?s3 = 8" "length ?s4 = 8"
    "length ?d1 = 8" "length ?d2 = 8" "length ?d3 = 8" "length ?d4 = 8" by simp_all
  have l0: "length (take 8 product) = 8" using len by simp
  obtain c1 m1 where a1: "uECC_vli_add ?s1 ?s1 = (c1, m1)" by fastforce
  note t1 = add_total [OF a1 l(1) l(1)]
  have "take 3 m1 = [0, 0, 0]"
    using a1 unfolding uECC_vli_add_def add_loop_zeros by (auto split: prod.splits simp del: add_loop.simps)
  then have m1: "take 3 m1 @ [?w 12, ?w 13, ?w 14, ?w 15, 0] = ?s2" by simp
  obtain c2 r2 where a2: "uECC_vli_add (take 8 product) m1 = (c2, r2)" by fastforce
  note t2 = add_total [OF a2 l0 t1(1)]
  obtain c3 m3 where a3: "uECC_vli_add ?s2 ?s2 = (c3, m3)" by fastforce
  note t3 = add_total [OF a3 l(2) l(2)]
  obtain c4 r4 where a4: "uECC_vli_add r2 m3 = (c4, r4)" by fastforce
  note t4 = add_total [OF a4 t2(1) t3(1)]
  obtain c5 r5 where a5: "uECC_vli_add r4 ?s3 = (c5, r5)" by fastforce
  note t5 = add_total [OF a5 t4(1) l(3)]
  obtain c6 r6 where a6: "uECC_vli_add r5 ?s4 = (c6, r6)" by fastforce
  note t6 = add_total [OF a6 t5(1) l(4)]
  obtain b1 e1 where s1: "uECC_vli_sub r6 ?d1 = (b1, e1)" by fastforce
  note u1 = sub_total [OF s1 t6(1) l(5)]
  obtain b2 e2 where s2: "uECC_vli_sub e1 ?d2 = (b2, e2)" by fastforce
  note u2 = sub_total [OF s2 u1(1) l(6)]
  obtain b3 e3 where s3: "uECC_vli_sub e2 ?d3 = (b3, e3)" by fastforce
  note u3 = sub_total [OF s3 u2(1) l(7)]
  obtain b4 e4 where s4: "uECC_vli_sub e3 ?d4 = (b4, e4)" by fastforce
  note u4 = sub_total [OF s4 u3(1) l(8)]
  define carry where "carry = uint c1 + uint c2 + uint c3 + uint c4 + uint c5 + uint c6
    - uint b1 - uint b2 - uint b3 - uint b4"
  have run: "vli_mmod_fast_secp256r1 product
      = (if carry < 0 then mmod_fast_raise carry e4 else mmod_fast_lower carry e4)"
    unfolding vli_mmod_fast_secp256r1_def Let_def
    by (simp only: a1 a2 a3 a4 a5 a6 s1 s2 s3 s4 m1 prod.case carry_def)
  obtain q where q: "B256 * (uint (?w 8) + word_base * (uint (?w 9) + word_base * (uint (?w 10)
      + word_base * (uint (?w 11) + word_base * (uint (?w 12) + word_base * (uint (?w 13)
      + word_base * (uint (?w 14) + word_base * uint (?w 15))))))))
    = 2 * vli_val ?s1 + 2 * vli_val ?s2 + vli_val ?s3 + vli_val ?s4
      - vli_val ?d1 - vli_val ?d2 - vli_val ?d3 - vli_val ?d4 + P256 * q"
    using mmod_fast_total [of ?w] by blast
  have "vli_val e4 + B256 * carry = vli_val (take 8 product)
      + (2 * vli_val ?s1 + 2 * vli_val ?s2 + vli_val ?s3 + vli_val ?s4
      - vli_val ?d1 - vli_val ?d2 - vli_val ?d3 - vli_val ?d4)"
    using t1(2) t2(2) t3(2) t4(2) t5(2) t6(2) u1(2) u2(2) u3(2) u4(2)
    unfolding carry_def right_diff_distrib distrib_left by linarith
  then have "vli_val product = (vli_val e4 + B256 * carry) + P256 * q"
    using q vli_val_16 [OF len] by linarith
  then have "vli_val product mod P256 = (vli_val e4 + B256 * carry) mod P256" by simp
  then show ?thesis
    using run mmod_fast_raise_returns [OF u4(1)] mmod_fast_lower_returns [OF u4(1)] by simp
qed

end
