(* ===== verification/Ecc_Points.thy ===== *)
theory Ecc_Points
  imports P256
begin

unbundle bit_operations_syntax

text \<open>
  The field and point operations of \<^verbatim>\<open>third_party/micro-ecc\<close> on secp256r1: multiplication and
  squaring with the fast reduction, the co-Z addition, the Jacobian doubling, the right-hand
  side of the curve equation and the check of a point.  A routine whose reduction would not
  come back has no value, so that every step is a bind of the option monad; on residues
  (\<open>fe\<close>) all of them return, and the second half reads them as the tangent and chord
  constructions on affine points.
\<close>

section \<open>The code\<close>

definition uECC_vli_modMult_fast :: "vli \<Rightarrow> vli \<Rightarrow> uECC_Curve_t \<Rightarrow> vli option" where
  "uECC_vli_modMult_fast left right curve =
     vli_mmod_fast_secp256r1 (uECC_vli_mult left right (cv_num_words curve))"

definition uECC_vli_modSquare_fast :: "vli \<Rightarrow> uECC_Curve_t \<Rightarrow> vli option" where
  "uECC_vli_modSquare_fast left curve =
     vli_mmod_fast_secp256r1 (uECC_vli_square left (cv_num_words curve))"

definition apply_z :: "vli \<Rightarrow> vli \<Rightarrow> vli \<Rightarrow> uECC_Curve_t \<Rightarrow> (vli \<times> vli) option" where
  "apply_z X1 Y1 Z curve = do {
     t1 \<leftarrow> uECC_vli_modSquare_fast Z curve;
     X1 \<leftarrow> uECC_vli_modMult_fast X1 t1 curve;
     t1 \<leftarrow> uECC_vli_modMult_fast t1 Z curve;
     Y1 \<leftarrow> uECC_vli_modMult_fast Y1 t1 curve;
     Some (X1, Y1) }"

text \<open>The division by two in the slope of the doubling.\<close>

definition halve_slope :: "vli \<Rightarrow> uECC_Curve_t \<Rightarrow> vli" where
  "halve_slope X1 curve =
     (if uECC_vli_testBit X1 0
      then (let (l_carry, S) = uECC_vli_add X1 (cv_p curve);
                H = uECC_vli_rshift1 S;
                k = cv_num_words curve - 1
            in H[k := H ! k OR push_bit 31 l_carry])
      else uECC_vli_rshift1 X1)"

text \<open>
  The results are \<open>(X1, Y1, X2, Y2, sub)\<close>.  Where a caller passes \<open>X1\<close> as \<open>sub\<close> too, the
  write to \<open>sub\<close> comes after the last use of \<open>X1\<close>, and the caller ignores \<open>X1\<close>.
\<close>

definition XYcZ_add ::
  "vli \<Rightarrow> vli \<Rightarrow> vli \<Rightarrow> vli \<Rightarrow> uECC_Curve_t \<Rightarrow> (vli \<times> vli \<times> vli \<times> vli \<times> vli) option" where
  "XYcZ_add X1 Y1 X2 Y2 curve = do {
     let p = cv_p curve;
     let t5 = uECC_vli_modSub X2 X1 p;
     t5 \<leftarrow> uECC_vli_modSquare_fast t5 curve;
     X1 \<leftarrow> uECC_vli_modMult_fast X1 t5 curve;
     X2 \<leftarrow> uECC_vli_modMult_fast X2 t5 curve;
     let Y2 = uECC_vli_modSub Y2 Y1 p;
     t5 \<leftarrow> uECC_vli_modSquare_fast Y2 curve;
     let t5 = uECC_vli_modSub t5 X1 p;
     let t5 = uECC_vli_modSub t5 X2 p;
     let X2 = uECC_vli_modSub X2 X1 p;
     Y1 \<leftarrow> uECC_vli_modMult_fast Y1 X2 curve;
     let sub = uECC_vli_modSub X1 t5 p;
     Y2 \<leftarrow> uECC_vli_modMult_fast Y2 sub curve;
     let Y2 = uECC_vli_modSub Y2 Y1 p;
     Some (X1, Y1, t5, Y2, sub) }"

definition double_jacobian_default ::
  "vli \<Rightarrow> vli \<Rightarrow> vli \<Rightarrow> uECC_Curve_t \<Rightarrow> (vli \<times> vli \<times> vli) option" where
  "double_jacobian_default X1 Y1 Z1 curve =
     (if uECC_vli_isZero Z1 then Some (X1, Y1, Z1)
      else do {
        let p = cv_p curve;
        t4 \<leftarrow> uECC_vli_modSquare_fast Y1 curve;
        t5 \<leftarrow> uECC_vli_modMult_fast X1 t4 curve;
        t4 \<leftarrow> uECC_vli_modSquare_fast t4 curve;
        Y1 \<leftarrow> uECC_vli_modMult_fast Y1 Z1 curve;
        Z1 \<leftarrow> uECC_vli_modSquare_fast Z1 curve;
        let X1 = uECC_vli_modAdd X1 Z1 p;
        let Z1 = uECC_vli_modAdd Z1 Z1 p;
        let Z1 = uECC_vli_modSub X1 Z1 p;
        X1 \<leftarrow> uECC_vli_modMult_fast X1 Z1 curve;
        let Z1 = uECC_vli_modAdd X1 X1 p;
        let X1 = uECC_vli_modAdd X1 Z1 p;
        let X1 = halve_slope X1 curve;
        Z1 \<leftarrow> uECC_vli_modSquare_fast X1 curve;
        let Z1 = uECC_vli_modSub Z1 t5 p;
        let Z1 = uECC_vli_modSub Z1 t5 p;
        let t5 = uECC_vli_modSub t5 Z1 p;
        X1 \<leftarrow> uECC_vli_modMult_fast X1 t5 curve;
        let t4 = uECC_vli_modSub X1 t4 p;
        Some (Z1, t4, Y1) })"

definition x_side_default :: "vli \<Rightarrow> uECC_Curve_t \<Rightarrow> vli option" where
  "x_side_default x curve = do {
     let three = [3, 0, 0, 0, 0, 0, 0, 0];
     r \<leftarrow> uECC_vli_modSquare_fast x curve;
     let r = uECC_vli_modSub r three (cv_p curve);
     r \<leftarrow> uECC_vli_modMult_fast r x curve;
     Some (uECC_vli_modAdd r (cv_b curve) (cv_p curve)) }"

definition EccPoint_isZero :: "vli \<Rightarrow> bool" where
  "EccPoint_isZero point = uECC_vli_isZero point"

definition uECC_valid_point :: "vli \<Rightarrow> uECC_Curve_t \<Rightarrow> int option" where
  "uECC_valid_point point curve =
     (let x = take (cv_num_words curve) point; y = drop (cv_num_words curve) point
      in if EccPoint_isZero point then Some 0
         else if uECC_vli_cmp_unsafe (cv_p curve) x \<noteq> 1
              \<or> uECC_vli_cmp_unsafe (cv_p curve) y \<noteq> 1 then Some 0
         else do {
           tmp1 \<leftarrow> uECC_vli_modSquare_fast y curve;
           tmp2 \<leftarrow> x_side_default x curve;
           Some (if uECC_vli_equal tmp1 tmp2 then 1 else 0) })"

section \<open>Residues\<close>

abbreviation p256 :: vli where "p256 \<equiv> cv_p curve_secp256r1"

definition fe :: "int \<Rightarrow> vli" where
  "fe x = vli_of 8 (x mod P256)"

named_theorems fe_simps \<open>the field routines on residues\<close>

lemma fe_length [simp]: "length (fe x) = 8"
  by (simp add: fe_def)

lemma fe_val [simp]: "vli_val (fe x) = x mod P256"
proof -
  have "0 \<le> x mod P256" using P256_bounds by simp
  moreover have "x mod P256 < word_base ^ 8"
    using pos_mod_bound [of P256 x] P256_bounds unfolding word_base_8 by linarith
  ultimately show ?thesis unfolding fe_def by (rule vli_val_vli_of_small)
qed

lemma fe_mod [simp]: "fe (x mod P256) = fe x"
  by (simp add: fe_def)

lemma fe_eq_iff: "fe x = fe y \<longleftrightarrow> x mod P256 = y mod P256"
  using fe_val by (metis fe_mod)

lemma fe_of_val: "length v = 8 \<Longrightarrow> vli_val v < P256 \<Longrightarrow> fe (vli_val v) = v"
  by (simp add: fe_def vli_of_val)

lemma fe_lt: "x mod P256 < P256"
  using P256_bounds by simp

lemma modMult_fast_eq:
  "length l = 8 \<Longrightarrow> length r = 8 \<Longrightarrow>
   uECC_vli_modMult_fast l r curve_secp256r1 = Some (fe (vli_val l * vli_val r))"
  using vli_mult_val [of l 8 r] by (simp add: uECC_vli_modMult_fast_def mmod_fast_eq fe_def)

lemma modSquare_fast_eq:
  "length l = 8 \<Longrightarrow>
   uECC_vli_modSquare_fast l curve_secp256r1 = Some (fe (vli_val l * vli_val l))"
  using vli_square_val [of l 8] by (simp add: uECC_vli_modSquare_fast_def mmod_fast_eq fe_def)

lemma fe_mult [fe_simps]:
  "uECC_vli_modMult_fast (fe x) (fe y) curve_secp256r1 = Some (fe (x * y))"
  by (simp add: modMult_fast_eq fe_eq_iff mod_mult_eq)

lemma fe_square [fe_simps]:
  "uECC_vli_modSquare_fast (fe x) curve_secp256r1 = Some (fe (x * x))"
  by (simp add: modSquare_fast_eq fe_eq_iff mod_mult_eq)

lemma fe_add [fe_simps]: "uECC_vli_modAdd (fe x) (fe y) p256 = fe (x + y)"
  using modAdd_eq [of "fe x" 8 "fe y" p256] fe_lt by (simp add: fe_def [symmetric] fe_eq_iff mod_add_eq flip: fe_def)

lemma fe_sub [fe_simps]: "uECC_vli_modSub (fe x) (fe y) p256 = fe (x - y)"
  using modSub_eq [of "fe x" 8 "fe y" p256] fe_lt by (simp add: fe_eq_iff mod_diff_eq flip: fe_def)

lemma fe_isZero [fe_simps]: "uECC_vli_isZero (fe x) \<longleftrightarrow> P256 dvd x"
  by (simp add: isZero_iff dvd_eq_mod_eq_0)

text \<open>Halving a residue: \<open>half_P\<close> is the inverse of two.\<close>

definition half_P :: int where "half_P = (P256 + 1) div 2"

lemma two_half_P: "2 * half_P = P256 + 1"
  by (simp add: half_P_def P256_def)

lemma odd_P256: "odd P256"
  by (simp add: P256_def)

lemma half_mod_P: "half_mod P256 (x mod P256) = (x * half_P) mod P256"
proof -
  let ?h = "half_mod P256 (x mod P256)"
  have h: "0 \<le> ?h" "?h < P256" "2 * ?h mod P256 = x mod P256"
    using half_mod_bounds [OF odd_P256, of "x mod P256"] P256_bounds fe_lt by simp_all
  have d: "P256 dvd 2 * ?h - x" using h(3) by (simp add: mod_eq_dvd_iff)
  have "2 * (?h - x * half_P) = 2 * ?h - x * (2 * half_P)" by (simp add: algebra_simps)
  then have e: "2 * (?h - x * half_P) = (2 * ?h - x) - P256 * x"
    unfolding two_half_P by (simp add: algebra_simps)
  have "P256 dvd 2 * (?h - x * half_P)" unfolding e by (rule dvd_diff [OF d]) simp
  then have "P256 dvd ?h - x * half_P" by (rule odd_dvd_double [OF odd_P256])
  then have "?h mod P256 = (x * half_P) mod P256" by (simp add: mod_eq_dvd_iff)
  then show ?thesis using h(1,2) by simp
qed

lemma EVEN_testBit: "v \<noteq> [] \<Longrightarrow> uECC_vli_testBit v 0 \<longleftrightarrow> \<not> EVEN v"
  by (cases v) (simp_all add: testBit_eq EVEN_iff bit_0)

lemma fe_halve [fe_simps]: "halve_slope (fe x) curve_secp256r1 = fe (x * half_P)"
proof -
  have ne: "fe x \<noteq> []" using fe_length [of x] by fastforce
  have "fe (x * half_P) = vli_modInv_update (fe x) p256 8"
    using modInv_update_eq [of "fe x" 8 p256] odd_P256 fe_lt
    by (simp add: half_mod_P) (simp add: fe_def)
  then show ?thesis
    unfolding vli_modInv_update_def halve_slope_def EVEN_testBit [OF ne]
    by (simp add: vli_add_eq HIGH_BIT_SET_def push_bit_eq_mult split: prod.splits)
qed

section \<open>The operations on residues\<close>

lemma apply_z_fe:
  "apply_z (fe x) (fe y) (fe z) curve_secp256r1 = Some (fe (x * (z * z)), fe (y * (z * z * z)))"
  by (simp add: apply_z_def fe_simps)

text \<open>The sum in co-Z coordinates, written with the intermediate values of the comments.\<close>

definition coz_add :: "int \<Rightarrow> int \<Rightarrow> int \<Rightarrow> int \<Rightarrow> int \<times> int \<times> int \<times> int \<times> int" where
  "coz_add x1 y1 x2 y2 =
     (let A = (x2 - x1) * (x2 - x1); B = x1 * A; C = x2 * A; D = (y2 - y1) * (y2 - y1);
          x3 = D - B - C; E = y1 * (C - B)
      in (B, E, x3, (y2 - y1) * (B - x3) - E, B - x3))"

lemma XYcZ_add_fe:
  "XYcZ_add (fe x1) (fe y1) (fe x2) (fe y2) curve_secp256r1
    = (case coz_add x1 y1 x2 y2 of (a, b, c, d, e) \<Rightarrow> Some (fe a, fe b, fe c, fe d, fe e))"
  by (simp add: XYcZ_add_def coz_add_def fe_simps Let_def)

definition jac_double :: "int \<Rightarrow> int \<Rightarrow> int \<Rightarrow> int \<times> int \<times> int" where
  "jac_double x y z =
     (let A = x * (y * y); w = (x + z * z) * (x + z * z - (z * z + z * z));
          B = (w + (w + w)) * half_P; x3 = B * B - A - A
      in (x3, B * (A - x3) - y * y * (y * y), y * z))"

lemma double_jacobian_fe:
  "double_jacobian_default (fe x) (fe y) (fe z) curve_secp256r1
    = (if P256 dvd z then Some (fe x, fe y, fe z)
       else case jac_double x y z of (a, b, c) \<Rightarrow> Some (fe a, fe b, fe c))"
  unfolding double_jacobian_default_def jac_double_def Let_def fe_simps prod.case
    Option.bind.simps by simp

lemma x_side_fe: "x_side_default (fe x) curve_secp256r1
    = Some (fe (x * x * x - 3 * x + vli_val (cv_b curve_secp256r1)))"
proof -
  have t: "[3, 0, 0, 0, 0, 0, 0, 0] = fe 3"
    by (rule vli_val_inj) (simp_all add: P256_def)
  have b: "cv_b curve_secp256r1 = fe (vli_val (cv_b curve_secp256r1))"
    by (rule fe_of_val [symmetric]) (simp_all add: curve_secp256r1_def P256_def)
  show ?thesis
    unfolding x_side_default_def t by (subst b) (simp add: fe_simps algebra_simps)
qed

section \<open>Affine reading\<close>

text \<open>Congruence modulo the prime, with its rules for replacing parts of a polynomial.\<close>

abbreviation eqp :: "int \<Rightarrow> int \<Rightarrow> bool" where "eqp a b \<equiv> fe a = fe b"

lemma eqp_arith [intro]:
  "eqp a a' \<Longrightarrow> eqp b b' \<Longrightarrow> eqp (a + b) (a' + b')"
  "eqp a a' \<Longrightarrow> eqp b b' \<Longrightarrow> eqp (a - b) (a' - b')"
  "eqp a a' \<Longrightarrow> eqp b b' \<Longrightarrow> eqp (a * b) (a' * b')"
  unfolding fe_eq_iff by (rule mod_add_cong mod_diff_cong mod_mult_cong; assumption)+

lemma eqp_dvd: "eqp a b \<longleftrightarrow> P256 dvd a - b"
  by (simp add: fe_eq_iff mod_eq_dvd_iff)

text \<open>\<open>(X, Y, Z)\<close> stands for the affine point \<open>(x, y)\<close>.\<close>

definition jac_rep :: "int \<times> int \<times> int \<Rightarrow> int \<times> int \<Rightarrow> bool" where
  "jac_rep = (\<lambda>(X, Y, Z) (x, y). eqp X (x * (Z * Z)) \<and> eqp Y (y * (Z * Z * Z)))"

text \<open>The slopes of the tangent at a point and of the chord through two.\<close>

definition tangent_slope :: "int \<times> int \<Rightarrow> int \<Rightarrow> bool" where
  "tangent_slope = (\<lambda>(x, y) l. eqp (2 * y * l) (3 * (x * x - 1)))"

definition chord_slope :: "int \<times> int \<Rightarrow> int \<times> int \<Rightarrow> int \<Rightarrow> bool" where
  "chord_slope = (\<lambda>(x1, y1) (x2, y2) l. eqp (l * (x2 - x1)) (y2 - y1))"

text \<open>The third point of the line with slope \<open>l\<close> through a point, reflected.\<close>

definition third_point :: "int \<Rightarrow> int \<times> int \<Rightarrow> int \<Rightarrow> int \<times> int" where
  "third_point l = (\<lambda>(x1, y1) x2. let x3 = l * l - x1 - x2 in (x3, l * (x1 - x3) - y1))"

lemma halved_slope:
  assumes "eqp (2 * y * l) (3 * (x * x - 1))"
  shows "eqp (3 * (x * x - 1) * half_P) (y * l)"
proof -
  have "eqp (3 * (x * x - 1) * half_P) (2 * y * l * half_P)"
    by (intro eqp_arith assms [symmetric] refl)
  also have "2 * y * l * half_P = y * l * (2 * half_P)" by simp
  also have "\<dots> = y * l + P256 * (y * l)" unfolding two_half_P by (simp add: algebra_simps)
  also have "eqp (y * l + P256 * (y * l)) (y * l)" by (simp add: eqp_dvd)
  finally show ?thesis .
qed

lemma jac_double_rep:
  assumes rep: "jac_rep (X, Y, Z) (x, y)" and l: "tangent_slope (x, y) l"
  shows "jac_rep (jac_double X Y Z) (third_point l (x, y) x)"
proof -
  define X' where "X' = x * (Z * Z)"
  define Y' where "Y' = y * (Z * Z * Z)"
  have X: "eqp X X'" and Y: "eqp Y Y'" using rep by (simp_all add: jac_rep_def X'_def Y'_def)
  define w where "w = (X + Z * Z) * (X + Z * Z - (Z * Z + Z * Z))"
  define B where "B = (w + (w + w)) * half_P"
  define B' where "B' = y * l * (Z * Z * (Z * Z))"
  have "eqp w ((X' + Z * Z) * (X' + Z * Z - (Z * Z + Z * Z)))"
    unfolding w_def by (intro eqp_arith X refl)
  also have "\<dots> = fe (Z * Z * (Z * Z) * (x * x - 1))"
    by (simp add: X'_def algebra_simps)
  finally have w: "eqp w (Z * Z * (Z * Z) * (x * x - 1))" .
  have "eqp B ((Z * Z * (Z * Z) * (x * x - 1) + (Z * Z * (Z * Z) * (x * x - 1)
      + Z * Z * (Z * Z) * (x * x - 1))) * half_P)"
    unfolding B_def by (intro eqp_arith w refl)
  also have "\<dots> = fe (3 * (x * x - 1) * half_P * (Z * Z * (Z * Z)))"
    by (simp add: algebra_simps)
  also have "\<dots> = fe B'"
    unfolding B'_def by (rule eqp_arith(3) [OF halved_slope refl])
      (use l in \<open>unfold tangent_slope_def prod.case\<close>)
  finally have B: "eqp B B'" .
  define x3 where "x3 = l * l - x - x"
  define Z3 where "Z3 = Y' * Z"
  have Z3: "eqp (Y * Z) Z3" unfolding Z3_def by (intro eqp_arith Y refl)
  have "eqp (B * B - X * (Y * Y) - X * (Y * Y)) (B' * B' - X' * (Y' * Y') - X' * (Y' * Y'))"
    by (intro eqp_arith B X Y)
  also have "\<dots> = fe (x3 * (Z3 * Z3))"
    by (simp add: B'_def X'_def Y'_def Z3_def x3_def algebra_simps)
  finally have X3: "eqp (B * B - X * (Y * Y) - X * (Y * Y)) (x3 * (Z3 * Z3))" .
  have "eqp (B * (X * (Y * Y) - (B * B - X * (Y * Y) - X * (Y * Y))) - Y * Y * (Y * Y))
      (B' * (X' * (Y' * Y') - x3 * (Z3 * Z3)) - Y' * Y' * (Y' * Y'))"
    by (intro eqp_arith B X Y X3)
  also have "\<dots> = fe ((l * (x - x3) - y) * (Z3 * Z3 * Z3))"
    by (simp add: B'_def X'_def Y'_def Z3_def algebra_simps)
  finally have Y3: "eqp (B * (X * (Y * Y) - (B * B - X * (Y * Y) - X * (Y * Y))) - Y * Y * (Y * Y))
      ((l * (x - x3) - y) * (Z3 * Z3 * Z3))" .
  have "eqp (x3 * (Z3 * Z3)) (x3 * (Y * Z * (Y * Z)))"
    and "eqp ((l * (x - x3) - y) * (Z3 * Z3 * Z3)) ((l * (x - x3) - y) * (Y * Z * (Y * Z) * (Y * Z)))"
    by (intro eqp_arith Z3 [symmetric] refl)+
  then show ?thesis
    using X3 Y3
    unfolding jac_rep_def jac_double_def third_point_def Let_def prod.case x3_def [symmetric]
      w_def [symmetric] B_def [symmetric]
    by simp
qed

lemma coz_add_rep:
  assumes rep: "jac_rep (X, Y, Z) (x, y)" and l: "chord_slope (px, py) (x, y) l"
    and add: "coz_add (px * (Z * Z)) (py * (Z * Z * Z)) X Y = (a, b, X3, Y3, e)"
  shows "jac_rep (X3, Y3, Z * (X - px * (Z * Z))) (third_point l (px, py) x)"
proof -
  define X' where "X' = x * (Z * Z)"
  define Y' where "Y' = y * (Z * Z * Z)"
  define X1 where "X1 = px * (Z * Z)"
  define Y1 where "Y1 = py * (Z * Z * Z)"
  have X: "eqp X X'" and Y: "eqp Y Y'" using rep by (simp_all add: jac_rep_def X'_def Y'_def)
  define x3 where "x3 = l * l - px - x"
  define Z3 where "Z3 = Z * (X' - X1)"
  have Z3: "eqp (Z * (X - X1)) Z3" unfolding Z3_def by (intro eqp_arith X refl)
  have "eqp (Y - Y1) (Y' - Y1)" by (intro eqp_arith Y refl)
  also have "\<dots> = fe ((y - py) * (Z * Z * Z))" by (simp add: Y'_def Y1_def algebra_simps)
  also have "\<dots> = fe (l * (x - px) * (Z * Z * Z))"
    using l by (intro eqp_arith refl) (simp add: chord_slope_def)
  also have "\<dots> = fe (l * Z3)" by (simp add: Z3_def X'_def X1_def algebra_simps)
  finally have dY: "eqp (Y - Y1) (l * Z3)" .
  define A where "A = (X - X1) * (X - X1)"
  define A' where "A' = (X' - X1) * (X' - X1)"
  have A: "eqp A A'" unfolding A_def A'_def by (intro eqp_arith X refl)
  have X3: "X3 = (Y - Y1) * (Y - Y1) - X1 * A - X * A"
    and Y3: "Y3 = (Y - Y1) * (X1 * A - X3) - Y1 * (X * A - X1 * A)"
    using add by (simp_all add: coz_add_def Let_def X1_def [symmetric] Y1_def [symmetric] A_def) auto
  have "eqp X3 (l * Z3 * (l * Z3) - X1 * A' - X' * A')"
    unfolding X3 by (intro eqp_arith dY A X refl)
  also have "\<dots> = fe (x3 * (Z3 * Z3))"
    by (simp add: A'_def X'_def X1_def Z3_def x3_def algebra_simps)
  finally have rX: "eqp X3 (x3 * (Z3 * Z3))" .
  have "eqp Y3 (l * Z3 * (X1 * A' - x3 * (Z3 * Z3)) - Y1 * (X' * A' - X1 * A'))"
    unfolding Y3 by (intro eqp_arith dY A X rX refl)
  also have "\<dots> = fe ((l * (px - x3) - py) * (Z3 * Z3 * Z3))"
    by (simp add: A'_def X'_def X1_def Y1_def Z3_def algebra_simps)
  finally have rY: "eqp Y3 ((l * (px - x3) - py) * (Z3 * Z3 * Z3))" .
  have "eqp (x3 * (Z3 * Z3)) (x3 * (Z * (X - X1) * (Z * (X - X1))))"
    and "eqp ((l * (px - x3) - py) * (Z3 * Z3 * Z3))
      ((l * (px - x3) - py) * (Z * (X - X1) * (Z * (X - X1)) * (Z * (X - X1))))"
    by (intro eqp_arith Z3 [symmetric] refl)+
  then show ?thesis
    using rX rY
    unfolding jac_rep_def third_point_def Let_def prod.case x3_def [symmetric] X1_def [symmetric]
    by simp
qed

end
