(* ===== verification/Order_Prime.thy ===== *)
theory Order_Prime
  imports Prelude
begin

text \<open>
  The order of the base point of secp256r1 is prime, so every \<open>s\<close> a signature may carry has an
  inverse.  The proof is Pocklington's: a chain of primes, each dividing the predecessor of the
  next, with the powers of two that witness it.  The powers are computed by squaring, and each
  reduction is a multiplication with a quotient that is given.
\<close>

section \<open>Primes\<close>

definition is_prime :: "int \<Rightarrow> bool" where
  "is_prime p \<longleftrightarrow> 1 < p \<and> (\<forall>d. 0 < d \<and> d dvd p \<longrightarrow> d = 1 \<or> d = p)"

lemma is_prime_coprime:
  assumes "is_prime p" "\<not> p dvd a"
  shows "coprime a p"
proof -
  have "0 < gcd a p" using assms(1) by (simp add: is_prime_def)
  moreover have "gcd a p \<noteq> p" using assms(2) gcd_dvd1 [of a p] by metis
  ultimately have "gcd a p = 1" using assms(1) gcd_dvd2 [of a p] unfolding is_prime_def by blast
  then show ?thesis by (simp add: coprime_iff_gcd_eq_1)
qed

lemma prime_divisor:
  assumes "1 < (n :: int)"
  shows "\<exists>p. is_prime p \<and> p dvd n"
  using assms
proof (induction n rule: measure_induct_rule [of nat])
  case (less n)
  show ?case
  proof (cases "is_prime n")
    case False
    then obtain d where d: "0 < d" "d dvd n" "d \<noteq> 1" "d \<noteq> n" using less.prems by (auto simp: is_prime_def)
    then have "d < n" using less.prems zdvd_imp_le [of d n] by simp
    then obtain p where "is_prime p" "p dvd d" using less.IH [of d] d by fastforce
    then show ?thesis using d dvd_trans by blast
  qed auto
qed

text \<open>The binomial coefficients of a prime, and Fermat's little theorem.\<close>

lemma prime_dvd_choose:
  assumes "is_prime (int p)" "0 < j" "j < p"
  shows "int p dvd int (p choose j)"
proof -
  obtain q where p: "p = Suc q" using assms by (cases p) auto
  obtain i where j: "j = Suc i" using assms by (cases j) auto
  have "int (Suc q * (q choose i)) = int ((Suc q choose Suc i) * Suc i)"
    by (simp only: Suc_times_binomial_eq)
  then have "int p * int (q choose i) = int (p choose j) * int j"
    unfolding p j by (simp only: of_nat_mult)
  then have "int p dvd int (p choose j) * int j" by (metis dvd_triv_left)
  moreover have "coprime (int j) (int p)"
    using is_prime_coprime [OF assms(1), of "int j"] zdvd_imp_le [of "int p" "int j"] assms(2,3) by linarith
  ultimately show ?thesis by (simp add: coprime_commute coprime_dvd_mult_left_iff)
qed

lemma fermat_power:
  assumes "is_prime (int p)"
  shows "int p dvd int a ^ p - int a"
proof (induction a)
  case 0
  have "0 < p" using assms by (simp add: is_prime_def)
  then show ?case by (simp add: power_0_left)
next
  case (Suc a)
  have p: "0 < p" using assms by (simp add: is_prime_def)
  have "(int a + 1) ^ p = (\<Sum>j\<le>p. of_nat (p choose j) * int a ^ j)"
    using binomial_ring [of "int a" 1 p] by simp
  also have "{..p} = insert 0 (insert p {0<..<p})" using p by auto
  also have "(\<Sum>j\<in>insert 0 (insert p {0<..<p}). of_nat (p choose j) * int a ^ j)
      = 1 + (int a ^ p + (\<Sum>j\<in>{0<..<p}. of_nat (p choose j) * int a ^ j))"
    using p by simp
  finally have "(int a + 1) ^ p - (int a + 1)
      = (int a ^ p - int a) + (\<Sum>j\<in>{0<..<p}. of_nat (p choose j) * int a ^ j)" by simp
  moreover have "int p dvd (\<Sum>j\<in>{0<..<p}. of_nat (p choose j) * int a ^ j)"
    by (rule dvd_sum) (use prime_dvd_choose [OF assms] in simp)
  ultimately have "int p dvd (int a + 1) ^ p - (int a + 1)" using Suc.IH by (simp only: dvd_add)
  then show ?case by (simp add: add.commute)
qed

lemma fermat:
  assumes "is_prime p" "\<not> p dvd 2"
  shows "p dvd 2 ^ nat (p - 1) - 1"
proof -
  have p: "1 < p" using assms(1) by (simp add: is_prime_def)
  have "p dvd 2 ^ nat p - 2" using fermat_power [of "nat p" 2] assms(1) p by simp
  moreover have "nat p = Suc (nat (p - 1))" using p by simp
  then have "2 ^ nat p - 2 = (2 :: int) * (2 ^ nat (p - 1) - 1)" by simp
  ultimately have "p dvd 2 * (2 ^ nat (p - 1) - 1)" by metis
  moreover have "coprime p 2" using is_prime_coprime [OF assms] by (simp add: coprime_commute)
  ultimately show ?thesis using coprime_dvd_mult_right_iff by blast
qed

section \<open>Orders\<close>

lemma power_diff_dvd:
  assumes "(p :: int) dvd a ^ m - 1"
  shows "p dvd a ^ (m * k + r) - 1 \<longleftrightarrow> p dvd a ^ r - 1"
proof -
  have "a ^ m mod p = 1 mod p" using assms by (simp add: mod_eq_dvd_iff)
  then have "(a ^ m) ^ k mod p = 1 ^ k mod p" by (metis power_mod)
  then have "p dvd (a ^ m) ^ k - 1" by (simp add: mod_eq_dvd_iff)
  then have "p dvd ((a ^ m) ^ k - 1) * a ^ r" by simp
  moreover have "a ^ (m * k + r) - 1 = ((a ^ m) ^ k - 1) * a ^ r + (a ^ r - 1)"
    unfolding power_add power_mult left_diff_distrib by simp
  ultimately show ?thesis using dvd_add_right_iff by metis
qed

lemma power_gcd:
  "(p :: int) dvd a ^ m - 1 \<Longrightarrow> p dvd a ^ n - 1 \<Longrightarrow> p dvd a ^ gcd m n - 1"
proof (induction m n rule: gcd_nat_induct)
  case (step m n)
  have "p dvd a ^ (n * (m div n) + m mod n) - 1" using step.prems(1) by simp
  then have "p dvd a ^ (m mod n) - 1" using power_diff_dvd [OF step.prems(2)] by blast
  then show ?case using step by (simp add: gcd_red_nat [symmetric])
qed simp

text \<open>A prime divisor of \<open>n = 1 + q R\<close> is 1 modulo \<open>q\<close> when 2 has a power of order \<open>q\<close>.\<close>

lemma divisor_residue:
  assumes q: "is_prime (int q)" and p: "is_prime p" "p dvd n" "\<not> p dvd 2"
    and e: "n dvd 2 ^ (R * q) - 1" "coprime (2 ^ R - 1) n"
  shows "int q dvd p - 1"
proof (rule ccontr)
  assume n: "\<not> int q dvd p - 1"
  have p1: "1 < p" using p(1) by (simp add: is_prime_def)
  have "coprime (int (nat (p - 1))) (int q)" using is_prime_coprime [OF q n] p1 by simp
  then have c: "coprime (nat (p - 1)) q" by (simp only: coprime_int_iff)
  have "p dvd 2 ^ gcd (nat (p - 1)) (R * q) - 1"
    by (rule power_gcd [OF fermat [OF p(1,3)]]) (use e(1) p(2) dvd_trans in blast)
  moreover have "gcd (nat (p - 1)) (R * q) dvd R"
    using c by (meson coprime_divisors coprime_dvd_mult_left_iff dvd_refl gcd_dvd1 gcd_dvd2)
  then obtain k where "R = gcd (nat (p - 1)) (R * q) * k + 0" by fastforce
  ultimately have "p dvd 2 ^ R - 1"
    using power_diff_dvd [of p 2 "gcd (nat (p - 1)) (R * q)" k 0] by simp
  then have "is_unit p" using e(2) p(2) coprime_common_divisor by blast
  then show False using p1 by simp
qed

text \<open>
  If \<open>n = 1 + q R\<close> had two factors \<open>1 + x q\<close> and \<open>1 + y q\<close> then \<open>R = x + y + x y q\<close>, which does not fit
  when the remainder of \<open>R\<close> by \<open>q\<close> exceeds its quotient by more than one.
\<close>

lemma no_two_factors:
  fixes x y q s t :: int
  assumes "0 < x" "0 < y" "0 \<le> s" "s < q" "t + 1 < s" "x + y + x * y * q = q * t + s"
  shows False
proof -
  have q: "0 < q" using assms by linarith
  have "x * y * q < q * (t + 1)" using assms by (simp add: distrib_left)
  then have "x * y < t + 1" using q by (simp add: mult.commute [of _ q])
  then have t: "x * y \<le> t" by simp
  have "0 \<le> (x - 1) * (y - 1)" using assms by simp
  then have "x + y \<le> x * y + 1" by (simp add: algebra_simps)
  moreover have "x * y * q \<le> q * t" using t q by (simp add: mult.commute [of _ q])
  ultimately show False using t assms by linarith
qed

lemma pocklington:
  assumes q: "is_prime (int q)" and n: "n = 1 + int q * int R" "odd n"
    and R: "int R = int q * t + s" "0 \<le> t" "s < int q" "t + 1 < s"
    and e: "n dvd 2 ^ (R * q) - 1" "coprime (2 ^ R - 1) n"
  shows "is_prime n"
proof (rule ccontr)
  assume "\<not> is_prime n"
  have q1: "1 < int q" using q by (simp add: is_prime_def)
  have "0 \<le> int q * t" using R q1 by simp
  then have "0 < int R" using R by linarith
  then have "0 < int q * int R" using q1 by simp
  then have n1: "1 < n" using n by linarith
  obtain p where p: "is_prime p" "p dvd n" using prime_divisor [OF n1] by blast
  then obtain f where f: "n = p * f" by blast
  have p1: "1 < p" using p(1) by (simp add: is_prime_def)
  have "n \<noteq> p" using p(1) \<open>\<not> is_prime n\<close> by blast
  then have "f \<noteq> 1" using f by simp
  moreover have "0 < p * f" using n1 f by linarith
  then have "0 < f" using p1 by (simp add: zero_less_mult_iff)
  ultimately have f1: "1 < f" by linarith
  have "\<not> p dvd 2" using p1 p(2) n(2) zdvd_imp_le [of p 2] dvd_trans by (cases "p = 2") auto
  then have "int q dvd p - 1" by (rule divisor_residue [OF q p _ e])
  then obtain x where "p - 1 = int q * x" by blast
  then have x: "p = 1 + int q * x" by simp
  have "0 < x" using p1 q1 unfolding x by (simp add: zero_less_mult_iff)
  have "f - 1 = int q * (int R - x * f)" using f n(1) unfolding x by (simp add: algebra_simps)
  then obtain y where "f - 1 = int q * y" by blast
  then have y: "f = 1 + int q * y" by simp
  have "0 < y" using f1 q1 unfolding y by (simp add: zero_less_mult_iff)
  have "int q * int R = int q * (x + y + x * y * int q)"
    using f n(1) unfolding x y by (simp add: algebra_simps)
  then have "x + y + x * y * int q = int q * t + s" using q1 R(1) by simp
  then show False using no_two_factors [OF \<open>0 < x\<close> \<open>0 < y\<close>] R by force
qed

section \<open>Powers by squaring\<close>

text \<open>
  \<open>pow_run red b ops\<close> squares, or multiplies by \<open>b\<close>, and subtracts the multiple \<open>red k\<close> of the modulus; the
  second component is the exponent reached.
\<close>

fun pow_run :: "(int \<Rightarrow> int) \<Rightarrow> int \<Rightarrow> (bool \<times> int) list \<Rightarrow> int \<times> int \<Rightarrow> int \<times> int" where
  "pow_run red b [] xe = xe"
| "pow_run red b ((True, k) # ops) (x, e) = pow_run red b ops (x * x - red k, e + e)"
| "pow_run red b ((False, k) # ops) (x, e) = pow_run red b ops (x * b - red k, e + 1)"

definition power_is :: "int \<Rightarrow> int \<Rightarrow> int \<Rightarrow> int \<Rightarrow> bool" where
  "power_is n b e x \<longleftrightarrow> 0 \<le> e \<and> n dvd x - b ^ nat e"

lemma power_is_start: "power_is n b 0 1"
  by (simp add: power_is_def)

lemma power_is_square:
  assumes "power_is n b e x" "n dvd r"
  shows "power_is n b (e + e) (x * x - r)"
proof -
  have "n dvd x - b ^ nat e" using assms(1) by (simp add: power_is_def)
  then have "n dvd (x - b ^ nat e) * (x + b ^ nat e) - r" using assms(2) by simp
  moreover have "nat (e + e) = nat e + nat e"
    using assms(1) by (intro nat_add_distrib) (simp_all add: power_is_def)
  then have "(x - b ^ nat e) * (x + b ^ nat e) - r = x * x - r - b ^ nat (e + e)"
    by (simp add: power_add algebra_simps)
  ultimately show ?thesis using assms(1) by (simp add: power_is_def)
qed

lemma power_is_times:
  assumes "power_is n b e x" "n dvd r"
  shows "power_is n b (e + 1) (x * b - r)"
proof -
  have "n dvd x - b ^ nat e" using assms(1) by (simp add: power_is_def)
  then have "n dvd (x - b ^ nat e) * b - r" using assms(2) by simp
  moreover have "(x - b ^ nat e) * b - r = x * b - r - b ^ nat (e + 1)"
    using assms(1) by (simp add: power_is_def nat_add_distrib power_add algebra_simps)
  ultimately show ?thesis using assms(1) by (simp add: power_is_def)
qed

lemma pow_run_power:
  assumes "\<And>k. n dvd red k" "power_is n b e x" "pow_run red b ops (x, e) = (x', e')"
  shows "power_is n b e' x'"
  using assms(2,3)
proof (induction ops arbitrary: x e)
  case (Cons op ops)
  obtain sq k where op: "op = (sq, k)" by fastforce
  show ?case
    using Cons.IH Cons.prems power_is_square [OF Cons.prems(1) assms(1)]
      power_is_times [OF Cons.prems(1) assms(1)]
    by (cases sq) (auto simp: op)
qed simp

text \<open>A certificate: \<open>y = 2^R\<close> and \<open>y^q = 1\<close>, with the inverse of \<open>y - 1\<close>.\<close>

lemma certified_prime:
  assumes q: "is_prime q" and n: "n = 1 + q * R" "odd n"
    and R: "R = q * t + s" "0 \<le> t" "s < q" "t + 1 < s"
    and y: "power_is n 2 R y" "power_is n y q 1" and u: "(y - 1) * k + n * j = 1"
  shows "is_prime n"
proof -
  have q0: "0 < q" using q by (simp add: is_prime_def)
  have R0: "0 \<le> R" using y(1) by (simp add: power_is_def)
  have d: "n dvd y - 2 ^ nat R" "n dvd 1 - y ^ nat q" using y by (simp_all add: power_is_def)
  have m: "2 ^ nat R mod n = y mod n" "y ^ nat q mod n = 1 mod n"
    using d by (metis dvd_diff_commute mod_eq_dvd_iff)+
  have "(2 ^ nat R) ^ nat q mod n = y ^ nat q mod n" using m(1) by (metis power_mod)
  then have "n dvd 2 ^ (nat R * nat q) - 1" using m(2) by (simp add: power_mult mod_eq_dvd_iff)
  moreover have "coprime (2 ^ nat R - 1) n"
  proof (rule coprimeI)
    fix c assume c: "c dvd 2 ^ nat R - 1" "c dvd n"
    have "c dvd y - 2 ^ nat R" using d(1) c(2) dvd_trans by blast
    then have "c dvd (y - 2 ^ nat R) + (2 ^ nat R - 1)" using c(1) by (rule dvd_add)
    then have "c dvd y - 1" by simp
    then have "c dvd (y - 1) * k + n * j" using c(2) by simp
    then show "is_unit c" unfolding u .
  qed
  ultimately show ?thesis
    using pocklington [of "nat q" n "nat R" t s] q n R q0 R0 by simp
qed

lemma trial_division:
  assumes "1 < p" "list_all (\<lambda>d. p mod d \<noteq> 0) [2..m]" "p < (m + 1) * (m + 1)" "0 < m"
  shows "is_prime p"
proof -
  have small: "\<not> d dvd p" if "2 \<le> d" "d \<le> m" for d
    using assms(2) that by (auto simp: list_all_iff dvd_eq_mod_eq_0)
  have "d = 1 \<or> d = p" if h: "0 < d" "d dvd p" for d
  proof (rule ccontr)
    assume n: "\<not> (d = 1 \<or> d = p)"
    obtain f where f: "p = d * f" using h by blast
    have "0 < d * f" using assms(1) f by linarith
    then have f0: "0 < f" using h(1) by (simp add: zero_less_mult_iff)
    have "f \<noteq> 1" using n f by auto
    then have "m + 1 \<le> f" using small [of f] f f0 by force
    moreover have "m + 1 \<le> d" using small [of d] h n by force
    ultimately have "(m + 1) * (m + 1) \<le> d * f" using assms(4) by (intro mult_mono) auto
    then show False using assms(3) f by linarith
  qed
  then show ?thesis using assms(1) by (simp add: is_prime_def)
qed

section \<open>The chain\<close>

definition times_red :: "int \<Rightarrow> int \<Rightarrow> int" where
  "times_red n k = n * k"

lemma times_red_dvd: "n dvd times_red n k"
  by (simp add: times_red_def)

definition p256_order :: int where
  "p256_order = 0xFFFFFFFF00000000FFFFFFFFFFFFFFFFBCE6FAADA7179E84F3B9CAC2FC632551"

text \<open>Multiples of the order, with the shape of its leading words.\<close>

definition order_red :: "int \<Rightarrow> int" where
  "order_red k = (let h = k * 0x1000000000000000000000000000000000000000000000000
     in (h * 0x100000000 - h) * 0x100000000 + h - 0x4319055258E8617B0C46353D039CDAAF * k)"

lemma order_red_dvd: "p256_order dvd order_red k"
proof -
  have "order_red k = p256_order * k"
    by (simp add: order_red_def p256_order_def Let_def algebra_simps)
  then show ?thesis by simp
qed

lemma prime_155317: "is_prime 155317"
proof (rule trial_division [where m = 394])
  show "list_all (\<lambda>d. 155317 mod d \<noteq> 0) [2..394 :: int]" by code_simp
qed simp_all

lemma root_191039911: "power_is 191039911 2
    0x4CE
    0x48B6081"
  by (rule pow_run_power [where red = "times_red 191039911" and ops = "[
    (False, 0x0), (True, 0x0), (True, 0x0), (True, 0x0), (False, 0x0), (True, 0x0), (False, 0x0),
    (True, 0x59E), (True, 0x83D83A8), (True, 0x1458054), (False, 0x0), (True, 0x7118388),
    (False, 0x0), (True, 0x31A2A5F), (False, 0x0), (True, 0x5984005)]",
    OF times_red_dvd power_is_start [of 191039911 2]]) code_simp

lemma one_191039911: "power_is 191039911 0x48B6081
    0x25EB5
    0x1"
  by (rule pow_run_power [where red = "times_red 191039911" and ops = "[
    (False, 0x0), (True, 0x1D04C45), (True, 0x215B2A), (True, 0x4B6102), (False, 0x44C02B6),
    (True, 0x1AB36F4), (True, 0x85B4780), (False, 0x3307BD8), (True, 0x5E1930),
    (False, 0x30BDB41), (True, 0x7B77EA0), (False, 0x3AF6E4D), (True, 0x4992F3),
    (False, 0x1516A79), (True, 0xBF1124), (True, 0x4503A25), (False, 0x12FAE), (True, 0x2F18986),
    (True, 0xAB96A), (False, 0x4638578), (True, 0x7684DC4), (False, 0x24D3248),
    (True, 0x33CBA11), (True, 0x1D07D77), (False, 0x20F9615), (True, 0x12DC0D0), (True, 0x1B7A7),
    (False, 0x29EE5C2)]",
    OF times_red_dvd power_is_start [of 191039911 "0x48B6081"]]) code_simp

lemma prime_191039911: "is_prime 191039911"
proof (rule certified_prime [OF prime_155317, where R = "0x4CE" and t = 0 and s = 1230])
  show "power_is 191039911 2 0x4CE 0x48B6081" by (rule root_191039911)
  show "power_is 191039911 0x48B6081 155317 1" using one_191039911 by simp
  show "(0x48B6081 - 1) * 0x424D3B6 + 191039911 * (- 0x1A75EE9) = (1 :: int)" by code_simp
qed simp_all

lemma root_208150935158385979: "power_is 208150935158385979 2
    0x40F17C36
    0x13EB608199212C2"
  by (rule pow_run_power [where red = "times_red 208150935158385979" and ops = "[
    (False, 0x0), (True, 0x0), (True, 0x0), (True, 0x0), (True, 0x0), (True, 0x0), (True, 0x58),
    (True, 0x11E10AF303595B4), (False, 0x1), (True, 0x1C602E291722AD), (False, 0x1),
    (True, 0xF3ECAADE86F525), (False, 0x1), (True, 0x1D01F6C56CED36D), (False, 0x0),
    (True, 0x406DDB99B0B2E), (True, 0x10D30B72EE2F037), (True, 0x36966282953FA),
    (True, 0x6D4C39573BAAD1), (False, 0x0), (True, 0x36A220C789B4B7), (True, 0x1820165),
    (False, 0x0), (True, 0xBE33551A32F3D), (False, 0x0), (True, 0x11834F278E994B6), (False, 0x1),
    (True, 0x2B0C450128649F3), (False, 0x1), (True, 0x1A2FBBA5F50CEB), (False, 0x0),
    (True, 0x3BF152AB29C4A2), (True, 0xAB93811E789B0C), (True, 0x3B5D61D63BCB15),
    (True, 0x76EE41F40BC8EE), (True, 0x1164B637D16F557), (False, 0x0), (True, 0xA47271BE835DF4),
    (False, 0x0), (True, 0x2093A02A1D6E814), (True, 0x146620E55A0BBD2), (False, 0x1),
    (True, 0x296EBCBB1821E7A), (False, 0x1), (True, 0x2013DD73154875)]",
    OF times_red_dvd power_is_start [of 208150935158385979 2]]) code_simp

lemma one_208150935158385979_0: "power_is 208150935158385979 0x13EB608199212C2
    0x5B184C
    0x2073D3DAB1275A"
  by (rule pow_run_power [where red = "times_red 208150935158385979" and ops = "[
    (False, 0x0), (True, 0x895BC9F0908A82), (True, 0x23B63D03FE6C967), (False, 0x68BC57F6B9BD06),
    (True, 0x2CCB4BB606689E), (False, 0x6DBD3D0A3F2186), (True, 0x36CF12A6CFBC90),
    (True, 0x2BF3B8BF40A3C90), (False, 0x14452F2FD63DB2), (True, 0x15D03A2F82F8B0),
    (False, 0x7EF22701AB792), (True, 0x156E6A8BFBD4E8B), (True, 0x1F82C301A38C124),
    (True, 0x1148DE35C68954E), (True, 0x23BAEF242E65CBA), (False, 0x18BEF79F7B0966),
    (True, 0x2077F3CCAAA6CA0), (False, 0x829F3DA44F3992), (True, 0x526661412CDC3),
    (True, 0x425D9A8D56FCC9), (True, 0x10A5B6B0D6793), (True, 0x204ECFA027C861B),
    (True, 0x12D69DC707C8BA5), (False, 0xCA21A4610E5CD1), (True, 0x2D104487C868149),
    (True, 0x298588AB081E84A), (True, 0x1D41DF64C758EF0), (False, 0x9B03285C6A53F4),
    (True, 0x125F004A7AB8B41), (False, 0x1C3E3EA12DC2D8), (True, 0x374A87AD537EFB),
    (True, 0xF1C6FC4CE7C8AD)]",
    OF times_red_dvd power_is_start [of 208150935158385979 "0x13EB608199212C2"]]) code_simp

lemma one_208150935158385979: "power_is 208150935158385979 0x13EB608199212C2
    0xB6309A7
    0x1"
  by (rule pow_run_power [where red = "times_red 208150935158385979" and ops = "[
    (False, 0xDFC84F9861E80), (True, 0x1FD2F3CEC105312), (True, 0x2DBC1FB75120C),
    (True, 0x16B7DB23B676193), (False, 0xDCBF79214B2D7), (True, 0x1B29CEECA80BF7F),
    (False, 0x11104B11027F94D), (True, 0xCA9FE2A0B2DDE), (False, 0x12D434182E5E717)]",
    OF times_red_dvd one_208150935158385979_0]) code_simp

lemma prime_208150935158385979: "is_prime 208150935158385979"
proof (rule certified_prime [OF prime_191039911, where R = "0x40F17C36" and t = 5 and s = 134368243])
  show "power_is 208150935158385979 2 0x40F17C36 0x13EB608199212C2" by (rule root_208150935158385979)
  show "power_is 208150935158385979 0x13EB608199212C2 191039911 1" using one_208150935158385979 by simp
  show "(0x13EB608199212C2 - 1) * 0x1DB8CF470F45437 + 208150935158385979 * (- 0xCCF4175E547302) = (1 :: int)" by code_simp
qed simp_all

lemma root_2624747550333869278416773953_0: "power_is 2624747550333869278416773953 2
    0x177CD5AE0
    0x2CE6579E04498DE3FC39548"
  by (rule pow_run_power [where red = "times_red 2624747550333869278416773953" and ops = "[
    (False, 0x0), (True, 0x0), (True, 0x0), (False, 0x0), (True, 0x0), (False, 0x0), (True, 0x0),
    (False, 0x0), (True, 0x0), (True, 0x1), (False, 0x1), (True, 0x511C39C659A9F614EC4C93D),
    (False, 0x1), (True, 0x77D26E75CF6BC9868F1241D), (False, 0x0),
    (True, 0x6669571581E792497A3E86), (False, 0x1), (True, 0x1EA09EEBA657619C617B59E),
    (False, 0x1), (True, 0x1E1708AA5EAA378AC52DE2D), (True, 0x97204B0D276F6297D044F),
    (True, 0x1BF7527CC3DDAF05965B942), (False, 0x1), (True, 0x1480AD808E41D4876FD7F8C),
    (False, 0x0), (True, 0x584529A1139055B73BCCFB), (True, 0x6124357F50892F069292C18),
    (False, 0x1), (True, 0x46E530F3C924173BF0BDCE9), (True, 0x5020735F975C4E1F0B2A4CF),
    (False, 0x0), (True, 0x1EE16D7B63399FA5DF60481), (True, 0x108B6DC208DCEC08FF89AFF),
    (False, 0x0), (True, 0x861A98AA3451A9131222F77), (False, 0x1),
    (True, 0x305C91B701E5256C0439D), (True, 0x826BE1AB5DD25A251EDD0A), (False, 0x1),
    (True, 0x13687AF23082691EFAE888C), (True, 0x1A794175C7209A09D295D5A), (False, 0x0),
    (True, 0xD4B801DA8D202F022A348A), (False, 0x1), (True, 0xBA12A92F8F3CC6C8625FA7),
    (False, 0x1), (True, 0x8ABFF2F342E942977E3156), (True, 0x1B70135EE9AF3D137531EE),
    (True, 0x33847A5FC70EE295604DDCF), (True, 0x724ADFCDD2C301C25839968),
    (True, 0x6A5E6550866380DE9F838C8)]",
    OF times_red_dvd power_is_start [of 2624747550333869278416773953 2]]) code_simp

lemma root_2624747550333869278416773953: "power_is 2624747550333869278416773953 2
    0x2EF9AB5C0
    0x7ABDBDCD50B580E230E79"
  by (rule pow_run_power [where red = "times_red 2624747550333869278416773953" and ops = "[
    (True, 0xEDB4C584CB4929CA8A9F07)]",
    OF times_red_dvd root_2624747550333869278416773953_0]) code_simp

lemma one_2624747550333869278416773953_0: "power_is 2624747550333869278416773953 0x7ABDBDCD50B580E230E79
    0xB8E00A
    0x3FFB8D1E0DBADD5692084FC"
  by (rule pow_run_power [where red = "times_red 2624747550333869278416773953" and ops = "[
    (False, 0x0), (True, 0x6F05DE70755868E7C12), (True, 0x1F951C195F16C8D8AAB64FF),
    (False, 0x6BA4FAAC50BF53CDCEB6E), (True, 0x6389D49901121F4F4F74C4B),
    (False, 0x5199A0FE15E71B54528C5), (True, 0x83C000C8A2E27538135A8C9),
    (False, 0x63647A697D2A76DB2D608), (True, 0x1CA0D008B97006E6160506F),
    (True, 0x64BA52484075007A23CA464), (True, 0x871330CBF72A60CB27FB467),
    (True, 0x66AD52A9FDB675F556F5BC), (False, 0x4962BBA628D09EDF27481),
    (True, 0x4A8B5542D3BDE96E1F73EAC), (False, 0x1EB0B69B1FF46DAE76D4A),
    (True, 0x409F873F107DBF29C9B579D), (False, 0x1002921D83CA04B52A02B),
    (True, 0x39AB207834678892B3AABB9), (True, 0x30A3A88A1AD16E485F7F8B),
    (True, 0x3F9A5D411985DD1CFC99FAB), (True, 0x2ECC3BCCC002331362FDDA5),
    (True, 0x16FC8D70A520624AEC9808), (True, 0x4822B2587793F79327BD6),
    (True, 0x4EC593E1B9BB13D5B41D47), (True, 0x3C890053EA9E90AD7BBBA4),
    (True, 0x55FA1E3E918FD02963CFB75), (True, 0x6F7429B29E9918104CE8F4),
    (False, 0x36D88F51180B62961185F), (True, 0xF452412B299E5B1D572A9),
    (True, 0x27D99B04C2B7415E05DECAE), (False, 0x2ED88C65ED0B24A134E5F),
    (True, 0x37E2665F597AA22613DD38D)]",
    OF times_red_dvd power_is_start [of 2624747550333869278416773953 "0x7ABDBDCD50B580E230E79"]]) code_simp

lemma one_2624747550333869278416773953_1: "power_is 2624747550333869278416773953 0x7ABDBDCD50B580E230E79
    0xB8E00B0D71F
    0x5E12105351EE68632E0791C"
  by (rule pow_run_power [where red = "times_red 2624747550333869278416773953" and ops = "[
    (False, 0x39DFC67548EAB3546632C), (True, 0x46B80208E25E09FF2ABA23),
    (True, 0x14A2A5EEBF4062AE1BA7B93), (True, 0x1EC49A1144A7815BC0D7A6C),
    (True, 0x30388D29E9A1C34F591FE), (True, 0x1E74DBEA2ED1D447B2F0BF4),
    (False, 0x5527C18CFB06C442172C), (True, 0x609392ED871B300AD0EA0CA),
    (False, 0x40CC1D4A37A87309B0B8C), (True, 0x14B7F3DDED4245200AE770D),
    (True, 0x156558B3152A7B5329B012), (False, 0x543C0CFAD6C0A4438A4D8),
    (True, 0x11E1DC85C955346B3C700), (True, 0x4D3C3E4AB88DCFE58688167),
    (False, 0x4604677A574B834937F3E), (True, 0x41A15C9C430741BA6BD8499),
    (False, 0x42F55E6827D9EE75B1312), (True, 0x11ADF9ED6D39A74B21A4A5),
    (False, 0x3DB70A0D4ADCDD0167503), (True, 0x4F480A30D9091B6A4F83E30),
    (True, 0x1AF176321A094D7384CEB80), (True, 0x280D8FADABC04B351EFB36E),
    (True, 0x1990E0100CB5C8099A3810), (False, 0x3B85ACD1CEB95AC7CA878),
    (True, 0x19A6AAF571D9D9211F3446F), (False, 0x129579E516D114C518813),
    (True, 0x1C640CB35093965E0321CE8), (False, 0x4885AB790AE227DCC6058),
    (True, 0x4A8FEFD8EC5366AB30D6141), (False, 0x7850566779F3460660705),
    (True, 0x194BE04E2015314736B2BEA), (False, 0x6A422F82B501B9D62727B)]",
    OF times_red_dvd one_2624747550333869278416773953_0]) code_simp

lemma one_2624747550333869278416773953: "power_is 2624747550333869278416773953 0x7ABDBDCD50B580E230E79
    0x2E3802C35C7ED3B
    0x1"
  by (rule pow_run_power [where red = "times_red 2624747550333869278416773953" and ops = "[
    (True, 0x4136BC37ABBB8A7F269657A), (False, 0xEF624F15AFC7FCD0B4C8),
    (True, 0x603E5CB4EA54191017B481C), (True, 0x3696A516B0C9134ACFD345D),
    (False, 0x676E65AB4CB84C82984E2), (True, 0x477043FD63D9CDB25B807AB),
    (False, 0x17FB8E4814B60B5464704), (True, 0xD0EC47420AC1A4312CDB62),
    (True, 0x4C9703691C610787DA49C68), (False, 0x367978AF37C2753A8DD6A),
    (True, 0xF39C6FD816374AA9F3639E), (True, 0x5A459EC493C763C98A8EEB),
    (True, 0x12AC04E7F139BC0836B8D13), (False, 0x13C6856D3810672C4377A),
    (True, 0x4A9B5E01EF3E66D746A805E), (False, 0x6771FBFE57C8871EB8DBF),
    (True, 0x9DE41DC5069607B8962DD7), (False, 0x73A99F02D92F3AD1D9AF5),
    (True, 0x45A67BC2474660BFDD0BD0D), (True, 0x20F3AC99644AE7BDEEE8985),
    (False, 0x76F2AB84982E0E00C0DB3), (True, 0x4BC76E3B1B985A327C4CAF7),
    (False, 0x3B0ABFDA54D611842A280)]",
    OF times_red_dvd one_2624747550333869278416773953_1]) code_simp

lemma prime_2624747550333869278416773953: "is_prime 2624747550333869278416773953"
proof (rule certified_prime [OF prime_208150935158385979, where R = "0x2EF9AB5C0" and t = 0 and s = 12609828288])
  show "power_is 2624747550333869278416773953 2 0x2EF9AB5C0 0x7ABDBDCD50B580E230E79" by (rule root_2624747550333869278416773953)
  show "power_is 2624747550333869278416773953 0x7ABDBDCD50B580E230E79 208150935158385979 1" using one_2624747550333869278416773953 by simp
  show "(0x7ABDBDCD50B580E230E79 - 1) * 0x693DE961C10A589C336A85A + 2624747550333869278416773953 * (- 0x5F31BBE910222CA6ACD6F) = (1 :: int)" by code_simp
qed simp_all

definition root_value :: int where
  "root_value = 0xC0915601E1A4A1534A1B5BB0F18A5BE8C8606856C8892723C90C7158D2E5BAAF"

lemma root_order_0: "power_is p256_order 2
    0x1E2F6
    0xC4F95B5BDBEF9683A429D4F913DE2EB14B4CCE9C906172AEA0C4BC2356D59BC1"
  by (rule pow_run_power [where red = order_red and ops = "[
    (False, 0x0), (True, 0x0), (False, 0x0), (True, 0x0), (False, 0x0), (True, 0x0),
    (False, 0x0), (True, 0x0), (True, 0x0), (True, 0x0), (True, 0x0), (False, 0x0),
    (True, 0x400000003FFFFFFFFFFFFFFFBFFFFFFFD0C64154B7C69B08404BFF617),
    (True, 0x8951F6088A916B38B8788351B3E5D857BCE87FCEDBFB629CFE5E990F3620A619), (False, 0x1),
    (True, 0x5DC5DC9616A6AEAFE491FF9388CC873FC6E4373601445E6F5E4F7F9F23A7E826), (False, 0x0),
    (True, 0x29106F52DA7BF4E622823794F0091B983193ACBC72B0947DE11C5EB7FCF37538), (False, 0x0),
    (True, 0x125A715BCC4512F85EF827247B451FF160A5824DDC9C8723D73BB0F752282940), (False, 0x1),
    (True, 0xBA9EDC705ABDBBB16878BAEA1D6AF2775934AB215F6DA970B41762B78FA67F45),
    (True, 0x1007EEDC7F71B4BBD910C9ACECEFB3BCB07DE848BA703EF1A011F980FD0FFAA1), (False, 0x0),
    (True, 0x6DD6920DFC7B0FF5587E569055BEBF1D20CCE637C60FDB1D3237E33090E3CB8C), (False, 0x0),
    (True, 0xB46C458A7B7AE0D1B05FAD5DE59FFEEBB7E1CD0BA78F894C07CA91141DCD8F)]",
    OF order_red_dvd power_is_start [of p256_order 2]]) code_simp

lemma root_order_1: "power_is p256_order 2
    0x1E2F6018E
    0x39BC4CF79C13C00675C6CF48CFED2EE1F388E483F365792691E6405DCE5128B6"
  by (rule pow_run_power [where red = order_red and ops = "[
    (True, 0x978EC6C819A1ECA64FD2F167F977003C797148F6E404C27A34ADA87B72C47925),
    (True, 0x933FF9DE5A10AE24E91BB5FC9B0A9D34A62702FDA8E4913BB7D82BE7E6E86),
    (True, 0x8077B46DFB905A0A6FCB2A2C14E5FC2D568211A82BA46E6AB0E7D1EC623F203B),
    (True, 0x14824949B1DC0E2E4EE817AF614A2ECE0B538DD19E0BAF36F40DD94C58A20662),
    (True, 0x183DC9573483D4DC658346B01EDDED3848C0BA3DABFEFCB329731E86832C3EE),
    (True, 0x2F5B41A06632D075F57DA2FAC57BBE40AF65D989B231DE9B9D68955A9FE63B99),
    (True, 0x2406F0E072B551F945ECEC9D55AA992D4CDD0538125AEF613C59266F61F077D2),
    (True, 0x2032A004D844ACC277674A1FCFA77B904C1859C114CB9D74BE3764926EE500EA), (False, 0x1),
    (True, 0xC4EFF3918C004F44FC723464C80B0EF8C09E745224C944948F9FB42E170F6F45), (False, 0x1),
    (True, 0x56FC819DAB5964602E6B3CED8A1F07FF64BC1A4E636FC690578B267C4FFA2F21),
    (True, 0x7FD6888794BB02D1C1BD52AA9B46BAF29D599BDDCCAA59CF110DE33C3BC8D084),
    (True, 0x361CD6B76DFA8D3FC60DCDCECF3E34DF3BD31AB8911FC9195AB22120255BA89A),
    (True, 0xA79ADB95EC80CB1C474FDC2F84C074F360782DD26685F87C97E57FFEEC6BBCD), (False, 0x0),
    (True, 0xB83B149C964201C3546AFBE1DF97EA94A570EA87B7FC5441A3A54608736F1DE1), (False, 0x1),
    (True, 0xB2866489EE127854525CF2B91B1D86996646DB1EC86798F2DF6C444EB4D8B6A3), (False, 0x0),
    (True, 0x265885C85A90245DBA22A362E633CA4BA1E19AFEC910E1B24F92012891F9BA)]",
    OF order_red_dvd root_order_0]) code_simp

lemma root_order_2: "power_is p256_order 2
    0x1E2F6018E5D56
    0x689DBFA3B7F7FBAE0AB99128645D50C82D5AEDEDF281BAA8119463EC05FAE3DF"
  by (rule pow_run_power [where red = order_red and ops = "[
    (True, 0xD0564C7735761769789F6F144FC4BA5AF597CD414988A689333DFCB9E22C3DE),
    (True, 0x12F2A78B7D63E3AB596D3DDBEBD33DAE409EA225D5772943E95EA26E9BF983AA), (False, 0x0),
    (True, 0x1B9227AE16FE4445243759AADDA68B48B5597840056EA5922DB3534BE494E084),
    (True, 0xBC015B384F48F0F093B782DCB9423548FC6CF2D7EE82AF23BD4E8B29405D2EAF), (False, 0x1),
    (True, 0x2636C92A4FC3B6C806F32BA8E4900A00C538AEF436855CBF7323E39E920FA), (False, 0x0),
    (True, 0xAF2490456924C2DFC042A8334616363B20AC94C200E594A8DD7BD9234F5D3B44), (False, 0x1),
    (True, 0x10F1688E58599ED7F55997A9AA82C0441C3BCCAC201354E4A89F479A7218E89B),
    (True, 0x147399298A4F623381CC3A9BCCE35B646089A6EAC347817D54F1037B34753A39), (False, 0x0),
    (True, 0x4403786B7AF1090CE944E8ED26DE07B6794ED218FA9371C8B596B27312D24102),
    (True, 0x97884BA5E4CED10225F066CE4081833FD6620162C845FA9C840ADF786BB1827F), (False, 0x0),
    (True, 0x9FC64ABE3CDAA3064CCCAB20625E308EC4822A0C58864B2DA3F38CEB4514FFA5),
    (True, 0x42C0BA79259E57007CB6504BCF11843DAB8D0127E9D2E558DD59DB667D7C0ED5), (False, 0x1),
    (True, 0x6B150E4638698DF77EF4ABF98F32E9418036D7224EF66308BAD2BBD1F7CF3BF0),
    (True, 0x3B5207BB616510E3CE8BD00954986D08CFCC1C764ABFF0C2EC7E0CBB28646DB1), (False, 0x0),
    (True, 0x25D2780E096AE87662CC9366E6A27B01F92DFE616F0BE5102368F8D2A6854F), (False, 0x1),
    (True, 0x91C381453C0F15675E7D6591447B6B5B631AE1B1DDF63EA004F7644278065E2)]",
    OF order_red_dvd root_order_1]) code_simp

lemma root_order_3: "power_is p256_order 2
    0x1E2F6018E5D57B5F8
    0x48E8DB1BA6AD93E9478779F95A773159F65EA1C260388ABC0516D81E5183F8D8"
  by (rule pow_run_power [where red = order_red and ops = "[
    (False, 0x0), (True, 0xAB0233A739FD93264DEDCC669663624CDF6EC279A82FD25F3CA3D494A0D23F30),
    (False, 0x1), (True, 0x1F865F594412672B3632E93176F7D7A24D942E832EB6C5A4C1C3900BC43A4541),
    (True, 0x66C4187CD10493AAF7156BB5EFFF63A7BB5EDD36B0C8B358E38A49506A2A868D), (False, 0x1),
    (True, 0x12AB8547E101C00B09B9076D8B61CF6F3BC401744EC46B7DA8EC2C57CAEC8BE9), (False, 0x1),
    (True, 0xB0BF42A1875C4F7F2F8D4259D58FA4B796CA6D75D04F843C706D0CDC122C3C3D),
    (True, 0x4BA2C0505E63E8FB62BB5021735D16E38726C00EBE4241CB4A6E49314C754D63), (False, 0x0),
    (True, 0x5E8633FC77AF7803C08CB2EE3F0B0D4DED4F4202E72005C693EAC085667746C0),
    (True, 0x4B1128BC3D58D84BA3D9CECC0BB73710D17750C08D1A6F92F115E123F9C6CC), (False, 0x1),
    (True, 0x597EE523B64B9D6BD02A642BF951E7022C1EBEBCC9619D6B42F21CAD6C6F75DC), (False, 0x1),
    (True, 0x49DAF63B614C6A54F53BEFBF1C1B2AE1014DEAB58C5D3F91A9A47C4BD0B42047), (False, 0x0),
    (True, 0x21627B5D1F02370F0CF103DCAFC9C724F53C930E09C6DA0C90ED53E82A0DBF97), (False, 0x0),
    (True, 0x153CB27F48258CD3991BAAE10DA0807C67DA08D4742ED82A8B959F0E9A549CD9), (False, 0x0),
    (True, 0x8211273DF7CBB72D683C23783B91D21C94417B5817E4A38BBBD09825B5329571), (False, 0x0),
    (True, 0xF221CA73DD311172CECEEA21B81D7B82ED1E8AAFB7B490BA1E16AB37830B6AA5),
    (True, 0xCAE75CFBE2C1EB234D6C0779DD683DE68370ABA366021774943F5FDFAD6CDA77),
    (True, 0x891CC9D00DFE357188AA735B0CE337739580A98F8D6F3B6A0C2F0CAB2159618C)]",
    OF order_red_dvd root_order_2]) code_simp

lemma root_order_4: "power_is p256_order 2
    0x1E2F6018E5D57B5F98BBC
    0xAD466A94893281D572AE0FFD519920D5EE79862942176CAFEA4CA5854A1081FB"
  by (rule pow_run_power [where red = order_red and ops = "[
    (False, 0x0), (True, 0x530F3C3600AF7C192AA73CF32875AD9AC482A8A6B823BB2A832B0A68EA79F3C6),
    (False, 0x0), (True, 0x4177BDD6D4E0AA5348CED207DCD29620C129365D02B0AC2FF25DFA01213878D3),
    (True, 0x485DA5397B0DA5B48917A575EF7C2CB914536AB2275BFF716156FF71A79B7443),
    (True, 0x1521DF8B75FCC619D3E3EC6B7025A750942E69BA29D5A729D4AA3D98EB301504),
    (True, 0x31BCF1EBE333ED757B447BAAF621C854D5385606D928D5D7AB7758FD9F178EED), (False, 0x1),
    (True, 0x2CAB1837EE5CD4BE5B7CB117595EC4F7BA8FA72AB5D37D604FB96E6125DA2898),
    (True, 0x497D96467EC85511722BE09CFF7780406AFF265278E8656468176406DD4FA9DD), (False, 0x1),
    (True, 0xCFC9A5D9B78FB530EF463C3E663329A8D2E8403F16E010A4D82B61981198A98D), (False, 0x0),
    (True, 0x17E03813E0D2EE03F107DF2108AB76686916251C843B89BCC2B06923790758B7), (False, 0x0),
    (True, 0x90C6FC47504E0AFF6F5419BEFD552C7BBE38F5E97EEF3ED6771C7D0E254351C0),
    (True, 0x6EB56FC56127DCD9FEC1BD5AF36A478F45C7F8337827AB6E297FEF8A65F58546), (False, 0x0),
    (True, 0xAF05228D75DCE5FE461E9B933A7BEDBF2569A94B1ABDAD4A53E3E67F505B7A75), (False, 0x0),
    (True, 0x51F386F649230CAF23091D5ACEA243AFDE347EAA0A3929AC802F627644FFDBCF), (False, 0x1),
    (True, 0x3C2317D2083AEB6B5240A5864C0B3DC07E6289E14E394359301C905E471A09C9), (False, 0x0),
    (True, 0x5C5E65E6B9863FF0E2DEFD23AE0675FFE26BB131F6B335C35C0CDC322A5C82E0),
    (True, 0xA300191A30792B4A3AA814F0EC4343580C79459EA429CC178FCAC152BB33475)]",
    OF order_red_dvd root_order_3]) code_simp

lemma root_order_5: "power_is p256_order 2
    0x1E2F6018E5D57B5F98BBC79DC
    0xB0A2520DCBB1ED5FF69A8664B870048406DFBB45AD46A5E51357321831E9A542"
  by (rule pow_run_power [where red = order_red and ops = "[
    (True, 0x75483F6BAC50E25174349665132D7752D4B133FA087CF9BF05A73085F6234956),
    (True, 0x6E4D182D89FD26DD84FDC2779F71EE69502C2E396EDB17F64E28B52503E9D26B), (False, 0x1),
    (True, 0x4F6F74792E5E55D633AAEBC0A7F632748E32E751BB2013ED74E6C69846AD35), (False, 0x0),
    (True, 0xAB44C7E7A490FB53ABBCED6D109147966B97EA909235FFE0990F442EA700EB3B), (False, 0x1),
    (True, 0x70D6CF331140C9BFDAD29B13A7831407488A8DC5C029456DE5CDD6CD1D61089E), (False, 0x1),
    (True, 0x20E20C66F03D8DC8B5526BC2359998AB98FDB698DCF6C09A5827AD11D9E7228),
    (True, 0x2404110BD8F0482B6D2FF034A4F35578BF7402172FCB8C1F0E8CAEF2DEF8B50),
    (True, 0x3C8BF7FC98D57C9969F6E1FFC4C34A7305789F65B456D935497B4F46E0EE7C21), (False, 0x0),
    (True, 0xE6208774272353917F8FDF6B2FBC795ED8C6D4C9B109D42C7A463EF86A3260B1), (False, 0x0),
    (True, 0x1E00FAF6F15A8A2D5818994ABE7923FF1AFCA557D7E6BE4806EC78B4AB1CFE43), (False, 0x1),
    (True, 0xEA35F0987E0E880C1D5A00CC2C66117284FFFA948F5D10DFB774452A41D0523A),
    (True, 0xACD6B86EC810FCD0C13F938948145D9C5A60B772E113D40C3EDF002576A61FCA), (False, 0x1),
    (True, 0xABA6C9A113C24BAB8FAB94D653E8D09BE83F6D6B15670C3785349D78A72B2387), (False, 0x0),
    (True, 0xF026E9C68C227EBBD09AE5BE45554827165EEFEBCD25EDC596D1131E886EA193), (False, 0x0),
    (True, 0x2A4589A42175E8F193654467F26C0D7B95CB20E0B04A3AF2F1112ADCFE98074),
    (True, 0xCA3655E0B189675839D1FE11485126C412264CF90D7008BDA17ACF3B5A16685E)]",
    OF order_red_dvd root_order_4]) code_simp

lemma root_order_6: "power_is p256_order 2
    0x1E2F6018E5D57B5F98BBC79DC3858
    0x304BE6D767F08DEA7D6C5809C3566A7FB2E560AD568F62B44C1F446079973A42"
  by (rule pow_run_power [where red = order_red and ops = "[
    (True, 0x79DF97BF65B6E28F9A971F071FA4C23A08ACB5A0B48D99E8D0A72310490371C0),
    (True, 0x75131AFFB9AE97FFF750C0EA06261FD8CB3ACBF770D7EE921D2EC096EEF89358),
    (True, 0x6D6E0952DC286CCEF5009826B580CA045292BA4545EE78DA737C226F12802E65), (False, 0x0),
    (True, 0x2BFF8613F860F088C5F1B459784F99303B56900B5B1FC0A8EACE3A163DEE0911), (False, 0x0),
    (True, 0x1857108B9965A9E7F78FC304E5B9F5A2FDE5EEEECB5B66AB42089CFBB5AAA7EE), (False, 0x1),
    (True, 0x8D6F199E7EA802059CFF72E28CF45B422D35AF41193370D10B9D0A34F80D664),
    (True, 0x2E0A15F85288BE12FC40EF114BDC076FAD30061B28C3F63959EA9ED270529CD1),
    (True, 0x174CA25D5A8DAAA3FAF496DDF2EABD0903F4204648EA7972E1CCFCD19B2686),
    (True, 0x417BD204DD4CD3B83C399073D6C18BFA98F7C02320A2992528A8C9F699244C0E),
    (True, 0x51724B91CC21E83CFC80C0B3972AEC716E2F0BA2B3216517B3E40A2C6C96A69B), (False, 0x0),
    (True, 0x38B8F6386D493F5630C63811C25276FFE6C52A2D16F588481701B887F6DA8ED1),
    (True, 0x8A68A161B63E508F1827ED6EF0B5FD91EB0978B416A0244AB47F207FBF3BD153), (False, 0x1),
    (True, 0x329DE7740D1EF823B7A7D4ED7B156720A45EDF4A75912211AE5ACFC6E75ACDE7), (False, 0x0),
    (True, 0xBD653DEEEA0FE353A229D13626D35F1C7CC06B33839576FD7224AE9D5BFA676E),
    (True, 0xCEEEB622CF84D47D6FF8C2F9AFB18CB6D0F3515CEE205E26C8434AD2617AAD41),
    (True, 0x1A292D7C7A2C8690F7169D82BBE7484A21E1D0B0E0EDBAEB1C68B9143F11C137)]",
    OF order_red_dvd root_order_5]) code_simp

lemma root_order_7: "power_is p256_order 2
    0x1E2F6018E5D57B5F98BBC79DC38587FB2
    0xB0593DE9F6261FC7C3228801C601B6630DCF788D2EED260920F9E7F4F28987C0"
  by (rule pow_run_power [where red = order_red and ops = "[
    (True, 0x91C8D11E2756D40EF0A2C28BCFF85CF4AC25FBB78D2F3AB1D0C471287F53FE8),
    (True, 0x86B616966159CAA8B734158ED51E020C7E63B3E9FF6B4420C2B832E95785F77), (False, 0x0),
    (True, 0x314DCB59356BEDDE554CA2D743665493C32572E3661C282EF30479EA6EA29F11), (False, 0x0),
    (True, 0x126A05B07AB7212420FD5421C22AA63CF00AF098D541135091FB99713B713142), (False, 0x0),
    (True, 0xE06EAC1F8B7551A845BE756262AEB044F66F8B326AD3A50ECCA65456287769B), (False, 0x1),
    (True, 0x3A3E906A3273E20ABF28EC09596C6CD445500EA6C2DF855D1489E5028D34E323), (False, 0x0),
    (True, 0xDB190410FE2E3D39186CF75FC92C65AF325247F46AF4848DE681205D45B8F04A), (False, 0x1),
    (True, 0x45ECE14E697B1D56C4F46A57932A67952B0CBE888A2658255B8DF97789EDB), (False, 0x0),
    (True, 0x4FAEC36213B0BDE0B91A29AACF4F336BBEE49B92F487FCC73C2DE575D34D106B), (False, 0x1),
    (True, 0x8264D6D56AB40D2BE1A0457FC461A75FA82AC6CBCDFC51BBCBDD190264F491B0),
    (True, 0x7691802C5D786071464E4D86EF0F621CC3C947A67D29EE2F717BC8D3439C5A4), (False, 0x1),
    (True, 0x341A7E3D43DE7D6E43AB32878B30089975F0D27045206718B255496D66263B), (False, 0x1),
    (True, 0xC37AE33F4E713D83E2BDB0A695B8A7675CC86F9701E793C657621F887A7FC7F5),
    (True, 0x643844DBBEE6CE9F02964257DE1126FA13AAAEC61954F940AFED586413210E5A),
    (True, 0xF4716DDDAB2F9FEA8D03C86522DDCF24837391E620C06E6CB8A860834C1057), (False, 0x1),
    (True, 0x20EBB083096E30F05DDF1F71089CFACA2C4B59F60E47B50144B5F71732EC4001)]",
    OF order_red_dvd root_order_6]) code_simp

lemma root_order_8: "power_is p256_order 2
    0x1E2F6018E5D57B5F98BBC79DC38587FB30A48
    0xBA8AF7DF3AF5EAB02BFF478285FDAD48F54F5659DD6B892799F1EF5D898FEDD0"
  by (rule pow_run_power [where red = order_red and ops = "[
    (False, 0x1), (True, 0x2486595045BE6F2CE5977EE2E186C87085C7D1D94FCB33A33D21DA821FB27C06),
    (True, 0xD010B946A052A3C48401AC0DB1850DA609EEF1503826F257FF50A3EA90EED452),
    (True, 0x76050735BABD051C9EB922739C21753ECD2EEF9D0F7F0614C19DAC963838A82B),
    (True, 0x112A231ABAC01514C53BF3CBCCD06F764DEA23150407110F811ABF8F5EC9D25),
    (True, 0x213D3E78B6FBC4D7EA9E8E6131513AD36C23A945449C6A0FEAF1B85E090C9243), (False, 0x1),
    (True, 0x6B750625CE0D9B192C06A92F6422611CB1EE84A8EA44F00370014D216B44C317),
    (True, 0xEE84EC2A47D11F3A2CB3105633A058E7D8D00B47BB24723437C881D9D9D3A85C), (False, 0x1),
    (True, 0x9BADBBDD37162FB7BFBA7C91E47F53B4C7DE0A6F04E09DEAF715B88CBAD50BD),
    (True, 0x5124C0703CF5885756A60F69C4AEC2BAE0CC713B46AEC392BFA1F208B16BED64),
    (True, 0x3CCF0DAAA02BEBAED1BF03EF1895BFCD90BB3BAE55910C2C69D53ADE41B4BFC), (False, 0x0),
    (True, 0x10CDD619348892D95F4D4FFDBC4AD02BC596A0D8B8064791ABDF3E4B77BDF46C),
    (True, 0x15D37CA4D74ABC74574CDC53A766C2A5A94F2AB34D89ED3892D7A625DDEB395A),
    (True, 0x66485A032503088D4D14B971A4AC1D3735B20C8CEF61855942FBFE588DC1EF23), (False, 0x1),
    (True, 0xA26A73BACAF0F37CDE3B81D36FDE3CE970F061AA73B8F1AF7D7E292E29602263),
    (True, 0xE123E6571481AB8E991A6E65322DCBA92DF8CEE0CF2BBB32659F5987B921E865),
    (True, 0x6D0DAFC549B882A3A64E531A77B94865470ED4B23A15489ABE2D0F70023E9C41)]",
    OF order_red_dvd root_order_7]) code_simp

lemma root_order_9: "power_is p256_order 2
    0x1E2F6018E5D57B5F98BBC79DC38587FB30A494E14
    0x3E6A337A9127D3151966C9D34AA942EFE8BE1647035C6419BDB3EC89C96AF728"
  by (rule pow_run_power [where red = order_red and ops = "[
    (False, 0x1), (True, 0x358D0F066D47061FE46EEA74BD267A47CC178545C54B24AD809BD5FF9305FB94),
    (True, 0x8AC5DE56160A215D155BF28FDD8D56F973257E8169B2600A189DA178B7DAA9CA), (False, 0x1),
    (True, 0x9D6008A6AB0D554F8D61E3BA893B965D60A8C707453212E89F1B85AC3ADE7B14),
    (True, 0x7195D96782A7078E50E4535F6C8532E0898AEF8BF368E43AD1B2EBD00D77BA1E),
    (True, 0x2728CAEEE1D8B816E91D5C2F993F187182A49CA96B1395BD8C93472978B94286), (False, 0x0),
    (True, 0x205ABAE32EEA06D77C7FF0F08F95F4D51F3FC88E6D793539AC69E6F6175E14C), (False, 0x0),
    (True, 0x51EB46E36C00E745137121E40B002BD03DA79EE31520275D1E54A447CB193488), (False, 0x0),
    (True, 0x1C62667E6823D543E757E873D901C23021B4ACFF3A4AB5CD749F8802F65D470F),
    (True, 0x462ABA330D208E3ED46B21E0CC659B3D67B3D5741215FA4E63ADB00F563B408),
    (True, 0x8BCBB833DED7BAA2D12D5E2AACB86DB53A7CFCF10A9D500F6E6DA8495358B559),
    (True, 0xD7351E66ABEA9A383A49FAB8DBF644D88B6335F62AD4EF398411614AB0821C94),
    (True, 0x69174452D6E5ECE157FB0777F732B47DD535127092A1101FF678FF00F43A127B), (False, 0x0),
    (True, 0x683747FFDAB5513B08FB1178D8D83B205EA12648B32D9E31D8EC5B0AA95DE3A0),
    (True, 0x689EB224E848847B3D1922F09F593EF1E9E67D9D90AE5D43587416DB602BF45C), (False, 0x0),
    (True, 0xF8397D7F3B4E9B6BA305DBCCCA294A77FD4FBC9FD1182117B90FFED6F6AFBFEB),
    (True, 0x55242B8BAD532487286BBF3E2FA4E0EE3C2E04879869B448F160D9F63AE1C61)]",
    OF order_red_dvd root_order_8]) code_simp

lemma root_order: "power_is p256_order 2
    0x1E2F6018E5D57B5F98BBC79DC38587FB30A494E150
    0xC0915601E1A4A1534A1B5BB0F18A5BE8C8606856C8892723C90C7158D2E5BAAF"
  by (rule pow_run_power [where red = order_red and ops = "[
    (False, 0x0), (True, 0x3CDE73F86584B2EE693878A82ECD1AE0A74E2B4A00AC9C848819228472AA5FE1),
    (True, 0x336413A2434C30805E6A83C8FC89394D6E4815ED571E48DDC3F66591C8A4256),
    (True, 0x4EABB02C1995974C03C1F5163A44D6D424539BDAEF269EBB5AE50B606CC49C0D),
    (True, 0x69EADDA19692BC62380C568504E3BD28316A92F69EC8A1FCCF0DDE91D8FC5E11)]",
    OF order_red_dvd root_order_9]) code_simp

lemma one_order_0: "power_is p256_order root_value
    0x10E
    0x19142C1508C83641DF0CDECBB981EB576230D6F349E265F9BD4EFFEAD187DCBF"
  by (rule pow_run_power [where red = order_red and ops = "[
    (False, 0x0), (True, 0x90DA5385EE58259F3390D485047059B429C010DB4A36CBA21CA13D4838BAA8E8),
    (True, 0x5425F6AB116ED06CC125F5760464EB18D1A722F8DC46DEC80D83CE28AAAAE698),
    (True, 0xADCC41752F4D6B46B1D4D6F9F0359268ED368095FBFB3DCAF39FCDDCDBD1E7C8),
    (True, 0x4567A223EDA66007276A4399E310498068910D3CF18A4921ED25C0111CB999E),
    (True, 0x9A25C0595D1A818395890A65DB6C76DB3039FB07F9B78391934E0930EFF51E7),
    (False, 0x29E1537974150D99FA52A710C4B40D1849DE77B4625EF3CBE69F6B35C5BB9637),
    (True, 0x2A2538E3378872AEF74B328F55553FF20C86A0CFDC33BE1C39C5941137640A9A),
    (False, 0x8EDB62A202B7EF6916D8F35FE7CEB9947392E36218277F732FE994EB77AFBB05),
    (True, 0xBE53B79BD811832DFC8CA2B0B804315C21B5CF88F16AC238371713B9381A638),
    (False, 0x7E7109791162CE8B0630EB3A2F3D264D3EA4C1066E120038910BD9AFEDE1E3C4),
    (True, 0x6F3D6E9A5943468EFEDEA19268EAF235C4A67152DEBAD6DAF5C26B6ACD2F8B01)]",
    OF order_red_dvd power_is_start [of p256_order root_value]]) code_simp

lemma one_order_1: "power_is p256_order root_value
    0x10F64
    0xB8EF0A62409C215BD6D54634D7A51B5FD50C4BE3DEB494075AA26F81F20FF196"
  by (rule pow_run_power [where red = order_red and ops = "[
    (False, 0x12DD5DE9C75B9882B4D12F50C21BC277FB54117BC0FED4138624D0AC2E6AF03D),
    (True, 0x2E7A659957EC385E75D7DC4C0C65BB8F08135EF99E20CCDD78474C6CE7B78AC8),
    (True, 0xA6B43AEF385D434A31080FD70D2FB20FF5D8C207FDD4AA7916705961A78D3D),
    (False, 0x6BC03BC41FEFE27D371B412BE323007A2781580CDA29D813B88654BDCD2797A2),
    (True, 0x61D2E37A1ACEA1314C934BC6714263C177BD5363278B709BCB3437F3119356D5),
    (False, 0x30C4E97929F203B69561D24B7F3687608C719D62A8FB6EF861D983E84FA7AD6D),
    (True, 0x11B190BA52B12B24E85BECD3748F2A3B99A4F8454C359D003056C65CF9E6FAD1),
    (True, 0xE54E25E7B38A456D485B6B5B221FBF7C98D742F0666E9B5958E4F6F633EB636B),
    (True, 0x6C27019536D856B450A0470EBACA214B0ED1909B43E623276CC3B1156E50F27F),
    (False, 0x848F5F81E2E2398E81BE6A5CC3387ACC3CBDF2CFEA7C42BFCD1430F686DE0208),
    (True, 0x561E46B390D46E0F8BA643A69917153EAD45934B9E0C3F02E243FE64B24242),
    (True, 0x21AD78E75F07AB7687DAE9E204D118AA6A2D08FE136682582FF8A46C95D70D8E)]",
    OF order_red_dvd one_order_0]) code_simp

lemma one_order_2: "power_is p256_order root_value
    0x87B23E
    0xA65F4DDA491275360B3EF9DA140CA70C526382BC6347978C4E8927CF82138DC4"
  by (rule pow_run_power [where red = order_red and ops = "[
    (True, 0x85987E222659645DA981C4604C4784510DC3CED1B4FF4DC81081363F5FB60EBF),
    (True, 0x90D0457E594D133166065F8CC0CD106726394F4800B0AE261D28C177044A649),
    (False, 0x41F73F37DB94864A2518C4DCE55811514EAE431B35987BB60DCE1DBABADF9E15),
    (True, 0x18BE97FF6FA5E9EFF12A247852F6E90EA80499C9B301AA68944DCAD7BEB57FBE),
    (False, 0x2182F713E0A9B6C6E1E42851D7918451040E38ECE27FFEF95ACF17208CCB049B),
    (True, 0xB216FB627FD30C93C0F153507191A1BB1743B75368C9D5EF64E97BD29D69AFE),
    (False, 0x990B8150EE6416065042F8A4BCE0B5015655FF301E49435C7230B45370F7C1CD),
    (True, 0x1B2536AC3372AC4F2EBA943AE4EE8CF9DEA9B2375F21397A11AEE6C3798230A),
    (False, 0x47F161001C29387BFB6E1D0EB2312A8BB5A3304BFCEFD2131DDA76BC39A69020),
    (True, 0x61AE2FF2C13773E1EA84CFBB1ADC7804F5EE8EE2296A2BD8921BB130350B43),
    (False, 0x2EE157AD88F5010238DF2E9E33A7F631EE9B4CC9E2151A0260C97D406CDDA067),
    (True, 0x6AD30AAAB5DC846B96A1E1BCB4E9E8058BD70C6AF2F2AA11CF6E32BDA19BAD85)]",
    OF order_red_dvd one_order_1]) code_simp

lemma one_order_3: "power_is p256_order root_value
    0x87B23E9C
    0xB202547EB675B6CB6DBC79F3DE6F8C1D50E59A8DC903A1A2D1C7A6FA63B965C6"
  by (rule pow_run_power [where red = order_red and ops = "[
    (True, 0x6C1FBC726292F23CADF2E58B1A77E5DA126F3E447DFC6E015DFD1DE1D1152989),
    (False, 0x7F922EA34F6CD0023914FB0D5C8A520B6EB10B982B13A8BBAAC53D42F7B76F95),
    (True, 0x52FDF6DE3B66CC6448ABB406425DCD41D8F9600AA8C321E692669B4020EDC95),
    (True, 0xA2CFBEE65208F7F57AFEED228D930D48D3A53747CC6C9BD9E2ED946A26EE94C),
    (True, 0x1DF11496D181C098588EE92176CECCF7096F6D8DAC18C3E9A4FE637D999EDD3),
    (False, 0xAB4939FB02FF658EBC43B946450E446207C2187ABE6CF546B2B3F206FB5D2ACE),
    (True, 0x20028CE04365191C5CD0948E464A62D7BAF070A3021C51DF950422C5601B47F8),
    (False, 0x3AC36EE9471678F09349E4391761B7AADACD14E992D8206F9795F6535ED4AFF0),
    (True, 0xD17C2B84DCE58889A665548CFDB296C23C19EF81C03B28B2DD94960FB97B2427),
    (False, 0x3ABF04249AC1EA4896AB3CAE922B18A9528E9F5E87273CDACECC613F4BE08984),
    (True, 0x1DF08288A69112547DB62C2D95476E78737EEDD5C1FD9F3FADE5BDD75C698892),
    (True, 0xD1A0AD1A4C48045A831705BB3963BFCCF33B922AFE8901924D03F5BF4AD46F5B)]",
    OF order_red_dvd one_order_2]) code_simp

lemma one_order_4: "power_is p256_order root_value
    0x10F647D3A12
    0xF03172FE710FCA0BA4F2725ECE07429DE7BC957D01837CB10EA9F570935AFD85"
  by (rule pow_run_power [where red = order_red and ops = "[
    (False, 0x85E6CE7F81CFDBFD3A44BFB2EEB5E67D017D32A453E86E1B112FCBDCC99B0E0D),
    (True, 0x1181250CD50B243C6377AA82B0734163B3A727A26AA9FA64B16BA91C2E7997EF),
    (True, 0x5144DBA07E7242AB1593DB9FFA7EDBCFDCE0B89D6540D6C0FDC67A428EA7A42),
    (True, 0x465965F140EC398E3BAC23CF6168812AEA1965D017921605D6D94ED74E60A565),
    (True, 0x47DACF18337A0C83CE09BA0B16B07EF852DC4A0D09D79E34E77E2D362EF9BA82),
    (True, 0xB3D4C0942C21A6EAFEBD3DE84C784BFE4996FA80F5692DAAD88343633E2A0B4),
    (False, 0x49868C751F115986EECA7A1D9B874E6DCF3693C31026A9A8667F9463050C55DC),
    (True, 0xCD1E51525426499173909AAAC06A90D44EADCA35170CD227EC51B7BBD2640BD),
    (True, 0x27E41AA4569F1F5BDB53C148EC34B6F5E41115040EA46AB54E7B1B2555831D40),
    (True, 0x127EC113B27CFAD69E163447D9524C0121CA90D9FEBB16FC06683E8571CBA586),
    (False, 0x52678053FA18F14C81E96B1197A219CEA1766301D4220C90D6B6525D3CA499C3),
    (True, 0x5883B141B6D95737F124439455D5FA0A9D4057117795AB29597D959510F6A7A4)]",
    OF order_red_dvd one_order_3]) code_simp

lemma one_order_5: "power_is p256_order root_value
    0x87B23E9D09D3
    0xFD57AE180207F23634790D1FA343229E1FD36BCDC300011F1E63720308AA9905"
  by (rule pow_run_power [where red = order_red and ops = "[
    (False, 0xB4AD72F40C202E83CDF244E6430B78BA1F53698F649F885F9334BBAEE05EF76C),
    (True, 0x5334020AF57183FF8953D55F5B5D14D2C06CF30E404C959EAAB10EF102F727F3),
    (False, 0x4E2EBDD857C7A39E498778A6F879AF3A138D0D02DF6A666253B614AF0F656417),
    (True, 0x70681D2C19012EA140B2C6BF1ABCD3C9EF20C70CFBA617E9606BA1F8D1A0D04),
    (True, 0x5C0007230D66E90B5100D83EB3253F9BBBB1D9408D57DB7C1424F9DEA0554EE9),
    (False, 0x149691ED1F079DE75DBD96603F5375BB693C11476A1326780B62D315DB20FF90),
    (True, 0x2D4C9B1C7B9791DC8B1E30FD15FD2941F32217C337A81FF7F90CF2721797CF8F),
    (True, 0x96041C9C1DBAACF37873AFE7A6D6C101DC8A87A2057BDEE1BC35C0BFFE3C744E),
    (True, 0x665C288B341DABDB2E98EBD9E9647277A4FD5CD8DF5811130C81C581ED3AA0),
    (False, 0x6D373B18DE99069D5DF1DB14DF6B1AE16DF1B1C26BC7253664562E4EB655E6D1),
    (True, 0xC936ABD8F4FEF8210E56FE32D2CE4E3ABE7A1031B1BDCF0AAAE0E080C909CE64),
    (False, 0x9A0D008526C399915B8DCC7DCED263A6E7E8286076C0A6F5BA8206A9251CF10B)]",
    OF order_red_dvd one_order_4]) code_simp

lemma one_order_6: "power_is p256_order root_value
    0x43D91F4E84E9F3
    0x643E854B12936B2E5CF88A62175D931D84AD0358C81D512915216D6BF69D62F1"
  by (rule pow_run_power [where red = order_red and ops = "[
    (True, 0xFAB66C243970274C320BE2E5CE4C270810E833F448168DDE7CFAE4B3D4917CD1),
    (False, 0x7E6C396F9E7AA6232871ACEC1CD18E5C7EA7BDA74352AC32A8D1FDBE4F675074),
    (True, 0xEBCE3848F91AA081793EACB397ADE054B6612E4517E9BB0D22E1653EE7BCFCAB),
    (False, 0x28BBAFEE14239FFBA40ECAE9E1DFD050A38103A0528AB8FB848500205F495115),
    (True, 0xA61D7EBA293DD3A55FB3F3D971D88455DC18F9B9E5A06E619CDE2FBDE82C7630),
    (False, 0x39543070B3C613C159A4A37888FA9AEAAC3FC2C9C7D7A379F7209AB6DA0B3130),
    (True, 0x687AAC09EE015807C699AE9AECB02374AFED08C3BFA77504721FFC63E5ED3150),
    (True, 0x6D43B17BF75325411AA5432020EEB5ACA226CEA359005C669228F09E937EA83),
    (True, 0xCFC9DABD9B5F91A9ADDAF9915F1372FE46421E65282CB25B92F252859C998AC0),
    (False, 0xB8D1FED8008C0B3FE9EECAB2233422B4AE722F164C0D521C16342F391E7DA658),
    (True, 0x86D3F3610A1BC039B3BF1CE4FDE69DF50CA18322BEC1ECFA0BD18CAD3E3DC214),
    (False, 0xA3E1AFC767C9BDC1D74227FEA6EE1E6FFB842EF466D66BED2C3E874FD3528E92)]",
    OF order_red_dvd one_order_5]) code_simp

lemma one_order_7: "power_is p256_order root_value
    0x43D91F4E84E9F31B
    0x9374A45BE834B8C4C83412C14BC3E8CD0EF52DC02C7423460B87BCF48E54DA49"
  by (rule pow_run_power [where red = order_red and ops = "[
    (True, 0x2740E767A38829DCB07680B0394F47D8D77A35255D0A5750008B23BBDA955BC8),
    (True, 0x1A09757DAA94BBE5F760520D3BA6BACD33D51214A270EB32BBCE1276F40892E0),
    (True, 0x78854EF502937F3727DF68ACCAC60EF253F02902FA58FB121AACFEBD25D4E4CE),
    (True, 0x14D1E5A5F0CC51319486585A2D5D1190276393F21554375ADF0EF000C53547B),
    (False, 0xB248424FBC58A1235A9DC5FB124D2C6F9763A313685B3B5365034352B6332C6D),
    (True, 0xF897A04788F78B401E560EB3474308F8B1B79F836802BDD567ED797D5B09B507),
    (False, 0x9FDA3F550EA15DE0133FAE4AC15EC9C25301190D9BD2CC8323D2CD0EA5FF7100),
    (True, 0x188981D678C22D35F679AD47802F6C18D870105CE5BEF5695FCA0D038A281A7),
    (True, 0x4C3976A3314272C26EE4D40BFB83F809F4DF8BA751C8B39FC9178E89727413),
    (False, 0x58F21A960209CD7BE1F114EEAEBF5FD45F32EAF9756864FAD54ECD8A518377C8),
    (True, 0x5B6BD9F6EBAA91085E89C3D9356981DC5F01CFD4F96F6A981614AC62F138F243),
    (False, 0x248935E6C02BFE0FE0CA7749AACA279327FFC38A6CD547CBC7CF1B14E78679F6)]",
    OF order_red_dvd one_order_6]) code_simp

lemma one_order_8: "power_is p256_order root_value
    0x43D91F4E84E9F31BD8
    0x71EE80AE046820BB03BAB55B78A990228B2FC6778ED6815F7206A5FF12706800"
  by (rule pow_run_power [where red = order_red and ops = "[
    (True, 0x54EF29E73E6C0862CE95315FD990FC9678EDE851AFAD4D8FD3AA9E91B7CBCF28),
    (False, 0x29E0AC6550B635517AFC74A17BF22E10DC3249DEA13F237848E23B731B96E80A),
    (True, 0x5BE86F42CFEDEC2929AF2421A4FB7B4119834B219BF7286108639F79DA1B44D7),
    (False, 0x940F9620E50016DF9C47F1B5F3EC16DC06E1AB0DE7CB106CF9C2BE865003774B),
    (True, 0xACD1252C97C4F38183950FAB6C82C80902CDE26DAAC01C72B86E8D0B5FBAD3FA),
    (True, 0x23923B85BA361FF9D4A1789CC710D62488DB4BBDD4727B3B4A733C6BF9BC07DA),
    (False, 0x4856EB9AF54E475621DD2B0EAF37772217DE02975F64BFB353BC3647A02CDEF6),
    (True, 0x8E146E401798A662E6E8E71F90841B685F8D8F9A01C320D451938DFDFF2E079),
    (False, 0x43F7B52B7AB085CF67CA4397CE0474E38626DD9D490E2550BB6B31AE2444F241),
    (True, 0x23D13CD4F5A98DA1EF7E6EB8752962380CF801B4707337CC1B2AF46A1B0A4A62),
    (True, 0xFC0236F0834A5D908104AACD35EED9F335123352CD1B82C98C70A5C81B808FFC),
    (True, 0x37ADD32B9C41704A0B52DFBE051B7B2FFC6351A532627B446B725767050E9949)]",
    OF order_red_dvd one_order_7]) code_simp

lemma one_order_9: "power_is p256_order root_value
    0x43D91F4E84E9F31BD954
    0x6D87C01A052B2C1D999D3AE36B505FE29315751BB43B1E15BD387AD61652A487"
  by (rule pow_run_power [where red = order_red and ops = "[
    (False, 0x55B38EE0B127003F992A28F29F3CD1FA6BDAFA06B1CED28B8CF1C77A8AE8A3C4),
    (True, 0x27E61DA21CD9B7EA3F8002A0E97357312E6E7A4A2AC39596217A17EFBE18D59B),
    (True, 0xB4CADDF5602F7E6FB4E988B7017D6F419AAA3C37551C1B13ED60FF87CE2E008B),
    (False, 0x3185FDAA9229BB65B167D7F84C7A66CE515C954E6A8E88A93C03FE9C2D9412C1),
    (True, 0x124D3B0544E2E22F33CCB96A0739024615EC21466BC7780D48C2AB006ED7C305),
    (True, 0x63544E590875EB61517F0E7109DE739D87B5CE4B454BAA754F33B50FEEC67E5F),
    (False, 0x89345FBBB28CE88F076679E2AE2639F14392AE75569FC118CE369CC5697FABB1),
    (True, 0x29F3A2E09A8126D1CC3F1AC9072BBA980D08960A8C9FE57ACA383652E04129DE),
    (True, 0x2431F4DA9DA8DBBB20384A27B895711016750C59325848C9E16F167594C2B3F),
    (False, 0x3C1FCC6E59DCC337D6D61F0140BB32E0FF4251974973918ABE83E137823AB973),
    (True, 0x1693706A19628EFA5E729CB8F14D4F0DF66ECC48EB48CE24665B10223A3D3134),
    (True, 0x31230E8FCB60A93686A5850428C7AA3001CEC675514969AC66A0548B82BE7F39)]",
    OF order_red_dvd one_order_8]) code_simp

lemma one_order_10: "power_is p256_order root_value
    0x43D91F4E84E9F31BD9551A
    0xDD13647C7942FC7CDCFA747EA78C3629F6715F4119A73A9DFE513B9608559A6F"
  by (rule pow_run_power [where red = order_red and ops = "[
    (False, 0x5263FEC40D9C8AF862EE715784ED72D12E9B344EE0BB3767E27A264B12AD616A),
    (True, 0x47DF89D1D92B16B91597D2629D3B51E5592FBEEC4B3CBEE001CEE8CE4CBB5B50),
    (True, 0xE6141A22103FA6303A5A6CF0D7F917F82038E78FE7BFE369B26281731E498502),
    (True, 0x354DFA0EA14AC14655B604C9AA74DC2E5A4B14B369D84A3FE973527C3C653E63),
    (True, 0x2AAE5E5AF3CF5C98A4030A629C09F24B9034AB1EAE5861D5BC98102EEBBF92B5),
    (False, 0xA8FD346041C35D811583D71604C19D7169E4C9D0C94232CB8464B7C68DEB37E4),
    (True, 0x4CC6252EF89D9A5C243A28A46D3C4B09922B92A180255F3586CF811068CCCCB9),
    (False, 0x99888988A21CAA4B1879AF513E1AD1CFCD4AD0B4E5F0A4148B6801463D5642B2),
    (True, 0x6D77412D5E8E20DDAF2D01CC925C91228DE55D63889F3498C373064FDB09BBA),
    (True, 0x656861F57ED2F9752F482FFC4DA43BDDF8245E27EE68B6A4A74D59DA801048F),
    (False, 0x7D8BDC82CD51E67877444EF4FFA88E905EEB4994E54861D8E5BA933DC863FFCB),
    (True, 0x2D60303DBDFFC2BB6EDCAE56D1BF1F5B589EBDFEAA6B84670F19C3A3713E0D41)]",
    OF order_red_dvd one_order_9]) code_simp

lemma one_order: "power_is p256_order root_value
    0x87B23E9D09D3E637B2AA341
    0x1"
  by (rule pow_run_power [where red = order_red and ops = "[
    (True, 0xBEEA7CF7BA33A01A12F0E74140C2CC4B6A2612666ACB011E0E4F1EB5AB45E363),
    (True, 0x51D0CB001EB7063D4B708E906BA5DC82B78D7502971F88DC08A31052EA5367CA),
    (True, 0x171C0634E7DEA48830CC145AB16C7DF836DC374A681FF8F6AA68B8691E98B5C9),
    (True, 0x7CCD02B72B1C068930F8BD1E151899463A1DB690CBABFA6E42390F3D2AF3E2DF),
    (True, 0xCA00AF8EDB447FB3DBF49F60C049EE73555AAA7335F25753815DCE8302F0FF03),
    (False, 0x65B6428077DB378987A59ADFF32FB92D41F902A1B395B5F93A485AA69398F55E)]",
    OF order_red_dvd one_order_10]) code_simp

theorem p256_order_prime: "is_prime p256_order"
proof (rule certified_prime [OF prime_2624747550333869278416773953, where R = "0x1E2F6018E5D57B5F98BBC79DC38587FB30A494E150" and t = 16807526773760257686241 and s = 1733344679570029865983470383])
  show "p256_order = 1 + 2624747550333869278416773953 * 0x1E2F6018E5D57B5F98BBC79DC38587FB30A494E150" by code_simp
  show "odd p256_order" by (simp add: p256_order_def)
  show "power_is p256_order 2 0x1E2F6018E5D57B5F98BBC79DC38587FB30A494E150 root_value"
    unfolding root_value_def by (rule root_order)
  show "power_is p256_order root_value 2624747550333869278416773953 1" using one_order by simp
  show "(root_value - 1) * 0x72CA5F0D48545C9059C0D962203775545C6248BF5EC7809BBA828EC3264E8033
      + p256_order * (- 0x5658F27AF704B48F20DF8130D6D5E1616F124512BC9C2AC4ADA8778EA6A3DFD9) = 1" by code_simp
qed simp_all

end
