(* ===== verification/Ecc_Verify.thy ===== *)
theory Ecc_Verify
  imports Ecc_Points Order_Prime Crypto
begin

unbundle bit_operations_syntax

text \<open>
  \<^verbatim>\<open>third_party/micro-ecc/uECC.c\<close>, the two entry points \<^verbatim>\<open>bootloader/src/crypto.c\<close> calls:
  the check of a public key and the verification of a signature with Shamir's double-and-add
  ladder.  A read outside an array, the dereference of the null entry \<open>points[0]\<close> and a loop
  that never ends are the missing value \<open>None\<close>; for a valid key none of them happens.  \<open>shamir_chain\<close> is the specification: the same ladder on affine points, with
  the tangent and chord constructions of the curve.
\<close>

section \<open>The code\<close>

definition uECC_vli_bytesToNative :: "u8 list \<Rightarrow> nat \<Rightarrow> vli" where
  "uECC_vli_bytesToNative bytes num_bytes =
     fold (\<lambda>i native.
         let b = num_bytes - 1 - i
         in native[b div 4 := native ! (b div 4) OR push_bit (8 * (b mod 4)) (ucast (bytes ! i))])
       [0..<num_bytes] (uECC_vli_clear ((num_bytes + 3) div 4))"

definition ecc_valid_public_key :: "u8 list \<Rightarrow> uECC_Curve_t \<Rightarrow> int option" where
  "ecc_valid_public_key public_key curve =
     (let nb = cv_num_bytes curve
      in uECC_valid_point (uECC_vli_bytesToNative public_key nb
           @ uECC_vli_bytesToNative (drop nb public_key) nb) curve)"

fun shr_from_top :: "nat \<Rightarrow> u32 \<Rightarrow> vli \<Rightarrow> vli" where
  "shr_from_top shift carry [] = []"
| "shr_from_top shift carry (temp # ts) =
     (drop_bit shift temp OR carry) # shr_from_top shift (push_bit (32 - shift) temp) ts"

definition bits2int :: "u8 list \<Rightarrow> nat \<Rightarrow> uECC_Curve_t \<Rightarrow> vli" where
  "bits2int bits bits_size curve =
     (let num_n_bytes = (cv_num_n_bits curve + 7) div 8;
          num_n_words = (cv_num_n_bits curve + 31) div 32;
          size = (if bits_size > num_n_bytes then num_n_bytes else bits_size);
          native = uECC_vli_bytesToNative bits size @ uECC_vli_clear (num_n_words - (size + 3) div 4)
      in if size * 8 \<le> cv_num_n_bits curve then native
         else (let shift = size * 8 - cv_num_n_bits curve;
                   shifted = rev (shr_from_top shift 0 (rev native))
               in if uECC_vli_cmp_unsafe (cv_n curve) shifted \<noteq> 1
                  then snd (uECC_vli_sub shifted (cv_n curve)) else shifted))"

definition smax :: "nat \<Rightarrow> nat \<Rightarrow> nat" where
  "smax a b = (if a > b then a else b)"

text \<open>The four entries of \<open>points\<close>, by the bit of \<open>u1\<close> and of \<open>u2\<close>.\<close>

definition bit_index :: "vli \<Rightarrow> vli \<Rightarrow> nat \<Rightarrow> nat" where
  "bit_index u1 u2 i =
     (if uECC_vli_testBit u1 i then 1 else 0) OR push_bit 1 (if uECC_vli_testBit u2 i then 1 else 0)"

definition shamir_step ::
  "(vli \<times> vli) option list \<Rightarrow> vli \<Rightarrow> vli \<Rightarrow> uECC_Curve_t \<Rightarrow> nat \<Rightarrow> vli \<times> vli \<times> vli
   \<Rightarrow> (vli \<times> vli \<times> vli) option" where
  "shamir_step points u1 u2 curve i = (\<lambda>(rx, ry, z). do {
     (rx, ry, z) \<leftarrow> double_jacobian_default rx ry z curve;
     case points ! bit_index u1 u2 i of
       None \<Rightarrow> Some (rx, ry, z)
     | Some (px, py) \<Rightarrow> do {
         (tx, ty) \<leftarrow> apply_z px py z curve;
         let tz = uECC_vli_modSub rx tx (cv_p curve);
         (_, _, rx, ry, _) \<leftarrow> XYcZ_add tx ty rx ry curve;
         z \<leftarrow> uECC_vli_modMult_fast z tz curve;
         Some (rx, ry, z) } })"

fun shamir_loop ::
  "(vli \<times> vli) option list \<Rightarrow> vli \<Rightarrow> vli \<Rightarrow> uECC_Curve_t \<Rightarrow> nat list \<Rightarrow> vli \<times> vli \<times> vli
   \<Rightarrow> (vli \<times> vli \<times> vli) option" where
  "shamir_loop points u1 u2 curve [] st = Some st"
| "shamir_loop points u1 u2 curve (i # is) st =
     do { st \<leftarrow> shamir_step points u1 u2 curve i st; shamir_loop points u1 u2 curve is st }"

text \<open>\<open>sum = G + Q\<close>, made affine.\<close>

definition shamir_sum :: "vli \<Rightarrow> vli \<Rightarrow> uECC_Curve_t \<Rightarrow> (vli \<times> vli) option" where
  "shamir_sum qx qy curve = do {
     let nw = cv_num_words curve;
     let tx = take nw (cv_G curve);
     let ty = drop nw (cv_G curve);
     let z = uECC_vli_modSub qx tx (cv_p curve);
     (_, _, sx, sy, _) \<leftarrow> XYcZ_add tx ty qx qy curve;
     z \<leftarrow> uECC_vli_modInv z (cv_p curve) nw;
     apply_z sx sy z curve }"

definition shamir_mult :: "vli \<Rightarrow> vli \<Rightarrow> vli \<Rightarrow> vli \<Rightarrow> uECC_Curve_t \<Rightarrow> (vli \<times> vli) option" where
  "shamir_mult u1 u2 qx qy curve = do {
     let nw = cv_num_words curve;
     let nnw = (cv_num_n_bits curve + 31) div 32;
     sum \<leftarrow> shamir_sum qx qy curve;
     let points = [None, Some (take nw (cv_G curve), drop nw (cv_G curve)), Some (qx, qy), Some sum];
     let num_bits = smax (uECC_vli_numBits u1 nnw) (uECC_vli_numBits u2 nnw);
     if num_bits = 0 then None
     else do {
       (px, py) \<leftarrow> points ! bit_index u1 u2 (num_bits - 1);
       (rx, ry, z) \<leftarrow> shamir_loop points u1 u2 curve (rev [0..<num_bits - 1])
                       (px, py, (uECC_vli_clear nw)[0 := 1]);
       z \<leftarrow> uECC_vli_modInv z (cv_p curve) nw;
       apply_z rx ry z curve } }"

definition ecc_verify :: "u8 list \<Rightarrow> u8 list \<Rightarrow> nat \<Rightarrow> u8 list \<Rightarrow> uECC_Curve_t \<Rightarrow> int option" where
  "ecc_verify public_key message_hash hash_size signature curve =
     (let nb = cv_num_bytes curve;
          nnw = (cv_num_n_bits curve + 31) div 32;
          qx = uECC_vli_bytesToNative public_key nb;
          qy = uECC_vli_bytesToNative (drop nb public_key) nb;
          r = uECC_vli_bytesToNative signature nb;
          s = uECC_vli_bytesToNative (drop nb signature) nb
      in if uECC_vli_isZero r \<or> uECC_vli_isZero s then Some 0
         else if uECC_vli_cmp_unsafe (cv_n curve) r \<noteq> 1 \<or> uECC_vli_cmp_unsafe (cv_n curve) s \<noteq> 1
         then Some 0
         else do {
           z \<leftarrow> uECC_vli_modInv s (cv_n curve) nnw;
           let u1 = bits2int message_hash hash_size curve;
           let u1 = uECC_vli_modMult u1 z (cv_n curve) nnw;
           let u2 = uECC_vli_modMult r z (cv_n curve) nnw;
           (rx, ry) \<leftarrow> shamir_mult u1 u2 qx qy curve;
           let rx = (if uECC_vli_cmp_unsafe (cv_n curve) rx \<noteq> 1
                     then snd (uECC_vli_sub rx (cv_n curve)) else rx);
           Some (if uECC_vli_equal rx r then 1 else 0) })"

section \<open>Bytes to words\<close>

lemma vli_val_update:
  "j < length v \<Longrightarrow> vli_val (v[j := x]) = vli_val v + word_base ^ j * (uint x - uint (v ! j))"
proof (induction v arbitrary: j)
  case (Cons y v)
  show ?case
  proof (cases j)
    case (Suc i)
    then have "vli_val (v[i := x]) = vli_val v + word_base ^ i * (uint x - uint (v ! i))"
      using Cons by simp
    then show ?thesis using Suc by (simp add: distrib_left)
  qed simp
qed simp

lemma vli_nth: "j < length v \<Longrightarrow> uint (v ! j) = vli_val v div word_base ^ j mod word_base"
proof (induction v arbitrary: j)
  case (Cons y v)
  show ?case
  proof (cases j)
    case 0
    then show ?thesis using uint_mod_base [of y "vli_val v"] by simp
  next
    case (Suc i)
    have "(uint y + word_base * vli_val v) div word_base = vli_val v"
      using uint_u32_lt [of y] by simp
    then have "(uint y + word_base * vli_val v) div (word_base * word_base ^ i)
        = vli_val v div word_base ^ i"
      using zdiv_zmult2_eq [of "word_base ^ i" "uint y + word_base * vli_val v" word_base] by simp
    then show ?thesis using Suc Cons by simp
  qed
qed simp

text \<open>Storing a byte in a word whose bits up to the byte's last one are still zero.\<close>

lemma or_byte:
  fixes w :: u32 and x :: u8
  assumes k: "k < 4" and w: "2 ^ (8 * k + 8) dvd uint w"
  shows "uint (w OR push_bit (8 * k) (ucast x)) = uint w + 2 ^ (8 * k) * uint x"
proof -
  have low: "\<not> bit w i" if "i < 8 * k + 8" for i
  proof -
    obtain q where q: "uint w = 2 ^ (8 * k + 8) * q" using w by blast
    have "uint w = 2 ^ i * (2 * (2 ^ (8 * k + 7 - i) * q))"
      unfolding q using that by (simp flip: power_add power_Suc mult.assoc)
    then have "even (uint w div 2 ^ i)" by simp
    then show ?thesis using bit_uint_iff [of w i] bit_imp_le_length [of w i]
      by (auto simp: bit_iff_odd [of "uint w"])
  qed
  have "w AND push_bit (8 * k) (ucast x) = 0"
  proof (rule bit_word_eqI)
    fix i
    show "bit (w AND push_bit (8 * k) (ucast x)) i \<longleftrightarrow> bit (0 :: u32) i"
    proof (cases "i < 8 * k + 8")
      case False
      then have "\<not> bit x (i - 8 * k)" by (intro bit_u8_ge) linarith
      then show ?thesis by (auto simp: bit_simps)
    qed (use low in \<open>simp add: bit_simps\<close>)
  qed
  then have o: "w OR push_bit (8 * k) (ucast x) = w + push_bit (8 * k) (ucast x)"
    by (rule disjunctive_add_eq_or [symmetric])
  have x: "uint x < 256" using uint_lt2p [of x] by simp
  have p: "uint (push_bit (8 * k) (ucast x) :: u32) = 2 ^ (8 * k) * uint x"
  proof -
    consider "k = 0" | "k = 1" | "k = 2" | "k = 3" using k by linarith
    then show ?thesis
      by cases (use x in \<open>simp_all add: push_bit_eq_mult uint_word_ariths uint_up_ucast is_up_def\<close>)
  qed
  show ?thesis
  proof -
    obtain q where q: "uint w = 2 ^ (8 * k + 8) * q" using w by blast
    have B: "word_base = 2 ^ (8 * k + 8) * 2 ^ (24 - 8 * k)"
      using k by (simp flip: power_add)
    have "2 ^ (8 * k + 8) * q < 2 ^ (8 * k + 8) * (2 ^ (24 - 8 * k))"
      using uint_u32_lt [of w] q B by linarith
    then have "q + 1 \<le> 2 ^ (24 - 8 * k)" by simp
    then have "2 ^ (8 * k + 8) * (q + 1) \<le> (2 :: int) ^ (8 * k + 8) * 2 ^ (24 - 8 * k)"
      by (rule mult_left_mono) simp
    then have "uint w + 2 ^ (8 * k + 8) \<le> word_base"
      unfolding q distrib_left B [symmetric] by simp
    moreover have "(2 :: int) ^ (8 * k) * uint x < 2 ^ (8 * k + 8)"
      unfolding power_add using x by simp
    ultimately have "uint w + 2 ^ (8 * k) * uint x < word_base" by linarith
    then show ?thesis unfolding o using uint_add_small [of w "push_bit (8 * k) (ucast x)"] p by simp
  qed
qed

lemma be_nat_snoc: "be_nat (xs @ [x]) = 256 * be_nat xs + unat x"
  by (simp add: be_nat_def)

lemma bytesToNative_steps:
  assumes "i \<le> 4 * m" "length bytes = 4 * m"
  defines "step \<equiv> (\<lambda>i (native :: vli).
      let b = 4 * m - 1 - i
      in native[b div 4 := native ! (b div 4) OR push_bit (8 * (b mod 4)) (ucast (bytes ! i))])"
  shows "length (fold step [0..<i] (uECC_vli_clear m)) = m
    \<and> vli_val (fold step [0..<i] (uECC_vli_clear m))
      = int (be_nat (take i bytes)) * 256 ^ (4 * m - i)"
  using assms(1)
proof (induction i)
  case 0
  then show ?case by (simp add: uECC_vli_clear_def be_nat_def)
next
  case (Suc i)
  define v where "v = fold step [0..<i] (uECC_vli_clear m)"
  define b where "b = 4 * m - 1 - i"
  let ?j = "b div 4" and ?k = "b mod 4"
  have v: "length v = m" "vli_val v = int (be_nat (take i bytes)) * 256 ^ Suc b"
    using Suc by (simp_all add: v_def b_def Suc_diff_Suc)
  have j: "?j < m" using Suc.prems by (simp add: b_def)
  have b: "b = 4 * ?j + ?k" by simp
  have pw: "(256 :: int) ^ Suc b = word_base ^ ?j * 2 ^ (8 * ?k + 8)"
  proof -
    have "(256 :: int) = 2 ^ 8" by simp
    then have "(256 :: int) ^ Suc b = 2 ^ (8 * Suc b)" by (simp only: power_mult)
    also have "8 * Suc b = 32 * ?j + (8 * ?k + 8)" by presburger
    also have "(2 :: int) ^ (32 * ?j + (8 * ?k + 8)) = word_base ^ ?j * 2 ^ (8 * ?k + 8)"
      by (simp only: power_add power_mult) simp
    finally show ?thesis .
  qed
  let ?e = "int (be_nat (take i bytes))"
  have "uint (v ! ?j) = (?e * 2 ^ (8 * ?k + 8)) mod word_base"
    using vli_nth [of ?j v] j v unfolding pw by (simp add: mult.left_commute)
  moreover have "(2 :: int) ^ (8 * ?k + 8) dvd word_base"
    using le_imp_power_dvd [of "8 * ?k + 8" 32 "2 :: int"] by simp
  ultimately have d: "2 ^ (8 * ?k + 8) dvd uint (v ! ?j)" by (simp add: dvd_mod)
  have o: "uint (v ! ?j OR push_bit (8 * ?k) (ucast (bytes ! i)))
      = uint (v ! ?j) + 2 ^ (8 * ?k) * uint (bytes ! i)"
    by (rule or_byte) (use d in simp_all)
  have st: "step i v = v[?j := v ! ?j OR push_bit (8 * ?k) (ucast (bytes ! i))]"
    by (simp only: step_def Let_def b_def)
  have "vli_val (step i v) = vli_val v + word_base ^ ?j * (2 ^ (8 * ?k) * uint (bytes ! i))"
    using j v(1) by (simp add: st vli_val_update o)
  also have "word_base ^ ?j * (2 ^ (8 * ?k) * uint (bytes ! i)) = 256 ^ b * uint (bytes ! i)"
    using pw by (simp add: power_add)
  also have "vli_val v + 256 ^ b * uint (bytes ! i)
      = int (be_nat (take i bytes @ [bytes ! i])) * 256 ^ b"
    unfolding v(2) be_nat_snoc by (simp add: algebra_simps)
  also have "take i bytes @ [bytes ! i] = take (Suc i) bytes"
    using Suc.prems assms(2) by (simp add: take_Suc_conv_app_nth)
  finally have "vli_val (step i v) = int (be_nat (take (Suc i) bytes)) * 256 ^ (4 * m - Suc i)"
    by (simp add: b_def)
  moreover have "length (step i v) = m" using v(1) by (simp add: st)
  ultimately show ?case by (simp add: v_def)
qed

lemma bytesToNative_val:
  assumes "32 \<le> length bytes"
  shows "length (uECC_vli_bytesToNative bytes 32) = 8"
    and "vli_val (uECC_vli_bytesToNative bytes 32) = int (be_nat (take 32 bytes))"
proof -
  have "uECC_vli_bytesToNative bytes 32 = uECC_vli_bytesToNative (take 32 bytes) 32"
    unfolding uECC_vli_bytesToNative_def by (rule fold_cong) auto
  then show "length (uECC_vli_bytesToNative bytes 32) = 8"
    and "vli_val (uECC_vli_bytesToNative bytes 32) = int (be_nat (take 32 bytes))"
    using bytesToNative_steps [of 32 8 "take 32 bytes"] assms
    by (simp_all add: uECC_vli_bytesToNative_def)
qed

section \<open>The key\<close>

definition be_pair :: "u8 list \<Rightarrow> int \<times> int" where
  "be_pair bs = (int (be_nat (take 32 bs)), int (be_nat (drop 32 bs)))"

definition curve_b :: int where
  "curve_b = 0x5AC635D8AA3A93E7B3EBBD55769886BC651D06B0CC53B0F63BCE3C3E27D2604B"

text \<open>An affine point of the curve \<open>y\<^sup>2 = x\<^sup>3 - 3 x + b\<close> with reduced coordinates.\<close>

definition on_curve :: "int \<times> int \<Rightarrow> bool" where
  "on_curve = (\<lambda>(x, y). (x, y) \<noteq> (0, 0) \<and> x < P256 \<and> y < P256
     \<and> y * y mod P256 = (x * x * x - 3 * x + curve_b) mod P256)"

lemma vli_curve_b: "vli_val (cv_b curve_secp256r1) = curve_b"
  by (simp add: curve_secp256r1_def curve_b_def)

text \<open>The halves of a 64-byte string as arrays.\<close>

lemma be_pair_words:
  assumes "length bs = 64" "be_pair bs = (x, y)"
  shows "length (uECC_vli_bytesToNative bs 32) = 8" "vli_val (uECC_vli_bytesToNative bs 32) = x"
    "length (uECC_vli_bytesToNative (drop 32 bs) 32) = 8"
    "vli_val (uECC_vli_bytesToNative (drop 32 bs) 32) = y"
    "0 \<le> x" "0 \<le> y"
  using assms bytesToNative_val [of bs] bytesToNative_val [of "drop 32 bs"]
  by (auto simp: be_pair_def)

lemma valid_public_key_eq:
  assumes "length key = 64"
  shows "ecc_valid_public_key key curve_secp256r1 = Some (if on_curve (be_pair key) then 1 else 0)"
proof -
  obtain x y where k: "be_pair key = (x, y)" by fastforce
  note w = be_pair_words [OF assms k]
  let ?x = "uECC_vli_bytesToNative key 32" and ?y = "uECC_vli_bytesToNative (drop 32 key) 32"
  have "x + B256 * y = 0 \<longleftrightarrow> x = 0 \<and> y = 0"
    using w(5,6) by (simp add: add_nonneg_eq_0_iff)
  then have z: "uECC_vli_isZero (?x @ ?y) \<longleftrightarrow> x = 0 \<and> y = 0"
    using w(1-4) by (simp add: isZero_iff vli_val_append)
  have fx: "?x = fe x" if "x < P256" using fe_of_val [OF w(1)] w(2) that by simp
  have fy: "?y = fe y" if "y < P256" using fe_of_val [OF w(3)] w(4) that by simp
  show ?thesis
  proof (cases "x < P256 \<and> y < P256")
    case True
    show ?thesis
    proof (cases "x = 0 \<and> y = 0")
      case zero: True
      then show ?thesis
        using z by (simp add: ecc_valid_public_key_def uECC_valid_point_def EccPoint_isZero_def
            k on_curve_def)
    next
      case nonzero: False
      have "ecc_valid_public_key key curve_secp256r1
          = Some (if fe (y * y) = fe (x * x * x - 3 * x + curve_b) then 1 else 0)"
        using z w True nonzero
        by (simp add: ecc_valid_public_key_def uECC_valid_point_def EccPoint_isZero_def
            cmp_unsafe_iffs Let_def)
          (simp add: fx fy fe_simps x_side_fe vli_equal_iff vli_curve_b)
      then show ?thesis using True nonzero by (auto simp: k on_curve_def fe_eq_iff)
    qed
  next
    case False
    then show ?thesis
      using w by (auto simp: ecc_valid_public_key_def uECC_valid_point_def Let_def k on_curve_def
          cmp_unsafe_iffs)
  qed
qed

section \<open>The ladder on residues\<close>

type_synonym jpoint = "int \<times> int \<times> int"

definition jdouble :: "jpoint \<Rightarrow> jpoint" where
  "jdouble = (\<lambda>(X, Y, Z). if P256 dvd Z then (X, Y, Z) else jac_double X Y Z)"

definition jadd :: "int \<times> int \<Rightarrow> jpoint \<Rightarrow> jpoint" where
  "jadd = (\<lambda>(px, py) (X, Y, Z). case coz_add (px * (Z * Z)) (py * (Z * Z * Z)) X Y of
     (a, b, X3, Y3, e) \<Rightarrow> (X3, Y3, Z * (X - px * (Z * Z))))"

definition scalar_index :: "int \<Rightarrow> int \<Rightarrow> nat \<Rightarrow> nat" where
  "scalar_index u1 u2 i = (if bit u1 i then 1 else 0) + (if bit u2 i then 2 else 0)"

definition jstep :: "(int \<times> int) option list \<Rightarrow> int \<Rightarrow> int \<Rightarrow> nat \<Rightarrow> jpoint \<Rightarrow> jpoint" where
  "jstep pts u1 u2 i st =
     (case pts ! scalar_index u1 u2 i of None \<Rightarrow> jdouble st | Some T \<Rightarrow> jadd T (jdouble st))"

definition fe2 :: "int \<times> int \<Rightarrow> vli \<times> vli" where
  "fe2 = (\<lambda>(x, y). (fe x, fe y))"

definition fe3 :: "jpoint \<Rightarrow> vli \<times> vli \<times> vli" where
  "fe3 = (\<lambda>(x, y, z). (fe x, fe y, fe z))"

lemma scalar_index_lt: "scalar_index u1 u2 i < 4"
  by (simp add: scalar_index_def)

lemma bit_index_eq:
  assumes "length a = 8" "length b = 8" "i < 256"
  shows "bit_index a b i = scalar_index (vli_val a) (vli_val b) i"
  using assms by (simp add: bit_index_def scalar_index_def testBit_eq)

lemma fe3_simp: "fe3 (x, y, z) = (fe x, fe y, fe z)"
  by (simp add: fe3_def)

lemma double_fe3:
  "(case fe3 st of (x, y, z) \<Rightarrow> double_jacobian_default x y z curve_secp256r1)
    = Some (fe3 (jdouble st))"
  by (cases st) (auto simp: fe3_def jdouble_def double_jacobian_fe split: prod.splits)

lemma add_fe3:
  "(case fe3 st of (rx, ry, z) \<Rightarrow> case fe2 T of (px, py) \<Rightarrow> do {
       (tx, ty) \<leftarrow> apply_z px py z curve_secp256r1;
       let tz = uECC_vli_modSub rx tx p256;
       (_, _, rx, ry, _) \<leftarrow> XYcZ_add tx ty rx ry curve_secp256r1;
       z \<leftarrow> uECC_vli_modMult_fast z tz curve_secp256r1;
       Some (rx, ry, z) }) = Some (fe3 (jadd T st))"
proof -
  obtain X Y Z where st: "st = (X, Y, Z)" by (cases st) auto
  obtain px py where T: "T = (px, py)" by (cases T) auto
  obtain a b c d e where c: "coz_add (px * (Z * Z)) (py * (Z * Z * Z)) X Y = (a, b, c, d, e)"
    by (cases "coz_add (px * (Z * Z)) (py * (Z * Z * Z)) X Y") auto
  show ?thesis
    by (simp add: st T fe3_def fe2_def jadd_def apply_z_fe XYcZ_add_fe c fe_simps)
qed

lemma shamir_step_fe:
  assumes "length a = 8" "length b = 8" "i < 256" "length pts = 4"
  shows "shamir_step (map (map_option fe2) pts) a b curve_secp256r1 i (fe3 st)
    = Some (fe3 (jstep pts (vli_val a) (vli_val b) i st))"
proof -
  let ?j = "scalar_index (vli_val a) (vli_val b) i"
  have pt: "map (map_option fe2) pts ! bit_index a b i = map_option fe2 (pts ! ?j)"
    using assms scalar_index_lt [of "vli_val a" "vli_val b" i] by (simp add: bit_index_eq)
  obtain x y z where st: "fe3 st = (x, y, z)" by (cases "fe3 st") auto
  obtain x' y' z' where d: "fe3 (jdouble st) = (x', y', z')" by (cases "fe3 (jdouble st)") auto
  have dbl: "double_jacobian_default x y z curve_secp256r1 = Some (x', y', z')"
    using double_fe3 [of st] by (simp add: st d)
  show ?thesis
  proof (cases "pts ! ?j")
    case None
    then show ?thesis by (simp add: shamir_step_def st dbl pt jstep_def d)
  next
    case (Some T)
    obtain px py where T: "fe2 T = (px, py)" by (cases "fe2 T") auto
    show ?thesis
      using add_fe3 [where st = "jdouble st" and T = T]
      by (simp add: shamir_step_def st dbl pt jstep_def Some d T)
  qed
qed

lemma shamir_loop_fe:
  assumes "length a = 8" "length b = 8" "length pts = 4"
  shows "\<forall>i \<in> set is. i < 256 \<Longrightarrow>
    shamir_loop (map (map_option fe2) pts) a b curve_secp256r1 is (fe3 st)
      = Some (fe3 (fold (jstep pts (vli_val a) (vli_val b)) is st))"
  by (induction "is" arbitrary: st) (simp_all add: shamir_step_fe assms)

section \<open>Back to affine coordinates\<close>

lemma modInv_fe:
  "\<exists>k. uECC_vli_modInv (fe z) p256 8 = Some (fe k) \<and> k * z mod P256 = gcd z P256 mod P256"
proof -
  obtain r where r: "uECC_vli_modInv (fe z) p256 8 = Some r" "length r = 8" "vli_val r < P256"
      "vli_val r * (z mod P256) mod P256 = gcd (z mod P256) P256 mod P256"
    using modInv_spec [of "fe z" 8 p256] odd_P256 by (auto simp: P256_def)
  have "r = fe (vli_val r)" using fe_of_val [OF r(2,3)] by simp
  moreover have "gcd (z mod P256) P256 = gcd z P256" using gcd_red_int [of z P256] by (simp add: gcd.commute)
  ultimately show ?thesis using r(1,4) by (auto simp: mod_mult_right_eq)
qed

lemma coprime_eqp: "eqp a b \<Longrightarrow> coprime a P256 \<longleftrightarrow> coprime b P256"
proof -
  assume "eqp a b"
  then have "a mod P256 = b mod P256" by (simp add: fe_eq_iff)
  then have "gcd a P256 = gcd b P256"
    using gcd_red_int [of a P256] gcd_red_int [of b P256] by (simp add: gcd.commute)
  then show ?thesis by (simp add: coprime_iff_gcd_eq_1)
qed

lemma coprime_not_dvd: "coprime z P256 \<Longrightarrow> \<not> P256 dvd z"
  using coprime_common_divisor [of z P256 P256] by (auto simp: P256_def)

text \<open>Dividing by an invertible \<open>Z\<close> recovers the affine point.\<close>

definition to_affine :: "vli \<Rightarrow> vli \<Rightarrow> vli \<Rightarrow> (vli \<times> vli) option" where
  "to_affine rx ry z = do {
     z \<leftarrow> uECC_vli_modInv z p256 8;
     apply_z rx ry z curve_secp256r1 }"

lemma to_affine_returns:
  "\<exists>k. to_affine (fe X) (fe Y) (fe Z) = Some (fe (X * (k * k)), fe (Y * (k * k * k)))
    \<and> k * Z mod P256 = gcd Z P256 mod P256"
  using modInv_fe [of Z] by (auto simp: to_affine_def apply_z_fe)

lemma to_affine_rep:
  assumes "jac_rep (X, Y, Z) (x, y)" "coprime Z P256"
  shows "to_affine (fe X) (fe Y) (fe Z) = Some (fe2 (x, y))"
proof -
  obtain k where k: "to_affine (fe X) (fe Y) (fe Z) = Some (fe (X * (k * k)), fe (Y * (k * k * k)))"
      "k * Z mod P256 = gcd Z P256 mod P256"
    using to_affine_returns by blast
  have one: "eqp (k * Z) 1" using k(2) assms(2) by (simp add: fe_eq_iff coprime_iff_gcd_eq_1)
  have "eqp (X * (k * k)) (x * (Z * Z) * (k * k))" "eqp (Y * (k * k * k)) (y * (Z * Z * Z) * (k * k * k))"
    using assms(1) by (auto simp: jac_rep_def)
  moreover have "x * (Z * Z) * (k * k) = x * (k * Z * (k * Z))"
    and "y * (Z * Z * Z) * (k * k * k) = y * (k * Z * (k * Z) * (k * Z))"
    by (simp_all add: ac_simps)
  moreover have "eqp (x * (k * Z * (k * Z))) (x * (1 * 1))"
    and "eqp (y * (k * Z * (k * Z) * (k * Z))) (y * (1 * 1 * 1))"
    by (intro eqp_arith one refl)+
  ultimately show ?thesis using k(1) by (simp add: fe2_def)
qed

section \<open>The ladder on affine points\<close>

text \<open>
  One step: the tangent at \<open>R\<close>, then the chord through the table entry of the two scalar bits.
  Every slope has an invertible denominator, so it is determined modulo the prime.
\<close>

definition affine_double :: "int \<times> int \<Rightarrow> int \<times> int \<Rightarrow> bool" where
  "affine_double R D \<longleftrightarrow> coprime (snd R) P256
     \<and> (\<exists>l. tangent_slope R l \<and> D = third_point l R (fst R))"

definition affine_add :: "int \<times> int \<Rightarrow> int \<times> int \<Rightarrow> int \<times> int \<Rightarrow> bool" where
  "affine_add T R S \<longleftrightarrow> coprime (fst R - fst T) P256
     \<and> (\<exists>l. chord_slope T R l \<and> S = third_point l T (fst R))"

inductive shamir_chain ::
  "(int \<times> int) option list \<Rightarrow> int \<Rightarrow> int \<Rightarrow> nat list \<Rightarrow> int \<times> int \<Rightarrow> int \<times> int \<Rightarrow> bool"
  for pts u1 u2 where
  chain_done: "shamir_chain pts u1 u2 [] R R"
| chain_double: "affine_double R D \<Longrightarrow> pts ! scalar_index u1 u2 i = None
    \<Longrightarrow> shamir_chain pts u1 u2 is D S \<Longrightarrow> shamir_chain pts u1 u2 (i # is) R S"
| chain_add: "affine_double R D \<Longrightarrow> pts ! scalar_index u1 u2 i = Some T \<Longrightarrow> affine_add T D A
    \<Longrightarrow> shamir_chain pts u1 u2 is A S \<Longrightarrow> shamir_chain pts u1 u2 (i # is) R S"

lemma jdouble_rep:
  assumes rep: "jac_rep (X, Y, Z) R" and Z: "coprime Z P256" and d: "affine_double R D"
  shows "\<exists>X' Y' Z'. jdouble (X, Y, Z) = (X', Y', Z') \<and> jac_rep (X', Y', Z') D \<and> coprime Z' P256"
proof -
  obtain x y where R: "R = (x, y)" by fastforce
  obtain l where l: "tangent_slope (x, y) l" "D = third_point l (x, y) x" and y: "coprime y P256"
    using d by (auto simp: affine_double_def R)
  have "eqp Y (y * (Z * Z * Z))" using rep by (simp add: jac_rep_def R)
  from coprime_eqp [OF this] have "coprime Y P256" using y Z by simp
  then have "coprime (Y * Z) P256" using Z by simp
  moreover have "jdouble (X, Y, Z) = jac_double X Y Z"
    using coprime_not_dvd [OF Z] by (simp add: jdouble_def)
  moreover have "snd (snd (jac_double X Y Z)) = Y * Z" by (simp add: jac_double_def Let_def)
  ultimately show ?thesis
    using jac_double_rep [OF rep [unfolded R] l(1)] l(2) by (cases "jac_double X Y Z") auto
qed

lemma jadd_rep:
  assumes rep: "jac_rep (X, Y, Z) R" and Z: "coprime Z P256" and a: "affine_add T R S"
  shows "\<exists>X' Y' Z'. jadd T (X, Y, Z) = (X', Y', Z') \<and> jac_rep (X', Y', Z') S \<and> coprime Z' P256"
proof -
  obtain x y where R: "R = (x, y)" by fastforce
  obtain px py where T: "T = (px, py)" by fastforce
  obtain l where l: "chord_slope (px, py) (x, y) l" "S = third_point l (px, py) x"
      and x: "coprime (x - px) P256"
    using a by (auto simp: affine_add_def R T)
  obtain a b c d e where c: "coz_add (px * (Z * Z)) (py * (Z * Z * Z)) X Y = (a, b, c, d, e)"
    by (cases "coz_add (px * (Z * Z)) (py * (Z * Z * Z)) X Y") auto
  have "eqp X (x * (Z * Z))" using rep by (simp add: jac_rep_def R)
  then have "eqp (X - px * (Z * Z)) (x * (Z * Z) - px * (Z * Z))" by (intro eqp_arith refl)
  also have "x * (Z * Z) - px * (Z * Z) = (x - px) * (Z * Z)" by (simp add: algebra_simps)
  finally have "eqp (X - px * (Z * Z)) ((x - px) * (Z * Z))" .
  from coprime_eqp [OF this] have "coprime (X - px * (Z * Z)) P256" using x Z by simp
  then have "coprime (Z * (X - px * (Z * Z))) P256" using Z by simp
  then show ?thesis
    using coz_add_rep [OF rep [unfolded R] l(1) c] l(2) by (simp add: jadd_def T c)
qed

lemma shamir_chain_rep:
  "shamir_chain pts u1 u2 is R S \<Longrightarrow> jac_rep (X, Y, Z) R \<Longrightarrow> coprime Z P256 \<Longrightarrow>
   \<exists>X' Y' Z'. fold (jstep pts u1 u2) is (X, Y, Z) = (X', Y', Z')
     \<and> jac_rep (X', Y', Z') S \<and> coprime Z' P256"
proof (induction arbitrary: X Y Z rule: shamir_chain.induct)
  case (chain_done R)
  then show ?case by auto
next
  case (chain_double R D i "is" S)
  obtain X' Y' Z' where d: "jdouble (X, Y, Z) = (X', Y', Z')" "jac_rep (X', Y', Z') D" "coprime Z' P256"
    using jdouble_rep [OF chain_double.prems chain_double.hyps(1)] by blast
  show ?case using chain_double.IH [OF d(2,3)] chain_double.hyps(2) d(1) by (simp add: jstep_def)
next
  case (chain_add R D i T A "is" S)
  obtain X' Y' Z' where d: "jdouble (X, Y, Z) = (X', Y', Z')" "jac_rep (X', Y', Z') D" "coprime Z' P256"
    using jdouble_rep [OF chain_add.prems chain_add.hyps(1)] by blast
  obtain X2 Y2 Z2 where a: "jadd T (X', Y', Z') = (X2, Y2, Z2)" "jac_rep (X2, Y2, Z2) A" "coprime Z2 P256"
    using jadd_rep [OF d(2,3) chain_add.hyps(3)] by blast
  show ?case using chain_add.IH [OF a(2,3)] chain_add.hyps(2) d(1) a(1) by (simp add: jstep_def)
qed

section \<open>Two scalars at once\<close>

definition curve_G :: "int \<times> int" where
  "curve_G = (0x6B17D1F2E12C4247F8BCE6E563A440F277037D812DEB33A0F4A13945D898C296,
              0x4FE342E2FE1A7F9B8EE7EB4A7C0F9E162BCE33576B315ECECBB6406837BF51F5)"

definition point_table :: "int \<times> int \<Rightarrow> int \<times> int \<Rightarrow> (int \<times> int) option list" where
  "point_table Q S = [None, Some curve_G, Some Q, Some S]"

text \<open>\<open>R\<close> is what the ladder makes of \<open>u1 G + u2 Q\<close>, \<open>t\<close> being the top bit of the scalars.\<close>

definition shamir_point :: "int \<times> int \<Rightarrow> int \<Rightarrow> int \<Rightarrow> int \<times> int \<Rightarrow> bool" where
  "shamir_point Q u1 u2 R \<longleftrightarrow> (\<exists>S t T. affine_add curve_G Q S
     \<and> 2 ^ t \<le> max u1 u2 \<and> max u1 u2 < 2 ^ Suc t
     \<and> point_table Q S ! scalar_index u1 u2 t = Some T
     \<and> shamir_chain (point_table Q S) u1 u2 (rev [0..<t]) T R)"

lemma curve_G_words:
  "take 8 (cv_G curve_secp256r1) = fe (fst curve_G)" "drop 8 (cv_G curve_secp256r1) = fe (snd curve_G)"
  by (rule vli_val_inj; simp add: curve_secp256r1_def curve_G_def P256_def)+

lemma shamir_sum_eq:
  "\<exists>X Y. shamir_sum (fe qx) (fe qy) curve_secp256r1 = to_affine (fe X) (fe Y) (fe (qx - fst curve_G))
    \<and> (\<forall>S. affine_add curve_G (qx, qy) S \<longrightarrow> jac_rep (X, Y, qx - fst curve_G) S)"
proof -
  obtain gx gy where G: "curve_G = (gx, gy)" by fastforce
  obtain a b c d e where z: "coz_add gx gy qx qy = (a, b, c, d, e)"
    by (cases "coz_add gx gy qx qy") auto
  have "shamir_sum (fe qx) (fe qy) curve_secp256r1 = to_affine (fe c) (fe d) (fe (qx - gx))"
    by (simp add: shamir_sum_def to_affine_def curve_G_words G fe_simps XYcZ_add_fe z)
  moreover have "jac_rep (c, d, qx - gx) S" if "affine_add curve_G (qx, qy) S" for S
  proof -
    obtain l where l: "chord_slope (gx, gy) (qx, qy) l" "S = third_point l (gx, gy) qx"
      using \<open>affine_add curve_G (qx, qy) S\<close> by (auto simp: affine_add_def G)
    have "jac_rep (qx, qy, 1) (qx, qy)" by (simp add: jac_rep_def)
    then show ?thesis using coz_add_rep [of qx qy 1 qx qy gx gy l a b c d e] l z by simp
  qed
  ultimately show ?thesis unfolding G fst_conv by blast
qed

lemma to_affine_fe2: "\<exists>S. to_affine (fe X) (fe Y) (fe Z) = Some (fe2 S)"
proof -
  obtain k where "to_affine (fe X) (fe Y) (fe Z) = Some (fe (X * (k * k)), fe (Y * (k * k * k)))"
    using to_affine_returns by blast
  then have "to_affine (fe X) (fe Y) (fe Z) = Some (fe2 (X * (k * k), Y * (k * k * k)))"
    by (simp add: fe2_def)
  then show ?thesis by blast
qed

text \<open>The top bit of the scalars: the first table entry is a point.\<close>

lemma top_bit:
  fixes u :: int
  assumes "2 ^ t \<le> u" "u < 2 ^ Suc t"
  shows "bit u t"
proof -
  have "u div 2 ^ t = 1"
    using assms by (intro int_div_pos_eq [of _ _ _ "u - 2 ^ t"]) simp_all
  then show ?thesis by (simp add: bit_iff_odd)
qed

lemma numBits_8:
  assumes "length u = 8"
  shows "vli_val u = 0 \<Longrightarrow> uECC_vli_numBits u 8 = 0"
    and "0 < vli_val u \<Longrightarrow> 2 ^ (uECC_vli_numBits u 8 - 1) \<le> vli_val u"
    and "0 < vli_val u \<Longrightarrow> 0 < uECC_vli_numBits u 8 \<and> uECC_vli_numBits u 8 \<le> 256"
    and "vli_val u < 2 ^ uECC_vli_numBits u 8"
proof -
  show "vli_val u = 0 \<Longrightarrow> uECC_vli_numBits u 8 = 0" using numBits_of_0 [of u] assms by simp
  then show "vli_val u < 2 ^ uECC_vli_numBits u 8"
    using numBits_bounds(3) [of u] assms vli_val_nonneg [of u] by (cases "vli_val u = 0") simp_all
  show "0 < vli_val u \<Longrightarrow> 2 ^ (uECC_vli_numBits u 8 - 1) \<le> vli_val u"
    and "0 < vli_val u \<Longrightarrow> 0 < uECC_vli_numBits u 8 \<and> uECC_vli_numBits u 8 \<le> 256"
    using numBits_bounds [of u] assms by simp_all
qed

lemma smax_bits:
  assumes "length a = 8" "length b = 8" "0 < vli_val a \<or> 0 < vli_val b"
  defines "nb \<equiv> smax (uECC_vli_numBits a 8) (uECC_vli_numBits b 8)"
  shows "0 < nb" "nb \<le> 256" "2 ^ (nb - 1) \<le> max (vli_val a) (vli_val b)"
    "max (vli_val a) (vli_val b) < 2 ^ nb"
proof -
  note na = numBits_8 [OF assms(1)] and nbb = numBits_8 [OF assms(2)]
  have z: "vli_val v = 0 \<or> 0 < vli_val v" for v using vli_val_nonneg [of v] by linarith
  show "0 < nb" "nb \<le> 256" using na(1,3) nbb(1,3) z [of a] z [of b] assms(3)
    by (auto simp: nb_def smax_def)
  show "2 ^ (nb - 1) \<le> max (vli_val a) (vli_val b)"
    using na(1,2,3) nbb(1,2,3) z [of a] z [of b] assms(3) by (auto simp: nb_def smax_def le_max_iff_disj)
  have "(2 :: int) ^ uECC_vli_numBits a 8 \<le> 2 ^ nb" "(2 :: int) ^ uECC_vli_numBits b 8 \<le> 2 ^ nb"
    by (simp_all add: nb_def smax_def)
  then show "max (vli_val a) (vli_val b) < 2 ^ nb"
    using na(4) nbb(4) unfolding max_less_iff_conj by linarith
qed

lemma top_index:
  assumes "0 \<le> u1" "0 \<le> u2" "2 ^ t \<le> max u1 u2" "max u1 u2 < 2 ^ Suc t"
  shows "scalar_index u1 u2 t \<noteq> 0" and "\<exists>T. point_table Q S ! scalar_index u1 u2 t = Some T"
proof -
  have "bit u1 t \<or> bit u2 t"
    using assms top_bit [of t u1] top_bit [of t u2] by (auto simp: max_def split: if_splits)
  then show "scalar_index u1 u2 t \<noteq> 0" and "\<exists>T. point_table Q S ! scalar_index u1 u2 t = Some T"
    by (auto simp: scalar_index_def point_table_def)
qed

lemma top_unique:
  fixes m :: int
  assumes "2 ^ t \<le> m" "m < 2 ^ Suc t" "2 ^ t' \<le> m" "m < 2 ^ Suc t'"
  shows "t = t'"
proof -
  have "(2 :: int) ^ t < 2 ^ Suc t'" "(2 :: int) ^ t' < 2 ^ Suc t" using assms by linarith+
  then have "t < Suc t'" "t' < Suc t" by (metis one_less_numeral_iff power_less_imp_less_exp semiring_norm(76))+
  then show ?thesis by simp
qed

lemma clear_one_fe: "(uECC_vli_clear 8)[0 := 1] = fe 1"
  by (rule vli_val_inj) (use vli_one [of 8] in \<open>simp_all add: P256_def\<close>)

lemma table_fe2:
  "[None, Some (fe (fst curve_G), fe (snd curve_G)), Some (fe (fst Q), fe (snd Q)), Some (fe2 S)]
    = map (map_option fe2) (point_table Q S)"
  by (simp add: point_table_def fe2_def case_prod_beta)

lemma shamir_mult_run:
  assumes len: "length a = 8" "length b = 8"
    and t: "smax (uECC_vli_numBits a 8) (uECC_vli_numBits b 8) = Suc t" "t < 256"
    and S: "shamir_sum (fe (fst Q)) (fe (snd Q)) curve_secp256r1 = Some (fe2 S)"
    and T: "point_table Q S ! scalar_index (vli_val a) (vli_val b) t = Some T"
    and st: "fold (jstep (point_table Q S) (vli_val a) (vli_val b)) (rev [0..<t]) (fst T, snd T, 1)
      = (X, Y, Z)"
  shows "shamir_mult a b (fe (fst Q)) (fe (snd Q)) curve_secp256r1 = to_affine (fe X) (fe Y) (fe Z)"
proof -
  let ?pts = "map (map_option fe2) (point_table Q S)"
  let ?j = "scalar_index (vli_val a) (vli_val b) t"
  have lp: "length (point_table Q S) = 4" by (simp add: point_table_def)
  have first: "?pts ! bit_index a b t = Some (fe (fst T), fe (snd T))"
    using T scalar_index_lt [of "vli_val a" "vli_val b" t] lp
    by (simp add: bit_index_eq [OF len t(2)] fe2_def case_prod_beta)
  have loop: "shamir_loop ?pts a b curve_secp256r1 (rev [0..<t]) (fe (fst T), fe (snd T), fe 1)
      = Some (fe X, fe Y, fe Z)"
    using shamir_loop_fe [OF len lp, of "rev [0..<t]" "(fst T, snd T, 1)"] t(2) st
    by (simp add: fe3_def)
  have "shamir_mult a b (fe (fst Q)) (fe (snd Q)) curve_secp256r1
      = do { (px, py) \<leftarrow> ?pts ! bit_index a b t;
             (rx, ry, z) \<leftarrow> shamir_loop ?pts a b curve_secp256r1 (rev [0..<t]) (px, py, fe 1);
             z \<leftarrow> uECC_vli_modInv z p256 8;
             apply_z rx ry z curve_secp256r1 }"
    by (simp add: shamir_mult_def S t(1) curve_G_words clear_one_fe Let_def table_fe2 [symmetric])
  then show ?thesis by (simp add: first loop to_affine_def)
qed

text \<open>
  The ladder returns whenever one of the scalars is not zero, and it ends in the point of the
  specification where that is defined.
\<close>

lemma shamir_mult_bits:
  assumes "length a = 8" "length b = 8" "0 < vli_val a \<or> 0 < vli_val b"
  obtains t where "smax (uECC_vli_numBits a 8) (uECC_vli_numBits b 8) = Suc t" "t < 256"
    "2 ^ t \<le> max (vli_val a) (vli_val b)" "max (vli_val a) (vli_val b) < 2 ^ Suc t"
  using smax_bits [OF assms] by (cases "smax (uECC_vli_numBits a 8) (uECC_vli_numBits b 8)") auto

lemma shamir_mult_returns:
  assumes "length a = 8" "length b = 8" "0 < vli_val a \<or> 0 < vli_val b"
  shows "\<exists>R. shamir_mult a b (fe (fst Q)) (fe (snd Q)) curve_secp256r1 = Some (fe2 R)"
proof -
  obtain t where t: "smax (uECC_vli_numBits a 8) (uECC_vli_numBits b 8) = Suc t" "t < 256"
      "2 ^ t \<le> max (vli_val a) (vli_val b)" "max (vli_val a) (vli_val b) < 2 ^ Suc t"
    by (rule shamir_mult_bits [OF assms])
  obtain S where S: "shamir_sum (fe (fst Q)) (fe (snd Q)) curve_secp256r1 = Some (fe2 S)"
    using shamir_sum_eq [of "fst Q" "snd Q"] to_affine_fe2 by metis
  obtain T where T: "point_table Q S ! scalar_index (vli_val a) (vli_val b) t = Some T"
    using top_index(2) [OF vli_val_nonneg vli_val_nonneg t(3,4)] by blast
  obtain X Y Z where "fold (jstep (point_table Q S) (vli_val a) (vli_val b)) (rev [0..<t])
      (fst T, snd T, 1) = (X, Y, Z)" by (rule prod_cases3)
  from shamir_mult_run [OF assms(1,2) t(1,2) S T this] show ?thesis
    using to_affine_fe2 [of X Y Z] by simp
qed

lemma shamir_mult_point:
  assumes "length a = 8" "length b = 8" "0 < vli_val a \<or> 0 < vli_val b"
    and R: "shamir_point Q (vli_val a) (vli_val b) R"
  shows "shamir_mult a b (fe (fst Q)) (fe (snd Q)) curve_secp256r1 = Some (fe2 R)"
proof -
  obtain t where t: "smax (uECC_vli_numBits a 8) (uECC_vli_numBits b 8) = Suc t" "t < 256"
      "2 ^ t \<le> max (vli_val a) (vli_val b)" "max (vli_val a) (vli_val b) < 2 ^ Suc t"
    by (rule shamir_mult_bits [OF assms(1-3)])
  obtain S t' T where p: "affine_add curve_G Q S" "2 ^ t' \<le> max (vli_val a) (vli_val b)"
      "max (vli_val a) (vli_val b) < 2 ^ Suc t'"
      "point_table Q S ! scalar_index (vli_val a) (vli_val b) t' = Some T"
      "shamir_chain (point_table Q S) (vli_val a) (vli_val b) (rev [0..<t']) T R"
    using R unfolding shamir_point_def by blast
  have tt: "t' = t" by (rule top_unique [OF p(2,3) t(3,4)])
  obtain X Y where sum: "shamir_sum (fe (fst Q)) (fe (snd Q)) curve_secp256r1
      = to_affine (fe X) (fe Y) (fe (fst Q - fst curve_G))"
    and rep: "jac_rep (X, Y, fst Q - fst curve_G) S"
    using shamir_sum_eq [of "fst Q" "snd Q"] p(1) unfolding prod.collapse by blast
  have "coprime (fst Q - fst curve_G) P256" using p(1) by (simp add: affine_add_def)
  then have S: "shamir_sum (fe (fst Q)) (fe (snd Q)) curve_secp256r1 = Some (fe2 S)"
    using to_affine_rep [of X Y "fst Q - fst curve_G" "fst S" "snd S"] rep sum by simp
  have one: "jac_rep (fst T, snd T, 1) T" by (cases T) (simp add: jac_rep_def)
  obtain X' Y' Z' where f: "fold (jstep (point_table Q S) (vli_val a) (vli_val b)) (rev [0..<t])
      (fst T, snd T, 1) = (X', Y', Z')" and r: "jac_rep (X', Y', Z') R" and Z: "coprime Z' P256"
    using shamir_chain_rep [OF p(5) one] tt by auto
  show ?thesis
    using shamir_mult_run [OF assms(1,2) t(1,2) S p(4) [unfolded tt] f]
      to_affine_rep [of X' Y' Z' "fst R" "snd R"] r Z by simp
qed

section \<open>Verification\<close>

abbreviation N256 :: int where "N256 \<equiv> int secp256r1_order"

lemma curve_n [simp]: "length (cv_n curve_secp256r1) = 8" "vli_val (cv_n curve_secp256r1) = N256"
  by (simp_all add: curve_secp256r1_def secp256r1_order_def)

lemma N256_facts: "1 < N256" "odd N256" "2 ^ (32 * 8 - 1) \<le> N256" "N256 < P256" "P256 < 2 * N256"
  by (simp_all add: secp256r1_order_def P256_def)

text \<open>The order is prime, so every \<open>s\<close> in range has an inverse.\<close>

lemma order_coprime:
  assumes "0 < s" "s < N256"
  shows "coprime s N256"
proof -
  have "is_prime N256" using p256_order_prime by (simp add: secp256r1_order_def p256_order_def)
  moreover have "\<not> N256 dvd s" using assms zdvd_imp_le [of N256 s] by force
  ultimately show ?thesis by (rule is_prime_coprime)
qed

text \<open>The scalars of a signature \<open>(r, s)\<close> over the digest \<open>e\<close>.\<close>

definition ecdsa_scalars :: "int \<Rightarrow> int \<Rightarrow> int \<Rightarrow> int \<Rightarrow> int \<Rightarrow> bool" where
  "ecdsa_scalars e r s u1 u2 \<longleftrightarrow> (\<exists>w. w * s mod N256 = 1
     \<and> u1 = e * w mod N256 \<and> u2 = r * w mod N256)"

lemma bits2int_eq: "bits2int bits 32 curve_secp256r1 = uECC_vli_bytesToNative bits 32"
  by (simp add: bits2int_def Let_def uECC_vli_clear_def)

lemma inverse_unique:
  fixes w w' s n :: int
  assumes "w * s mod n = 1" "w' * s mod n = 1"
  shows "x * w mod n = x * w' mod n"
proof -
  have "x * w mod n = x * w * (w' * s mod n) mod n" by (simp add: assms(2))
  also have "\<dots> = x * w' * (w * s mod n) mod n"
    unfolding mod_mult_right_eq by (simp add: ac_simps)
  also have "\<dots> = x * w' mod n" by (simp add: assms(1))
  finally show ?thesis .
qed

text \<open>What the code computes once the range checks have passed.\<close>

lemma ecc_verify_scalars:
  assumes len: "length key = 64" "length sig = 64" "length hash = 32"
    and rs: "be_pair sig = (r, s)" "0 < r" "r < N256" "0 < s" "s < N256"
  shows "\<exists>a b. length a = 8 \<and> length b = 8
    \<and> ecdsa_scalars (int (be_nat hash)) r s (vli_val a) (vli_val b) \<and> 0 < vli_val b
    \<and> ecc_verify key hash 32 sig curve_secp256r1 = do {
        (rx, ry) \<leftarrow> shamir_mult a b (uECC_vli_bytesToNative key 32)
                     (uECC_vli_bytesToNative (drop 32 key) 32) curve_secp256r1;
        let rx = (if uECC_vli_cmp_unsafe (cv_n curve_secp256r1) rx \<noteq> 1
                  then snd (uECC_vli_sub rx (cv_n curve_secp256r1)) else rx);
        Some (if uECC_vli_equal rx (uECC_vli_bytesToNative sig 32) then 1 else 0) }"
proof -
  note w = be_pair_words [OF len(2) rs(1)]
  let ?r = "uECC_vli_bytesToNative sig 32" and ?s = "uECC_vli_bytesToNative (drop 32 sig) 32"
  let ?n = "cv_n curve_secp256r1"
  obtain z where z: "uECC_vli_modInv ?s ?n 8 = Some z" "length z = 8"
      "vli_val z * s mod N256 = gcd s N256 mod N256"
    using modInv_spec [of ?s 8 ?n] w N256_facts by auto
  have inv: "vli_val z * s mod N256 = 1"
    using z(3) order_coprime [OF rs(4,5)] N256_facts(1) by (simp add: coprime_iff_gcd_eq_1)
  have e: "length (uECC_vli_bytesToNative hash 32) = 8"
      "vli_val (uECC_vli_bytesToNative hash 32) = int (be_nat hash)"
    using bytesToNative_val [of hash] len(3) by simp_all
  define a where "a = uECC_vli_modMult (uECC_vli_bytesToNative hash 32) z ?n 8"
  define b where "b = uECC_vli_modMult ?r z ?n 8"
  have B: "0 \<le> x mod N256" "x mod N256 < word_base ^ 8" for x
    using N256_facts P256_bounds pos_mod_bound [of N256 x] pos_mod_sign [of N256 x]
    unfolding word_base_8 by linarith+
  have a: "length a = 8" "vli_val a = int (be_nat hash) * vli_val z mod N256"
    unfolding a_def using vli_modMult_eq [of "uECC_vli_bytesToNative hash 32" 8 z ?n] e z(2) N256_facts(3) B
    by (simp_all add: vli_val_vli_of_small)
  have b: "length b = 8" "vli_val b = r * vli_val z mod N256"
    unfolding b_def using vli_modMult_eq [of ?r 8 z ?n] w z(2) N256_facts(3) B
    by (simp_all add: vli_val_vli_of_small)
  have "vli_val b * s mod N256 = r * (vli_val z * s mod N256) mod N256"
    unfolding b(2) mod_mult_left_eq mod_mult_right_eq by (simp add: ac_simps)
  also have "\<dots> = r" using inv rs by simp
  finally have "vli_val b \<noteq> 0" using rs(2) by auto
  then have "0 < vli_val b" using vli_val_nonneg [of b] by linarith
  moreover have "ecdsa_scalars (int (be_nat hash)) r s (vli_val a) (vli_val b)"
    unfolding ecdsa_scalars_def using inv a b by blast
  moreover have "ecc_verify key hash 32 sig curve_secp256r1 = do {
        (rx, ry) \<leftarrow> shamir_mult a b (uECC_vli_bytesToNative key 32)
                     (uECC_vli_bytesToNative (drop 32 key) 32) curve_secp256r1;
        let rx = (if uECC_vli_cmp_unsafe ?n rx \<noteq> 1
                  then snd (uECC_vli_sub rx ?n) else rx);
        Some (if uECC_vli_equal rx ?r then 1 else 0) }"
    using rs w z(1)
    by (simp add: ecc_verify_def isZero_iff cmp_unsafe_iffs bits2int_eq a_def b_def Let_def)
  ultimately show ?thesis using a(1) b(1) by blast
qed

text \<open>Out of range is refused, whatever the key.\<close>

lemma ecc_verify_range:
  assumes "length sig = 64" "be_pair sig = (r, s)"
    and "\<not> (0 < r \<and> r < N256 \<and> 0 < s \<and> s < N256)"
  shows "ecc_verify key hash hs sig curve_secp256r1 = Some 0"
proof -
  note w = be_pair_words [OF assms(1,2)]
  then show ?thesis
    using assms(3) by (auto simp: ecc_verify_def Let_def isZero_iff cmp_unsafe_iffs)
qed

text \<open>The last comparison: the \<open>x\<close> coordinate reduced by the order.\<close>

lemma final_check:
  assumes "length w = 8" "vli_val w = r" "0 \<le> r" "r < N256"
  shows "uECC_vli_equal (if uECC_vli_cmp_unsafe (cv_n curve_secp256r1) (fe x) \<noteq> 1
      then snd (uECC_vli_sub (fe x) (cv_n curve_secp256r1)) else fe x) w
    \<longleftrightarrow> x mod P256 mod N256 = r"
proof -
  define v where "v = (if uECC_vli_cmp_unsafe (cv_n curve_secp256r1) (fe x) \<noteq> 1
      then snd (uECC_vli_sub (fe x) (cv_n curve_secp256r1)) else fe x)"
  have x: "0 \<le> x mod P256" "x mod P256 < P256" using P256_bounds by simp_all
  have "length v = 8 \<and> vli_val v = x mod P256 mod N256"
  proof (cases "x mod P256 < N256")
    case True
    then show ?thesis using x by (simp add: v_def cmp_unsafe_iffs)
  next
    case False
    have "x mod P256 mod N256 = (x mod P256 - N256) mod N256" by simp
    also have "\<dots> = x mod P256 - N256"
      by (rule mod_pos_pos_trivial) (use False x N256_facts in linarith)+
    finally have m: "x mod P256 mod N256 = x mod P256 - N256" .
    have v: "v = vli_of 8 (x mod P256 - N256)"
      using False by (simp add: v_def cmp_unsafe_iffs vli_sub_eq)
    have "x mod P256 - N256 < word_base ^ 8" unfolding word_base_8
      using x P256_bounds N256_facts by linarith
    then have "vli_val v = x mod P256 - N256"
      unfolding v using False by (intro vli_val_vli_of_small) simp_all
    then show ?thesis using m v by simp
  qed
  then show ?thesis
    using assms vli_val_inj [of v w] unfolding v_def [symmetric] by (auto simp: vli_equal_iff)
qed

lemma key_words:
  assumes "length key = 64" "on_curve (be_pair key)"
  shows "uECC_vli_bytesToNative key 32 = fe (fst (be_pair key))"
    and "uECC_vli_bytesToNative (drop 32 key) 32 = fe (snd (be_pair key))"
proof -
  obtain x y where k: "be_pair key = (x, y)" by fastforce
  note w = be_pair_words [OF assms(1) k]
  have "x < P256" "y < P256" using assms(2) by (simp_all add: k on_curve_def)
  then show "uECC_vli_bytesToNative key 32 = fe (fst (be_pair key))"
    and "uECC_vli_bytesToNative (drop 32 key) 32 = fe (snd (be_pair key))"
    using fe_of_val [OF w(1)] fe_of_val [OF w(3)] w k by simp_all
qed

theorem ecc_verify_total:
  assumes "length key = 64" "length sig = 64" "length hash = 32" "on_curve (be_pair key)"
  shows "\<exists>v. ecc_verify key hash 32 sig curve_secp256r1 = Some v \<and> (v = 0 \<or> v = 1)"
proof -
  obtain r s where rs: "be_pair sig = (r, s)" by fastforce
  show ?thesis
  proof (cases "0 < r \<and> r < N256 \<and> 0 < s \<and> s < N256")
    case True
    obtain a b where v: "length a = 8" "length b = 8" "0 < vli_val b"
        "ecc_verify key hash 32 sig curve_secp256r1 = do {
          (rx, ry) \<leftarrow> shamir_mult a b (fe (fst (be_pair key))) (fe (snd (be_pair key))) curve_secp256r1;
          let rx = (if uECC_vli_cmp_unsafe (cv_n curve_secp256r1) rx \<noteq> 1
                    then snd (uECC_vli_sub rx (cv_n curve_secp256r1)) else rx);
          Some (if uECC_vli_equal rx (uECC_vli_bytesToNative sig 32) then 1 else 0) }"
      using ecc_verify_scalars [OF assms(1-3) rs] True
      unfolding key_words [OF assms(1,4)] rs snd_conv by blast
    show ?thesis
      using shamir_mult_returns [OF v(1,2), of "be_pair key"] v(3)
      by (auto simp: v(4) fe2_def Let_def split: prod.splits)
  qed (use ecc_verify_range [OF assms(2) rs] in simp)
qed

theorem ecc_verify_decides:
  assumes len: "length key = 64" "length sig = 64" "length hash = 32" and key: "on_curve (be_pair key)"
    and rs: "be_pair sig = (r, s)" "0 < r" "r < N256" "0 < s" "s < N256"
    and u: "ecdsa_scalars (int (be_nat hash)) r s u1 u2"
    and R: "shamir_point (be_pair key) u1 u2 (x, y)"
  shows "ecc_verify key hash 32 sig curve_secp256r1 = Some (if x mod P256 mod N256 = r then 1 else 0)"
proof -
  obtain w where w: "w * s mod N256 = 1" "u1 = int (be_nat hash) * w mod N256" "u2 = r * w mod N256"
    using u by (auto simp: ecdsa_scalars_def)
  obtain a b where v: "length a = 8" "length b = 8" "0 < vli_val b"
      "ecdsa_scalars (int (be_nat hash)) r s (vli_val a) (vli_val b)"
      "ecc_verify key hash 32 sig curve_secp256r1 = do {
        (rx, ry) \<leftarrow> shamir_mult a b (fe (fst (be_pair key))) (fe (snd (be_pair key))) curve_secp256r1;
        let rx = (if uECC_vli_cmp_unsafe (cv_n curve_secp256r1) rx \<noteq> 1
                  then snd (uECC_vli_sub rx (cv_n curve_secp256r1)) else rx);
        Some (if uECC_vli_equal rx (uECC_vli_bytesToNative sig 32) then 1 else 0) }"
    using ecc_verify_scalars [OF len rs] unfolding key_words [OF len(1) key] by blast
  obtain w' where w': "w' * s mod N256 = 1" "vli_val a = int (be_nat hash) * w' mod N256"
      "vli_val b = r * w' mod N256"
    using v(4) by (auto simp: ecdsa_scalars_def)
  have ab: "vli_val a = u1" "vli_val b = u2"
    using inverse_unique [OF w(1) w'(1)] w w' by simp_all
  have "shamir_mult a b (fe (fst (be_pair key))) (fe (snd (be_pair key))) curve_secp256r1
      = Some (fe2 (x, y))"
    by (rule shamir_mult_point) (use v R ab in simp_all)
  then show ?thesis
    using final_check [of "uECC_vli_bytesToNative sig 32" r x] be_pair_words [OF len(2) rs(1)] rs
    by (simp add: v(5) fe2_def Let_def)
qed

text \<open>In range the scalars of a signature exist and are unique, since the order is prime.\<close>

lemma scalars_unique:
  assumes "0 < s" "s < N256"
  obtains u1 u2 where "\<And>v1 v2. ecdsa_scalars e r s v1 v2 \<longleftrightarrow> v1 = u1 \<and> v2 = u2"
proof -
  obtain w k where "w * s + k * N256 = gcd s N256" using bezout_int by blast
  then have "w * s + k * N256 = 1" using order_coprime [OF assms] by (simp add: coprime_iff_gcd_eq_1)
  then have "(w * s + k * N256) mod N256 = 1 mod N256" by simp
  then have w: "w * s mod N256 = 1" using N256_facts(1) by simp
  have "ecdsa_scalars e r s v1 v2 \<longleftrightarrow> v1 = e * w mod N256 \<and> v2 = r * w mod N256" for v1 v2
    unfolding ecdsa_scalars_def using w inverse_unique [OF w] by metis
  then show thesis by (rule that)
qed

theorem ecc_verify_spec:
  assumes "length key = 64" "length sig = 64" "length hash = 32" "on_curve (be_pair key)"
    and "be_pair sig = (r, s)"
  shows "if 0 < r \<and> r < N256 \<and> 0 < s \<and> s < N256
    then \<exists>u1 u2. (\<forall>v1 v2. ecdsa_scalars (int (be_nat hash)) r s v1 v2 \<longleftrightarrow> v1 = u1 \<and> v2 = u2)
      \<and> (\<forall>x y. shamir_point (be_pair key) u1 u2 (x, y) \<longrightarrow>
          ecc_verify key hash 32 sig curve_secp256r1 = Some (if x mod P256 mod N256 = r then 1 else 0))
    else ecc_verify key hash 32 sig curve_secp256r1 = Some 0"
proof (cases "0 < r \<and> r < N256 \<and> 0 < s \<and> s < N256")
  case True
  then obtain u1 u2 where u: "\<And>v1 v2. ecdsa_scalars (int (be_nat hash)) r s v1 v2 \<longleftrightarrow> v1 = u1 \<and> v2 = u2"
    using scalars_unique by blast
  have "\<forall>x y. shamir_point (be_pair key) u1 u2 (x, y) \<longrightarrow>
      ecc_verify key hash 32 sig curve_secp256r1 = Some (if x mod P256 mod N256 = r then 1 else 0)"
    using True u by (intro allI impI ecc_verify_decides [OF assms]) simp_all
  then show ?thesis unfolding if_P [OF True] using u by blast
next
  case False
  then show ?thesis unfolding if_not_P [OF False] by (rule ecc_verify_range [OF assms(2,5)])
qed

end
