(* ===== verification/Ecc_Demo.thy ===== *)
theory Ecc_Demo
  imports Ecc_Verify
begin

text \<open>
  A key and a signature at which the properties of the verifier are instantiated.  They are made
  for the scalars \<open>u1 = 1\<close> and \<open>u2 = 2\<close>, so that the ladder starts at the key, doubles it and adds the
  base point; the digest is that of an image (\<open>Signed_Demo\<close>).
\<close>

section \<open>Checking by quotients\<close>

text \<open>
  Congruences and inverses of literals are checked by one multiplication with a given quotient.
\<close>

lemma eqp_quotient: "a - b = P256 * k \<Longrightarrow> eqp a b"
  by (simp add: eqp_dvd)

lemma mod_quotient: "(a :: int) = n * k + r \<Longrightarrow> 0 \<le> r \<Longrightarrow> r < n \<Longrightarrow> a mod n = r"
  by simp

lemma coprime_bezout: "(a :: int) * k + b * m = 1 \<Longrightarrow> coprime a b"
  by (metis coprimeI dvd_add dvd_mult2)

section \<open>The key\<close>

definition ed_x :: int where
  "ed_x = 0x17F89B45700EABC91D631523DC77542B342A9A28930853BAF35A09E0C128C8C0"

definition ed_y :: int where
  "ed_y = 0x23211C6F560A23AAABEC9BDDF3A25780489AF4C9979732DE88CFFB533E0D967D"

definition ed_key :: "u8 list" where
  "ed_key =
    [0x17, 0xF8, 0x9B, 0x45, 0x70, 0x0E, 0xAB, 0xC9, 0x1D, 0x63, 0x15, 0x23, 0xDC, 0x77,
    0x54, 0x2B, 0x34, 0x2A, 0x9A, 0x28, 0x93, 0x08, 0x53, 0xBA, 0xF3, 0x5A, 0x09, 0xE0,
    0xC1, 0x28, 0xC8, 0xC0] @
    [0x23, 0x21, 0x1C, 0x6F, 0x56, 0x0A, 0x23, 0xAA, 0xAB, 0xEC, 0x9B, 0xDD, 0xF3, 0xA2,
    0x57, 0x80, 0x48, 0x9A, 0xF4, 0xC9, 0x97, 0x97, 0x32, 0xDE, 0x88, 0xCF, 0xFB, 0x53,
    0x3E, 0x0D, 0x96, 0x7D]"

lemma ed_key_pair: "length ed_key = 64" "be_pair ed_key = (ed_x, ed_y)"
  by (simp_all add: ed_key_def be_pair_def be_nat_def ed_x_def ed_y_def)

lemma ed_key_on_curve: "on_curve (be_pair ed_key)"
proof -
  have "ed_y * ed_y - (ed_x * ed_x * ed_x - 3 * ed_x + curve_b)
      = P256 * (- 0x35CE27731A454A2EC78ED2A434BA3B14AA5C9BCA667DCA67430E14B23C9A0FF1612A0080A4C1EDFED10E7E1CE52FCFD51AACDA57964772E2B04A08E6E4B2FE)"
    by code_simp
  then have "ed_y * ed_y mod P256 = (ed_x * ed_x * ed_x - 3 * ed_x + curve_b) mod P256"
    using eqp_quotient fe_eq_iff by blast
  moreover have "ed_x < P256" "ed_y < P256" "ed_x \<noteq> 0" by (simp_all add: ed_x_def ed_y_def P256_def)
  ultimately show ?thesis unfolding ed_key_pair by (simp add: on_curve_def)
qed

section \<open>The signature\<close>

definition ed_r :: int where
  "ed_r = 0x3442C864917AF1B5B9B50A51BF29B176C858506D2705332B591D91F83FF2C926"

definition ed_s :: int where
  "ed_s = 0x1A21643248BD78DADCDA8528DF94D8BB642C283693829995AC8EC8FC1FF96493"

definition ed_digest :: "u8 list" where
  "ed_digest =
    [0x1A, 0x21, 0x64, 0x32, 0x48, 0xBD, 0x78, 0xDA, 0xDC, 0xDA, 0x85, 0x28, 0xDF, 0x94,
    0xD8, 0xBB, 0x64, 0x2C, 0x28, 0x36, 0x93, 0x82, 0x99, 0x95, 0xAC, 0x8E, 0xC8, 0xFC,
    0x1F, 0xF9, 0x64, 0x93]"

definition ed_sig :: "u8 list" where
  "ed_sig =
    [0x34, 0x42, 0xC8, 0x64, 0x91, 0x7A, 0xF1, 0xB5, 0xB9, 0xB5, 0x0A, 0x51, 0xBF, 0x29,
    0xB1, 0x76, 0xC8, 0x58, 0x50, 0x6D, 0x27, 0x05, 0x33, 0x2B, 0x59, 0x1D, 0x91, 0xF8,
    0x3F, 0xF2, 0xC9, 0x26]
   @ ed_digest"

lemma ed_digest_val: "length ed_digest = 32" "int (be_nat ed_digest) = ed_s"
  by (simp_all add: ed_digest_def be_nat_def ed_s_def)

lemma ed_sig_pair: "length ed_sig = 64" "be_pair ed_sig = (ed_r, ed_s)"
  by (simp_all add: ed_sig_def ed_digest_val be_pair_def) (simp add: be_nat_def ed_r_def)

lemma N256_val: "N256 = 0xFFFFFFFF00000000FFFFFFFFFFFFFFFFBCE6FAADA7179E84F3B9CAC2FC632551"
  by (simp add: secp256r1_order_def)

lemma ed_sig_range: "0 < ed_r" "ed_r < N256" "0 < ed_s" "ed_s < N256"
  unfolding N256_val by (simp_all add: ed_r_def ed_s_def)

lemma ed_scalars: "ecdsa_scalars (int (be_nat ed_digest)) ed_r ed_s 1 2"
proof -
  let ?w = "0xE2A0995F338EBD4F8510D29056D7B5E30C3946FE1FA89C52210EE48DF5CE84 :: int"
  have s: "?w * ed_s = N256 * 0x1721DEFAC7500F0808B9FD6C99E1A8BB52FF259ED04A8456B2BDFEA0D8425B + 1"
    unfolding N256_val by code_simp
  have r: "ed_r * ?w = N256 * 0x2E43BDF58EA01E101173FAD933C35176A5FE4B3DA09508AD657BFD41B084B6 + 2"
    unfolding N256_val by code_simp
  have "?w * ed_s mod N256 = 1" by (rule mod_quotient [OF s]) (simp_all add: N256_val)
  moreover have "ed_r * ?w mod N256 = 2" by (rule mod_quotient [OF r]) (simp_all add: N256_val)
  ultimately show ?thesis unfolding ecdsa_scalars_def ed_digest_val
    by (intro exI [of _ ?w]) (simp add: mult.commute)
qed

section \<open>The ladder\<close>

definition ed_sum_slope :: int where
  "ed_sum_slope = 0x698B90A9CE4AE1FE2FA2A60DDB36FCDC462A76BEC54BB954472AE4C60E6D2E89"

definition ed_tangent :: int where
  "ed_tangent = 0xA71A4FC6C519DED87812474D06E36D67ED8F38E67B891153E9F2E528CCB08CD"

definition ed_chord :: int where
  "ed_chord = 0x6551828F9C7DFE5D152315801D2B1F2E0C65B14A78013D56BD4E5E4DB8E530DF"

definition ed_double :: "int \<times> int" where
  "ed_double = third_point ed_tangent (ed_x, ed_y) ed_x"

definition ed_point :: "int \<times> int" where
  "ed_point = third_point ed_chord curve_G (fst ed_double)"

lemma ed_sum: "affine_add curve_G (ed_x, ed_y) (third_point ed_sum_slope curve_G ed_x)"
proof -
  have "(ed_x - fst curve_G) * 0xEC81165372E6A755E91E4C48924C4CA5A2E6E89C6AAC454036B4D54CFA7CB7E0
      + P256 * 0x4CCAB062859863B5D664141AEA854821B88E6CE177121D9F6265560A72C56ABF = 1"
    by code_simp
  then have "coprime (ed_x - fst curve_G) P256" by (rule coprime_bezout)
  moreover have "ed_sum_slope * (ed_x - fst curve_G) - (ed_y - snd curve_G)
      = P256 * (- 0x22451E58A72EC2A9EB99071DDDC4BB224C3C338D939E5DC6E1BCCFEA3BC293F2)"
    by code_simp
  then have "chord_slope curve_G (ed_x, ed_y) ed_sum_slope"
    by (simp add: chord_slope_def case_prod_beta eqp_quotient del: mult_minus_right)
  ultimately show ?thesis by (auto simp: affine_add_def)
qed

lemma ed_double: "affine_double (ed_x, ed_y) ed_double"
proof -
  have "ed_y * 0xF69F6F74629C8C76313730BF5A4ED82F8B13EF86C9D91FDF0FD02F92A2C7F5BC
      + P256 * (- 0x21D7B22F1B8931D8CA5006BA6D5B1C8052F6AE7CE9ACA650F5D2286657D4DB35) = 1"
    by code_simp
  then have "coprime ed_y P256" by (rule coprime_bezout)
  moreover have "2 * ed_y * ed_tangent - 3 * (ed_x * ed_x - 1)
      = P256 * (- 0x3DE113F900D11419DC26FE108BCE03948EC5AF145A79E84820E51D911232435)"
    by code_simp
  then have "tangent_slope (ed_x, ed_y) ed_tangent"
    unfolding tangent_slope_def prod.case by (rule eqp_quotient)
  ultimately show ?thesis by (auto simp: affine_double_def ed_double_def)
qed

lemma ed_double_val: "ed_double =
   (0x6D1356C9A26411FB23EF61486FF9B0EFDAD8EB97D741E3B5ED867418D075822B634277373C00B6B5685A2D13FB47588D6C1C801F0605DBCA9BEE39AB19E2A9,
    (- 0x4732D39202220694C74A041669E53C9D07916A49663F8AA015B69948AAC52641873582D3BBD54E0384C7FDE3285077C75E55933892ACB24DE24749A705391DF5DED18D04F7B1D2975455657DC53ED189D360A1A0380AC71C124D314B19E12))"
  by code_simp

lemma ed_add: "affine_add curve_G ed_double ed_point"
proof -
  have "(fst ed_double - fst curve_G) * 0x1451ABD864F6C3546C8740BF8A6304A0EAB488AEB001E1CC52928DEA5EDA68CE
      + P256 * (- 0x8A84F1E5D731D7F5D64CB10D365F2BF1691F625C793FEA90E26ACBACFF81EEB80E32E283C305AE06666C2DE40941DA169E73A10DE49EC6E4AE22DDCE278B7) = 1"
    unfolding ed_double_val by code_simp
  then have "coprime (fst ed_double - fst curve_G) P256" by (rule coprime_bezout)
  moreover have "ed_chord * (fst ed_double - fst curve_G) - (snd ed_double - snd curve_G)
      = P256 * 0x2F9E8936552BDD2ED73ABCFF94B74E7490EF2A289E916E444A05F306FDDFA490939F4815F04588B19CE4C93CF5DF97C03A1F5000EFA1C8B66786A1C6118F6C"
    unfolding ed_double_val by code_simp
  then have "chord_slope curve_G ed_double ed_chord"
    by (simp add: chord_slope_def case_prod_beta eqp_quotient)
  ultimately show ?thesis by (auto simp: affine_add_def ed_point_def)
qed

lemma ed_shamir: "shamir_point (be_pair ed_key) 1 2 ed_point"
proof -
  let ?pts = "point_table (ed_x, ed_y) (third_point ed_sum_slope curve_G ed_x)"
  have "shamir_chain ?pts 1 2 [0] (ed_x, ed_y) ed_point"
    by (rule chain_add [OF ed_double _ ed_add chain_done])
      (simp add: point_table_def scalar_index_def bit_0)
  then show ?thesis
    unfolding shamir_point_def ed_key_pair
    by (intro exI [of _ "third_point ed_sum_slope curve_G ed_x"] exI [of _ 1] exI [of _ "(ed_x, ed_y)"])
      (simp add: ed_sum point_table_def scalar_index_def bit_iff_odd)
qed

lemma ed_abscissa: "fst ed_point mod P256 mod N256 = ed_r"
proof -
  have f: "fst ed_point = P256 * 0x27AC57A290FC91810283DB20EF9C2CD48E90D27931D50F9FFB294BE0BB5B0C24
      + ed_r"
    unfolding ed_point_def ed_double_val by code_simp
  have "fst ed_point mod P256 = ed_r"
    by (rule mod_quotient [OF f]) (simp_all add: ed_r_def P256_def)
  then show ?thesis using ed_sig_range by simp
qed

lemma ed_accepted: "ecc_verify ed_key ed_digest 32 ed_sig curve_secp256r1 = Some 1"
proof -
  have "shamir_point (be_pair ed_key) 1 2 (fst ed_point, snd ed_point)" using ed_shamir by simp
  from ecc_verify_decides [OF ed_key_pair(1) ed_sig_pair(1) ed_digest_val(1) ed_key_on_curve
      ed_sig_pair(2) ed_sig_range ed_scalars this]
  show ?thesis by (simp add: ed_abscissa)
qed

end
