(* ===== verification/Signed_Image.thy ===== *)
theory Signed_Image
  imports Ecc_Verify
begin

text \<open>
  The two calls \<^verbatim>\<open>crypto.c\<close> makes into micro-ecc, answered by the model of micro-ecc: with it the
  abstract predicate \<open>image_ok\<close> speaks of the curve and of no signature routine left open.
\<close>

definition micro_ecc :: "u8 list \<Rightarrow> u8 list \<Rightarrow> crypto_env" where
  "micro_ecc key digest = \<lparr>
     uECC_valid_public_key = (\<lambda>k. the (ecc_valid_public_key k curve_secp256r1)),
     uECC_verify = (\<lambda>k h sig. the (ecc_verify k h 32 sig curve_secp256r1)),
     public_key_xy = key, public_key_sha256 = digest \<rparr>"

definition image_formed :: "mem \<Rightarrow> u32 \<Rightarrow> bool" where
  "image_formed m a \<longleftrightarrow> fh_magic (image_header m a) = FIRMWARE_MAGIC
     \<and> 0 < fh_image_size (image_header m a)
     \<and> fh_image_size (image_header m a) \<le> FIRMWARE_MAX_PAYLOAD_SIZE
     \<and> crc32 (image_payload m a) = fh_crc32 (image_header m a)
     \<and> low_s (fh_signature (image_header m a))"

lemma micro_ecc_key_len [simp]: "length (public_key_sha256 (micro_ecc key digest)) = length digest"
  by (simp add: micro_ecc_def)

lemma micro_ecc_pubkey:
  assumes "length key = 64"
  shows "pubkey_ok (micro_ecc key digest) \<longleftrightarrow> on_curve (be_pair key) \<and> fips_sha256 key = digest"
  using assms by (simp add: pubkey_ok_def micro_ecc_def valid_public_key_eq)

lemma image_ok_micro_ecc:
  assumes "length key = 64"
  shows "image_ok (micro_ecc key digest) m a \<longleftrightarrow>
    on_curve (be_pair key) \<and> fips_sha256 key = digest \<and> image_formed m a
    \<and> ecc_verify key (fips_sha256 (signed_message m a)) 32 (fh_signature (image_header m a))
        curve_secp256r1 = Some 1"
proof (cases "on_curve (be_pair key)")
  case True
  obtain v where v: "ecc_verify key (fips_sha256 (signed_message m a)) 32
      (fh_signature (image_header m a)) curve_secp256r1 = Some v"
    using ecc_verify_total [OF assms _ _ True, of "fh_signature (image_header m a)"
        "fips_sha256 (signed_message m a)"] by (auto simp: length_fips_sha256)
  have "uECC_verify (micro_ecc key digest) (public_key_xy (micro_ecc key digest))
      (fips_sha256 (signed_message m a)) (fh_signature (image_header m a)) = v"
    by (simp add: micro_ecc_def v)
  then show ?thesis
    unfolding image_ok_def image_formed_def v micro_ecc_pubkey [OF assms] by auto
qed (simp add: image_ok_def micro_ecc_pubkey [OF assms])

section \<open>What a signature means\<close>

text \<open>
  The equation of ECDSA for the digest \<open>e\<close> and the signature \<open>(r, s)\<close>, with the bounds of \<open>r\<close> and the low
  form of \<open>s\<close>, wherever the ladder is a chain of points.
\<close>

definition ecdsa_signed :: "int \<times> int \<Rightarrow> int \<Rightarrow> int \<times> int \<Rightarrow> bool" where
  "ecdsa_signed Q e = (\<lambda>(r, s). 0 < r \<and> r < N256 \<and> 0 < s \<and> s \<le> N256 div 2
     \<and> (\<forall>u1 u2 x y. ecdsa_scalars e r s u1 u2 \<longrightarrow> shamir_point Q u1 u2 (x, y) \<longrightarrow> x mod P256 mod N256 = r))"

lemma accepted_signature:
  assumes "length key = 64" "image_ok (micro_ecc key digest) m a"
  shows "on_curve (be_pair key) \<and> fips_sha256 key = digest \<and> image_formed m a
    \<and> ecdsa_signed (be_pair key) (int (be_nat (fips_sha256 (signed_message m a))))
        (be_pair (fh_signature (image_header m a)))"
proof -
  let ?e = "fips_sha256 (signed_message m a)" and ?g = "fh_signature (image_header m a)"
  obtain r s where rs: "be_pair ?g = (r, s)" by fastforce
  have k: "on_curve (be_pair key)" "fips_sha256 key = digest" "image_formed m a"
    and v: "ecc_verify key ?e 32 ?g curve_secp256r1 = Some 1"
    using assms(2) by (simp_all add: image_ok_micro_ecc [OF assms(1)])
  have range: "0 < r \<and> r < N256 \<and> 0 < s \<and> s < N256"
    using ecc_verify_range [OF _ rs, of key ?e 32] v by force
  have "s \<le> N256 div 2"
    using k(3) rs by (auto simp: image_formed_def low_s_def be_pair_def zdiv_int)
  moreover have "x mod P256 mod N256 = r"
    if "ecdsa_scalars (int (be_nat ?e)) r s u1 u2" "shamir_point (be_pair key) u1 u2 (x, y)" for u1 u2 x y
    using ecc_verify_decides [OF assms(1) _ length_fips_sha256 k(1) rs _ _ _ _ that] range v
    by (simp split: if_splits)
  ultimately show ?thesis using k range by (auto simp: ecdsa_signed_def rs)
qed

end
