(* ===== verification/Signed_Demo.thy ===== *)
theory Signed_Demo
  imports Sha_Eval Demo_Boot Ecc_Demo Signed_Image
begin

text \<open>
  An image that the boot loader accepts with the modelled signature check: one byte of payload, its
  checksum, and a signature by the key of \<open>Ecc_Demo\<close> over the SHA-256 digest of its header and
  payload.  The digest is computed block by block on bits (\<open>Sha_Eval\<close>).
\<close>

section \<open>The image\<close>

definition sd_hdr :: FirmwareHeader_t where
  "sd_hdr = \<lparr> fh_magic = FIRMWARE_MAGIC, fh_version = 0x10000, fh_image_size = 1, fh_timestamp = 0x6955B909,
     fh_crc32 = 0xC9034AF6, fh_signature = ed_sig, fh_reserved = replicate 428 0xFF \<rparr>"

definition sd_image :: "u8 list" where
  "sd_image = hdr_bytes sd_hdr @ [0x55]"

definition sd_mem :: mem where
  "sd_mem = put BOOT_CONFIG_ADDR (Some (cfg_bytes (boot_config_stamp_crc (demo_cfg 0 0))))
     (put SLOT_B_ADDR (Some sd_image) (\<lambda>_. 0xFF))"

lemma sd_hdr_wf: "hdr_wf sd_hdr"
  by (simp add: sd_hdr_def hdr_wf_def ed_sig_pair(1))

lemma length_sd_image: "length sd_image = 513"
  by (simp add: sd_image_def length_hdr_bytes sd_hdr_wf)

lemma sd_crc: "crc32 [0x55] = fh_crc32 sd_hdr"
  unfolding sd_hdr_def FirmwareHeader_t.simps by code_simp

lemma sd_stored: "mem_bytes sd_mem SLOT_B_ADDR 513 = sd_image"
proof -
  have "mem_bytes sd_mem SLOT_B_ADDR 513 = mem_bytes (put SLOT_B_ADDR (Some sd_image) (\<lambda>_. 0xFF)) SLOT_B_ADDR 513"
    unfolding sd_mem_def by (rule put_bytes_other) (auto simp: partition_ranges)
  also have "\<dots> = sd_image" using put_bytes_same [of sd_image] by (simp add: length_sd_image)
  finally show ?thesis .
qed

lemma sd_layout:
  "image_header sd_mem SLOT_B_ADDR = sd_hdr" "image_payload sd_mem SLOT_B_ADDR = [0x55]"
proof -
  have "mem_bytes sd_mem SLOT_B_ADDR 512 @ mem_bytes sd_mem (SLOT_B_ADDR + 512) 1 = hdr_bytes sd_hdr @ [0x55]"
    using sd_stored mem_bytes_append [of sd_mem SLOT_B_ADDR 512 1] by (simp add: sd_image_def)
  then have b: "mem_bytes sd_mem SLOT_B_ADDR 512 = hdr_bytes sd_hdr"
      "mem_bytes sd_mem (SLOT_B_ADDR + 512) 1 = [0x55]"
    using append_eq_append_conv [of "mem_bytes sd_mem SLOT_B_ADDR 512" "hdr_bytes sd_hdr"]
    by (simp_all add: length_hdr_bytes sd_hdr_wf)
  show h: "image_header sd_mem SLOT_B_ADDR = sd_hdr"
    using hdr_of_hdr_bytes [OF sd_hdr_wf, of "[]"] by (simp add: image_header_def b)
  show "image_payload sd_mem SLOT_B_ADDR = [0x55]"
    using b(2) by (simp add: image_payload_def h) (simp add: sd_hdr_def)
qed

lemma sd_formed: "image_formed sd_mem SLOT_B_ADDR"
proof -
  have "low_s ed_sig"
    using ed_sig_pair(2) by (simp add: low_s_def be_pair_def ed_r_def ed_s_def secp256r1_order_def)
  then show ?thesis
    unfolding image_formed_def sd_layout sd_crc by (simp add: sd_hdr_def layout_simps)
qed

section \<open>Its digest\<close>

lemma absorb_blocks:
  "list_all (\<lambda>b. length b = 64) bs \<Longrightarrow> absorb (length bs) (concat bs) = foldl fips_compress fips_H0 bs"
proof (induction bs rule: rev_induct)
  case (snoc b bs)
  have "64 * length bs = length (concat bs)"
    using snoc.prems by (induction bs) auto
  then show ?case
    using snoc absorb_append [of "length bs" "concat bs" b] by (simp add: absorb_Suc)
qed (simp add: absorb_def)

definition sd_block0 :: "u8 list" where
  "sd_block0 =
    [0xEF, 0xBE, 0xAD, 0xDE, 0, 0, 0x01, 0, 0x01, 0, 0, 0, 0x09, 0xB9, 0x55, 0x69, 0xF6,
     0x4A, 0x03, 0xC9]
    @ replicate 44 0"

definition sd_block1 :: "u8 list" where
  "sd_block1 = replicate 20 0 @ replicate 44 0xFF"

definition sd_block2 :: "u8 list" where
  "sd_block2 = replicate 64 0xFF"

definition sd_block8 :: "u8 list" where
  "sd_block8 = [0x55, 0x80] @ replicate 54 0 @
    [0, 0, 0, 0, 0, 0, 0x10, 0x08]"

lemma sd_padded:
  "fips_pad (signed_message sd_mem SLOT_B_ADDR) = concat
    [sd_block0, sd_block1, sd_block2, sd_block2, sd_block2, sd_block2, sd_block2, sd_block2, sd_block8]"
proof -
  have z: "replicate 64 (0 :: u8) = replicate 44 0 @ replicate 20 0"
    and f: "replicate 428 (0xFF :: u8) = replicate 44 0xFF @ sd_block2 @ sd_block2 @ sd_block2
        @ sd_block2 @ sd_block2 @ sd_block2"
    by (simp_all add: sd_block2_def flip: replicate_add)
  have "length sd_block2 = 64" by (simp add: sd_block2_def)
  then show ?thesis
    unfolding fips_pad_def signed_message_def sd_layout
    by (simp add: sd_hdr_def hdr_bytes_def le32_def layout_simps sd_block0_def sd_block1_def
        sd_block8_def be64_def z f upt_conv_Cons)
qed

lemma sd_words:
  "map (\<lambda>i. be_word sd_block0 (4 * i)) [0..<16] = map word_of_int
    [0xEFBEADDE, 0x00000100, 0x01000000, 0x09B95569, 0xF64A03C9, 0, 0, 0, 0, 0, 0, 0, 0,
     0, 0, 0]"
  "map (\<lambda>i. be_word sd_block1 (4 * i)) [0..<16] = map word_of_int
    [0, 0, 0, 0, 0, 0xFFFFFFFF, 0xFFFFFFFF, 0xFFFFFFFF, 0xFFFFFFFF, 0xFFFFFFFF,
     0xFFFFFFFF, 0xFFFFFFFF, 0xFFFFFFFF, 0xFFFFFFFF, 0xFFFFFFFF, 0xFFFFFFFF]"
  "map (\<lambda>i. be_word sd_block2 (4 * i)) [0..<16] = map word_of_int
    [0xFFFFFFFF, 0xFFFFFFFF, 0xFFFFFFFF, 0xFFFFFFFF, 0xFFFFFFFF, 0xFFFFFFFF, 0xFFFFFFFF,
     0xFFFFFFFF, 0xFFFFFFFF, 0xFFFFFFFF, 0xFFFFFFFF, 0xFFFFFFFF, 0xFFFFFFFF, 0xFFFFFFFF,
     0xFFFFFFFF, 0xFFFFFFFF]"
  "map (\<lambda>i. be_word sd_block8 (4 * i)) [0..<16] = map word_of_int
    [0x55800000, 0, 0, 0, 0, 0, 0, 0, 0, 0, 0, 0, 0, 0, 0, 0x00001008]"
  by (simp_all add: sd_block0_def sd_block1_def sd_block2_def sd_block8_def be_word_def
      nth_append upt_conv_Cons)

lemma sd_start: "fips_H0 = map word_of_int
    [0x6A09E667, 0xBB67AE85, 0x3C6EF372, 0xA54FF53A, 0x510E527F, 0x9B05688C, 0x1F83D9AB, 0x5BE0CD19]"
  by (simp add: fips_H0_def)

lemma sd_compress0: "fips_compress (map word_of_int
    [0x6A09E667, 0xBB67AE85, 0x3C6EF372, 0xA54FF53A, 0x510E527F, 0x9B05688C, 0x1F83D9AB, 0x5BE0CD19]) sd_block0
  = map word_of_int
    [0x18426FE5, 0xF8190041, 0x81C6BBF6, 0x3EF06B33, 0xA1B050DE, 0xF7412F0C, 0xA96002E1, 0x70955E78]"
  by (rule compress_eval [OF _ _ sd_words(1)]; code_simp)

lemma sd_compress1: "fips_compress (map word_of_int
    [0x18426FE5, 0xF8190041, 0x81C6BBF6, 0x3EF06B33, 0xA1B050DE, 0xF7412F0C, 0xA96002E1, 0x70955E78]) sd_block1
  = map word_of_int
    [0xA071CE10, 0x54CCC872, 0xB57160CD, 0x38384F9B, 0x80F69C31, 0xB3558D0C, 0xDE0DE107, 0xBF75C184]"
  by (rule compress_eval [OF _ _ sd_words(2)]; code_simp)

lemma sd_compress2: "fips_compress (map word_of_int
    [0xA071CE10, 0x54CCC872, 0xB57160CD, 0x38384F9B, 0x80F69C31, 0xB3558D0C, 0xDE0DE107, 0xBF75C184]) sd_block2
  = map word_of_int
    [0x3B1AD23B, 0x5AD7AB4B, 0x1BF1CE08, 0xA4A232E8, 0x4D74908A, 0x9E06257F, 0x62F82922, 0x2B701707]"
  by (rule compress_eval [OF _ _ sd_words(3)]; code_simp)

lemma sd_compress3: "fips_compress (map word_of_int
    [0x3B1AD23B, 0x5AD7AB4B, 0x1BF1CE08, 0xA4A232E8, 0x4D74908A, 0x9E06257F, 0x62F82922, 0x2B701707]) sd_block2
  = map word_of_int
    [0x69AE3397, 0x41B5E9F8, 0x564DB367, 0xA1E798F6, 0xDCDF9F51, 0x066300A5, 0x5239285B, 0xD3D20AB5]"
  by (rule compress_eval [OF _ _ sd_words(3)]; code_simp)

lemma sd_compress4: "fips_compress (map word_of_int
    [0x69AE3397, 0x41B5E9F8, 0x564DB367, 0xA1E798F6, 0xDCDF9F51, 0x066300A5, 0x5239285B, 0xD3D20AB5]) sd_block2
  = map word_of_int
    [0x396252BD, 0xAB963D8F, 0x329527AC, 0x1153B5B2, 0x9371818B, 0xA01D5C29, 0xE1E0B759, 0x0C2D7159]"
  by (rule compress_eval [OF _ _ sd_words(3)]; code_simp)

lemma sd_compress5: "fips_compress (map word_of_int
    [0x396252BD, 0xAB963D8F, 0x329527AC, 0x1153B5B2, 0x9371818B, 0xA01D5C29, 0xE1E0B759, 0x0C2D7159]) sd_block2
  = map word_of_int
    [0x4DE0DE1F, 0x1B4228F9, 0xAB474C4B, 0xA5C609EE, 0xDC711EA7, 0x2F9C9BD5, 0xE14464C6, 0x4BE3CD23]"
  by (rule compress_eval [OF _ _ sd_words(3)]; code_simp)

lemma sd_compress6: "fips_compress (map word_of_int
    [0x4DE0DE1F, 0x1B4228F9, 0xAB474C4B, 0xA5C609EE, 0xDC711EA7, 0x2F9C9BD5, 0xE14464C6, 0x4BE3CD23]) sd_block2
  = map word_of_int
    [0x5CB81B07, 0x2D12F73F, 0xEEA43954, 0xDDC6DFDD, 0x6F7AEFB9, 0xFECDAFA6, 0xEE3419A1, 0xC9196A5F]"
  by (rule compress_eval [OF _ _ sd_words(3)]; code_simp)

lemma sd_compress7: "fips_compress (map word_of_int
    [0x5CB81B07, 0x2D12F73F, 0xEEA43954, 0xDDC6DFDD, 0x6F7AEFB9, 0xFECDAFA6, 0xEE3419A1, 0xC9196A5F]) sd_block2
  = map word_of_int
    [0x5E662C8A, 0x6AA7A6F3, 0xFF6480CD, 0x44D63675, 0xDA186060, 0x8D9C99A1, 0xD4B219A0, 0x73C81B28]"
  by (rule compress_eval [OF _ _ sd_words(3)]; code_simp)

lemma sd_compress8: "fips_compress (map word_of_int
    [0x5E662C8A, 0x6AA7A6F3, 0xFF6480CD, 0x44D63675, 0xDA186060, 0x8D9C99A1, 0xD4B219A0, 0x73C81B28]) sd_block8
  = map word_of_int
    [0x1A216432, 0x48BD78DA, 0xDCDA8528, 0xDF94D8BB, 0x642C2836, 0x93829995, 0xAC8EC8FC, 0x1FF96493]"
  by (rule compress_eval [OF _ _ sd_words(4)]; code_simp)

lemma sd_digest: "fips_sha256 (signed_message sd_mem SLOT_B_ADDR) = ed_digest"
proof -
  let ?bs = "[sd_block0, sd_block1, sd_block2, sd_block2, sd_block2, sd_block2, sd_block2, sd_block2, sd_block8]"
  have l: "list_all (\<lambda>b. length b = 64) ?bs"
    by (simp add: sd_block0_def sd_block1_def sd_block2_def sd_block8_def)
  have n: "length (concat ?bs) div 64 = length ?bs"
    by (simp add: sd_block0_def sd_block1_def sd_block2_def sd_block8_def)
  have "foldl fips_compress fips_H0 ?bs = map word_of_int
      [0x1A216432, 0x48BD78DA, 0xDCDA8528, 0xDF94D8BB, 0x642C2836, 0x93829995, 0xAC8EC8FC, 0x1FF96493]"
    unfolding sd_start foldl_Cons foldl_Nil sd_compress0 sd_compress1 sd_compress2 sd_compress3
      sd_compress4 sd_compress5 sd_compress6 sd_compress7 sd_compress8 ..
  then have "fips_sha256 (signed_message sd_mem SLOT_B_ADDR) = concat (map be32 (map word_of_int
      [0x1A216432, 0x48BD78DA, 0xDCDA8528, 0xDF94D8BB, 0x642C2836, 0x93829995, 0xAC8EC8FC, 0x1FF96493]))"
    unfolding fips_sha256_def sd_padded n absorb_blocks [OF l] by (rule arg_cong)
  also have "\<dots> = ed_digest" by (simp add: be32_def ed_digest_def upt_conv_Cons)
  finally show ?thesis .
qed

section \<open>Accepted\<close>

definition sd_env :: crypto_env where
  "sd_env = micro_ecc ed_key (fips_sha256 ed_key)"

lemma sd_env_len [simp]: "length (public_key_sha256 sd_env) = 32"
  by (simp add: sd_env_def length_fips_sha256)

lemma sd_image_ok: "image_ok sd_env sd_mem SLOT_B_ADDR"
  unfolding sd_env_def image_ok_micro_ecc [OF ed_key_pair(1)] sd_digest sd_layout
  by (simp add: ed_key_on_curve sd_formed) (simp add: sd_hdr_def ed_accepted)

lemma sd_slot_a: "\<not> image_ok C sd_mem SLOT_A_ADDR"
proof (rule erased_not_ok)
  have "mem_bytes sd_mem SLOT_A_ADDR 513 = mem_bytes (put SLOT_B_ADDR (Some sd_image) (\<lambda>_. 0xFF)) SLOT_A_ADDR 513"
    unfolding sd_mem_def by (rule put_bytes_other) (auto simp: partition_ranges)
  also have "\<dots> = mem_bytes (\<lambda>_. 0xFF) SLOT_A_ADDR 513"
    by (rule put_bytes_other) (auto simp: partition_ranges length_sd_image)
  finally have "mem_bytes sd_mem SLOT_A_ADDR 513 = mem_bytes (\<lambda>_. 0xFF) SLOT_A_ADDR 513" .
  then show "mem_bytes sd_mem SLOT_A_ADDR 513 = replicate 513 0xFF"
    by (simp add: mem_bytes_def map_replicate_const)
qed

section \<open>Booted\<close>

definition sd_boot :: "sim_flash boot_st" where
  "sd_boot = \<lparr> bs_flash = sim_of_rom sd_mem, bs_shared = demo_shared \<rparr>"

lemma sd_cfg: "stored_cfg sd_mem = boot_config_stamp_crc (demo_cfg 0 0)"
  using put_bytes_same [of "cfg_bytes (boot_config_stamp_crc (demo_cfg 0 0))" BOOT_CONFIG_ADDR]
  by (simp add: stored_cfg_def sd_mem_def codec_simps)

lemma sd_prepared: "boot_prepare sd_env sim_ops sd_boot = (boot_config_stamp_crc (demo_cfg 0 0), sd_boot)"
proof -
  let ?c = "boot_config_stamp_crc (demo_cfg 0 0)"
  have l: "boot_config_load sd_env sim_ops (bs_flash sd_boot) = (True, ?c)"
    by (simp add: boot_config_load_eq [OF sim.flash_device_axioms sd_env_len] sd_boot_def sd_cfg loaded_cfg_def)
  have c: "check_app_confirmation ?c False sd_boot = (?c, False, sd_boot)"
    by (simp add: check_app_confirmation_def sd_boot_def demo_shared_def Let_def)
  have p: "process_ota_pending_swap sd_env sim_ops ?c False sd_boot = (?c, False, sd_boot)"
    by (simp add: process_ota_pending_swap_def demo_shared_def sd_boot_def)
  show ?thesis by (simp add: boot_prepare_def l c p)
qed

lemma sd_boots: "\<exists>st'. main sd_env sim_ops sd_boot = (JumpTo SLOT_B_ADDR, st')"
proof -
  have act: "cfg_active_slot (boot_config_stamp_crc (demo_cfg 0 0)) \<in> {SLOT_A, SLOT_B}" by simp
  have "bs_flash sd_boot = sim_of_rom sd_mem" by (simp add: sd_boot_def)
  then show ?thesis
    unfolding main_split sd_prepared boot_finish_spec [OF sim.flash_device_axioms sd_env_len act]
    using sd_image_ok sd_slot_a by (simp add: pick_spec_def MAX_BOOT_ATTEMPTS_def)
qed

end
