(* ===== verification/Endless_Line.thy ===== *)
theory Endless_Line
  imports Ota_Io
begin

text \<open>
  A line that never falls silent.  The wire of \<open>Uart\<close> delivers finitely many bytes; here the OTA
  channel delivers an unending stream, one byte whenever the program asks, and the program's stores have no effect.
  While no byte starts a frame, the receiver searches for ever: neither the wait for a frame nor
  \<open>ota_client_receive\<close> returns, since only silence ends the search.
\<close>

section \<open>The line\<close>

record stream_line =
  sl_byte :: "nat \<Rightarrow> u8"
  sl_pos :: nat

definition sl_rd :: "stream_line \<Rightarrow> u32 \<Rightarrow> u32 \<times> stream_line" where
  "sl_rd l a =
     (if a = USART2_BASE + USART_DR_OFF then (ucast (sl_byte l (sl_pos l)), l\<lparr>sl_pos := sl_pos l + 1\<rparr>)
      else (USART_SR_TXE OR USART_SR_RXNE, l))"

definition sl_bus :: "stream_line bus" where
  "sl_bus = \<lparr> bus_rd = sl_rd, bus_wr = (\<lambda>l a v. l), bus_wr8 = (\<lambda>l a v. l), bus_rd8 = (\<lambda>l a. 0) \<rparr>"

text \<open>Every byte read answers at the first poll.\<close>

lemma sl_getc: "usart_try_getc sl_bus USART2_BASE l = (Some (sl_byte l (sl_pos l)), l\<lparr>sl_pos := sl_pos l + 1\<rparr>)"
proof -
  have b: "(USART_SR_TXE OR USART_SR_RXNE) AND USART_SR_RXNE \<noteq> 0"
    by (simp add: USART_SR_TXE_def USART_SR_RXNE_def)
  have c: "ucast (ucast c AND (0xFF :: u32)) = (c :: u8)" for c
  proof -
    have "ucast c AND (0xFF :: u32) = take_bit 8 (ucast c)"
      by (simp add: take_bit_eq_mask mask_eq_exp_minus_1)
    then show ?thesis by (simp only:) (rule bit_word_eqI, auto simp: bit_simps)
  qed
  show ?thesis using b by (simp add: usart_try_getc_def sl_bus_def sl_rd_def c usart_regs)
qed

lemma sl_ota_getc:
  "uart_ota_getc sl_bus OTA_BYTE_TIMEOUT_MS l = (Some (sl_byte l (sl_pos l)), l\<lparr>sl_pos := sl_pos l + 1\<rparr>)"
proof -
  have "getc_budget OTA_BYTE_TIMEOUT_MS \<noteq> 0"
    by (simp add: getc_budget_def OTA_BYTE_TIMEOUT_MS_def POLLS_PER_MS_def)
  then obtain n where "getc_budget OTA_BYTE_TIMEOUT_MS = Suc n" by (cases "getc_budget OTA_BYTE_TIMEOUT_MS") auto
  then show ?thesis unfolding uart_ota_getc_def by (simp only: getc_loop.simps sl_getc prod.case option.case)
qed

lemma sl_kick [simp]: "iwdg_kick sl_bus l = l"
  by (simp add: iwdg_kick_def sl_bus_def)

lemma sl_log [simp]: "log_line sl_bus s l = l"
proof -
  have w: "usart_wait_txe sl_bus USART1_BASE n l = l" for n
    by (induction n) (simp_all add: sl_bus_def sl_rd_def usart_regs)
  have "usart_putc sl_bus USART1_BASE c l = l" for c
    unfolding usart_putc_def w by (simp add: sl_bus_def)
  then have "uart_log_putc sl_bus c l = l" for c by (simp add: uart_log_putc_def)
  then have "uart_log_puts sl_bus cs l = l" for cs by (induction cs) simp_all
  then show ?thesis by (simp add: log_line_def)
qed

section \<open>The search never ends\<close>

lemma resync_never_ends:
  assumes "\<And>i. sl_byte l i \<noteq> OTA_FRAME_SOH"
  shows "resync sl_bus l = None"
proof -
  have "B = sl_bus \<longrightarrow> sl_byte h = sl_byte l \<longrightarrow> False" if "resync B h = Some y" for B h y
  proof (induction rule: resync.raw_induct [OF _ that])
    case (1 rec B h y)
    then show ?case
      using assms 1(1) [of sl_bus "h\<lparr>sl_pos := Suc (sl_pos h)\<rparr>" y]
      by (auto simp: sl_ota_getc split: if_splits)
  qed
  then show ?thesis by (cases "resync sl_bus l") auto
qed

theorem frame_never_read:
  assumes "\<And>i. sl_byte l i \<noteq> OTA_FRAME_SOH"
  shows "read_frame sl_bus l = None"
  by (simp add: read_frame_def resync_never_ends [OF assms])

theorem receive_never_ends:
  assumes "\<And>i. sl_byte l i \<noteq> OTA_FRAME_SOH"
  shows "ota_client_receive C F E sl_bus st l = None" "ota_client_receive_io C F E sl_bus st l = None"
  using frame_never_read [OF assms]
  by (simp_all add: ota_client_receive_def ota_client_receive_io_def receive_loop.simps [of C F E sl_bus 0]
      receive_loop_io.simps [of C F E sl_bus 0])

end
