(* ===== verification/Spec2Isabelle.thy ===== *)
theory Spec2Isabelle
  imports Qemu_Power Demo_Delta Tuz_Ring Boot_Io Flash_Reliable Flash_Busy App Signed_Demo Endless_Line
begin

text \<open>
  A secure boot loader for the STM32F4 with over-the-air updates: the C program under
  \<^verbatim>\<open>src/bootloader\<close>, the headers under \<^verbatim>\<open>src/common\<close> it shares with the application, the demo
  application under \<^verbatim>\<open>src/application\<close>, and what it calls of the two vendored decoders and of the
  vendored micro-ecc.  This theory imports
  the development and states its properties; the models and their lemmas are in the others.

  \<^bold>\<open>The program.\<close>  Flash holds the boot loader, a 4 KB configuration region and two firmware slots,
  A and B; 16 bytes at the top of SRAM survive a reset and carry messages between the application and the
  boot loader.  At reset \<^verbatim>\<open>main\<close> (\<^verbatim>\<open>main.c\<close>) loads the configuration (\<^verbatim>\<open>boot_config.c\<close>), or
  reconstructs it from the slots, reads the application's confirmation of the previous boot,
  commits a pending swap if the other slot verifies (\<^verbatim>\<open>crypto.c\<close>, \<^verbatim>\<open>sha256.c\<close>, \<^verbatim>\<open>crc32.c\<close>) at an
  allowed version, picks a slot that verifies, saves the configuration and jumps; when neither
  slot verifies it enters the menu of \<^verbatim>\<open>recovery.c\<close>.  From there an update is received over the
  second UART (\<^verbatim>\<open>ota_client.c\<close>): whole images go straight into the other slot, delta updates are
  staged at its end and applied to its start (\<^verbatim>\<open>delta_patch.c\<close>, HPatchLite, tinyuz).  All flash
  access goes through \<^verbatim>\<open>flash_driver.c\<close>, which has a backend for QEMU and one for the hardware.
  The application (\<^verbatim>\<open>app_main.c\<close>) confirms its boot in its sixth iteration.

  \<^bold>\<open>Theories, in the order of their imports.\<close>

  \<^item> \<open>Prelude\<close>: machine types, little-endian codecs, memories as functions from addresses to bytes with
    the closed forms of copying and filling, address ranges.  \<open>Memory_Map\<close>: \<^verbatim>\<open>memory_map.h\<close>,
    \<^verbatim>\<open>firmware_format.h\<close>, \<^verbatim>\<open>shared_memory.h\<close>, \<^verbatim>\<open>bootloader_api.h\<close>.
  \<^item> \<open>Crc32\<close> (\<^verbatim>\<open>crc32.c\<close>): the checksum is linear, so it detects every burst of up to 32 bits.
    \<open>Sha256\<close> (\<^verbatim>\<open>sha256.c\<close>): the buffered hash equals the definition of FIPS 180-4, written out there.
  \<^item> \<open>Bus\<close> (\<^verbatim>\<open>iwdg.c\<close>) and \<open>Uart\<close> (\<^verbatim>\<open>uart.c\<close>): drivers over an abstract register bus, and the concrete
    serial line \<open>wire_bus\<close>, a finite script of bytes and pauses followed by silence, on which the loops that read
    bytes have closed forms.  \<open>Endless_Line\<close> is the other case: a line that never falls silent and sends no
    start byte holds the receiver for ever.
  \<^item> micro-ecc (\<^verbatim>\<open>third_party/micro-ecc\<close>), as the Makefile configures it: \<open>Vli\<close> (numbers as arrays of
    words), \<open>Vli_Mult\<close> (product and square), \<open>Vli_Mod\<close> (arithmetic modulo a number, inversion), \<open>P256\<close> (the
    curve and its fast reduction), \<open>Ecc_Points\<close> (the point formulas, shown to be the tangent and chord
    constructions), \<open>Ecc_Verify\<close> (\<^verbatim>\<open>uECC_valid_public_key\<close>, \<^verbatim>\<open>uECC_verify\<close>).  \<open>Order_Prime\<close> proves the
    order of the base point prime from a chain of certificates, so that every second scalar is
    invertible.  \<open>Signed_Image\<close> puts these two routines behind the calls of \<^verbatim>\<open>crypto.c\<close>.  \<open>Ecc_Demo\<close> is a key
    with a signature, \<open>Sha_Eval\<close> computes the hash of a concrete message on bits, and \<open>Signed_Demo\<close> is a
    device with an image that passes the whole check.
  \<^item> \<open>Flash_Device\<close>: sector table, the record of operations the rest of the program calls, and the
    locales that are its contract: \<open>flash_device\<close> (what a success means, what a failure leaves
    alone), \<open>reliable_flash\<close> (in a good state erasing and programming whole units of erased flash
    succeed and lead to a good state) and \<open>byte_flash\<close> (every byte can be programmed).  \<open>Flash_Sim\<close>
    is the QEMU backend and an instance of all three; \<open>Flash_Hw\<close> is the hardware backend over a bus, an
    instance of \<open>flash_device\<close> for every controller that satisfies the locale \<open>flash_ctrl\<close>.
    \<open>Flash_Ctl\<close> is one that is always ready, and over it the backend is reliable in units of four bytes (\<open>Flash_Reliable\<close>;
    the good states are those without pending errors or an open word).  \<open>Flash_Busy\<close> is one that shows BSY, and STRT
    during an erase, for any number of polls below 65536.
  \<^item> \<open>Restart\<close>: the locale \<open>persistent_flash\<close> adds to \<open>reliable_flash\<close> a restart of the driver that keeps the bytes of
    flash.  Its instances are the hardware backend over \<open>Flash_Ctl\<close>, restarted with arbitrary status bits, and the QEMU backend
    over a soft reset, which finds the magic of its shadow.  A power cycle of QEMU is not one: \<open>flash_init\<close>
    seeds the shadow from the ROM again, so the device is what it was at first (\<open>Qemu_Power\<close>).
  \<^item> \<open>Crypto\<close> (\<^verbatim>\<open>crypto.c\<close>): \<open>image_ok\<close> says abstractly what a valid image is.  \<open>Boot_Config\<close>
    (\<^verbatim>\<open>boot_config.c\<close>): load, save and recovery, with the points at which a save can be interrupted.
    \<open>Boot_Main\<close> (\<^verbatim>\<open>main.c\<close>): the decisions of a boot, split into what happens before
    (\<open>boot_prepare\<close>) and after (\<open>boot_finish\<close>) the swap.  \<open>Boot_Cycles\<close>: boots, confirmations, swap
    requests and restarts in any order, as an inductive relation (\<open>cycles\<close>), and with power lost inside boots
    (\<open>loss_cycles\<close>): the flash operations of a boot are its saves, and a boot cut short has done some of them and, of the next,
    the erase and any number of programming units short of the last word (\<open>cut_boot\<close>).  \<open>Config_Types\<close>: the stored
    configuration stays well typed on these relations.
  \<^item> \<open>Tinyuz\<close>, \<open>Hpatch_Lite\<close> (the vendored decoders as the boot loader builds them) and \<open>Delta_Patch\<close>
    (\<^verbatim>\<open>delta_patch.c\<close>).  \<open>Tuz_Ends\<close> shows that the decompressor's loop ends, \<open>Tuz_Ring\<close> that it stays
    inside its ring until a match points beyond it.  The locale \<open>byte_source\<close> is the contract of a diff stream, \<open>patch_run\<close> that of
    the listener, and \<open>spec_patch\<close> the meaning of the patch format.
  \<^item> \<open>Ota_Frame\<close>, \<open>Ota_Client\<close> (\<^verbatim>\<open>ota_client.c\<close>), \<open>Slot_Erase\<close> (which sectors an update erases),
    \<open>Ota_Session\<close>, \<open>Ota_Loop\<close>, \<open>Ota_Update\<close> (transfers, the receive loop, and the boot after them).
    \<open>Device_Life\<close>: boots, whole or cut short, what the application does, restarts and single update frames in any
    order, as one relation.
  \<^item> The same code with its output: \<open>Verify_Io\<close> (verification, configuration and base digest with their
    watchdog refreshes), \<open>Wire_Log\<close> (the log channel), \<open>Ota_Io\<close> (handlers and receive loop with every
    log line), \<open>Recovery\<close> (\<^verbatim>\<open>recovery.c\<close>) and \<open>Boot_Io\<close> (\<^verbatim>\<open>main.c\<close> with its peripherals and jump).  The
    locale \<open>io_frame\<close> says that whatever a refresh and one character of log output keep, all of it
    keeps; on the line that is the OTA channel.  \<open>Line_Update\<close>: an upload from the bytes a host sends
    to the reset.
  \<^item> \<open>App\<close> (\<^verbatim>\<open>app_main.c\<close>, \<^verbatim>\<open>system_app.c\<close>); a reset finds the application between two iterations, or inside one on either side
    of its confirmation (\<open>app_until\<close>).
  \<^item> \<open>Demo\<close>, \<open>Demo_Boot\<close>, \<open>Demo_Ota\<close>, \<open>Demo_Delta\<close>: concrete devices, images, sessions and patches at
    which the properties are instantiated.

  \<^bold>\<open>State and operations.\<close>  The definitions have the names of the C functions, with a prefix
  \<open>sim_\<close> or \<open>hw_\<close> for the backends and a suffix \<open>_io\<close> where output is threaded through; the result of an
  \<open>_io\<close> definition is that of the one without the suffix (the lemmas \<open>_io_fst\<close>), which is the one proofs
  about decisions use.  Machine
  integers are words of their width and wrap.  Flash is a state of the backend with a read function
  \<open>byte\<close>; the properties hold for every backend of the contract.  The shared block is a record, the
  transfer state (\<open>g_state\<close>) another, the registers of the core that the jump sets a third.
  Status codes are the source's enumerations, early returns are branches.  Undefined behaviour of the
  delta code (a stack buffer overrun by a patch header, a match beyond the dictionary, an unpack loop past its range) is an
  outcome of its own at which the model stops; the properties say where it can occur and claim nothing of the state it leaves.

  \<^bold>\<open>Lemma groups.\<close>  Each theory of a component proves what its operations do on every branch and the
  frame of every write.  The properties here are, in order: the promises of the boot loader
  and its update path; the signature check, down to the words of its numbers; how configuration saves, sector geometry and the two slots interact over
  the life of a device; the single decisions of a boot; delta updates against the patch format;
  the parts of image verification; the configuration record, including
  interrupted saves; the framing of the line; the recovery menu; the flash driver on hardware.

  \<^bold>\<open>Bounds.\<close>  Loops that the code bounds are structural recursions on that bound: 5000000 polls of the
  busy flag, 100000 polls of the transmit register, 1600 polls per millisecond plus one
  for a received byte, 1000 polls of the watchdog's status, four iterations of the slot choice.
  Loops bounded by data have a termination proof.  The variable-length integer of the patch format
  (\<open>UNPACK_BOUND\<close>) and the decompressor (\<open>TUZ_LOOP_BOUND\<close>) are run with 2 to the 64 steps of
  fuel; every step but the last uses up input, of which there are less than 2 to the 32 bytes, so
  the fuel never runs out (\<open>unpack_rep\<close>, \<open>unpack_len_fuel\<close>, \<open>tuz_loop_ends\<close>); the receive loop and the menu are
  \<open>partial_function (option)\<close>, and that they return, or do not, is proved; so are the binary inversion
  and the two correction loops of the fast reduction, which always return.

  \<^bold>\<open>Parameters.\<close>  \<open>crypto_env\<close> holds the two routines of micro-ecc, the public key and its
  compiled-in digest, of which only the length 32 is assumed; \<open>micro_ecc\<close> is the one with the modelled
  routines, and the properties of boots and updates hold for it as for any other; \<open>delta_env\<close> the indeterminate
  initial contents of the stack buffers of the delta code; \<open>flash_ctrl\<close> states what the reference manual
  says of the flash controller, for one whose mass-erase bit is never set and whose operations end within the polls of
  the driver: what a controller does that is addressed while it is still busy after a timeout is not claimed.

  \<^bold>\<open>Not modelled.\<close>  The parts of micro-ecc the boot loader does not call (key generation, signing,
  shared secrets, compression, the other curves).  The field prime is not proved prime and the points are
  not shown to form a group: the specification of the ladder asks for slopes with an invertible
  denominator, and a signature check that meets another one is only shown to return.  Startup code, linker scripts,
  build files, host tools and tests; the vendored routines the boot loader does not call (the in-place
  patch of HPatchLite, the one-shot decompressor of tinyuz); the watchdog refresh that ends each of the two
  flash callbacks of \<^verbatim>\<open>delta_patch.c\<close>, whose listener has no bus; the watchdog refreshes of the two flash
  backends reach the backend's own state (a counter, and the bus of the controller), not the bus of the
  serial line; the delay loop before a reset, and time itself; bytes lost to an overrun of the receiver (a line delivers the bytes the
  program gets to see).  Power lost within the erase of a sector or within the programming of one unit, which leaves cells
  undefined, and power lost within the handling of one update frame are not modelled; between frames, between the flash
  operations of a boot and between the units of a record they are.  The message for a decompressor
  that cannot be opened is left out because the dictionary size was checked before, so that it opens.
  Loads of the hardware backend outside flash, which no caller makes, answer 0xFF.
\<close>

unbundle bit_operations_syntax

section \<open>What the bootloader promises\<close>

text \<open>C1: \<open>crypto_verify_firmware\<close>, with its chunked reads, running checksum, three-part
  hash and byte-wise borrow, accepts a slot exactly when the abstract predicate \<open>image_ok\<close>
  holds of the bytes a reader sees there, on every backend that keeps the driver's laws.\<close>

theorem verify_firmware_refines:
  assumes "flash_device F byte writable" "length (public_key_sha256 C) = 32"
  shows "crypto_verify_firmware C F s a \<longleftrightarrow> image_ok C (byte s) a"
  using assms by (rule crypto_verify_firmware_eq)

theorem verify_firmware_refines_witness:
  "crypto_verify_firmware demo_env sim_ops (sim_of_rom (demo_mem None (Some 7) None)) SLOT_A_ADDR
   \<and> \<not> crypto_verify_firmware demo_env sim_ops (sim_of_rom (demo_mem None (Some 7) None)) SLOT_B_ADDR"
  by (simp add: verify_firmware_refines [OF sim.flash_device_axioms demo_env_len] demo_slots)

text \<open>C2: \<open>main\<close> jumps only to a slot that verified in the state it decided on, and what it
  does afterwards is a single save of the configuration that names this slot active.\<close>

theorem main_boots_verified:
  assumes "flash_device F byte writable" "length (public_key_sha256 C) = 32"
    and "main C F st = (JumpTo a, st')"
  shows "\<exists>cfg. image_ok C (byte (bs_flash (snd (boot_prepare C F st)))) a
    \<and> a = memory_map_slot_addr (cfg_active_slot cfg)
    \<and> st' = save_or_warn F cfg (snd (boot_prepare C F st))"
  using assms by (rule main_sound) blast

theorem main_boots_verified_witness:
  "\<exists>a st'. main demo_env sim_ops (demo_boot (Some 7) None) = (JumpTo a, st')
   \<and> (\<exists>cfg. image_ok demo_env (sim_byte (bs_flash (snd (boot_prepare demo_env sim_ops (demo_boot (Some 7) None))))) a
      \<and> a = memory_map_slot_addr (cfg_active_slot cfg)
      \<and> st' = save_or_warn sim_ops cfg (snd (boot_prepare demo_env sim_ops (demo_boot (Some 7) None))))"
proof -
  obtain st' where m: "main demo_env sim_ops (demo_boot (Some 7) None) = (JumpTo SLOT_A_ADDR, st')"
    using demo_boot_a by blast
  from main_boots_verified [OF sim.flash_device_axioms demo_env_len m] m show ?thesis by blast
qed

text \<open>C3: whatever the state of the device, its flash and the shared block, \<open>main\<close> jumps only to a slot
  that holds a signed image in the memory it decides on, the one before the save that precedes the jump; for slot B, which
  that save leaves alone, also in the memory at the jump. (In slot A the save has by then erased the header: see the
  theorems on the configuration.) Signed means: the compiled-in key is a point of the curve with the compiled-in digest,
  header and checksum are right, the model of \<open>uECC_verify\<close> answers 1 for the digest of the image, \<open>r\<close> and \<open>s\<close> are in range
  with \<open>s\<close> in its low form, and the ladder of tangents and chords from the scalars \<open>e/s\<close> and \<open>r/s\<close> ends, where it
  is defined, in a point with abscissa \<open>r\<close>.\<close>

theorem boots_only_signed:
  assumes "flash_device F byte writable" "length key = 64" "length digest = 32"
    and "main (micro_ecc key digest) F st = (JumpTo a, st')"
  shows "\<forall>m \<in> insert (byte (bs_flash (snd (boot_prepare (micro_ecc key digest) F st))))
        (if a = SLOT_B_ADDR then {byte (bs_flash st')} else {}).
    on_curve (be_pair key) \<and> fips_sha256 key = digest \<and> image_formed m a
      \<and> ecc_verify key (fips_sha256 (signed_message m a)) 32 (fh_signature (image_header m a)) curve_secp256r1 = Some 1
      \<and> ecdsa_signed (be_pair key) (int (be_nat (fips_sha256 (signed_message m a))))
          (be_pair (fh_signature (image_header m a)))"
proof -
  let ?C = "micro_ecc key digest"
  let ?s = "bs_flash (snd (boot_prepare ?C F st))"
  have "length (public_key_sha256 ?C) = 32" using assms(3) by simp
  from main_sound [OF assms(1) this assms(4)] obtain cfg
    where ok: "image_ok ?C (byte ?s) a" and st': "st' = save_or_warn F cfg (snd (boot_prepare ?C F st))" by metis
  have "image_ok ?C (byte (bs_flash st')) SLOT_B_ADDR \<longleftrightarrow> image_ok ?C (byte ?s) SLOT_B_ADDR"
    unfolding st' save_or_warn_def using flash_device.save_keeps_slot_b(1) [OF assms(1) prod.collapse [symmetric]] by simp
  then have img: "image_ok ?C m a" if "m \<in> insert (byte ?s) (if a = SLOT_B_ADDR then {byte (bs_flash st')} else {})" for m
    using that ok by (cases "a = SLOT_B_ADDR") auto
  show ?thesis
  proof (rule ballI, goal_cases)
    case (1 m)
    from img [OF this] accepted_signature [OF assms(2) img [OF this]] show ?case
      unfolding image_ok_micro_ecc [OF assms(2)] by blast
  qed
qed

theorem boots_only_signed_witness:
  "\<exists>st'. main (micro_ecc ed_key (fips_sha256 ed_key)) sim_ops sd_boot = (JumpTo SLOT_B_ADDR, st')
    \<and> image_formed (sim_byte (bs_flash st')) SLOT_B_ADDR
    \<and> ecdsa_signed (be_pair ed_key) ed_s (ed_r, ed_s)"
proof -
  obtain st' where m: "main (micro_ecc ed_key (fips_sha256 ed_key)) sim_ops sd_boot = (JumpTo SLOT_B_ADDR, st')"
    using sd_boots unfolding sd_env_def by blast
  let ?m = "sim_byte (bs_flash (snd (boot_prepare (micro_ecc ed_key (fips_sha256 ed_key)) sim_ops sd_boot)))"
  have "?m = sd_mem" using sd_prepared unfolding sd_env_def by (simp add: sd_boot_def)
  note b = boots_only_signed [OF sim.flash_device_axioms ed_key_pair(1) length_fips_sha256 m]
  have "ecdsa_signed (be_pair ed_key) ed_s (ed_r, ed_s)"
    using b \<open>?m = sd_mem\<close> by (simp add: sd_digest sd_layout ed_digest_val) (simp add: sd_hdr_def ed_sig_pair)
  moreover have "image_formed (sim_byte (bs_flash st')) SLOT_B_ADDR" using b by simp
  ultimately show ?thesis using m by blast
qed

text \<open>C4: an intact device without flash faults whose active slot is A takes any valid image that fits
  the slot and whose version the floor allows, sent in whole programming units: START, every DATA frame and END are acknowledged, the slot
  holds the image, and the next boot runs it from slot B.\<close>

theorem update_goes_through:
  assumes "reliable_flash F byte writable good gran" "length (public_key_sha256 C) = 32" "good (bs_flash st)"
    and "boot_config_validate (stored_cfg (byte (bs_flash st)))"
    and "cfg_active_slot (stored_cfg (byte (bs_flash st))) = SLOT_A"
    and "good_image C img" "length img \<le> unat (fl_ota_slot_span F)"
    and "boot_config_firmware_allowed (stored_cfg (byte (bs_flash st)))
      (fh_version (image_header (image_in_b img) SLOT_B_ADDR))"
    and "4 \<le> fr_len f0" "rd_u32_le (fr_data f0) = of_nat (length img)"
    and "frames_of (fr_seq f0 + 1) img fs" "\<forall>f\<in>set fs. gran dvd unat (fr_len f)"
  shows "\<exists>st1 st2 st3. handle_start C F f0 st = (True, st1) \<and> data_run F fs st1 = Some st2
    \<and> handle_end C F E st2 = (Some True, st3)
    \<and> mem_bytes (byte (bs_flash st3)) SLOT_B_ADDR (length img) = img
    \<and> fst (main C F (boot_st.truncate st3)) = JumpTo SLOT_B_ADDR"
  using assms by (rule reliable_flash.update_installs [where E = E]) blast

theorem update_goes_through_witness:
  "\<exists>st1 st2 st3.
     handle_start demo_env sim_ops (demo_start 513) (demo_device SLOT_A (Some 0x10000) None) = (True, st1)
   \<and> data_run sim_ops [demo_data 2 (demo_slot 0x20000)] st1 = Some st2
   \<and> handle_end demo_env sim_ops demo_delta st2 = (Some True, st3)
   \<and> mem_bytes (sim_byte (bs_flash st3)) SLOT_B_ADDR 513 = demo_slot 0x20000
   \<and> fst (main demo_env sim_ops (boot_st.truncate st3)) = JumpTo SLOT_B_ADDR"
proof -
  let ?m = "sim_byte (bs_flash (demo_device SLOT_A (Some 0x10000) None))"
  have cfg: "boot_config_validate (stored_cfg ?m)" "cfg_active_slot (stored_cfg ?m) = SLOT_A"
    unfolding demo_device_cfg by simp_all
  have fit: "length (demo_slot 0x20000) \<le> unat (fl_ota_slot_span sim_ops)"
    by (simp add: sim_ops_def sim_ota_slot_span_def layout_simps)
  have v: "boot_config_firmware_allowed (stored_cfg ?m)
      (fh_version (image_header (image_in_b (demo_slot 0x20000)) SLOT_B_ADDR))"
    unfolding demo_device_cfg demo_good_header
    by (simp add: boot_config_firmware_allowed_def floor_eq ver0_def)
  have f: "4 \<le> fr_len (demo_start 513)" "rd_u32_le (fr_data (demo_start 513)) = of_nat (length (demo_slot 0x20000))"
    "frames_of (fr_seq (demo_start 513) + 1) (demo_slot 0x20000) [demo_data 2 (demo_slot 0x20000)]"
    "\<forall>f\<in>set [demo_data 2 (demo_slot 0x20000)]. 1 dvd unat (fr_len f)"
    using demo_frames_of by (simp_all add: demo_start_def)
  from update_goes_through [OF sim.reliable_flash_axioms demo_env_len TrueI cfg demo_good fit v f, of demo_delta]
  show ?thesis by simp
qed

text \<open>C5: a device without flash faults that holds no valid image is not lost while its configuration
  names slot A: switched on, the program ends its boot in the recovery menu, hears the upload
  command behind idle time and harmless bytes, receives the frames of a valid image whose version
  the floor allows with idle time between them, acknowledges every one, stores the image in slot B and
  resets the core; the next boot runs it.\<close>

theorem bricked_device_recovers:
  assumes "reliable_flash F byte writable good gran" "length (public_key_sha256 C) = 32"
    and "fl = snd (init (bs_flash st))" "good fl" "cfg_active_slot (loaded_cfg C (byte fl)) = SLOT_A"
    and "\<not> image_ok C (byte fl) SLOT_A_ADDR" "\<not> image_ok C (byte fl) SLOT_B_ADDR"
    and "good_image C img" "length img \<le> unat (fl_ota_slot_span F)"
    and "boot_config_firmware_allowed (loaded_cfg C (byte fl)) (fh_version (image_header (image_in_b img) SLOT_B_ADDR))"
    and "upload_line img gran f0 fs f1 (w_rx w)"
  shows "\<exists>st' w'. main_io C F init E wire_bus cpu st w = Some (WasReset st', w')
    \<and> w_tx w' = w_tx w @ concat (map ack (f0 # fs @ [f1]))
    \<and> mem_bytes (byte (bs_flash st')) SLOT_B_ADDR (length img) = img
    \<and> fst (main C F (boot_st.truncate st')) = JumpTo SLOT_B_ADDR"
  by (rule reliable_flash.unbrick [OF assms(1,2), where st = st and fi = init and E = E and cpu = cpu])
    (use assms(3-11) in auto)

theorem bricked_device_recovers_witness:
  "\<forall>cpu. \<exists>st' w'. main_io demo_env sim_ops sim_flash_init demo_delta wire_bus cpu (demo_boot None None)
      (demo_wire (demo_upload (demo_slot 0x20000))) = Some (WasReset st', w')
    \<and> w_tx w' = concat (map ack [demo_start 513, demo_data 2 (demo_slot 0x20000), demo_end 3])
    \<and> fst (main demo_env sim_ops (boot_st.truncate st')) = JumpTo SLOT_B_ADDR"
proof
  fix cpu
  let ?st = "demo_boot None None" and ?img = "demo_slot 0x20000"
  have fl: "bs_flash ?st = snd (sim_flash_init (bs_flash ?st))"
    by (simp add: demo_boot_def sim_of_rom_def sim_flash_init_def)
  have act: "cfg_active_slot (loaded_cfg demo_env (sim_byte (bs_flash ?st))) = SLOT_A"
    and no: "\<not> image_ok demo_env (sim_byte (bs_flash ?st)) SLOT_A_ADDR"
      "\<not> image_ok demo_env (sim_byte (bs_flash ?st)) SLOT_B_ADDR"
    by (simp_all add: demo_boot_facts)
  have fit: "length ?img \<le> unat (fl_ota_slot_span sim_ops)" by (simp add: sim_ops_def sim_ota_slot_span_def layout_simps)
  have v: "boot_config_firmware_allowed (loaded_cfg demo_env (sim_byte (bs_flash ?st)))
      (fh_version (image_header (image_in_b ?img) SLOT_B_ADDR))"
    unfolding demo_good_header demo_boot_facts demo_cfg_loaded
    by (simp add: boot_config_firmware_allowed_def floor_eq ver0_def)
  have line: "upload_line ?img 1 (demo_start 513) [demo_data 2 ?img] (demo_end 3) (w_rx (demo_wire (demo_upload ?img)))"
    by (rule demo_upload_line)
  note b = bricked_device_recovers [where init = sim_flash_init and st = ?st and cpu = cpu and E = demo_delta,
      OF sim.reliable_flash_axioms demo_env_len fl TrueI act no demo_good fit v line]
  show "\<exists>st' w'. main_io demo_env sim_ops sim_flash_init demo_delta wire_bus cpu ?st
        (demo_wire (demo_upload ?img)) = Some (WasReset st', w')
      \<and> w_tx w' = concat (map ack [demo_start 513, demo_data 2 ?img, demo_end 3])
      \<and> fst (main demo_env sim_ops (boot_st.truncate st')) = JumpTo SLOT_B_ADDR"
    using b by (auto simp: demo_wire_def)
qed

text \<open>C6: what an acknowledged START, DATA ..., END sequence means on any backend: exactly the
  announced number of bytes was sent under consecutive sequence numbers, the target slot
  begins with these bytes, they are a valid image of an allowed version, and the swap is
  requested.\<close>

theorem acknowledged_transfer:
  assumes "flash_device F byte writable" "length (public_key_sha256 C) = 32"
    and "handle_start C F f0 st0 = (True, st1)"
    and "data_run F fs st1 = Some st2" "\<forall>f\<in>set fs. frame_wf f"
    and "handle_end C F E st2 = (Some True, st3)"
  shows "length (payload fs) = unat (rd_u32_le (fr_data f0))
    \<and> mem_bytes (byte (bs_flash st3)) (ota_target C (byte (bs_flash st0))) (length (payload fs)) = payload fs
    \<and> image_ok C (byte (bs_flash st3)) (ota_target C (byte (bs_flash st0)))
    \<and> boot_config_firmware_allowed (loaded_cfg C (byte (bs_flash st3)))
        (fh_version (image_header (byte (bs_flash st3)) (ota_target C (byte (bs_flash st0)))))
    \<and> sb_ota_pending (bs_shared st3) = 1
    \<and> (\<forall>i<length fs. fr_seq (fs ! i) = fr_seq f0 + 1 + of_nat i)"
  using flash_device.full_transfer [OF assms] by blast

theorem acknowledged_transfer_witness:
  "\<exists>st3 :: sim_flash ota_st. mem_bytes (sim_byte (bs_flash st3)) SLOT_B_ADDR 513 = demo_slot 0x20000
   \<and> image_ok demo_env (sim_byte (bs_flash st3)) SLOT_B_ADDR \<and> sb_ota_pending (bs_shared st3) = 1"
proof -
  obtain st1 st2 st3 where s:
    "handle_start demo_env sim_ops (demo_start 513) (demo_device SLOT_A (Some 0x10000) None) = (True, st1)"
    "data_run sim_ops [demo_data 2 (demo_slot 0x20000)] st1 = Some st2"
    "handle_end demo_env sim_ops demo_delta st2 = (Some True, st3)" by (rule demo_session)
  have wf: "\<forall>f\<in>set [demo_data 2 (demo_slot 0x20000)]. frame_wf f" by (simp add: demo_frames_wf)
  have pl: "payload [demo_data 2 (demo_slot 0x20000)] = demo_slot 0x20000" by (simp add: payload_def demo_data_def)
  have len: "length (demo_slot 0x20000) = 513" by simp
  show ?thesis
    using acknowledged_transfer [OF sim.flash_device_axioms demo_env_len s(1,2) wf s(3)]
    unfolding demo_target pl len by blast
qed



text \<open>C8: every frame whose handling stays within what C defines keeps the transfer invariant, by which a transfer in progress stays inside
  one of the two slots, leaves the sectors of the bootloader alone, and, short of an accepted
  END, leaves the shared block alone. Only the END of a delta transfer under way can leave what C defines (the
  patch overruns a buffer of the patcher, or its compressed data reach outside the dictionary), and nothing is claimed after that.\<close>

theorem frame_safety:
  assumes "flash_device F byte writable" "length (public_key_sha256 C) = 32"
    and "transfer_ok (fl_ota_slot_span F) (g_state st)" "frame_wf f"
    and "handle_frame C F E f st = (r, st')"
  shows "case r of
      None \<Rightarrow> fr_op f = OTA_OP_END \<and> os_active (g_state st) \<and> os_kind (g_state st) = OTA_KIND_DELTA
    | Some ok \<Rightarrow> transfer_ok (fl_ota_slot_span F) (g_state st')
        \<and> boot_sectors_same byte (bs_flash st) (bs_flash st')
        \<and> (\<not> ok \<or> fr_op f \<noteq> OTA_OP_END \<longrightarrow> bs_shared st' = bs_shared st)"
proof (cases r)
  case None
  then show ?thesis using handle_frame_undefined assms(5) by simp
next
  case (Some ok)
  then show ?thesis using flash_device.frame_keeps [OF assms] by simp
qed

theorem frame_safety_witness:
  "\<exists>ok st'. handle_frame demo_env sim_ops demo_delta (demo_start 513) (demo_device SLOT_A (Some 7) None) = (Some ok, st')
   \<and> transfer_ok 32768 (g_state st')"
proof -
  have z: "transfer_ok (fl_ota_slot_span sim_ops) (g_state (demo_device SLOT_A (Some 7) None))"
    by (simp add: transfer_ok_zero)
  have s: "fl_ota_slot_span sim_ops = 32768" by (simp add: sim_ops_def sim_ota_slot_span_def layout_simps)
  obtain r st' where h: "handle_frame demo_env sim_ops demo_delta (demo_start 513) (demo_device SLOT_A (Some 7) None) = (r, st')"
    by fastforce
  have "fr_op (demo_start 513) \<noteq> OTA_OP_END" by (simp add: demo_start_def OTA_OP_START_def OTA_OP_END_def)
  then show ?thesis
    using frame_safety [OF sim.flash_device_axioms demo_env_len z demo_frames_wf(1) h] h
    by (auto simp: s split: option.splits)
qed

section \<open>The signature\<close>

text \<open>C9: with the model of micro-ecc behind its two calls, \<open>crypto_verify_firmware\<close> accepts a slot
  exactly when the compiled-in key is a point of the curve with the compiled-in digest, the
  header and the checksum are right, the signature is in its low form, and \<open>uECC_verify\<close> returns 1
  for the digest of the header with a cleared signature and the payload.\<close>

theorem signed_image_decision:
  assumes "flash_device F byte writable" "length key = 64" "length digest = 32"
  shows "crypto_verify_firmware (micro_ecc key digest) F s a \<longleftrightarrow>
    on_curve (be_pair key) \<and> fips_sha256 key = digest \<and> image_formed (byte s) a
    \<and> ecc_verify key (fips_sha256 (signed_message (byte s) a)) 32
        (fh_signature (image_header (byte s) a)) curve_secp256r1 = Some 1"
  using crypto_verify_firmware_eq [OF assms(1), of "micro_ecc key digest"] assms
  by (simp add: image_ok_micro_ecc)

theorem signed_image_decision_witness:
  "crypto_verify_firmware (micro_ecc ed_key (fips_sha256 ed_key)) sim_ops (sim_of_rom sd_mem) SLOT_B_ADDR
    \<and> \<not> crypto_verify_firmware (micro_ecc ed_key (fips_sha256 ed_key)) sim_ops (sim_of_rom sd_mem) SLOT_A_ADDR"
proof -
  note d = signed_image_decision [OF sim.flash_device_axioms ed_key_pair(1) length_fips_sha256]
  have "image_ok (micro_ecc ed_key (fips_sha256 ed_key)) sd_mem SLOT_B_ADDR"
    using sd_image_ok unfolding sd_env_def .
  then have "crypto_verify_firmware (micro_ecc ed_key (fips_sha256 ed_key)) sim_ops (sim_of_rom sd_mem) SLOT_B_ADDR"
    unfolding d by (simp add: image_ok_micro_ecc [OF ed_key_pair(1)])
  moreover have "\<not> crypto_verify_firmware (micro_ecc ed_key (fips_sha256 ed_key)) sim_ops (sim_of_rom sd_mem) SLOT_A_ADDR"
    unfolding d using sd_slot_a [of "micro_ecc ed_key (fips_sha256 ed_key)"]
    by (simp add: image_ok_micro_ecc [OF ed_key_pair(1)])
  ultimately show ?thesis by blast
qed

text \<open>C10: for a key on the curve \<open>uECC_verify\<close> always returns, and returns 0 or 1, whatever the 64 bytes
  of the signature and the digest are: no array is indexed out of range, the null entry of its
  table is not dereferenced, and every loop, the inversions included, ends. (The order of the base
  point is shown to be prime, so the second scalar is never zero.)\<close>

theorem signature_check_returns:
  assumes "length key = 64" "length sig = 64" "length hash = 32" "on_curve (be_pair key)"
  shows "\<exists>v \<in> {0, 1}. ecc_verify key hash 32 sig curve_secp256r1 = Some v"
  using ecc_verify_total [OF assms] by blast

theorem signature_check_returns_witness:
  "\<exists>v \<in> {0, 1}. ecc_verify ed_key (replicate 32 0) 32 ed_sig curve_secp256r1 = Some v"
  by (rule signature_check_returns) (simp_all add: ed_key_pair ed_sig_pair(1) ed_key_on_curve [unfolded ed_key_pair])

text \<open>C11: \<open>uECC_verify\<close> decides as ECDSA verification does. It returns 0 whenever \<open>r\<close> or \<open>s\<close> is not between 0
  and the order \<open>n\<close>. Otherwise the scalars \<open>e/s\<close> and \<open>r/s\<close> modulo \<open>n\<close> exist and are unique, and if the
  ladder of tangents and chords over their bits is defined and reaches a point, it returns 1 if the abscissa of this
  point is \<open>r\<close> modulo \<open>n\<close> and 0 if not. Nothing is said of its answer where the ladder is not defined, that is where it would
  add a point to itself or to its inverse (a key equal to the base point is such a case).\<close>

theorem signature_decision:
  assumes "length key = 64" "length sig = 64" "length hash = 32" "on_curve (be_pair key)"
    and "be_pair sig = (r, s)"
  shows "if 0 < r \<and> r < N256 \<and> 0 < s \<and> s < N256
    then \<exists>u1 u2. (\<forall>v1 v2. ecdsa_scalars (int (be_nat hash)) r s v1 v2 \<longleftrightarrow> v1 = u1 \<and> v2 = u2)
      \<and> (\<forall>x y. shamir_point (be_pair key) u1 u2 (x, y) \<longrightarrow>
          ecc_verify key hash 32 sig curve_secp256r1 = Some (if x mod P256 mod N256 = r then 1 else 0))
    else ecc_verify key hash 32 sig curve_secp256r1 = Some 0"
  using ecc_verify_spec [OF assms] .

theorem signature_decision_witness:
  "ecc_verify ed_key ed_digest 32 ed_sig curve_secp256r1 = Some 1
    \<and> ecc_verify ed_key ed_digest 32 (replicate 32 1 @ replicate 32 0) curve_secp256r1 = Some 0"
proof
  note d = signature_decision [OF ed_key_pair(1) _ ed_digest_val(1) ed_key_on_curve]
  have "be_nat (replicate n 0) = 0" for n by (induction n) (simp_all add: be_nat_def)
  then have p: "be_pair (replicate 32 1 @ replicate 32 0) = (x, y) \<Longrightarrow> y = 0" for x y
    by (auto simp: be_pair_def)
  obtain x y where xy: "be_pair (replicate 32 1 @ replicate 32 0) = (x, y)" by fastforce
  show "ecc_verify ed_key ed_digest 32 (replicate 32 1 @ replicate 32 0) curve_secp256r1 = Some 0"
    using d [OF _ xy] p [OF xy] by simp
  have sh: "shamir_point (be_pair ed_key) 1 2 (fst ed_point, snd ed_point)" using ed_shamir by simp
  obtain u1 u2 where u: "\<forall>v1 v2. ecdsa_scalars (int (be_nat ed_digest)) ed_r ed_s v1 v2 \<longleftrightarrow> v1 = u1 \<and> v2 = u2"
    and v: "\<forall>x y. shamir_point (be_pair ed_key) u1 u2 (x, y) \<longrightarrow> ecc_verify ed_key ed_digest 32 ed_sig curve_secp256r1
      = Some (if x mod P256 mod N256 = ed_r then 1 else 0)"
    using d [OF ed_sig_pair] by (simp add: ed_sig_range) blast
  have "u1 = 1" "u2 = 2" using u [rule_format, of 1 2] ed_scalars by simp_all
  then have "ecc_verify ed_key ed_digest 32 ed_sig curve_secp256r1
      = Some (if fst ed_point mod P256 mod N256 = ed_r then 1 else 0)" using v sh by blast
  then show "ecc_verify ed_key ed_digest 32 ed_sig curve_secp256r1 = Some 1" by (simp add: ed_abscissa)
qed

text \<open>C12: one step of the double-and-add ladder, in its projective coordinates and with its formulas
  that share an operand, takes any representation of a point to a representation of the point
  that the tangent at it and then the chord through the table entry of the two scalar bits
  construct.\<close>

theorem ladder_step_affine:
  assumes "length a = 8" "length b = 8" "i < 256"
    and "jac_rep (X, Y, Z) R" "coprime Z P256" "affine_double R D"
    and "case point_table Q S ! scalar_index (vli_val a) (vli_val b) i of
        None \<Rightarrow> A = D | Some T \<Rightarrow> affine_add T D A"
  shows "\<exists>X' Y' Z'. shamir_step (map (map_option fe2) (point_table Q S)) a b curve_secp256r1 i
      (fe X, fe Y, fe Z) = Some (fe X', fe Y', fe Z') \<and> jac_rep (X', Y', Z') A \<and> coprime Z' P256"
proof -
  have "shamir_chain (point_table Q S) (vli_val a) (vli_val b) [i] R A"
    using assms(6,7) chain_double [OF _ _ chain_done] chain_add [OF _ _ _ chain_done]
    by (auto split: option.splits)
  from shamir_chain_rep [OF this assms(4,5)] obtain X' Y' Z'
    where n: "jstep (point_table Q S) (vli_val a) (vli_val b) i (X, Y, Z) = (X', Y', Z')"
      and "jac_rep (X', Y', Z') A" "coprime Z' P256" by auto
  moreover have "length (point_table Q S) = 4" by (simp add: point_table_def)
  from shamir_step_fe [OF assms(1-3) this, of "(X, Y, Z)"]
  have "shamir_step (map (map_option fe2) (point_table Q S)) a b curve_secp256r1 i
      (fe X, fe Y, fe Z) = Some (fe X', fe Y', fe Z')" unfolding n fe3_simp .
  ultimately show ?thesis by blast
qed

theorem ladder_step_affine_witness:
  "\<exists>X Y Z. shamir_step (map (map_option fe2) (point_table (ed_x, ed_y) (0, 0))) (vli_of 8 1) (vli_of 8 2)
      curve_secp256r1 0 (fe ed_x, fe ed_y, fe 1) = Some (fe X, fe Y, fe Z) \<and> jac_rep (X, Y, Z) ed_point"
proof -
  have "vli_val (vli_of 8 1) = 1" "vli_val (vli_of 8 2) = 2" by (simp_all add: vli_val_vli_of_small)
  then have "case point_table (ed_x, ed_y) (0, 0) ! scalar_index (vli_val (vli_of 8 1)) (vli_val (vli_of 8 2)) 0 of
      None \<Rightarrow> ed_point = ed_double | Some T \<Rightarrow> affine_add T ed_double ed_point"
    using ed_add by (simp add: point_table_def scalar_index_def bit_0)
  moreover have "jac_rep (ed_x, ed_y, 1) (ed_x, ed_y)" by (simp add: jac_rep_def)
  ultimately show ?thesis
    using ladder_step_affine [of "vli_of 8 1" "vli_of 8 2" 0 ed_x ed_y 1] ed_double
    by (simp only: length_vli_of coprime_1_left) (metis zero_less_numeral)
qed

text \<open>C13: the fast reduction for secp256r1, nine arrangements of the words of a product added and
  subtracted with a carry that may be negative, returns for all \<open>2\<^sup>5\<^sup>1\<^sup>2\<close> products, and returns
  their remainder modulo the prime.\<close>

theorem fast_reduction:
  assumes "length product = 16"
  shows "vli_mmod_fast_secp256r1 product = Some (vli_of 8 (vli_val product mod P256))"
  using assms by (rule mmod_fast_eq)

theorem fast_reduction_witness:
  "vli_mmod_fast_secp256r1 (replicate 16 0xFFFFFFFF) = Some (vli_of 8 ((2 ^ 512 - 1) mod P256))"
proof -
  have "vli_val (replicate 16 0xFFFFFFFF) = 2 ^ 512 - 1" by code_simp
  then show ?thesis using fast_reduction [of "replicate 16 0xFFFFFFFF"] by simp
qed

text \<open>C14: the binary inversion returns for every argument and every odd modulus, with a reduced
  result; the product with the argument is their greatest common divisor modulo the modulus, so it is the
  inverse where there is one.\<close>

theorem inversion_returns:
  assumes "length input = n" "length modulus = n" "0 < n" "odd (vli_val modulus)" "1 < vli_val modulus"
  shows "\<exists>r. uECC_vli_modInv input modulus n = Some r \<and> length r = n \<and> vli_val r < vli_val modulus
    \<and> vli_val r * vli_val input mod vli_val modulus
      = gcd (vli_val input) (vli_val modulus) mod vli_val modulus"
  using assms by (rule modInv_spec)

theorem inversion_returns_witness:
  "\<exists>r. uECC_vli_modInv [3, 0] [7, 1] 2 = Some r \<and> vli_val r * 3 mod 4294967303 = 1"
proof -
  have "(3 :: int) * 1431655768 + 4294967303 * (- 1) = 1" by simp
  then have "coprime (3 :: int) 4294967303" by (rule coprime_bezout)
  then show ?thesis
    using inversion_returns [of "[3, 0]" 2 "[7, 1]"] by (auto simp: coprime_iff_gcd_eq_1)
qed

section \<open>Life of a device\<close>



text \<open>C16: over any sequence of completed boots, confirmations, swap requests and restarts of a
  device without faults whose flash survives a restart, the stored floor never falls, the stored
  configuration keeps naming a slot, and an image lost from slot A never comes back. Power is lost
  only between the steps: lost inside a save it can lower the floor, and a power cycle on QEMU starts
  over from the ROM.\<close>

theorem floor_never_falls:
  assumes "persistent_flash F byte writable good gran R" "length (public_key_sha256 C) = 32" "good (bs_flash st)"
    and "cycles C F R st st'"
  shows "boot_config_antidowngrade_floor (loaded_cfg C (byte (bs_flash st)))
      \<le> boot_config_antidowngrade_floor (loaded_cfg C (byte (bs_flash st')))
    \<and> (cfg_active_slot (loaded_cfg C (byte (bs_flash st))) \<in> {SLOT_A, SLOT_B}
       \<longrightarrow> cfg_active_slot (loaded_cfg C (byte (bs_flash st'))) \<in> {SLOT_A, SLOT_B})
    \<and> (\<not> image_ok C (byte (bs_flash st)) SLOT_A_ADDR \<longrightarrow> \<not> image_ok C (byte (bs_flash st')) SLOT_A_ADDR)
    \<and> good (bs_flash st')"
  using assms by (rule persistent_flash.cycles_invariants)

theorem floor_never_falls_witness:
  "\<exists>st1 st' s. main demo_env (hw_ops fc_bus) (hw_demo (Some 7) None) = (JumpTo SLOT_A_ADDR, st1)
   \<and> fc_restart (bs_flash st1) s \<and> bs_flash st' = s
   \<and> cycles demo_env (hw_ops fc_bus) fc_restart (hw_demo (Some 7) None) st'
   \<and> 0x10000 \<le> boot_config_antidowngrade_floor (loaded_cfg demo_env (hw_load fc_bus (bs_flash st')))"
proof -
  let ?st = "hw_demo (Some 7) None"
  obtain st1 where m: "main demo_env (hw_ops fc_bus) ?st = (JumpTo SLOT_A_ADDR, st1)"
    using hw_demo_boot_a by blast
  obtain s where r: "fc_restart (bs_flash st1) s" by (auto simp: fc_restart_def)
  let ?st' = "st1\<lparr>bs_flash := s, bs_shared := demo_shared\<rparr>"
  have c: "cycles demo_env (hw_ops fc_bus) fc_restart ?st ?st'"
    by (rule cycles_step [OF cycles_step [OF cycles_refl cycle.boot [OF m]] cycle.restart [where R = fc_restart, OF r]])
  have g: "fc_good (bs_flash ?st)" by simp
  have "0x10000 \<le> boot_config_antidowngrade_floor (loaded_cfg demo_env (hw_load fc_bus (bs_flash ?st)))"
    by (simp add: demo_cfg_loaded floor_eq ver0_def)
  then have "0x10000 \<le> boot_config_antidowngrade_floor (loaded_cfg demo_env (hw_load fc_bus (bs_flash ?st')))"
    using floor_never_falls [OF fcp.persistent_flash_axioms demo_env_len g c] order_trans by blast
  with m r c show ?thesis by (intro exI [of _ st1] exI [of _ ?st'] exI [of _ s]) simp
qed

text \<open>C17: over the whole life of a device without faults whose flash survives a restart, that is any sequence of boots,
  boots that lose power between their saves or inside one (after its erase), confirmations, swap
  requests, restarts and update frames none of which leaves defined behaviour, with power lost between
  any two of these steps, the
  stored configuration stays well typed (it names one of the two slots, counts at most
  \<open>MAX_BOOT_ATTEMPTS\<close> attempts, has its magic and a zero reserved byte), a transfer in progress
  stays inside its slot, and the sectors of the bootloader keep every byte.\<close>

theorem device_stays_typed:
  assumes "persistent_flash F byte writable good gran R" "length (public_key_sha256 C) = 32"
    and "life C F E R gran st st'" "good (bs_flash st)"
    and "cfg_typed (loaded_cfg C (byte (bs_flash st)))" "transfer_ok (fl_ota_slot_span F) (g_state st)"
  shows "cfg_typed (loaded_cfg C (byte (bs_flash st'))) \<and> transfer_ok (fl_ota_slot_span F) (g_state st')
    \<and> boot_sectors_same byte (bs_flash st) (bs_flash st')"
  using persistent_flash.life_sound [OF assms(1-3)] assms(4-6) by (simp add: sound_state_def)

theorem device_stays_typed_witness:
  "\<exists>st1 st'. handle_start demo_env sim_ops (demo_start 513) (demo_device SLOT_A (Some 0x10000) None) = (True, st1)
    \<and> sim_soft_reset (bs_flash st1) (bs_flash st')
    \<and> life demo_env sim_ops demo_delta sim_soft_reset 1 (demo_device SLOT_A (Some 0x10000) None) st'
    \<and> cfg_typed (loaded_cfg demo_env (sim_byte (bs_flash st')))"
proof -
  let ?st = "demo_device SLOT_A (Some 0x10000) None"
  obtain st1 where h: "handle_start demo_env sim_ops (demo_start 513) ?st = (True, st1)" by (rule demo_session)
  have "handle_frame demo_env sim_ops demo_delta (demo_start 513) ?st = (Some True, st1)"
    using h by (simp add: handle_frame_def demo_start_def)
  then have l1: "life demo_env sim_ops demo_delta sim_soft_reset 1 ?st st1"
    by (rule life_next [OF life_refl life_step.frame [OF demo_frames_wf(1)]])
  let ?s = "snd (sim_flash_init (bs_flash st1))"
  have r: "sim_soft_reset (bs_flash st1) ?s" by (simp add: sim_soft_reset_def)
  note l = life_next [OF l1 life_step.restart [where R = sim_soft_reset and any = demo_shared, OF r]]
  have c: "cfg_typed (loaded_cfg demo_env (sim_byte (bs_flash ?st)))"
    unfolding demo_device_cfg by (simp add: cfg_typed_def demo_cfg_def)
  have t: "transfer_ok (fl_ota_slot_span sim_ops) (g_state ?st)" by (simp add: transfer_ok_zero)
  have "cfg_typed (loaded_cfg demo_env (sim_byte (bs_flash (after_restart st1 ?s demo_shared))))"
    using device_stays_typed [OF sims.persistent_flash_axioms demo_env_len l demo_device_live c t] by blast
  then show ?thesis
    using h l r by (intro exI [of _ st1] exI [of _ "after_restart st1 ?s demo_shared"]) (simp add: after_restart_def)
qed





text \<open>C20: an acknowledged START for slot A keeps slot B, the slot the device runs from, exactly
  if the announced size is at most \<open>0x6F000\<close>: beyond it the erase reaches the sector with
  slot B's header.\<close>

theorem long_start_erases_b:
  assumes "flash_device F byte writable" "length (public_key_sha256 C) = 32"
    and "handle_start C F f st = (True, st')" "ota_target C (byte (bs_flash st)) = SLOT_A_ADDR"
  shows "image_ok C (byte (bs_flash st')) SLOT_B_ADDR
    \<longleftrightarrow> image_ok C (byte (bs_flash st)) SLOT_B_ADDR \<and> rd_u32_le (fr_data f) \<le> 0x6F000"
  using assms by (rule flash_device.start_hits_b)

theorem long_start_erases_b_witness:
  "\<exists>st'. handle_start demo_env sim_ops (demo_start 0x70000) (demo_device SLOT_B None (Some 7)) = (True, st')
   \<and> image_ok demo_env (sim_byte (bs_flash (demo_device SLOT_B None (Some 7)))) SLOT_B_ADDR
   \<and> \<not> image_ok demo_env (sim_byte (bs_flash st')) SLOT_B_ADDR"
proof -
  obtain st' where s: "handle_start demo_env sim_ops (demo_start 0x70000) (demo_device SLOT_B None (Some 7)) = (True, st')"
    by (rule sim.start_accepted [OF demo_env_len, of "demo_start 0x70000"]) (simp_all add: demo_start_def)
  have "\<not> image_ok demo_env (sim_byte (bs_flash st')) SLOT_B_ADDR"
    unfolding long_start_erases_b [OF sim.flash_device_axioms demo_env_len s demo_target(2)]
    by (simp add: demo_start_def)
  then show ?thesis using s by (auto simp: demo_slots)
qed

section \<open>Boot decisions\<close>

text \<open>C21: a completed save of the configuration leaves no valid image in slot A: the first 60
  KB of slot A share the erased sector, its header among them.  Slot B is not affected.\<close>

theorem save_destroys_a:
  assumes "flash_device F byte writable" "boot_config_save F s c = (True, s')"
  shows "\<not> image_ok C (byte s') SLOT_A_ADDR
    \<and> (image_ok C (byte s') SLOT_B_ADDR \<longleftrightarrow> image_ok C (byte s) SLOT_B_ADDR)"
  using flash_device.save_destroys_slot_a [OF assms] flash_device.save_keeps_slot_b(1) [OF assms]
  by blast

theorem save_destroys_a_witness:
  "\<exists>s'. boot_config_save sim_ops (sim_of_rom (demo_mem None (Some 7) (Some 8))) (demo_cfg 7 8) = (True, s')
   \<and> image_ok demo_env (sim_byte (sim_of_rom (demo_mem None (Some 7) (Some 8)))) SLOT_A_ADDR
   \<and> \<not> image_ok demo_env (sim_byte s') SLOT_A_ADDR \<and> image_ok demo_env (sim_byte s') SLOT_B_ADDR"
proof -
  let ?s = "sim_of_rom (demo_mem None (Some 7) (Some 8))"
  obtain s' where s': "boot_config_save sim_ops ?s (demo_cfg 7 8) = (True, s')"
    using sim.save_succeeds [of ?s "demo_cfg 7 8"] by (metis prod.collapse)
  from save_destroys_a [OF sim.flash_device_axioms s'] s' show ?thesis by (simp add: demo_slots)
qed

text \<open>C22: what becomes of an accepted swap into slot A. If its commit is saved, it is reverted: the save erased the new image, the
  re-verification fails and slot B stays active, with the version and the floor already
  raised to those of the lost image. If the save fails, the swap stays exactly if the failed save left the image
  valid.\<close>

theorem swap_to_a_reverts:
  assumes "flash_device F byte writable" "length (public_key_sha256 C) = 32"
    and "cfg_active_slot cfg = SLOT_B" "sb_ota_pending (bs_shared st) \<noteq> 0"
    and "swap_accepts C (byte (bs_flash st)) cfg"
    and "committed_cfg cfg (fh_version (image_header (byte (bs_flash st)) SLOT_A_ADDR)) = new"
    and "boot_config_save F (bs_flash st) new = (ok, fl)"
  shows "\<exists>st'. process_ota_pending_swap C F cfg d st =
    (if \<not> ok \<and> image_ok C (byte fl) SLOT_A_ADDR then new else new\<lparr>cfg_active_slot := SLOT_B\<rparr>, True, st')"
  using flash_device.swap_to_a [OF assms] .

theorem swap_to_a_reverts_witness:
  "\<exists>st'. process_ota_pending_swap demo_env sim_ops ((demo_cfg 0x10000 0x20000)\<lparr>cfg_active_slot := SLOT_B\<rparr>) False
      (demo_pending (demo_boot (Some 0x30000) (Some 0x20000)))
    = ((committed_cfg ((demo_cfg 0x10000 0x20000)\<lparr>cfg_active_slot := SLOT_B\<rparr>) 0x30000)\<lparr>cfg_active_slot := SLOT_B\<rparr>, True, st')"
proof -
  let ?c = "(demo_cfg 0x10000 0x20000)\<lparr>cfg_active_slot := SLOT_B\<rparr>"
  let ?st = "demo_pending (demo_boot (Some 0x30000) (Some 0x20000))"
  have v: "committed_cfg ?c (fh_version (image_header (sim_byte (bs_flash ?st)) SLOT_A_ADDR)) = committed_cfg ?c 0x30000"
    by (simp add: demo_boot_facts)
  have acc: "swap_accepts demo_env (sim_byte (bs_flash ?st)) ?c"
    by (simp add: swap_accepts_def demo_boot_facts boot_config_firmware_allowed_def floor_eq)
  obtain fl where s: "boot_config_save sim_ops (bs_flash ?st) (committed_cfg ?c 0x30000) = (True, fl)"
    using sim.save_succeeds [of "bs_flash ?st" "committed_cfg ?c 0x30000"] by (metis prod.collapse)
  show ?thesis
    using swap_to_a_reverts [OF sim.flash_device_axioms demo_env_len _ _ acc v s, of False]
    by (simp add: demo_boot_facts)
qed

text \<open>C23: a pending swap never lowers the anti-downgrade floor, keeps the configuration
  well-formed, always consumes the request and leaves the verdict on slot B as it was,
  whether it is refused, committed or reverted and whether or not the saves succeed.\<close>

theorem swap_preserves:
  assumes "flash_device F byte writable" "length (public_key_sha256 C) = 32"
    and "process_ota_pending_swap C F cfg d st = (cfg', d', st')"
  shows "boot_config_antidowngrade_floor cfg \<le> boot_config_antidowngrade_floor cfg'
    \<and> cfg_magic cfg' = cfg_magic cfg
    \<and> (cfg_active_slot cfg \<in> {SLOT_A, SLOT_B} \<longrightarrow> cfg_active_slot cfg' \<in> {SLOT_A, SLOT_B})
    \<and> sb_ota_pending (bs_shared st') = 0
    \<and> (image_ok C (byte (bs_flash st')) SLOT_B_ADDR \<longleftrightarrow> image_ok C (byte (bs_flash st)) SLOT_B_ADDR)"
  using flash_device.swap_invariants [OF assms] by blast

theorem swap_preserves_witness:
  "\<exists>cfg' d' st'. process_ota_pending_swap demo_env sim_ops (demo_cfg 7 0) False (demo_boot (Some 7) (Some 9))
      = (cfg', d', st')
   \<and> boot_config_antidowngrade_floor (demo_cfg 7 0) \<le> boot_config_antidowngrade_floor cfg'
   \<and> sb_ota_pending (bs_shared st') = 0"
  using swap_preserves [OF sim.flash_device_axioms demo_env_len] by (metis prod_cases3)

text \<open>C24: on the simulated backend a power cycle starts over from the ROM, whatever was done since the
  first switch-on: after any sequence of boots, boots cut short, confirmations, swap requests, soft
  resets and update frames in defined behaviour, \<open>flash_init\<close> gives back every byte of the ROM, so an
  interrupted update does no harm: a ROM with a record that names slot A and a valid image there
  alone is booted again, unless the lost SRAM happens to read as a confirmation. (On hardware the
  flash survives and C15 and C34 apply.)\<close>

theorem qemu_power_loss:
  assumes "length (public_key_sha256 C) = 32" "life C sim_ops E sim_soft_reset 1 st st'"
    and "sim_live rom (bs_flash st)" "cfg_typed (loaded_cfg C (sim_byte (bs_flash st)))"
    and "transfer_ok (fl_ota_slot_span sim_ops) (g_state st)"
    and "sim_power_cycle (bs_flash st') s"
  shows "sim_byte s = rom
    \<and> (boot_config_validate (stored_cfg rom) \<and> cfg_active_slot (stored_cfg rom) = SLOT_A
       \<and> image_ok C rom SLOT_A_ADDR \<and> \<not> image_ok C rom SLOT_B_ADDR
       \<and> (sb_magic sh \<noteq> SHARED_BLOCK_MAGIC \<or> sb_boot_confirmed sh = 0)
       \<longrightarrow> fst (main C sim_ops \<lparr>bs_flash = s, bs_shared = sh\<rparr>) = JumpTo SLOT_A_ADDR)"
proof -
  have s: "sim_byte s = rom"
    using sim_power_cycle_rom(1) [OF assms(6)] qemu_life_live [OF assms(1-5)] by simp
  then show ?thesis using sim.only_image_booted [OF assms(1), of "\<lparr>bs_flash = s, bs_shared = sh\<rparr>"] by simp
qed

theorem qemu_power_loss_witness:
  "\<exists>st1 s. handle_start demo_env sim_ops (demo_start 513) (demo_device SLOT_A (Some 0x10000) None) = (True, st1)
    \<and> sim_power_cycle (bs_flash st1) s
    \<and> fst (main demo_env sim_ops \<lparr>bs_flash = s, bs_shared = demo_shared\<rparr>) = JumpTo SLOT_A_ADDR"
proof -
  let ?st = "demo_device SLOT_A (Some 0x10000) None"
  obtain st1 where h: "handle_start demo_env sim_ops (demo_start 513) ?st = (True, st1)" by (rule demo_session)
  have "handle_frame demo_env sim_ops demo_delta (demo_start 513) ?st = (Some True, st1)"
    using h by (simp add: handle_frame_def demo_start_def)
  then have l: "life demo_env sim_ops demo_delta sim_soft_reset 1 ?st st1"
    by (rule life_next [OF life_refl life_step.frame [OF demo_frames_wf(1)]])
  let ?s = "snd (sim_flash_init ((bs_flash st1)\<lparr>sh_magic := 0\<rparr>))"
  have p: "sim_power_cycle (bs_flash st1) ?s"
    unfolding sim_power_cycle_def by (intro exI [of _ "(bs_flash st1)\<lparr>sh_magic := 0\<rparr>"]) (simp add: QEMU_SHADOW_MAGIC_def)
  have c: "cfg_typed (loaded_cfg demo_env (sim_byte (bs_flash ?st)))"
    unfolding demo_device_cfg by (simp add: cfg_typed_def demo_cfg_def)
  have t: "transfer_ok (fl_ota_slot_span sim_ops) (g_state ?st)" by (simp add: transfer_ok_zero)
  from qemu_power_loss [OF demo_env_len l demo_device_live c t p, of demo_shared]
  have "fst (main demo_env sim_ops \<lparr>bs_flash = ?s, bs_shared = demo_shared\<rparr>) = JumpTo SLOT_A_ADDR"
    by (simp add: demo_stored demo_slots demo_shared_def)
  then show ?thesis using h p by blast
qed

text \<open>C25: the demo application started by a boot confirms it in its sixth iteration, before that iteration's delay, and not
  before; and the next boot sees exactly that: the attempt counter is cleared and the good-boot
  counter raised if the reset came after six complete iterations, or after five and the confirmation of the sixth, and neither
  changes if it came earlier.  The counter wrapping does not matter.\<close>

theorem app_confirms_boot:
  "check_app_confirmation cfg d
      (st'\<lparr>bs_shared := app_shared (app_until B ver n late (bs_shared (snd (main C F st))) h)\<rparr>)
    = (if 6 \<le> n + (if late then 1 else 0)
       then (cfg\<lparr>cfg_boot_attempts := 0, cfg_last_good_boot := cfg_last_good_boot cfg + 1\<rparr>, True,
             st'\<lparr>bs_shared := bs_shared (snd (main C F st))\<rparr>)
       else (cfg, d, st'\<lparr>bs_shared := bs_shared (snd (main C F st))\<rparr>))"
  by (rule confirmation_after_app) (simp_all add: main_shared)

text \<open>C26: the choice of slot, for a configuration that names one of the two: the loop of
  \<open>pick_slot_to_boot\<close> computes \<open>pick_spec\<close> of the two verdicts, and every bound of at least two iterations in place
  of its four gives the same, so it is done after at most two; 0 stands for recovery.\<close>

theorem pick_slot_decision:
  assumes "flash_device F byte writable" "length (public_key_sha256 C) = 32"
    and "cfg_active_slot cfg \<in> {SLOT_A, SLOT_B}"
  shows "pick_slot_to_boot C F s cfg d =
      (case pick_spec (image_ok C (byte s) (memory_map_slot_addr (cfg_active_slot cfg)))
          (image_ok C (byte s) (memory_map_slot_addr (memory_map_other_slot (cfg_active_slot cfg)))) cfg of
         None \<Rightarrow> (0, cfg, d) | Some cfg' \<Rightarrow> (cfg_active_slot cfg', cfg', True))
    \<and> (\<forall>n \<ge> 2. pick_loop n C F s cfg d = pick_slot_to_boot C F s cfg d)"
    (is "_ = ?choice \<and> _")
proof -
  have "pick_loop n C F s cfg d = ?choice" if "2 \<le> n" for n
    unfolding crypto_verify_firmware_eq [OF assms(1,2), symmetric] by (rule pick_loop_spec [OF assms(3) that])
  moreover have "2 \<le> MAX_SWAP_RETRIES" by (simp add: MAX_SWAP_RETRIES_def)
  ultimately show ?thesis by (simp add: pick_slot_to_boot_def)
qed

theorem pick_slot_decision_witness:
  "pick_slot_to_boot demo_env sim_ops (sim_of_rom (demo_mem None None (Some 7))) (demo_cfg 0 7) False
   = (SLOT_B, (demo_cfg 0 7)\<lparr>cfg_active_slot := SLOT_B, cfg_boot_attempts := 0\<rparr>, True)
  \<and> pick_loop 2 demo_env sim_ops (sim_of_rom (demo_mem None None (Some 7))) (demo_cfg 0 7) False
   = pick_slot_to_boot demo_env sim_ops (sim_of_rom (demo_mem None None (Some 7))) (demo_cfg 0 7) False"
proof -
  have a: "cfg_active_slot (demo_cfg 0 7) \<in> {SLOT_A, SLOT_B}" by (simp add: demo_cfg_def)
  note p = pick_slot_decision [OF sim.flash_device_axioms demo_env_len a, of "sim_of_rom (demo_mem None None (Some 7))" False]
  have "pick_loop 2 demo_env sim_ops (sim_of_rom (demo_mem None None (Some 7))) (demo_cfg 0 7) False
    = pick_slot_to_boot demo_env sim_ops (sim_of_rom (demo_mem None None (Some 7))) (demo_cfg 0 7) False" using p by simp
  moreover have "pick_slot_to_boot demo_env sim_ops (sim_of_rom (demo_mem None None (Some 7))) (demo_cfg 0 7) False
   = (SLOT_B, (demo_cfg 0 7)\<lparr>cfg_active_slot := SLOT_B, cfg_boot_attempts := 0\<rparr>, True)"
    unfolding conjunct1 [OF p] by (simp add: demo_slots pick_spec_def demo_cfg_def)
  ultimately show ?thesis by blast
qed

section \<open>Delta updates\<close>

text \<open>C27: if \<open>delta_apply_patch\<close> reports success on an uncompressed patch, the other slot begins
  with exactly the file the patch format specifies for the image of the active slot, and that
  image is unchanged.\<close>

theorem patch_is_specified:
  assumes "flash_device F byte writable" "delta_layout (fl_ota_slot_span F) ab ib pt net"
    and "hpatch_lite_open (diff_stream_read F fl) (de_stack E) (staged (fl_ota_slot_span F) ib pt)
      = (OpenOk 0 n u, s)"
    and "delta_apply_patch F E fl ab ib pt net = (Applied True, fl')"
  shows "spec_patch (old_image (byte fl) ab) net (d_rest byte fl s) = Some (mem_bytes (byte fl') ib (unat net))
    \<and> mem_bytes (byte fl') ab (length (old_image (byte fl) ab)) = old_image (byte fl) ab"
  using flash_device.apply_plain_ok [OF assms] by simp

theorem patch_is_specified_witness:
  "\<exists>fl'. delta_apply_patch sim_ops demo_delta (demo_patched 7) SLOT_A_ADDR SLOT_B_ADDR 10 3 = (Applied True, fl')
   \<and> mem_bytes (sim_byte fl') SLOT_B_ADDR 3 = 0x55 # take 2 (demo_slot 7)"
proof -
  note lay = demo_layout [folded demo_span] and opn = demo_open [of 7, folded demo_span]
  obtain fl' where a: "delta_apply_patch sim_ops demo_delta (demo_patched 7) SLOT_A_ADDR SLOT_B_ADDR 10 3
      = (Applied True, fl')"
    by (rule sim.apply_plain_complete [OF TrueI lay demo_patched_header_ok opn demo_new_spec [folded demo_span]])
  then show ?thesis
    using patch_is_specified [OF sim.flash_device_axioms lay opn a]
    by (simp add: demo_patched_old demo_new)
qed

text \<open>C28: on flash that programs single bytes, and without faults, every uncompressed patch that the format gives a meaning, whose
  output has the announced length and fits the slot together with the patch, is applied.\<close>

theorem patch_applies:
  assumes "byte_flash F byte writable good gran" "good fl" "delta_layout (fl_ota_slot_span F) ab ib pt net"
    and "fh_magic (image_header (byte fl) ab) = FIRMWARE_MAGIC"
    and "fh_image_size (image_header (byte fl) ab) \<noteq> 0"
    and "512 + fh_image_size (image_header (byte fl) ab) \<le> SLOT_SIZE"
    and "hpatch_lite_open (diff_stream_read F fl) (de_stack E) (staged (fl_ota_slot_span F) ib pt)
      = (OpenOk 0 net u, s)"
    and "spec_patch (old_image (byte fl) ab) net (d_rest byte fl s) = Some new" "length new = unat net"
  shows "\<exists>fl'. delta_apply_patch F E fl ab ib pt net = (Applied True, fl')
    \<and> mem_bytes (byte fl') ib (unat net) = new"
  using assms by (rule byte_flash.apply_plain_complete) blast

theorem patch_applies_witness:
  "\<exists>fl'. delta_apply_patch sim_ops demo_delta (demo_patched 0x20000) SLOT_A_ADDR SLOT_B_ADDR 10 3 = (Applied True, fl')
   \<and> mem_bytes (sim_byte fl') SLOT_B_ADDR 3 = 0x55 # take 2 (demo_slot 0x20000)"
  using patch_applies [OF sim.byte_flash_axioms TrueI demo_layout [folded demo_span] demo_patched_header_ok
      demo_open [folded demo_span] demo_new_spec [folded demo_span]]
  by simp

text \<open>C29: compressed or not, applied or refused, a patch whose run stays within what C defines changes no byte outside the
  first \<open>expected_new_total\<close> bytes of the slot it writes. (A run that leaves it, by overrunning the four-byte
  buffer of \<open>hpatch_lite_open\<close> or the decompressor's dictionary, has the result \<open>Undefined\<close>, of which nothing is claimed.)\<close>

theorem patch_stays_in_slot:
  assumes "flash_device F byte writable" "delta_apply_patch F E fl ab ib pt net = (Applied ok, fl')"
    and "flash_range ib (unat net)" "\<not> in_range ib (unat net) x"
  shows "byte fl' x = byte fl x"
  using assms by (rule flash_device.delta_apply_frame)

theorem patch_stays_in_slot_witness:
  "\<exists>fl'. delta_apply_patch sim_ops demo_delta (demo_patched 7) SLOT_A_ADDR SLOT_B_ADDR 10 3 = (Applied True, fl')
    \<and> sim_byte fl' BOOT_CONFIG_ADDR = sim_byte (demo_patched 7) BOOT_CONFIG_ADDR"
proof -
  note lay = demo_layout [folded demo_span] and opn = demo_open [of 7, folded demo_span]
  obtain fl' where a: "delta_apply_patch sim_ops demo_delta (demo_patched 7) SLOT_A_ADDR SLOT_B_ADDR 10 3
      = (Applied True, fl')"
    by (rule sim.apply_plain_complete [OF TrueI lay demo_patched_header_ok opn demo_new_spec [folded demo_span]])
  have "sim_byte fl' BOOT_CONFIG_ADDR = sim_byte (demo_patched 7) BOOT_CONFIG_ADDR"
    by (rule patch_stays_in_slot [OF sim.flash_device_axioms a]) (simp_all add: in_range_def flash_range_def layout_simps)
  then show ?thesis using a by blast
qed

text \<open>C30: the decompressor on any input, damaged or cut short: its loop ends (the bound of the model's
  loop is never reached). Either a match points further back than the dictionary reaches, where the code reads outside
  its ring and the model stops with \<open>TUZ_OUTSIDE\<close>, or the run stays inside the ring, delivers no more than was asked for, and leaves a
  stream, ring included, that it can be called with again.\<close>

theorem decompressor_returns:
  assumes "flash_device F byte writable" "tuz_input (d_rest byte fl) z bs" "length bs < 2 ^ 59" "ring_ok z"
    and "tuz_TStream_decompress_partial (diff_stream_read F fl) z n = (r, d, z')"
  shows "r \<noteq> TUZ_BOUND
    \<and> (r \<noteq> TUZ_OUTSIDE \<longrightarrow> length d \<le> n \<and> ring_ok z'
        \<and> (\<exists>bs'. tuz_input (d_rest byte fl) z' bs' \<and> length bs' \<le> length bs))"
  using flash_device.tuz_flash_ends [OF assms(1-3,5)] flash_device.tuz_flash_keeps_ring [OF assms(1,4,5)] by blast

theorem decompressor_returns_witness:
  "\<exists>r d z'. tuz_TStream_decompress_partial (diff_stream_read sim_ops (demo_patched 7))
      (tuz_TStream_open (staged 471040 SLOT_B_ADDR 10) (replicate 2048 0) 1024 1024) 16 = (r, d, z')
    \<and> r \<noteq> TUZ_BOUND \<and> (r \<noteq> TUZ_OUTSIDE \<longrightarrow> length d \<le> 16 \<and> ring_ok z')"
proof -
  let ?z = "tuz_TStream_open (staged 471040 SLOT_B_ADDR 10) (replicate 2048 0) 1024 1024"
  obtain r d z' where run:
    "tuz_TStream_decompress_partial (diff_stream_read sim_ops (demo_patched 7)) ?z 16 = (r, d, z')"
    by (rule prod_cases3)
  have input: "tuz_input (d_rest sim_byte (demo_patched 7)) ?z
      (d_rest sim_byte (demo_patched 7) (staged 471040 SLOT_B_ADDR 10))"
    by (rule tuz_open_input) simp_all
  have len: "length (d_rest sim_byte (demo_patched 7) (staged 471040 SLOT_B_ADDR 10)) < 2 ^ 59"
    by (simp add: d_rest_def staged_def)
  have ring: "ring_ok ?z" by (rule ring_open) simp_all
  from decompressor_returns [OF sim.flash_device_axioms input len ring run] run show ?thesis by blast
qed

section \<open>Image verification in detail\<close>

text \<open>C31: fed in any chunks, from any context, the code's SHA-256 is the FIPS 180-4 digest of
  the concatenation: buffering, length counting and the two padding branches included.\<close>

theorem sha256_streaming:
  assumes "length (sha_data ctx) = 64"
  shows "sha256_final (fold (\<lambda>d c. sha256_update c d) chunks (sha256_init ctx)) = fips_sha256 (concat chunks)"
proof -
  have "fold (\<lambda>d c. sha256_update c d) chunks c = sha256_update c (concat chunks)" for c
    by (induction chunks arbitrary: c) (simp_all add: sha256_update_append)
  then show ?thesis using sha256_update_final [OF assms] by simp
qed

theorem sha256_streaming_witness:
  "sha256_final (sha256_update (sha256_update (sha256_init stack_ctx) [0x61]) [0x62, 0x63])
   = fips_sha256 [0x61, 0x62, 0x63]"
  using sha256_streaming [OF length_stack_ctx, of "[[0x61], [0x62, 0x63]]"] by simp

text \<open>C32: changing at most four consecutive payload bytes of an image that \<open>crypto_verify_firmware\<close> accepts, under an unchanged
  header, always makes it refuse the slot: the checksum alone catches it, whatever the signature
  routine answers.\<close>

theorem payload_burst_caught:
  assumes "flash_device F byte writable" "length (public_key_sha256 C) = 32"
    and "crypto_verify_firmware C F s a" "image_header (byte s') a = image_header (byte s) a"
    and "image_payload (byte s) a = pre @ d @ post" "image_payload (byte s') a = pre @ e @ post"
    and "length d = length e" "length d \<le> 4" "d \<noteq> e"
  shows "\<not> crypto_verify_firmware C F s' a"
  unfolding crypto_verify_firmware_eq [OF assms(1,2)]
  by (rule image_ok_burst [OF assms(3) [unfolded crypto_verify_firmware_eq [OF assms(1,2)]] assms(4-9)])

theorem payload_burst_caught_witness:
  "crypto_verify_firmware demo_env sim_ops (sim_of_rom (one_byte_image 0x55)) SLOT_A_ADDR
    \<and> \<not> crypto_verify_firmware demo_env sim_ops (sim_of_rom (one_byte_image 0x56)) SLOT_A_ADDR"
proof -
  have ok: "crypto_verify_firmware demo_env sim_ops (sim_of_rom (one_byte_image 0x55)) SLOT_A_ADDR"
    unfolding crypto_verify_firmware_eq [OF sim.flash_device_axioms demo_env_len] by (simp add: one_byte_ok)
  from payload_burst_caught [OF sim.flash_device_axioms demo_env_len ok,
      of "sim_of_rom (one_byte_image 0x56)" "[]" "[0x55]" "[]" "[0x56]"]
  show ?thesis by (simp add: ok one_byte_layout)
qed

section \<open>The configuration\<close>

text \<open>C33: what a save that reports success wrote is what the next load returns, stamped with
  its checksum.\<close>

theorem config_save_load:
  assumes "flash_device F byte writable" "boot_config_save F s c = (True, s')"
    and "cfg_magic c = BOOT_CONFIG_MAGIC"
  shows "boot_config_load C F s' = (True, boot_config_stamp_crc c)"
  using assms by (rule flash_device.save_load)

theorem config_save_load_witness:
  "\<exists>s'. boot_config_save sim_ops (sim_of_rom (\<lambda>_. 0)) (demo_cfg 3 4) = (True, s')
   \<and> boot_config_load demo_env sim_ops s' = (True, boot_config_stamp_crc (demo_cfg 3 4))"
proof -
  obtain s' where s': "boot_config_save sim_ops (sim_of_rom (\<lambda>_. 0)) (demo_cfg 3 4) = (True, s')"
    using sim.save_succeeds [of "sim_of_rom (\<lambda>_. 0)" "demo_cfg 3 4"] by (metis prod.collapse)
  from config_save_load [OF sim.flash_device_axioms s'] s' show ?thesis by simp
qed

text \<open>C34: power lost during a save, after the erase and before the record's last word, the checksum, with any whole number of
  programming units of the twenty bytes before it written: the next load recovers from slot B alone, since the erase took slot A's
  header; with no valid image in slot B the anti-downgrade floor falls to zero. The one exception is a record whose
  checksum happens to be the value of erased flash: with its twenty bytes written it is complete.\<close>

theorem interrupted_save_recovers_b:
  assumes "reliable_flash F byte writable good gran" "good s" "length (public_key_sha256 C) = 32"
    and "k \<le> 20" "gran dvd k"
  shows "boot_config_load C F (save_interrupted F s c k)
    = (if k = 20 \<and> cfg_crc32 (boot_config_stamp_crc c) = 0xFFFFFFFF \<and> cfg_magic c = BOOT_CONFIG_MAGIC
       then (True, boot_config_stamp_crc c)
       else (False, recovered_cfg None (slot_version C (byte s) SLOT_B_ADDR)))"
  using assms by (rule reliable_flash.interrupted_load)

theorem interrupted_save_recovers_b_witness:
  "boot_config_antidowngrade_floor (snd (boot_config_load demo_env sim_ops
     (save_interrupted sim_ops (sim_of_rom (demo_mem (Some (demo_cfg 0x50000 0)) (Some 0x50000) None)) (demo_cfg 0x50000 0) 7)))
   = 0"
  by (simp add: interrupted_save_recovers_b [OF sim.reliable_flash_axioms TrueI demo_env_len] demo_slot_version
      recovered_floor ver0_def)

section \<open>Frames on the line\<close>

text \<open>C35: on the wire a well-formed frame behind noise without a start byte is read back as it
  was encoded, and nothing after it is consumed.\<close>

theorem frame_round_trip:
  assumes "frame_wf f" "OTA_FRAME_SOH \<notin> set junk" "w_rx w = map Some (junk @ encode_frame f) @ rx"
  shows "\<exists>w'. read_frame wire_bus w = Some (Inr f, w') \<and> w_rx w' = rx \<and> w_tx w' = w_tx w"
  by (rule wire_frame [OF wire_adv_refl [of w]])
    (use frame_received [OF assms(1,2), of rx] assms(3) in \<open>auto simp: wire_adv_def\<close>)

theorem frame_round_trip_witness:
  "\<exists>w'. read_frame wire_bus (demo_wire (map Some ([0x00, 0x7F] @ encode_frame (demo_start 513)) @ [None]))
     = Some (Inr (demo_start 513), w') \<and> w_rx w' = [None]"
  using frame_round_trip [OF demo_frames_wf(1), of "[0x00, 0x7F]" "demo_wire (map Some ([0x00, 0x7F] @ encode_frame (demo_start 513)) @ [None])"
      513 "[None]"]
  by (simp add: OTA_FRAME_SOH_def demo_wire_def) blast

text \<open>C36: a frame that is accepted was sent: it is well-formed, at most 1024 bytes long, and the
  bytes consumed are noise without a start byte followed by exactly its encoding.\<close>

theorem frame_authentic:
  assumes "read_frame wire_bus w = Some (Inr f, w')"
  shows "frame_wf f \<and> length (fr_data f) \<le> 1024
    \<and> (\<exists>junk. heard (w_rx w) = junk @ encode_frame f @ heard (w_rx w') \<and> OTA_FRAME_SOH \<notin> set junk)"
proof -
  have "rx_frame (w_rx w) = (Inr f, w_rx w')"
    by (rule wire_frame [OF wire_adv_refl [of w]]) (use assms in \<open>simp add: wire_adv_def prod_eq_iff\<close>)
  then obtain junk where "frame_wf f" "heard (w_rx w) = junk @ encode_frame f @ heard (w_rx w')"
    "OTA_FRAME_SOH \<notin> set junk" by (rule frame_sound)
  then show ?thesis by (auto simp: frame_wf_def OTA_MAX_PAYLOAD_def word_le_nat_alt)
qed

theorem frame_authentic_witness:
  "\<exists>w'. read_frame wire_bus (demo_wire (map Some (encode_frame (demo_start 513)))) = Some (Inr (demo_start 513), w')
   \<and> (\<exists>junk. heard (map Some (encode_frame (demo_start 513))) = junk @ encode_frame (demo_start 513) @ heard (w_rx w'))"
proof -
  let ?w = "demo_wire (map Some (encode_frame (demo_start 513)))"
  have "rx_frame (w_rx ?w) = (Inr (demo_start 513), [])"
    using frame_received [OF demo_frames_wf(1), of "[]" 513 "[]"] by (simp add: demo_wire_def)
  then obtain w' where r: "read_frame wire_bus ?w = Some (Inr (demo_start 513), w')"
    using wire_frame [OF wire_adv_refl [of ?w]] by (metis fst_conv)
  from frame_authentic [OF r] r show ?thesis by (auto simp: demo_wire_def)
qed

section \<open>Recovery mode\<close>

text \<open>C37: if the recovery menu is left within what C defines, the sectors of the bootloader are as they were,
  and so is the shared block unless an accepted update requested a swap. (The exit for a delta patch
  that drives the patcher out of what C defines is excluded: nothing is claimed after it.)\<close>

theorem recovery_is_safe:
  assumes "flash_device F byte writable" "length (public_key_sha256 C) = 32"
    and "recovery_mode_run C F E wire_bus st w = Some (e, st', w')" "e \<noteq> RecoveryUndefined"
  shows "boot_sectors_same byte (bs_flash st) (bs_flash st')
    \<and> (bs_shared st' = bs_shared st
       \<or> e = RecoveryReset \<and> swap_requested C (byte (bs_flash st')) (bs_shared st'))"
  using flash_device.recovery_outcome [OF assms(1-3)] by blast

theorem recovery_is_safe_witness:
  "\<exists>w'. recovery_mode_run demo_env sim_ops demo_delta wire_bus (demo_device SLOT_A None None) (demo_wire [Some 0x72])
      = Some (RecoveryReset, demo_device SLOT_A None None, w')
   \<and> boot_sectors_same sim_byte (bs_flash (demo_device SLOT_A None None)) (bs_flash (demo_device SLOT_A None None))"
proof -
  obtain w' where r: "recovery_mode_run demo_env sim_ops demo_delta wire_bus (demo_device SLOT_A None None) (demo_wire [Some 0x72])
      = Some (RecoveryReset, demo_device SLOT_A None None, w')"
    by (rule recovery_reboot [where pre = "[]" and c = "0x72" and w = "demo_wire [Some 0x72]" and rx = "[]"]) (simp_all add: is_cmd_def demo_wire_def)
  from recovery_is_safe [OF sim.flash_device_axioms demo_env_len r] r show ?thesis by blast
qed

section \<open>The flash driver on hardware\<close>

text \<open>C38: the hardware backend of the flash driver keeps the contract the rest of the bootloader
  is proved against. On every controller that behaves as the reference manual says (STRT may read as set until BSY clears), from states with the mass-erase
  bit clear, that ends each operation within the five million polls the driver allows it, a read
  answers with the bytes of flash, a successful erase or program has exactly its effect, and
  one that fails changes nothing outside its sectors or its range.\<close>

theorem hardware_backend:
  assumes "flash_ctrl B quiet"
  shows "flash_device (hw_ops B) (hw_load B) in_flash"
  using assms by (rule flash_ctrl.backend_ok)

theorem hardware_backend_witness:
  "flash_device (hw_ops (bc_bus 1000)) (hw_load (bc_bus 1000)) in_flash
    \<and> (\<exists>s. fst (bus_rd (bc_bus 1000) s FLASH_CR) AND FLASH_CR_STRT \<noteq> 0 \<and> fst (bus_rd (bc_bus 1000) s FLASH_SR) AND FLASH_SR_BSY \<noteq> 0)"
proof -
  let ?s = "\<lparr>bc_core = \<lparr>fc_mem = (\<lambda>_. 0), fc_cr = 0, fc_sr = 0, fc_key1 = False\<rparr>, bc_left = 3, bc_strt = True\<rparr>"
  from bc_shows_busy [of ?s] show ?thesis
    using hardware_backend [OF bc.flash_ctrl_axioms, of 1000] by auto
qed

text \<open>C39: over the model of the controller the hardware driver is a reliable device: from a state
  without pending errors, which \<open>flash_init\<close> establishes after a reset, every erase inside
  flash succeeds, whole words are programmed into erased flash, and every operation, whatever
  it returns, leads to such a state again. The results about boots and updates on reliable
  devices therefore hold for it.\<close>

theorem hardware_is_reliable:
  "reliable_flash (hw_ops fc_bus) (hw_load fc_bus) in_flash fc_good 4
    \<and> fc_good (snd (hw_flash_init fc_bus (fc_reset m sr)))"
  by (rule fc_backend_ready)

text \<open>C40: on a controller that checks the width of stores, no run of bytes whose length is not
  a multiple of four can be programmed once a sector has been erased: the erase selects word
  width and the byte phase of \<^verbatim>\<open>flash_program_bytes\<close> never selects another.\<close>

theorem tail_refused:
  assumes "hw_erase_sector fc_bus s start = (FLASH_OK, s')"
    and "flash_range a (length d)" "length d mod 4 \<noteq> 0"
  shows "fst (hw_program_bytes fc_bus s' a d) \<noteq> FLASH_OK"
  using assms by (rule fc_tail_after_erase)

theorem tail_refused_witness:
  "\<exists>s'. hw_erase_sector fc_bus \<lparr>fc_mem = (\<lambda>_. 0xFF), fc_cr = 0, fc_sr = 0, fc_key1 = False\<rparr> 0x08020000
      = (FLASH_OK, s')
    \<and> fst (hw_program_bytes fc_bus s' 0x08020000 [1, 2, 3, 4, 5]) \<noteq> FLASH_OK"
proof -
  let ?s = "\<lparr>fc_mem = (\<lambda>_. 0xFF), fc_cr = 0, fc_sr = 0, fc_key1 = False\<rparr>"
  have i: "sector_index_for_addr 0x08020000 = 5" by code_simp
  have "k_sector_start ! 5 = 0x08020000" by code_simp
  then obtain s' where e: "hw_erase_sector fc_bus ?s 0x08020000 = (FLASH_OK, s')"
    using fc_blank_erase [of ?s "0x08020000"] by (auto simp: fc_blank_def i)
  have "flash_range 0x08020000 (length [1, 2, 3, 4, 5 :: u8])" by (simp add: flash_range_def layout_simps)
  then have "fst (hw_program_bytes fc_bus s' 0x08020000 [1, 2, 3, 4, 5]) \<noteq> FLASH_OK"
    by (rule tail_refused [OF e]) simp
  then show ?thesis using e by blast
qed

end
